(* ===== verification/Prelude.thy ===== *)
theory Prelude
  imports Main "HOL-Library.Multiset"
begin

text \<open>
  Shared vocabulary of the development: the machine word size, the ordering that Rust's
  \<open>cmp\<close> returns, the standard library's binary search and max-heap as the source uses them,
  and the list and option lemmas several components need.

  Versions (\<open>LV\<close>), sequence numbers and lengths are Rust \<open>usize\<close> values.  They count
  operations, so they are modelled as \<open>nat\<close>; where the code relies on the width of the type
  (sentinels, the doubling of versions in the dominator queue) the bound \<open>usize_max\<close> appears
  in the definition.  A panic (\<open>unwrap\<close> of nothing, a failed \<open>assert!\<close>) is the value
  \<open>None\<close> of an option.
\<close>

type_synonym lv = nat
type_synonym frontier = "lv list"

definition usize_max :: nat where
  "usize_max = 18446744073709551615"

named_theorems span_defs \<open>definitions of the span operations\<close>
named_theorems wf_intros \<open>introduction rules for the well-formedness predicates\<close>

lemma upt_split: "i \<le> j \<Longrightarrow> j \<le> k \<Longrightarrow> [i..<j] @ [j..<k] = [i..<k]"
  by (metis le_iff_add upt_add_eq_append)

subsection \<open>Comparison results\<close>

datatype ordering = Less | Equal | Greater

fun ord_reverse :: "ordering \<Rightarrow> ordering" where
  "ord_reverse Less = Greater"
| "ord_reverse Equal = Equal"
| "ord_reverse Greater = Less"

fun ord_then :: "ordering \<Rightarrow> ordering \<Rightarrow> ordering" where
  "ord_then Equal o2 = o2"
| "ord_then o1 _ = o1"

definition cmp :: "'a::linorder \<Rightarrow> 'a \<Rightarrow> ordering" where
  "cmp a b = (if a < b then Less else if a = b then Equal else Greater)"

lemma cmp_simps [simp]:
  "cmp a b = Less \<longleftrightarrow> a < b"
  "cmp a b = Equal \<longleftrightarrow> a = b"
  "cmp a b = Greater \<longleftrightarrow> b < a"
  "(Less = cmp a b) \<longleftrightarrow> a < b"
  "(Equal = cmp a b) \<longleftrightarrow> a = b"
  "(Greater = cmp a b) \<longleftrightarrow> b < a"
  by (auto simp: cmp_def)

lemma cmp_refl [simp]: "cmp a a = Equal"
  by (simp add: cmp_def)

subsection \<open>Slice binary search\<close>

text \<open>
  \<open>binary_search_by\<close> of the standard library: \<open>Inr i\<close> is \<open>Ok(i)\<close>, \<open>Inl i\<close> is \<open>Err(i)\<close>.
\<close>

function binary_search_loop ::
  "('a \<Rightarrow> ordering) \<Rightarrow> 'a list \<Rightarrow> nat \<Rightarrow> nat \<Rightarrow> nat + nat" where
  "binary_search_loop f xs left right =
     (if left < right then
        (let mid = left + (right - left) div 2
         in case f (xs ! mid) of
              Equal \<Rightarrow> Inr mid
            | Less \<Rightarrow> binary_search_loop f xs (mid + 1) right
            | Greater \<Rightarrow> binary_search_loop f xs left mid)
      else Inl left)"
  by pat_completeness auto
termination
  by (relation "measure (\<lambda>(f, xs, left, right). right - left)") auto

declare binary_search_loop.simps [simp del]

definition binary_search_by :: "('a \<Rightarrow> ordering) \<Rightarrow> 'a list \<Rightarrow> nat + nat" where
  "binary_search_by f xs = binary_search_loop f xs 0 (length xs)"

text \<open>
  What the search promises on a list partitioned by the comparison (first the elements that
  compare \<open>Less\<close>, then those that compare \<open>Equal\<close>, then the rest).
\<close>

definition partitioned :: "('a \<Rightarrow> ordering) \<Rightarrow> 'a list \<Rightarrow> bool" where
  "partitioned f xs \<longleftrightarrow>
     (\<forall>i j. i < j \<longrightarrow> j < length xs \<longrightarrow>
        (f (xs ! j) = Less \<longrightarrow> f (xs ! i) = Less) \<and>
        (f (xs ! i) = Greater \<longrightarrow> f (xs ! j) = Greater))"

lemma partitionedD:
  assumes "partitioned f xs" "i < j" "j < length xs"
  shows "f (xs ! j) = Less \<Longrightarrow> f (xs ! i) = Less"
    and "f (xs ! i) = Greater \<Longrightarrow> f (xs ! j) = Greater"
  using assms by (auto simp: partitioned_def)

lemma binary_search_loop_correct:
  assumes "partitioned f xs" "left \<le> right" "right \<le> length xs"
    and "\<forall>i < left. f (xs ! i) = Less"
    and "\<forall>i. right \<le> i \<longrightarrow> i < length xs \<longrightarrow> f (xs ! i) = Greater"
  shows "case binary_search_loop f xs left right of
           Inr i \<Rightarrow> i < length xs \<and> f (xs ! i) = Equal
         | Inl i \<Rightarrow> i \<le> length xs \<and> (\<forall>j < i. f (xs ! j) = Less) \<and>
             (\<forall>j. i \<le> j \<longrightarrow> j < length xs \<longrightarrow> f (xs ! j) = Greater)"
  using assms
proof (induction f xs left right rule: binary_search_loop.induct)
  case (1 f xs left right)
  show ?case
  proof (cases "left < right")
    case False
    then show ?thesis
      using "1.prems" by (subst binary_search_loop.simps) auto
  next
    case True
    define mid where "mid = left + (right - left) div 2"
    have mid: "left \<le> mid" "mid < right" "mid < length xs"
      using True "1.prems"(3) unfolding mid_def by auto
    show ?thesis
    proof (cases "f (xs ! mid)")
      case Equal
      then show ?thesis
        using True mid by (subst binary_search_loop.simps) (simp add: mid_def Let_def)
    next
      case Less
      have "\<forall>i < mid + 1. f (xs ! i) = Less"
        using Less partitionedD(1)[OF "1.prems"(1) _ mid(3)]
        by (auto simp: less_Suc_eq)
      with "1.IH"(1)[OF True mid_def Less] "1.prems" mid
      show ?thesis
        using True Less by (subst binary_search_loop.simps) (simp add: mid_def Let_def)
    next
      case Greater
      have "\<forall>i. mid \<le> i \<longrightarrow> i < length xs \<longrightarrow> f (xs ! i) = Greater"
        using Greater partitionedD(2)[OF "1.prems"(1)]
        by (metis le_neq_implies_less)
      with "1.IH"(2)[OF True mid_def Greater] "1.prems" mid
      show ?thesis
        using True Greater by (subst binary_search_loop.simps) (simp add: mid_def Let_def)
    qed
  qed
qed

lemma binary_search_by_cases:
  assumes "partitioned f xs"
  obtains (Ok) i where "binary_search_by f xs = Inr i" "i < length xs" "f (xs ! i) = Equal"
  | (Err) i where "binary_search_by f xs = Inl i" "i \<le> length xs"
      "\<And>j. j < i \<Longrightarrow> f (xs ! j) = Less"
      "\<And>j. i \<le> j \<Longrightarrow> j < length xs \<Longrightarrow> f (xs ! j) = Greater"
proof -
  have "case binary_search_by f xs of
           Inr i \<Rightarrow> i < length xs \<and> f (xs ! i) = Equal
         | Inl i \<Rightarrow> i \<le> length xs \<and> (\<forall>j < i. f (xs ! j) = Less) \<and>
             (\<forall>j. i \<le> j \<longrightarrow> j < length xs \<longrightarrow> f (xs ! j) = Greater)"
    unfolding binary_search_by_def
    by (rule binary_search_loop_correct) (use assms in auto)
  then show thesis
    using Ok Err by (cases "binary_search_by f xs") auto
qed


subsection \<open>The standard library's binary heap\<close>

text \<open>
  \<open>std::collections::BinaryHeap\<close> is a max-heap.  Only what the source observes of it is
  modelled: \<open>push\<close>, \<open>pop\<close> (the greatest element) and \<open>peek\<close>.  The heap is kept
  as a descending list, which makes these operations executable.
\<close>

fun heap_push :: "'a::linorder \<Rightarrow> 'a list \<Rightarrow> 'a list" where
  "heap_push x [] = [x]"
| "heap_push x (y # ys) = (if y \<le> x then x # y # ys else y # heap_push x ys)"

fun heap_peek :: "'a list \<Rightarrow> 'a option" where
  "heap_peek [] = None"
| "heap_peek (x # xs) = Some x"

fun heap_pop :: "'a list \<Rightarrow> ('a \<times> 'a list) option" where
  "heap_pop [] = None"
| "heap_pop (x # xs) = Some (x, xs)"

definition heap_extend :: "'a::linorder list \<Rightarrow> 'a list \<Rightarrow> 'a list" where
  "heap_extend xs h = fold heap_push xs h"

definition descending :: "'a::linorder list \<Rightarrow> bool" where
  "descending xs \<longleftrightarrow> sorted_wrt (\<ge>) xs"

locale max_heap =
  fixes push :: "'a::linorder \<Rightarrow> 'h \<Rightarrow> 'h"
    and pop :: "'h \<Rightarrow> ('a \<times> 'h) option"
    and peek :: "'h \<Rightarrow> 'a option"
    and elems :: "'h \<Rightarrow> 'a multiset"
    and invar :: "'h \<Rightarrow> bool"
  assumes push_invar: "invar h \<Longrightarrow> invar (push x h)"
    and push_elems: "elems (push x h) = add_mset x (elems h)"
    and pop_none: "pop h = None \<longleftrightarrow> elems h = {#}"
    and pop_some: "invar h \<Longrightarrow> pop h = Some (x, h') \<Longrightarrow>
      invar h' \<and> elems h = add_mset x (elems h') \<and> (\<forall>y \<in># elems h'. y \<le> x)"
    and peek_pop: "peek h = map_option fst (pop h)"
begin

lemma pop_elem_max:
  "invar h \<Longrightarrow> pop h = Some (x, h') \<Longrightarrow> y \<in># elems h \<Longrightarrow> y \<le> x"
  using pop_some by fastforce

lemma fold_push_elems: "elems (fold push xs h) = mset xs + elems h"
  by (induction xs arbitrary: h) (auto simp: push_elems)

lemma fold_push_invar: "invar h \<Longrightarrow> invar (fold push xs h)"
  by (induction xs arbitrary: h) (auto simp: push_invar)

lemma peek_none: "peek h = None \<longleftrightarrow> elems h = {#}"
  by (simp add: peek_pop pop_none)

end

lemma heap_push_elems: "mset (heap_push x h) = add_mset x (mset h)"
  by (induction h) auto

lemma heap_push_set [simp]: "set (heap_push x h) = insert x (set h)"
  by (induction h) auto

lemma heap_push_length [simp]: "length (heap_push x h) = Suc (length h)"
  by (induction h) auto

lemma descending_simps [simp]:
  "descending []"
  "descending (x # xs) \<longleftrightarrow> (\<forall>y \<in> set xs. y \<le> x) \<and> descending xs"
  by (auto simp: descending_def)

lemma heap_push_descending: "descending h \<Longrightarrow> descending (heap_push x h)"
  by (induction h) (auto simp: not_le)

interpretation std_heap: max_heap heap_push heap_pop heap_peek mset descending
proof
  show "\<And>h x h'. descending h \<Longrightarrow> heap_pop h = Some (x, h') \<Longrightarrow>
      descending h' \<and> mset h = add_mset x (mset h') \<and> (\<forall>y \<in># mset h'. y \<le> x)"
    by (case_tac h) auto
  show "\<And>h. (heap_pop h = None) = (mset h = {#})"
    by (case_tac h) auto
  show "\<And>h. heap_peek h = map_option fst (heap_pop h)"
    by (case_tac h) auto
qed (auto simp: heap_push_elems heap_push_descending)

lemma heap_extend_set [simp]: "set (heap_extend xs h) = set xs \<union> set h"
  by (induction xs arbitrary: h) (auto simp: heap_extend_def)

lemma heap_extend_descending: "descending h \<Longrightarrow> descending (heap_extend xs h)"
  unfolding heap_extend_def by (rule std_heap.fold_push_invar)

lemma heap_extend_mset: "mset (heap_extend xs h) = mset xs + mset h"
  unfolding heap_extend_def by (rule std_heap.fold_push_elems)

lemma heap_extend_simps [simp]:
  "heap_extend [] h = h"
  "heap_extend (x # xs) h = heap_extend xs (heap_push x h)"
  by (auto simp: heap_extend_def)

end
