(* ===== verification/Spans.thy ===== *)
theory Spans
  imports Prelude
begin

text \<open>
  The run-length span traits of \<open>crates/rle\<close> and the spans the core uses.

  A span stands for a run of consecutive items.  The Rust traits \<open>HasLength\<close>,
  \<open>SplitableSpan\<close> and \<open>MergableSpan\<close> are the locales below; each has an abstraction
  function \<open>items\<close> that lists what the run contains, so that splitting and joining runs
  is splitting and joining lists.  The laws of \<open>split_join_span\<close> are the ones the source
  itself checks in \<open>test_splitable_methods_valid\<close>.  A method that mutates \<open>self\<close> and
  returns a span is a function to the pair (new \<open>self\<close>, returned span).
\<close>

locale splitable_span =
  fixes len :: "'a \<Rightarrow> nat"
    and items :: "'a \<Rightarrow> 'i list"
    and valid :: "'a \<Rightarrow> bool"
    and truncate :: "'a \<Rightarrow> nat \<Rightarrow> 'a \<times> 'a"
  assumes length_items: "valid x \<Longrightarrow> length (items x) = len x"
    and truncate_valid: "valid x \<Longrightarrow> 0 < at \<Longrightarrow> at < len x \<Longrightarrow>
      valid (fst (truncate x at)) \<and> valid (snd (truncate x at))"
    and truncate_left: "valid x \<Longrightarrow> 0 < at \<Longrightarrow> at < len x \<Longrightarrow>
      items (fst (truncate x at)) = take at (items x)"
    and truncate_right: "valid x \<Longrightarrow> 0 < at \<Longrightarrow> at < len x \<Longrightarrow>
      items (snd (truncate x at)) = drop at (items x)"
begin

lemma truncate_len:
  assumes "valid x" "0 < at" "at < len x"
  shows "len (fst (truncate x at)) = at" "len (snd (truncate x at)) = len x - at"
  using assms truncate_valid[OF assms] truncate_left[OF assms] truncate_right[OF assms]
  by (metis length_items length_take min.absorb4, metis length_items length_drop)

lemma truncate_items:
  assumes "valid x" "0 < at" "at < len x"
  shows "items (fst (truncate x at)) @ items (snd (truncate x at)) = items x"
  using assms by (simp add: truncate_left truncate_right)

end

locale mergable_span =
  fixes items :: "'a \<Rightarrow> 'i list"
    and valid :: "'a \<Rightarrow> bool"
    and can_append :: "'a \<Rightarrow> 'a \<Rightarrow> bool"
    and app :: "'a \<Rightarrow> 'a \<Rightarrow> 'a"
    and prep :: "'a \<Rightarrow> 'a \<Rightarrow> 'a"
  assumes append_valid: "valid a \<Longrightarrow> valid b \<Longrightarrow> can_append a b \<Longrightarrow> valid (app a b)"
    and append_items: "valid a \<Longrightarrow> valid b \<Longrightarrow> can_append a b \<Longrightarrow>
      items (app a b) = items a @ items b"
    and prepend_append: "valid a \<Longrightarrow> valid b \<Longrightarrow> can_append a b \<Longrightarrow>
      prep b a = app a b"

locale split_join_span = splitable_span len items valid truncate +
  mergable_span items valid can_append app prep
  for len :: "'a \<Rightarrow> nat" and items :: "'a \<Rightarrow> 'i list" and valid truncate
    and can_append app prep +
  fixes truncate_keeping_right :: "'a \<Rightarrow> nat \<Rightarrow> 'a \<times> 'a"
  assumes truncate_keeping_right: "valid x \<Longrightarrow> 0 < at \<Longrightarrow> at < len x \<Longrightarrow>
      truncate_keeping_right x at = (snd (truncate x at), fst (truncate x at))"
    and rejoin: "valid x \<Longrightarrow> 0 < at \<Longrightarrow> at < len x \<Longrightarrow>
      can_append (fst (truncate x at)) (snd (truncate x at)) \<and>
      app (fst (truncate x at)) (snd (truncate x at)) = x"
begin

lemma rejoin_prepend:
  assumes "valid x" "0 < at" "at < len x"
  shows "prep (snd (truncate x at)) (fst (truncate x at)) = x"
  using assms rejoin[OF assms] truncate_valid[OF assms] by (simp add: prepend_append)

lemma append_len:
  "valid a \<Longrightarrow> valid b \<Longrightarrow> can_append a b \<Longrightarrow> len (app a b) = len a + len b"
  using append_valid append_items length_items by (metis length_append)

end

text \<open>The trait's provided methods, over the required ones.\<close>

definition default_truncate_keeping_right ::
  "('a \<Rightarrow> nat \<Rightarrow> 'a \<times> 'a) \<Rightarrow> 'a \<Rightarrow> nat \<Rightarrow> 'a \<times> 'a" where
  "default_truncate_keeping_right truncate x at =
     (let (l, r) = truncate x at in (r, l))"

definition default_prepend :: "('a \<Rightarrow> 'a \<Rightarrow> 'a) \<Rightarrow> 'a \<Rightarrow> 'a \<Rightarrow> 'a" where
  "default_prepend app x other = app other x"

definition trim :: "('a \<Rightarrow> nat) \<Rightarrow> ('a \<Rightarrow> nat \<Rightarrow> 'a \<times> 'a) \<Rightarrow> 'a \<Rightarrow> nat \<Rightarrow> 'a \<times> 'a option" where
  "trim len truncate x at =
     (if at \<ge> len x then (x, None) else (let (l, r) = truncate x at in (l, Some r)))"

text \<open>
  \<open>Shatter\<close> yields the items of a run one at a time; \<open>shatter\<close> below collects what the
  iterator produces, with one unit of fuel per call of \<open>next\<close> (a run of \<open>n\<close> items is
  exhausted after \<open>n\<close> calls, or one for the empty run).
\<close>

fun shatter_next :: "('a \<Rightarrow> nat) \<Rightarrow> ('a \<Rightarrow> nat \<Rightarrow> 'a \<times> 'a) \<Rightarrow> 'a option \<Rightarrow> 'a option \<times> 'a option" where
  "shatter_next len truncr None = (None, None)"
| "shatter_next len truncr (Some val) =
     (if len val > 1 then (let (r, l) = truncr val 1 in (Some r, Some l))
      else (None, Some val))"

fun shatter_collect ::
  "('a \<Rightarrow> nat) \<Rightarrow> ('a \<Rightarrow> nat \<Rightarrow> 'a \<times> 'a) \<Rightarrow> nat \<Rightarrow> 'a option \<Rightarrow> 'a list" where
  "shatter_collect len truncr 0 st = []"
| "shatter_collect len truncr (Suc n) st =
     (case shatter_next len truncr st of
        (st', None) \<Rightarrow> []
      | (st', Some x) \<Rightarrow> x # shatter_collect len truncr n st')"

definition shatter :: "('a \<Rightarrow> nat) \<Rightarrow> ('a \<Rightarrow> nat \<Rightarrow> 'a \<times> 'a) \<Rightarrow> 'a \<Rightarrow> 'a list" where
  "shatter len truncr x = shatter_collect len truncr (Suc (len x)) (Some x)"

context split_join_span
begin

lemma trim_items:
  assumes "valid x" "0 < at"
  shows "items (fst (trim len truncate x at)) = take at (items x)"
    and "(case snd (trim len truncate x at) of None \<Rightarrow> [] | Some r \<Rightarrow> items r) = drop at (items x)"
proof -
  have "at < len x \<Longrightarrow> truncate x at = (fst (truncate x at), snd (truncate x at))" by simp
  then show "items (fst (trim len truncate x at)) = take at (items x)"
    using assms truncate_left[of x at] length_items[of x]
    by (cases "at < len x") (auto simp: trim_def split: prod.splits)
  show "(case snd (trim len truncate x at) of None \<Rightarrow> [] | Some r \<Rightarrow> items r) = drop at (items x)"
    using assms truncate_right[of x at] length_items[of x]
    by (cases "at < len x") (auto simp: trim_def split: prod.splits)
qed

lemma shatter_collect_none: "shatter_collect len truncr n None = []"
  by (cases n) auto

lemma shatter_collect_items:
  "valid x \<Longrightarrow> 0 < len x \<Longrightarrow> len x \<le> n \<Longrightarrow>
   map items (shatter_collect len truncate_keeping_right n (Some x)) = map (\<lambda>i. [i]) (items x)"
proof (induction n arbitrary: x)
  case 0
  then show ?case by simp
next
  case (Suc n)
  show ?case
  proof (cases "len x > 1")
    case True
    let ?l = "fst (truncate x 1)" and ?r = "snd (truncate x 1)"
    have r: "valid ?r" "len ?r = len x - 1"
      using truncate_valid[of x 1] truncate_len[of x 1] Suc.prems True by auto
    have "items ?l = take 1 (items x)" "items ?r = drop 1 (items x)"
      using truncate_left[of x 1] truncate_right[of x 1] Suc.prems True by auto
    moreover have "items x \<noteq> []"
      using length_items[OF Suc.prems(1)] True by auto
    ultimately show ?thesis
      using Suc.IH[OF r(1)] r(2) True Suc.prems
      by (cases "items x") (auto simp: truncate_keeping_right)
  next
    case False
    then have "length (items x) = 1"
      using length_items[OF Suc.prems(1)] Suc.prems(2) by simp
    then show ?thesis
      using False by (auto simp: length_Suc_conv shatter_collect_none)
  qed
qed

lemma shatter_items:
  "valid x \<Longrightarrow> 0 < len x \<Longrightarrow>
   map items (shatter len truncate_keeping_right x) = map (\<lambda>i. [i]) (items x)"
  unfolding shatter_def by (rule shatter_collect_items) auto

end

subsection \<open>DTRange: a start and an end\<close>

record dtrange =
  dt_start :: nat
  dt_end :: nat

abbreviation dtr :: "nat \<Rightarrow> nat \<Rightarrow> dtrange" where
  "dtr s e \<equiv> \<lparr>dt_start = s, dt_end = e\<rparr>"

definition dtrange_new_from_len :: "nat \<Rightarrow> nat \<Rightarrow> dtrange" where
  [span_defs]: "dtrange_new_from_len start len = \<lparr>dt_start = start, dt_end = start + len\<rparr>"

definition dtrange_consume_start :: "dtrange \<Rightarrow> nat \<Rightarrow> dtrange" where
  [span_defs]: "dtrange_consume_start r amt = r\<lparr>dt_start := dt_start r + amt\<rparr>"

definition dtrange_last :: "dtrange \<Rightarrow> nat" where
  [span_defs]: "dtrange_last r = dt_end r - 1"

definition dtrange_contains :: "dtrange \<Rightarrow> nat \<Rightarrow> bool" where
  [span_defs]: "dtrange_contains r item \<longleftrightarrow> dt_start r \<le> item \<and> item < dt_end r"

definition dtrange_is_valid :: "dtrange \<Rightarrow> bool" where
  [span_defs]: "dtrange_is_valid r \<longleftrightarrow> dt_start r \<le> dt_end r"

definition dtrange_is_empty :: "dtrange \<Rightarrow> bool" where
  [span_defs]: "dtrange_is_empty r \<longleftrightarrow> dt_start r = dt_end r"

definition dtrange_intersect :: "dtrange \<Rightarrow> dtrange \<Rightarrow> dtrange option" where
  "dtrange_intersect self other =
     (let result = \<lparr>dt_start = max (dt_start self) (dt_start other),
                    dt_end = min (dt_end self) (dt_end other)\<rparr>
      in if dt_start result \<le> dt_end result then Some result else None)"

definition dtrange_does_intersect :: "dtrange \<Rightarrow> dtrange \<Rightarrow> bool" where
  "dtrange_does_intersect self other \<longleftrightarrow>
     dt_start self < dt_end other \<and> dt_end self > dt_start other"

definition dtrange_partial_cmp_time :: "dtrange \<Rightarrow> lv \<Rightarrow> ordering" where
  "dtrange_partial_cmp_time r time =
     (if time < dt_start r then Less else if time \<ge> dt_end r then Greater else Equal)"

definition dtrange_take_first :: "dtrange \<Rightarrow> dtrange \<times> nat option" where
  "dtrange_take_first r =
     (if dtrange_is_empty r then (r, None)
      else (r\<lparr>dt_start := dt_start r + 1\<rparr>, Some (dt_start r)))"

definition dtrange_iter :: "dtrange \<Rightarrow> nat list" where
  [span_defs]: "dtrange_iter r = [dt_start r ..< dt_end r]"

definition dtrange_clear :: "dtrange \<Rightarrow> dtrange" where
  [span_defs]: "dtrange_clear r = r\<lparr>dt_start := dt_end r\<rparr>"

definition dtrange_from_usize :: "nat \<Rightarrow> dtrange" where
  [span_defs]: "dtrange_from_usize start = \<lparr>dt_start = start, dt_end = start + 1\<rparr>"

definition dtrange_len :: "dtrange \<Rightarrow> nat" where
  [span_defs]: "dtrange_len r = dt_end r - dt_start r"

definition dtrange_truncate :: "dtrange \<Rightarrow> nat \<Rightarrow> dtrange \<times> dtrange" where
  [span_defs]: "dtrange_truncate self at =
     (let split = dt_start self + at;
          other = \<lparr>dt_start = split, dt_end = dt_end self\<rparr>
      in (self\<lparr>dt_end := split\<rparr>, other))"

definition dtrange_truncate_keeping_right :: "dtrange \<Rightarrow> nat \<Rightarrow> dtrange \<times> dtrange" where
  [span_defs]: "dtrange_truncate_keeping_right self at =
     (let split = dt_start self + at;
          other = \<lparr>dt_start = dt_start self, dt_end = split\<rparr>
      in (self\<lparr>dt_start := split\<rparr>, other))"

definition dtrange_can_append :: "dtrange \<Rightarrow> dtrange \<Rightarrow> bool" where
  [span_defs]: "dtrange_can_append self other \<longleftrightarrow> dt_start other = dt_end self"

definition dtrange_append :: "dtrange \<Rightarrow> dtrange \<Rightarrow> dtrange" where
  [span_defs]: "dtrange_append self other = self\<lparr>dt_end := dt_end other\<rparr>"

definition dtrange_prepend :: "dtrange \<Rightarrow> dtrange \<Rightarrow> dtrange" where
  [span_defs]: "dtrange_prepend self other = self\<lparr>dt_start := dt_start other\<rparr>"

definition dtrange_get_offset :: "dtrange \<Rightarrow> nat \<Rightarrow> nat option" where
  [span_defs]: "dtrange_get_offset r loc =
     (if loc \<ge> dt_start r \<and> loc < dt_end r then Some (loc - dt_start r) else None)"

definition dtrange_at_offset :: "dtrange \<Rightarrow> nat \<Rightarrow> nat" where
  [span_defs]: "dtrange_at_offset r offset = dt_start r + offset"

definition dtrange_rle_key :: "dtrange \<Rightarrow> nat" where
  [span_defs]: "dtrange_rle_key r = dt_start r"

lemma dtrange_ext [intro]:
  "dt_start (r::dtrange) = dt_start s \<Longrightarrow> dt_end r = dt_end s \<Longrightarrow> r = s"
  by simp

interpretation dtrange: split_join_span dtrange_len dtrange_iter dtrange_is_valid
  dtrange_truncate dtrange_can_append dtrange_append dtrange_prepend
  dtrange_truncate_keeping_right
  by unfold_locales (auto simp: span_defs Let_def upt_split)

subsection \<open>RleRun and RleDRun\<close>

record 'a rle_run =
  run_val :: 'a
  run_len :: nat

definition rle_run_new :: "'a \<Rightarrow> nat \<Rightarrow> 'a rle_run" where
  [span_defs]: "rle_run_new val len = \<lparr>run_val = val, run_len = len\<rparr>"

definition rle_run_single :: "'a \<Rightarrow> 'a rle_run" where
  [span_defs]: "rle_run_single val = \<lparr>run_val = val, run_len = 1\<rparr>"

definition rle_run_truncate :: "'a rle_run \<Rightarrow> nat \<Rightarrow> 'a rle_run \<times> 'a rle_run" where
  [span_defs]: "rle_run_truncate self at =
     (let remainder = run_len self - at
      in (self\<lparr>run_len := at\<rparr>, \<lparr>run_val = run_val self, run_len = remainder\<rparr>))"

definition rle_run_can_append :: "'a rle_run \<Rightarrow> 'a rle_run \<Rightarrow> bool" where
  [span_defs]: "rle_run_can_append self other \<longleftrightarrow>
     run_val self = run_val other \<or> run_len self = 0"

definition rle_run_append :: "'a rle_run \<Rightarrow> 'a rle_run \<Rightarrow> 'a rle_run" where
  [span_defs]: "rle_run_append self other =
     self\<lparr>run_len := run_len self + run_len other, run_val := run_val other\<rparr>"

definition rle_run_items :: "'a rle_run \<Rightarrow> 'a list" where
  [span_defs]: "rle_run_items r = replicate (run_len r) (run_val r)"

interpretation rle_run: split_join_span run_len rle_run_items "\<lambda>_. True" rle_run_truncate
  rle_run_can_append rle_run_append "default_prepend rle_run_append"
  "default_truncate_keeping_right rle_run_truncate"
  by unfold_locales
    (auto simp: span_defs Let_def default_prepend_def default_truncate_keeping_right_def
      replicate_add[symmetric])

record 'a rle_drun =
  drun_start :: nat
  drun_end :: nat
  drun_val :: 'a

definition rle_drun_len :: "'a rle_drun \<Rightarrow> nat" where
  [span_defs]: "rle_drun_len r = drun_end r - drun_start r"

definition rle_drun_truncate :: "'a rle_drun \<Rightarrow> nat \<Rightarrow> 'a rle_drun \<times> 'a rle_drun" where
  [span_defs]: "rle_drun_truncate self at =
     (let split_point = drun_start self + at;
          remainder = \<lparr>drun_start = split_point, drun_end = drun_end self, drun_val = drun_val self\<rparr>
      in (self\<lparr>drun_end := split_point\<rparr>, remainder))"

definition rle_drun_can_append :: "'a rle_drun \<Rightarrow> 'a rle_drun \<Rightarrow> bool" where
  [span_defs]: "rle_drun_can_append self other \<longleftrightarrow>
     drun_end self = drun_start other \<and> drun_val self = drun_val other"

definition rle_drun_append :: "'a rle_drun \<Rightarrow> 'a rle_drun \<Rightarrow> 'a rle_drun" where
  [span_defs]: "rle_drun_append self other = self\<lparr>drun_end := drun_end other\<rparr>"

definition rle_drun_items :: "'a rle_drun \<Rightarrow> (nat \<times> 'a) list" where
  [span_defs]: "rle_drun_items r = map (\<lambda>i. (i, drun_val r)) [drun_start r ..< drun_end r]"

definition rle_drun_valid :: "'a rle_drun \<Rightarrow> bool" where
  [span_defs]: "rle_drun_valid r \<longleftrightarrow> drun_start r \<le> drun_end r"

interpretation rle_drun: split_join_span rle_drun_len rle_drun_items rle_drun_valid
  rle_drun_truncate rle_drun_can_append rle_drun_append "default_prepend rle_drun_append"
  "default_truncate_keeping_right rle_drun_truncate"
  by unfold_locales
    (auto simp: span_defs Let_def default_prepend_def default_truncate_keeping_right_def
      take_map drop_map upt_split map_append[symmetric] simp del: map_append)

subsection \<open>Pairs of spans\<close>

definition pair_len :: "('a \<Rightarrow> nat) \<Rightarrow> 'a \<times> 'b \<Rightarrow> nat" where
  "pair_len lena x = lena (fst x)"

definition pair_truncate :: "('a \<Rightarrow> nat \<Rightarrow> 'a \<times> 'a) \<Rightarrow> ('b \<Rightarrow> nat \<Rightarrow> 'b \<times> 'b)
    \<Rightarrow> 'a \<times> 'b \<Rightarrow> nat \<Rightarrow> ('a \<times> 'b) \<times> ('a \<times> 'b)" where
  "pair_truncate ta tb x at =
     (let (l0, r0) = ta (fst x) at; (l1, r1) = tb (snd x) at in ((l0, l1), (r0, r1)))"

definition pair_can_append :: "('a \<Rightarrow> 'a \<Rightarrow> bool) \<Rightarrow> ('b \<Rightarrow> 'b \<Rightarrow> bool)
    \<Rightarrow> 'a \<times> 'b \<Rightarrow> 'a \<times> 'b \<Rightarrow> bool" where
  "pair_can_append ca cb x y \<longleftrightarrow> ca (fst x) (fst y) \<and> cb (snd x) (snd y)"

definition pair_append :: "('a \<Rightarrow> 'a \<Rightarrow> 'a) \<Rightarrow> ('b \<Rightarrow> 'b \<Rightarrow> 'b) \<Rightarrow> 'a \<times> 'b \<Rightarrow> 'a \<times> 'b \<Rightarrow> 'a \<times> 'b" where
  "pair_append aa ab x y = (aa (fst x) (fst y), ab (snd x) (snd y))"

definition pair_items :: "('a \<Rightarrow> 'i list) \<Rightarrow> ('b \<Rightarrow> 'j list) \<Rightarrow> 'a \<times> 'b \<Rightarrow> ('i \<times> 'j) list" where
  "pair_items ia ib x = zip (ia (fst x)) (ib (snd x))"

definition pair_valid :: "('a \<Rightarrow> nat) \<Rightarrow> ('b \<Rightarrow> nat) \<Rightarrow> ('a \<Rightarrow> bool) \<Rightarrow> ('b \<Rightarrow> bool) \<Rightarrow> 'a \<times> 'b \<Rightarrow> bool" where
  "pair_valid la lb va vb x \<longleftrightarrow> va (fst x) \<and> vb (snd x) \<and> la (fst x) = lb (snd x)"

locale pair_span =
  left: split_join_span la ia va ta ca aa pa ka + right: split_join_span lb ib vb tb cb ab pb kb
  for la :: "'a \<Rightarrow> nat" and ia :: "'a \<Rightarrow> 'i list" and va ta ca aa pa ka
    and lb :: "'b \<Rightarrow> nat" and ib :: "'b \<Rightarrow> 'j list" and vb tb cb ab pb kb
begin

lemma pair_split_join:
  "split_join_span (pair_len la) (pair_items ia ib) (pair_valid la lb va vb) (pair_truncate ta tb)
     (pair_can_append ca cb) (pair_append aa ab) (default_prepend (pair_append aa ab))
     (default_truncate_keeping_right (pair_truncate ta tb))"
  by unfold_locales
    (auto simp: pair_len_def pair_items_def pair_valid_def pair_truncate_def pair_can_append_def
      pair_append_def default_prepend_def default_truncate_keeping_right_def split_beta Let_def
      left.length_items right.length_items left.truncate_valid right.truncate_valid
      left.truncate_len right.truncate_len left.truncate_left right.truncate_left
      left.truncate_right right.truncate_right take_zip drop_zip left.append_valid
      right.append_valid left.append_items right.append_items left.append_len right.append_len
      left.rejoin right.rejoin)

end

interpretation range_run_pair: pair_span dtrange_len dtrange_iter dtrange_is_valid dtrange_truncate
  dtrange_can_append dtrange_append dtrange_prepend dtrange_truncate_keeping_right
  run_len rle_run_items "\<lambda>_. True" rle_run_truncate rle_run_can_append rle_run_append
  "default_prepend rle_run_append" "default_truncate_keeping_right rle_run_truncate"
  by unfold_locales

subsection \<open>ReverseSpan\<close>

datatype 's reverse_span = ReverseSpan (rs_inner: 's)

definition reverse_len :: "('s \<Rightarrow> nat) \<Rightarrow> 's reverse_span \<Rightarrow> nat" where
  "reverse_len len x = len (rs_inner x)"

definition reverse_truncate :: "('s \<Rightarrow> nat \<Rightarrow> 's \<times> 's) \<Rightarrow> 's reverse_span \<Rightarrow> nat
    \<Rightarrow> 's reverse_span \<times> 's reverse_span" where
  "reverse_truncate truncr x at =
     (let (self', ret) = truncr (rs_inner x) at in (ReverseSpan self', ReverseSpan ret))"

definition reverse_can_append :: "('s \<Rightarrow> 's \<Rightarrow> bool) \<Rightarrow> 's reverse_span \<Rightarrow> 's reverse_span \<Rightarrow> bool" where
  "reverse_can_append can x other = can (rs_inner other) (rs_inner x)"

definition reverse_append :: "('s \<Rightarrow> 's \<Rightarrow> 's) \<Rightarrow> 's reverse_span \<Rightarrow> 's reverse_span \<Rightarrow> 's reverse_span" where
  "reverse_append prep x other = ReverseSpan (prep (rs_inner x) (rs_inner other))"

definition reverse_prepend :: "('s \<Rightarrow> 's \<Rightarrow> 's) \<Rightarrow> 's reverse_span \<Rightarrow> 's reverse_span \<Rightarrow> 's reverse_span" where
  "reverse_prepend app x other = ReverseSpan (app (rs_inner x) (rs_inner other))"

definition reverse_items :: "('s \<Rightarrow> 'i list) \<Rightarrow> 's reverse_span \<Rightarrow> 'i list" where
  "reverse_items items x = rev (items (rs_inner x))"

context split_join_span
begin

lemma reverse_mergable:
  "mergable_span (reverse_items items) (\<lambda>x. valid (rs_inner x)) (reverse_can_append can_append)
     (reverse_append prep) (reverse_prepend app)"
  by unfold_locales
    (auto simp: reverse_items_def reverse_can_append_def reverse_append_def reverse_prepend_def
      append_valid append_items prepend_append)

lemma reverse_truncate_lens:
  assumes "valid x" "0 < at" "at < len x"
  shows "reverse_len len (fst (reverse_truncate truncate_keeping_right (ReverseSpan x) at)) = len x - at"
    and "reverse_len len (snd (reverse_truncate truncate_keeping_right (ReverseSpan x) at)) = at"
  using assms by (auto simp: reverse_truncate_def reverse_len_def truncate_keeping_right truncate_len)

end

end
