(* ===== verification/RleIter.thy ===== *)
theory RleIter
  imports Spans
begin

text \<open>
  The iterator adaptors of \<open>crates/rle\<close>: appending to a run-length list
  (\<open>append_rle.rs\<close>), merging adjacent runs (\<open>merge_iter.rs\<close>), taking at most \<open>n\<close> items
  (\<open>take_max_iter.rs\<close>) and zipping two run-length sequences (\<open>zip.rs\<close>).

  An iterator over spans is the list of the spans it still has to produce; a stateful adaptor
  is its state with a \<open>next\<close> function, and collecting it is the recursive function that calls
  \<open>next\<close> until it yields nothing.
\<close>

subsection \<open>AppendRle for Vec\<close>

definition push_rle :: "('a \<Rightarrow> 'a \<Rightarrow> bool) \<Rightarrow> ('a \<Rightarrow> 'a \<Rightarrow> 'a) \<Rightarrow> 'a list \<Rightarrow> 'a \<Rightarrow> 'a list \<times> bool" where
  "push_rle can_append app xs item =
     (if xs \<noteq> [] \<and> can_append (last xs) item
      then (butlast xs @ [app (last xs) item], True)
      else (xs @ [item], False))"

definition push_reversed_rle :: "('a \<Rightarrow> 'a \<Rightarrow> bool) \<Rightarrow> ('a \<Rightarrow> 'a \<Rightarrow> 'a) \<Rightarrow> 'a list \<Rightarrow> 'a
    \<Rightarrow> 'a list \<times> bool" where
  "push_reversed_rle can_append prep xs item =
     (if xs \<noteq> [] \<and> can_append item (last xs)
      then (butlast xs @ [prep (last xs) item], True)
      else (xs @ [item], False))"

fun extend_rle :: "('a \<Rightarrow> 'a \<Rightarrow> bool) \<Rightarrow> ('a \<Rightarrow> 'a \<Rightarrow> 'a) \<Rightarrow> 'a list \<Rightarrow> 'a list \<Rightarrow> 'a list" where
  "extend_rle can_append app xs [] = xs"
| "extend_rle can_append app xs (item # iter) =
     extend_rle can_append app (fst (push_rle can_append app xs item)) iter"

subsection \<open>MergeIter\<close>

text \<open>The \<open>for\<close> loop of \<open>next\<close>: absorb what can be merged, keep the first item that cannot.\<close>

fun merge_absorb :: "('a \<Rightarrow> 'a \<Rightarrow> bool) \<Rightarrow> ('a \<Rightarrow> 'a \<Rightarrow> 'a) \<Rightarrow> ('a \<Rightarrow> 'a \<Rightarrow> 'a) \<Rightarrow> bool
    \<Rightarrow> 'a \<Rightarrow> 'a list \<Rightarrow> 'a \<times> 'a option \<times> 'a list" where
  "merge_absorb can_append app prep fwd this_val [] = (this_val, None, [])"
| "merge_absorb can_append app prep fwd this_val (val # iter) =
     (if fwd \<and> can_append this_val val
      then merge_absorb can_append app prep fwd (app this_val val) iter
      else if \<not> fwd \<and> can_append val this_val
      then merge_absorb can_append app prep fwd (prep this_val val) iter
      else (this_val, Some val, iter))"

fun merge_next :: "('a \<Rightarrow> 'a \<Rightarrow> bool) \<Rightarrow> ('a \<Rightarrow> 'a \<Rightarrow> 'a) \<Rightarrow> ('a \<Rightarrow> 'a \<Rightarrow> 'a) \<Rightarrow> bool
    \<Rightarrow> 'a option \<Rightarrow> 'a list \<Rightarrow> ('a \<times> 'a option \<times> 'a list) option" where
  "merge_next can_append app prep fwd (Some val) iter =
     Some (merge_absorb can_append app prep fwd val iter)"
| "merge_next can_append app prep fwd None [] = None"
| "merge_next can_append app prep fwd None (val # iter) =
     Some (merge_absorb can_append app prep fwd val iter)"

lemma merge_absorb_shorter:
  "merge_absorb c a p fwd v iter = (v', nx, iter') \<Longrightarrow>
   length iter' + (if nx = None then 0 else 1) \<le> length iter"
  by (induction c a p fwd v iter rule: merge_absorb.induct) (auto split: if_splits)

lemma merge_next_shorter:
  "merge_next c a p fwd nx iter = Some (v, nx', iter') \<Longrightarrow>
   length iter' + (if nx' = None then 0 else 1) < length iter + (if nx = None then 0 else 1)"
  by (cases "(c, a, p, fwd, nx, iter)" rule: merge_next.cases)
    (auto dest!: merge_absorb_shorter simp: less_Suc_eq_le)

function merge_collect :: "('a \<Rightarrow> 'a \<Rightarrow> bool) \<Rightarrow> ('a \<Rightarrow> 'a \<Rightarrow> 'a) \<Rightarrow> ('a \<Rightarrow> 'a \<Rightarrow> 'a) \<Rightarrow> bool
    \<Rightarrow> 'a option \<Rightarrow> 'a list \<Rightarrow> 'a list" where
  "merge_collect c a p fwd nx iter =
     (case merge_next c a p fwd nx iter of
        None \<Rightarrow> []
      | Some (v, nx', iter') \<Rightarrow> v # merge_collect c a p fwd nx' iter')"
  by pat_completeness auto
termination
  by (relation "measure (\<lambda>(c, a, p, fwd, nx, iter). length iter + (if nx = None then 0 else 1))")
    (auto dest!: merge_next_shorter)

declare merge_collect.simps [simp del]

definition merge_spans :: "('a \<Rightarrow> 'a \<Rightarrow> bool) \<Rightarrow> ('a \<Rightarrow> 'a \<Rightarrow> 'a) \<Rightarrow> ('a \<Rightarrow> 'a \<Rightarrow> 'a) \<Rightarrow> 'a list \<Rightarrow> 'a list" where
  "merge_spans c a p iter = merge_collect c a p True None iter"

definition merge_spans_rev :: "('a \<Rightarrow> 'a \<Rightarrow> bool) \<Rightarrow> ('a \<Rightarrow> 'a \<Rightarrow> 'a) \<Rightarrow> ('a \<Rightarrow> 'a \<Rightarrow> 'a) \<Rightarrow> 'a list \<Rightarrow> 'a list" where
  "merge_spans_rev c a p iter = merge_collect c a p False None iter"

text \<open>Merging consecutive runs, as one recursion over the list (the reference the lemmas use).\<close>

fun coalesce :: "('a \<Rightarrow> 'a \<Rightarrow> bool) \<Rightarrow> ('a \<Rightarrow> 'a \<Rightarrow> 'a) \<Rightarrow> 'a \<Rightarrow> 'a list \<Rightarrow> 'a list" where
  "coalesce c a v [] = [v]"
| "coalesce c a v (x # xs) = (if c v x then coalesce c a (a v x) xs else v # coalesce c a x xs)"

lemma merge_collect_fwd_Some: "merge_collect c a p True (Some v) xs = coalesce c a v xs"
proof (induction xs arbitrary: v)
  case Nil
  show ?case by (subst merge_collect.simps, simp, subst merge_collect.simps, simp)
next
  case (Cons x xs)
  show ?case
  proof (cases "c v x")
    case True
    have "merge_collect c a p True (Some v) (x # xs) = merge_collect c a p True (Some (a v x)) xs"
      using True by (simp add: merge_collect.simps)
    then show ?thesis using Cons True by simp
  next
    case False
    then show ?thesis using Cons by (subst merge_collect.simps) simp
  qed
qed

lemma merge_spans_simps:
  "merge_spans c a p [] = []"
  "merge_spans c a p (v # xs) = coalesce c a v xs"
proof -
  show "merge_spans c a p [] = []"
    by (simp add: merge_spans_def merge_collect.simps)
  have "merge_collect c a p True None (v # xs) = merge_collect c a p True (Some v) xs"
    by (simp add: merge_collect.simps[of c a p True None]
        merge_collect.simps[of c a p True "Some v"])
  then show "merge_spans c a p (v # xs) = coalesce c a v xs"
    by (simp add: merge_spans_def merge_collect_fwd_Some)
qed

text \<open>Extra law: what a merged run can be appended to is decided by its first part.\<close>

locale coalescing_span = mergable_span items valid can_append app prep
  for items :: "'a \<Rightarrow> 'i list" and valid can_append app prep +
  assumes can_append_app: "can_append b c \<Longrightarrow> can_append a (app b c) = can_append a b"

context mergable_span
begin

lemma push_rle_items:
  assumes "\<forall>x \<in> set xs. valid x" "valid item"
  shows "concat (map items (fst (push_rle can_append app xs item))) =
           concat (map items xs) @ items item"
    and "\<forall>x \<in> set (fst (push_rle can_append app xs item)). valid x"
proof -
  show "concat (map items (fst (push_rle can_append app xs item))) =
      concat (map items xs) @ items item"
    using assms by (cases xs rule: rev_cases) (simp_all add: push_rle_def append_items)
  show "\<forall>x \<in> set (fst (push_rle can_append app xs item)). valid x"
    using assms by (cases xs rule: rev_cases) (auto simp: push_rle_def append_valid)
qed

lemma extend_rle_items:
  "\<forall>x \<in> set xs. valid x \<Longrightarrow> \<forall>x \<in> set iter. valid x \<Longrightarrow>
   concat (map items (extend_rle can_append app xs iter)) =
     concat (map items xs) @ concat (map items iter)"
proof (induction iter arbitrary: xs)
  case Nil
  then show ?case by simp
next
  case (Cons item iter)
  then have "\<forall>x \<in> set (fst (push_rle can_append app xs item)). valid x"
    by (intro push_rle_items(2)) auto
  with Cons have "concat (map items (extend_rle can_append app xs (item # iter))) =
      concat (map items (fst (push_rle can_append app xs item))) @ concat (map items iter)"
    by simp
  with Cons.prems show ?case
    using push_rle_items(1)[of xs item] by simp
qed

lemma push_reversed_rle_items:
  assumes "\<forall>x \<in> set xs. valid x" "valid item"
  shows "concat (map items (rev (fst (push_reversed_rle can_append prep xs item)))) =
           items item @ concat (map items (rev xs))"
    and "\<forall>x \<in> set (fst (push_reversed_rle can_append prep xs item)). valid x"
  using assms
  by (cases xs rule: rev_cases;
      auto simp: push_reversed_rle_def prepend_append append_items append_valid)+

lemma coalesce_items:
  "valid v \<Longrightarrow> \<forall>x \<in> set xs. valid x \<Longrightarrow>
   concat (map items (coalesce can_append app v xs)) = items v @ concat (map items xs)"
  by (induction xs arbitrary: v) (auto simp: append_items append_valid)

lemma merge_spans_items:
  "\<forall>x \<in> set xs. valid x \<Longrightarrow>
   concat (map items (merge_spans can_append app prep xs)) = concat (map items xs)"
  by (cases xs) (auto simp: merge_spans_simps coalesce_items)

end

context coalescing_span
begin

lemma coalesce_hd: "\<exists>r rs. coalesce can_append app v xs = r # rs \<and> can_append u r = can_append u v"
proof (induction xs arbitrary: v)
  case Nil
  show ?case by simp
next
  case (Cons x xs)
  show ?case
  proof (cases "can_append v x")
    case True
    then show ?thesis using Cons[of "app v x"] can_append_app[of v x u] by auto
  next
    case False
    then show ?thesis by auto
  qed
qed

lemma coalesce_merged:
  "successively (\<lambda>a b. \<not> can_append a b) (coalesce can_append app v xs)"
proof (induction xs arbitrary: v)
  case Nil
  show ?case by simp
next
  case (Cons x xs)
  obtain r rs where r: "coalesce can_append app x xs = r # rs" "can_append v r = can_append v x"
    using coalesce_hd by blast
  show ?case using Cons[of x] Cons[of "app v x"] r by (auto simp: successively_Cons)
qed

lemma merge_spans_merged:
  "successively (\<lambda>a b. \<not> can_append a b) (merge_spans can_append app prep xs)"
  by (cases xs) (auto simp: merge_spans_simps coalesce_merged)

end

interpretation dtrange_coalesce: coalescing_span dtrange_iter dtrange_is_valid
  dtrange_can_append dtrange_append dtrange_prepend
  by unfold_locales (auto simp: span_defs)

end
