(* ===== verification/RleZip.thy ===== *)
theory RleZip
  imports RleIter
begin

text \<open>
  \<open>zip.rs\<close> of \<open>crates/rle\<close>, and the remainder type it shares with \<open>intersect.rs\<close>: the unread part of a
  run that is kept between calls.
\<close>

subsection \<open>The remainder shared by zip and intersect\<close>

datatype ('a, 'b) remainder = Nothing | SomeA 'a | SomeB 'b

type_synonym ('a, 'b) zip_state = "('a, 'b) remainder \<times> 'a list \<times> 'b list"

fun take_from_iter :: "('a, 'b) zip_state \<Rightarrow> (('a \<times> 'b) \<times> 'a list \<times> 'b list) option" where
  "take_from_iter (Nothing, a # ai, b # bi) = Some ((a, b), ai, bi)"
| "take_from_iter (Nothing, _, _) = None"
| "take_from_iter (SomeA a, ai, b # bi) = Some ((a, b), ai, bi)"
| "take_from_iter (SomeA a, ai, []) = None"
| "take_from_iter (SomeB b, a # ai, bi) = Some ((a, b), ai, bi)"
| "take_from_iter (SomeB b, [], bi) = None"

definition zip_pending :: "('a, 'b) zip_state \<Rightarrow> nat" where
  "zip_pending st = (case st of (rem, ai, bi) \<Rightarrow> length ai + length bi)"

lemma take_from_iter_pending:
  "take_from_iter st = Some ((a, b), ai, bi) \<Longrightarrow> length ai + length bi < zip_pending st"
  by (induction st rule: take_from_iter.induct) (auto simp: zip_pending_def)

subsection \<open>RleZip\<close>

definition rle_zip_next :: "('a \<Rightarrow> nat) \<Rightarrow> ('b \<Rightarrow> nat) \<Rightarrow> ('a \<Rightarrow> nat \<Rightarrow> 'a \<times> 'a) \<Rightarrow> ('b \<Rightarrow> nat \<Rightarrow> 'b \<times> 'b)
    \<Rightarrow> ('a, 'b) zip_state \<Rightarrow> (('a \<times> 'b) \<times> ('a, 'b) zip_state) option" where
  "rle_zip_next lena lenb trunca truncb st =
     (case take_from_iter st of
        None \<Rightarrow> None
      | Some ((a, b), ai, bi) \<Rightarrow>
          let a_len = lena a; b_len = lenb b
          in case cmp a_len b_len of
               Equal \<Rightarrow> Some ((a, b), (Nothing, ai, bi))
             | Less \<Rightarrow> (let (b, b_rem) = truncb b a_len in Some ((a, b), (SomeB b_rem, ai, bi)))
             | Greater \<Rightarrow> (let (a, a_rem) = trunca a b_len in Some ((a, b), (SomeA a_rem, ai, bi))))"

lemma rle_zip_next_pending:
  "rle_zip_next lena lenb trunca truncb st = Some (x, st') \<Longrightarrow> zip_pending st' < zip_pending st"
  by (auto simp: rle_zip_next_def Let_def zip_pending_def dest: take_from_iter_pending
      split: option.splits prod.splits ordering.splits)

function rle_zip_collect :: "('a \<Rightarrow> nat) \<Rightarrow> ('b \<Rightarrow> nat) \<Rightarrow> ('a \<Rightarrow> nat \<Rightarrow> 'a \<times> 'a) \<Rightarrow> ('b \<Rightarrow> nat \<Rightarrow> 'b \<times> 'b)
    \<Rightarrow> ('a, 'b) zip_state \<Rightarrow> ('a \<times> 'b) list" where
  "rle_zip_collect lena lenb trunca truncb st =
     (case rle_zip_next lena lenb trunca truncb st of
        None \<Rightarrow> []
      | Some (x, st') \<Rightarrow> x # rle_zip_collect lena lenb trunca truncb st')"
  by pat_completeness auto
termination
  by (relation "measure (\<lambda>(la, lb, ta, tb, st). zip_pending st)") (auto dest: rle_zip_next_pending)

declare rle_zip_collect.simps [simp del]

definition rle_zip :: "('a \<Rightarrow> nat) \<Rightarrow> ('b \<Rightarrow> nat) \<Rightarrow> ('a \<Rightarrow> nat \<Rightarrow> 'a \<times> 'a) \<Rightarrow> ('b \<Rightarrow> nat \<Rightarrow> 'b \<times> 'b)
    \<Rightarrow> 'a list \<Rightarrow> 'b list \<Rightarrow> ('a \<times> 'b) list" where
  "rle_zip lena lenb trunca truncb a b = rle_zip_collect lena lenb trunca truncb (Nothing, a, b)"

definition rle_zip3 :: "('a \<Rightarrow> nat) \<Rightarrow> ('b \<Rightarrow> nat) \<Rightarrow> ('c \<Rightarrow> nat) \<Rightarrow> ('a \<Rightarrow> nat \<Rightarrow> 'a \<times> 'a)
    \<Rightarrow> ('b \<Rightarrow> nat \<Rightarrow> 'b \<times> 'b) \<Rightarrow> ('c \<Rightarrow> nat \<Rightarrow> 'c \<times> 'c)
    \<Rightarrow> 'a list \<Rightarrow> 'b list \<Rightarrow> 'c list \<Rightarrow> ('a \<times> 'b \<times> 'c) list" where
  "rle_zip3 lena lenb lenc trunca truncb truncc a b c =
     map (\<lambda>((a, b), c). (a, b, c))
       (rle_zip (pair_len lena) lenc (pair_truncate trunca truncb) truncc
          (rle_zip lena lenb trunca truncb a b) c)"

text \<open>What is still to be read on each side, item by item.\<close>

definition left_items :: "('a \<Rightarrow> 'i list) \<Rightarrow> ('a, 'b) zip_state \<Rightarrow> 'i list" where
  "left_items ia st = (case st of
     (SomeA a, ai, bi) \<Rightarrow> ia a @ concat (map ia ai) | (_, ai, bi) \<Rightarrow> concat (map ia ai))"

definition right_items :: "('b \<Rightarrow> 'j list) \<Rightarrow> ('a, 'b) zip_state \<Rightarrow> 'j list" where
  "right_items ib st = (case st of
     (SomeB b, ai, bi) \<Rightarrow> ib b @ concat (map ib bi) | (_, ai, bi) \<Rightarrow> concat (map ib bi))"

definition zip_state_ok :: "('a \<Rightarrow> bool) \<Rightarrow> ('b \<Rightarrow> bool) \<Rightarrow> ('a, 'b) zip_state \<Rightarrow> bool" where
  "zip_state_ok oka okb st = (case st of (rem, ai, bi) \<Rightarrow>
     (\<forall>a \<in> set ai. oka a) \<and> (\<forall>b \<in> set bi. okb b) \<and>
     (case rem of Nothing \<Rightarrow> True | SomeA a \<Rightarrow> oka a | SomeB b \<Rightarrow> okb b))"

lemma take_from_iter_Some:
  assumes "take_from_iter st = Some ((a, b), ai, bi)" "zip_state_ok oka okb st"
  shows "oka a" "okb b" "\<forall>a \<in> set ai. oka a" "\<forall>b \<in> set bi. okb b"
  using assms
  by (induction st rule: take_from_iter.induct) (auto simp: zip_state_ok_def)

lemma take_from_iter_items:
  assumes "take_from_iter st = Some ((a, b), ai, bi)"
  shows "left_items ia st = ia a @ concat (map ia ai) \<and> right_items ib st = ib b @ concat (map ib bi)"
  using assms
  by (induction st rule: take_from_iter.induct) (auto simp: left_items_def right_items_def)

lemma take_from_iter_None:
  "take_from_iter st = None \<Longrightarrow> left_items ia st = [] \<or> right_items ib st = []"
  by (induction st rule: take_from_iter.induct)
    (auto simp: left_items_def right_items_def neq_Nil_conv split: list.splits)

locale zip_spans =
  za: splitable_span la ia va ta + zb: splitable_span lb ib vb tb
  for la :: "'a \<Rightarrow> nat" and ia :: "'a \<Rightarrow> 'i list" and va ta
    and lb :: "'b \<Rightarrow> nat" and ib :: "'b \<Rightarrow> 'j list" and vb tb
begin

lemma rle_zip_next_step:
  assumes "zip_state_ok (\<lambda>a. va a \<and> 0 < la a) (\<lambda>b. vb b \<and> 0 < lb b) st"
    and "rle_zip_next la lb ta tb st = Some ((a, b), st')"
  shows "zip_state_ok (\<lambda>a. va a \<and> 0 < la a) (\<lambda>b. vb b \<and> 0 < lb b) st'"
    and "la a = lb b \<and> va a \<and> vb b \<and> 0 < la a"
    and "left_items ia st = ia a @ left_items ia st'"
    and "right_items ib st = ib b @ right_items ib st'"
proof -
  obtain a0 b0 ai bi where t: "take_from_iter st = Some ((a0, b0), ai, bi)"
    using assms(2) by (auto simp: rle_zip_next_def split: option.splits)
  note ok = take_from_iter_Some[OF t assms(1)] take_from_iter_items[OF t, of ia ib]
  have "zip_state_ok (\<lambda>a. va a \<and> 0 < la a) (\<lambda>b. vb b \<and> 0 < lb b) st' \<and>
      la a = lb b \<and> va a \<and> vb b \<and> 0 < la a \<and>
      left_items ia st = ia a @ left_items ia st' \<and> right_items ib st = ib b @ right_items ib st'"
  proof (cases "cmp (la a0) (lb b0)")
    case Less
    then have lt: "0 < la a0" "la a0 < lb b0" using ok by auto
    show ?thesis
      using assms(2) ok lt zb.truncate_valid[OF _ lt] zb.truncate_len[OF _ lt]
        zb.truncate_items[OF _ lt]
      by (auto simp: rle_zip_next_def t Let_def Less zip_state_ok_def left_items_def
          right_items_def split: prod.splits)
  next
    case Equal
    then show ?thesis
      using assms(2) ok
      by (auto simp: rle_zip_next_def t Let_def zip_state_ok_def left_items_def right_items_def)
  next
    case Greater
    then have lt: "0 < lb b0" "lb b0 < la a0" using ok by auto
    show ?thesis
      using assms(2) ok lt za.truncate_valid[OF _ lt] za.truncate_len[OF _ lt]
        za.truncate_items[OF _ lt]
      by (auto simp: rle_zip_next_def t Let_def Greater zip_state_ok_def left_items_def
          right_items_def split: prod.splits)
  qed
  then show "zip_state_ok (\<lambda>a. va a \<and> 0 < la a) (\<lambda>b. vb b \<and> 0 < lb b) st'"
    "la a = lb b \<and> va a \<and> vb b \<and> 0 < la a"
    "left_items ia st = ia a @ left_items ia st'" "right_items ib st = ib b @ right_items ib st'"
    by blast+
qed

lemma rle_zip_collect_items:
  "zip_state_ok (\<lambda>a. va a \<and> 0 < la a) (\<lambda>b. vb b \<and> 0 < lb b) st \<Longrightarrow>
   concat (map (\<lambda>(a, b). zip (ia a) (ib b)) (rle_zip_collect la lb ta tb st)) =
     zip (left_items ia st) (right_items ib st) \<and>
   (\<forall>(a, b) \<in> set (rle_zip_collect la lb ta tb st). la a = lb b \<and> 0 < la a)"
proof (induction "zip_pending st" arbitrary: st rule: less_induct)
  case less
  show ?case
  proof (cases "rle_zip_next la lb ta tb st")
    case None
    then have "take_from_iter st = None"
      by (auto simp: rle_zip_next_def Let_def split: option.splits prod.splits ordering.splits)
    then show ?thesis
      using None take_from_iter_None[of st ia ib] by (auto simp: rle_zip_collect.simps)
  next
    case (Some r)
    obtain a b st' where r: "r = ((a, b), st')" by (cases r) auto
    note step = rle_zip_next_step[OF less.prems Some[unfolded r]]
    have "length (ia a) = length (ib b)"
      using step(2) za.length_items zb.length_items by metis
    then show ?thesis
      using less.hyps[OF rle_zip_next_pending[OF Some[unfolded r]] step(1)] step
      by (simp add: rle_zip_collect.simps[of la lb ta tb st] Some r zip_append)
  qed
qed

theorem rle_zip_items:
  assumes "\<forall>a \<in> set as. va a \<and> 0 < la a" "\<forall>b \<in> set bs. vb b \<and> 0 < lb b"
  shows "concat (map (\<lambda>(a, b). zip (ia a) (ib b)) (rle_zip la lb ta tb as bs)) =
           zip (concat (map ia as)) (concat (map ib bs))"
    and "\<forall>(a, b) \<in> set (rle_zip la lb ta tb as bs). la a = lb b \<and> 0 < la a"
  using rle_zip_collect_items[of "(Nothing, as, bs)"] assms
  by (auto simp: rle_zip_def zip_state_ok_def left_items_def right_items_def)

end

interpretation zip_range_run: zip_spans dtrange_len dtrange_iter dtrange_is_valid dtrange_truncate
  run_len rle_run_items "\<lambda>_. True" rle_run_truncate
  by unfold_locales

interpretation zip_runs: zip_spans run_len rle_run_items "\<lambda>_. True" rle_run_truncate
  run_len rle_run_items "\<lambda>_. True" rle_run_truncate
  by unfold_locales

end
