(* ===== verification/RleIntersect.thy ===== *)
theory RleIntersect
  imports RleZip
begin

text \<open>
  Keyed runs (\<open>HasRleKey\<close>) and \<open>intersect.rs\<close>: the forward iterator over the parts of two
  sorted run-length lists whose keys overlap.  The abstraction of a keyed run is the set of its
  (key, item) pairs; the intersection is then the join of the two sets on their keys.
\<close>

definition content :: "('a \<Rightarrow> nat) \<Rightarrow> ('a \<Rightarrow> 'i list) \<Rightarrow> 'a list \<Rightarrow> (nat \<times> 'i) set" where
  "content key items xs = (\<Union>x \<in> set xs. set (enumerate (key x) (items x)))"

lemma content_simps [simp]:
  "content key items [] = {}"
  "content key items (x # xs) = set (enumerate (key x) (items x)) \<union> content key items xs"
  "content key items (xs @ ys) = content key items xs \<union> content key items ys"
  by (auto simp: content_def)

definition span_sorted :: "('a \<Rightarrow> nat) \<Rightarrow> ('a \<Rightarrow> nat) \<Rightarrow> 'a list \<Rightarrow> bool" where
  "span_sorted key len xs \<longleftrightarrow> sorted_wrt (\<lambda>a b. key a + len a \<le> key b) xs"

lemma span_sorted_simps [simp]:
  "span_sorted key len []"
  "span_sorted key len (x # xs) \<longleftrightarrow>
     (\<forall>y \<in> set xs. key x + len x \<le> key y) \<and> span_sorted key len xs"
  by (auto simp: span_sorted_def)

locale keyed_span = splitable_span len items valid truncate
  for len :: "'a \<Rightarrow> nat" and items :: "'a \<Rightarrow> 'i list" and valid truncate +
  fixes key :: "'a \<Rightarrow> nat"
  assumes truncate_key_left: "valid x \<Longrightarrow> 0 < at \<Longrightarrow> at < len x \<Longrightarrow>
      key (fst (truncate x at)) = key x"
    and truncate_key_right: "valid x \<Longrightarrow> 0 < at \<Longrightarrow> at < len x \<Longrightarrow>
      key (snd (truncate x at)) = key x + at"
begin

abbreviation run_content :: "'a \<Rightarrow> (nat \<times> 'i) set" where
  "run_content x \<equiv> set (enumerate (key x) (items x))"

lemma run_content_key: "valid x \<Longrightarrow> (k, i) \<in> run_content x \<Longrightarrow> key x \<le> k \<and> k < key x + len x"
  by (auto simp: in_set_enumerate_eq length_items)

lemma content_key:
  "\<forall>x \<in> set xs. valid x \<Longrightarrow> (k, i) \<in> content key items xs \<Longrightarrow>
   \<exists>x \<in> set xs. key x \<le> k \<and> k < key x + len x"
  unfolding content_def using run_content_key by blast

lemma truncate_content:
  assumes "valid x" "0 < at" "at < len x"
  shows "run_content (fst (truncate x at)) \<union> run_content (snd (truncate x at)) = run_content x"
proof -
  let ?l = "fst (truncate x at)" and ?r = "snd (truncate x at)"
  have "enumerate (key x) (items x) = enumerate (key x) (items ?l @ items ?r)"
    using truncate_items[OF assms] by simp
  also have "\<dots> = enumerate (key ?l) (items ?l) @ enumerate (key ?r) (items ?r)"
    using assms truncate_len[OF assms] truncate_valid[OF assms]
    by (simp add: enumerate_append_eq length_items truncate_key_left truncate_key_right)
  finally show ?thesis by simp
qed

end

interpretation dtrange_keyed: keyed_span dtrange_len dtrange_iter dtrange_is_valid dtrange_truncate
  dtrange_rle_key
  by unfold_locales (auto simp: span_defs Let_def)

subsection \<open>RleIntersect, forwards\<close>

text \<open>The part of \<open>next\<close> after the two runs are known to overlap.\<close>

definition intersect_cut :: "('a \<Rightarrow> nat) \<Rightarrow> ('a \<Rightarrow> nat) \<Rightarrow> ('a \<Rightarrow> nat \<Rightarrow> 'a \<times> 'a) \<Rightarrow> ('a \<Rightarrow> nat \<Rightarrow> 'a \<times> 'a)
    \<Rightarrow> ('b \<Rightarrow> nat) \<Rightarrow> ('b \<Rightarrow> nat) \<Rightarrow> ('b \<Rightarrow> nat \<Rightarrow> 'b \<times> 'b) \<Rightarrow> ('b \<Rightarrow> nat \<Rightarrow> 'b \<times> 'b)
    \<Rightarrow> 'a \<Rightarrow> 'b \<Rightarrow> ('a \<times> 'b) \<times> ('a, 'b) remainder" where
  "intersect_cut keya lena ta kra keyb lenb tb krb a0 b0 =
     (let b = (if keya a0 > keyb b0 then fst (krb b0 (keya a0 - keyb b0)) else b0);
          a = (if keya a0 > keyb b0 then a0
               else if keyb b0 > keya a0 then fst (kra a0 (keyb b0 - keya a0)) else a0)
      in if lenb b > lena a then (let (b, rem) = tb b (lena a) in ((a, b), SomeB rem))
         else if lena a > lenb b then (let (a, rem) = ta a (lenb b) in ((a, b), SomeA rem))
         else ((a, b), Nothing))"

function intersect_loop :: "('a \<Rightarrow> nat) \<Rightarrow> ('a \<Rightarrow> nat) \<Rightarrow> ('a \<Rightarrow> nat \<Rightarrow> 'a \<times> 'a) \<Rightarrow> ('a \<Rightarrow> nat \<Rightarrow> 'a \<times> 'a)
    \<Rightarrow> ('b \<Rightarrow> nat) \<Rightarrow> ('b \<Rightarrow> nat) \<Rightarrow> ('b \<Rightarrow> nat \<Rightarrow> 'b \<times> 'b) \<Rightarrow> ('b \<Rightarrow> nat \<Rightarrow> 'b \<times> 'b)
    \<Rightarrow> 'a \<Rightarrow> 'b \<Rightarrow> 'a list \<Rightarrow> 'b list \<Rightarrow> (('a \<times> 'b) \<times> ('a, 'b) zip_state) option" where
  "intersect_loop keya lena ta kra keyb lenb tb krb a b ai bi =
     (if keya a \<ge> keyb b + lenb b then
        (case bi of [] \<Rightarrow> None
         | b' # bi' \<Rightarrow> intersect_loop keya lena ta kra keyb lenb tb krb a b' ai bi')
      else if keyb b \<ge> keya a + lena a then
        (case ai of [] \<Rightarrow> None
         | a' # ai' \<Rightarrow> intersect_loop keya lena ta kra keyb lenb tb krb a' b ai' bi)
      else (let (ab, rem) = intersect_cut keya lena ta kra keyb lenb tb krb a b
            in Some (ab, (rem, ai, bi))))"
  by pat_completeness auto
termination
  by (relation "measure (\<lambda>(ka, la, ta, ra, kb, lb, tb, rb, a, b, ai, bi). length ai + length bi)") auto

declare intersect_loop.simps [simp del]

definition intersect_next :: "('a \<Rightarrow> nat) \<Rightarrow> ('a \<Rightarrow> nat) \<Rightarrow> ('a \<Rightarrow> nat \<Rightarrow> 'a \<times> 'a) \<Rightarrow> ('a \<Rightarrow> nat \<Rightarrow> 'a \<times> 'a)
    \<Rightarrow> ('b \<Rightarrow> nat) \<Rightarrow> ('b \<Rightarrow> nat) \<Rightarrow> ('b \<Rightarrow> nat \<Rightarrow> 'b \<times> 'b) \<Rightarrow> ('b \<Rightarrow> nat \<Rightarrow> 'b \<times> 'b)
    \<Rightarrow> ('a, 'b) zip_state \<Rightarrow> (('a \<times> 'b) \<times> ('a, 'b) zip_state) option" where
  "intersect_next keya lena ta kra keyb lenb tb krb st =
     (case take_from_iter st of
        None \<Rightarrow> None
      | Some ((a, b), ai, bi) \<Rightarrow> intersect_loop keya lena ta kra keyb lenb tb krb a b ai bi)"

lemma intersect_loop_pending:
  "intersect_loop ka la ta ra kb lb tb rb a b ai bi = Some (x, (rem, ai', bi')) \<Longrightarrow>
   length ai' + length bi' \<le> length ai + length bi"
proof (induction ka la ta ra kb lb tb rb a b ai bi rule: intersect_loop.induct)
  case (1 ka la ta ra kb lb tb rb a b ai bi)
  then show ?case
    by (subst (asm) (3) intersect_loop.simps)
      (fastforce split: if_splits list.splits prod.splits)
qed

function intersect_collect :: "('a \<Rightarrow> nat) \<Rightarrow> ('a \<Rightarrow> nat) \<Rightarrow> ('a \<Rightarrow> nat \<Rightarrow> 'a \<times> 'a) \<Rightarrow> ('a \<Rightarrow> nat \<Rightarrow> 'a \<times> 'a)
    \<Rightarrow> ('b \<Rightarrow> nat) \<Rightarrow> ('b \<Rightarrow> nat) \<Rightarrow> ('b \<Rightarrow> nat \<Rightarrow> 'b \<times> 'b) \<Rightarrow> ('b \<Rightarrow> nat \<Rightarrow> 'b \<times> 'b)
    \<Rightarrow> ('a, 'b) zip_state \<Rightarrow> ('a \<times> 'b) list" where
  "intersect_collect ka la ta ra kb lb tb rb st =
     (case intersect_next ka la ta ra kb lb tb rb st of
        None \<Rightarrow> []
      | Some (x, st') \<Rightarrow> x # intersect_collect ka la ta ra kb lb tb rb st')"
  by pat_completeness auto
termination
  by (relation "measure (\<lambda>(ka, la, ta, ra, kb, lb, tb, rb, st). zip_pending st)")
    (auto simp: intersect_next_def zip_pending_def split: option.splits
      dest!: take_from_iter_pending intersect_loop_pending)

declare intersect_collect.simps [simp del]

definition rle_intersect :: "('a \<Rightarrow> nat) \<Rightarrow> ('a \<Rightarrow> nat) \<Rightarrow> ('a \<Rightarrow> nat \<Rightarrow> 'a \<times> 'a) \<Rightarrow> ('a \<Rightarrow> nat \<Rightarrow> 'a \<times> 'a)
    \<Rightarrow> ('b \<Rightarrow> nat) \<Rightarrow> ('b \<Rightarrow> nat) \<Rightarrow> ('b \<Rightarrow> nat \<Rightarrow> 'b \<times> 'b) \<Rightarrow> ('b \<Rightarrow> nat \<Rightarrow> 'b \<times> 'b)
    \<Rightarrow> 'a list \<Rightarrow> 'b list \<Rightarrow> ('a \<times> 'b) list" where
  "rle_intersect ka la ta ra kb lb tb rb a b = intersect_collect ka la ta ra kb lb tb rb (Nothing, a, b)"

definition rle_intersect_first :: "('a \<Rightarrow> nat) \<Rightarrow> ('a \<Rightarrow> nat) \<Rightarrow> ('a \<Rightarrow> nat \<Rightarrow> 'a \<times> 'a) \<Rightarrow> ('a \<Rightarrow> nat \<Rightarrow> 'a \<times> 'a)
    \<Rightarrow> ('b \<Rightarrow> nat) \<Rightarrow> ('b \<Rightarrow> nat) \<Rightarrow> ('b \<Rightarrow> nat \<Rightarrow> 'b \<times> 'b) \<Rightarrow> ('b \<Rightarrow> nat \<Rightarrow> 'b \<times> 'b)
    \<Rightarrow> 'a list \<Rightarrow> 'b list \<Rightarrow> 'a list" where
  "rle_intersect_first ka la ta ra kb lb tb rb a b = map fst (rle_intersect ka la ta ra kb lb tb rb a b)"

subsection \<open>Intersection is the join on keys\<close>

definition key_join :: "(nat \<times> 'i) set \<Rightarrow> (nat \<times> 'j) set \<Rightarrow> (nat \<times> 'i \<times> 'j) set" where
  "key_join P Q = {(k, i, j). (k, i) \<in> P \<and> (k, j) \<in> Q}"

definition keys_below :: "(nat \<times> 'i) set \<Rightarrow> nat \<Rightarrow> bool" where
  "keys_below P m \<longleftrightarrow> (\<forall>(k, i) \<in> P. k < m)"

definition keys_from :: "(nat \<times> 'i) set \<Rightarrow> nat \<Rightarrow> bool" where
  "keys_from P m \<longleftrightarrow> (\<forall>(k, i) \<in> P. m \<le> k)"

lemma key_join_Un:
  "key_join (P \<union> P') Q = key_join P Q \<union> key_join P' Q"
  "key_join P (Q \<union> Q') = key_join P Q \<union> key_join P Q'"
  by (auto simp: key_join_def)

lemma key_join_separate:
  "keys_below P m \<Longrightarrow> keys_from Q m \<Longrightarrow> key_join P Q = {}"
  "keys_from P m \<Longrightarrow> keys_below Q m \<Longrightarrow> key_join P Q = {}"
  by (fastforce simp: key_join_def keys_below_def keys_from_def)+

lemma key_join_empty [simp]: "key_join {} Q = {}" "key_join P {} = {}"
  by (auto simp: key_join_def)

lemma keys_Un [simp]:
  "keys_below (P \<union> P') m \<longleftrightarrow> keys_below P m \<and> keys_below P' m"
  "keys_from (P \<union> P') m \<longleftrightarrow> keys_from P m \<and> keys_from P' m"
  by (auto simp: keys_below_def keys_from_def)

lemma keys_mono:
  "keys_below P m \<Longrightarrow> m \<le> m' \<Longrightarrow> keys_below P m'"
  "keys_from P m \<Longrightarrow> m' \<le> m \<Longrightarrow> keys_from P m'"
  by (fastforce simp: keys_below_def keys_from_def)+

locale keyed_split_join = split_join_span len items valid truncate can_append app prep
    truncate_keeping_right + keyed_span len items valid truncate key
  for len :: "'a \<Rightarrow> nat" and items :: "'a \<Rightarrow> 'i list" and valid truncate
    and can_append app prep truncate_keeping_right key
begin

lemma run_keys:
  "valid x \<Longrightarrow> keys_below (run_content x) (key x + len x)"
  "valid x \<Longrightarrow> keys_from (run_content x) (key x)"
  using run_content_key by (auto simp: keys_below_def keys_from_def)

lemma content_keys_from:
  "\<forall>x \<in> set xs. valid x \<and> m \<le> key x \<Longrightarrow> keys_from (content key items xs) m"
  using content_key[of xs] by (fastforce simp: keys_from_def)

text \<open>Skipping the first \<open>key - key x\<close> items of a run (\<open>truncate_keeping_right\<close>).\<close>

lemma skip_to:
  assumes "valid x" "key x < k" "k < key x + len x"
  defines "y \<equiv> fst (truncate_keeping_right x (k - key x))"
  shows "valid y" "key y = k" "len y = key x + len x - k"
    "\<exists>D. run_content x = D \<union> run_content y \<and> keys_below D k"
proof -
  have at: "0 < k - key x" "k - key x < len x" using assms by auto
  note t = truncate_valid[OF assms(1) at] truncate_len[OF assms(1) at]
    truncate_key_left[OF assms(1) at] truncate_key_right[OF assms(1) at]
  have y: "y = snd (truncate x (k - key x))"
    using assms(1) at by (simp add: y_def truncate_keeping_right)
  show "valid y" "key y = k" "len y = key x + len x - k"
    using t y assms by auto
  have "keys_below (run_content (fst (truncate x (k - key x)))) k"
    using run_keys(1)[of "fst (truncate x (k - key x))"] t assms by simp
  then show "\<exists>D. run_content x = D \<union> run_content y \<and> keys_below D k"
    using truncate_content[OF assms(1) at] y by blast
qed

text \<open>Keeping the first \<open>n\<close> items of a run (\<open>truncate\<close>).\<close>

lemma keep_first:
  assumes "valid x" "0 < n" "n < len x" "truncate x n = (y, rem)"
  shows "valid y" "valid rem" "key y = key x" "key rem = key x + n" "len y = n"
    "len rem = len x - n" "run_content x = run_content y \<union> run_content rem"
  using assms truncate_valid[OF assms(1-3)] truncate_len[OF assms(1-3)]
    truncate_key_left[OF assms(1-3)] truncate_key_right[OF assms(1-3)]
    truncate_content[OF assms(1-3)] by auto

end

interpretation dtrange_keyed_sj: keyed_split_join dtrange_len dtrange_iter dtrange_is_valid
  dtrange_truncate dtrange_can_append dtrange_append dtrange_prepend
  dtrange_truncate_keeping_right dtrange_rle_key
  by unfold_locales

definition pending_left :: "('a, 'b) zip_state \<Rightarrow> 'a list" where
  "pending_left st = (case st of (SomeA a, ai, bi) \<Rightarrow> a # ai | (_, ai, bi) \<Rightarrow> ai)"

definition pending_right :: "('a, 'b) zip_state \<Rightarrow> 'b list" where
  "pending_right st = (case st of (SomeB b, ai, bi) \<Rightarrow> b # bi | (_, ai, bi) \<Rightarrow> bi)"

lemma pending_simps [simp]:
  "pending_left (Nothing, ai, bi) = ai" "pending_left (SomeA a, ai, bi) = a # ai"
  "pending_left (SomeB b, ai, bi) = ai"
  "pending_right (Nothing, ai, bi) = bi" "pending_right (SomeA a, ai, bi) = bi"
  "pending_right (SomeB b, ai, bi) = b # bi"
  by (simp_all add: pending_left_def pending_right_def)

lemma take_from_iter_pending_lists:
  "take_from_iter st = Some ((a, b), ai, bi) \<Longrightarrow> pending_left st = a # ai \<and> pending_right st = b # bi"
  "take_from_iter st = None \<Longrightarrow> pending_left st = [] \<or> pending_right st = []"
  by (induction st rule: take_from_iter.induct) (auto simp: neq_Nil_conv split: list.splits)

locale intersect_spans =
  xa: keyed_split_join la ia va ta ca aa pa ra ka + xb: keyed_split_join lb ib vb tb cb ab pb rb kb
  for la :: "'a \<Rightarrow> nat" and ia :: "'a \<Rightarrow> 'i list" and va ta ca aa pa ra ka
    and lb :: "'b \<Rightarrow> nat" and ib :: "'b \<Rightarrow> 'j list" and vb tb cb ab pb rb kb
begin

abbreviation run_join :: "'a \<Rightarrow> 'b \<Rightarrow> (nat \<times> 'i \<times> 'j) set" where
  "run_join a b \<equiv> key_join (xa.run_content a) (xb.run_content b)"

abbreviation list_join :: "'a list \<Rightarrow> 'b list \<Rightarrow> (nat \<times> 'i \<times> 'j) set" where
  "list_join as bs \<equiv> key_join (content ka ia as) (content kb ib bs)"

definition lists_ok :: "'a list \<Rightarrow> 'b list \<Rightarrow> bool" where
  "lists_ok as bs \<longleftrightarrow> (\<forall>a \<in> set as. va a \<and> 0 < la a) \<and> (\<forall>b \<in> set bs. vb b \<and> 0 < lb b) \<and>
     span_sorted ka la as \<and> span_sorted kb lb bs"

text \<open>First half of the cut: both runs start at the greater key.\<close>

lemma align:
  assumes "va a0" "vb b0" "ka a0 < kb b0 + lb b0" "kb b0 < ka a0 + la a0" "0 < la a0" "0 < lb b0"
  defines "b \<equiv> (if ka a0 > kb b0 then fst (rb b0 (ka a0 - kb b0)) else b0)"
    and "a \<equiv> (if ka a0 > kb b0 then a0
               else if kb b0 > ka a0 then fst (ra a0 (kb b0 - ka a0)) else a0)"
  shows "va a \<and> vb b \<and> ka a = kb b \<and> 0 < la a \<and> 0 < lb b \<and>
      ka a + la a = ka a0 + la a0 \<and> kb b + lb b = kb b0 + lb b0 \<and>
      (\<exists>D E. xa.run_content a0 = D \<union> xa.run_content a \<and> xb.run_content b0 = E \<union> xb.run_content b \<and>
        keys_below D (ka a) \<and> keys_below E (ka a) \<and> (D = {} \<or> E = {}) \<and>
        (D \<noteq> {} \<longrightarrow> ka a = kb b0) \<and> (E \<noteq> {} \<longrightarrow> ka a = ka a0))"
proof (cases "ka a0 > kb b0")
  case True
  then show ?thesis
    using assms(1-6) xb.skip_to[OF assms(2) True assms(3)]
    unfolding a_def b_def by (auto simp: keys_below_def)
next
  case False
  show ?thesis
  proof (cases "kb b0 > ka a0")
    case True
    then show ?thesis
      using False assms(1-6) xa.skip_to[OF assms(1) True assms(4)]
      unfolding a_def b_def by (auto simp: keys_below_def)
  next
    case eq: False
    then show ?thesis
      using False assms(1-6) unfolding a_def b_def by (auto simp: keys_below_def)
  qed
qed

definition rem_left :: "('a, 'b) remainder \<Rightarrow> 'a list" where
  "rem_left rem = (case rem of SomeA a \<Rightarrow> [a] | _ \<Rightarrow> [])"

definition rem_right :: "('a, 'b) remainder \<Rightarrow> 'b list" where
  "rem_right rem = (case rem of SomeB b \<Rightarrow> [b] | _ \<Rightarrow> [])"

text \<open>Second half: runs that start together are cut to the shorter one.\<close>

lemma cut_tail:
  assumes a: "va a" "0 < la a" and b: "vb b" "0 < lb b" and k: "ka a = kb b"
    and RA: "keys_from RA (ka a + la a)" and RB: "keys_from RB (kb b + lb b)"
    and cut: "((a', b'), rem) =
      (if lb b > la a then (let (b, rem) = tb b (la a) in ((a, b), SomeB rem))
       else if la a > lb b then (let (a, rem) = ta a (lb b) in ((a, b), SomeA rem))
       else ((a, b), Nothing))"
  shows "va a' \<and> vb b' \<and> ka a' = kb b' \<and> la a' = lb b' \<and> 0 < la a' \<and>
    (\<forall>r \<in> set (rem_left rem). va r \<and> 0 < la r \<and> ka r + la r = ka a + la a) \<and>
    (\<forall>r \<in> set (rem_right rem). vb r \<and> 0 < lb r \<and> kb r + lb r = kb b + lb b) \<and>
    key_join (xa.run_content a \<union> RA) (xb.run_content b \<union> RB) = run_join a' b' \<union>
      key_join (content ka ia (rem_left rem) \<union> RA) (content kb ib (rem_right rem) \<union> RB)"
proof -
  consider (lt) "la a < lb b" | (gt) "lb b < la a" | (eq) "la a = lb b" by linarith
  then show ?thesis
  proof cases
    case lt
    obtain b1 r where t: "tb b (la a) = (b1, r)" by (cases "tb b (la a)")
    note f = xb.keep_first[OF b(1) a(2) lt t]
    have "keys_from (xb.run_content r) (ka a + la a)" "keys_below (xb.run_content b1) (ka a + la a)"
      using xb.run_keys(2)[OF f(2)] xb.run_keys(1)[OF f(1)] f(3-5) k by simp_all
    moreover have "keys_from RB (ka a + la a)"
      using RB k lt by (elim keys_mono) simp
    ultimately have "key_join (xa.run_content a) (xb.run_content r) = {}"
      "key_join (xa.run_content a) RB = {}" "key_join RA (xb.run_content b1) = {}"
      using xa.run_keys(1)[OF a(1)] RA key_join_separate by blast+
    then show ?thesis
      using cut t lt f a b k by (auto simp: key_join_Un rem_left_def rem_right_def)
  next
    case gt
    obtain a1 r where t: "ta a (lb b) = (a1, r)" by (cases "ta a (lb b)")
    note f = xa.keep_first[OF a(1) b(2) gt t]
    have "keys_from (xa.run_content r) (kb b + lb b)" "keys_below (xa.run_content a1) (kb b + lb b)"
      using xa.run_keys(2)[OF f(2)] xa.run_keys(1)[OF f(1)] f(3-5) k by simp_all
    moreover have "keys_from RA (kb b + lb b)"
      using RA k gt by (elim keys_mono) simp
    ultimately have "key_join (xa.run_content r) (xb.run_content b) = {}"
      "key_join (xa.run_content a1) RB = {}" "key_join RA (xb.run_content b) = {}"
      using xb.run_keys(1)[OF b(1)] RB key_join_separate by blast+
    then show ?thesis
      using cut t gt f a b k by (auto simp: key_join_Un rem_left_def rem_right_def)
  next
    case eq
    have "keys_below (xa.run_content a) (kb b + lb b)" "keys_from RA (kb b + lb b)"
      using xa.run_keys(1)[OF a(1)] RA k eq by simp_all
    then have "key_join (xa.run_content a) RB = {}" "key_join RA (xb.run_content b) = {}"
      using xb.run_keys(1)[OF b(1)] RB key_join_separate by blast+
    then show ?thesis
      using cut eq a b k by (auto simp: key_join_Un rem_left_def rem_right_def)
  qed
qed

lemma cut_join:
  assumes a0: "va a0" "0 < la a0" and b0: "vb b0" "0 < lb b0"
    and ov: "ka a0 < kb b0 + lb b0" "kb b0 < ka a0 + la a0"
    and RA: "keys_from RA (ka a0 + la a0)" and RB: "keys_from RB (kb b0 + lb b0)"
    and cut: "intersect_cut ka la ta ra kb lb tb rb a0 b0 = ((a', b'), rem)"
  shows "va a' \<and> vb b' \<and> ka a' = kb b' \<and> la a' = lb b' \<and> 0 < la a' \<and>
    (\<forall>r \<in> set (rem_left rem). va r \<and> 0 < la r \<and> ka r + la r = ka a0 + la a0) \<and>
    (\<forall>r \<in> set (rem_right rem). vb r \<and> 0 < lb r \<and> kb r + lb r = kb b0 + lb b0) \<and>
    key_join (xa.run_content a0 \<union> RA) (xb.run_content b0 \<union> RB) = run_join a' b' \<union>
      key_join (content ka ia (rem_left rem) \<union> RA) (content kb ib (rem_right rem) \<union> RB)"
proof -
  define b where "b = (if ka a0 > kb b0 then fst (rb b0 (ka a0 - kb b0)) else b0)"
  define a where "a = (if ka a0 > kb b0 then a0
      else if kb b0 > ka a0 then fst (ra a0 (kb b0 - ka a0)) else a0)"
  obtain D E where al: "va a" "vb b" "ka a = kb b" "0 < la a" "0 < lb b"
      "ka a + la a = ka a0 + la a0" "kb b + lb b = kb b0 + lb b0"
      "xa.run_content a0 = D \<union> xa.run_content a" "xb.run_content b0 = E \<union> xb.run_content b"
      "keys_below D (ka a)" "keys_below E (ka a)"
      "D \<noteq> {} \<longrightarrow> ka a = kb b0" "E \<noteq> {} \<longrightarrow> ka a = ka a0"
    using align[OF a0(1) b0(1) ov a0(2) b0(2)] unfolding a_def b_def by blast
  have D: "key_join D (xb.run_content b0 \<union> RB) = {}"
  proof (cases "D = {}")
    case False
    then have "keys_from (xb.run_content b0 \<union> RB) (ka a)"
      using al(12) xb.run_keys(2)[OF b0(1)] keys_mono(2)[OF RB, of "kb b0"] by simp
    then show ?thesis using al(10) by (rule key_join_separate(1)[rotated])
  qed simp
  have E: "key_join (xa.run_content a0 \<union> RA) E = {}"
  proof (cases "E = {}")
    case False
    then have "keys_from (xa.run_content a0 \<union> RA) (ka a)"
      using al(13) xa.run_keys(2)[OF a0(1)] keys_mono(2)[OF RA, of "ka a0"] by simp
    then show ?thesis using al(11) by (rule key_join_separate(2))
  qed simp
  have eq: "key_join (xa.run_content a0 \<union> RA) (xb.run_content b0 \<union> RB) =
      key_join (xa.run_content a \<union> RA) (xb.run_content b \<union> RB)"
    using D E unfolding al(8,9) key_join_Un by blast
  have parts: "((a', b'), rem) =
      (if lb b > la a then (let (b, rem) = tb b (la a) in ((a, b), SomeB rem))
       else if la a > lb b then (let (a, rem) = ta a (lb b) in ((a, b), SomeA rem))
       else ((a, b), Nothing))"
    unfolding a_def b_def Let_def by (rule cut[symmetric, unfolded intersect_cut_def Let_def])
  have "keys_from RA (ka a + la a)" "keys_from RB (kb b + lb b)"
    using RA RB al(6,7) by simp_all
  from cut_tail[OF al(1,4,2,5,3) this parts] show ?thesis
    unfolding eq al(6,7) .
qed

lemma lists_ok_Cons:
  "lists_ok (a # as) (b # bs) \<longleftrightarrow> va a \<and> 0 < la a \<and> vb b \<and> 0 < lb b \<and>
     (\<forall>y \<in> set as. ka a + la a \<le> ka y) \<and> (\<forall>y \<in> set bs. kb b + lb b \<le> kb y) \<and> lists_ok as bs"
  by (auto simp: lists_ok_def)

lemma loop_join:
  "lists_ok (a # ai) (b # bi) \<Longrightarrow>
   (case intersect_loop ka la ta ra kb lb tb rb a b ai bi of
      None \<Rightarrow> list_join (a # ai) (b # bi) = {}
    | Some ((a', b'), st) \<Rightarrow> va a' \<and> vb b' \<and> ka a' = kb b' \<and> la a' = lb b' \<and> 0 < la a' \<and>
        lists_ok (pending_left st) (pending_right st) \<and>
        list_join (a # ai) (b # bi) = run_join a' b' \<union> list_join (pending_left st) (pending_right st))"
proof (induction "length ai + length bi" arbitrary: a b ai bi rule: less_induct)
  case less
  note ok = less.prems[unfolded lists_ok_Cons]
  have RA: "keys_from (content ka ia ai) (ka a + la a)"
    using ok by (intro xa.content_keys_from) (auto simp: lists_ok_def)
  have RB: "keys_from (content kb ib bi) (kb b + lb b)"
    using ok by (intro xb.content_keys_from) (auto simp: lists_ok_def)
  consider (b_first) "kb b + lb b \<le> ka a" | (a_first) "ka a < kb b + lb b" "ka a + la a \<le> kb b"
    | (overlap) "ka a < kb b + lb b" "kb b < ka a + la a" by linarith
  then show ?case
  proof cases
    case b_first
    have "keys_from (content ka ia (a # ai)) (kb b + lb b)"
      using RA xa.run_keys(2)[of a] ok b_first by (auto elim: keys_mono)
    then have skip: "key_join (content ka ia (a # ai)) (xb.run_content b) = {}"
      using xb.run_keys(1)[of b] ok key_join_separate(2) by blast
    show ?thesis
    proof (cases bi)
      case Nil
      then show ?thesis
        using b_first skip by (simp add: intersect_loop.simps)
    next
      case (Cons b' bi')
      then have ok': "lists_ok (a # ai) (b' # bi')"
        using less.prems by (auto simp: lists_ok_def)
      have e1: "intersect_loop ka la ta ra kb lb tb rb a b ai bi =
          intersect_loop ka la ta ra kb lb tb rb a b' ai bi'"
        using b_first Cons by (subst intersect_loop.simps) simp
      have e2: "list_join (a # ai) (b # bi) = list_join (a # ai) (b' # bi')"
        using skip Cons by (simp add: key_join_Un)
      show ?thesis
        unfolding e1 e2 by (rule less.hyps[OF _ ok']) (simp add: Cons)
    qed
  next
    case a_first
    have "keys_from (content kb ib (b # bi)) (ka a + la a)"
      using RB xb.run_keys(2)[of b] ok a_first by (auto elim: keys_mono)
    then have skip: "key_join (xa.run_content a) (content kb ib (b # bi)) = {}"
      using xa.run_keys(1)[of a] ok key_join_separate(1) by blast
    show ?thesis
    proof (cases ai)
      case Nil
      then show ?thesis
        using a_first skip by (simp add: intersect_loop.simps)
    next
      case (Cons a' ai')
      then have ok': "lists_ok (a' # ai') (b # bi)"
        using less.prems by (auto simp: lists_ok_def)
      have e1: "intersect_loop ka la ta ra kb lb tb rb a b ai bi =
          intersect_loop ka la ta ra kb lb tb rb a' b ai' bi"
        using a_first Cons by (subst intersect_loop.simps) simp
      have e2: "list_join (a # ai) (b # bi) = list_join (a' # ai') (b # bi)"
        using skip Cons by (simp add: key_join_Un)
      show ?thesis
        unfolding e1 e2 by (rule less.hyps[OF _ ok']) (simp add: Cons)
    qed
  next
    case overlap
    obtain a' b' rem where cut: "intersect_cut ka la ta ra kb lb tb rb a b = ((a', b'), rem)"
      by (metis surj_pair)
    have eq: "intersect_loop ka la ta ra kb lb tb rb a b ai bi = Some ((a', b'), (rem, ai, bi))"
      using overlap cut by (subst intersect_loop.simps) simp
    have pend: "pending_left (rem, ai, bi) = rem_left rem @ ai"
      "pending_right (rem, ai, bi) = rem_right rem @ bi"
      by (cases rem; simp add: rem_left_def rem_right_def)+
    have c: "va a' \<and> vb b' \<and> ka a' = kb b' \<and> la a' = lb b' \<and> 0 < la a' \<and>
      (\<forall>r \<in> set (rem_left rem). va r \<and> 0 < la r \<and> ka r + la r = ka a + la a) \<and>
      (\<forall>r \<in> set (rem_right rem). vb r \<and> 0 < lb r \<and> kb r + lb r = kb b + lb b) \<and>
      list_join (a # ai) (b # bi) = run_join a' b' \<union> list_join (rem_left rem @ ai) (rem_right rem @ bi)"
      using cut_join[OF _ _ _ _ overlap RA RB cut] ok by simp
    then have "lists_ok (rem_left rem @ ai) (rem_right rem @ bi)"
      using ok by (cases rem) (auto simp: lists_ok_def rem_left_def rem_right_def)
    then show ?thesis using c eq pend by simp
  qed
qed

lemma collect_join:
  "lists_ok (pending_left st) (pending_right st) \<Longrightarrow>
   list_join (pending_left st) (pending_right st) =
     (\<Union>(a, b) \<in> set (intersect_collect ka la ta ra kb lb tb rb st). run_join a b) \<and>
   (\<forall>(a, b) \<in> set (intersect_collect ka la ta ra kb lb tb rb st). ka a = kb b \<and> la a = lb b \<and> 0 < la a)"
proof (induction "zip_pending st" arbitrary: st rule: less_induct)
  case less
  show ?case
  proof (cases "take_from_iter st")
    case None
    then show ?thesis
      using take_from_iter_pending_lists(2)[OF None]
      by (auto simp: intersect_collect.simps intersect_next_def)
  next
    case (Some r)
    obtain a b ai bi where r: "r = ((a, b), ai, bi)" by (metis surj_pair)
    note t = Some[unfolded r]
    note pl = take_from_iter_pending_lists(1)[OF t]
    note lj = loop_join[of a ai b bi]
    show ?thesis
    proof (cases "intersect_loop ka la ta ra kb lb tb rb a b ai bi")
      case None
      then show ?thesis
        using lj less.prems pl by (auto simp: intersect_collect.simps intersect_next_def t)
    next
      case (Some q)
      obtain a' b' st' where q: "q = ((a', b'), st')" by (metis surj_pair)
      obtain rm ai' bi' where st': "st' = (rm, ai', bi')" by (metis surj_pair)
      have "zip_pending st' < zip_pending st"
        using intersect_loop_pending[OF Some[unfolded q st']] take_from_iter_pending[OF t]
        by (simp add: zip_pending_def st')
      note ih = less.hyps[OF this]
      have eq: "intersect_collect ka la ta ra kb lb tb rb st =
          (a', b') # intersect_collect ka la ta ra kb lb tb rb st'"
        by (subst intersect_collect.simps) (simp add: intersect_next_def t Some q)
      show ?thesis
        using lj less.prems pl Some q ih by (simp add: eq)
    qed
  qed
qed

theorem rle_intersect_join:
  assumes "lists_ok as bs"
  shows "(\<Union>(a, b) \<in> set (rle_intersect ka la ta ra kb lb tb rb as bs). run_join a b) = list_join as bs"
    and "\<forall>(a, b) \<in> set (rle_intersect ka la ta ra kb lb tb rb as bs). ka a = kb b \<and> la a = lb b \<and> 0 < la a"
  using collect_join[of "(Nothing, as, bs)"] assms by (simp_all add: rle_intersect_def)

end

interpretation isect_ranges: intersect_spans dtrange_len dtrange_iter dtrange_is_valid
  dtrange_truncate dtrange_can_append dtrange_append dtrange_prepend
  dtrange_truncate_keeping_right dtrange_rle_key
  dtrange_len dtrange_iter dtrange_is_valid
  dtrange_truncate dtrange_can_append dtrange_append dtrange_prepend
  dtrange_truncate_keeping_right dtrange_rle_key
  by unfold_locales

subsection \<open>Ranges: the nested loop\<close>

text \<open>
  For ranges, the result is exactly that of the quadratic reference: every run of the first list is met with every
  run of the second, in order, and what they have in common is kept.
\<close>

definition range_meet :: "dtrange \<Rightarrow> dtrange \<Rightarrow> dtrange list" where
  "range_meet a b =
     (let s = max (dt_start a) (dt_start b); e = min (dt_end a) (dt_end b) in if s < e then [dtr s e] else [])"

definition range_joins :: "dtrange list \<Rightarrow> dtrange list \<Rightarrow> dtrange list" where
  "range_joins as bs = concat (map (\<lambda>a. concat (map (range_meet a) bs)) as)"

abbreviation range_loop where
  "range_loop \<equiv> intersect_loop dtrange_rle_key dtrange_len dtrange_truncate dtrange_truncate_keeping_right
     dtrange_rle_key dtrange_len dtrange_truncate dtrange_truncate_keeping_right"

abbreviation range_collect where
  "range_collect \<equiv> intersect_collect dtrange_rle_key dtrange_len dtrange_truncate dtrange_truncate_keeping_right
     dtrange_rle_key dtrange_len dtrange_truncate dtrange_truncate_keeping_right"

lemma range_joins_simps:
  "range_joins [] bs = []" "range_joins as [] = []"
  "range_joins (a # as) bs = concat (map (range_meet a) bs) @ range_joins as bs"
  by (simp_all add: range_joins_def)

lemma range_meet_apart: "dt_end a \<le> dt_start b \<or> dt_end b \<le> dt_start a \<Longrightarrow> range_meet a b = []"
  by (auto simp: range_meet_def Let_def)

lemma range_joins_above:
  "\<forall>b \<in> set bs. dt_end a \<le> dt_start b \<Longrightarrow> concat (map (range_meet a) bs) = []"
  by (simp add: range_meet_apart)

lemma range_joins_right:
  assumes "\<forall>a \<in> set as. range_meet a b = concat (map (range_meet a) cs)"
  shows "range_joins as (b # bs) = range_joins as (cs @ bs)"
  using assms by (induction as) (simp_all add: range_joins_simps)

lemma ranges_ok_Cons:
  "isect_ranges.lists_ok (a # as) (b # bs) \<longleftrightarrow> isect_ranges.lists_ok as bs \<and>
     dt_start a < dt_end a \<and> dt_start b < dt_end b \<and> (\<forall>x \<in> set as. dt_end a \<le> dt_start x) \<and>
     (\<forall>y \<in> set bs. dt_end b \<le> dt_start y)"
  by (auto simp: isect_ranges.lists_ok_def span_defs)

lemma range_cut:
  assumes ok: "isect_ranges.lists_ok (a # as) (b # bs)" and o: "dt_start a < dt_end b" "dt_start b < dt_end a"
    and cut: "intersect_cut dtrange_rle_key dtrange_len dtrange_truncate dtrange_truncate_keeping_right
      dtrange_rle_key dtrange_len dtrange_truncate dtrange_truncate_keeping_right a b = ((a', b'), rem)"
  shows "range_joins (a # as) (b # bs) = a' # range_joins (pending_left (rem, as, bs)) (pending_right (rem, as, bs))"
proof -
  let ?s = "max (dt_start a) (dt_start b)"
  have A: "\<forall>x \<in> set as. dt_end a \<le> dt_start x" and B: "\<forall>y \<in> set bs. dt_end b \<le> dt_start y"
    and ne: "dt_start a < dt_end a" "dt_start b < dt_end b" using ok by (simp_all add: ranges_ok_Cons)
  have m: "range_meet a b = [dtr ?s (min (dt_end a) (dt_end b))]" using o ne by (simp add: range_meet_def Let_def)
  consider (b_longer) "dt_end a < dt_end b" | (a_longer) "dt_end b < dt_end a" | (same) "dt_end a = dt_end b" by linarith
  then show ?thesis
  proof cases
    case b_longer
    let ?b = "dtr (dt_end a) (dt_end b)"
    have c: "a' = dtr ?s (dt_end a)" "rem = SomeB ?b"
      using cut o ne b_longer by (auto simp: intersect_cut_def span_defs Let_def split: if_splits)
    have above: "concat (map (range_meet a) bs) = []" using B b_longer by (intro range_joins_above) auto
    have "range_joins as (b # bs) = range_joins as (?b # bs)"
      using range_joins_right[of as b "[?b]" bs] A o by (fastforce simp: range_meet_def max_def Let_def)
    then show ?thesis using m c above b_longer by (simp add: range_joins_simps)
  next
    case a_longer
    let ?a = "dtr (dt_end b) (dt_end a)"
    have c: "a' = dtr ?s (dt_end b)" "rem = SomeA ?a"
      using cut o ne a_longer by (auto simp: intersect_cut_def span_defs Let_def split: if_splits)
    have "\<forall>x \<in> set as. range_meet x b = []" using A a_longer by (force intro: range_meet_apart)
    then have "range_joins as (b # bs) = range_joins as bs" using range_joins_right[of as b "[]" bs] by simp
    moreover have "concat (map (range_meet a) bs) = concat (map (range_meet ?a) bs)"
      using B o by (intro arg_cong[where f = concat] map_cong) (force simp: range_meet_def max_def Let_def)+
    ultimately show ?thesis using m c a_longer by (simp add: range_joins_simps)
  next
    case same
    have c: "a' = dtr ?s (dt_end a)" "rem = Nothing"
      using cut o ne same by (auto simp: intersect_cut_def span_defs Let_def split: if_splits)
    have "\<forall>x \<in> set as. range_meet x b = []" using A same by (force intro: range_meet_apart)
    then have "range_joins as (b # bs) = range_joins as bs" using range_joins_right[of as b "[]" bs] by simp
    moreover have "concat (map (range_meet a) bs) = []" using B same by (intro range_joins_above) auto
    ultimately show ?thesis using m c same by (simp add: range_joins_simps)
  qed
qed

lemma range_loop_joins:
  "isect_ranges.lists_ok (a # ai) (b # bi) \<Longrightarrow>
   (case range_loop a b ai bi of
      None \<Rightarrow> range_joins (a # ai) (b # bi) = []
    | Some ((a', b'), st) \<Rightarrow> range_joins (a # ai) (b # bi) = a' # range_joins (pending_left st) (pending_right st))"
proof (induction "length ai + length bi" arbitrary: a b ai bi rule: less_induct)
  case less
  note ok = less.prems[unfolded ranges_ok_Cons]
  have k: "dtrange_rle_key r + dtrange_len r = dt_end r" if "dt_start r < dt_end r" for r using that by (simp add: span_defs)
  consider (b_first) "dt_end b \<le> dt_start a" | (a_first) "dt_start a < dt_end b" "dt_end a \<le> dt_start b"
    | (overlap) "dt_start a < dt_end b" "dt_start b < dt_end a" by linarith
  then show ?case
  proof cases
    case b_first
    have "\<forall>x \<in> set (a # ai). range_meet x b = []" using ok b_first by (force intro: range_meet_apart)
    then have skip: "range_joins (a # ai) (b # bi) = range_joins (a # ai) bi"
      using range_joins_right[of "a # ai" b "[]" bi] by simp
    show ?thesis
    proof (cases bi)
      case Nil
      then show ?thesis using b_first skip ok by (subst intersect_loop.simps) (simp add: k range_joins_simps span_defs)
    next
      case (Cons b' bi')
      then have ok': "isect_ranges.lists_ok (a # ai) (b' # bi')" using less.prems by (auto simp: isect_ranges.lists_ok_def)
      have e1: "range_loop a b ai bi = range_loop a b' ai bi'"
        using b_first ok Cons by (subst intersect_loop.simps) (simp add: k span_defs)
      have e2: "range_joins (a # ai) (b # bi) = range_joins (a # ai) (b' # bi')" using skip Cons by simp
      show ?thesis unfolding e1 e2 by (rule less.hyps[OF _ ok']) (simp add: Cons)
    qed
  next
    case a_first
    have "concat (map (range_meet a) (b # bi)) = []" using ok a_first by (intro range_joins_above) auto
    then have skip: "range_joins (a # ai) (b # bi) = range_joins ai (b # bi)" by (simp only: range_joins_simps append_Nil)
    show ?thesis
    proof (cases ai)
      case Nil
      then show ?thesis using a_first skip ok by (subst intersect_loop.simps) (simp add: k range_joins_simps span_defs)
    next
      case (Cons a' ai')
      then have ok': "isect_ranges.lists_ok (a' # ai') (b # bi)" using less.prems by (auto simp: isect_ranges.lists_ok_def)
      have e1: "range_loop a b ai bi = range_loop a' b ai' bi"
        using a_first ok Cons by (subst intersect_loop.simps) (simp add: k span_defs)
      have e2: "range_joins (a # ai) (b # bi) = range_joins (a' # ai') (b # bi)" using skip Cons by simp
      show ?thesis unfolding e1 e2 by (rule less.hyps[OF _ ok']) (simp add: Cons)
    qed
  next
    case overlap
    obtain a' b' rem where cut: "intersect_cut dtrange_rle_key dtrange_len dtrange_truncate dtrange_truncate_keeping_right
      dtrange_rle_key dtrange_len dtrange_truncate dtrange_truncate_keeping_right a b = ((a', b'), rem)" by (metis surj_pair)
    have "range_loop a b ai bi = Some ((a', b'), (rem, ai, bi))"
      using overlap ok cut by (subst intersect_loop.simps) (simp add: k span_defs)
    then show ?thesis using range_cut[OF less.prems overlap cut] by simp
  qed
qed

lemma range_collect_joins:
  "isect_ranges.lists_ok (pending_left st) (pending_right st) \<Longrightarrow>
   range_collect st = map (\<lambda>r. (r, r)) (range_joins (pending_left st) (pending_right st))"
proof (induction "zip_pending st" arbitrary: st rule: less_induct)
  case less
  show ?case
  proof (cases "take_from_iter st")
    case None
    then show ?thesis using take_from_iter_pending_lists(2)[OF None]
      by (auto simp: intersect_collect.simps intersect_next_def range_joins_simps)
  next
    case (Some r)
    obtain a b ai bi where r: "r = ((a, b), ai, bi)" by (metis surj_pair)
    note t = Some[unfolded r]
    note pl = take_from_iter_pending_lists(1)[OF t]
    have ok: "isect_ranges.lists_ok (a # ai) (b # bi)" using less.prems pl by simp
    show ?thesis
    proof (cases "range_loop a b ai bi")
      case None
      then show ?thesis using range_loop_joins[OF ok] pl by (subst intersect_collect.simps) (simp add: intersect_next_def t)
    next
      case (Some q)
      obtain a' b' st' where q: "q = ((a', b'), st')" by (metis surj_pair)
      obtain rm ai' bi' where st': "st' = (rm, ai', bi')" by (metis surj_pair)
      have e: "range_joins (a # ai) (b # bi) = a' # range_joins (pending_left st') (pending_right st')"
        using range_loop_joins[OF ok] by (simp add: Some q)
      have j: "dtrange_is_valid a'" "dtrange_is_valid b'" "dtrange_rle_key a' = dtrange_rle_key b'" "dtrange_len a' = dtrange_len b'"
        "isect_ranges.lists_ok (pending_left st') (pending_right st')"
        using isect_ranges.loop_join[OF ok] by (simp_all add: Some q)
      then have "b' = a'" by (simp add: span_defs)
      moreover have "zip_pending st' < zip_pending st"
        using intersect_loop_pending[OF Some[unfolded q st']] take_from_iter_pending[OF t] by (simp add: zip_pending_def st')
      note less.hyps[OF this j(5)]
      ultimately show ?thesis using pl e by (subst intersect_collect.simps) (simp add: intersect_next_def t Some q)
    qed
  qed
qed

theorem rle_intersect_ranges:
  assumes "isect_ranges.lists_ok as bs"
  shows "rle_intersect dtrange_rle_key dtrange_len dtrange_truncate dtrange_truncate_keeping_right
    dtrange_rle_key dtrange_len dtrange_truncate dtrange_truncate_keeping_right as bs = map (\<lambda>r. (r, r)) (range_joins as bs)"
  using range_collect_joins[of "(Nothing, as, bs)"] assms by (simp add: rle_intersect_def)

end
