(* ===== verification/RleTake.thy ===== *)
theory RleTake
  imports RleZip
begin

text \<open>
  \<open>take_max_iter.rs\<close>: reading at most \<open>max_size\<close> items at a time from an iterator over runs.
  \<open>Rem\<close> is the unread part of the last run; \<open>get_next\<close> is the model of the wrapped iterator.
\<close>

type_synonym 'a take_state = "'a option \<times> 'a list"

definition iter_next :: "'a list \<Rightarrow> 'a option \<times> 'a list" where
  "iter_next xs = (case xs of [] \<Rightarrow> (None, []) | x # rest \<Rightarrow> (Some x, rest))"

definition rem_prime :: "'a take_state \<Rightarrow> 'a take_state" where
  "rem_prime st = (case st of
     (Some r, iter) \<Rightarrow> (Some r, iter)
   | (None, iter) \<Rightarrow> iter_next iter)"

definition take_max_primed :: "('a \<Rightarrow> nat) \<Rightarrow> ('a \<Rightarrow> nat \<Rightarrow> 'a \<times> 'a) \<Rightarrow> nat \<Rightarrow> 'a option
    \<Rightarrow> ('a \<times> 'a option) option" where
  "take_max_primed len trunc max_size rem =
     (case rem of
        None \<Rightarrow> None
      | Some r \<Rightarrow> if len r > max_size then (let (r, rest) = trunc r max_size in Some (r, Some rest))
                  else Some (r, None))"

definition take_max_opt :: "('a \<Rightarrow> nat) \<Rightarrow> ('a \<Rightarrow> nat \<Rightarrow> 'a \<times> 'a) \<Rightarrow> nat \<Rightarrow> 'a take_state
    \<Rightarrow> 'a option \<times> 'a take_state" where
  "take_max_opt len trunc max_size st =
     (let (chunk_opt, iter) = rem_prime st
      in case chunk_opt of
           None \<Rightarrow> (None, (None, iter))
         | Some chunk \<Rightarrow>
             if len chunk > max_size
             then (let (chunk, new_remainder) = trunc chunk max_size
                   in (Some chunk, (Some new_remainder, iter)))
             else (Some chunk, (None, iter)))"

definition take_peek :: "'a take_state \<Rightarrow> 'a option \<times> 'a take_state" where
  "take_peek st = (let (r, iter) = rem_prime st in (r, (r, iter)))"

definition take_zip_next :: "('a \<Rightarrow> nat) \<Rightarrow> ('a \<Rightarrow> nat \<Rightarrow> 'a \<times> 'a) \<Rightarrow> ('b \<Rightarrow> nat) \<Rightarrow> ('b \<Rightarrow> nat \<Rightarrow> 'b \<times> 'b)
    \<Rightarrow> nat \<Rightarrow> 'a take_state \<Rightarrow> 'b take_state \<Rightarrow> ('a \<times> 'b) option \<times> 'a take_state \<times> 'b take_state" where
  "take_zip_next lena ta lenb tb max_size sa sb =
     (let (ra, ia) = rem_prime sa; (rb, ib) = rem_prime sb
      in case (ra, rb) of
           (Some aa, Some bb) \<Rightarrow>
             (let take_here = min (min max_size (lena aa)) (lenb bb)
              in case (take_max_primed lena ta take_here ra, take_max_primed lenb tb take_here rb) of
                   (Some (a, ra'), Some (b, rb')) \<Rightarrow> (Some (a, b), (ra', ia), (rb', ib))
                 | _ \<Rightarrow> (None, (ra, ia), (rb, ib)))
         | _ \<Rightarrow> (None, (ra, ia), (rb, ib)))"

definition take_items :: "('a \<Rightarrow> 'i list) \<Rightarrow> 'a take_state \<Rightarrow> 'i list" where
  "take_items items st = (case fst st of None \<Rightarrow> [] | Some r \<Rightarrow> items r) @ concat (map items (snd st))"

definition take_state_ok :: "('a \<Rightarrow> bool) \<Rightarrow> 'a take_state \<Rightarrow> bool" where
  "take_state_ok ok st \<longleftrightarrow> (case fst st of None \<Rightarrow> True | Some r \<Rightarrow> ok r) \<and> (\<forall>x \<in> set (snd st). ok x)"

lemma rem_prime_props:
  assumes "take_state_ok ok st"
  shows "take_state_ok ok (rem_prime st)" "take_items items (rem_prime st) = take_items items st"
    "fst (rem_prime st) = None \<longleftrightarrow> fst st = None \<and> snd st = []"
  using assms
  by (auto simp: rem_prime_def iter_next_def take_state_ok_def take_items_def
      split: prod.splits option.splits list.splits)

context splitable_span
begin

lemma take_max_opt_props:
  assumes ok: "take_state_ok (\<lambda>x. valid x \<and> 0 < len x) st" and "0 < n"
    and t: "take_max_opt len truncate n st = (Some chunk, st')"
  shows "take_state_ok (\<lambda>x. valid x \<and> 0 < len x) st' \<and> valid chunk \<and>
    0 < len chunk \<and> len chunk \<le> n \<and> take_items items st = items chunk @ take_items items st'"
proof -
  obtain r iter where p: "rem_prime st = (r, iter)" by (metis surj_pair)
  then obtain c where c: "r = Some c"
    using t by (auto simp: take_max_opt_def split: option.splits)
  have okp: "valid c" "0 < len c" "\<forall>x \<in> set iter. valid x \<and> 0 < len x"
    and items: "take_items items st = items c @ concat (map items iter)"
    using rem_prime_props(1)[OF ok] rem_prime_props(2)[OF ok, of items] p c
    by (auto simp: take_state_ok_def take_items_def)
  show ?thesis
  proof (cases "len c > n")
    case True
    then show ?thesis
      using t okp items truncate_valid[OF okp(1) \<open>0 < n\<close> True] truncate_len[OF okp(1) \<open>0 < n\<close> True]
        truncate_items[OF okp(1) \<open>0 < n\<close> True] \<open>0 < n\<close>
      by (auto simp: take_max_opt_def p c take_state_ok_def take_items_def split: prod.splits)
  next
    case False
    then show ?thesis
      using t okp items by (auto simp: take_max_opt_def p c take_state_ok_def take_items_def)
  qed
qed

lemma take_max_opt_end:
  assumes "take_state_ok (\<lambda>x. valid x \<and> 0 < len x) st"
  shows "fst (take_max_opt len truncate n st) = None \<longleftrightarrow> take_items items st = []"
proof -
  obtain r iter where p: "rem_prime st = (r, iter)" by (metis surj_pair)
  note props = rem_prime_props(1)[OF assms] rem_prime_props(2)[OF assms, of items]
    rem_prime_props(3)[OF assms]
  show ?thesis
  proof (cases r)
    case None
    then show ?thesis using p props by (auto simp: take_max_opt_def take_items_def)
  next
    case (Some c)
    then have "items c \<noteq> []"
      using props(1) p length_items[of c] by (auto simp: take_state_ok_def)
    moreover have "take_items items st = items c @ concat (map items iter)"
      using props(2) p Some by (simp add: take_items_def)
    ultimately show ?thesis
      using p Some by (simp add: take_max_opt_def split: prod.splits)
  qed
qed

end

end
