(* ===== verification/RleVec.thy ===== *)
theory RleVec
  imports RleIntersect RleTake
begin

text \<open>
  \<open>src/rle/mod.rs\<close> and \<open>src/rle/rle_vec.rs\<close>: keyed runs, \<open>KVPair\<close>, and the run-length vector
  \<open>RleVec\<close>, a list of keyed runs in key order that is searched by binary search.  The trait
  methods of the element type are arguments of the operations (\<open>key\<close> for \<open>rle_key\<close>, \<open>len\<close>,
  \<open>trunc\<close> and \<open>truncr\<close> for \<open>truncate\<close> and \<open>truncate_keeping_right\<close>, \<open>can\<close>, \<open>app\<close>, \<open>prep\<close>).
  The abstraction of a vector is the set \<open>content\<close> of its (key, item) pairs.
\<close>

subsection \<open>Helpers of keyed runs\<close>

definition span_end :: "('a \<Rightarrow> nat) \<Rightarrow> ('a \<Rightarrow> nat) \<Rightarrow> 'a \<Rightarrow> nat" where
  "span_end key len x = key x + len x"

definition span_last :: "('a \<Rightarrow> nat) \<Rightarrow> ('a \<Rightarrow> nat) \<Rightarrow> 'a \<Rightarrow> nat" where
  "span_last key len x = span_end key len x - 1"

definition span_of :: "('a \<Rightarrow> nat) \<Rightarrow> ('a \<Rightarrow> nat) \<Rightarrow> 'a \<Rightarrow> dtrange" where
  "span_of key len x = (let start = key x in \<lparr>dt_start = start, dt_end = start + len x\<rparr>)"

text \<open>The subtraction \<open>at - self.rle_key()\<close> overflows when the position lies before the run.\<close>

definition truncate_from :: "('a \<Rightarrow> nat) \<Rightarrow> ('a \<Rightarrow> nat \<Rightarrow> 'a \<times> 'a) \<Rightarrow> 'a \<Rightarrow> nat \<Rightarrow> ('a \<times> 'a) option" where
  "truncate_from key trunc x at = (if key x \<le> at then Some (trunc x (at - key x)) else None)"

definition truncate_keeping_right_from :: "('a \<Rightarrow> nat) \<Rightarrow> ('a \<Rightarrow> nat \<Rightarrow> 'a \<times> 'a) \<Rightarrow> 'a \<Rightarrow> nat
    \<Rightarrow> ('a \<times> 'a) option" where
  "truncate_keeping_right_from key truncr x at =
     (if key x \<le> at then Some (truncr x (at - key x)) else None)"

definition try_trim :: "('a \<Rightarrow> nat) \<Rightarrow> ('a \<Rightarrow> nat) \<Rightarrow> ('a \<Rightarrow> nat \<Rightarrow> 'a \<times> 'a) \<Rightarrow> ('a \<Rightarrow> nat \<Rightarrow> 'a \<times> 'a)
    \<Rightarrow> 'a \<Rightarrow> dtrange \<Rightarrow> 'a option" where
  "try_trim key len trunc truncr x target_span =
     (let x_span = span_of key len x;
          step1 = (if dt_start x_span < dt_start target_span
                   then (if dt_end x_span \<le> dt_start target_span then None
                         else Some (fst (truncr x (dt_start target_span - dt_start x_span))))
                   else Some x)
      in case step1 of
           None \<Rightarrow> None
         | Some x \<Rightarrow>
             if dt_end x_span > dt_end target_span
             then (if dt_start x_span \<ge> dt_end target_span then None
                   else Some (fst (trunc x (dt_end target_span - dt_start x_span))))
             else Some x)"

subsection \<open>KVPair\<close>

datatype 'v kvpair = KVPair (kv_key: nat) (kv_val: 'v)

definition kv_len :: "('v \<Rightarrow> nat) \<Rightarrow> 'v kvpair \<Rightarrow> nat" where
  "kv_len len x = len (kv_val x)"

definition kv_range :: "('v \<Rightarrow> nat) \<Rightarrow> 'v kvpair \<Rightarrow> dtrange" where
  "kv_range len x = \<lparr>dt_start = kv_key x, dt_end = kv_key x + kv_len len x\<rparr>"

definition kv_truncate :: "('v \<Rightarrow> nat \<Rightarrow> 'v \<times> 'v) \<Rightarrow> 'v kvpair \<Rightarrow> nat \<Rightarrow> 'v kvpair \<times> 'v kvpair" where
  "kv_truncate trunc x at =
     (let (self', remainder) = trunc (kv_val x) at
      in (KVPair (kv_key x) self', KVPair (kv_key x + at) remainder))"

definition kv_truncate_keeping_right :: "('v \<Rightarrow> nat \<Rightarrow> 'v \<times> 'v) \<Rightarrow> 'v kvpair \<Rightarrow> nat
    \<Rightarrow> 'v kvpair \<times> 'v kvpair" where
  "kv_truncate_keeping_right truncr x at =
     (let old_key = kv_key x; (self', trimmed) = truncr (kv_val x) at
      in (KVPair (kv_key x + at) self', KVPair old_key trimmed))"

definition kv_can_append :: "('v \<Rightarrow> nat) \<Rightarrow> ('v \<Rightarrow> 'v \<Rightarrow> bool) \<Rightarrow> 'v kvpair \<Rightarrow> 'v kvpair \<Rightarrow> bool" where
  "kv_can_append len can x other \<longleftrightarrow>
     kv_key other = span_end kv_key (kv_len len) x \<and> can (kv_val x) (kv_val other)"

definition kv_append :: "('v \<Rightarrow> 'v \<Rightarrow> 'v) \<Rightarrow> 'v kvpair \<Rightarrow> 'v kvpair \<Rightarrow> 'v kvpair" where
  "kv_append app x other = KVPair (kv_key x) (app (kv_val x) (kv_val other))"

definition kv_prepend :: "('v \<Rightarrow> 'v \<Rightarrow> 'v) \<Rightarrow> 'v kvpair \<Rightarrow> 'v kvpair \<Rightarrow> 'v kvpair" where
  "kv_prepend prep x other = KVPair (kv_key other) (prep (kv_val x) (kv_val other))"

definition kv_get_offset :: "('v \<Rightarrow> 'i \<Rightarrow> nat option) \<Rightarrow> 'v kvpair \<Rightarrow> 'i \<Rightarrow> nat option" where
  "kv_get_offset get x loc = get (kv_val x) loc"

definition kv_at_offset :: "('v \<Rightarrow> nat \<Rightarrow> 'i) \<Rightarrow> 'v kvpair \<Rightarrow> nat \<Rightarrow> 'i" where
  "kv_at_offset at x offset = at (kv_val x) offset"

definition kv_items :: "('v \<Rightarrow> 'i list) \<Rightarrow> 'v kvpair \<Rightarrow> 'i list" where
  "kv_items items x = items (kv_val x)"

lemmas kv_defs = kv_len_def kv_range_def kv_truncate_def kv_truncate_keeping_right_def
  kv_can_append_def kv_append_def kv_prepend_def kv_items_def span_end_def

text \<open>What \<open>RleVec\<close> needs of its element type, beyond the span traits.\<close>

locale rle_key_span = keyed_split_join len items valid truncate can_append app prep
    truncate_keeping_right key
  for len :: "'a \<Rightarrow> nat" and items :: "'a \<Rightarrow> 'i list" and valid truncate
    and can_append app prep truncate_keeping_right key +
  assumes can_append_key: "valid a \<Longrightarrow> can_append a b \<Longrightarrow> key b = key a + len a"
    and app_key: "key (app a b) = key a"

context split_join_span
begin

lemma kv_rle_key_span:
  "rle_key_span (kv_len len) (kv_items items) (\<lambda>x. valid (kv_val x)) (kv_truncate truncate)
     (kv_can_append len can_append) (kv_append app) (kv_prepend prep)
     (kv_truncate_keeping_right truncate_keeping_right) kv_key"
  by unfold_locales
    (auto simp: kv_defs Let_def split_beta length_items truncate_valid truncate_left truncate_right
      append_valid append_items prepend_append truncate_keeping_right rejoin truncate_len)

end

interpretation dtrange_rle: rle_key_span dtrange_len dtrange_iter dtrange_is_valid
  dtrange_truncate dtrange_can_append dtrange_append dtrange_prepend
  dtrange_truncate_keeping_right dtrange_rle_key
  by unfold_locales (auto simp: span_defs)

interpretation kv_dtrange: rle_key_span "kv_len dtrange_len" "kv_items dtrange_iter"
  "\<lambda>x. dtrange_is_valid (kv_val x)" "kv_truncate dtrange_truncate"
  "kv_can_append dtrange_len dtrange_can_append" "kv_append dtrange_append"
  "kv_prepend dtrange_prepend" "kv_truncate_keeping_right dtrange_truncate_keeping_right" kv_key
  by (rule dtrange.kv_rle_key_span)

subsection \<open>RleVec: appending and searching\<close>

definition rv_push :: "('a \<Rightarrow> 'a \<Rightarrow> bool) \<Rightarrow> ('a \<Rightarrow> 'a \<Rightarrow> 'a) \<Rightarrow> 'a list \<Rightarrow> 'a \<Rightarrow> 'a list \<times> bool" where
  "rv_push can app xs val = push_rle can app xs val"

definition rv_last_entry :: "'a list \<Rightarrow> 'a option" where
  "rv_last_entry xs = (if xs = [] then None else Some (last xs))"

definition rv_push_will_merge :: "('a \<Rightarrow> 'a \<Rightarrow> bool) \<Rightarrow> 'a list \<Rightarrow> 'a \<Rightarrow> bool" where
  "rv_push_will_merge can xs item =
     (case rv_last_entry xs of Some v \<Rightarrow> can v item | None \<Rightarrow> False)"

definition rv_end :: "('a \<Rightarrow> nat) \<Rightarrow> ('a \<Rightarrow> nat) \<Rightarrow> 'a list \<Rightarrow> nat" where
  "rv_end key len xs =
     (case rv_last_entry xs of Some v \<Rightarrow> span_end key len v | None \<Rightarrow> 0)"

definition entry_cmp :: "('a \<Rightarrow> nat) \<Rightarrow> ('a \<Rightarrow> nat) \<Rightarrow> nat \<Rightarrow> 'a \<Rightarrow> ordering" where
  "entry_cmp keyf len needle entry =
     (let key = keyf entry
      in if needle < key then Greater
         else if needle \<ge> key + len entry then Less
         else Equal)"

definition find_index :: "('a \<Rightarrow> nat) \<Rightarrow> ('a \<Rightarrow> nat) \<Rightarrow> 'a list \<Rightarrow> nat \<Rightarrow> nat + nat" where
  "find_index key len xs needle = binary_search_by (entry_cmp key len needle) xs"

definition find_next_index :: "('a \<Rightarrow> nat) \<Rightarrow> ('a \<Rightarrow> nat) \<Rightarrow> 'a list \<Rightarrow> nat \<Rightarrow> nat" where
  "find_next_index key len xs needle =
     (case find_index key len xs needle of Inr i \<Rightarrow> i | Inl i \<Rightarrow> i)"

definition rv_find :: "('a \<Rightarrow> nat) \<Rightarrow> ('a \<Rightarrow> nat) \<Rightarrow> 'a list \<Rightarrow> nat \<Rightarrow> 'a option" where
  "rv_find key len xs needle =
     (case find_index key len xs needle of Inr idx \<Rightarrow> Some (xs ! idx) | Inl _ \<Rightarrow> None)"

definition find_packed :: "('a \<Rightarrow> nat) \<Rightarrow> ('a \<Rightarrow> nat) \<Rightarrow> 'a list \<Rightarrow> nat \<Rightarrow> 'a option" where
  "find_packed key len xs needle = rv_find key len xs needle"

definition find_with_offset :: "('a \<Rightarrow> nat) \<Rightarrow> ('a \<Rightarrow> nat) \<Rightarrow> 'a list \<Rightarrow> nat \<Rightarrow> ('a \<times> nat) option" where
  "find_with_offset key len xs needle =
     (case find_index key len xs needle of
        Inr idx \<Rightarrow> (let entry = xs ! idx in Some (entry, needle - key entry))
      | Inl _ \<Rightarrow> None)"

definition find_packed_with_offset :: "('a \<Rightarrow> nat) \<Rightarrow> ('a \<Rightarrow> nat) \<Rightarrow> 'a list \<Rightarrow> nat \<Rightarrow> ('a \<times> nat) option" where
  "find_packed_with_offset key len xs needle = find_with_offset key len xs needle"

definition find_packed_and_split :: "('a \<Rightarrow> nat) \<Rightarrow> ('a \<Rightarrow> nat) \<Rightarrow> ('a \<Rightarrow> nat \<Rightarrow> 'a \<times> 'a)
    \<Rightarrow> ('a \<Rightarrow> nat \<Rightarrow> 'a \<times> 'a) \<Rightarrow> 'a list \<Rightarrow> dtrange \<Rightarrow> 'a option" where
  "find_packed_and_split key len trunc truncr xs rng =
     (case find_packed_with_offset key len xs (dt_start rng) of
        None \<Rightarrow> None
      | Some (item, offset) \<Rightarrow>
          let item = fst (truncr item offset)
          in Some (if len item > dtrange_len rng
                   then fst (trunc item (dtrange_len rng)) else item))"

text \<open>\<open>find_sparse\<close>: \<open>Inr\<close> is the \<open>Ok\<close> entry, \<open>Inl\<close> the surrounding gap.\<close>

definition find_sparse :: "('a \<Rightarrow> nat) \<Rightarrow> ('a \<Rightarrow> nat) \<Rightarrow> 'a list \<Rightarrow> nat \<Rightarrow> (dtrange + 'a) \<times> nat" where
  "find_sparse key len xs needle =
     (case find_index key len xs needle of
        Inr idx \<Rightarrow> (let entry = xs ! idx in (Inr entry, needle - key entry))
      | Inl idx \<Rightarrow>
          (let next_key = (if idx < length xs then key (xs ! idx) else usize_max)
           in if idx = 0 then (Inl \<lparr>dt_start = 0, dt_end = next_key\<rparr>, needle)
              else (let end' = span_end key len (xs ! (idx - 1))
                    in (Inl \<lparr>dt_start = end', dt_end = next_key\<rparr>, needle - end'))))"

definition contains_needle :: "('a \<Rightarrow> nat) \<Rightarrow> ('a \<Rightarrow> nat) \<Rightarrow> 'a list \<Rightarrow> nat \<Rightarrow> bool" where
  "contains_needle key len xs needle \<longleftrightarrow>
     xs \<noteq> [] \<and> (case find_index key len xs needle of Inr _ \<Rightarrow> True | Inl _ \<Rightarrow> False)"

text \<open>Linear scans from a hint; the updated index is returned with the result.\<close>

function search_scanning_sparse :: "('a \<Rightarrow> nat) \<Rightarrow> ('a \<Rightarrow> nat) \<Rightarrow> 'a list \<Rightarrow> nat \<Rightarrow> nat \<Rightarrow> (nat + 'a) \<times> nat" where
  "search_scanning_sparse key len xs needle idx =
     (if idx < length xs then
        (let e = xs ! idx
         in if needle < span_end key len e
            then (if needle \<ge> key e then (Inr e, idx) else (Inl (key e), idx))
            else search_scanning_sparse key len xs needle (idx + 1))
      else (Inl usize_max, idx))"
  by pat_completeness auto
termination
  by (relation "measure (\<lambda>(key, len, xs, needle, idx). length xs - idx)") auto

text \<open>Backwards: \<open>wrapping_sub\<close> takes the index from 0 to \<open>usize::MAX\<close>, which ends the loop.\<close>

fun search_scanning_backwards_sparse :: "('a \<Rightarrow> nat) \<Rightarrow> ('a \<Rightarrow> nat) \<Rightarrow> 'a list \<Rightarrow> nat \<Rightarrow> nat
    \<Rightarrow> (nat + 'a) \<times> nat" where
  "search_scanning_backwards_sparse key len xs needle idx =
     (if idx < length xs then
        (let e = xs ! idx
         in if needle \<ge> key e
            then (if needle < span_end key len e then (Inr e, idx) else (Inl (span_end key len e), idx))
            else (case idx of 0 \<Rightarrow> (Inl 0, usize_max)
                  | Suc idx' \<Rightarrow> search_scanning_backwards_sparse key len xs needle idx'))
      else (Inl 0, idx))"

declare search_scanning_sparse.simps [simp del]
declare search_scanning_backwards_sparse.simps [simp del]

fun visit_sparse :: "('a \<Rightarrow> nat) \<Rightarrow> ('a \<Rightarrow> nat) \<Rightarrow> 'a list \<Rightarrow> nat \<Rightarrow> nat \<Rightarrow> (dtrange + 'a) list" where
  "visit_sparse keyf len [] key end' = (if key < end' then [Inl \<lparr>dt_start = key, dt_end = end'\<rparr>] else [])"
| "visit_sparse keyf len (e # es) key end' =
     (let next_key = keyf e
      in (if key < next_key then [Inl \<lparr>dt_start = key, dt_end = next_key\<rparr>] else []) @
         Inr e # visit_sparse keyf len es (span_end keyf len e) end')"

definition for_each_sparse :: "('a \<Rightarrow> nat) \<Rightarrow> ('a \<Rightarrow> nat) \<Rightarrow> 'a list \<Rightarrow> nat \<Rightarrow> (dtrange + 'a) list" where
  "for_each_sparse key len xs end' = visit_sparse key len xs 0 end'"

text \<open>The three self-checks, as the condition under which they do not panic.\<close>

fun packed_from :: "('a \<Rightarrow> nat) \<Rightarrow> ('a \<Rightarrow> nat) \<Rightarrow> nat \<Rightarrow> 'a list \<Rightarrow> bool" where
  "packed_from key len expect_next [] = True"
| "packed_from key len expect_next (x # xs) \<longleftrightarrow>
     key x = expect_next \<and> packed_from key len (span_end key len x) xs"

definition check_packed :: "('a \<Rightarrow> nat) \<Rightarrow> ('a \<Rightarrow> nat) \<Rightarrow> 'a list \<Rightarrow> bool" where
  "check_packed key len xs \<longleftrightarrow>
     (case xs of [] \<Rightarrow> True | x # rest \<Rightarrow> packed_from key len (span_end key len x) rest)"

definition check_packed_from_0 :: "('a \<Rightarrow> nat) \<Rightarrow> ('a \<Rightarrow> nat) \<Rightarrow> 'a list \<Rightarrow> bool" where
  "check_packed_from_0 key len xs \<longleftrightarrow> packed_from key len 0 xs"

definition check_fully_merged :: "('a \<Rightarrow> 'a \<Rightarrow> bool) \<Rightarrow> 'a list \<Rightarrow> bool" where
  "check_fully_merged can xs \<longleftrightarrow> successively (\<lambda>a b. \<not> can a b) xs"

definition rv_extend :: "('a \<Rightarrow> 'a \<Rightarrow> bool) \<Rightarrow> ('a \<Rightarrow> 'a \<Rightarrow> 'a) \<Rightarrow> 'a list \<Rightarrow> 'a list \<Rightarrow> 'a list" where
  "rv_extend can app xs iter = extend_rle can app xs iter"

definition rv_from_iter :: "('a \<Rightarrow> 'a \<Rightarrow> bool) \<Rightarrow> ('a \<Rightarrow> 'a \<Rightarrow> 'a) \<Rightarrow> 'a list \<Rightarrow> 'a list" where
  "rv_from_iter can app iter = extend_rle can app [] iter"

definition rv_get :: "('a \<Rightarrow> nat) \<Rightarrow> ('a \<Rightarrow> nat) \<Rightarrow> ('a \<Rightarrow> nat \<Rightarrow> 'i) \<Rightarrow> 'a list \<Rightarrow> nat \<Rightarrow> 'i option" where
  "rv_get key len at_offset xs idx =
     (case find_packed_with_offset key len xs idx of
        None \<Rightarrow> None | Some (v, offset) \<Rightarrow> Some (at_offset v offset))"

subsection \<open>RleVec: insertion, removal, range iteration\<close>

definition rle_insert :: "('a \<Rightarrow> nat) \<Rightarrow> ('a \<Rightarrow> nat) \<Rightarrow> ('a \<Rightarrow> 'a \<Rightarrow> bool) \<Rightarrow> ('a \<Rightarrow> 'a \<Rightarrow> 'a)
    \<Rightarrow> ('a \<Rightarrow> 'a \<Rightarrow> 'a) \<Rightarrow> 'a list \<Rightarrow> 'a \<Rightarrow> 'a list option" where
  "rle_insert key len can app prep xs val =
     (if (case rv_last_entry xs of Some last_e \<Rightarrow> span_end key len last_e \<le> key val | None \<Rightarrow> True)
      then Some (fst (rv_push can app xs val))
      else case find_index key len xs (key val) of
             Inr _ \<Rightarrow> None
           | Inl idx \<Rightarrow>
               if idx \<ge> 1 \<and> can (xs ! (idx - 1)) val
               then Some (xs[idx - 1 := app (xs ! (idx - 1)) val])
               else if idx < length xs \<and> can val (xs ! idx)
               then Some (xs[idx := prep (xs ! idx) val])
               else Some (take idx xs @ val # drop idx xs))"

text \<open>
  \<open>remove_ctx\<close>.  The first loop looks at the end of the list; \<open>Inr\<close> means the method returned,
  \<open>Inl\<close> that it fell through to the slow case (with the entries that are left).
\<close>

fun remove_fast :: "('a \<Rightarrow> nat) \<Rightarrow> ('a \<Rightarrow> nat) \<Rightarrow> ('a \<Rightarrow> nat \<Rightarrow> 'a \<times> 'a) \<Rightarrow> dtrange \<Rightarrow> 'a list
    \<Rightarrow> ('a list + 'a list) option" where
  "remove_fast key len trunc deleted [] = Some (Inr [])"
| "remove_fast key len trunc deleted (last_e # earlier) =
     (let last_span = span_of key len last_e
      in if dt_start deleted \<ge> dt_end last_span then Some (Inr (last_e # earlier))
         else if dt_end deleted < dt_end last_span then Some (Inl (last_e # earlier))
         else if dt_start deleted \<le> dt_start last_span
         then (if dt_start deleted = dt_start last_span then Some (Inr earlier)
               else remove_fast key len trunc deleted earlier)
         else (case truncate_from key trunc last_e (dt_start deleted) of
                 None \<Rightarrow> None
               | Some (last_e', _) \<Rightarrow> Some (Inr (last_e' # earlier))))"

function remove_slow :: "('a \<Rightarrow> nat) \<Rightarrow> ('a \<Rightarrow> nat) \<Rightarrow> ('a \<Rightarrow> nat \<Rightarrow> 'a \<times> 'a) \<Rightarrow> ('a \<Rightarrow> nat \<Rightarrow> 'a \<times> 'a)
    \<Rightarrow> ('a \<Rightarrow> 'a \<Rightarrow> bool) \<Rightarrow> ('a \<Rightarrow> 'a \<Rightarrow> 'a) \<Rightarrow> ('a \<Rightarrow> 'a \<Rightarrow> 'a) \<Rightarrow> dtrange \<Rightarrow> 'a list \<Rightarrow> nat
    \<Rightarrow> 'a list option" where
  "remove_slow key len trunc truncr can app prep deleted xs idx =
     (if idx \<ge> length xs then Some xs
      else
        let e = xs ! idx; e_end = span_end key len e;
            keep_start = (key e < dt_start deleted); keep_end = (e_end > dt_end deleted)
        in if \<not> keep_start \<and> \<not> keep_end then
             (let xs' = take idx xs @ drop (Suc idx) xs
              in if e_end = dt_end deleted then Some xs'
                 else remove_slow key len trunc truncr can app prep deleted xs' idx)
           else if \<not> keep_start \<and> keep_end then
             (case truncate_keeping_right_from key truncr e (dt_start deleted) of
                None \<Rightarrow> None
              | Some (e', _) \<Rightarrow> Some (xs[idx := e']))
           else if keep_start \<and> \<not> keep_end then
             (case truncate_from key trunc e (dt_start deleted) of
                None \<Rightarrow> None
              | Some (e', _) \<Rightarrow>
                  (let xs' = xs[idx := e']
                   in if e_end = dt_end deleted then Some xs'
                      else remove_slow key len trunc truncr can app prep deleted xs' (idx + 1)))
           else
             (case truncate_from key trunc e (dt_start deleted) of
                None \<Rightarrow> None
              | Some (e', remainder) \<Rightarrow>
                  (case truncate_keeping_right_from key truncr remainder (dt_end deleted) of
                     None \<Rightarrow> None
                   | Some (remainder', _) \<Rightarrow> rle_insert key len can app prep (xs[idx := e']) remainder')))"
  by pat_completeness auto
termination
  by (relation "measure (\<lambda>(k, l, t, r, c, a, p, d, xs, idx). length xs - idx)") auto

declare remove_slow.simps [simp del]

definition remove_ctx :: "('a \<Rightarrow> nat) \<Rightarrow> ('a \<Rightarrow> nat) \<Rightarrow> ('a \<Rightarrow> nat \<Rightarrow> 'a \<times> 'a) \<Rightarrow> ('a \<Rightarrow> nat \<Rightarrow> 'a \<times> 'a)
    \<Rightarrow> ('a \<Rightarrow> 'a \<Rightarrow> bool) \<Rightarrow> ('a \<Rightarrow> 'a \<Rightarrow> 'a) \<Rightarrow> ('a \<Rightarrow> 'a \<Rightarrow> 'a) \<Rightarrow> 'a list \<Rightarrow> dtrange
    \<Rightarrow> 'a list option" where
  "remove_ctx key len trunc truncr can app prep xs deleted =
     (case remove_fast key len trunc deleted (rev xs) of
        None \<Rightarrow> None
      | Some (Inr done) \<Rightarrow> Some (rev done)
      | Some (Inl left) \<Rightarrow>
          (let xs = rev left
           in case find_index key len xs (dt_start deleted) of
                Inr idx \<Rightarrow> remove_slow key len trunc truncr can app prep deleted xs idx
              | Inl idx \<Rightarrow>
                  if idx < length xs
                  then (case truncate_keeping_right_from dtrange_rle_key dtrange_truncate_keeping_right
                               deleted (key (xs ! idx)) of
                          None \<Rightarrow> None
                        | Some (deleted', _) \<Rightarrow>
                            remove_slow key len trunc truncr can app prep deleted' xs idx)
                  else Some xs))"

fun range_iter :: "('a \<Rightarrow> nat) \<Rightarrow> ('a \<Rightarrow> nat) \<Rightarrow> ('b \<Rightarrow> nat \<Rightarrow> 'b \<times> 'b) \<Rightarrow> ('b \<Rightarrow> nat \<Rightarrow> 'b \<times> 'b)
    \<Rightarrow> ('a \<Rightarrow> 'b) \<Rightarrow> dtrange \<Rightarrow> 'a list \<Rightarrow> 'b list" where
  "range_iter key len trunc truncr map_fn rng [] = []"
| "range_iter key len trunc truncr map_fn rng (item # rest) =
     (let item_range = span_of key len item
      in if dt_start item_range \<ge> dt_end rng then []
         else
           (let item = map_fn item;
                item = (if dt_end item_range > dt_end rng
                        then fst (trunc item (dt_end rng - dt_start item_range)) else item);
                item = (if dt_start item_range < dt_start rng
                        then fst (truncr item (dt_start rng - dt_start item_range)) else item)
            in item # range_iter key len trunc truncr map_fn rng rest))"

definition iter_range_map :: "('a \<Rightarrow> nat) \<Rightarrow> ('a \<Rightarrow> nat) \<Rightarrow> ('b \<Rightarrow> nat \<Rightarrow> 'b \<times> 'b) \<Rightarrow> ('b \<Rightarrow> nat \<Rightarrow> 'b \<times> 'b)
    \<Rightarrow> ('a \<Rightarrow> 'b) \<Rightarrow> 'a list \<Rightarrow> dtrange \<Rightarrow> 'b list" where
  "iter_range_map key len trunc truncr map_fn xs rng =
     (let start_idx = find_next_index key len xs (dt_start rng)
      in range_iter key len trunc truncr map_fn rng (drop start_idx xs))"

definition iter_range :: "('a \<Rightarrow> nat) \<Rightarrow> ('a \<Rightarrow> nat) \<Rightarrow> ('a \<Rightarrow> nat \<Rightarrow> 'a \<times> 'a) \<Rightarrow> ('a \<Rightarrow> nat \<Rightarrow> 'a \<times> 'a)
    \<Rightarrow> 'a list \<Rightarrow> dtrange \<Rightarrow> 'a list" where
  "iter_range key len trunc truncr xs rng = iter_range_map key len trunc truncr id xs rng"

end
