(* ===== verification/RleVecFacts.thy ===== *)
theory RleVecFacts
  imports RleVec
begin

text \<open>
  What the run-length vector promises: lookups agree with the content of the vector, insertion
  adds a run's content, range iteration restricts the content, and removal at the end of the
  vector cuts it off.  All of it is proved once, for any element type that meets
  \<open>rle_key_span\<close>; a vector is well formed when its runs are valid, not empty, in key order and
  do not overlap (\<open>vec_ok\<close>).
\<close>

definition vec_ok :: "('a \<Rightarrow> nat) \<Rightarrow> ('a \<Rightarrow> nat) \<Rightarrow> ('a \<Rightarrow> bool) \<Rightarrow> 'a list \<Rightarrow> bool" where
  "vec_ok key len valid xs \<longleftrightarrow> (\<forall>x \<in> set xs. valid x \<and> 0 < len x) \<and> span_sorted key len xs"

lemma vec_ok_simps [simp]:
  "vec_ok key len valid []"
  "vec_ok key len valid (x # xs) \<longleftrightarrow> valid x \<and> 0 < len x \<and> (\<forall>y \<in> set xs. key x + len x \<le> key y) \<and>
     vec_ok key len valid xs"
  by (auto simp: vec_ok_def)

lemma span_sorted_append:
  "span_sorted key len (xs @ ys) \<longleftrightarrow> span_sorted key len xs \<and> span_sorted key len ys \<and>
     (\<forall>x \<in> set xs. \<forall>y \<in> set ys. key x + len x \<le> key y)"
  by (simp add: span_sorted_def sorted_wrt_append)

lemma vec_ok_append [simp]:
  "vec_ok key len valid (xs @ ys) \<longleftrightarrow> vec_ok key len valid xs \<and> vec_ok key len valid ys \<and>
     (\<forall>x \<in> set xs. \<forall>y \<in> set ys. key x + len x \<le> key y)"
  by (auto simp: vec_ok_def span_sorted_append)

lemma vec_ok_nth:
  assumes "vec_ok key len valid xs" "i < j" "j < length xs"
  shows "key (xs ! i) + len (xs ! i) \<le> key (xs ! j)"
  using assms sorted_wrt_nth_less[of "\<lambda>a b. key a + len a \<le> key b" xs i j]
  by (simp add: vec_ok_def span_sorted_def)

lemma vec_ok_item:
  "vec_ok key len valid xs \<Longrightarrow> i < length xs \<Longrightarrow> valid (xs ! i) \<and> 0 < len (xs ! i)"
  by (simp add: vec_ok_def)

lemma vec_ok_take: "vec_ok key len valid xs \<Longrightarrow> vec_ok key len valid (take i xs)"
  by (metis append_take_drop_id vec_ok_append)

lemma vec_ok_drop: "vec_ok key len valid xs \<Longrightarrow> vec_ok key len valid (drop i xs)"
  by (metis append_take_drop_id vec_ok_append)

lemma entry_cmp_partitioned:
  assumes "vec_ok key len valid xs"
  shows "partitioned (entry_cmp key len n) xs"
proof -
  have "key (xs ! i) + len (xs ! i) \<le> key (xs ! j) \<and> 0 < len (xs ! i) \<and> 0 < len (xs ! j)"
    if "i < j" "j < length xs" for i j
    using vec_ok_nth[OF assms that] vec_ok_item[OF assms] that by simp
  then show ?thesis
    by (fastforce simp: partitioned_def entry_cmp_def Let_def split: if_splits)
qed

lemma entry_cmp_simps:
  "entry_cmp key len n e = Less \<longleftrightarrow> key e \<le> n \<and> key e + len e \<le> n"
  "entry_cmp key len n e = Equal \<longleftrightarrow> key e \<le> n \<and> n < key e + len e"
  "entry_cmp key len n e = Greater \<longleftrightarrow> n < key e"
  by (auto simp: entry_cmp_def Let_def)

lemma find_index_cases:
  assumes "vec_ok key len valid xs"
  obtains (Ok) i where "find_index key len xs n = Inr i" "i < length xs"
      "key (xs ! i) \<le> n" "n < key (xs ! i) + len (xs ! i)"
  | (Err) i where "find_index key len xs n = Inl i" "i \<le> length xs"
      "\<And>x. x \<in> set (take i xs) \<Longrightarrow> key x + len x \<le> n"
      "\<And>x. x \<in> set (drop i xs) \<Longrightarrow> n < key x"
proof -
  from entry_cmp_partitioned[OF assms, of n] show thesis
  proof (cases rule: binary_search_by_cases)
    case (Ok i)
    then show ?thesis
      using that(1)[of i] by (auto simp: find_index_def entry_cmp_simps)
  next
    case (Err i)
    have "key x + len x \<le> n" if "x \<in> set (take i xs)" for x
      using that Err(2,3) by (auto simp: in_set_conv_nth entry_cmp_simps)
    moreover have "n < key x" if "x \<in> set (drop i xs)" for x
    proof -
      from that obtain j where j: "j < length xs - i" "x = xs ! (i + j)"
        by (auto simp: in_set_conv_nth)
      then show ?thesis using Err(4)[of "i + j"] by (simp add: entry_cmp_simps)
    qed
    ultimately show ?thesis
      using Err that(2)[of i] by (simp add: find_index_def)
  qed
qed

text \<open>The index that is found splits the vector into what lies before and after the needle.\<close>

lemma find_index_ok_split:
  assumes ok: "vec_ok key len valid xs" and f: "find_index key len xs n = Inr i"
  shows "xs = take i xs @ xs ! i # drop (Suc i) xs" "i < length xs"
    "key (xs ! i) \<le> n" "n < key (xs ! i) + len (xs ! i)"
    "\<And>x. x \<in> set (take i xs) \<Longrightarrow> key x + len x \<le> key (xs ! i)"
    "\<And>x. x \<in> set (drop (Suc i) xs) \<Longrightarrow> key (xs ! i) + len (xs ! i) \<le> key x"
proof -
  from ok f show i: "i < length xs" "key (xs ! i) \<le> n" "n < key (xs ! i) + len (xs ! i)"
    by (cases rule: find_index_cases[where n = n]; simp)+
  show s: "xs = take i xs @ xs ! i # drop (Suc i) xs"
    using i(1) by (simp add: id_take_nth_drop)
  have "vec_ok key len valid (take i xs @ xs ! i # drop (Suc i) xs)"
    using ok s by (rule back_subst[of "vec_ok key len valid"])
  then show "\<And>x. x \<in> set (take i xs) \<Longrightarrow> key x + len x \<le> key (xs ! i)"
    "\<And>x. x \<in> set (drop (Suc i) xs) \<Longrightarrow> key (xs ! i) + len (xs ! i) \<le> key x"
    by auto
qed

lemma vec_ok_unique:
  assumes "vec_ok key len valid xs" "x \<in> set xs" "y \<in> set xs"
    and "key x \<le> n" "n < key x + len x" "key y \<le> n" "n < key y + len y"
  shows "x = y"
proof -
  from assms(2,3) obtain i j where i: "i < length xs" "x = xs ! i" and j: "j < length xs" "y = xs ! j"
    by (metis in_set_conv_nth)
  have "i = j"
    using vec_ok_nth[OF assms(1), of i j] vec_ok_nth[OF assms(1), of j i] i j assms(4-7)
    by (cases i j rule: linorder_cases) auto
  then show ?thesis using i j by simp
qed

lemma find_index_none:
  assumes "vec_ok key len valid xs" "find_index key len xs n = Inl i" "x \<in> set xs"
  shows "\<not> (key x \<le> n \<and> n < key x + len x)"
  using assms(1)
proof (cases rule: find_index_cases[where n = n])
  case (Err j)
  have "x \<in> set (take j xs) \<or> x \<in> set (drop j xs)"
    using assms(3) by (metis Un_iff append_take_drop_id set_append)
  then show ?thesis using Err(3)[of x] Err(4)[of x] by auto
qed (use assms(2) in simp)

lemma rv_find_Some:
  assumes "vec_ok key len valid xs"
  shows "rv_find key len xs n = Some x \<longleftrightarrow> x \<in> set xs \<and> key x \<le> n \<and> n < key x + len x"
proof (cases "find_index key len xs n")
  case (Inl i)
  then show ?thesis using find_index_none[OF assms Inl, of x] by (auto simp: rv_find_def)
next
  case (Inr i)
  note s = find_index_ok_split(2-4)[OF assms Inr]
  then show ?thesis
    using vec_ok_unique[OF assms, of x "xs ! i" n] by (auto simp: rv_find_def Inr)
qed

lemma rv_find_None:
  assumes "vec_ok key len valid xs"
  shows "rv_find key len xs n = None \<longleftrightarrow> (\<forall>x \<in> set xs. \<not> (key x \<le> n \<and> n < key x + len x))"
  using rv_find_Some[OF assms, of n] by (metis not_None_eq)

lemma rv_find_snoc:
  assumes "vec_ok key len valid (xs @ [x])"
  shows "rv_find key len (xs @ [x]) n =
    (if key x \<le> n \<and> n < key x + len x then Some x else rv_find key len xs n)"
proof -
  have ok: "vec_ok key len valid xs" using assms by simp
  show ?thesis
  proof (cases "rv_find key len xs n")
    case None
    then show ?thesis
      using rv_find_Some[OF assms, of n x] rv_find_None[OF assms, of n] rv_find_None[OF ok, of n] by auto
  next
    case (Some y)
    then show ?thesis
      using rv_find_Some[OF assms, of n] rv_find_Some[OF ok, of n y] by auto
  qed
qed

lemma binary_search_loop_Inr:
  "right \<le> length xs \<Longrightarrow> binary_search_loop f xs left right = Inr i \<Longrightarrow> i < length xs"
proof (induction f xs left right rule: binary_search_loop.induct)
  case (1 f xs left right)
  show ?case
  proof (cases "left < right")
    case True
    then show ?thesis
      using 1 by (subst (asm) (3) binary_search_loop.simps) (auto simp: Let_def split: ordering.splits)
  next
    case False
    then show ?thesis using "1.prems"(2) by (subst (asm) binary_search_loop.simps) simp
  qed
qed

lemma binary_search_loop_map:
  "right \<le> length xs \<Longrightarrow>
   binary_search_loop f (map h xs) left right = binary_search_loop (\<lambda>x. f (h x)) xs left right"
proof (induction "\<lambda>x. f (h x)" xs left right rule: binary_search_loop.induct)
  case (1 xs left right)
  let ?mid = "left + (right - left) div 2"
  show ?case
  proof (cases "left < right")
    case True
    then have "?mid < length xs" using "1.prems" by simp
    then show ?thesis
      using 1 True
      by (subst (1 2) binary_search_loop.simps) (simp add: Let_def split: ordering.split)
  next
    case False
    then show ?thesis by (subst (1 2) binary_search_loop.simps) simp
  qed
qed

lemma find_index_map:
  assumes "\<And>x. key' (h x) = key x" "\<And>x. len' (h x) = len x"
  shows "find_index key' len' (map h xs) n = find_index key len xs n"
proof -
  have "(\<lambda>x. entry_cmp key' len' n (h x)) = entry_cmp key len n"
    by (rule ext) (simp only: entry_cmp_def assms)
  then show ?thesis
    by (simp add: find_index_def binary_search_by_def binary_search_loop_map)
qed

lemma iter_range_map_eq:
  assumes "\<And>x. key' (h x) = key x" "\<And>x. len' (h x) = len x"
  shows "iter_range_map key len trunc truncr h xs rng = iter_range key' len' trunc truncr (map h xs) rng"
proof -
  have "range_iter key len trunc truncr h rng ys = range_iter key' len' trunc truncr id rng (map h ys)" for ys
    by (induction ys) (auto simp: span_of_def assms Let_def id_def)
  then show ?thesis
    by (simp add: iter_range_def iter_range_map_def find_next_index_def drop_map
        find_index_map[of key' h key len' len, OF assms])
qed

lemma rv_find_map:
  assumes "\<And>x. key' (h x) = key x" "\<And>x. len' (h x) = len x"
  shows "rv_find key' len' (map h xs) n = map_option h (rv_find key len xs n)"
proof (cases "find_index key len xs n")
  case (Inr i)
  then have "i < length xs"
    using binary_search_loop_Inr[of "length xs" xs _ 0 i] by (auto simp: find_index_def binary_search_by_def)
  then show ?thesis
    by (simp add: rv_find_def find_index_map[of key' h key len' len, OF assms] Inr)
qed (simp add: rv_find_def find_index_map[of key' h key len' len, OF assms])

lemma rv_end_bound:
  "vec_ok key len valid xs \<Longrightarrow> x \<in> set xs \<Longrightarrow> key x + len x \<le> rv_end key len xs"
  by (cases xs rule: rev_cases) (force simp: rv_end_def rv_last_entry_def span_end_def)+

text \<open>The part of a content whose keys lie in a range.\<close>

definition keys_within :: "(nat \<times> 'i) set \<Rightarrow> nat \<Rightarrow> nat \<Rightarrow> (nat \<times> 'i) set" where
  "keys_within P s e = {(k, i) \<in> P. s \<le> k \<and> k < e}"

lemma keys_from_within: "keys_from P m \<Longrightarrow> e \<le> m \<Longrightarrow> keys_within P s e = {}"
  by (fastforce simp: keys_from_def keys_within_def)

lemma keys_below_within: "keys_below P m \<Longrightarrow> m \<le> s \<Longrightarrow> keys_within P s e = {}"
  by (fastforce simp: keys_below_def keys_within_def)

lemma keys_within_empty [simp]: "keys_within {} s e = {}"
  by (simp add: keys_within_def)

lemma keys_within_Un: "keys_within (P \<union> Q) s e = keys_within P s e \<union> keys_within Q s e"
  by (auto simp: keys_within_def)

context rle_key_span
begin

abbreviation ok :: "'a list \<Rightarrow> bool" where
  "ok xs \<equiv> vec_ok key len valid xs"

lemma in_run_content:
  "valid x \<Longrightarrow> (n, i) \<in> run_content x \<longleftrightarrow> key x \<le> n \<and> n < key x + len x \<and> i = items x ! (n - key x)"
  by (auto simp: in_set_enumerate_eq length_items)

lemma content_keys_below:
  "\<forall>x \<in> set xs. valid x \<and> key x + len x \<le> m \<Longrightarrow> keys_below (content key items xs) m"
  using content_key[of xs] by (fastforce simp: keys_below_def)

lemma content_outside:
  assumes "\<forall>x \<in> set xs. valid x" "\<forall>x \<in> set xs. n < key x \<or> key x + len x \<le> n"
  shows "(n, i) \<notin> content key items xs"
  using content_key[OF assms(1)] assms(2) by fastforce

theorem find_with_offset_content:
  assumes "ok xs"
  shows "case find_with_offset key len xs n of
      Some (x, off) \<Rightarrow> x \<in> set xs \<and> off < len x \<and> key x + off = n \<and>
        (\<forall>i. (n, i) \<in> content key items xs \<longleftrightarrow> i = items x ! off)
    | None \<Rightarrow> \<forall>i. (n, i) \<notin> content key items xs"
  using assms
proof (cases rule: find_index_cases[where n = n])
  case (Ok i)
  note s = find_index_ok_split[OF assms Ok(1)]
  have v: "\<forall>x \<in> set xs. valid x" using assms by (simp add: vec_ok_def)
  have o: "(n, j) \<notin> content key items (take i xs)" "(n, j) \<notin> content key items (drop (Suc i) xs)" for j
    using s(3-6) v
    by (intro content_outside; fastforce dest: in_set_takeD in_set_dropD)+
  have "(n, j) \<in> content key items xs \<longleftrightarrow> (n, j) \<in> run_content (xs ! i)" for j
    using o by (subst s(1)) simp
  then show ?thesis
    using Ok v in_run_content[of "xs ! i" n]
    by (auto simp: find_with_offset_def Let_def)
next
  case (Err i)
  have "(n, j) \<notin> content key items xs" for j
    using assms Err(3,4) by (intro content_outside)
      (auto simp: vec_ok_def, metis Un_iff append_take_drop_id set_append)
  then show ?thesis using Err by (simp add: find_with_offset_def)
qed

text \<open>Joining two neighbours changes neither well-formedness nor content.\<close>

lemma app_run:
  assumes "valid a" "valid b" "can_append a b"
  shows "valid (app a b)" "len (app a b) = len a + len b" "key (app a b) = key a"
    "run_content (app a b) = run_content a \<union> run_content b"
  using assms append_valid[OF assms] append_len[OF assms] app_key can_append_key[OF assms(1,3)]
  by (auto simp: append_items length_items enumerate_append_eq)

lemma join_neighbours:
  assumes "ok (xs @ a # b # ys)" "can_append a b"
  shows "ok (xs @ app a b # ys)"
    "content key items (xs @ app a b # ys) = content key items (xs @ a # b # ys)"
  using assms app_run[of a b] by (auto simp del: in_set_enumerate_eq)

lemma push_ok:
  assumes "ok xs" "valid val" "0 < len val" "\<forall>x \<in> set xs. key x + len x \<le> key val"
  shows "ok (fst (rv_push can_append app xs val))"
    "content key items (fst (rv_push can_append app xs val)) = content key items xs \<union> run_content val"
proof -
  have base: "ok (xs @ [val])" using assms by simp
  have "ok (fst (rv_push can_append app xs val)) \<and>
    content key items (fst (rv_push can_append app xs val)) = content key items xs \<union> run_content val"
  proof (cases "xs \<noteq> [] \<and> can_append (last xs) val")
    case True
    then obtain l z where xs: "xs = l @ [z]" by (cases xs rule: rev_cases) auto
    then show ?thesis
      using join_neighbours[of l z val "[]"] base True by (simp add: rv_push_def push_rle_def Un_ac)
  next
    case False
    then have "fst (rv_push can_append app xs val) = xs @ [val]"
      by (auto simp: rv_push_def push_rle_def)
    then show ?thesis using base by (simp only: content_simps Un_empty_right)
  qed
  then show "ok (fst (rv_push can_append app xs val))"
    "content key items (fst (rv_push can_append app xs val)) = content key items xs \<union> run_content val"
    by blast+
qed

theorem rle_insert_content:
  assumes "ok xs" "valid val" "0 < len val"
    and dis: "\<forall>x \<in> set xs. key x + len x \<le> key val \<or> key val + len val \<le> key x"
  shows "\<exists>ys. rle_insert key len can_append app prep xs val = Some ys \<and> ok ys \<and>
    content key items ys = content key items xs \<union> run_content val"
proof (cases "case rv_last_entry xs of Some e \<Rightarrow> span_end key len e \<le> key val | None \<Rightarrow> True")
  case True
  have "\<forall>x \<in> set xs. key x + len x \<le> key val"
    using True rv_end_bound[OF assms(1)]
    by (cases "xs = []") (auto simp: rv_end_def rv_last_entry_def dest: order_trans)
  then show ?thesis
    using True push_ok[OF assms(1-3)] by (simp add: rle_insert_def)
next
  case False
  from assms(1) show ?thesis
  proof (cases rule: find_index_cases[where n = "key val"])
    case (Ok i)
    from Ok(2) have "xs ! i \<in> set xs" by simp
    with dis have "key (xs ! i) + len (xs ! i) \<le> key val \<or> key val + len val \<le> key (xs ! i)"
      by blast
    then show ?thesis using Ok assms(3) by linarith
  next
    case (Err i)
    define l where "l = take i xs"
    define r where "r = drop i xs"
    have xs: "xs = l @ r" and li: "length l = i" using Err(2) by (simp_all add: l_def r_def)
    have lv: "key x + len x \<le> key val" if "x \<in> set l" for x
      using Err(3) that by (simp add: l_def)
    moreover have vr: "key val + len val \<le> key x" if "x \<in> set r" for x
    proof -
      have "x \<in> set xs" using that xs by simp
      then show ?thesis using Err(4)[of x] dis that unfolding r_def by fastforce
    qed
    moreover have "ok (l @ r)" using assms(1) unfolding xs .
    ultimately have base: "ok (l @ val # r)"
      using assms(2,3) by simp
    have base_content: "content key items (l @ val # r) = content key items xs \<union> run_content val"
      unfolding xs by (simp only: content_simps Un_ac)
    consider (left) l' a where "l = l' @ [a]" "can_append a val"
      | (right) b r' where "\<not> (l \<noteq> [] \<and> can_append (last l) val)" "r = b # r'" "can_append val b"
      | (none) "\<not> (l \<noteq> [] \<and> can_append (last l) val)" "\<not> (r \<noteq> [] \<and> can_append val (hd r))"
      by (cases l rule: rev_cases; cases r; fastforce)
    then show ?thesis
    proof cases
      case left
      then have "rle_insert key len can_append app prep xs val = Some (l' @ app a val # r)"
        using False Err(1) li unfolding xs
        by (auto simp: rle_insert_def nth_append list_update_append)
      moreover have "ok (l' @ app a val # r)"
        "content key items (l' @ app a val # r) = content key items (l @ val # r)"
        using join_neighbours[of l' a val r] base left by simp_all
      ultimately show ?thesis using base_content by simp
    next
      case right
      then have "rle_insert key len can_append app prep xs val = Some (l @ prep b val # r')"
        using False Err(1) li unfolding xs
        by (cases l rule: rev_cases) (auto simp: rle_insert_def nth_append list_update_append)
      moreover have "prep b val = app val b"
        using right base by (intro prepend_append) simp_all
      moreover have "ok (l @ app val b # r')"
        "content key items (l @ app val b # r') = content key items (l @ val # r)"
        using join_neighbours[of l val b r'] base right by simp_all
      ultimately show ?thesis using base_content by simp
    next
      case none
      then have "rle_insert key len can_append app prep xs val = Some (l @ val # r)"
        using False Err(1) li unfolding xs
        by (cases l rule: rev_cases; cases r) (auto simp: rle_insert_def nth_append)
      then show ?thesis using base base_content by simp
    qed
  qed
qed

text \<open>Range iteration.\<close>

lemma keep_first_content:
  assumes "valid x" "key x < e" "e < key x + len x"
  defines "y \<equiv> fst (truncate x (e - key x))"
  shows "valid y" "key y = key x" "len y = e - key x" "run_content y = keys_within (run_content x) (key x) e"
proof -
  obtain rem where t: "truncate x (e - key x) = (y, rem)" by (metis prod.collapse y_def)
  note f = keep_first[OF assms(1) _ _ t]
  show v: "valid y" "key y = key x" "len y = e - key x" using f assms by auto
  have "run_content x = run_content y \<union> run_content rem" "valid rem" "key rem = e"
    using f assms by auto
  then show "run_content y = keys_within (run_content x) (key x) e"
    using run_content_key[OF v(1)] run_content_key[of rem] v assms(2)
    unfolding keys_within_def by fastforce
qed

lemma skip_to_content:
  assumes "valid x" "key x < s" "s < key x + len x"
  defines "y \<equiv> fst (truncate_keeping_right x (s - key x))"
  shows "valid y" "key y = s" "len y = key x + len x - s"
    "run_content y = keys_within (run_content x) s (key x + len x)"
proof -
  note f = skip_to[OF assms(1-3), folded y_def]
  show "valid y" "key y = s" "len y = key x + len x - s" using f by auto
  obtain D where "run_content x = D \<union> run_content y" "keys_below D s" using f(4) by blast
  then show "run_content y = keys_within (run_content x) s (key x + len x)"
    using run_content_key[OF f(1)] f assms(3)
    unfolding keys_within_def keys_below_def by fastforce
qed

lemma keys_within_run:
  "valid x \<Longrightarrow> s \<le> key x \<Longrightarrow> key x + len x \<le> e \<Longrightarrow> keys_within (run_content x) s e = run_content x"
  using run_content_key[of x] by (fastforce simp: keys_within_def)

lemma keys_within_mono:
  "s' \<le> s \<Longrightarrow> e \<le> e' \<Longrightarrow> keys_within (keys_within P s' e') s e = keys_within P s e"
  by (auto simp: keys_within_def)

lemma cut_run:
  assumes x: "valid x" "0 < len x" and xs: "key x < e" "s < key x + len x" and se: "s < e"
  defines "y \<equiv> (if key x + len x > e then fst (truncate x (e - key x)) else x)"
  defines "z \<equiv> (if key x < s then fst (truncate_keeping_right y (s - key x)) else y)"
  shows "valid z" "0 < len z" "key x \<le> key z" "key z + len z \<le> key x + len x"
    "run_content z = keys_within (run_content x) s e"
proof -
  have y: "valid y \<and> key y = key x \<and> key y + len y = min e (key x + len x) \<and>
      run_content y = keys_within (run_content x) (key x) e"
    using keep_first_content[OF x(1), of e] xs x keys_within_run[OF x(1), of "key x" e]
    unfolding y_def by (auto simp: min_def)
  have z: "valid z \<and> key z = max s (key x) \<and> key z + len z = min e (key x + len x) \<and>
      run_content z = keys_within (run_content y) s (key y + len y)"
    using skip_to_content[of y s] y xs se keys_within_run[of y s "key y + len y"]
    unfolding z_def by (auto simp: min_def max_def)
  show "valid z" "0 < len z" "key x \<le> key z" "key z + len z \<le> key x + len x"
    using z xs x se by (auto simp: max_def min_def split: if_splits)
  have "keys_within (keys_within (run_content x) (key x) e) s (min e (key x + len x)) =
      keys_within (run_content x) s e"
    using run_content_key[OF x(1)] by (fastforce simp: keys_within_def)
  then show "run_content z = keys_within (run_content x) s e"
    using z y by metis
qed

lemma range_iter_content:
  assumes "ok xs" "dt_start rng < dt_end rng" "\<forall>x \<in> set xs. dt_start rng < key x + len x"
  defines "ys \<equiv> range_iter key len truncate truncate_keeping_right id rng xs"
  shows "ok ys \<and> (\<forall>y \<in> set ys. \<exists>x \<in> set xs. key x \<le> key y) \<and>
    content key items ys = keys_within (content key items xs) (dt_start rng) (dt_end rng)"
  using assms(1,3) unfolding ys_def
proof (induction xs)
  case Nil
  then show ?case by (simp add: keys_within_def)
next
  case (Cons x xs)
  let ?ri = "range_iter key len truncate truncate_keeping_right id rng"
  have ih: "ok (?ri xs)" "\<forall>y \<in> set (?ri xs). \<exists>x \<in> set xs. key x \<le> key y"
    "content key items (?ri xs) = keys_within (content key items xs) (dt_start rng) (dt_end rng)"
    using Cons by (auto simp: id_def)
  show ?case
  proof (cases "dt_end rng \<le> key x")
    case True
    then have "keys_from (content key items (x # xs)) (dt_end rng)"
      using Cons.prems by (intro content_keys_from) (auto simp: vec_ok_def dest: add_leD1)
    then have "keys_within (content key items (x # xs)) (dt_start rng) (dt_end rng) = {}"
      by (rule keys_from_within) simp
    then show ?thesis using True by (simp add: span_of_def Let_def)
  next
    case False
    define z where "z = (if key x < dt_start rng then
      fst (truncate_keeping_right (if key x + len x > dt_end rng then fst (truncate x (dt_end rng - key x)) else x)
        (dt_start rng - key x)) else (if key x + len x > dt_end rng then fst (truncate x (dt_end rng - key x)) else x))"
    have z: "valid z" "0 < len z" "key x \<le> key z" "key z + len z \<le> key x + len x"
      "run_content z = keys_within (run_content x) (dt_start rng) (dt_end rng)"
      unfolding z_def using cut_run[of x "dt_end rng" "dt_start rng"] Cons.prems False assms(2) by simp_all
    have eq: "?ri (x # xs) = z # ?ri xs"
      using False by (simp add: span_of_def Let_def z_def)
    have after: "key z + len z \<le> key y" if "y \<in> set (?ri xs)" for y
    proof -
      from ih(2) that have "\<exists>x' \<in> set xs. key x' \<le> key y" by (rule bspec)
      then obtain x' where "x' \<in> set xs" "key x' \<le> key y" ..
      moreover have "key x + len x \<le> key x'" using Cons.prems(1) \<open>x' \<in> set xs\<close> by simp
      ultimately show ?thesis using z(4) by linarith
    qed
    have "ok (z # ?ri xs)"
      unfolding vec_ok_simps using z(1,2) ih(1) after by blast
    moreover have "content key items (z # ?ri xs) =
        keys_within (content key items (x # xs)) (dt_start rng) (dt_end rng)"
      unfolding content_simps ih(3) z(5) keys_within_Un by (rule refl)
    moreover have "\<forall>y \<in> set (z # ?ri xs). \<exists>x' \<in> set (x # xs). key x' \<le> key y"
      using z(3) ih(2) by fastforce
    ultimately show ?thesis
      unfolding eq by blast
  qed
qed

theorem iter_range_content:
  assumes "ok xs" "dt_start rng < dt_end rng"
  defines "ys \<equiv> iter_range key len truncate truncate_keeping_right xs rng"
  shows "ok ys" "content key items ys = keys_within (content key items xs) (dt_start rng) (dt_end rng)"
proof -
  define i where "i = find_next_index key len xs (dt_start rng)"
  have i: "(\<forall>x \<in> set (take i xs). key x + len x \<le> dt_start rng) \<and>
      (\<forall>x \<in> set (drop i xs). dt_start rng < key x + len x)"
    using assms(1)
  proof (cases rule: find_index_cases[where n = "dt_start rng"])
    case (Ok j)
    note s = find_index_ok_split[OF assms(1) Ok(1)]
    have ij: "i = j" by (simp add: i_def find_next_index_def Ok(1))
    have "drop j xs = xs ! j # drop (Suc j) xs" using Ok(2) by (simp add: Cons_nth_drop_Suc)
    then show ?thesis using s(3-6) unfolding ij by fastforce
  next
    case (Err j)
    then show ?thesis by (auto simp: i_def find_next_index_def trans_less_add1)
  qed
  note ri = range_iter_content[OF vec_ok_drop[OF assms(1), of i] assms(2)]
  have ys: "ys = range_iter key len truncate truncate_keeping_right id rng (drop i xs)"
    by (simp add: ys_def iter_range_def iter_range_map_def i_def)
  show "ok ys" using ri i by (simp add: ys)
  have "\<forall>x \<in> set (take i xs). valid x" using assms(1) by (auto simp: vec_ok_def dest: in_set_takeD)
  then have "keys_within (content key items (take i xs)) (dt_start rng) (dt_end rng) = {}"
    using content_key[of "take i xs"] i by (fastforce simp: keys_within_def)
  moreover have "content key items xs = content key items (take i xs) \<union> content key items (drop i xs)"
    by (metis append_take_drop_id content_simps(3))
  ultimately have "keys_within (content key items (drop i xs)) (dt_start rng) (dt_end rng) =
      keys_within (content key items xs) (dt_start rng) (dt_end rng)"
    by (auto simp: keys_within_def)
  then show "content key items ys = keys_within (content key items xs) (dt_start rng) (dt_end rng)"
    using ri i by (simp add: ys)
qed

text \<open>Sparse lookup: either the entry, or the maximal gap around the needle.\<close>

lemma no_content_between:
  assumes "ok xs" "\<And>x. x \<in> set (take i xs) \<Longrightarrow> key x + len x \<le> s"
    "\<And>x. x \<in> set (drop i xs) \<Longrightarrow> e \<le> key x"
  shows "keys_within (content key items xs) s e = {}"
proof -
  have v: "\<forall>x \<in> set xs. valid x" using assms(1) by (simp add: vec_ok_def)
  have "\<exists>x \<in> set xs. key x \<le> k \<and> k < key x + len x" if "(k, j) \<in> content key items xs" for k j
    using content_key[OF v that] .
  moreover have "key x + len x \<le> s \<or> e \<le> key x" if "x \<in> set xs" for x
    using assms(2,3) that by (metis Un_iff append_take_drop_id set_append)
  ultimately show ?thesis by (fastforce simp: keys_within_def)
qed

theorem find_sparse_content:
  assumes "ok xs" "n < usize_max"
  shows "case find_sparse key len xs n of
      (Inr x, off) \<Rightarrow> x \<in> set xs \<and> off < len x \<and> key x + off = n
    | (Inl gap, off) \<Rightarrow> dt_start gap + off = n \<and> n < dt_end gap \<and>
        keys_within (content key items xs) (dt_start gap) (dt_end gap) = {} \<and>
        (dt_start gap = 0 \<or> (\<exists>x \<in> set xs. dt_start gap = key x + len x)) \<and>
        (dt_end gap = usize_max \<or> (\<exists>x \<in> set xs. dt_end gap = key x))"
  using assms(1)
proof (cases rule: find_index_cases[where n = n])
  case (Ok i)
  then show ?thesis by (auto simp: find_sparse_def Let_def)
next
  case (Err i)
  define nk where "nk = (if i < length xs then key (xs ! i) else usize_max)"
  define st where "st = (if i = 0 then 0 else key (xs ! (i - 1)) + len (xs ! (i - 1)))"
  have eq: "find_sparse key len xs n = (Inl \<lparr>dt_start = st, dt_end = nk\<rparr>, n - st)"
    using Err(1) by (simp add: find_sparse_def nk_def st_def span_end_def Let_def)
  have take: "key x + len x \<le> st" if "x \<in> set (take i xs)" for x
  proof -
    from that obtain j where j: "j < i" "x = xs ! j" by (auto simp: in_set_conv_nth)
    then show ?thesis
      using vec_ok_nth[OF assms(1), of j "i - 1"] Err(2)
      by (cases "j = i - 1") (auto simp: st_def intro: trans_le_add1)
  qed
  have drop: "nk \<le> key x" if "x \<in> set (drop i xs)" for x
  proof -
    from that obtain j where "j < length xs - i" "x = xs ! (i + j)" by (auto simp: in_set_conv_nth)
    then have j: "i + j < length xs" "x = xs ! (i + j)" by simp_all
    then show ?thesis
      using vec_ok_nth[OF assms(1), of i "i + j"] by (cases "j = 0") (auto simp: nk_def)
  qed
  have "st \<le> n"
  proof (cases "i = 0")
    case False
    then have "xs ! (i - 1) \<in> set (take i xs)" using Err(2) by (auto simp: in_set_conv_nth intro!: exI[of _ "i - 1"])
    then show ?thesis using Err(3) False by (simp add: st_def)
  qed (simp add: st_def)
  moreover have "n < nk"
  proof (cases "i < length xs")
    case True
    then have "xs ! i \<in> set (drop i xs)" by (metis Cons_nth_drop_Suc list.set_intros(1))
    then show ?thesis using Err(4) True by (simp add: nk_def)
  qed (use assms(2) in \<open>simp add: nk_def\<close>)
  moreover have "keys_within (content key items xs) st nk = {}"
    using no_content_between[OF assms(1) take drop] .
  moreover have "st = 0 \<or> (\<exists>x \<in> set xs. st = key x + len x)"
    using Err(2) by (cases "i = 0") (auto simp: st_def intro!: bexI[of _ "xs ! (i - 1)"])
  moreover have "nk = usize_max \<or> (\<exists>x \<in> set xs. nk = key x)"
    by (auto simp: nk_def)
  ultimately show ?thesis by (simp add: eq)
qed

text \<open>Removal at the end of the vector.\<close>

lemma remove_fast_tail:
  assumes "ok xs" "\<forall>x \<in> set xs. key x + len x \<le> dt_end d"
  shows "\<exists>ys. remove_fast key len truncate d (rev xs) = Some (Inr (rev ys)) \<and> ok ys \<and>
    (\<forall>y \<in> set ys. \<exists>x \<in> set xs. key y = key x \<and> key y + len y \<le> key x + len x) \<and>
    content key items ys = keys_within (content key items xs) 0 (dt_start d)"
  using assms
proof (induction xs rule: rev_induct)
  case Nil
  then show ?case by (intro exI[of _ "[]"]) (simp add: keys_within_def)
next
  case (snoc x xs)
  have x: "valid x" "0 < len x" and ok: "ok xs" and before_x: "\<forall>y \<in> set xs. key y + len y \<le> key x"
    using snoc.prems(1) by auto
  have v: "\<forall>y \<in> set xs. valid y" using ok by (simp add: vec_ok_def)
  have below: "keys_below (content key items xs) (key x)"
    using content_key[OF v] before_x unfolding keys_below_def by fastforce
  have same: "keys_within P 0 m = P" if "keys_below P m" for P :: "(nat \<times> 'b) set" and m
    using that by (auto simp: keys_within_def keys_below_def)
  consider (keep) "key x + len x \<le> dt_start d" | (gone) "dt_start d < key x" | (whole) "dt_start d = key x"
    | (cut) "key x < dt_start d" "dt_start d < key x + len x" by linarith
  then show ?case
  proof cases
    case keep
    have "keys_below (content key items (xs @ [x])) (dt_start d)"
      using keys_mono(1)[OF below, of "dt_start d"] keys_mono(1)[OF run_keys(1)[OF x(1)] keep] keep
      by simp
    from same[OF this] show ?thesis
      using keep snoc.prems(1)
      by (intro exI[of _ "xs @ [x]"]) (auto simp: span_of_def Let_def)
  next
    case gone
    then have "keys_within (run_content x) 0 (dt_start d) = {}"
      by (intro keys_from_within[OF run_keys(2)[OF x(1)]]) simp
    then show ?thesis
      using gone snoc x by (force simp: span_of_def Let_def keys_within_Un)
  next
    case whole
    have "keys_within (run_content x) 0 (dt_start d) = {}"
      using whole by (intro keys_from_within[OF run_keys(2)[OF x(1)]]) simp
    then have "content key items xs = keys_within (content key items (xs @ [x])) 0 (dt_start d)"
      using same[OF below] whole by (simp add: keys_within_Un)
    then show ?thesis
      using whole x ok snoc.prems by (intro exI[of _ xs]) (auto simp: span_of_def Let_def)
  next
    case cut
    let ?y = "fst (truncate x (dt_start d - key x))"
    note y = keep_first_content[OF x(1) cut]
    have "remove_fast key len truncate d (rev (xs @ [x])) = Some (Inr (rev (xs @ [?y])))"
      using cut snoc.prems(2)
      by (auto simp: span_of_def Let_def truncate_from_def split: prod.splits)
    moreover have "ok (xs @ [?y])"
      using ok y cut before_x by simp
    moreover have "content key items (xs @ [?y]) = keys_within (content key items (xs @ [x])) 0 (dt_start d)"
    proof -
      have "keys_below (content key items xs) (dt_start d)"
        using below cut(1) keys_mono(1) less_imp_le by blast
      moreover have "keys_within (run_content x) (key x) (dt_start d) = keys_within (run_content x) 0 (dt_start d)"
        using run_content_key[OF x(1)] by (fastforce simp: keys_within_def)
      ultimately show ?thesis
        using y(4) same[of "content key items xs" "dt_start d"]
        unfolding content_simps keys_within_Un by (simp del: in_set_enumerate_eq)
    qed
    moreover have "\<forall>z \<in> set (xs @ [?y]). \<exists>w \<in> set (xs @ [x]). key z = key w \<and> key z + len z \<le> key w + len w"
      using y cut by auto
    ultimately show ?thesis by blast
  qed
qed

theorem remove_tail_content:
  assumes "ok xs" "rv_end key len xs \<le> dt_end d"
  shows "\<exists>ys. remove_ctx key len truncate truncr can_append app prep xs d = Some ys \<and> ok ys \<and>
    content key items ys = keys_within (content key items xs) 0 (dt_start d)"
proof -
  have "\<forall>x \<in> set xs. key x + len x \<le> dt_end d"
    using rv_end_bound[OF assms(1)] assms(2) by fastforce
  from remove_fast_tail[OF assms(1) this] show ?thesis
    by (auto simp: remove_ctx_def)
qed

text \<open>Removal strictly inside one entry (not the last one) splits it.\<close>

theorem remove_inside_content:
  assumes ok: "ok xs" and i: "Suc i < length xs" and se: "dt_start d < dt_end d"
    and st: "key (xs ! i) < dt_start d" and en: "dt_end d < key (xs ! i) + len (xs ! i)"
  shows "\<exists>ys. remove_ctx key len truncate truncate_keeping_right can_append app prep xs d = Some ys \<and>
    ok ys \<and> content key items ys = content key items xs - keys_within UNIV (dt_start d) (dt_end d)"
proof -
  define x l r where "x = xs ! i" and "l = take i xs" and "r = drop (Suc i) xs"
  have xs: "xs = l @ x # r" and li: "length l = i"
    using i by (simp_all add: x_def l_def r_def id_take_nth_drop)
  have okx: "ok (l @ x # r)" using ok unfolding xs .
  then have x: "valid x" "0 < len x" by auto
  have rne: "r \<noteq> []" using i li unfolding xs by auto
  have fast: "remove_fast key len truncate d (rev xs) = Some (Inl (rev xs))"
  proof -
    obtain r' z where r: "r = r' @ [z]" using rne by (cases r rule: rev_cases) auto
    then have "key x + len x \<le> key z" "0 < len z" using okx by auto
    then show ?thesis
      using en se unfolding x_def[symmetric] by (simp add: xs r span_of_def Let_def)
  qed
  have fi: "find_index key len xs (dt_start d) = Inr i"
    using ok
  proof (cases rule: find_index_cases[where n = "dt_start d"])
    case (Ok j)
    have "j = i"
      using vec_ok_nth[OF ok, of i j] vec_ok_nth[OF ok, of j i] Ok i st en se
      by (cases i j rule: linorder_cases) auto
    then show ?thesis using Ok(1) by simp
  next
    case (Err j)
    have "x \<in> set (take j xs) \<or> x \<in> set (drop j xs)"
      using i by (metis Suc_lessD Un_iff append_take_drop_id nth_mem set_append x_def)
    then show ?thesis
      using Err(3,4)[of x] st en se unfolding x_def by auto
  qed
  obtain e rm where t: "truncate x (dt_start d - key x) = (e, rm)" by (metis surj_pair)
  have at: "0 < dt_start d - key x" "dt_start d - key x < len x"
    using st en se by (auto simp: x_def)
  note f = keep_first[OF x(1) at t]
  have rm: "valid rm" "key rm = dt_start d" "key rm + len rm = key x + len x"
    using f st at unfolding x_def by auto
  have cut: "key rm < dt_end d" "dt_end d < key rm + len rm"
    using rm se en by (simp_all add: x_def)
  define rm' where "rm' = fst (truncate_keeping_right rm (dt_end d - key rm))"
  note g = skip_to_content[OF rm(1) cut, folded rm'_def]
  have "remove_ctx key len truncate truncate_keeping_right can_append app prep xs d =
      rle_insert key len can_append app prep (l @ e # r) rm'"
    using fast fi t st en li rm(2) se
    by (subst (asm) x_def, simp add: remove_ctx_def remove_slow.simps Let_def xs nth_append
        span_end_def truncate_from_def truncate_keeping_right_from_def rm'_def split_beta list_update_append)
  moreover have oke: "ok (l @ e # r)" "ok [rm']"
    using okx f at g cut by auto
  moreover have "\<forall>y \<in> set (l @ e # r). key y + len y \<le> key rm' \<or> key rm' + len rm' \<le> key y"
    using okx f at g cut rm by auto
  ultimately obtain ys where ys: "remove_ctx key len truncate truncate_keeping_right can_append app prep xs d = Some ys"
      "ok ys" "content key items ys = content key items (l @ e # r) \<union> run_content rm'"
    using rle_insert_content[of "l @ e # r" rm'] by auto
  have parts: "run_content x = run_content e \<union> run_content rm"
    "keys_below (run_content e) (dt_start d)" "keys_from (run_content rm) (dt_start d)"
    using f run_keys(1)[of e] run_keys(2)[of rm] rm at by auto
  have lb: "keys_below (content key items l) (dt_start d)"
    using okx st unfolding x_def[symmetric] by (intro content_keys_below) (auto simp: vec_ok_def span_sorted_append)
  have rf: "keys_from (content key items r) (dt_end d)"
    using okx en unfolding x_def[symmetric] by (intro content_keys_from) (auto simp: vec_ok_def span_sorted_append)
  have "run_content rm' = run_content rm - keys_within UNIV (dt_start d) (dt_end d)"
    using g(4) run_content_key[OF rm(1)] rm(2) by (fastforce simp: keys_within_def)
  then have "content key items (l @ e # r) \<union> run_content rm' =
      content key items xs - keys_within UNIV (dt_start d) (dt_end d)"
    using parts(2) lb rf unfolding xs content_simps parts(1)
    by (fastforce simp: keys_within_def keys_below_def keys_from_def)
  then show ?thesis using ys by auto
qed

end

text \<open>
  The one branch that does not do what the doc comment says.  When the range to remove is a
  proper prefix of an entry that is not at the end of the vector, the code truncates from the
  \<open>start\<close> of the range (not from its \<open>end\<close>), and nothing is removed.
\<close>

lemma remove_prefix_noop:
  assumes ok: "vec_ok dtrange_rle_key dtrange_len dtrange_is_valid xs" and i: "i < length xs"
    and st: "dt_start (xs ! i) = dt_start d" and se: "dt_start d < dt_end d"
    and en: "dt_end d < dt_end (xs ! i)"
  shows "remove_ctx dtrange_rle_key dtrange_len dtrange_truncate dtrange_truncate_keeping_right
     dtrange_can_append dtrange_append dtrange_prepend xs d = Some xs"
proof -
  have fi: "find_index dtrange_rle_key dtrange_len xs (dt_start d) = Inr i"
    using ok
  proof (cases rule: find_index_cases[where n = "dt_start d"])
    case (Ok j)
    have "j = i"
      using vec_ok_nth[OF ok, of i j] vec_ok_nth[OF ok, of j i] Ok i st en se
      by (cases i j rule: linorder_cases) (auto simp: span_defs)
    then show ?thesis using Ok(1) by simp
  next
    case (Err j)
    have "xs ! i \<in> set (take j xs) \<or> xs ! i \<in> set (drop j xs)"
      using i by (metis Un_iff append_take_drop_id nth_mem set_append)
    then show ?thesis
      using Err(3,4)[of "xs ! i"] st en se by (auto simp: span_defs)
  qed
  obtain l z where xs: "xs = l @ [z]" using i by (cases xs rule: rev_cases) auto
  have "dt_end d < dt_end z"
    using vec_ok_nth[OF ok, of i "length l"] vec_ok_item[OF ok, of "length l"] i en
    unfolding xs by (cases "i = length l") (auto simp: span_defs nth_append)
  then have "remove_fast dtrange_rle_key dtrange_len dtrange_truncate d (rev xs) = Some (Inl (rev xs))"
    using vec_ok_item[OF ok, of "length l"] se
    by (auto simp: xs span_of_def Let_def span_defs)
  then show ?thesis
    using fi i st en se
    by (simp add: remove_ctx_def remove_slow.simps[of _ _ _ _ _ _ _ _ xs] Let_def span_end_def
        truncate_keeping_right_from_def span_defs list_update_same_conv)
qed

end
