(* ===== verification/VersionDag.thy ===== *)
theory VersionDag
  imports Prelude
begin

text \<open>
  The abstract specification of the time DAG: versions are numbers, each version has a list of
  parents, and everything the graph queries compute is stated over the ancestor relation.
  \<open>hist ps F\<close> is the set of versions a frontier \<open>F\<close> contains, \<open>dominators ps S\<close> the versions of
  \<open>S\<close> that no other version of \<open>S\<close> contains.  \<open>version_dag\<close> is the law every graph keeps (parents
  come before children); \<open>run_dag\<close> is the interface the query algorithms use: versions come in
  runs, and a run knows its start, its shadow and the parents of its first version.
\<close>

definition anc :: "(lv \<Rightarrow> lv list) \<Rightarrow> lv \<Rightarrow> lv \<Rightarrow> bool" where
  "anc ps = (\<lambda>x y. x \<in> set (ps y))\<^sup>*\<^sup>*"

definition hist :: "(lv \<Rightarrow> lv list) \<Rightarrow> lv set \<Rightarrow> lv set" where
  "hist ps F = {a. \<exists>b \<in> F. anc ps a b}"

definition dominators :: "(lv \<Rightarrow> lv list) \<Rightarrow> lv set \<Rightarrow> lv set" where
  "dominators ps S = {v \<in> S. \<forall>w \<in> S. w \<noteq> v \<longrightarrow> \<not> anc ps v w}"

lemma anc_refl [simp, intro]: "anc ps a a"
  by (simp add: anc_def)

lemma anc_trans [trans]: "anc ps a b \<Longrightarrow> anc ps b c \<Longrightarrow> anc ps a c"
  by (simp add: anc_def)

lemma anc_parent: "p \<in> set (ps v) \<Longrightarrow> anc ps p v"
  unfolding anc_def by (rule r_into_rtranclp)

lemma anc_step: "anc ps a b \<longleftrightarrow> a = b \<or> (\<exists>p \<in> set (ps b). anc ps a p)"
proof
  assume "anc ps a b"
  then show "a = b \<or> (\<exists>p \<in> set (ps b). anc ps a p)"
    unfolding anc_def by (cases rule: rtranclp.cases) auto
next
  assume "a = b \<or> (\<exists>p \<in> set (ps b). anc ps a p)"
  then show "anc ps a b"
    using anc_trans anc_parent by auto
qed

lemma hist_simps [simp]:
  "hist ps {} = {}" "hist ps (insert v F) = {a. anc ps a v} \<union> hist ps F"
  "hist ps (F \<union> G) = hist ps F \<union> hist ps G"
  by (auto simp: hist_def)

lemma hist_self: "v \<in> F \<Longrightarrow> v \<in> hist ps F"
  by (auto simp: hist_def)

lemma hist_closed: "v \<in> hist ps F \<Longrightarrow> anc ps a v \<Longrightarrow> a \<in> hist ps F"
  unfolding hist_def using anc_trans by blast

lemma hist_subset: "hist ps F \<subseteq> hist ps G \<longleftrightarrow> F \<subseteq> hist ps G"
proof
  assume "hist ps F \<subseteq> hist ps G"
  then show "F \<subseteq> hist ps G" using hist_self by blast
next
  assume F: "F \<subseteq> hist ps G"
  show "hist ps F \<subseteq> hist ps G"
  proof
    fix a assume "a \<in> hist ps F"
    then obtain v where "v \<in> F" "anc ps a v" by (auto simp: hist_def)
    then show "a \<in> hist ps G" using F hist_closed by blast
  qed
qed

lemma hist_hist [simp]: "hist ps (hist ps F) = hist ps F"
proof
  show "hist ps (hist ps F) \<subseteq> hist ps F" by (simp add: hist_subset)
qed (simp add: hist_subset subsetI hist_self)

lemma hist_downset:
  assumes "\<And>v p. v \<in> S \<Longrightarrow> p \<in> set (ps v) \<Longrightarrow> p \<in> S"
  shows "hist ps S = S"
proof
  have "anc ps a b \<Longrightarrow> b \<in> S \<Longrightarrow> a \<in> S" for a b
    unfolding anc_def by (induction rule: converse_rtranclp_induct) (use assms in blast)+
  then show "hist ps S \<subseteq> S" unfolding hist_def by blast
qed (use hist_self in blast)

lemma dominators_subset: "dominators ps S \<subseteq> S"
  by (auto simp: dominators_def)

lemma dominators_small [simp]: "dominators ps {} = {}" "dominators ps {v} = {v}"
  by (auto simp: dominators_def)

locale version_dag =
  fixes wf :: "'g \<Rightarrow> bool"
    and parents :: "'g \<Rightarrow> lv \<Rightarrow> lv list"
  assumes parents_less: "wf g \<Longrightarrow> p \<in> set (parents g v) \<Longrightarrow> p < v"
begin

lemma anc_le: "wf g \<Longrightarrow> anc (parents g) a b \<Longrightarrow> a \<le> b"
proof -
  assume g: "wf g" and "anc (parents g) a b"
  from this(2) show "a \<le> b"
    unfolding anc_def by (induction rule: rtranclp_induct) (auto dest: parents_less[OF g])
qed

lemma anc_antisym: "wf g \<Longrightarrow> anc (parents g) a b \<Longrightarrow> anc (parents g) b a \<Longrightarrow> a = b"
  by (meson anc_le antisym)

lemma hist_le: "wf g \<Longrightarrow> \<forall>v \<in> F. v \<le> m \<Longrightarrow> a \<in> hist (parents g) F \<Longrightarrow> a \<le> m"
  unfolding hist_def using anc_le by fastforce

text \<open>Every member of a finite set lies below a dominator of it.\<close>

lemma below_dominator:
  assumes "wf g" "finite S" "v \<in> S"
  shows "\<exists>w \<in> dominators (parents g) S. anc (parents g) v w"
proof -
  let ?U = "{w \<in> S. anc (parents g) v w}"
  have fin: "finite ?U" "v \<in> ?U" using assms by auto
  then have m: "Max ?U \<in> ?U" by (metis Max_in empty_iff)
  have "\<not> anc (parents g) (Max ?U) w" if "w \<in> S" "w \<noteq> Max ?U" for w
  proof
    assume a: "anc (parents g) (Max ?U) w"
    then have "w \<in> ?U" using m that(1) anc_trans by blast
    then have "w \<le> Max ?U" using fin by simp
    then show False using anc_le[OF assms(1) a] that(2) by simp
  qed
  then show ?thesis using m unfolding dominators_def by blast
qed

lemma hist_dominators:
  assumes "wf g" "finite S"
  shows "hist (parents g) (dominators (parents g) S) = hist (parents g) S"
proof
  show "hist (parents g) (dominators (parents g) S) \<subseteq> hist (parents g) S"
    using dominators_subset hist_self hist_subset by (meson subset_eq)
  show "hist (parents g) S \<subseteq> hist (parents g) (dominators (parents g) S)"
    unfolding hist_subset using below_dominator[OF assms] by (auto simp: hist_def)
qed

text \<open>An antichain is determined by its history.\<close>

lemma dominators_hist:
  assumes "wf g" "dominators (parents g) F = F"
  shows "dominators (parents g) (hist (parents g) F) = F"
proof
  show "F \<subseteq> dominators (parents g) (hist (parents g) F)"
  proof
    fix v assume v: "v \<in> F"
    have dom: "u = v" if "u \<in> F" "anc (parents g) v u" for u
      using v that assms(2) unfolding dominators_def by blast
    have "w = v" if w: "w \<in> hist (parents g) F" "anc (parents g) v w" for w
    proof -
      from w(1) obtain u where u: "u \<in> F" "anc (parents g) w u" by (auto simp: hist_def)
      with w(2) have "u = v" using dom anc_trans by blast
      then show ?thesis using u w(2) anc_antisym[OF assms(1)] by blast
    qed
    then show "v \<in> dominators (parents g) (hist (parents g) F)"
      using hist_self[OF v] unfolding dominators_def by blast
  qed
  show "dominators (parents g) (hist (parents g) F) \<subseteq> F"
  proof
    fix v assume v: "v \<in> dominators (parents g) (hist (parents g) F)"
    then obtain w where w: "w \<in> F" "anc (parents g) v w" by (auto simp: dominators_def hist_def)
    have "\<forall>u \<in> hist (parents g) F. u \<noteq> v \<longrightarrow> \<not> anc (parents g) v u"
      using v by (simp add: dominators_def)
    then have "w = v" using w hist_self[OF w(1)] by blast
    then show "v \<in> F" using w by simp
  qed
qed

lemma hist_eq_antichain:
  assumes "wf g" "dominators (parents g) F = F" "dominators (parents g) G = G"
    "hist (parents g) F = hist (parents g) G"
  shows "F = G"
proof -
  have "F = dominators (parents g) (hist (parents g) F)"
    using dominators_hist[OF assms(1,2)] by (rule sym)
  also have "\<dots> = G"
    unfolding assms(4) by (rule dominators_hist[OF assms(1,3)])
  finally show ?thesis .
qed

end

text \<open>A run: its first version, its shadow, the parents of its first version.\<close>

locale run_dag = version_dag wf parents
  for wf :: "'g \<Rightarrow> bool" and parents :: "'g \<Rightarrow> lv \<Rightarrow> lv list" +
  fixes run :: "'g \<Rightarrow> lv \<Rightarrow> (lv \<times> lv \<times> lv list) option"
  assumes run_start: "wf g \<Longrightarrow> run g v = Some (s, sh, ps) \<Longrightarrow> s \<le> v \<and> sh \<le> s"
    and run_same: "wf g \<Longrightarrow> run g v = Some (s, sh, ps) \<Longrightarrow> s \<le> w \<Longrightarrow> w \<le> v \<Longrightarrow>
      run g w = Some (s, sh, ps)"
    and run_parents: "wf g \<Longrightarrow> run g v = Some (s, sh, ps) \<Longrightarrow>
      parents g v = (if v > s then [v - 1] else ps)"
    and no_run: "wf g \<Longrightarrow> run g v = None \<Longrightarrow> parents g v = []"
    and parents_run: "wf g \<Longrightarrow> p \<in> set (parents g v) \<Longrightarrow> run g p \<noteq> None"
    and run_shadow: "wf g \<Longrightarrow> run g v = Some (s, sh, ps) \<Longrightarrow> sh \<le> w \<Longrightarrow> w < s \<Longrightarrow>
      run g w \<noteq> None \<Longrightarrow> anc (parents g) w s"
begin

lemma run_start_parents:
  assumes "wf g" "run g v = Some (s, sh, ps)"
  shows "parents g s = ps" "run g s = Some (s, sh, ps)"
proof -
  show r: "run g s = Some (s, sh, ps)"
    using run_start[OF assms] by (intro run_same[OF assms]) simp_all
  show "parents g s = ps" using run_parents[OF assms(1) r] by simp
qed

lemma start_parents_less:
  "wf g \<Longrightarrow> run g v = Some (s, sh, ps) \<Longrightarrow> p \<in> set ps \<Longrightarrow> p < s \<and> run g p \<noteq> None"
  using run_start_parents parents_less parents_run by metis

lemma anc_in_run:
  assumes "wf g" "run g v = Some (s, sh, ps)" "s \<le> a" "a \<le> v"
  shows "anc (parents g) a v"
proof -
  have "a \<le> w \<Longrightarrow> w \<le> v \<Longrightarrow> anc (parents g) a w" for w
  proof (induction "w - a" arbitrary: w)
    case (Suc n)
    then have "anc (parents g) a (w - 1)" by simp
    moreover have "parents g w = [w - 1]"
      using run_parents[OF assms(1) run_same[OF assms(1,2)], of w] Suc assms(3) by auto
    ultimately show ?case using anc_step[of "parents g" a w] by simp
  qed simp
  then show ?thesis using assms(4) by simp
qed

text \<open>Ancestors below a run are reached through the parents of its first version.\<close>

lemma anc_below_run:
  assumes "wf g" "run g v = Some (s, sh, ps)" "a < s"
  shows "anc (parents g) a v \<longleftrightarrow> (\<exists>p \<in> set ps. anc (parents g) a p)"
proof -
  have "s \<le> w \<Longrightarrow> w \<le> v \<Longrightarrow> anc (parents g) a w \<longleftrightarrow> (\<exists>p \<in> set ps. anc (parents g) a p)" for w
  proof (induction "w - s" arbitrary: w)
    case 0
    then show ?case
      using run_start_parents[OF assms(1,2)] assms(3) anc_step[of "parents g" a w] by auto
  next
    case (Suc n)
    then have "anc (parents g) a (w - 1) \<longleftrightarrow> (\<exists>p \<in> set ps. anc (parents g) a p)"
      by simp
    moreover have "parents g w = [w - 1]"
      using run_parents[OF assms(1) run_same[OF assms(1,2)], of w] Suc by auto
    ultimately show ?case
      using anc_step[of "parents g" a w] Suc.prems assms(3) by auto
  qed
  then show ?thesis using run_start[OF assms(1,2)] by simp
qed

lemma shadow_anc:
  assumes "wf g" "run g v = Some (s, sh, ps)" "sh \<le> a" "a \<le> v" "run g a \<noteq> None"
  shows "anc (parents g) a v"
proof (cases "s \<le> a")
  case True
  then show ?thesis using anc_in_run assms by blast
next
  case False
  then have "anc (parents g) a s" using run_shadow[OF assms(1,2,3) _ assms(5)] by simp
  also have "anc (parents g) s v" using anc_in_run[OF assms(1,2)] run_start[OF assms(1,2)] by simp
  finally show ?thesis .
qed

lemma anc_run: "wf g \<Longrightarrow> run g b \<noteq> None \<Longrightarrow> anc (parents g) a b \<Longrightarrow> run g a \<noteq> None"
proof -
  assume g: "wf g" and b: "run g b \<noteq> None" and "anc (parents g) a b"
  from this(3) show "run g a \<noteq> None"
    unfolding anc_def
  proof (induction rule: converse_rtranclp_induct)
    case base
    then show ?case by (rule b)
  next
    case (step y z)
    then show ?case using parents_run[OF g, of y z] by simp
  qed
qed

lemma hist_run: "wf g \<Longrightarrow> \<forall>v \<in> F. run g v \<noteq> None \<Longrightarrow> a \<in> hist (parents g) F \<Longrightarrow> run g a \<noteq> None"
  unfolding hist_def using anc_run by blast

text \<open>The history of versions that are all at or above the start of one run.\<close>

lemma hist_split_run:
  assumes "wf g" "run g v = Some (s, sh, ps)" "\<forall>w \<in> F. s \<le> w \<and> w \<le> v" "F \<noteq> {}"
  shows "hist (parents g) F = {a. s \<le> a \<and> (\<exists>w \<in> F. a \<le> w)} \<union> hist (parents g) (set ps)"
proof -
  have r: "run g w = Some (s, sh, ps)" if "w \<in> F" for w
    using run_same[OF assms(1,2)] assms(3) that by simp
  have "anc (parents g) a w \<longleftrightarrow> (if s \<le> a then a \<le> w else \<exists>p \<in> set ps. anc (parents g) a p)"
    if "w \<in> F" for a w
    using anc_in_run[OF assms(1) r[OF that]] anc_below_run[OF assms(1) r[OF that]] anc_le[OF assms(1)]
    by (auto simp: not_le)
  moreover have "\<not> s \<le> a" if "p \<in> set ps" "anc (parents g) a p" for a p
    using start_parents_less[OF assms(1,2) that(1)] anc_le[OF assms(1) that(2)] by simp
  ultimately show ?thesis
    using assms(4) unfolding hist_def by auto
qed

end

end
