(* ===== verification/Graph.thy ===== *)
theory Graph
  imports RleVecFacts VersionDag
begin

text \<open>
  \<open>src/causalgraph/graph/mod.rs\<close> and \<open>check.rs\<close>: the time DAG as a run-length list of entries.
  An entry is a run of versions, each the child of the one before; \<open>ge_parents\<close> are the parents
  of the first one, \<open>ge_shadow\<close> is a version from which everything up to the run is an ancestor
  of it, and \<open>ge_children\<close> lists the indices of the entries that name a version of this one as a
  parent.  \<open>graph_wf\<close> is the invariant \<open>dbg_check\<close> tests, with the shadow's meaning in place of
  its recomputation; \<open>graph_push\<close> keeps it.
\<close>

record graph_entry =
  ge_span :: dtrange
  ge_shadow :: lv
  ge_parents :: frontier
  ge_children :: "nat list"

record graph =
  g_entries :: "graph_entry list"
  g_root_children :: "nat list"

subsection \<open>Entries\<close>

definition ge_len :: "graph_entry \<Rightarrow> nat" where
  "ge_len e = dtrange_len (ge_span e)"

definition ge_key :: "graph_entry \<Rightarrow> nat" where
  "ge_key e = dt_start (ge_span e)"

definition ge_last_time :: "graph_entry \<Rightarrow> lv" where
  "ge_last_time e = dtrange_last (ge_span e)"

definition ge_contains :: "graph_entry \<Rightarrow> lv \<Rightarrow> bool" where
  "ge_contains e localtime = dtrange_contains (ge_span e) localtime"

definition ge_shadow_contains :: "graph_entry \<Rightarrow> lv \<Rightarrow> bool" where
  "ge_shadow_contains e time \<longleftrightarrow> time \<ge> ge_shadow e"

definition ge_parent_at_version :: "graph_entry \<Rightarrow> lv \<Rightarrow> lv option" where
  "ge_parent_at_version e v = (if v > dt_start (ge_span e) then Some (v - 1) else None)"

definition ge_with_parents :: "graph_entry \<Rightarrow> lv \<Rightarrow> (lv list \<Rightarrow> 'r) \<Rightarrow> 'r" where
  "ge_with_parents e v f = (if v > dt_start (ge_span e) then f [v - 1] else f (ge_parents e))"

definition ge_clone_parents_at_version :: "graph_entry \<Rightarrow> lv \<Rightarrow> frontier" where
  "ge_clone_parents_at_version e v = (if v > dt_start (ge_span e) then [v - 1] else ge_parents e)"

definition ge_can_append :: "graph_entry \<Rightarrow> graph_entry \<Rightarrow> bool" where
  "ge_can_append self other \<longleftrightarrow>
     dtrange_can_append (ge_span self) (ge_span other) \<and> length (ge_parents other) = 1 \<and>
     ge_parents other ! 0 = ge_last_time self \<and> ge_shadow other = ge_shadow self"

definition ge_append :: "graph_entry \<Rightarrow> graph_entry \<Rightarrow> graph_entry" where
  "ge_append self other = self\<lparr>ge_span := dtrange_append (ge_span self) (ge_span other)\<rparr>"

definition ge_prepend :: "graph_entry \<Rightarrow> graph_entry \<Rightarrow> graph_entry" where
  "ge_prepend self other = self\<lparr>ge_span := dtrange_prepend (ge_span self) (ge_span other),
     ge_parents := ge_parents other\<rparr>"

subsection \<open>Lookup\<close>

abbreviation g_find :: "graph \<Rightarrow> lv \<Rightarrow> graph_entry option" where
  "g_find g v \<equiv> rv_find ge_key ge_len (g_entries g) v"

abbreviation g_find_packed :: "graph \<Rightarrow> lv \<Rightarrow> graph_entry option" where
  "g_find_packed g v \<equiv> find_packed ge_key ge_len (g_entries g) v"

definition parents_at_version :: "graph \<Rightarrow> lv \<Rightarrow> frontier option" where
  "parents_at_version g v =
     (case g_find_packed g v of None \<Rightarrow> None
      | Some entry \<Rightarrow> Some (ge_clone_parents_at_version entry v))"

definition with_parents :: "graph \<Rightarrow> lv \<Rightarrow> (lv list \<Rightarrow> 'r) \<Rightarrow> 'r option" where
  "with_parents g v f =
     (case g_find_packed g v of None \<Rightarrow> None | Some entry \<Rightarrow> Some (ge_with_parents entry v f))"

definition graph_new :: graph where
  "graph_new = \<lparr>g_entries = [], g_root_children = []\<rparr>"

definition graph_num_entries :: "graph \<Rightarrow> nat" where
  "graph_num_entries g = length (g_entries g)"

definition graph_next_time :: "graph \<Rightarrow> nat" where
  "graph_next_time g = rv_end ge_key ge_len (g_entries g)"

definition graph_len :: "graph \<Rightarrow> nat" where
  "graph_len g = rv_end ge_key ge_len (g_entries g)"

definition graph_is_empty :: "graph \<Rightarrow> bool" where
  "graph_is_empty g \<longleftrightarrow> g_entries g = []"

subsection \<open>push\<close>

text \<open>
  The loop that extends the shadow.  On a list that is not a graph it may run forever or find no
  entry; both are \<open>None\<close>.
\<close>

partial_function (option) push_shadow :: "graph_entry list \<Rightarrow> lv list \<Rightarrow> lv \<Rightarrow> lv option" where
  [code]: "push_shadow entries txn_parents shadow =
     (if shadow \<ge> 1 \<and> shadow - 1 \<in> set txn_parents
      then (case rv_find ge_key ge_len entries (shadow - 1) of
              None \<Rightarrow> None
            | Some e \<Rightarrow> push_shadow entries txn_parents (ge_shadow e))
      else Some shadow)"

fun push_children :: "nat \<Rightarrow> lv list \<Rightarrow> graph_entry list \<Rightarrow> graph_entry list option" where
  "push_children new_idx [] entries = Some entries"
| "push_children new_idx (p # ps) entries =
     (case find_index ge_key ge_len entries p of
        Inl _ \<Rightarrow> None
      | Inr parent_idx \<Rightarrow>
          push_children new_idx ps
            (entries[parent_idx := (entries ! parent_idx)
               \<lparr>ge_children := ge_children (entries ! parent_idx) @ [new_idx]\<rparr>]))"

definition graph_push :: "graph \<Rightarrow> lv list \<Rightarrow> dtrange \<Rightarrow> graph option" where
  "graph_push g txn_parents rng =
     (if g_entries g \<noteq> [] \<and> length txn_parents = 1 \<and>
         txn_parents ! 0 = ge_last_time (last (g_entries g)) \<and>
         dtrange_can_append (ge_span (last (g_entries g))) rng
      then Some (g\<lparr>g_entries := butlast (g_entries g) @
             [(last (g_entries g))\<lparr>ge_span := dtrange_append (ge_span (last (g_entries g))) rng\<rparr>]\<rparr>)
      else
        (case push_shadow (g_entries g) txn_parents (dt_start rng) of
           None \<Rightarrow> None
         | Some shadow \<Rightarrow>
             (let new_idx = length (g_entries g);
                  txn = \<lparr>ge_span = rng, ge_shadow = shadow, ge_parents = txn_parents, ge_children = []\<rparr>
              in if txn_parents = []
                 then Some \<lparr>g_entries = fst (rv_push ge_can_append ge_append (g_entries g) txn),
                            g_root_children = g_root_children g @ [new_idx]\<rparr>
                 else (case push_children new_idx txn_parents (g_entries g) of
                         None \<Rightarrow> None
                       | Some entries \<Rightarrow>
                           Some (g\<lparr>g_entries := fst (rv_push ge_can_append ge_append entries txn)\<rparr>)))))"

subsection \<open>The exported form\<close>

record graph_entry_simple =
  gs_span :: dtrange
  gs_parents :: frontier

definition gs_len :: "graph_entry_simple \<Rightarrow> nat" where
  "gs_len e = dtrange_len (gs_span e)"

definition gs_key :: "graph_entry_simple \<Rightarrow> nat" where
  "gs_key e = dt_start (gs_span e)"

definition gs_can_append :: "graph_entry_simple \<Rightarrow> graph_entry_simple \<Rightarrow> bool" where
  "gs_can_append self other \<longleftrightarrow>
     dtrange_can_append (gs_span self) (gs_span other) \<and> length (gs_parents other) = 1 \<and>
     gs_parents other ! 0 = dtrange_last (gs_span self)"

definition gs_append :: "graph_entry_simple \<Rightarrow> graph_entry_simple \<Rightarrow> graph_entry_simple" where
  "gs_append self other = self\<lparr>gs_span := dtrange_append (gs_span self) (gs_span other)\<rparr>"

definition gs_prepend :: "graph_entry_simple \<Rightarrow> graph_entry_simple \<Rightarrow> graph_entry_simple" where
  "gs_prepend self other = self\<lparr>gs_span := dtrange_prepend (gs_span self) (gs_span other),
     gs_parents := gs_parents other\<rparr>"

definition gs_truncate :: "graph_entry_simple \<Rightarrow> nat \<Rightarrow> graph_entry_simple \<times> graph_entry_simple" where
  "gs_truncate self at =
     (let (l, r) = dtrange_truncate (gs_span self) at
      in (self\<lparr>gs_span := l\<rparr>, \<lparr>gs_span = r, gs_parents = [dt_start l + at - 1]\<rparr>))"

definition gs_from :: "graph_entry \<Rightarrow> graph_entry_simple" where
  "gs_from e = \<lparr>gs_span = ge_span e, gs_parents = ge_parents e\<rparr>"

fun from_simple_items_iter :: "graph \<Rightarrow> graph_entry_simple list \<Rightarrow> graph option" where
  "from_simple_items_iter g [] = Some g"
| "from_simple_items_iter g (e # es) =
     (case graph_push g (gs_parents e) (gs_span e) of
        None \<Rightarrow> None | Some g' \<Rightarrow> from_simple_items_iter g' es)"

definition from_simple_items :: "graph_entry_simple list \<Rightarrow> graph option" where
  "from_simple_items slice = from_simple_items_iter graph_new slice"

definition graph_iter_range :: "graph \<Rightarrow> dtrange \<Rightarrow> graph_entry_simple list" where
  "graph_iter_range g rng = iter_range_map ge_key ge_len gs_truncate
     (default_truncate_keeping_right gs_truncate) gs_from (g_entries g) rng"

definition graph_iter :: "graph \<Rightarrow> graph_entry_simple list" where
  "graph_iter g = map gs_from (g_entries g)"

text \<open>A graph entry as the (version, parents) pairs it stands for.\<close>

definition gs_items :: "graph_entry_simple \<Rightarrow> (lv \<times> lv list) list" where
  "gs_items e = map (\<lambda>v. (v, if v > dt_start (gs_span e) then [v - 1] else gs_parents e))
     [dt_start (gs_span e) ..< dt_end (gs_span e)]"

definition gs_valid :: "graph_entry_simple \<Rightarrow> bool" where
  "gs_valid e \<longleftrightarrow> dt_start (gs_span e) < dt_end (gs_span e)"

end
