(* ===== verification/GraphFacts.thy ===== *)
theory GraphFacts
  imports Graph
begin

text \<open>
  The graph invariant, the DAG a graph stands for, and \<open>push\<close>.  \<open>vparents\<close> is the abstraction
  function: the parents of every version.  The interpretation \<open>gdag\<close> gives the laws of
  \<open>run_dag\<close> for the model's own lookup, so every lemma about ancestors, histories and runs holds
  of well-formed graphs.
\<close>

definition vparents :: "graph \<Rightarrow> lv \<Rightarrow> lv list" where
  "vparents g v = (case parents_at_version g v of None \<Rightarrow> [] | Some ps \<Rightarrow> ps)"

definition g_run :: "graph \<Rightarrow> lv \<Rightarrow> (lv \<times> lv \<times> lv list) option" where
  "g_run g v = map_option (\<lambda>e. (ge_key e, ge_shadow e, ge_parents e)) (g_find g v)"

abbreviation ge_valid :: "graph_entry \<Rightarrow> bool" where
  "ge_valid e \<equiv> dtrange_is_valid (ge_span e)"

abbreviation g_ok :: "graph_entry list \<Rightarrow> bool" where
  "g_ok \<equiv> vec_ok ge_key ge_len ge_valid"

definition in_graph :: "graph \<Rightarrow> lv \<Rightarrow> bool" where
  "in_graph g v \<longleftrightarrow> g_find g v \<noteq> None"

definition entry_wf :: "graph \<Rightarrow> graph_entry \<Rightarrow> bool" where
  "entry_wf g e \<longleftrightarrow> sorted_wrt (<) (ge_parents e) \<and>
     (\<forall>p \<in> set (ge_parents e). p < ge_key e \<and> in_graph g p) \<and>
     ge_shadow e \<le> ge_key e \<and>
     (\<forall>w. ge_shadow e \<le> w \<longrightarrow> w < ge_key e \<longrightarrow> in_graph g w \<longrightarrow> anc (vparents g) w (ge_key e))"

definition graph_wf :: "graph \<Rightarrow> bool" where
  "graph_wf g \<longleftrightarrow> g_ok (g_entries g) \<and> (\<forall>e \<in> set (g_entries g). entry_wf g e)"

lemma graph_wfD:
  "graph_wf g \<Longrightarrow> g_ok (g_entries g)"
  "graph_wf g \<Longrightarrow> e \<in> set (g_entries g) \<Longrightarrow> entry_wf g e"
  by (auto simp: graph_wf_def)

lemma g_find_Some:
  "graph_wf g \<Longrightarrow> g_find g v = Some e \<longleftrightarrow>
     e \<in> set (g_entries g) \<and> ge_key e \<le> v \<and> v < ge_key e + ge_len e"
  by (rule rv_find_Some[OF graph_wfD(1)])

lemma ge_end: "ge_valid e \<Longrightarrow> ge_key e + ge_len e = dt_end (ge_span e)"
  by (simp add: ge_key_def ge_len_def span_defs)

lemma vparents_find:
  "vparents g v = (case g_find g v of None \<Rightarrow> []
     | Some e \<Rightarrow> if v > ge_key e then [v - 1] else ge_parents e)"
  by (simp add: vparents_def parents_at_version_def find_packed_def ge_clone_parents_at_version_def
      ge_key_def split: option.split)

lemma vparents_mem:
  assumes "p \<in> set (vparents g v)"
  obtains e where "g_find g v = Some e"
    "ge_key e < v \<and> p = v - 1 \<or> v \<le> ge_key e \<and> p \<in> set (ge_parents e)"
  using assms by (cases "g_find g v") (auto simp: vparents_find split: if_splits)

lemma in_graph_start: "graph_wf g \<Longrightarrow> g_find g v = Some e \<Longrightarrow> ge_key e \<le> w \<Longrightarrow> w \<le> v \<Longrightarrow> g_find g w = Some e"
  by (simp add: g_find_Some)

interpretation gdag: run_dag graph_wf vparents g_run
proof
  fix g v p assume g: "graph_wf g" and p: "p \<in> set (vparents g v)"
  from p obtain e where e: "g_find g v = Some e" by (rule vparents_mem)
  then have "entry_wf g e" "ge_key e \<le> v" using g by (auto simp: g_find_Some graph_wfD)
  then show "p < v" using p e by (auto simp: vparents_find entry_wf_def split: if_splits)
next
  fix g v s sh ps assume g: "graph_wf g" and r: "g_run g v = Some (s, sh, ps)"
  then obtain e where e: "g_find g v = Some e" "s = ge_key e" "sh = ge_shadow e" "ps = ge_parents e"
    by (auto simp: g_run_def)
  have wf: "entry_wf g e" "ge_key e \<le> v" using e(1) g by (auto simp: g_find_Some graph_wfD)
  then show "s \<le> v \<and> sh \<le> s" using e by (auto simp: entry_wf_def)
  show "vparents g v = (if v > s then [v - 1] else ps)" using e by (simp add: vparents_find)
  show "g_run g w = Some (s, sh, ps)" if "s \<le> w" "w \<le> v" for w
    using in_graph_start[OF g e(1), of w] that e by (simp add: g_run_def)
  show "anc (vparents g) w s" if "sh \<le> w" "w < s" "g_run g w \<noteq> None" for w
    using wf that e by (auto simp: entry_wf_def in_graph_def g_run_def)
next
  fix g v assume "graph_wf g" "g_run g v = None"
  then show "vparents g v = []" by (simp add: vparents_find g_run_def)
next
  fix g p v assume g: "graph_wf g" and p: "p \<in> set (vparents g v)"
  from p obtain e where e: "g_find g v = Some e" by (rule vparents_mem)
  have wf: "entry_wf g e" "ge_key e \<le> v" using e g by (auto simp: g_find_Some graph_wfD)
  show "g_run g p \<noteq> None"
  proof (cases "v > ge_key e")
    case True
    then have "p = v - 1" using p e by (simp add: vparents_find)
    then show ?thesis using in_graph_start[OF g e, of p] True by (simp add: g_run_def)
  next
    case False
    then show ?thesis using p e wf by (auto simp: vparents_find entry_wf_def in_graph_def g_run_def)
  qed
qed

abbreviation ganc :: "graph \<Rightarrow> lv \<Rightarrow> lv \<Rightarrow> bool" where
  "ganc g \<equiv> anc (vparents g)"

abbreviation ghist :: "graph \<Rightarrow> lv list \<Rightarrow> lv set" where
  "ghist g F \<equiv> hist (vparents g) (set F)"

lemma g_run_Some [simp]:
  "g_run g v = Some (s, sh, ps) \<longleftrightarrow>
     (\<exists>e. g_find g v = Some e \<and> s = ge_key e \<and> sh = ge_shadow e \<and> ps = ge_parents e)"
  by (auto simp: g_run_def)

lemma g_run_None [simp]: "g_run g v = None \<longleftrightarrow> \<not> in_graph g v"
  by (simp add: g_run_def in_graph_def)

lemma find_run: "g_find g v = Some e \<Longrightarrow> g_run g v = Some (ge_key e, ge_shadow e, ge_parents e)"
  by simp

text \<open>The run lemmas, in terms of entries.\<close>

lemmas ganc_in_run = gdag.anc_in_run[OF _ find_run]
lemmas ganc_below_run = gdag.anc_below_run[OF _ find_run]
lemmas ganc_shadow = gdag.shadow_anc[OF _ find_run, unfolded not_Some_eq g_run_None not_not]
lemmas ghist_split_run = gdag.hist_split_run[OF _ find_run]
lemmas entry_parents_less = gdag.start_parents_less[OF _ find_run, simplified]

subsection \<open>push\<close>

text \<open>Everything but the child indices, on which the DAG does not depend.\<close>

definition strip :: "graph_entry \<Rightarrow> dtrange \<times> lv \<times> lv list" where
  "strip e = (ge_span e, ge_shadow e, ge_parents e)"

lemma strip_find:
  "map_option strip (rv_find ge_key ge_len es v) =
   rv_find (\<lambda>s. dt_start (fst s)) (\<lambda>s. dtrange_len (fst s)) (map strip es) v"
  by (subst rv_find_map[of _ strip ge_key _ ge_len]) (auto simp: strip_def ge_key_def ge_len_def)

lemma strip_ok:
  "g_ok es \<longleftrightarrow> vec_ok (\<lambda>s. dt_start (fst s)) (\<lambda>s. dtrange_len (fst s)) (\<lambda>s. dtrange_is_valid (fst s)) (map strip es)"
  by (auto simp: vec_ok_def span_sorted_def sorted_wrt_map strip_def ge_key_def ge_len_def)

lemma strip_in_graph: "in_graph g v \<longleftrightarrow> map_option strip (g_find g v) \<noteq> None"
  by (auto simp: in_graph_def)

lemma strip_vparents: "vparents g v = (case map_option strip (g_find g v) of None \<Rightarrow> []
     | Some (sp, sh, ps) \<Rightarrow> if v > dt_start sp then [v - 1] else ps)"
  by (auto simp: vparents_find strip_def ge_key_def split: option.split)

lemma strip_cong:
  assumes "map strip (g_entries g) = map strip (g_entries g')"
  shows "vparents g = vparents g'" "in_graph g = in_graph g'" "graph_wf g \<longleftrightarrow> graph_wf g'"
proof -
  have f: "map_option strip (g_find g v) = map_option strip (g_find g' v)" for v
    by (simp add: strip_find assms)
  show v: "vparents g = vparents g'" by (rule ext) (simp only: strip_vparents f)
  show i: "in_graph g = in_graph g'" by (rule ext) (simp only: strip_in_graph f)
  let ?P = "\<lambda>(sp, sh, ps). sorted_wrt (<) ps \<and> (\<forall>p \<in> set ps. p < dt_start sp \<and> in_graph g p) \<and>
     sh \<le> dt_start sp \<and>
     (\<forall>w. sh \<le> w \<longrightarrow> w < dt_start sp \<longrightarrow> in_graph g w \<longrightarrow> ganc g w (dt_start sp))"
  have "entry_wf g e \<longleftrightarrow> ?P (strip e)" "entry_wf g' e \<longleftrightarrow> ?P (strip e)" for e
    by (simp_all add: entry_wf_def strip_def v[symmetric] i[symmetric] ge_key_def)
  then have "(\<forall>e \<in> set (g_entries g). entry_wf g e) \<longleftrightarrow> (\<forall>s \<in> set (map strip (g_entries g)). ?P s)"
    "(\<forall>e \<in> set (g_entries g'). entry_wf g' e) \<longleftrightarrow> (\<forall>s \<in> set (map strip (g_entries g')). ?P s)"
    by simp_all
  then show "graph_wf g \<longleftrightarrow> graph_wf g'"
    unfolding graph_wf_def strip_ok assms by simp
qed

text \<open>The shadow loop returns, and everything from the shadow on is below a parent.\<close>

lemma push_shadow_correct:
  assumes g: "graph_wf g" and ps: "\<forall>p \<in> set ps. in_graph g p"
  shows "\<exists>sh \<le> s. push_shadow (g_entries g) ps s = Some sh \<and>
    (\<forall>w. sh \<le> w \<longrightarrow> w < s \<longrightarrow> in_graph g w \<longrightarrow> (\<exists>p \<in> set ps. ganc g w p))"
proof (induction s rule: less_induct)
  case (less s)
  show ?case
  proof (cases "s \<ge> 1 \<and> s - 1 \<in> set ps")
    case False
    then have "push_shadow (g_entries g) ps s = Some s"
      by (subst push_shadow.simps) (simp only: if_False)
    then show ?thesis by auto
  next
    case True
    then obtain e where e: "g_find g (s - 1) = Some e" using ps by (auto simp: in_graph_def)
    have "ge_shadow e \<le> ge_key e" "ge_key e \<le> s - 1"
      using gdag.run_start[OF g find_run[OF e]] by simp_all
    moreover have "1 \<le> s" using True ..
    ultimately have lt: "ge_shadow e < s" by linarith
    obtain sh where sh: "sh \<le> ge_shadow e" "push_shadow (g_entries g) ps (ge_shadow e) = Some sh"
      "\<forall>w. sh \<le> w \<longrightarrow> w < ge_shadow e \<longrightarrow> in_graph g w \<longrightarrow> (\<exists>p \<in> set ps. ganc g w p)"
      using less.IH[OF lt] by blast
    have "push_shadow (g_entries g) ps s = Some sh"
      using True e sh(2) by (subst push_shadow.simps) simp
    moreover have "\<exists>p \<in> set ps. ganc g w p" if "sh \<le> w" "w < s" "in_graph g w" for w
    proof (cases "w < ge_shadow e")
      case True
      then show ?thesis using sh(3) that by blast
    next
      case False
      then have "ganc g w (s - 1)" using ganc_shadow[OF g e, of w] that by simp
      then show ?thesis using True by blast
    qed
    ultimately show ?thesis using sh(1) lt by (intro exI[of _ sh]) auto
  qed
qed

lemma push_children_strip:
  assumes "\<forall>p \<in> set ps. rv_find ge_key ge_len es p \<noteq> None"
  shows "\<exists>es'. push_children n ps es = Some es' \<and> map strip es' = map strip es"
  using assms
proof (induction ps arbitrary: es)
  case (Cons p ps)
  then obtain i where i: "find_index ge_key ge_len es p = Inr i"
    by (auto simp: rv_find_def split: sum.splits)
  let ?es = "es[i := (es ! i)\<lparr>ge_children := ge_children (es ! i) @ [n]\<rparr>]"
  have s: "map strip ?es = map strip es"
    by (simp add: map_update strip_def list_update_same_conv)
      (metis (no_types, lifting) list_update_id map_update strip_def)
  have "map_option strip (rv_find ge_key ge_len ?es q) = map_option strip (rv_find ge_key ge_len es q)" for q
    by (simp only: strip_find s)
  then have "\<forall>q \<in> set ps. rv_find ge_key ge_len ?es q \<noteq> None"
    using Cons.prems by (metis list.set_intros(2) map_option_is_None)
  from Cons.IH[OF this] s show ?case by (simp add: i)
qed simp

text \<open>The part of the graph below a bound decides the ancestors below it.\<close>

lemma anc_mono: "\<forall>v. set (ps v) \<subseteq> set (qs v) \<Longrightarrow> anc ps a b \<Longrightarrow> anc qs a b"
  unfolding anc_def by (rule rtranclp_mono[THEN predicate2D]) auto

lemma entry_wf_mono:
  assumes "entry_wf g e" "\<forall>v. set (vparents g v) \<subseteq> set (vparents g' v)"
    "\<forall>v. in_graph g v \<longrightarrow> in_graph g' v" "\<forall>v < ge_key e. in_graph g' v \<longrightarrow> in_graph g v"
  shows "entry_wf g' e"
  using assms anc_mono[OF assms(2)] by (auto simp: entry_wf_def)

lemma append_entry_wf:
  assumes g: "graph_wf g" and x: "ge_key x \<ge> graph_next_time g" "dt_start (ge_span x) < dt_end (ge_span x)"
    and ps: "sorted_wrt (<) (ge_parents x)" "\<forall>p \<in> set (ge_parents x). in_graph g p"
    and sh: "ge_shadow x \<le> ge_key x"
      "\<forall>w. ge_shadow x \<le> w \<longrightarrow> w < ge_key x \<longrightarrow> in_graph g w \<longrightarrow> (\<exists>p \<in> set (ge_parents x). ganc g w p)"
  defines "g' \<equiv> g\<lparr>g_entries := g_entries g @ [x]\<rparr>"
  shows "graph_wf g'"
    "vparents g' v = (if dtrange_contains (ge_span x) v
       then if v > dt_start (ge_span x) then [v - 1] else ge_parents x else vparents g v)"
proof -
  have below: "ge_key e + ge_len e \<le> ge_key x" if "e \<in> set (g_entries g)" for e
    using rv_end_bound[OF graph_wfD(1)[OF g] that] x(1) by (simp add: graph_next_time_def)
  have len: "ge_key x + ge_len x = dt_end (ge_span x)" "ge_key x = dt_start (ge_span x)"
    using x(2) by (simp_all add: ge_key_def ge_len_def span_defs)
  have ok: "g_ok (g_entries g @ [x])"
    using graph_wfD(1)[OF g] below x(2) by (auto simp: ge_len_def span_defs)
  have find: "g_find g' v = (if dtrange_contains (ge_span x) v then Some x else g_find g v)" for v
    using rv_find_snoc[OF ok, of v] len by (simp add: g'_def dtrange_contains_def)
  show vp: "vparents g' v = (if dtrange_contains (ge_span x) v
       then if v > dt_start (ge_span x) then [v - 1] else ge_parents x else vparents g v)" for v
    using find[of v] by (simp add: vparents_find len)
  have none: "\<not> in_graph g v" if "ge_key x \<le> v" for v
    using that below by (fastforce simp: in_graph_def rv_find_None[OF graph_wfD(1)[OF g]])
  have ig: "in_graph g' v \<longleftrightarrow> dtrange_contains (ge_span x) v \<or> in_graph g v" for v
    using find[of v] by (simp add: in_graph_def)
  have mono: "set (vparents g v) \<subseteq> set (vparents g' v)" for v
  proof (cases "dtrange_contains (ge_span x) v")
    case True
    then have "g_find g v = None" using none[of v] len by (simp add: dtrange_contains_def in_graph_def)
    then show ?thesis by (simp add: vparents_find[of g])
  next
    case False
    then show ?thesis by (simp only: vp if_False order_refl)
  qed
  have same: "in_graph g' v \<longleftrightarrow> in_graph g v" if "v < ge_key x" for v
    using that len by (auto simp: ig dtrange_contains_def)
  have "entry_wf g' e" if e: "e \<in> set (g_entries g)" for e
  proof (rule entry_wf_mono[OF graph_wfD(2)[OF g e]])
    show "\<forall>v. set (vparents g v) \<subseteq> set (vparents g' v)" using mono by blast
    show "\<forall>v. in_graph g v \<longrightarrow> in_graph g' v" using ig by blast
    show "\<forall>v < ge_key e. in_graph g' v \<longrightarrow> in_graph g v"
      using same below[OF e] by (meson add_leD1 order_less_le_trans)
  qed
  moreover have "entry_wf g' x"
    unfolding entry_wf_def
  proof (intro conjI ballI allI impI)
    show "p < ge_key x" if "p \<in> set (ge_parents x)" for p
      using ps(2) that none[of p] by (meson not_le)
    show "ganc g' w (ge_key x)" if w: "ge_shadow x \<le> w" "w < ge_key x" "in_graph g' w" for w
    proof -
      from sh(2) w same[OF w(2)] obtain p where p: "p \<in> set (ge_parents x)" "ganc g w p" by blast
      have "ganc g' w p" using anc_mono[of "vparents g" "vparents g'"] mono p(2) by blast
      also have "ganc g' p (ge_key x)"
        using p(1) x(2) by (intro anc_parent) (simp add: vp len dtrange_contains_def)
      finally show ?thesis .
    qed
  qed (use ps sh ig in auto)
  ultimately show "graph_wf g'"
    using ok by (auto simp: graph_wf_def g'_def)
qed

lemma extend_last_wf:
  assumes g: "graph_wf g" and es: "g_entries g = es @ [z]"
    and rng: "dt_start rng = dt_end (ge_span z)" "dt_start rng < dt_end rng"
  defines "z' \<equiv> z\<lparr>ge_span := dtrange_append (ge_span z) rng\<rparr>"
  defines "g' \<equiv> g\<lparr>g_entries := es @ [z']\<rparr>"
  shows "graph_wf g'"
    "vparents g' v = (if dtrange_contains rng v then [v - 1] else vparents g v)"
proof -
  have ok: "g_ok (es @ [z])" using graph_wfD(1)[OF g] es by simp
  have zk: "ge_key z' = ge_key z" "ge_key z < dt_end (ge_span z)"
    "ge_key z + ge_len z = dt_end (ge_span z)" "ge_key z' + ge_len z' = dt_end rng"
    using ok rng by (auto simp: z'_def ge_key_def ge_len_def span_defs)
  have ok': "g_ok (es @ [z'])"
    using ok zk rng by (auto simp: z'_def ge_key_def ge_len_def span_defs)
  have find: "g_find g' v = (if ge_key z \<le> v \<and> v < dt_end rng then Some z' else g_find g v)" for v
    using rv_find_snoc[OF ok', of v] rv_find_snoc[OF ok, of v] zk rng es by (simp add: g'_def)
  have vp: "vparents g' v = (if dtrange_contains rng v then [v - 1] else vparents g v)" for v
    using find[of v] rv_find_snoc[OF ok, of v] zk rng es
    by (auto simp: vparents_find dtrange_contains_def z'_def)
  then show "vparents g' v = (if dtrange_contains rng v then [v - 1] else vparents g v)" .
  have none: "vparents g v = []" if "dtrange_contains rng v" for v
  proof -
    have "ge_key e + ge_len e \<le> v" if "e \<in> set (g_entries g)" for e
      using that ok zk rng \<open>dtrange_contains rng v\<close> unfolding es by (auto simp: dtrange_contains_def)
    then have "g_find g v = None"
      by (subst rv_find_None[OF graph_wfD(1)[OF g]]) fastforce
    then show ?thesis by (simp add: vparents_find)
  qed
  have mono: "set (vparents g v) \<subseteq> set (vparents g' v)" for v
    using none[of v] by (simp add: vp)
  have ig: "in_graph g' v \<longleftrightarrow> in_graph g v" if "v < dt_start rng" for v
    using that find[of v] rv_find_snoc[OF ok, of v] zk rng es by (auto simp: in_graph_def)
  have ig2: "in_graph g v \<longrightarrow> in_graph g' v" for v
    using find[of v] by (auto simp: in_graph_def)
  have tr: "entry_wf g' e" if "e \<in> set (es @ [z])" for e
  proof (rule entry_wf_mono)
    show "entry_wf g e" using graph_wfD(2)[OF g] es that by simp
    show "\<forall>v. set (vparents g v) \<subseteq> set (vparents g' v)" using mono by blast
    show "\<forall>v. in_graph g v \<longrightarrow> in_graph g' v" using ig2 by blast
    have "ge_key e \<le> dt_start rng" using ok zk rng that by (auto dest: bspec)
    then show "\<forall>v < ge_key e. in_graph g' v \<longrightarrow> in_graph g v" using ig by simp
  qed
  have "entry_wf g' z'" using tr[of z] zk(1) by (simp add: entry_wf_def z'_def)
  then show "graph_wf g'" using ok' tr by (auto simp: graph_wf_def g'_def)
qed

definition graph_checked :: "graph \<Rightarrow> bool" where
  "graph_checked g \<longleftrightarrow> graph_wf g \<and> check_packed_from_0 ge_key ge_len (g_entries g) \<and>
     check_fully_merged ge_can_append (g_entries g)"

lemma packed_from_snoc:
  "packed_from key len n (xs @ [x]) \<longleftrightarrow> packed_from key len n xs \<and>
     key x = (if xs = [] then n else key (last xs) + len (last xs))"
  by (induction xs arbitrary: n) (auto simp: span_end_def)

lemma packed_from_strip:
  "packed_from ge_key ge_len n es =
   packed_from (\<lambda>s. dt_start (fst s)) (\<lambda>s. dtrange_len (fst s)) n (map strip es)"
  by (induction es arbitrary: n) (simp_all add: strip_def span_end_def ge_key_def ge_len_def)

lemma strip_packed: "map strip es = map strip es' \<Longrightarrow>
  packed_from ge_key ge_len n es = packed_from ge_key ge_len n es'"
  by (simp only: packed_from_strip)

definition strip_can_append :: "dtrange \<times> lv \<times> lv list \<Rightarrow> dtrange \<times> lv \<times> lv list \<Rightarrow> bool" where
  "strip_can_append a b \<longleftrightarrow> dtrange_can_append (fst a) (fst b) \<and> length (snd (snd b)) = 1 \<and>
    snd (snd b) ! 0 = dtrange_last (fst a) \<and> fst (snd b) = fst (snd a)"

lemma merged_strip: "successively (\<lambda>a b. \<not> ge_can_append a b) es =
  successively (\<lambda>a b. \<not> strip_can_append a b) (map strip es)"
  by (simp add: successively_map strip_can_append_def ge_can_append_def strip_def ge_last_time_def)

lemma strip_merged: "map strip es = map strip es' \<Longrightarrow>
  successively (\<lambda>a b. \<not> ge_can_append a b) es = successively (\<lambda>a b. \<not> ge_can_append a b) es'"
  by (simp only: merged_strip)

text \<open>
  \<open>push\<close> returns, keeps the invariant, and adds exactly the new versions to the DAG: the first
  one with the given parents, each later one with its predecessor.
\<close>

lemma graph_push_spec:
  assumes g: "graph_wf g" and rng: "graph_next_time g \<le> dt_start rng" "dt_start rng < dt_end rng"
    and ps: "sorted_wrt (<) ps" "\<forall>p \<in> set ps. in_graph g p"
  shows "\<exists>g'. graph_push g ps rng = Some g' \<and> graph_wf g' \<and> graph_next_time g' = dt_end rng \<and>
    (\<forall>v. vparents g' v = (if dtrange_contains rng v
        then if v > dt_start rng then [v - 1] else ps else vparents g v)) \<and>
    (graph_checked g \<longrightarrow> dt_start rng = graph_next_time g \<longrightarrow> graph_checked g')"
proof (cases "g_entries g \<noteq> [] \<and> length ps = 1 \<and> ps ! 0 = ge_last_time (last (g_entries g)) \<and>
    dtrange_can_append (ge_span (last (g_entries g))) rng")
  case True
  then obtain es z where es: "g_entries g = es @ [z]" by (cases "g_entries g" rule: rev_cases) auto
  let ?z = "z\<lparr>ge_span := dtrange_append (ge_span z) rng\<rparr>"
  let ?g = "g\<lparr>g_entries := es @ [?z]\<rparr>"
  have r: "dt_start rng = dt_end (ge_span z)" using True es by (simp add: dtrange_can_append_def)
  have p: "graph_push g ps rng = Some ?g" using True es by (simp add: graph_push_def)
  have 1: "ps = [dt_start rng - 1]"
    using True es r by (cases ps) (auto simp: ge_last_time_def dtrange_last_def)
  have zv: "dt_start (ge_span z) < dt_end (ge_span z)"
    using graph_wfD(1)[OF g] es by (auto simp: ge_len_def span_defs)
  have n: "graph_next_time ?g = dt_end rng"
    using zv rng r by (simp add: graph_next_time_def rv_end_def rv_last_entry_def span_end_def
        ge_key_def ge_len_def span_defs)
  have c: "graph_checked ?g" if "graph_checked g"
    using that extend_last_wf(1)[OF g es r rng(2)] es
    by (auto simp: graph_checked_def check_packed_from_0_def check_fully_merged_def packed_from_snoc
        successively_append_iff ge_can_append_def ge_key_def span_defs)
  show ?thesis
    using extend_last_wf[OF g es r rng(2)] p n c
    by (intro exI[of _ ?g]) (auto simp: 1 dtrange_contains_def)
next
  case False
  obtain sh where sh: "sh \<le> dt_start rng" "push_shadow (g_entries g) ps (dt_start rng) = Some sh"
    "\<forall>w. sh \<le> w \<longrightarrow> w < dt_start rng \<longrightarrow> in_graph g w \<longrightarrow> (\<exists>p \<in> set ps. ganc g w p)"
    using push_shadow_correct[OF g ps(2), of "dt_start rng"] by blast
  define x where "x = \<lparr>ge_span = rng, ge_shadow = sh, ge_parents = ps, ge_children = []\<rparr>"
  obtain es where es: "push_children (length (g_entries g)) ps (g_entries g) = Some es"
    "map strip es = map strip (g_entries g)"
    using push_children_strip[of ps "g_entries g"] ps(2) by (auto simp: in_graph_def)
  define g1 where "g1 = (if ps = [] then g\<lparr>g_root_children := g_root_children g @ [length (g_entries g)]\<rparr>
    else g\<lparr>g_entries := es\<rparr>)"
  have st: "map strip (g_entries g1) = map strip (g_entries g)" using es by (simp add: g1_def)
  note c = strip_cong[OF st]
  have last: "strip (last (g_entries g1)) = strip (last (g_entries g))" "(g_entries g1 = []) = (g_entries g = [])"
    using st by (metis last_map map_is_Nil_conv)+
  have nomerge: "\<not> ge_can_append (last (g_entries g1)) x" if "g_entries g1 \<noteq> []"
    using False last that by (auto simp: ge_can_append_def x_def strip_def ge_last_time_def)
  let ?g = "g1\<lparr>g_entries := g_entries g1 @ [x]\<rparr>"
  have p: "graph_push g ps rng = Some ?g"
    using False sh(2) es nomerge
    by (auto simp: graph_push_def Let_def rv_push_def push_rle_def x_def g1_def)
  have nt: "graph_next_time g1 = graph_next_time g"
    using last by (auto simp: graph_next_time_def rv_end_def rv_last_entry_def span_end_def
        strip_def ge_key_def ge_len_def)
  have "graph_wf g1" "ge_key x \<ge> graph_next_time g1" "dt_start (ge_span x) < dt_end (ge_span x)"
    "sorted_wrt (<) (ge_parents x)" "\<forall>p \<in> set (ge_parents x). in_graph g1 p" "ge_shadow x \<le> ge_key x"
    "\<forall>w. ge_shadow x \<le> w \<longrightarrow> w < ge_key x \<longrightarrow> in_graph g1 w \<longrightarrow> (\<exists>p \<in> set (ge_parents x). ganc g1 w p)"
    using g rng ps sh c nt by (simp_all add: x_def ge_key_def)
  note a = append_entry_wf[OF this]
  have n: "graph_next_time ?g = dt_end rng"
    using rng by (simp add: graph_next_time_def rv_end_def rv_last_entry_def span_end_def
        ge_key_def ge_len_def span_defs x_def)
  have "graph_checked ?g" if "graph_checked g" "dt_start rng = graph_next_time g"
  proof -
    have "check_packed_from_0 ge_key ge_len (g_entries g1 @ [x])"
      using that(1) strip_packed[OF st] nt that(2)
      by (auto simp: graph_checked_def check_packed_from_0_def packed_from_snoc x_def ge_key_def
          graph_next_time_def rv_end_def rv_last_entry_def span_end_def split: if_splits)
    moreover have "check_fully_merged ge_can_append (g_entries g1 @ [x])"
      using that(1) strip_merged[OF st] nomerge
      by (auto simp: graph_checked_def check_fully_merged_def successively_append_iff)
    ultimately show ?thesis using a(1) by (simp add: graph_checked_def)
  qed
  then show ?thesis
    using p a n c by (intro exI[of _ ?g]) (simp add: x_def)
qed

subsection \<open>The exported entries\<close>

interpretation gs_rle: rle_key_span gs_len gs_items gs_valid gs_truncate gs_can_append gs_append
  gs_prepend "default_truncate_keeping_right gs_truncate" gs_key
proof
  fix a b assume v: "gs_valid a" "gs_valid b" and c: "gs_can_append a b"
  have d: "dt_start (gs_span b) = dt_end (gs_span a)" "gs_parents b = [dt_end (gs_span a) - 1]"
    using c by (auto simp: gs_can_append_def span_defs length_Suc_conv)
  have "[dt_start (gs_span a) ..< dt_end (gs_span b)] =
      [dt_start (gs_span a) ..< dt_end (gs_span a)] @ [dt_end (gs_span a) ..< dt_end (gs_span b)]"
    using v d by (intro upt_split[symmetric]) (simp_all add: gs_valid_def)
  then show "gs_items (gs_append a b) = gs_items a @ gs_items b"
    using v d by (auto simp: gs_items_def gs_append_def gs_valid_def dtrange_append_def)
qed (auto simp: gs_len_def gs_items_def gs_valid_def gs_truncate_def gs_can_append_def gs_append_def
    gs_prepend_def gs_key_def default_truncate_keeping_right_def span_defs Let_def take_map drop_map)

lemma graph_iter_ok:
  assumes "graph_wf g"
  shows "vec_ok gs_key gs_len gs_valid (graph_iter g)"
    and "content gs_key gs_items (graph_iter g) = {(v, v, vparents g v) | v. in_graph g v}"
proof -
  note ok = graph_wfD(1)[OF assms]
  show "vec_ok gs_key gs_len gs_valid (graph_iter g)"
    using ok by (auto simp: graph_iter_def vec_ok_def span_sorted_def sorted_wrt_map gs_from_def
        gs_key_def gs_len_def gs_valid_def ge_key_def ge_len_def span_defs)
  have e: "set (enumerate (gs_key (gs_from e)) (gs_items (gs_from e))) =
      {(v, v, vparents g v) | v. g_find g v = Some e}" if "e \<in> set (g_entries g)" for e
  proof -
    have "ge_valid e" using ok that by (simp add: vec_ok_def)
    then have "g_find g v = Some e \<longleftrightarrow> dt_start (ge_span e) \<le> v \<and> v < dt_end (ge_span e)" for v
      using that by (simp add: g_find_Some[OF assms] ge_end) (simp add: ge_key_def)
    moreover have "vparents g v = (if v > dt_start (ge_span e) then [v - 1] else ge_parents e)"
      if "g_find g v = Some e" for v
      using that by (simp add: vparents_find ge_key_def)
    ultimately have "{(v, v, vparents g v) | v. g_find g v = Some e} =
        (\<lambda>v. (v, v, if v > dt_start (ge_span e) then [v - 1] else ge_parents e)) `
          {dt_start (ge_span e) ..< dt_end (ge_span e)}"
      by (auto simp: image_iff)
    moreover have "enumerate (gs_key (gs_from e)) (gs_items (gs_from e)) =
        map (\<lambda>v. (v, v, if v > dt_start (ge_span e) then [v - 1] else ge_parents e))
          [dt_start (ge_span e) ..< dt_end (ge_span e)]"
      using \<open>ge_valid e\<close>
      by (intro nth_equalityI) (auto simp: gs_from_def gs_key_def gs_items_def nth_enumerate_eq)
    ultimately show ?thesis by simp
  qed
  have "content gs_key gs_items (graph_iter g) =
      (\<Union>e \<in> set (g_entries g). {(v, v, vparents g v) | v. g_find g v = Some e})"
    unfolding content_def graph_iter_def using e by simp
  also have "\<dots> = {(v, v, vparents g v) | v. in_graph g v}"
    using g_find_Some[OF assms] by (auto simp: in_graph_def)
  finally show "content gs_key gs_items (graph_iter g) = {(v, v, vparents g v) | v. in_graph g v}" .
qed

lemma graph_iter_range_spec:
  assumes "graph_wf g" "dt_start rng < dt_end rng"
  shows "content gs_key gs_items (graph_iter_range g rng) =
    {(v, v, vparents g v) | v. in_graph g v \<and> dtrange_contains rng v}"
proof -
  have eq: "graph_iter_range g rng =
      iter_range gs_key gs_len gs_truncate (default_truncate_keeping_right gs_truncate) (graph_iter g) rng"
    unfolding graph_iter_range_def graph_iter_def
    by (rule iter_range_map_eq) (simp_all add: gs_from_def gs_key_def gs_len_def ge_key_def ge_len_def)
  show ?thesis
    unfolding eq gs_rle.iter_range_content(2)[OF graph_iter_ok(1)[OF assms(1)] assms(2)]
      graph_iter_ok(2)[OF assms(1)]
    by (auto simp: keys_within_def dtrange_contains_def)
qed

end
