(* ===== verification/GraphQuery.thy ===== *)
theory GraphQuery
  imports GraphFacts
begin

text \<open>
  The containment queries of \<open>src/causalgraph/graph/tools.rs\<close>: \<open>frontier_contains_version\<close> with
  its priority queue, and the comparisons built on it.  A query that looks up a version outside
  the graph panics, which is \<open>None\<close>; on a list that is not a graph the search may also run
  forever, which is \<open>None\<close> too.  The theorems show that neither happens on a well-formed graph,
  and that the answer is membership in the frontier's history.
\<close>

definition shadow_of :: "graph \<Rightarrow> lv \<Rightarrow> lv option" where
  "shadow_of g time = (case g_find g time of None \<Rightarrow> None | Some e \<Rightarrow> Some (ge_shadow e))"

definition txn_shadow_contains :: "graph \<Rightarrow> lv \<Rightarrow> lv \<Rightarrow> bool option" where
  "txn_shadow_contains g a b =
     (if a = b then Some True
      else if a > b then (case shadow_of g a of None \<Rightarrow> None | Some s \<Rightarrow> Some (s \<le> b))
      else Some False)"

definition is_direct_descendant_coarse :: "graph \<Rightarrow> lv \<Rightarrow> lv \<Rightarrow> bool option" where
  "is_direct_descendant_coarse g a b =
     (if a = b then Some True
      else if a > b then (case g_find g a of None \<Rightarrow> None | Some e \<Rightarrow> Some (ge_contains e b))
      else Some False)"

text \<open>The fast path: a frontier version whose entry's shadow reaches down to the target.\<close>

fun shadow_fast_path :: "graph \<Rightarrow> lv list \<Rightarrow> lv \<Rightarrow> bool option" where
  "shadow_fast_path g [] target = Some False"
| "shadow_fast_path g (v # vs) target =
     (if v > target then
        (case g_find g v of
           None \<Rightarrow> None
         | Some txn \<Rightarrow> if ge_shadow_contains txn target then Some True
                      else shadow_fast_path g vs target)
      else shadow_fast_path g vs target)"

text \<open>\<open>while let Some(&next) = queue.peek() { if next >= start { queue.pop(); } else { break; } }\<close>\<close>

lemma heap_pop_length: "heap_pop q = Some (x, q') \<Longrightarrow> length q' < length q"
  by (cases q) auto

function pop_from :: "lv \<Rightarrow> lv list \<Rightarrow> lv list" where
  "pop_from start queue =
     (case heap_peek queue of
        None \<Rightarrow> queue
      | Some next_time \<Rightarrow>
          if next_time \<ge> start
          then (case heap_pop queue of None \<Rightarrow> queue | Some (_, queue') \<Rightarrow> pop_from start queue')
          else queue)"
  by pat_completeness auto
termination
  by (relation "measure (\<lambda>(start, queue). length queue)") (auto dest: heap_pop_length)

text \<open>The parents loop: \<open>Inl\<close> is the early \<open>return true\<close>, \<open>Inr\<close> the extended queue.\<close>

fun push_parents_above :: "lv list \<Rightarrow> lv \<Rightarrow> lv list \<Rightarrow> unit + lv list" where
  "push_parents_above [] target queue = Inr queue"
| "push_parents_above (p # ps) target queue =
     (if p = target then Inl ()
      else if p > target then push_parents_above ps target (heap_push p queue)
      else push_parents_above ps target queue)"

partial_function (option) contains_loop :: "graph \<Rightarrow> lv \<Rightarrow> lv list \<Rightarrow> bool option" where
  [code]: "contains_loop g target queue =
     (case heap_pop queue of
        None \<Rightarrow> Some False
      | Some (order, queue) \<Rightarrow>
          (case g_find_packed g order of
             None \<Rightarrow> None
           | Some entry \<Rightarrow>
               if ge_shadow_contains entry target then Some True
               else (case push_parents_above (ge_parents entry) target
                            (pop_from (dt_start (ge_span entry)) queue) of
                       Inl _ \<Rightarrow> Some True
                     | Inr queue \<Rightarrow> contains_loop g target queue)))"

definition frontier_contains_version :: "graph \<Rightarrow> lv list \<Rightarrow> lv \<Rightarrow> bool option" where
  "frontier_contains_version g frontier target =
     (if target \<in> set frontier then Some True
      else if frontier = [] \<or> last frontier < target then Some False
      else (case shadow_fast_path g frontier target of
              None \<Rightarrow> None
            | Some True \<Rightarrow> Some True
            | Some False \<Rightarrow>
                contains_loop g target (heap_extend (filter (\<lambda>v. v > target) frontier) [])))"

definition version_cmp :: "graph \<Rightarrow> lv \<Rightarrow> lv \<Rightarrow> ordering option option" where
  "version_cmp g v1 v2 =
     (case cmp v1 v2 of
        Equal \<Rightarrow> Some (Some Equal)
      | Less \<Rightarrow> (case frontier_contains_version g [v2] v1 of
                  None \<Rightarrow> None | Some b \<Rightarrow> Some (if b then Some Less else None))
      | Greater \<Rightarrow> (case frontier_contains_version g [v1] v2 of
                  None \<Rightarrow> None | Some b \<Rightarrow> Some (if b then Some Greater else None)))"

fun contains_all :: "graph \<Rightarrow> lv list \<Rightarrow> lv list \<Rightarrow> bool option" where
  "contains_all g a [] = Some True"
| "contains_all g a (bb # b) =
     (case frontier_contains_version g a bb of
        None \<Rightarrow> None
      | Some False \<Rightarrow> Some False
      | Some True \<Rightarrow> contains_all g a b)"

definition frontier_contains_frontier :: "graph \<Rightarrow> lv list \<Rightarrow> lv list \<Rightarrow> bool option" where
  "frontier_contains_frontier g a b = (if a = b then Some True else contains_all g a b)"

definition frontier_cmp :: "graph \<Rightarrow> lv list \<Rightarrow> lv list \<Rightarrow> ordering option option" where
  "frontier_cmp g v1 v2 =
     (if v1 = v2 then Some (Some Equal)
      else if v1 = [] then Some (Some Less)
      else (case frontier_contains_frontier g v1 v2 of
              None \<Rightarrow> None
            | Some True \<Rightarrow> Some (Some Greater)
            | Some False \<Rightarrow>
                (case frontier_contains_frontier g v2 v1 of
                   None \<Rightarrow> None
                 | Some True \<Rightarrow> Some (Some Less)
                 | Some False \<Rightarrow> Some None)))"

subsection \<open>Correctness\<close>

declare pop_from.simps [simp del]

lemma pop_from_dropWhile: "pop_from s queue = dropWhile (\<lambda>v. s \<le> v) queue"
  by (induction queue) (simp_all add: pop_from.simps)

lemma pop_from_set: "descending queue \<Longrightarrow> set (pop_from s queue) = {v \<in> set queue. v < s}"
  unfolding pop_from_dropWhile by (induction queue) auto

lemma pop_from_descending: "descending queue \<Longrightarrow> descending (pop_from s queue)"
  unfolding pop_from_dropWhile by (induction queue) auto

lemma push_parents_above_spec:
  "case push_parents_above ps t q of
     Inl _ \<Rightarrow> t \<in> set ps
   | Inr q' \<Rightarrow> t \<notin> set ps \<and> set q' = {p \<in> set ps. t < p} \<union> set q \<and> (descending q \<longrightarrow> descending q')"
  by (induction ps t q rule: push_parents_above.induct)
    (auto simp: heap_push_descending split: sum.splits)

text \<open>
  One round of the search replaces the versions of one run by the parents of the run, and all
  that is left in the queue lies below the run: this is what makes it end.
\<close>

lemma contains_loop_correct:
  assumes g: "graph_wf g" and t: "in_graph g t"
  shows "descending q \<Longrightarrow> \<forall>v \<in> set q. t < v \<and> v < n \<and> in_graph g v \<Longrightarrow>
    contains_loop g t q = Some (\<exists>v \<in> set q. ganc g t v)"
proof (induction n arbitrary: q rule: less_induct)
  case (less n)
  show ?case
  proof (cases q)
    case Nil
    then show ?thesis by (subst contains_loop.simps) simp
  next
    case (Cons x q')
    then obtain e where e: "g_find g x = Some e"
      using less.prems(2) by (auto simp: in_graph_def)
    have x: "t < x" "x < n" using less.prems(2) Cons by auto
    have k: "ge_key e \<le> x" using gdag.run_start[OF g find_run[OF e]] by simp
    have in_run: "g_find g v = Some e" if "v \<in> set q" "ge_key e \<le> v" for v
      using less.prems(1) Cons that in_graph_start[OF g e] by auto
    show ?thesis
    proof (cases "ge_shadow e \<le> t")
      case True
      then have "ganc g t x" using ganc_shadow[OF g e] t x by simp
      then show ?thesis
        using Cons e True
        by (subst contains_loop.simps) (simp add: find_packed_def ge_shadow_contains_def)
    next
      case False
      then have tk: "t < ge_key e"
        using gdag.run_start[OF g find_run[OF e]] by simp
      have run: "ganc g t v \<longleftrightarrow> (\<exists>p \<in> set (ge_parents e). ganc g t p)"
        if "v \<in> set q" "ge_key e \<le> v" for v
        using ganc_below_run[OF g in_run[OF that] tk] .
      let ?r = "pop_from (ge_key e) q'"
      have dq: "descending q'" using less.prems(1) Cons by simp
      note r = pop_from_set[OF dq, of "ge_key e"] pop_from_descending[OF dq, of "ge_key e"]
      have eq: "contains_loop g t q = (case push_parents_above (ge_parents e) t ?r of
          Inl _ \<Rightarrow> Some True | Inr queue \<Rightarrow> contains_loop g t queue)"
        using Cons e False
        by (subst contains_loop.simps) (simp add: find_packed_def ge_shadow_contains_def ge_key_def)
      have spec: "(\<exists>v \<in> set q. ganc g t v) \<longleftrightarrow>
          (\<exists>p \<in> set (ge_parents e). ganc g t p) \<or> (\<exists>v \<in> set ?r. ganc g t v)"
        using run r(1) Cons k by (auto; meson not_le)
      show ?thesis
      proof (cases "push_parents_above (ge_parents e) t ?r")
        case (Inl u)
        then have "t \<in> set (ge_parents e)"
          using push_parents_above_spec[of t "ge_parents e" ?r] by simp
        then show ?thesis using eq Inl spec by auto
      next
        case (Inr q2)
        then have q2: "t \<notin> set (ge_parents e)" "set q2 = {p \<in> set (ge_parents e). t < p} \<union> set ?r"
            "descending q2"
          using push_parents_above_spec[of t "ge_parents e" ?r] r(2) by simp_all
        have par: "p < ge_key e \<and> in_graph g p" if "p \<in> set (ge_parents e)" for p
          using entry_parents_less[OF g e that] .
        have "\<forall>v \<in> set q2. t < v \<and> v < ge_key e \<and> in_graph g v"
          using q2(2) par r(1) less.prems(2) Cons by auto
        then have "contains_loop g t q2 = Some (\<exists>v \<in> set q2. ganc g t v)"
          using k x q2(3) by (intro less.IH[of "ge_key e"]) auto
        moreover have "(\<exists>v \<in> set q2. ganc g t v) \<longleftrightarrow> (\<exists>v \<in> set q. ganc g t v)"
        proof -
          have "t < p" if "p \<in> set (ge_parents e)" "ganc g t p" for p
            using gdag.anc_le[OF g that(2)] q2(1) that(1) by (metis le_neq_implies_less)
          then show ?thesis unfolding spec q2(2) by blast
        qed
        ultimately show ?thesis using eq Inr by simp
      qed
    qed
  qed
qed

lemma shadow_fast_path_spec:
  assumes g: "graph_wf g" and t: "in_graph g t" and vs: "\<forall>v \<in> set vs. in_graph g v"
  shows "\<exists>b. shadow_fast_path g vs t = Some b \<and> (b \<longrightarrow> t \<in> ghist g vs)"
  using vs
proof (induction vs)
  case (Cons v vs)
  then obtain e where e: "g_find g v = Some e" by (auto simp: in_graph_def)
  then have "ge_shadow e \<le> t \<Longrightarrow> t < v \<Longrightarrow> ganc g t v"
    using ganc_shadow[OF g e] t by simp
  then show ?case using Cons e by (auto simp: ge_shadow_contains_def)
qed (auto intro: exI[of _ False])

lemma frontier_contains_version_spec:
  assumes g: "graph_wf g" and t: "in_graph g t" and f: "sorted_wrt (<) f" "\<forall>v \<in> set f. in_graph g v"
  shows "frontier_contains_version g f t = Some (t \<in> ghist g f)"
proof -
  consider (elem) "t \<in> set f" | (below) "t \<notin> set f" "f = [] \<or> last f < t"
    | (search) "t \<notin> set f" "\<not> (f = [] \<or> last f < t)" by blast
  then show ?thesis
  proof cases
    case elem
    then show ?thesis by (simp add: frontier_contains_version_def hist_self)
  next
    case below
    have "\<forall>v \<in> set f. v < t"
      using below f(1) by (cases f rule: rev_cases) (auto simp: sorted_wrt_append)
    then have "t \<notin> ghist g f"
      using gdag.anc_le[OF g] unfolding hist_def by fastforce
    then show ?thesis using below by (simp add: frontier_contains_version_def)
  next
    case search
    let ?h = "heap_extend (filter (\<lambda>v. v > t) f) []"
    obtain b where b: "shadow_fast_path g f t = Some b" "b \<longrightarrow> t \<in> ghist g f"
      using shadow_fast_path_spec[OF g t f(2)] by blast
    have "descending ?h" by (simp add: heap_extend_descending)
    moreover have "\<forall>v \<in> set ?h. t < v \<and> v < Suc (last f) \<and> in_graph g v"
      using search f by (cases f rule: rev_cases) (auto simp: sorted_wrt_append)
    ultimately have "contains_loop g t ?h = Some (\<exists>v \<in> set ?h. ganc g t v)"
      by (rule contains_loop_correct[OF g t])
    moreover have "(\<exists>v \<in> set ?h. ganc g t v) \<longleftrightarrow> t \<in> ghist g f"
      using search(1) gdag.anc_le[OF g] by (auto simp: hist_def; metis le_neq_implies_less)
    ultimately show ?thesis using search b by (auto simp: frontier_contains_version_def split: bool.split)
  qed
qed

lemma is_direct_descendant_coarse_spec:
  assumes g: "graph_wf g" and a: "in_graph g a"
  shows "\<exists>r. is_direct_descendant_coarse g a b = Some r \<and>
    (r \<longrightarrow> ganc g b a \<and> (\<forall>v. ganc g v a \<longleftrightarrow> (b < v \<and> v \<le> a) \<or> ganc g v b))"
proof -
  obtain e where e: "g_find g a = Some e" using a by (auto simp: in_graph_def)
  have c: "ge_contains e b \<Longrightarrow> ge_key e \<le> b"
    by (simp add: ge_contains_def dtrange_contains_def ge_key_def)
  have "ganc g b a \<and> (\<forall>v. ganc g v a \<longleftrightarrow> (b < v \<and> v \<le> a) \<or> ganc g v b)"
    if "b < a" "ge_key e \<le> b"
  proof -
    have eb: "g_find g b = Some e" using in_graph_start[OF g e that(2)] that(1) by simp
    have "ganc g b a" using ganc_in_run[OF g e that(2)] that(1) by simp
    moreover have "ganc g v a \<longleftrightarrow> (b < v \<and> v \<le> a) \<or> ganc g v b" for v
    proof (cases "ge_key e \<le> v")
      case True
      then show ?thesis
        using ganc_in_run[OF g e True] ganc_in_run[OF g eb True] gdag.anc_le[OF g] that(1)
        by (metis not_le order.strict_trans2 order_less_imp_le)
    next
      case False
      then show ?thesis
        using ganc_below_run[OF g e, of v] ganc_below_run[OF g eb, of v] that by auto
    qed
    ultimately show ?thesis by blast
  qed
  then show ?thesis
    using e c gdag.anc_le[OF g]
    by (auto simp: is_direct_descendant_coarse_def not_less dest: antisym)
qed

lemma version_cmp_spec:
  assumes g: "graph_wf g" and a: "in_graph g a" and b: "in_graph g b"
  shows "version_cmp g a b = Some
    (if a = b then Some Equal else if ganc g a b then Some Less
     else if ganc g b a then Some Greater else None)"
proof -
  have "ganc g b a \<Longrightarrow> b \<le> a" "ganc g a b \<Longrightarrow> a \<le> b" using gdag.anc_le[OF g] by auto
  then show ?thesis
    using frontier_contains_version_spec[OF g a, of "[b]"] frontier_contains_version_spec[OF g b, of "[a]"] a b
    by (cases a b rule: linorder_cases) (auto simp: version_cmp_def cmp_def)
qed

lemma contains_all_spec:
  assumes g: "graph_wf g" and f: "sorted_wrt (<) a" "\<forall>v \<in> set a. in_graph g v"
    and b: "\<forall>v \<in> set b. in_graph g v"
  shows "contains_all g a b = Some (set b \<subseteq> ghist g a)"
  using b
proof (induction b)
  case (Cons v b)
  have "frontier_contains_version g a v = Some (v \<in> ghist g a)"
    using frontier_contains_version_spec[OF g _ f] Cons.prems by simp
  then show ?case using Cons by (cases "v \<in> ghist g a") auto
qed simp

lemma frontier_contains_frontier_spec:
  assumes "graph_wf g" "sorted_wrt (<) a" "\<forall>v \<in> set a \<union> set b. in_graph g v"
  shows "frontier_contains_frontier g a b = Some (ghist g b \<subseteq> ghist g a)"
  using contains_all_spec[OF assms(1,2), of b] assms(3)
  by (auto simp: frontier_contains_frontier_def hist_subset hist_self)

lemma frontier_cmp_spec:
  assumes g: "graph_wf g"
    and a: "sorted_wrt (<) a" "dominators (vparents g) (set a) = set a"
    and b: "sorted_wrt (<) b" "dominators (vparents g) (set b) = set b"
    and i: "\<forall>v \<in> set a \<union> set b. in_graph g v"
  shows "frontier_cmp g a b = Some
    (if ghist g a = ghist g b then Some Equal else if ghist g a \<subseteq> ghist g b then Some Less
     else if ghist g b \<subseteq> ghist g a then Some Greater else None)"
proof -
  have eq: "ghist g a = ghist g b \<longleftrightarrow> a = b"
    using gdag.hist_eq_antichain[OF g a(2) b(2)] a(1) b(1) strict_sorted_equal by blast
  have "frontier_contains_frontier g a b = Some (ghist g b \<subseteq> ghist g a)"
    "frontier_contains_frontier g b a = Some (ghist g a \<subseteq> ghist g b)"
    using frontier_contains_frontier_spec[OF g a(1), of b] frontier_contains_frontier_spec[OF g b(1), of a] i
    by (auto simp: Un_commute)
  then show ?thesis
    using eq by (auto simp: frontier_cmp_def split: bool.splits)
qed

end
