(* ===== verification/GraphDiff.thy ===== *)
theory GraphDiff
  imports GraphQuery "HOL-Library.Product_Lexorder"
begin

text \<open>
  \<open>diff\<close> of \<open>src/causalgraph/graph/tools.rs\<close>: which versions are in the history of one frontier
  and not of the other.  The queue holds (version, flag) pairs, greatest first; in the list
  representation of the heap \<open>x # q\<close> is a heap whose \<open>peek\<close> is \<open>x\<close> and whose \<open>pop\<close> leaves \<open>q\<close>.
  The callback \<open>mark_run\<close> is modelled by the list of its calls, in order.

  A version of the graph lies below the end of a span, which is itself a \<open>usize\<close>, so
  \<open>wrapping_add(1)\<close> on versions does not wrap and is \<open>+ 1\<close>.
\<close>

datatype diff_flag = OnlyA | OnlyB | Shared

fun flag_rank :: "diff_flag \<Rightarrow> nat" where
  "flag_rank OnlyA = 0"
| "flag_rank OnlyB = 1"
| "flag_rank Shared = 2"

lemma flag_rank_inj: "flag_rank a = flag_rank b \<longleftrightarrow> a = b"
  by (cases a; cases b) auto

instantiation diff_flag :: linorder
begin

definition less_eq_diff_flag :: "diff_flag \<Rightarrow> diff_flag \<Rightarrow> bool" where
  "less_eq_diff_flag a b \<longleftrightarrow> flag_rank a \<le> flag_rank b"

definition less_diff_flag :: "diff_flag \<Rightarrow> diff_flag \<Rightarrow> bool" where
  "less_diff_flag a b \<longleftrightarrow> flag_rank a < flag_rank b"

instance
  by standard (auto simp: less_eq_diff_flag_def less_diff_flag_def flag_rank_inj[symmetric])

end

type_synonym flag_queue = "(lv \<times> diff_flag) list"

type_synonym mark = "lv \<times> lv \<times> diff_flag"

fun diff_dups :: "lv \<Rightarrow> diff_flag \<Rightarrow> flag_queue \<Rightarrow> nat \<Rightarrow> diff_flag \<times> flag_queue \<times> nat" where
  "diff_dups ord flag [] num_shared = (flag, [], num_shared)"
| "diff_dups ord flag ((peek_ord, peek_flag) # queue) num_shared =
     (if peek_ord \<noteq> ord then (flag, (peek_ord, peek_flag) # queue, num_shared)
      else diff_dups ord (if peek_flag \<noteq> flag then Shared else flag) queue
             (if peek_flag = Shared then num_shared - 1 else num_shared))"

fun diff_in_run :: "lv \<Rightarrow> lv \<Rightarrow> diff_flag \<Rightarrow> flag_queue \<Rightarrow> nat
    \<Rightarrow> mark list \<times> lv \<times> diff_flag \<times> flag_queue \<times> nat" where
  "diff_in_run start ord flag [] num_shared = ([], ord, flag, [], num_shared)"
| "diff_in_run start ord flag ((peek_ord, peek_flag) # queue) num_shared =
     (if peek_ord < start then ([], ord, flag, (peek_ord, peek_flag) # queue, num_shared)
      else
        (let num_shared' = (if peek_flag = Shared then num_shared - 1 else num_shared)
         in if peek_flag \<noteq> flag
            then (let (marks, res) = diff_in_run start peek_ord Shared queue num_shared'
                  in ((peek_ord + 1, ord, flag) # marks, res))
            else diff_in_run start ord flag queue num_shared'))"

fun push_flagged :: "lv list \<Rightarrow> diff_flag \<Rightarrow> flag_queue \<Rightarrow> nat \<Rightarrow> flag_queue \<times> nat" where
  "push_flagged [] flag queue num_shared = (queue, num_shared)"
| "push_flagged (p # ps) flag queue num_shared =
     push_flagged ps flag (heap_push (p, flag) queue)
       (if flag = Shared then num_shared + 1 else num_shared)"

text \<open>One round of the loop, from the popped pair to the queue and count it leaves.\<close>

definition diff_step :: "graph \<Rightarrow> lv \<Rightarrow> diff_flag \<Rightarrow> flag_queue \<Rightarrow> nat
    \<Rightarrow> (mark list \<times> flag_queue \<times> nat) option" where
  "diff_step g ord flag queue num_shared =
     (let num_shared = (if flag = Shared then num_shared - 1 else num_shared);
          (flag, queue, num_shared) = diff_dups ord flag queue num_shared
      in case g_find_packed g ord of
           None \<Rightarrow> None
         | Some containing_txn \<Rightarrow>
             (let start = dt_start (ge_span containing_txn);
                  (marks, ord, flag, queue, num_shared) = diff_in_run start ord flag queue num_shared;
                  (queue, num_shared) = push_flagged (ge_parents containing_txn) flag queue num_shared
              in Some (marks @ [(start, ord, flag)], queue, num_shared)))"

partial_function (option) diff_loop :: "graph \<Rightarrow> flag_queue \<Rightarrow> nat \<Rightarrow> mark list option" where
  [code]: "diff_loop g queue num_shared =
     (case heap_pop queue of
        None \<Rightarrow> Some []
      | Some ((ord, flag), queue) \<Rightarrow>
          Option.bind (diff_step g ord flag queue num_shared)
            (\<lambda>(marks, queue, num_shared).
               if length queue = num_shared then Some marks
               else Option.bind (diff_loop g queue num_shared) (\<lambda>rest. Some (marks @ rest))))"

definition diff_slow_internal :: "graph \<Rightarrow> lv list \<Rightarrow> lv list \<Rightarrow> mark list option" where
  "diff_slow_internal g a b =
     (let queue = heap_extend (map (\<lambda>v. (v, OnlyA)) a) [];
          queue = heap_extend (map (\<lambda>v. (v, OnlyB)) b) queue
      in diff_loop g queue 0)"

text \<open>\<open>mark_run\<close> of \<open>diff_slow\<close>, folded over the calls.\<close>

fun diff_mark_run :: "dtrange list \<times> dtrange list \<Rightarrow> mark \<Rightarrow> dtrange list \<times> dtrange list" where
  "diff_mark_run (only_a, only_b) (ord_start, ord_end, flag) =
     (let r = \<lparr>dt_start = ord_start, dt_end = ord_end + 1\<rparr>
      in case flag of
           OnlyA \<Rightarrow> (fst (push_reversed_rle dtrange_can_append dtrange_prepend only_a r), only_b)
         | OnlyB \<Rightarrow> (only_a, fst (push_reversed_rle dtrange_can_append dtrange_prepend only_b r))
         | Shared \<Rightarrow> (only_a, only_b))"

definition diff_slow :: "graph \<Rightarrow> lv list \<Rightarrow> lv list \<Rightarrow> (dtrange list \<times> dtrange list) option" where
  "diff_slow g a b =
     (case diff_slow_internal g a b of
        None \<Rightarrow> None
      | Some marks \<Rightarrow> Some (foldl diff_mark_run ([], []) marks))"

definition diff_rev :: "graph \<Rightarrow> lv list \<Rightarrow> lv list \<Rightarrow> (dtrange list \<times> dtrange list) option" where
  "diff_rev g a b =
     (if a = b then Some ([], [])
      else if length a = 1 \<and> length b = 1 then
        (let a0 = a ! 0; b0 = b ! 0
         in case is_direct_descendant_coarse g a0 b0 of
              None \<Rightarrow> None
            | Some True \<Rightarrow> Some ([\<lparr>dt_start = b0 + 1, dt_end = a0 + 1\<rparr>], [])
            | Some False \<Rightarrow>
                (case is_direct_descendant_coarse g b0 a0 of
                   None \<Rightarrow> None
                 | Some True \<Rightarrow> Some ([], [\<lparr>dt_start = a0 + 1, dt_end = b0 + 1\<rparr>])
                 | Some False \<Rightarrow> diff_slow g a b))
      else diff_slow g a b)"

definition diff :: "graph \<Rightarrow> lv list \<Rightarrow> lv list \<Rightarrow> (dtrange list \<times> dtrange list) option" where
  "diff g a b = map_option (\<lambda>(ra, rb). (rev ra, rev rb)) (diff_rev g a b)"

text \<open>\<open>diff_rev_2\<close> passes the runs to the caller's callback, with exclusive ends.\<close>

definition diff_rev_2 :: "graph \<Rightarrow> lv list \<Rightarrow> lv list \<Rightarrow> (dtrange \<times> diff_flag) list option" where
  "diff_rev_2 g a b =
     (let slow = map_option (map (\<lambda>(start, last_v, flag). (\<lparr>dt_start = start, dt_end = last_v + 1\<rparr>, flag)))
                   (diff_slow_internal g a b)
      in if a = b then Some []
         else if length a = 1 \<and> length b = 1 then
           (let a0 = a ! 0; b0 = b ! 0
            in case is_direct_descendant_coarse g a0 b0 of
                 None \<Rightarrow> None
               | Some True \<Rightarrow> Some [(\<lparr>dt_start = b0 + 1, dt_end = a0 + 1\<rparr>, OnlyA)]
               | Some False \<Rightarrow>
                   (case is_direct_descendant_coarse g b0 a0 of
                      None \<Rightarrow> None
                    | Some True \<Rightarrow> Some [(\<lparr>dt_start = a0 + 1, dt_end = b0 + 1\<rparr>, OnlyB)]
                    | Some False \<Rightarrow> slow))
         else slow)"

end
