(* ===== verification/GraphDiffFacts.thy ===== *)
theory GraphDiffFacts
  imports GraphDiff
begin

text \<open>
  \<open>diff\<close> computes the two differences of histories, each as a list of runs in canonical form.
  A flag says which of the two histories a version is in; the invariant of the search is that the
  part of each history below the current run is the history of the queue entries with that flag,
  and that \<open>num_shared_entries\<close> counts the \<open>Shared\<close> entries, so that the early exit is taken
  exactly when both histories have the same rest.
\<close>

definition in_a :: "diff_flag \<Rightarrow> bool" where "in_a f \<longleftrightarrow> f \<noteq> OnlyB"

definition in_b :: "diff_flag \<Rightarrow> bool" where "in_b f \<longleftrightarrow> f \<noteq> OnlyA"

definition flag_of :: "bool \<Rightarrow> bool \<Rightarrow> diff_flag option" where
  "flag_of a b = (if a then Some (if b then Shared else OnlyA) else if b then Some OnlyB else None)"

definition covers :: "(diff_flag \<Rightarrow> bool) \<Rightarrow> (lv \<times> diff_flag) set \<Rightarrow> lv \<Rightarrow> bool" where
  "covers side P a \<longleftrightarrow> (\<exists>(q, f) \<in> P. side f \<and> a \<le> q)"

definition marks_of :: "mark list \<Rightarrow> diff_flag \<Rightarrow> lv set" where
  "marks_of ms F = {a. \<exists>(s, l, f) \<in> set ms. f = F \<and> s \<le> a \<and> a \<le> l}"

definition marks_desc :: "mark list \<Rightarrow> bool" where
  "marks_desc ms \<longleftrightarrow> sorted_wrt (\<lambda>(s, l, f) (s', l', f'). l' < s) ms \<and>
     (\<forall>(s, l, f) \<in> set ms. f = Shared \<or> s \<le> l)"

definition nshared :: "flag_queue \<Rightarrow> nat" where
  "nshared q = length (filter (\<lambda>x. snd x = Shared) q)"

definition side_of :: "(diff_flag \<Rightarrow> bool) \<Rightarrow> flag_queue \<Rightarrow> lv set" where
  "side_of side q = {v. \<exists>f. (v, f) \<in> set q \<and> side f}"

lemma flag_of_self: "flag_of (in_a f) (in_b f) = Some f"
  by (cases f) (auto simp: flag_of_def in_a_def in_b_def)

lemma covers_simps [simp]:
  "covers side {} a \<longleftrightarrow> False"
  "covers side (insert (q, f) P) a \<longleftrightarrow> side f \<and> a \<le> q \<or> covers side P a"
  by (auto simp: covers_def)

lemma covers_Un: "covers side (P \<union> R) a \<longleftrightarrow> covers side P a \<or> covers side R a"
  by (auto simp: covers_def)

lemma marks_of_simps [simp]:
  "marks_of [] F = {}"
  "marks_of ((s, l, f) # ms) F = (if f = F then {s..l} else {}) \<union> marks_of ms F"
  "marks_of (ms @ ms') F = marks_of ms F \<union> marks_of ms' F"
  by (auto simp: marks_of_def)

lemma nshared_simps [simp]:
  "nshared [] = 0" "nshared (x # q) = (if snd x = Shared then Suc (nshared q) else nshared q)"
  by (auto simp: nshared_def)

lemma nshared_push: "nshared (heap_push x q) = (if snd x = Shared then Suc (nshared q) else nshared q)"
  by (induction q) auto

lemma nshared_all: "length q = nshared q \<longleftrightarrow> (\<forall>x \<in> set q. snd x = Shared)"
proof (induction q)
  case (Cons x q)
  have "nshared q \<le> length q" by (simp add: nshared_def)
  then show ?case using Cons by auto
qed simp

definition fst_desc :: "flag_queue \<Rightarrow> bool" where
  "fst_desc q \<longleftrightarrow> sorted_wrt (\<lambda>x y. fst y \<le> fst x) q"

lemma fst_desc_simps [simp]:
  "fst_desc []" "fst_desc (x # q) \<longleftrightarrow> (\<forall>y \<in> set q. fst y \<le> fst x) \<and> fst_desc q"
  by (auto simp: fst_desc_def)

lemma descending_fst: "descending (q :: flag_queue) \<Longrightarrow> fst_desc q"
  unfolding descending_def fst_desc_def
  by (erule sorted_wrt_mono_rel[rotated]) (auto simp: less_eq_prod_def)

lemma filter_fst_desc: "fst_desc q \<Longrightarrow> fst_desc (filter P q)"
  by (simp add: fst_desc_def sorted_wrt_filter)

lemma filter_descending: "descending q \<Longrightarrow> descending (filter P q)"
  by (simp add: descending_def sorted_wrt_filter)

lemma filter_below: "\<forall>y \<in> set q. fst y < m \<Longrightarrow> filter (\<lambda>x. fst x < m) q = q"
  by (simp add: filter_id_conv)

lemma marks_desc_simps [simp]:
  "marks_desc []"
  "marks_desc ((s, l, f) # ms) \<longleftrightarrow> (\<forall>(s', l', f') \<in> set ms. l' < s) \<and> (f = Shared \<or> s \<le> l) \<and>
     marks_desc ms"
  by (auto simp: marks_desc_def)

lemma marks_desc_append: "marks_desc (ms @ ms') \<longleftrightarrow> marks_desc ms \<and> marks_desc ms' \<and>
    (\<forall>(s, l, f) \<in> set ms. \<forall>(s', l', f') \<in> set ms'. l' < s)"
  by (simp add: marks_desc_def sorted_wrt_append ball_Un split_beta) blast

lemma diff_dups_spec:
  assumes "fst_desc q" "\<forall>x \<in> set q. fst x \<le> ord" "ns = nshared q"
    and "diff_dups ord flag q ns = (flag', q', ns')"
  shows "q' = filter (\<lambda>x. fst x < ord) q \<and> ns' = nshared q' \<and>
    (in_a flag' \<longleftrightarrow> in_a flag \<or> (\<exists>f. (ord, f) \<in> set q \<and> in_a f)) \<and>
    (in_b flag' \<longleftrightarrow> in_b flag \<or> (\<exists>f. (ord, f) \<in> set q \<and> in_b f))"
  using assms
proof (induction ord flag q ns rule: diff_dups.induct)
  case (2 ord flag po pf q ns)
  show ?case
  proof (cases "po = ord")
    case True
    let ?f = "if pf \<noteq> flag then Shared else flag" and ?ns = "if pf = Shared then ns - 1 else ns"
    have d: "diff_dups ord ?f q ?ns = (flag', q', ns')" using "2.prems"(4) True by simp
    have "fst_desc q" "\<forall>x \<in> set q. fst x \<le> ord" "?ns = nshared q" using "2.prems" by auto
    note ih = "2.IH"[OF _ this d]
    moreover have "in_a ?f = (in_a flag \<or> in_a pf)" "in_b ?f = (in_b flag \<or> in_b pf)"
      by (cases pf; cases flag; simp add: in_a_def in_b_def)+
    moreover have "(\<exists>f. (ord, f) \<in> set ((po, pf) # q) \<and> side f) \<longleftrightarrow>
        side pf \<or> (\<exists>f. (ord, f) \<in> set q \<and> side f)" for side
      using True by auto
    ultimately show ?thesis using True by (simp del: list.set)
  next
    case False
    then have q: "\<forall>y \<in> set q. fst y < ord" using "2.prems" by fastforce
    then have "\<not> (\<exists>f. (ord, f) \<in> set ((po, pf) # q))" using False by fastforce
    then show ?thesis using "2.prems" False q by (auto simp: filter_below)
  qed
qed auto

text \<open>The marks inside one run, for the entries of the queue that lie in the run.\<close>

lemma diff_in_run_spec:
  assumes "fst_desc q" "\<forall>x \<in> set q. fst x \<le> ord" "ns = nshared q" "start \<le> ord"
    and "flag = Shared \<or> (\<forall>x \<in> set q. fst x < ord)"
    and "diff_in_run start ord flag q ns = (ms, ord', flag', q', ns')"
  defines "P \<equiv> insert (ord, flag) {x \<in> set q. start \<le> fst x}"
  shows "q' = filter (\<lambda>x. fst x < start) q \<and> ns' = nshared q' \<and> start \<le> ord' \<and> ord' \<le> ord \<and>
    (in_a flag' \<longleftrightarrow> (\<exists>x \<in> P. in_a (snd x))) \<and> (in_b flag' \<longleftrightarrow> (\<exists>x \<in> P. in_b (snd x))) \<and>
    (\<forall>F a. a \<in> marks_of (ms @ [(start, ord', flag')]) F \<longleftrightarrow> start \<le> a \<and> a \<le> ord \<and>
       flag_of (covers in_a P a) (covers in_b P a) = Some F) \<and>
    marks_desc (ms @ [(start, ord', flag')]) \<and>
    (\<forall>(s, l, f) \<in> set (ms @ [(start, ord', flag')]). start \<le> s \<and> l \<le> ord)"
  using assms(1-6) unfolding P_def
proof (induction start ord flag q ns arbitrary: ms rule: diff_in_run.induct)
  case (1 start ord flag ns)
  then show ?case by (auto simp: flag_of_self marks_desc_def)
next
  case (2 start ord flag po pf q ns)
  show ?case
  proof (cases "po < start")
    case True
    then have "\<forall>y \<in> set q. fst y < start" using "2.prems" by fastforce
    moreover from this have e: "{x \<in> set ((po, pf) # q). start \<le> fst x} = {}" using True by fastforce
    ultimately show ?thesis
      unfolding e using "2.prems" True by (auto simp: filter_below flag_of_self marks_desc_def)
  next
    case False
    have q: "\<forall>y \<in> set q. fst y \<le> po" "po \<le> ord" "fst_desc q" using "2.prems" by auto
    let ?ns = "if pf = Shared then ns - 1 else ns"
    have ns: "?ns = nshared q" using "2.prems"(3) by simp
    show ?thesis
    proof (cases "pf = flag")
      case True
      have r: "diff_in_run start ord flag q ?ns = (ms, ord', flag', q', ns')"
        using "2.prems"(6) False True by simp
      have eq: "covers side (insert (ord, flag) {x \<in> set ((po, pf) # q). start \<le> fst x}) a =
          covers side (insert (ord, flag) {x \<in> set q. start \<le> fst x}) a" for side a
        using q(2) False True by (auto simp: covers_def)
      have fl: "flag = Shared \<or> (\<forall>x \<in> set q. fst x < ord)" using "2.prems"(5) by auto
      have ex: "(\<exists>x \<in> insert (ord, flag) {x \<in> set ((po, pf) # q). start \<le> fst x}. side (snd x)) =
          (\<exists>x \<in> insert (ord, flag) {x \<in> set q. start \<le> fst x}. side (snd x))" for side
        using True False by auto
      show ?thesis
        unfolding eq ex
        using "2.IH"(2)[OF False refl _ q(3) _ ns _ fl r] "2.prems"(2,4) True False by simp
    next
      case ne: False
      obtain ms2 where r: "diff_in_run start po Shared q ?ns = (ms2, ord', flag', q', ns')"
          "ms = (po + 1, ord, flag) # ms2"
        using "2.prems"(6) False ne by (auto simp: Let_def split: prod.splits)
      have "flag = Shared \<or> po < ord" using "2.prems"(5) by auto
      have po: "start \<le> po" using False by simp
      note ih = "2.IH"(1)[OF False refl ne q(3) q(1) ns po _ r(1), simplified]
      let ?P = "insert (ord, flag) {x \<in> set ((po, pf) # q). start \<le> fst x}"
      let ?P' = "insert (po, Shared) {x \<in> set q. start \<le> fst x}"
      have both: "in_a flag \<or> in_a pf" "in_b flag \<or> in_b pf" "in_a Shared" "in_b Shared"
        using ne by (cases pf; cases flag; simp add: in_a_def in_b_def)+
      have "\<exists>x \<in> ?P. in_a (snd x)" "\<exists>x \<in> ?P. in_b (snd x)" using both po by auto
      moreover have "in_a flag'" "in_b flag'" using ih both by auto
      moreover have "a \<in> marks_of (ms @ [(start, ord', flag')]) F \<longleftrightarrow> start \<le> a \<and> a \<le> ord \<and>
          flag_of (covers in_a ?P a) (covers in_b ?P a) = Some F" for a F
      proof (cases "a \<le> po")
        case True
        then have "covers in_a ?P a" "covers in_b ?P a" "covers in_a ?P' a" "covers in_b ?P' a"
          using both po q(2) by (auto simp: covers_def)
        then show ?thesis using ih True q(2) by (simp add: r(2))
      next
        case above: False
        have c: "covers side ?P a \<longleftrightarrow> side flag \<and> a \<le> ord" for side
        proof -
          have "\<not> a \<le> fst x" if "x \<in> set ((po, pf) # q)" for x
            using q(1) above that by fastforce
          then show ?thesis unfolding covers_def by fastforce
        qed
        have "a \<notin> marks_of (ms2 @ [(start, ord', flag')]) F"
          using ih above by simp
        then have "a \<in> marks_of (ms @ [(start, ord', flag')]) F \<longleftrightarrow> flag = F \<and> a \<le> ord"
          using above by (simp add: r(2))
        also have "\<dots> \<longleftrightarrow> start \<le> a \<and> a \<le> ord \<and> flag_of (covers in_a ?P a) (covers in_b ?P a) = Some F"
          unfolding c using above po flag_of_self[of flag] by (cases "a \<le> ord") simp_all
        finally show ?thesis .
      qed
      moreover have "marks_desc (ms @ [(start, ord', flag')])"
      proof -
        have "\<forall>(s, l, f) \<in> set (ms2 @ [(start, ord', flag')]). l < po + 1"
          using ih by (simp add: less_Suc_eq_le) blast
        then show ?thesis
          using ih \<open>flag = Shared \<or> po < ord\<close> unfolding r(2) append_Cons marks_desc_simps
          by (simp add: Suc_le_eq)
      qed
      moreover have "\<forall>(s, l, f) \<in> set (ms @ [(start, ord', flag')]). start \<le> s \<and> l \<le> ord"
      proof -
        have "\<forall>(s, l, f) \<in> set (ms2 @ [(start, ord', flag')]). start \<le> s \<and> l \<le> ord"
          using ih order_trans[OF _ q(2)] by (simp add: case_prod_beta)
        then show ?thesis using po by (simp add: r(2))
      qed
      ultimately show ?thesis
        using ih q(2) False by simp
    qed
  qed
qed

lemma push_flagged_spec:
  assumes "push_flagged ps flag q ns = (q', ns')" "ns = nshared q" "descending q"
  shows "set q' = {(p, flag) | p. p \<in> set ps} \<union> set q \<and> ns' = nshared q' \<and> descending q'"
  using assms
proof (induction ps flag q ns rule: push_flagged.induct)
  case (2 p ps flag q ns)
  let ?q = "heap_push (p, flag) q"
  have "push_flagged ps flag ?q (if flag = Shared then ns + 1 else ns) = (q', ns')"
    using "2.prems"(1) by simp
  from "2.IH"[OF this] "2.prems"(2,3) show ?case
    by (auto simp: nshared_push heap_push_descending)
qed auto

text \<open>One round: marks for the versions of the run, and a queue for what lies below it.\<close>

lemma diff_step_spec:
  assumes g: "graph_wf g" and q: "descending ((ord, flag) # q)" "\<forall>x \<in> set ((ord, flag) # q). in_graph g (fst x)"
    and ns: "ns = nshared ((ord, flag) # q)"
  shows "\<exists>ms q' s. diff_step g ord flag q ns = Some (ms, q', nshared q') \<and> s \<le> ord \<and> descending q' \<and>
    (\<forall>x \<in> set q'. fst x < s \<and> in_graph g (fst x)) \<and>
    (\<forall>(st, l, f) \<in> set ms. s \<le> st \<and> l \<le> ord) \<and> marks_desc ms \<and>
    (\<forall>side \<in> {in_a, in_b}. \<forall>a. a \<in> hist (vparents g) (side_of side ((ord, flag) # q)) \<longleftrightarrow>
       (if s \<le> a then covers side (set ((ord, flag) # q)) a
        else a \<in> hist (vparents g) (side_of side q'))) \<and>
    (\<forall>F a. a \<in> marks_of ms F \<longleftrightarrow> s \<le> a \<and>
       flag_of (covers in_a (set ((ord, flag) # q)) a) (covers in_b (set ((ord, flag) # q)) a) = Some F)"
proof -
  let ?Q = "set ((ord, flag) # q)"
  obtain e where e: "g_find g ord = Some e" using q(2) by (auto simp: in_graph_def)
  let ?s = "ge_key e"
  have s: "?s \<le> ord" using gdag.run_start[OF g find_run[OF e]] by simp
  have desc: "fst_desc q" "\<forall>x \<in> set q. fst x \<le> ord" "descending q"
    using descending_fst[OF q(1)] q(1) by auto
  let ?ns = "if flag = Shared then ns - 1 else ns"
  have ns1: "?ns = nshared q" using ns by simp
  obtain f1 q1 n1 where d: "diff_dups ord flag q ?ns = (f1, q1, n1)" by (metis surj_pair)
  note d1 = diff_dups_spec[OF desc(1,2) ns1 d]
  then have q1: "fst_desc q1" "\<forall>x \<in> set q1. fst x \<le> ord" "n1 = nshared q1" "\<forall>x \<in> set q1. fst x < ord"
    "descending q1"
    using desc by (auto simp: filter_fst_desc filter_descending)
  have q1s: "set q1 = {x \<in> set q. fst x < ord}" using d1 by simp
  have split_q: "?Q = {(ord, f) | f. (ord, f) \<in> ?Q} \<union> set q1"
  proof -
    have "v = ord \<or> v < ord" if "(v, f) \<in> set q" for v f
      using desc(2) that by fastforce
    then show ?thesis unfolding q1s by fastforce
  qed
  obtain ms o2 f2 q2 n2 where r: "diff_in_run ?s ord f1 q1 n1 = (ms, o2, f2, q2, n2)" by (metis surj_pair)
  note r1 = diff_in_run_spec[OF q1(1,2,3) s _ r]
  let ?P = "insert (ord, f1) {x \<in> set q1. ?s \<le> fst x}"
  have r2: "q2 = filter (\<lambda>x. fst x < ?s) q1" "n2 = nshared q2"
    using r1 q1(4) by auto
  obtain q3 n3 where p: "push_flagged (ge_parents e) f2 q2 n2 = (q3, n3)" by (metis surj_pair)
  have "descending q2" using q1(5) r2(1) by (simp add: filter_descending)
  note p1 = push_flagged_spec[OF p r2(2) this]
  have step: "diff_step g ord flag q ns = Some (ms @ [(?s, o2, f2)], q3, nshared q3)"
    using d r p e p1 by (simp add: diff_step_def find_packed_def Let_def ge_key_def)
  have cov: "covers side ?P a = covers side ?Q a" if "side \<in> {in_a, in_b}" "?s \<le> a" for side a
  proof -
    have f1: "side f1 \<longleftrightarrow> (\<exists>f. (ord, f) \<in> ?Q \<and> side f)" using d1 that by auto
    have "covers side ?Q a \<longleftrightarrow> covers side {(ord, f) | f. (ord, f) \<in> ?Q} a \<or> covers side (set q1) a"
      by (rule trans[OF arg_cong[OF split_q, of "\<lambda>P. covers side P a"] covers_Un])
    also have "covers side {(ord, f) | f. (ord, f) \<in> ?Q} a \<longleftrightarrow> side f1 \<and> a \<le> ord"
      unfolding f1 by (auto simp: covers_def)
    finally have "covers side ?Q a \<longleftrightarrow> side f1 \<and> a \<le> ord \<or> covers side (set q1) a" .
    also have "covers side (set q1) a \<longleftrightarrow> covers side {x \<in> set q1. ?s \<le> fst x} a"
      using that(2) unfolding covers_def by fastforce
    finally show ?thesis by simp
  qed
  have side2: "side f2 \<longleftrightarrow> (\<exists>x \<in> ?Q. ?s \<le> fst x \<and> side (snd x))" if "side \<in> {in_a, in_b}" for side
  proof -
    have "side f2 \<longleftrightarrow> (\<exists>x \<in> ?P. side (snd x))" using r1 q1(4) that by auto
    moreover have "side f1 \<longleftrightarrow> (\<exists>f. (ord, f) \<in> ?Q \<and> side f)" using d1 that by auto
    ultimately have "side f2 \<longleftrightarrow> (\<exists>f. (ord, f) \<in> ?Q \<and> side f) \<or> (\<exists>x \<in> set q1. ?s \<le> fst x \<and> side (snd x))"
      by fastforce
    also have "\<dots> \<longleftrightarrow> (\<exists>x \<in> {(ord, f) | f. (ord, f) \<in> ?Q} \<union> set q1. ?s \<le> fst x \<and> side (snd x))"
      using s by (force simp: bex_Un)
    also have "\<dots> \<longleftrightarrow> (\<exists>x \<in> ?Q. ?s \<le> fst x \<and> side (snd x))" unfolding split_q[symmetric] ..
    finally show ?thesis .
  qed
  have below: "fst x < ?s \<and> in_graph g (fst x)" if "x \<in> set q3" for x
  proof -
    from that p1 consider p where "x = (p, f2)" "p \<in> set (ge_parents e)" | "x \<in> set q2" by auto
    then show ?thesis
    proof cases
      case 1 then show ?thesis using entry_parents_less[OF g e] by simp
    next
      case 2 then show ?thesis using r2(1) q1s q(2) by simp
    qed
  qed
  have hist: "a \<in> hist (vparents g) (side_of side ((ord, flag) # q)) \<longleftrightarrow>
      (if ?s \<le> a then covers side ?Q a else a \<in> hist (vparents g) (side_of side q3))"
    if sd: "side \<in> {in_a, in_b}" for side a
  proof -
    let ?F = "{v. \<exists>f. (v, f) \<in> ?Q \<and> side f \<and> ?s \<le> v}"
    let ?L = "{v. \<exists>f. (v, f) \<in> set q2 \<and> side f}"
    have q2: "set q2 = {x \<in> ?Q. fst x < ?s}" 
    proof (rule set_eqI)
      show "x \<in> set q2 \<longleftrightarrow> x \<in> {x \<in> ?Q. fst x < ?s}" for x
        unfolding r2(1) set_filter q1s using s by (cases x) auto
    qed
    have all: "side_of side ((ord, flag) # q) = ?F \<union> ?L"
    proof (rule set_eqI)
      show "v \<in> side_of side ((ord, flag) # q) \<longleftrightarrow> v \<in> ?F \<union> ?L" for v
        unfolding side_of_def q2 by (cases "?s \<le> v") simp_all
    qed
    have gen: "{p \<in> X. \<not> b} \<union> Y = (if b then {} else X) \<union> Y" for b and X Y :: "lv set" by simp
    have ne: "side f2 \<longleftrightarrow> ?F \<noteq> {}" unfolding side2[OF sd] by fastforce
    have "set q3 = {(p, f2) | p. p \<in> set (ge_parents e)} \<union> set q2" using p1 by blast
    then have "side_of side q3 = {p \<in> set (ge_parents e). side f2} \<union> ?L"
      by (auto simp: side_of_def)
    then have q3: "side_of side q3 = (if ?F = {} then {} else set (ge_parents e)) \<union> ?L"
      unfolding ne gen .
    have F: "hist (vparents g) ?F = {a. ?s \<le> a \<and> covers side ?Q a} \<union>
        hist (vparents g) (if ?F = {} then {} else set (ge_parents e))"
    proof (cases "?F = {}")
      case True
      then have c: "{a. ?s \<le> a \<and> covers side ?Q a} = {}" unfolding covers_def by fastforce
      show ?thesis unfolding c True by (simp only: if_True simp_thms hist_simps Un_empty_left)
    next
      case False
      have "\<forall>w \<in> ?F. ?s \<le> w \<and> w \<le> ord" using desc(2) by auto
      note h = ghist_split_run[OF g e this False]
      have c: "{a. ?s \<le> a \<and> (\<exists>w \<in> ?F. a \<le> w)} = {a. ?s \<le> a \<and> covers side ?Q a}"
        unfolding covers_def by fastforce
      show ?thesis unfolding h c using False by (simp only: if_False)
    qed
    have "\<not> ?s \<le> a" if "a \<in> hist (vparents g) (side_of side q3)" for a
    proof -
      obtain v where "v \<in> side_of side q3" "ganc g a v" using \<open>a \<in> _\<close> by (auto simp: hist_def)
      then show ?thesis using below[of "(v, _)"] gdag.anc_le[OF g, of a v] by (fastforce simp: side_of_def)
    qed
    moreover have "hist (vparents g) (side_of side ((ord, flag) # q)) =
        {a. ?s \<le> a \<and> covers side ?Q a} \<union> hist (vparents g) (side_of side q3)"
      unfolding all q3 hist_simps F by blast
    ultimately show ?thesis by auto
  qed
  have "a \<in> marks_of (ms @ [(?s, o2, f2)]) F \<longleftrightarrow> ?s \<le> a \<and>
      flag_of (covers in_a ?Q a) (covers in_b ?Q a) = Some F" for F a
  proof (cases "?s \<le> a")
    case True
    have "flag_of (covers in_a ?Q a) (covers in_b ?Q a) = Some F \<Longrightarrow> a \<le> ord"
      using desc(2) by (fastforce simp: flag_of_def covers_def split: if_splits)
    then show ?thesis using r1 q1(4) cov[OF _ True] True by auto
  next
    case False
    then show ?thesis using r1 q1(4) by auto
  qed
  note marks = this
  show ?thesis
  proof (intro exI[of _ "ms @ [(?s, o2, f2)]"] exI[of _ q3] exI[of _ ?s] conjI)
    show "diff_step g ord flag q ns = Some (ms @ [(?s, o2, f2)], q3, nshared q3)" by (rule step)
    show "?s \<le> ord" by (rule s)
    show "descending q3" using p1 by blast
    show "\<forall>x \<in> set q3. fst x < ?s \<and> in_graph g (fst x)" using below by blast
    show "\<forall>(st, l, f) \<in> set (ms @ [(?s, o2, f2)]). ?s \<le> st \<and> l \<le> ord" "marks_desc (ms @ [(?s, o2, f2)])"
      using r1 q1(4) by blast+
    show "\<forall>side \<in> {in_a, in_b}. \<forall>a. a \<in> hist (vparents g) (side_of side ((ord, flag) # q)) \<longleftrightarrow>
       (if ?s \<le> a then covers side ?Q a else a \<in> hist (vparents g) (side_of side q3))"
      using hist by blast
    show "\<forall>F a. a \<in> marks_of (ms @ [(?s, o2, f2)]) F \<longleftrightarrow> ?s \<le> a \<and>
       flag_of (covers in_a ?Q a) (covers in_b ?Q a) = Some F"
      using marks by blast
  qed
qed

lemma diff_loop_spec:
  assumes g: "graph_wf g"
  shows "descending q \<Longrightarrow> \<forall>x \<in> set q. fst x < n \<and> in_graph g (fst x) \<Longrightarrow>
    \<exists>ms. diff_loop g q (nshared q) = Some ms \<and> marks_desc ms \<and> (\<forall>(s, l, f) \<in> set ms. l < n) \<and>
      (\<forall>F \<in> {OnlyA, OnlyB}. \<forall>a. a \<in> marks_of ms F \<longleftrightarrow>
        flag_of (a \<in> hist (vparents g) (side_of in_a q)) (a \<in> hist (vparents g) (side_of in_b q)) = Some F)"
proof (induction n arbitrary: q rule: less_induct)
  case (less n)
  show ?case
  proof (cases q)
    case Nil
    then show ?thesis
      by (intro exI[of _ "[]"], subst diff_loop.simps) (simp add: side_of_def flag_of_def)
  next
    case (Cons x q0)
    obtain ord flag where x: "x = (ord, flag)" by (metis surj_pair)
    note q = Cons[unfolded x]
    have ok: "descending ((ord, flag) # q0)" "\<forall>x \<in> set ((ord, flag) # q0). in_graph g (fst x)" "ord < n"
      using less.prems unfolding q by auto
    obtain ms q' s where st: "diff_step g ord flag q0 (nshared q) = Some (ms, q', nshared q')" "s \<le> ord"
        "descending q'" "\<forall>x \<in> set q'. fst x < s \<and> in_graph g (fst x)"
        "\<forall>(st, l, f) \<in> set ms. s \<le> st \<and> l \<le> ord" "marks_desc ms"
        "\<And>side a. side \<in> {in_a, in_b} \<Longrightarrow> a \<in> hist (vparents g) (side_of side q) \<longleftrightarrow>
           (if s \<le> a then covers side (set q) a else a \<in> hist (vparents g) (side_of side q'))"
        "\<And>F a. a \<in> marks_of ms F \<longleftrightarrow> s \<le> a \<and>
           flag_of (covers in_a (set q) a) (covers in_b (set q) a) = Some F"
      using diff_step_spec[OF g ok(1,2) refl] unfolding q by blast
    have "s < n" using st(2) ok(3) by simp
    from less.IH[OF this st(3,4)] obtain rest where rest: "diff_loop g q' (nshared q') = Some rest"
        "marks_desc rest" "\<forall>(st, l, f) \<in> set rest. l < s"
        "\<forall>F \<in> {OnlyA, OnlyB}. \<forall>a. a \<in> marks_of rest F \<longleftrightarrow>
          flag_of (a \<in> hist (vparents g) (side_of in_a q')) (a \<in> hist (vparents g) (side_of in_b q')) = Some F"
      by blast
    define out where "out = (if length q' = nshared q' then [] else rest)"
    have loop: "diff_loop g q (nshared q) = Some (ms @ out)"
      unfolding out_def q by (subst diff_loop.simps) (simp add: st(1)[unfolded q] rest(1) del: nshared_simps)
    have below: "a \<in> marks_of out F \<longleftrightarrow> \<not> s \<le> a \<and>
        flag_of (a \<in> hist (vparents g) (side_of in_a q')) (a \<in> hist (vparents g) (side_of in_b q')) = Some F"
      if F: "F \<in> {OnlyA, OnlyB}" for F a
    proof (cases "length q' = nshared q'")
      case True
      then have "side_of in_a q' = side_of in_b q'"
        by (fastforce simp: side_of_def nshared_all in_a_def in_b_def)
      then show ?thesis using True F by (auto simp: out_def flag_of_def)
    next
      case False
      have "a \<notin> hist (vparents g) (side_of side q')" if "s \<le> a" for side
        using st(4) that gdag.anc_le[OF g] by (fastforce simp: hist_def side_of_def)
      then show ?thesis using False F rest(4) by (auto simp: out_def flag_of_def)
    qed
    have "\<forall>(st, l, f) \<in> set out. l < s" "marks_desc out" using rest by (auto simp: out_def)
    then have "marks_desc (ms @ out)" "\<forall>(s, l, f) \<in> set (ms @ out). l < n"
      using st(2,5,6) ok(3) by (fastforce simp: marks_desc_append)+
    moreover have "a \<in> marks_of (ms @ out) F \<longleftrightarrow>
        flag_of (a \<in> hist (vparents g) (side_of in_a q)) (a \<in> hist (vparents g) (side_of in_b q)) = Some F"
      if F: "F \<in> {OnlyA, OnlyB}" for F a
      using below[OF F] st(8)[of a F] st(7)[of in_a a] st(7)[of in_b a] by (cases "s \<le> a") simp_all
    ultimately show ?thesis using loop by blast
  qed
qed

subsection \<open>The result as runs\<close>

definition dt_set :: "dtrange list \<Rightarrow> lv set" where
  "dt_set xs = (\<Union>r \<in> set xs. {dt_start r ..< dt_end r})"

text \<open>Ascending, not empty, and apart: the canonical list of runs of a set.\<close>

definition run_form :: "dtrange list \<Rightarrow> bool" where
  "run_form xs \<longleftrightarrow> sorted_wrt (\<lambda>x y. dt_end x < dt_start y) xs \<and> (\<forall>x \<in> set xs. dt_start x < dt_end x)"

lemma dt_set_simps [simp]:
  "dt_set [] = {}" "dt_set (x # xs) = {dt_start x ..< dt_end x} \<union> dt_set xs"
  "dt_set (xs @ ys) = dt_set xs \<union> dt_set ys" "dt_set (rev xs) = dt_set xs"
  by (auto simp: dt_set_def)

lemma run_form_simps [simp]:
  "run_form []"
  "run_form (x # xs) \<longleftrightarrow> dt_start x < dt_end x \<and> (\<forall>y \<in> set xs. dt_end x < dt_start y) \<and> run_form xs"
  by (auto simp: run_form_def)

lemma push_run:
  assumes "run_form (rev xs)" "dt_start r < dt_end r" "\<forall>x \<in> set xs. dt_end r \<le> dt_start x"
  defines "ys \<equiv> fst (push_reversed_rle dtrange_can_append dtrange_prepend xs r)"
  shows "run_form (rev ys) \<and> dt_set ys = dt_set xs \<union> {dt_start r ..< dt_end r} \<and>
    (\<forall>y \<in> set ys. dt_start r \<le> dt_start y)"
proof (cases xs rule: rev_cases)
  case Nil
  then show ?thesis using assms by (simp add: push_reversed_rle_def)
next
  case (snoc zs z)
  then have z: "dt_start z < dt_end z" "\<forall>y \<in> set zs. dt_end z < dt_start y" "run_form (rev zs)"
    using assms(1) by auto
  show ?thesis
  proof (cases "dt_end r = dt_start z")
    case True
    then have ys: "ys = zs @ [\<lparr>dt_start = dt_start r, dt_end = dt_end z\<rparr>]"
      by (simp add: ys_def snoc push_reversed_rle_def span_defs)
    have "{dt_start r ..< dt_end z} = {dt_start z ..< dt_end z} \<union> {dt_start r ..< dt_end r}"
      using True assms(2) z(1) by auto
    moreover have "\<forall>y \<in> set zs. dt_start r \<le> dt_start y"
      using z(1,2) True assms(2) by fastforce
    ultimately show ?thesis
      using z True assms(2) by (auto simp: ys snoc)
  next
    case False
    then have ys: "ys = xs @ [r]" using snoc by (simp add: ys_def push_reversed_rle_def span_defs)
    have "\<forall>x \<in> set xs. dt_end r < dt_start x"
      using assms(3) False z(1,2) unfolding snoc by fastforce
    then show ?thesis
      using assms(1-3) by (auto simp: ys)
  qed
qed

lemma fold_marks:
  assumes "marks_desc ms" "run_form (rev A)" "run_form (rev B)"
    and "\<forall>x \<in> set A \<union> set B. \<forall>(s, l, f) \<in> set ms. l < dt_start x"
  shows "\<exists>A' B'. foldl diff_mark_run (A, B) ms = (A', B') \<and> run_form (rev A') \<and> run_form (rev B') \<and>
    dt_set A' = dt_set A \<union> marks_of ms OnlyA \<and> dt_set B' = dt_set B \<union> marks_of ms OnlyB"
  using assms
proof (induction ms arbitrary: A B)
  case (Cons m ms)
  obtain s l f where m: "m = (s, l, f)" by (metis surj_pair)
  have d: "f = Shared \<or> s \<le> l" "marks_desc ms" "\<forall>(s', l', f') \<in> set ms. l' < s"
    using Cons.prems(1) m by simp_all
  let ?r = "\<lparr>dt_start = s, dt_end = l + 1\<rparr>"
  have r: "dt_start ?r < dt_end ?r" if "f \<noteq> Shared" using d(1) that by auto
  have ab: "\<forall>x \<in> set A. dt_end ?r \<le> dt_start x" "\<forall>x \<in> set B. dt_end ?r \<le> dt_start x"
    using Cons.prems(4) m by (auto simp: Suc_le_eq)
  have rest: "\<forall>x \<in> set A \<union> set B. \<forall>(s, l, f) \<in> set ms. l < dt_start x" using Cons.prems(4) by simp
  have new: "\<forall>x \<in> X. \<forall>(s', l', f') \<in> set ms. l' < dt_start x" if "\<forall>x \<in> X. s \<le> dt_start x" for X
    using d(3) that by fastforce
  have iv: "{dt_start ?r ..< dt_end ?r} = {s..l}" by auto
  show ?case
  proof (cases f)
    case OnlyA
    define A2 where "A2 = fst (push_reversed_rle dtrange_can_append dtrange_prepend A ?r)"
    note p = push_run[OF Cons.prems(2) r ab(1), folded A2_def, unfolded iv]
    have "\<exists>A' B'. foldl diff_mark_run (A2, B) ms = (A', B') \<and> run_form (rev A') \<and> run_form (rev B') \<and>
        dt_set A' = dt_set A2 \<union> marks_of ms OnlyA \<and> dt_set B' = dt_set B \<union> marks_of ms OnlyB"
      using p OnlyA new[of "set A2"] rest by (intro Cons.IH[OF d(2) _ Cons.prems(3)]) auto
    moreover have "foldl diff_mark_run (A, B) (m # ms) = foldl diff_mark_run (A2, B) ms"
      by (simp add: m OnlyA A2_def)
    ultimately show ?thesis using p OnlyA by (auto simp: m Un_assoc)
  next
    case OnlyB
    define B2 where "B2 = fst (push_reversed_rle dtrange_can_append dtrange_prepend B ?r)"
    note p = push_run[OF Cons.prems(3) r ab(2), folded B2_def, unfolded iv]
    have "\<exists>A' B'. foldl diff_mark_run (A, B2) ms = (A', B') \<and> run_form (rev A') \<and> run_form (rev B') \<and>
        dt_set A' = dt_set A \<union> marks_of ms OnlyA \<and> dt_set B' = dt_set B2 \<union> marks_of ms OnlyB"
      using p OnlyB new[of "set B2"] rest by (intro Cons.IH[OF d(2) Cons.prems(2)]) auto
    moreover have "foldl diff_mark_run (A, B) (m # ms) = foldl diff_mark_run (A, B2) ms"
      by (simp add: m OnlyB B2_def)
    ultimately show ?thesis using p OnlyB by (auto simp: m Un_assoc)
  next
    case Shared
    then show ?thesis using Cons.IH[OF d(2) Cons.prems(2,3) rest] by (simp add: m)
  qed
qed auto

lemma side_of_start:
  "side_of in_a (heap_extend (map (\<lambda>v. (v, OnlyB)) b) (heap_extend (map (\<lambda>v. (v, OnlyA)) a) [])) = set a"
  "side_of in_b (heap_extend (map (\<lambda>v. (v, OnlyB)) b) (heap_extend (map (\<lambda>v. (v, OnlyA)) a) [])) = set b"
  by (auto simp: side_of_def in_a_def in_b_def)

lemma diff_slow_internal_spec:
  assumes g: "graph_wf g" and ab: "\<forall>v \<in> set a \<union> set b. in_graph g v"
  shows "\<exists>ms. diff_slow_internal g a b = Some ms \<and> marks_desc ms \<and>
    marks_of ms OnlyA = ghist g a - ghist g b \<and> marks_of ms OnlyB = ghist g b - ghist g a"
proof -
  let ?q = "heap_extend (map (\<lambda>v. (v, OnlyB)) b) (heap_extend (map (\<lambda>v. (v, OnlyA)) a) [])"
  have d: "descending ?q" by (intro heap_extend_descending) simp
  have "finite (fst ` set ?q)" by simp
  then obtain n where "\<forall>v \<in> fst ` set ?q. v < n" by (meson finite_nat_set_iff_bounded)
  then have i: "\<forall>x \<in> set ?q. fst x < n \<and> in_graph g (fst x)" using ab by auto
  have n: "nshared ?q = 0" by (auto simp: nshared_def filter_empty_conv)
  obtain ms where ms: "diff_loop g ?q 0 = Some ms" "marks_desc ms"
      "\<forall>F \<in> {OnlyA, OnlyB}. \<forall>v. v \<in> marks_of ms F \<longleftrightarrow> flag_of (v \<in> ghist g a) (v \<in> ghist g b) = Some F"
    using diff_loop_spec[OF g d i] unfolding n side_of_start by blast
  then show ?thesis
    by (intro exI[of _ ms]) (auto simp: diff_slow_internal_def flag_of_def split: if_splits)
qed

text \<open>\<open>diff\<close> returns the two differences, in canonical form.\<close>

lemma diff_spec:
  assumes g: "graph_wf g" and ab: "\<forall>v \<in> set a \<union> set b. in_graph g v"
  shows "\<exists>ra rb. diff g a b = Some (ra, rb) \<and> run_form ra \<and> run_form rb \<and>
    dt_set ra = ghist g a - ghist g b \<and> dt_set rb = ghist g b - ghist g a"
proof -
  obtain ms where ms: "diff_slow_internal g a b = Some ms" "marks_desc ms"
      "marks_of ms OnlyA = ghist g a - ghist g b" "marks_of ms OnlyB = ghist g b - ghist g a"
    using diff_slow_internal_spec[OF assms] by blast
  obtain A B where AB: "foldl diff_mark_run ([], []) ms = (A, B)" "run_form (rev A)" "run_form (rev B)"
      "dt_set A = ghist g a - ghist g b" "dt_set B = ghist g b - ghist g a"
    using fold_marks[OF ms(2), of "[]" "[]"] ms(3,4) by auto
  have slow: "diff_slow g a b = Some (A, B)" by (simp add: diff_slow_def ms AB)
  consider (eq) "a = b" | (one) x y where "a = [x]" "b = [y]" "x \<noteq> y"
    | (other) "a \<noteq> b" "\<not> (length a = 1 \<and> length b = 1)"
    by (cases a; cases b; fastforce)
  then show ?thesis
  proof cases
    case eq
    then show ?thesis by (simp add: diff_def diff_rev_def)
  next
    case other
    then show ?thesis using slow AB by (auto simp: diff_def diff_rev_def)
  next
    case one
    obtain r1 r2 where r: "is_direct_descendant_coarse g x y = Some r1" "is_direct_descendant_coarse g y x = Some r2"
        "r1 \<Longrightarrow> ganc g y x \<and> (\<forall>v. ganc g v x \<longleftrightarrow> y < v \<and> v \<le> x \<or> ganc g v y)"
        "r2 \<Longrightarrow> ganc g x y \<and> (\<forall>v. ganc g v y \<longleftrightarrow> x < v \<and> v \<le> y \<or> ganc g v x)"
      using is_direct_descendant_coarse_spec[OF g, of x y] is_direct_descendant_coarse_spec[OF g, of y x] ab one
      by auto
    have h: "ghist g a = {v. ganc g v x}" "ghist g b = {v. ganc g v y}" using one by simp_all
    have le: "ganc g v w \<Longrightarrow> v \<le> w" for v w by (rule gdag.anc_le[OF g])
    consider r1 | "\<not> r1" r2 | "\<not> r1" "\<not> r2" by blast
    then show ?thesis
    proof cases
      case 1
      have "y < x" using r(3)[OF 1] le[of y x] one(3) by simp
      have "ghist g a - ghist g b = {y + 1 ..< x + 1}" "ghist g b - ghist g a = {}"
        unfolding h using r(3)[OF 1] le by (auto simp: Suc_le_eq; fastforce)+
      then show ?thesis using one 1 r(1) \<open>y < x\<close> by (simp add: diff_def diff_rev_def)
    next
      case 2
      have "x < y" using r(4)[OF 2(2)] le[of x y] one(3) by simp
      have "ghist g b - ghist g a = {x + 1 ..< y + 1}" "ghist g a - ghist g b = {}"
        unfolding h using r(4)[OF 2(2)] le by (auto simp: Suc_le_eq; fastforce)+
      then show ?thesis using one 2 r(1,2) \<open>x < y\<close> by (simp add: diff_def diff_rev_def)
    next
      case 3
      then show ?thesis using one r(1,2) slow AB by (auto simp: diff_def diff_rev_def)
    qed
  qed
qed

end
