(* ===== verification/GraphDom.thy ===== *)
theory GraphDom
  imports GraphDiffFacts
begin

text \<open>
  Dominators (\<open>src/causalgraph/graph/tools.rs\<close>): which versions of a set are not in the history
  of another.  The queue holds numbers: an input \<open>v\<close> is \<open>2 v\<close>, a version met on the way is
  \<open>2 v + 1\<close>, so that it comes before an equal input.  \<open>visit\<close> is the list of its calls.
\<close>

definition enc_input :: "lv \<Rightarrow> nat" where
  "enc_input v = 2 * v"

definition enc_normal :: "lv \<Rightarrow> nat" where
  "enc_normal v = 2 * v + 1"

definition dec :: "nat \<Rightarrow> bool \<times> lv" where
  "dec v_enc = (v_enc mod 2 = 0, v_enc div 2)"

type_synonym visits = "(lv \<times> bool) list"

fun dom_in_run :: "lv \<Rightarrow> lv \<Rightarrow> nat \<Rightarrow> nat list \<Rightarrow> visits \<times> lv \<times> nat \<times> nat list" where
  "dom_in_run start last_emitted inputs_remaining [] = ([], last_emitted, inputs_remaining, [])"
| "dom_in_run start last_emitted inputs_remaining (v2_enc # queue) =
     (let (is_input2, v2) = dec v2_enc
      in if v2 < start then ([], last_emitted, inputs_remaining, v2_enc # queue)
         else if is_input2 then
           (if last_emitted \<noteq> v2
            then (let (vs, rest) = dom_in_run start v2 (inputs_remaining - 1) queue
                  in ((v2, False) # vs, rest))
            else dom_in_run start last_emitted (inputs_remaining - 1) queue)
         else dom_in_run start last_emitted inputs_remaining queue)"

text \<open>One round: the visits, and the state to continue with unless the loop breaks.\<close>

definition dom_step :: "graph \<Rightarrow> lv \<Rightarrow> nat \<Rightarrow> nat list \<Rightarrow> nat \<Rightarrow> lv
    \<Rightarrow> (visits \<times> (nat list \<times> nat \<times> lv) option) option" where
  "dom_step g stop_at_shadow v_enc queue inputs_remaining last_emitted =
     (let (is_input, v) = dec v_enc;
          vs = (if is_input then [(v, True)] else []);
          last_emitted = (if is_input then v else last_emitted);
          inputs_remaining = (if is_input then inputs_remaining - 1 else inputs_remaining)
      in case g_find_packed g v of
           None \<Rightarrow> None
         | Some e \<Rightarrow>
             if stop_at_shadow \<noteq> usize_max \<and> ge_shadow e \<le> stop_at_shadow then Some (vs, None)
             else
               (let (vs2, last_emitted, inputs_remaining, queue) =
                      dom_in_run (dt_start (ge_span e)) last_emitted inputs_remaining queue
                in if inputs_remaining = 0 then Some (vs @ vs2, None)
                   else Some (vs @ vs2,
                     Some (heap_extend (map enc_normal (ge_parents e)) queue, inputs_remaining, last_emitted))))"

partial_function (option) dom_loop :: "graph \<Rightarrow> lv \<Rightarrow> nat list \<Rightarrow> nat \<Rightarrow> lv \<Rightarrow> visits option" where
  [code]: "dom_loop g stop_at_shadow queue inputs_remaining last_emitted =
     (case heap_pop queue of
        None \<Rightarrow> Some []
      | Some (v_enc, queue) \<Rightarrow>
          Option.bind (dom_step g stop_at_shadow v_enc queue inputs_remaining last_emitted)
            (\<lambda>(vs, next).
               case next of
                 None \<Rightarrow> Some vs
               | Some (queue, inputs_remaining, last_emitted) \<Rightarrow>
                   Option.bind (dom_loop g stop_at_shadow queue inputs_remaining last_emitted)
                     (\<lambda>rest. Some (vs @ rest))))"

definition find_dominators_full_internal :: "graph \<Rightarrow> lv list \<Rightarrow> lv \<Rightarrow> visits option" where
  "find_dominators_full_internal g versions stop_at_shadow =
     (if length versions \<le> 1 then Some (map (\<lambda>v. (v, True)) versions)
      else if \<exists>v \<in> set versions. v \<ge> usize_max div 2 then None
      else
        (let queue = heap_extend (map enc_input versions) []
         in dom_loop g stop_at_shadow queue (length queue) usize_max))"

definition find_dominators_full :: "graph \<Rightarrow> lv list \<Rightarrow> visits option" where
  "find_dominators_full g versions = find_dominators_full_internal g versions usize_max"

definition dom_results :: "visits \<Rightarrow> lv list" where
  "dom_results vs = map fst (filter snd vs)"

definition find_dominators_wide_rev :: "graph \<Rightarrow> lv list \<Rightarrow> lv list option" where
  "find_dominators_wide_rev g versions =
     (if length versions \<le> 1 then Some versions
      else
        (let min_v = foldl min (versions ! 0) (drop 1 versions);
             max_v = foldl max (versions ! 0) (drop 1 versions)
         in case g_find_packed g max_v of
              None \<Rightarrow> None
            | Some last_entry \<Rightarrow>
                if ge_shadow last_entry \<le> min_v then Some [max_v]
                else map_option dom_results (find_dominators_full_internal g versions min_v)))"

definition find_dominators :: "graph \<Rightarrow> lv list \<Rightarrow> frontier option" where
  "find_dominators g versions = map_option rev (find_dominators_wide_rev g versions)"

definition find_dominators_2 :: "graph \<Rightarrow> lv list \<Rightarrow> lv list \<Rightarrow> frontier option" where
  "find_dominators_2 g v_1 v_2 =
     (if v_1 = [] then Some v_2
      else if v_2 = [] then Some v_1
      else if length v_1 = 1 \<and> length v_2 = 1 then
        (let a = v_1 ! 0; b = v_2 ! 0
         in case version_cmp g a b of
              None \<Rightarrow> None
            | Some None \<Rightarrow> Some (if a < b then [a, b] else [b, a])
            | Some (Some Greater) \<Rightarrow> Some [a]
            | Some (Some _) \<Rightarrow> Some [b])
      else
        (let first_v = min (v_1 ! 0) (v_2 ! 0)
         in map_option (\<lambda>vs. rev (dom_results vs))
              (find_dominators_full_internal g (v_1 @ v_2) first_v)))"

subsection \<open>Correctness\<close>

definition inputs_of :: "nat list \<Rightarrow> lv set" where
  "inputs_of q = {v. enc_input v \<in> set q}"

definition normals_of :: "nat list \<Rightarrow> lv set" where
  "normals_of q = {v. enc_normal v \<in> set q}"

definition ninputs :: "nat list \<Rightarrow> nat" where
  "ninputs q = length (filter even q)"

lemma ninputs_simps [simp]:
  "ninputs [] = 0" "ninputs (x # q) = (if even x then Suc (ninputs q) else ninputs q)"
  by (auto simp: ninputs_def)

lemma ninputs_push: "ninputs (heap_push x q) = (if even x then Suc (ninputs q) else ninputs q)"
  by (induction q) auto

lemma ninputs_extend_normal: "ninputs (heap_extend (map enc_normal ps) q) = ninputs q"
  by (induction ps arbitrary: q) (auto simp: ninputs_push enc_normal_def)

lemma ninputs_0: "ninputs q = 0 \<longleftrightarrow> inputs_of q = {}"
proof -
  have "(\<exists>x \<in> set q. even x) \<longleftrightarrow> (\<exists>v. enc_input v \<in> set q)"
    unfolding enc_input_def by (metis dvd_triv_left evenE)
  then show ?thesis by (auto simp: ninputs_def inputs_of_def filter_empty_conv)
qed

lemma enc_cases:
  obtains v where "x = enc_input v" | v where "x = enc_normal v"
  by (metis enc_input_def enc_normal_def evenE oddE)

lemma dec_enc [simp]: "dec (enc_input v) = (True, v)" "dec (enc_normal v) = (False, v)"
  by (auto simp: dec_def enc_input_def enc_normal_def)

lemma enc_facts [simp]:
  "enc_input v = enc_input w \<longleftrightarrow> v = w" "enc_normal v = enc_normal w \<longleftrightarrow> v = w"
  "enc_input v \<noteq> enc_normal w" "enc_normal v \<noteq> enc_input w"
  "even (enc_input v)" "odd (enc_normal v)"
  "enc_input v div 2 = v" "enc_normal v div 2 = v"
  "enc_input v \<le> enc_input w \<longleftrightarrow> v \<le> w" "enc_normal v \<le> enc_input w \<longleftrightarrow> v < w"
  "enc_input v \<le> enc_normal w \<longleftrightarrow> v \<le> w" "enc_normal v \<le> enc_normal w \<longleftrightarrow> v \<le> w"
  unfolding enc_input_def enc_normal_def by (auto; presburger)+

lemma io_simps [simp]:
  "inputs_of [] = {}" "inputs_of (enc_input v # q) = insert v (inputs_of q)"
  "inputs_of (enc_normal v # q) = inputs_of q"
  "normals_of [] = {}" "normals_of (enc_input v # q) = normals_of q"
  "normals_of (enc_normal v # q) = insert v (normals_of q)"
  by (auto simp: inputs_of_def normals_of_def)

lemma io_filter:
  "inputs_of (filter (\<lambda>x. x div 2 < s) q) = {v \<in> inputs_of q. v < s}"
  "normals_of (filter (\<lambda>x. x div 2 < s) q) = {v \<in> normals_of q. v < s}"
  by (auto simp: inputs_of_def normals_of_def)

lemma io_extend:
  "inputs_of (heap_extend (map enc_normal ps) q) = inputs_of q"
  "normals_of (heap_extend (map enc_normal ps) q) = set ps \<union> normals_of q"
  by (auto simp: inputs_of_def normals_of_def)

lemma io_div2: "x \<in> set q \<Longrightarrow> x div 2 \<in> inputs_of q \<union> normals_of q"
  by (cases x rule: enc_cases) (auto simp: inputs_of_def normals_of_def)

definition visits_desc :: "visits \<Rightarrow> bool" where
  "visits_desc vs \<longleftrightarrow> sorted_wrt (\<lambda>x y. fst y < fst x) vs"

lemma visits_desc_simps [simp]:
  "visits_desc []" "visits_desc (x # vs) \<longleftrightarrow> (\<forall>y \<in> set vs. fst y < fst x) \<and> visits_desc vs"
  "visits_desc (vs @ ws) \<longleftrightarrow> visits_desc vs \<and> visits_desc ws \<and> (\<forall>x \<in> set vs. \<forall>y \<in> set ws. fst y < fst x)"
  by (auto simp: visits_desc_def sorted_wrt_append)

lemma dom_in_run_spec:
  assumes "descending q" "n = ninputs q" "last_e \<notin> inputs_of q \<or> (\<forall>v \<in> inputs_of q. v \<le> last_e)"
    and "dom_in_run s last_e n q = (vs, last', n', q')"
  shows "q' = filter (\<lambda>x. x div 2 < s) q \<and> n' = ninputs q' \<and> visits_desc vs \<and>
    set vs = (\<lambda>v. (v, False)) ` {v \<in> inputs_of q. s \<le> v \<and> v \<noteq> last_e} \<and> (last' = last_e \<or> s \<le> last')"
  using assms
proof (induction s last_e n q arbitrary: vs rule: dom_in_run.induct)
  case (2 s last_e n x q)
  have le: "\<forall>v \<in> inputs_of q. enc_input v \<le> x" "\<forall>v \<in> normals_of q. enc_normal v \<le> x" "descending q"
    using "2.prems"(1) by (auto simp: inputs_of_def normals_of_def)
  show ?case
  proof (cases "x div 2 < s")
    case True
    have "\<forall>y \<in> set (x # q). y div 2 < s" using "2.prems"(1) True div_le_mono le_less_trans by auto
    then have "filter (\<lambda>x. x div 2 < s) (x # q) = x # q" "\<forall>v \<in> inputs_of (x # q). v < s"
      by (auto simp: filter_id_conv inputs_of_def dest: bspec[of _ _ "enc_input _"])
    then show ?thesis using "2.prems" True by (auto simp: dec_def)
  next
    case ge: False
    show ?thesis
    proof (cases x rule: enc_cases)
      case (2 v)
      then have "dom_in_run s last_e n q = (vs, last', n', q')" using "2.prems"(4) ge by simp
      from "2.IH"(3)[OF refl _ _ _ le(3) _ _ this] "2.prems"(2,3) ge 2 show ?thesis by simp
    next
      case (1 v)
      show ?thesis
      proof (cases "v = last_e")
        case True
        have "dom_in_run s last_e (n - 1) q = (vs, last', n', q')" using "2.prems"(4) ge 1 True by simp
        then have "q' = filter (\<lambda>x. x div 2 < s) q \<and> n' = ninputs q' \<and> visits_desc vs \<and>
            set vs = (\<lambda>v. (v, False)) ` {w \<in> inputs_of q. s \<le> w \<and> w \<noteq> last_e} \<and> (last' = last_e \<or> s \<le> last')"
          by (intro "2.IH"(2)[OF refl _ _ _ _ le(3)]) (use "2.prems"(2) ge 1 True le(1) in auto)
        moreover have "{w \<in> inputs_of (x # q). s \<le> w \<and> w \<noteq> last_e} = {w \<in> inputs_of q. s \<le> w \<and> w \<noteq> last_e}"
          using 1 True by auto
        ultimately show ?thesis using ge 1 by simp
      next
        case False
        obtain vs2 where r: "dom_in_run s v (n - 1) q = (vs2, last', n', q')" "vs = (v, False) # vs2"
          using "2.prems"(4) ge 1 False by (auto split: prod.splits)
        have top: "\<forall>w \<in> inputs_of q. w \<le> v" using le(1) 1 by simp
        have "last_e \<notin> inputs_of q" using "2.prems"(3) 1 False top by fastforce
        then have "{w \<in> inputs_of (x # q). s \<le> w \<and> w \<noteq> last_e} = insert v {w \<in> inputs_of q. s \<le> w \<and> w \<noteq> v}"
          using 1 False ge by auto
        moreover have "q' = filter (\<lambda>x. x div 2 < s) q \<and> n' = ninputs q' \<and> visits_desc vs2 \<and>
            set vs2 = (\<lambda>v. (v, False)) ` {w \<in> inputs_of q. s \<le> w \<and> w \<noteq> v} \<and> (last' = v \<or> s \<le> last')"
          by (rule "2.IH"(1)[OF refl _ _ _ _ le(3) _ _ r(1)]) (use "2.prems"(2) top ge 1 False in auto)
        moreover have "\<forall>y \<in> set vs2. fst y < v"
          using calculation(2) top by (auto simp: le_less)
        ultimately show ?thesis using ge 1 by (simp add: r(2)) blast
      qed
    qed
  qed
qed auto

text \<open>The inputs that no other input and no version met on the way contains.\<close>

definition dom_set :: "graph \<Rightarrow> lv set \<Rightarrow> lv set \<Rightarrow> lv set" where
  "dom_set g I N = {v \<in> I. v \<notin> hist (vparents g) N \<and> (\<forall>w \<in> I. w \<noteq> v \<longrightarrow> \<not> ganc g v w)}"

lemma dom_set_empty [simp]: "dom_set g {} N = {}"
  by (simp add: dom_set_def)

lemma dom_set_no_normals: "dom_set g I {} = dominators (vparents g) I"
  by (simp add: dom_set_def dominators_def)

definition seen :: "visits \<Rightarrow> bool \<Rightarrow> lv set" where
  "seen vs b = {v. (v, b) \<in> set vs}"

lemma seen_simps [simp]:
  "seen [] b = {}" "seen ((v, c) # vs) b = (if b = c then insert v (seen vs b) else seen vs b)"
  "seen (vs @ ws) b = seen vs b \<union> seen ws b"
  by (auto simp: seen_def)

text \<open>What is left of the dominators below a run, after replacing the run by its parents.\<close>

lemma dom_set_below:
  assumes g: "graph_wf g" and e: "g_find g v = Some e" and v: "v \<in> I \<union> N" and top: "\<forall>w \<in> I \<union> N. w \<le> v"
  defines "s \<equiv> ge_key e"
  shows "dom_set g {w \<in> I. w < s} (set (ge_parents e) \<union> {w \<in> N. w < s}) = {w \<in> dom_set g I N. w < s}"
proof -
  have s: "s \<le> v" using gdag.run_start[OF g find_run[OF e]] by (simp add: s_def)
  have run: "ganc g w u \<longleftrightarrow> (\<exists>p \<in> set (ge_parents e). ganc g w p)" if "w < s" "s \<le> u" "u \<in> I \<union> N" for w u
  proof -
    have "g_find g u = Some e" using in_graph_start[OF g e] top that by (simp add: s_def)
    from ganc_below_run[OF g this] that(1) show ?thesis by (simp add: s_def)
  qed
  have "(w \<in> hist (vparents g) (set (ge_parents e) \<union> {w \<in> N. w < s}) \<or>
      (\<exists>u \<in> {w \<in> I. w < s}. u \<noteq> w \<and> ganc g w u)) \<longleftrightarrow>
      (w \<in> hist (vparents g) N \<or> (\<exists>u \<in> I. u \<noteq> w \<and> ganc g w u))" if w: "w < s" for w
  proof -
    have 1: "w \<in> hist (vparents g) N \<longleftrightarrow> (\<exists>u \<in> N. u < s \<and> ganc g w u) \<or> (\<exists>u \<in> N. s \<le> u \<and> ganc g w u)"
      unfolding hist_def by (auto simp: not_less[symmetric])
    have 2: "(\<exists>u \<in> I. u \<noteq> w \<and> ganc g w u) \<longleftrightarrow>
        (\<exists>u \<in> I. u < s \<and> u \<noteq> w \<and> ganc g w u) \<or> (\<exists>u \<in> I. s \<le> u \<and> ganc g w u)"
      using w by (auto simp: not_less[symmetric])
    have 3: "(\<exists>u \<in> N. s \<le> u \<and> ganc g w u) \<or> (\<exists>u \<in> I. s \<le> u \<and> ganc g w u) \<longleftrightarrow>
        (\<exists>p \<in> set (ge_parents e). ganc g w p)"
      using run[OF w] s v by blast
    show ?thesis unfolding 1 2 hist_simps Un_iff using 3 by (auto simp: hist_def)
  qed
  then show ?thesis unfolding dom_set_def by blast
qed

lemma dom_step_spec:
  assumes g: "graph_wf g" and q: "descending (x # q)" "\<forall>y \<in> set (x # q). in_graph g (y div 2)"
    and n: "n = ninputs (x # q)" and last: "last_e \<notin> inputs_of (x # q)"
    and stop: "stop = usize_max \<or> (\<forall>v \<in> inputs_of (x # q). stop \<le> v)"
  defines "I \<equiv> inputs_of (x # q)" and "N \<equiv> normals_of (x # q)"
  shows "\<exists>vs nx s. dom_step g stop x q n last_e = Some (vs, nx) \<and> visits_desc vs \<and> s \<le> x div 2 \<and>
    (\<forall>y \<in> set vs. s \<le> fst y \<and> fst y \<le> x div 2) \<and>
    (case nx of
       None \<Rightarrow> seen vs True = dom_set g I N \<and> seen vs False \<subseteq> I - dom_set g I N \<and>
         (stop = usize_max \<longrightarrow> seen vs False = I - dom_set g I N)
     | Some (q', n', last') \<Rightarrow>
         descending q' \<and> (\<forall>y \<in> set q'. y div 2 < s \<and> in_graph g (y div 2)) \<and> n' = ninputs q' \<and>
         last' \<notin> inputs_of q' \<and> inputs_of q' = {v \<in> I. v < s} \<and>
         seen vs True = {v \<in> dom_set g I N. s \<le> v} \<and> seen vs False = {v \<in> I - dom_set g I N. s \<le> v} \<and>
         dom_set g (inputs_of q') (normals_of q') = {v \<in> dom_set g I N. v < s})"
proof -
  obtain b v where x: "dec x = (b, v)" "x div 2 = v" "even x = b"
    and I: "I = (if b then insert v (inputs_of q) else inputs_of q)"
    and N: "N = (if b then normals_of q else insert v (normals_of q))"
    by (cases x rule: enc_cases) (auto simp: I_def N_def)
  obtain e where e: "g_find g v = Some e" using q(2) x(2) by (auto simp: in_graph_def)
  have top: "\<forall>w \<in> I \<union> N. w \<le> v" "b \<longrightarrow> (\<forall>w \<in> N. w < v)"
    using q(1) by (cases x rule: enc_cases; use x in \<open>auto simp: I_def N_def inputs_of_def normals_of_def\<close>)+
  have ig: "in_graph g w" if "w \<in> I \<union> N" for w
  proof -
    have "enc_input w \<in> set (x # q) \<or> enc_normal w \<in> set (x # q)"
      using that by (auto simp: I_def N_def inputs_of_def normals_of_def)
    then show ?thesis using q(2) by (metis enc_facts(7,8))
  qed
  have top_dom: "v \<in> dom_set g I N" if b
  proof -
    have "v \<in> I" using that I by simp
    moreover have "\<not> ganc g v w" if "w \<in> N" for w
      using top(2) \<open>b\<close> that gdag.anc_le[OF g, of v w] by fastforce
    moreover have "\<not> ganc g v w" if "w \<in> I" "w \<noteq> v" for w
      using top(1) that gdag.anc_le[OF g, of v w] by (meson UnI1 order_antisym)
    ultimately show ?thesis unfolding dom_set_def hist_def by blast
  qed
  have not_dom: "w \<notin> dom_set g I N" if "ganc g w v" "\<not> (b \<and> w = v)" for w
    using that I N unfolding dom_set_def hist_def by (cases b) auto
  let ?s = "ge_key e" and ?vs = "if b then [(v, True)] else []"
  have s: "?s \<le> v" using gdag.run_start[OF g find_run[OF e]] by simp
  let ?last = "if b then v else last_e" and ?n = "if b then n - 1 else n"
  have n1: "?n = ninputs q" using n x(3) by simp
  show ?thesis
  proof (cases "stop \<noteq> usize_max \<and> ge_shadow e \<le> stop")
    case True
    have "ganc g w v" if "w \<in> I" for w
    proof (rule ganc_shadow[OF g e])
      have "stop \<le> w" using stop True that by (auto simp: I_def)
      then show "ge_shadow e \<le> w" using True by simp
    qed (use top ig that in auto)
    then have "dom_set g I N = (if b then {v} else {})"
      using not_dom top_dom by (auto simp: dom_set_def)
    then show ?thesis
      using True x e s
      by (intro exI[of _ ?vs] exI[of _ None] exI[of _ v]) (auto simp: dom_step_def find_packed_def)
  next
    case False
    obtain vs2 l2 n2 q2 where r: "dom_in_run ?s ?last ?n q = (vs2, l2, n2, q2)" by (metis surj_pair)
    have l0: "b \<or> last_e \<notin> inputs_of q" using last I unfolding I_def by auto
    have "descending q" "?last \<notin> inputs_of q \<or> (\<forall>v \<in> inputs_of q. v \<le> ?last)"
      using q(1) l0 top I by auto
    note rs = dom_in_run_spec[OF this(1) n1 this(2) r]
    let ?all = "?vs @ vs2"
    have vs2: "set vs2 = (\<lambda>w. (w, False)) ` {w \<in> I. ?s \<le> w \<and> \<not> (b \<and> w = v)}"
      using rs I l0 by (auto simp: image_iff)
    have dom_s: "w \<in> dom_set g I N \<longleftrightarrow> b \<and> w = v" if "w \<in> I" "?s \<le> w" for w
      using not_dom[of w] top_dom ganc_in_run[OF g e that(2)] top that by blast
    have seenT: "seen ?all True = {w \<in> dom_set g I N. ?s \<le> w}"
      using dom_s vs2 s top_dom by (auto simp: seen_def dom_set_def)
    have seenF: "seen ?all False = {w \<in> I - dom_set g I N. ?s \<le> w}"
      using dom_s vs2 by (auto simp: seen_def)
    have y: "?s \<le> fst y \<and> fst y \<le> v \<and> (b \<longrightarrow> fst y < v)" if y: "y \<in> set vs2" for y
    proof -
      obtain w where w: "y = (w, False)" "w \<in> I" "?s \<le> w" "\<not> (b \<and> w = v)"
        using y unfolding vs2 by auto
      moreover have "w \<le> v" using top(1) w(2) by blast
      ultimately show ?thesis by auto
    qed
    have "visits_desc vs2" using rs by blast
    then have desc: "visits_desc ?all" using y by simp
    have desc2: "\<forall>y \<in> set ?all. ?s \<le> fst y \<and> fst y \<le> v" using y s by auto
    have q2: "inputs_of q2 = {w \<in> I. w < ?s}" "normals_of q2 = {w \<in> N. w < ?s}"
      using rs io_filter[of ?s q] I N s by auto
    have below: "dom_set g (inputs_of q2) (set (ge_parents e) \<union> normals_of q2) = {w \<in> dom_set g I N. w < ?s}"
      unfolding q2 using top(1) I N by (intro dom_set_below[OF g e]) auto
    show ?thesis
    proof (cases "n2 = 0")
      case True
      have step: "dom_step g stop x q n last_e = Some (?all, None)"
        using False x e r True by (auto simp: dom_step_def find_packed_def ge_key_def)
      have "\<forall>w \<in> I. ?s \<le> w" using True rs ninputs_0[of q2] q2(1) by fastforce
      then have "seen ?all True = dom_set g I N" "seen ?all False = I - dom_set g I N"
        unfolding seenT seenF by (auto simp: dom_set_def)
      then show ?thesis using step desc desc2 s x(2)
        by (intro exI[of _ ?all] exI[of _ None] exI[of _ ?s]) simp
    next
      case ne: False
      let ?q = "heap_extend (map enc_normal (ge_parents e)) q2"
      have step: "dom_step g stop x q n last_e = Some (?all, Some (?q, n2, l2))"
        using False x e r ne by (auto simp: dom_step_def find_packed_def ge_key_def)
      have d2: "descending ?q"
        using rs \<open>descending q\<close> by (intro heap_extend_descending) (simp add: descending_def sorted_wrt_filter)
      have el: "y div 2 < ?s \<and> in_graph g (y div 2)" if y: "y \<in> set ?q" for y
      proof -
        consider p where "p \<in> set (ge_parents e)" "y = enc_normal p" | "y \<in> set q2" using y by auto
        then show ?thesis
        proof cases
          case 1 then show ?thesis using entry_parents_less[OF g e] by simp
        next
          case 2 then show ?thesis using rs q(2) by simp
        qed
      qed
      have "l2 \<notin> inputs_of ?q"
        using rs q2(1) s last I unfolding io_extend I_def by (auto split: if_splits)
      moreover have "n2 = ninputs ?q" using rs by (simp only: ninputs_extend_normal)
      moreover have "inputs_of ?q = {w \<in> I. w < ?s}" unfolding io_extend by (rule q2(1))
      moreover have "dom_set g (inputs_of ?q) (normals_of ?q) = {w \<in> dom_set g I N. w < ?s}"
        unfolding io_extend by (rule below)
      ultimately show ?thesis
        using step desc desc2 s d2 el seenT seenF
        by (intro exI[of _ ?all] exI[of _ "Some (?q, n2, l2)"] exI[of _ ?s])
          (simp only: option.case prod.case x(2) simp_thms, blast)
    qed
  qed
qed

lemma dom_loop_spec:
  assumes g: "graph_wf g"
  shows "descending q \<Longrightarrow> \<forall>y \<in> set q. y div 2 < n \<and> in_graph g (y div 2) \<Longrightarrow> last_e \<notin> inputs_of q \<Longrightarrow>
    stop = usize_max \<or> (\<forall>v \<in> inputs_of q. stop \<le> v) \<Longrightarrow>
    \<exists>vs. dom_loop g stop q (ninputs q) last_e = Some vs \<and> visits_desc vs \<and> (\<forall>y \<in> set vs. fst y < n) \<and>
      seen vs True = dom_set g (inputs_of q) (normals_of q) \<and>
      seen vs False \<subseteq> inputs_of q - dom_set g (inputs_of q) (normals_of q) \<and>
      (stop = usize_max \<longrightarrow> seen vs False = inputs_of q - dom_set g (inputs_of q) (normals_of q))"
proof (induction n arbitrary: q last_e rule: less_induct)
  case (less n)
  show ?case
  proof (cases q)
    case Nil
    then show ?thesis by (intro exI[of _ "[]"], subst dom_loop.simps) simp
  next
    case (Cons x q0)
    note q = Cons
    let ?I = "inputs_of q" and ?N = "normals_of q"
    have ok: "descending (x # q0)" "\<forall>y \<in> set (x # q0). in_graph g (y div 2)" "x div 2 < n"
      using less.prems(1,2) unfolding q by auto
    obtain vs nx s where st: "dom_step g stop x q0 (ninputs q) last_e = Some (vs, nx)" "visits_desc vs" "s \<le> x div 2"
        "\<forall>y \<in> set vs. s \<le> fst y \<and> fst y \<le> x div 2"
        "case nx of
           None \<Rightarrow> seen vs True = dom_set g ?I ?N \<and> seen vs False \<subseteq> ?I - dom_set g ?I ?N \<and>
             (stop = usize_max \<longrightarrow> seen vs False = ?I - dom_set g ?I ?N)
         | Some (q', n', last') \<Rightarrow>
             descending q' \<and> (\<forall>y \<in> set q'. y div 2 < s \<and> in_graph g (y div 2)) \<and> n' = ninputs q' \<and>
             last' \<notin> inputs_of q' \<and> inputs_of q' = {v \<in> ?I. v < s} \<and>
             seen vs True = {v \<in> dom_set g ?I ?N. s \<le> v} \<and> seen vs False = {v \<in> ?I - dom_set g ?I ?N. s \<le> v} \<and>
             dom_set g (inputs_of q') (normals_of q') = {v \<in> dom_set g ?I ?N. v < s}"
      using dom_step_spec[OF g ok(1,2) refl] less.prems(3,4) unfolding q by blast
    have vn: "\<forall>y \<in> set vs. fst y < n" using st(4) ok(3) by (meson le_less_trans)
    show ?thesis
    proof (cases nx)
      case None
      then have "dom_loop g stop q (ninputs q) last_e = Some vs"
        unfolding q by (subst dom_loop.simps) (simp add: st(1)[unfolded q] del: ninputs_simps)
      then show ?thesis using st(2,5) vn None by auto
    next
      case (Some r)
      obtain q' n' last' where r: "r = (q', n', last')" by (metis surj_pair)
      note k = st(5)[unfolded Some r option.case prod.case]
      let ?D = "dom_set g ?I ?N"
      have "s < n" using st(3) ok(3) by simp
      moreover have "stop = usize_max \<or> (\<forall>v \<in> inputs_of q'. stop \<le> v)" using less.prems(4) k by auto
      ultimately obtain rest where rest: "dom_loop g stop q' (ninputs q') last' = Some rest" "visits_desc rest"
          "\<forall>y \<in> set rest. fst y < s" "seen rest True = {v \<in> ?D. v < s}"
          "seen rest False \<subseteq> {v \<in> ?I. v < s} - {v \<in> ?D. v < s}"
          "stop = usize_max \<longrightarrow> seen rest False = {v \<in> ?I. v < s} - {v \<in> ?D. v < s}"
        using less.IH[of s q' last'] k by auto
      have loop: "dom_loop g stop q (ninputs q) last_e = Some (vs @ rest)"
        unfolding q using rest(1) k
        by (subst dom_loop.simps) (simp add: st(1)[unfolded q] Some r del: ninputs_simps)
      have d: "?D \<subseteq> ?I" by (auto simp: dom_set_def)
      have "visits_desc (vs @ rest)" using st(2,4) rest(2,3) by (auto intro: less_le_trans)
      moreover have "\<forall>y \<in> set (vs @ rest). fst y < n"
        using vn rest(3) \<open>s < n\<close> by (auto intro: less_trans)
      moreover have "seen (vs @ rest) True = ?D" using k rest(4) by (auto simp: not_le)
      moreover have "seen (vs @ rest) False \<subseteq> ?I - ?D" using k rest(5) d by auto
      moreover have "stop = usize_max \<longrightarrow> seen (vs @ rest) False = ?I - ?D"
        using k rest(6) d by (auto simp: not_le)
      ultimately show ?thesis using loop by blast
    qed
  qed
qed

lemma inputs_start: "inputs_of (heap_extend (map enc_input vs) []) = set vs"
  "normals_of (heap_extend (map enc_input vs) []) = {}"
  by (auto simp: inputs_of_def normals_of_def)

lemma ninputs_start: "ninputs (heap_extend (map enc_input vs) []) = length (heap_extend (map enc_input vs) [])"
  by (auto simp: ninputs_def intro!: arg_cong[of _ _ length] filter_True)

lemma find_dominators_full_internal_spec:
  assumes g: "graph_wf g" and vs: "\<forall>v \<in> set versions. in_graph g v \<and> v < usize_max div 2"
    and stop: "stop = usize_max \<or> (\<forall>v \<in> set versions. stop \<le> v)"
  shows "\<exists>out. find_dominators_full_internal g versions stop = Some out \<and> visits_desc out \<and>
    seen out True = dominators (vparents g) (set versions) \<and>
    seen out False \<subseteq> set versions - dominators (vparents g) (set versions) \<and>
    (stop = usize_max \<longrightarrow> seen out False = set versions - dominators (vparents g) (set versions))"
proof (cases "length versions \<le> 1")
  case True
  then consider "versions = []" | v where "versions = [v]" by (cases versions) auto
  then show ?thesis
    by cases (auto simp: find_dominators_full_internal_def dominators_def)
next
  case False
  let ?q = "heap_extend (map enc_input versions) []"
  have big: "v < usize_max" if "v \<in> set versions" for v
    using vs that by (auto simp: usize_max_def)
  have l: "usize_max \<notin> inputs_of ?q" unfolding inputs_start using big by auto
  have "\<forall>y \<in> set ?q. y div 2 < usize_max \<and> in_graph g (y div 2)" using vs big by auto
  from dom_loop_spec[OF g heap_extend_descending this l, of stop]
  show ?thesis
    using False vs stop
    unfolding inputs_start ninputs_start dom_set_no_normals
    by (auto simp: find_dominators_full_internal_def not_le[symmetric])
qed

lemma dom_results_sorted:
  assumes "visits_desc vs"
  shows "sorted_wrt (<) (rev (dom_results vs))" "set (dom_results vs) = seen vs True"
proof -
  have "sorted_wrt (\<lambda>x y. fst y < fst x) (filter snd vs)"
    using assms by (simp add: visits_desc_def sorted_wrt_filter)
  then show "sorted_wrt (<) (rev (dom_results vs))"
    by (simp add: dom_results_def sorted_wrt_rev sorted_wrt_map)
  show "set (dom_results vs) = seen vs True"
    by (force simp: dom_results_def seen_def)
qed

lemma foldl_min_max:
  "foldl min (m :: nat) xs = Min (set (m # xs))" "foldl max m xs = Max (set (m # xs))"
proof -
  have "foldl min m xs = fold min xs m" "foldl max m xs = fold max xs m"
    by (induction xs arbitrary: m) (simp_all add: min.commute max.commute)
  then show "foldl min m xs = Min (set (m # xs))" "foldl max m xs = Max (set (m # xs))"
    by (simp_all only: Min.set_eq_fold Max.set_eq_fold)
qed

lemma sorted_list_unique:
  "sorted_wrt (<) xs \<Longrightarrow> set xs = S \<Longrightarrow> sorted_list_of_set S = (xs :: nat list)"
  using sorted_list_of_set.idem_if_sorted_distinct strict_sorted_iff by blast

text \<open>\<open>find_dominators\<close> returns the sorted list of dominators, whatever the order of its input.\<close>

lemma find_dominators_spec:
  assumes g: "graph_wf g" and vs: "\<forall>v \<in> set versions. in_graph g v \<and> v < usize_max div 2"
  shows "find_dominators g versions = Some (sorted_list_of_set (dominators (vparents g) (set versions)))"
proof (cases "length versions \<le> 1")
  case True
  then consider "versions = []" | v where "versions = [v]" by (cases versions) auto
  then show ?thesis
    by cases (auto simp: find_dominators_def find_dominators_wide_rev_def)
next
  case False
  let ?min = "Min (set versions)" and ?max = "Max (set versions)"
  have ne: "versions \<noteq> []" using False by auto
  then have hd: "versions ! 0 # drop 1 versions = versions" by (cases versions) auto
  have mm: "\<forall>v \<in> set versions. ?min \<le> v \<and> v \<le> ?max" "?max \<in> set versions" "?min \<in> set versions"
    using ne by auto
  obtain e where e: "g_find g ?max = Some e" using vs mm(2) by (auto simp: in_graph_def)
  have step: "find_dominators_wide_rev g versions = (if ge_shadow e \<le> ?min then Some [?max]
      else map_option dom_results (find_dominators_full_internal g versions ?min))"
    using False e by (simp add: find_dominators_wide_rev_def foldl_min_max hd Let_def find_packed_def del: One_nat_def)
  show ?thesis
  proof (cases "ge_shadow e \<le> ?min")
    case True
    have below: "ganc g v ?max" if "v \<in> set versions" for v
    proof (rule ganc_shadow[OF g e])
      have "?min \<le> v" using mm(1) that by blast
      then show "ge_shadow e \<le> v" using True by (rule order_trans[rotated])
    qed (use mm(1) vs that in auto)
    have "dominators (vparents g) (set versions) = {?max}"
    proof
      show "dominators (vparents g) (set versions) \<subseteq> {?max}"
        using below mm(2) unfolding dominators_def by auto
      have "\<not> ganc g ?max w" if "w \<in> set versions" "w \<noteq> ?max" for w
        using below[OF that(1)] gdag.anc_antisym[OF g, of w ?max] that(2) by blast
      then show "{?max} \<subseteq> dominators (vparents g) (set versions)"
        using mm(2) unfolding dominators_def by blast
    qed
    then show ?thesis using step True by (simp add: find_dominators_def)
  next
    case False
    obtain out where out: "find_dominators_full_internal g versions ?min = Some out" "visits_desc out"
        "seen out True = dominators (vparents g) (set versions)"
      using find_dominators_full_internal_spec[OF g vs, of ?min] mm(1) by blast
    show ?thesis
      using step False out(1) sorted_list_unique[OF dom_results_sorted(1)[OF out(2)]]
        dom_results_sorted(2)[OF out(2)] out(3)
      by (simp add: find_dominators_def)
  qed
qed

lemma sorted_hd_le: "sorted_wrt (<) vs \<Longrightarrow> v \<in> set vs \<Longrightarrow> vs ! 0 \<le> (v :: nat)"
  by (cases vs) auto

lemma find_dominators_2_spec:
  assumes g: "graph_wf g" and vs: "\<forall>v \<in> set v1 \<union> set v2. in_graph g v \<and> v < usize_max div 2"
    and v1: "sorted_wrt (<) v1" "dominators (vparents g) (set v1) = set v1"
    and v2: "sorted_wrt (<) v2" "dominators (vparents g) (set v2) = set v2"
  shows "find_dominators_2 g v1 v2 =
    Some (sorted_list_of_set (dominators (vparents g) (set v1 \<union> set v2)))"
proof -
  consider (l) "v1 = []" | (r) "v1 \<noteq> []" "v2 = []" | (one) a b where "v1 = [a]" "v2 = [b]"
    | (many) "v1 \<noteq> []" "v2 \<noteq> []" "\<not> (length v1 = 1 \<and> length v2 = 1)"
    by (cases v1; cases v2; fastforce)
  then show ?thesis
  proof cases
    case l
    then show ?thesis using sorted_list_unique[OF v2(1)] v2(2) by (simp add: find_dominators_2_def)
  next
    case r
    then show ?thesis using sorted_list_unique[OF v1(1)] v1(2) by (simp add: find_dominators_2_def)
  next
    case one
    have c: "version_cmp g a b = Some
        (if a = b then Some Equal else if ganc g a b then Some Less
         else if ganc g b a then Some Greater else None)"
      using version_cmp_spec[OF g, of a b] vs one by simp
    consider "a = b" | "a \<noteq> b" "ganc g a b" | "a \<noteq> b" "ganc g b a" "\<not> ganc g a b"
      | "a \<noteq> b" "\<not> ganc g a b" "\<not> ganc g b a" by blast
    then show ?thesis
    proof cases
      case 1
      then show ?thesis using one c by (simp add: find_dominators_2_def)
    next
      case 2
      then have "dominators (vparents g) {a, b} = {b}"
        using gdag.anc_antisym[OF g, of a b] by (auto simp: dominators_def)
      then show ?thesis using one c 2 by (simp add: find_dominators_2_def insert_commute)
    next
      case 3
      then have "dominators (vparents g) {a, b} = {a}" by (auto simp: dominators_def)
      then show ?thesis using one c 3 by (simp add: find_dominators_2_def insert_commute)
    next
      case 4
      then have "dominators (vparents g) {a, b} = {a, b}" by (auto simp: dominators_def)
      moreover have "sorted_list_of_set {a, b} = (if a < b then [a, b] else [b, a])"
        using 4(1) by (intro sorted_list_unique) auto
      ultimately show ?thesis using one c 4 by (simp add: find_dominators_2_def insert_commute)
    qed
  next
    case many
    let ?m = "min (v1 ! 0) (v2 ! 0)"
    have "\<forall>v \<in> set (v1 @ v2). ?m \<le> v"
      using sorted_hd_le[OF v1(1)] sorted_hd_le[OF v2(1)] by (auto simp: min_le_iff_disj)
    then obtain out where out: "find_dominators_full_internal g (v1 @ v2) ?m = Some out" "visits_desc out"
        "seen out True = dominators (vparents g) (set v1 \<union> set v2)"
      using find_dominators_full_internal_spec[OF g, of "v1 @ v2" ?m] vs by auto
    then show ?thesis
      using many sorted_list_unique[OF dom_results_sorted(1)[OF out(2)]] dom_results_sorted(2)[OF out(2)]
      by (auto simp: find_dominators_2_def)
  qed
qed

end
