(* ===== verification/Frontier.thy ===== *)
theory Frontier
  imports GraphDom
begin

text \<open>
  \<open>src/frontier.rs\<close>: frontiers, the sorted lists of versions that name a point in history, and
  how they move forwards and backwards over ranges of the graph.
\<close>

subsection \<open>Operations\<close>

fun sorted_after :: "'a::linorder \<Rightarrow> 'a list \<Rightarrow> bool" where
  "sorted_after last_v [] = True"
| "sorted_after last_v (i # iter) = (if i \<le> last_v then False else sorted_after i iter)"

definition is_sorted_iter :: "'a::linorder list \<Rightarrow> bool" where
  "is_sorted_iter iter = (case iter of [] \<Rightarrow> True | last_v # rest \<Rightarrow> sorted_after last_v rest)"

definition is_sorted_iter_uniq :: "'a::linorder list \<Rightarrow> bool" where
  "is_sorted_iter_uniq iter = is_sorted_iter iter"

fun sorted_slice_loop :: "bool \<Rightarrow> 'a::linorder \<Rightarrow> 'a list \<Rightarrow> bool" where
  "sorted_slice_loop expect_uniq last_v [] = True"
| "sorted_slice_loop expect_uniq last_v (t # ts) =
     (if last_v > t \<or> (expect_uniq \<and> last_v = t) then False
      else sorted_slice_loop expect_uniq t ts)"

definition is_sorted_slice :: "bool \<Rightarrow> 'a::linorder list \<Rightarrow> bool" where
  "is_sorted_slice expect_uniq slice =
     (if length slice \<ge> 2 then sorted_slice_loop expect_uniq (slice ! 0) (drop 1 slice) else True)"

definition frontier_is_sorted :: "lv list \<Rightarrow> bool" where
  "frontier_is_sorted f = is_sorted_slice True f"

definition sort_frontier :: "lv list \<Rightarrow> lv list" where
  "sort_frontier v = (if frontier_is_sorted v then v else sort v)"

definition frontier_root :: frontier where
  "frontier_root = []"

definition frontier_new_1 :: "lv \<Rightarrow> frontier" where
  "frontier_new_1 v = [v]"

definition frontier_from_unsorted :: "lv list \<Rightarrow> frontier" where
  "frontier_from_unsorted arr = sort_frontier arr"

definition frontier_is_root :: "frontier \<Rightarrow> bool" where
  "frontier_is_root f \<longleftrightarrow> f = []"

definition try_get_single_entry :: "frontier \<Rightarrow> lv option" where
  "try_get_single_entry f = (if length f = 1 then Some (f ! 0) else None)"

definition frontier_replace :: "frontier \<Rightarrow> lv list \<Rightarrow> frontier" where
  "frontier_replace f with_f = with_f"

definition replace_with_1 :: "frontier \<Rightarrow> lv \<Rightarrow> frontier" where
  "replace_with_1 f new_val = [new_val]"

definition binary_search :: "lv list \<Rightarrow> lv \<Rightarrow> nat + nat" where
  "binary_search f item = binary_search_by (\<lambda>x. cmp x item) f"

definition insert_nonoverlapping :: "frontier \<Rightarrow> lv \<Rightarrow> frontier option" where
  "insert_nonoverlapping f new_item =
     (case binary_search f new_item of
        Inr _ \<Rightarrow> None
      | Inl new_idx \<Rightarrow> Some (take new_idx f @ new_item # drop new_idx f))"

definition frontier_insert :: "frontier \<Rightarrow> lv \<Rightarrow> frontier" where
  "frontier_insert f new_item =
     (case binary_search f new_item of
        Inr _ \<Rightarrow> f
      | Inl new_idx \<Rightarrow> take new_idx f @ new_item # drop new_idx f)"

definition advance_by_known_run :: "frontier \<Rightarrow> lv list \<Rightarrow> dtrange \<Rightarrow> frontier option" where
  "advance_by_known_run f parents span =
     (if length parents = 1 \<and> length f = 1 \<and> parents ! 0 = f ! 0 then Some [dtrange_last span]
      else if f = parents then Some (replace_with_1 f (dtrange_last span))
      else if dt_start span \<in> set f then None
      else insert_nonoverlapping (filter (\<lambda>v. v \<notin> set parents) f) (dtrange_last span))"

fun advance_loop :: "frontier \<Rightarrow> graph_entry list \<Rightarrow> dtrange \<Rightarrow> frontier option" where
  "advance_loop f [] rng = Some f"
| "advance_loop f (txn # txns) rng =
     (let end' = min (dt_end (ge_span txn)) (dt_end rng)
      in case ge_with_parents txn (dt_start rng)
                (\<lambda>parents. advance_by_known_run f parents \<lparr>dt_start = dt_start rng, dt_end = end'\<rparr>) of
           None \<Rightarrow> None
         | Some f' \<Rightarrow>
             if end' \<ge> dt_end rng then Some f'
             else advance_loop f' txns (rng\<lparr>dt_start := end'\<rparr>))"

definition advance :: "frontier \<Rightarrow> graph \<Rightarrow> dtrange \<Rightarrow> frontier option" where
  "advance f g rng =
     (if dtrange_is_empty rng then Some f
      else (case find_index ge_key ge_len (g_entries g) (dt_start rng) of
              Inl _ \<Rightarrow> None
            | Inr txn_idx \<Rightarrow> advance_loop f (drop txn_idx (g_entries g)) rng))"

definition merge_union :: "frontier \<Rightarrow> lv list \<Rightarrow> graph \<Rightarrow> frontier option" where
  "merge_union f other g =
     (if other \<noteq> [] \<and> other \<noteq> f
      then (if length other \<noteq> 1 then find_dominators_2 g f other
            else (case frontier_contains_version g f (other ! 0) of
                    None \<Rightarrow> None
                  | Some True \<Rightarrow> Some f
                  | Some False \<Rightarrow> find_dominators_2 g f other))
      else Some f)"

definition advance_sparse_known_run :: "frontier \<Rightarrow> graph \<Rightarrow> lv list \<Rightarrow> dtrange \<Rightarrow> frontier option" where
  "advance_sparse_known_run f g parents rng =
     (if f = parents then Some (replace_with_1 f (dtrange_last rng))
      else merge_union f [dtrange_last rng] g)"

definition advance_sparse :: "frontier \<Rightarrow> graph \<Rightarrow> dtrange \<Rightarrow> frontier option" where
  "advance_sparse f g rng =
     (case find_index ge_key ge_len (g_entries g) (dt_start rng) of
        Inl _ \<Rightarrow> None
      | Inr txn_idx \<Rightarrow>
          (let first_txn = g_entries g ! txn_idx
           in if dt_end rng \<le> dt_end (ge_span first_txn)
              then ge_with_parents first_txn (dt_start rng)
                     (\<lambda>parents. advance_sparse_known_run f g parents rng)
              else (case advance frontier_root g rng of
                      None \<Rightarrow> None | Some f2 \<Rightarrow> merge_union f f2 g)))"

fun retreat_parents :: "graph \<Rightarrow> lv list \<Rightarrow> frontier \<Rightarrow> frontier option" where
  "retreat_parents g [] f = Some f"
| "retreat_parents g (parent # parents) f =
     (case frontier_contains_version g f parent of
        None \<Rightarrow> None
      | Some True \<Rightarrow> retreat_parents g parents f
      | Some False \<Rightarrow>
          (case insert_nonoverlapping f parent of
             None \<Rightarrow> None | Some f' \<Rightarrow> retreat_parents g parents f'))"

text \<open>
  The loop of \<open>retreat\<close> walks the entries downwards; the list holds the entries from \<open>txn_idx\<close>
  down to 0, and running out of it is the underflow of \<open>txn_idx -= 1\<close>.
\<close>

fun retreat_loop :: "graph \<Rightarrow> graph_entry list \<Rightarrow> frontier \<Rightarrow> dtrange \<Rightarrow> frontier option" where
  "retreat_loop g [] f rng = None"
| "retreat_loop g (txn # txns) f rng =
     (let last_order = dtrange_last rng
      in if length f = 1 \<and> dt_start rng > dt_start (ge_span txn) then Some [dt_start rng - 1]
         else
           (case (if length f = 1 then Some (ge_parents txn)
                  else ge_with_parents txn (dt_start rng)
                         (\<lambda>parents. retreat_parents g parents (filter (\<lambda>t. t \<noteq> last_order) f))) of
              None \<Rightarrow> None
            | Some f' \<Rightarrow>
                if dt_start rng \<ge> dt_start (ge_span txn) then Some f'
                else retreat_loop g txns f' (rng\<lparr>dt_end := dt_start (ge_span txn)\<rparr>)))"

definition retreat :: "frontier \<Rightarrow> graph \<Rightarrow> dtrange \<Rightarrow> frontier option" where
  "retreat f g rng =
     (if dtrange_is_empty rng then Some f
      else (case find_index ge_key ge_len (g_entries g) (dtrange_last rng) of
              Inl _ \<Rightarrow> None
            | Inr txn_idx \<Rightarrow> retreat_loop g (rev (take (Suc txn_idx) (g_entries g))) f rng))"

text \<open>\<open>check\<close>, as the condition under which it does not panic.\<close>

definition frontier_check :: "frontier \<Rightarrow> graph \<Rightarrow> bool" where
  "frontier_check f g \<longleftrightarrow>
     frontier_is_sorted f \<and> (length f \<ge> 2 \<longrightarrow> find_dominators g f = Some f)"

definition local_frontier_eq :: "lv list \<Rightarrow> lv list \<Rightarrow> bool" where
  "local_frontier_eq a b \<longleftrightarrow> a = b"

definition local_frontier_is_root :: "lv list \<Rightarrow> bool" where
  "local_frontier_is_root branch \<longleftrightarrow> branch = []"

fun dbg_frontier_loop :: "frontier \<Rightarrow> graph_entry list \<Rightarrow> frontier option" where
  "dbg_frontier_loop b [] = Some b"
| "dbg_frontier_loop b (txn # txns) =
     (case advance_by_known_run b (ge_parents txn) (ge_span txn) of
        None \<Rightarrow> None | Some b' \<Rightarrow> dbg_frontier_loop b' txns)"

definition dbg_get_frontier_inefficiently :: "graph \<Rightarrow> frontier option" where
  "dbg_get_frontier_inefficiently g = dbg_frontier_loop frontier_root (g_entries g)"

subsection \<open>Sorted lists\<close>

lemma sorted_after_iff: "sorted_after x xs \<longleftrightarrow> sorted_wrt (<) (x # xs)"
proof (induction xs arbitrary: x)
  case (Cons y ys)
  then show ?case by (auto dest: less_trans)
qed simp

lemma is_sorted_iter_iff: "is_sorted_iter_uniq xs \<longleftrightarrow> sorted_wrt (<) xs"
  unfolding is_sorted_iter_uniq_def is_sorted_iter_def
  by (cases xs) (simp_all add: sorted_after_iff)

lemma sorted_slice_loop_iff:
  "sorted_slice_loop u x xs \<longleftrightarrow> (if u then sorted_wrt (<) (x # xs) else sorted_wrt (\<le>) (x # xs))"
proof (induction xs arbitrary: x)
  case (Cons y ys)
  then show ?case by (cases u) (auto dest: less_trans order_trans)
qed simp

lemma frontier_is_sorted_iff: "frontier_is_sorted f \<longleftrightarrow> sorted_wrt (<) f"
  unfolding frontier_is_sorted_def is_sorted_slice_def
proof (cases f)
  case (Cons x xs)
  then show "(if 2 \<le> length f then sorted_slice_loop True (f ! 0) (drop 1 f) else True) = sorted_wrt (<) f"
    by (cases xs) (simp_all add: sorted_slice_loop_iff)
qed simp

lemma sort_frontier_sorted: "distinct v \<Longrightarrow> sorted_wrt (<) (sort_frontier v) \<and> set (sort_frontier v) = set v"
  by (auto simp: sort_frontier_def frontier_is_sorted_iff strict_sorted_iff)

lemma binary_search_cases:
  assumes "sorted_wrt (<) f"
  obtains (found) i where "binary_search f x = Inr i" "x \<in> set f"
  | (gap) i where "binary_search f x = Inl i" "x \<notin> set f" "\<forall>v \<in> set (take i f). v < x" "\<forall>v \<in> set (drop i f). x < v"
proof -
  have lt: "f ! i < f ! j" if "i < j" "j < length f" for i j
    using sorted_wrt_nth_less[OF assms that] .
  have p: "partitioned (\<lambda>v. cmp v x) f"
    unfolding partitioned_def using lt by (simp, meson less_trans)
  show thesis
  proof (cases rule: binary_search_by_cases[OF p])
    case (1 i)
    then show ?thesis using found[of i] by (auto simp: binary_search_def)
  next
    case (2 i)
    have a: "\<forall>v \<in> set (take i f). v < x" using 2(2,3) by (auto simp: in_set_conv_nth)
    have b: "\<forall>v \<in> set (drop i f). x < v" using 2(4) by (fastforce simp: in_set_conv_nth)
    have "x \<notin> set (take i f @ drop i f)" using a b by (metis Un_iff less_irrefl set_append)
    then show ?thesis using gap[of i] 2(1) a b by (simp add: binary_search_def)
  qed
qed

lemma insert_nonoverlapping_spec:
  assumes "sorted_wrt (<) f"
  shows "insert_nonoverlapping f x = (if x \<in> set f then None else Some (sorted_list_of_set (insert x (set f))))"
  using assms
proof (cases rule: binary_search_cases[where x = x])
  case (found i)
  then show ?thesis by (simp add: insert_nonoverlapping_def)
next
  case (gap i)
  let ?r = "take i f @ x # drop i f"
  have "sorted_wrt (<) (take i f @ drop i f)" using assms by simp
  then have "sorted_wrt (<) ?r" using gap by (simp only: sorted_wrt_append) auto
  moreover have "set ?r = insert x (set f)" by (metis append_take_drop_id Un_insert_right list.set(2) set_append)
  ultimately show ?thesis
    using gap sorted_list_unique by (simp add: insert_nonoverlapping_def)
qed

lemma frontier_insert_spec:
  assumes "sorted_wrt (<) f"
  shows "sorted_wrt (<) (frontier_insert f x)" "set (frontier_insert f x) = insert x (set f)"
proof -
  have "frontier_insert f x = sorted_list_of_set (insert x (set f))"
    using assms
  proof (cases rule: binary_search_cases[where x = x])
    case (found i)
    then show ?thesis using sorted_list_unique[OF assms] by (simp add: frontier_insert_def insert_absorb)
  next
    case (gap i)
    then show ?thesis
      using insert_nonoverlapping_spec[OF assms, of x]
      by (simp add: frontier_insert_def insert_nonoverlapping_def)
  qed
  then show "sorted_wrt (<) (frontier_insert f x)" "set (frontier_insert f x) = insert x (set f)"
    by (simp_all del: sorted_list_of_set_insert_remove)
qed

subsection \<open>Moving frontiers\<close>

definition frontier_ok :: "graph \<Rightarrow> frontier \<Rightarrow> bool" where
  "frontier_ok g f \<longleftrightarrow> sorted_wrt (<) f \<and> dominators (vparents g) (set f) = set f \<and>
     (\<forall>v \<in> set f. in_graph g v)"

lemma frontier_ok_antichain:
  assumes "frontier_ok g f" "v \<in> set f" "w \<in> set f" "ganc g v w"
  shows "v = w"
proof -
  have "v \<in> dominators (vparents g) (set f)" using assms(1,2) by (simp add: frontier_ok_def)
  then show ?thesis using assms(3,4) by (auto simp: dominators_def)
qed

lemma antichain_dominators:
  assumes "\<And>v w. v \<in> S \<Longrightarrow> w \<in> S \<Longrightarrow> anc ps v w \<Longrightarrow> v = w"
  shows "dominators ps S = S"
proof
  show "S \<subseteq> dominators ps S"
    unfolding dominators_def using assms by (intro subsetI CollectI conjI ballI impI notI) (assumption, metis)
qed (rule dominators_subset)

lemma frontier_ok_unique:
  assumes "graph_wf g" "frontier_ok g f" "frontier_ok g f'" "ghist g f = ghist g f'"
  shows "f = f'"
proof -
  have "set f = set f'"
    using assms(2,3) by (intro gdag.hist_eq_antichain[OF assms(1) _ _ assms(4)]) (simp_all add: frontier_ok_def)
  then show ?thesis
    using assms(2,3) unfolding frontier_ok_def by (intro strict_sorted_equal) simp_all
qed

lemma frontier_ok_sorted_list:
  assumes "finite S" "dominators (vparents g) S = S" "\<forall>v \<in> S. in_graph g v"
  shows "frontier_ok g (sorted_list_of_set S)" "ghist g (sorted_list_of_set S) = hist (vparents g) S"
  using assms by (auto simp: frontier_ok_def)

text \<open>A version contains the run it ends and what the start of that run descends from.\<close>

lemma run_history:
  assumes g: "graph_wf g" and e: "g_find g l = Some e" and s: "ge_key e \<le> s" "s \<le> l"
  shows "ganc g v l \<longleftrightarrow> (s \<le> v \<and> v \<le> l) \<or> v \<in> ghist g (vparents g s)"
proof -
  have es: "g_find g s = Some e" using in_graph_start[OF g e s] .
  have *: "ganc g v s \<longleftrightarrow> v = s \<or> v \<in> ghist g (vparents g s)"
    unfolding hist_def by (subst anc_step) auto
  have "ganc g v l \<longleftrightarrow> (s \<le> v \<and> v \<le> l) \<or> ganc g v s"
  proof (cases "ge_key e \<le> v")
    case True
    then show ?thesis
      using ganc_in_run[OF g e True] ganc_in_run[OF g es True] s gdag.anc_le[OF g, of v]
      by (meson le_cases order_trans order_refl)
  next
    case False
    then show ?thesis
      using ganc_below_run[OF g e, of v] ganc_below_run[OF g es, of v] s by auto
  qed
  then show ?thesis using * s by auto
qed

text \<open>
  Advancing by a run inside one entry adds the run and what it descends from to the history; a
  member of the frontier goes only when it is a parent of the run, which is enough when no other
  member is an ancestor of a parent.
\<close>

lemma advance_by_run_history:
  assumes f: "frontier_ok g f" and e: "in_graph g (dtrange_last span)" and r: "dt_start span < dt_end span"
    and hl: "\<And>v. ganc g v (dtrange_last span) \<longleftrightarrow>
      (dt_start span \<le> v \<and> v \<le> dtrange_last span) \<or> v \<in> ghist g parents"
    and p: "\<forall>v \<in> set f. \<forall>q \<in> set parents. ganc g v q \<longrightarrow> v = q"
    and new: "\<forall>v. dtrange_contains span v \<longrightarrow> v \<notin> ghist g f"
  shows "\<exists>f'. advance_by_known_run f parents span = Some f' \<and> frontier_ok g f' \<and>
    set f' \<subseteq> set f \<union> {dt_start span ..< dt_end span} \<and>
    ghist g f' = ghist g f \<union> hist (vparents g) {dt_start span ..< dt_end span}"
proof -
  let ?s = "dt_start span" and ?l = "dtrange_last span"
  have l: "?s \<le> ?l" "?l < dt_end span" "dt_end span = Suc ?l" using r by (auto simp: dtrange_last_def)
  have ll: "?l \<notin> ghist g f" using new l by (simp add: dtrange_contains_def)
  have interval: "{?s ..< dt_end span} = {v. ?s \<le> v \<and> v \<le> ?l}" using l by auto
  have hist_l: "ghist g [?l] = ghist g parents \<union> {?s ..< dt_end span}"
    unfolding interval by (auto simp: hl)
  have run: "hist (vparents g) {?s ..< dt_end span} = ghist g parents \<union> {?s ..< dt_end span}"
  proof
    have "{?s ..< dt_end span} \<subseteq> ghist g [?l]" unfolding hist_l by simp
    then have "hist (vparents g) {?s ..< dt_end span} \<subseteq> ghist g [?l]" by (simp only: hist_subset)
    then show "hist (vparents g) {?s ..< dt_end span} \<subseteq> ghist g parents \<union> {?s ..< dt_end span}"
      unfolding hist_l .
    have "{?l} \<subseteq> {?s ..< dt_end span}" using l by simp
    then have "{?l} \<subseteq> hist (vparents g) {?s ..< dt_end span}" using hist_self by blast
    then have "ghist g [?l] \<subseteq> hist (vparents g) {?s ..< dt_end span}" by (simp only: hist_subset list.set)
    then show "ghist g parents \<union> {?s ..< dt_end span} \<subseteq> hist (vparents g) {?s ..< dt_end span}"
      unfolding hist_l .
  qed
  have ok_l: "frontier_ok g [?l]" using e by (simp add: frontier_ok_def)
  show ?thesis
  proof (cases "f = parents")
    case True
    have "advance_by_known_run f parents span = Some [?l]"
      using True by (simp add: advance_by_known_run_def replace_with_1_def)
    moreover have "ghist g [?l] = ghist g f \<union> hist (vparents g) {?s ..< dt_end span}"
      unfolding hist_l run True by simp
    moreover have "set [?l] \<subseteq> set f \<union> {?s ..< dt_end span}" using l by simp
    ultimately show ?thesis using ok_l by blast
  next
    case False
    then have not1: "\<not> (length parents = 1 \<and> length f = 1 \<and> parents ! 0 = f ! 0)"
      by (auto simp: length_Suc_conv)
    let ?k = "filter (\<lambda>v. v \<notin> set parents) f"
    have k: "sorted_wrt (<) ?k" "?l \<notin> set ?k" using f ll hist_self[of ?l "set f"]
      by (auto simp: frontier_ok_def sorted_wrt_filter)
    have "?s \<notin> set f" using new r hist_self[of ?s "set f"] by (auto simp: dtrange_contains_def)
    have "insert_nonoverlapping ?k ?l = Some (sorted_list_of_set (insert ?l (set ?k)))"
      unfolding insert_nonoverlapping_spec[OF k(1)] by (simp only: k(2) if_False)
    then have a: "advance_by_known_run f parents span = Some (sorted_list_of_set (insert ?l (set ?k)))"
      unfolding advance_by_known_run_def Let_def if_not_P[OF not1] if_not_P[OF False]
      using \<open>?s \<notin> set f\<close> by (simp only: simp_thms if_False if_True)
    let ?S = "insert ?l (set ?k)"
    have "dominators (vparents g) ?S = ?S"
    proof (rule antichain_dominators)
      fix v w assume vw: "v \<in> ?S" "w \<in> ?S" "ganc g v w"
      have "w \<in> set f \<Longrightarrow> v = ?l \<Longrightarrow> False" using vw(3) ll by (auto simp: hist_def)
      moreover have "v = w" if vk: "v \<in> set ?k" and wl: "w = ?l"
      proof -
        have v: "v \<in> set f" "v \<notin> set parents" using vk by auto
        have "\<not> (?s \<le> v \<and> v \<le> ?l)"
          using new hist_self[OF v(1)] l by (auto simp: dtrange_contains_def)
        then obtain q where q: "q \<in> set parents" "ganc g v q"
          using vw(3) wl hl by (auto simp: hist_def)
        then have "v = q" using p v(1) by blast
        then show ?thesis using q(1) v(2) by simp
      qed
      moreover have "v \<in> set ?k \<Longrightarrow> w \<in> set ?k \<Longrightarrow> v = w"
        using frontier_ok_antichain[OF f _ _ vw(3)] by simp
      ultimately show "v = w" using vw(1,2) by auto
    qed
    moreover have "\<forall>v \<in> ?S. in_graph g v" using f e by (auto simp: frontier_ok_def)
    moreover have "set (sorted_list_of_set ?S) \<subseteq> set f \<union> {?s ..< dt_end span}"
      using l by (auto simp del: sorted_list_of_set_insert_remove)
    moreover have "hist (vparents g) ?S = ghist g f \<union> hist (vparents g) {?s ..< dt_end span}"
    proof -
      have "hist (vparents g) ?S = ghist g [?l] \<union> ghist g ?k" by auto
      also have "\<dots> = ghist g parents \<union> ghist g ?k \<union> {?s ..< dt_end span}" using hist_l by auto
      also have "ghist g parents \<union> ghist g ?k = ghist g f \<union> ghist g parents"
        by (auto simp: hist_def)
      finally show ?thesis unfolding run by blast
    qed
    ultimately show ?thesis using a frontier_ok_sorted_list[of ?S g] by (intro exI[of _ "sorted_list_of_set ?S"]) simp
  qed
qed

lemma advance_by_known_run_spec:
  assumes g: "graph_wf g" and f: "frontier_ok g f"
    and e: "g_find g (dtrange_last span) = Some e" and r: "ge_key e \<le> dt_start span" "dt_start span < dt_end span"
    and p: "parents = vparents g (dt_start span)"
      "\<forall>v \<in> set f. \<forall>q \<in> set parents. ganc g v q \<longrightarrow> v = q"
    and new: "\<forall>v. dtrange_contains span v \<longrightarrow> v \<notin> ghist g f"
  shows "\<exists>f'. advance_by_known_run f parents span = Some f' \<and> frontier_ok g f' \<and>
    set f' \<subseteq> set f \<union> {dt_start span ..< dt_end span} \<and>
    ghist g f' = ghist g f \<union> hist (vparents g) {dt_start span ..< dt_end span}"
proof (rule advance_by_run_history[OF f _ r(2) _ p(2) new])
  have l: "dt_start span \<le> dtrange_last span" using r(2) by (simp add: dtrange_last_def)
  show "in_graph g (dtrange_last span)" using e by (simp add: in_graph_def)
  show "ganc g v (dtrange_last span) \<longleftrightarrow>
      (dt_start span \<le> v \<and> v \<le> dtrange_last span) \<or> v \<in> ghist g parents" for v
    unfolding p(1) by (rule run_history[OF g e r(1) l])
qed

text \<open>The walk of \<open>advance\<close> over the entries: each step is a run inside one entry.\<close>

lemma next_entry:
  assumes ok: "vec_ok key len valid (pre @ x # xs)"
    and f: "rv_find key len (pre @ x # xs) (key x + len x) = Some e"
  obtains ys where "xs = e # ys"
proof -
  from f ok have e: "e \<in> set (pre @ x # xs)" "key e \<le> key x + len x" "key x + len x < key e + len e"
    by (simp_all add: rv_find_Some[OF ok])
  then have "e \<in> set xs" using ok by auto
  then obtain y ys where xs: "xs = y # ys" by (cases xs) auto
  have "e = y"
  proof (rule ccontr)
    assume "e \<noteq> y"
    then have "e \<in> set ys" using \<open>e \<in> set xs\<close> xs by simp
    then have "key y + len y \<le> key e" "key x + len x \<le> key y" "0 < len y" using ok xs by auto
    then show False using e(2) by simp
  qed
  then show thesis using that xs by simp
qed

lemma vparents_entry: "g_find g v = Some e \<Longrightarrow> ge_with_parents e v f = f (vparents g v)"
  by (simp add: vparents_find ge_with_parents_def ge_key_def)

abbreviation range_set :: "dtrange \<Rightarrow> lv set" where
  "range_set r \<equiv> {dt_start r ..< dt_end r}"

lemma advance_step:
  assumes g: "graph_wf g" and e: "g_find g (dt_start rng) = Some txn" and f: "frontier_ok g f"
    and r: "dt_start rng < dt_end rng" "\<forall>v \<in> range_set rng. v \<notin> ghist g f"
    and p: "\<forall>p \<in> set (vparents g (dt_start rng)).
      p \<in> ghist g f \<union> range_set rng \<or> (\<forall>u \<in> set f \<union> range_set rng. \<not> ganc g u p)"
    and n: "n = min (dt_end (ge_span txn)) (dt_end rng)"
  shows "dt_start rng < n \<and> (\<exists>f'. ge_with_parents txn (dt_start rng)
      (\<lambda>parents. advance_by_known_run f parents \<lparr>dt_start = dt_start rng, dt_end = n\<rparr>) = Some f' \<and>
    frontier_ok g f' \<and> set f' \<subseteq> set f \<union> {dt_start rng ..< n} \<and>
    ghist g f' = ghist g f \<union> hist (vparents g) {dt_start rng ..< n})"
proof -
  let ?r = "\<lparr>dt_start = dt_start rng, dt_end = n\<rparr>"
  from e g have t: "txn \<in> set (g_entries g)" "ge_key txn \<le> dt_start rng" "dt_start rng < ge_key txn + ge_len txn"
    by (simp_all add: g_find_Some)
  then have v: "ge_key txn + ge_len txn = dt_end (ge_span txn)"
    using graph_wfD(1)[OF g] by (intro ge_end) (simp add: vec_ok_def)
  have n': "dt_start rng < n" "n \<le> dt_end rng" "n \<le> dt_end (ge_span txn)" using n r(1) t(3) v by auto
  have last: "g_find g (dtrange_last ?r) = Some txn"
    using n' t v by (auto simp: g_find_Some[OF g] dtrange_last_def)
  have "v = q" if vf: "v \<in> set f" and q: "q \<in> set (vparents g (dt_start rng))" and vq: "ganc g v q" for v q
  proof -
    have "q < dt_start rng" using gdag.parents_less[OF g q] .
    then have "q \<in> ghist g f" using p q vf vq by auto
    then obtain u where u: "u \<in> set f" "ganc g q u" by (auto simp: hist_def)
    then have "v = u" using frontier_ok_antichain[OF f vf u(1)] vq anc_trans by blast
    then show ?thesis using vq u(2) gdag.anc_antisym[OF g] by blast
  qed
  then have "\<exists>f'. advance_by_known_run f (vparents g (dt_start rng)) ?r = Some f' \<and> frontier_ok g f' \<and>
      set f' \<subseteq> set f \<union> {dt_start ?r ..< dt_end ?r} \<and>
      ghist g f' = ghist g f \<union> hist (vparents g) {dt_start ?r ..< dt_end ?r}"
    using n' t r(2) by (intro advance_by_known_run_spec[OF g f last]) (auto simp: dtrange_contains_def)
  then show ?thesis using n' by (simp add: vparents_entry[OF e])
qed

lemma advance_loop_spec:
  assumes g: "graph_wf g"
  shows "g_entries g = pre @ txn # txns \<Longrightarrow> g_find g (dt_start rng) = Some txn \<Longrightarrow> frontier_ok g f \<Longrightarrow>
    dt_start rng < dt_end rng \<Longrightarrow> \<forall>v \<in> range_set rng. in_graph g v \<and> v \<notin> ghist g f \<Longrightarrow>
    \<forall>v \<in> range_set rng. \<forall>p \<in> set (vparents g v).
      p \<in> ghist g f \<union> range_set rng \<or> (\<forall>u \<in> set f \<union> range_set rng. \<not> ganc g u p) \<Longrightarrow>
    \<exists>f'. advance_loop f (txn # txns) rng = Some f' \<and> frontier_ok g f' \<and>
      ghist g f' = ghist g f \<union> hist (vparents g) (range_set rng)"
proof (induction txns arbitrary: pre txn f rng)
  case base: (Nil pre txn f rng)
  let ?n = "min (dt_end (ge_span txn)) (dt_end rng)"
  have s: "dt_start rng \<in> range_set rng" using base(4) by simp
  obtain f' where f': "ge_with_parents txn (dt_start rng)
      (\<lambda>parents. advance_by_known_run f parents \<lparr>dt_start = dt_start rng, dt_end = ?n\<rparr>) = Some f'"
    "frontier_ok g f'" "ghist g f' = ghist g f \<union> hist (vparents g) {dt_start rng ..< ?n}" and n: "dt_start rng < ?n"
    using advance_step[OF g base(2,3,4) _ _ refl] base(5,6) s by blast
  have "?n = dt_end rng"
  proof (rule ccontr)
    assume "?n \<noteq> dt_end rng"
    then have "dt_end (ge_span txn) \<in> range_set rng" using n by auto
    then have "in_graph g (dt_end (ge_span txn))" using base(5) by blast
    then obtain e where "g_find g (dt_end (ge_span txn)) = Some e" by (auto simp: in_graph_def)
    moreover have "ge_key txn + ge_len txn = dt_end (ge_span txn)"
      using graph_wfD(1)[OF g] base(1) by (intro ge_end) simp
    ultimately show False using next_entry[of ge_key ge_len ge_valid pre txn "[]" e] graph_wfD(1)[OF g] base(1)
      by (metis list.distinct(1))
  qed
  then show ?case using f' by (simp add: Let_def)
next
  case (Cons a txns pre txn f rng)
  let ?n = "min (dt_end (ge_span txn)) (dt_end rng)"
  have s: "dt_start rng \<in> range_set rng" using Cons.prems(4) by simp
  obtain f' where f': "ge_with_parents txn (dt_start rng)
      (\<lambda>parents. advance_by_known_run f parents \<lparr>dt_start = dt_start rng, dt_end = ?n\<rparr>) = Some f'"
    "frontier_ok g f'" "ghist g f' = ghist g f \<union> hist (vparents g) {dt_start rng ..< ?n}"
    "set f' \<subseteq> set f \<union> {dt_start rng ..< ?n}" and n: "dt_start rng < ?n"
    using advance_step[OF g Cons.prems(2,3,4) _ _ refl] Cons.prems(5,6) s by blast
  show ?case
  proof (cases "dt_end rng \<le> ?n")
    case True
    then have "?n = dt_end rng" by simp
    then show ?thesis using f' by (simp add: Let_def)
  next
    case False
    let ?r = "rng\<lparr>dt_start := ?n\<rparr>"
    have nn: "?n = dt_end (ge_span txn)" "?n < dt_end rng" using False by auto
    have key: "ge_key txn + ge_len txn = ?n"
      using graph_wfD(1)[OF g] Cons.prems(1) unfolding nn(1) by (intro ge_end) simp
    have "?n \<in> range_set rng" using n nn by simp
    then have "in_graph g ?n" using Cons.prems(5) by blast
    then obtain e where e: "g_find g ?n = Some e" by (auto simp: in_graph_def)
    then have "a = e"
      using next_entry[of ge_key ge_len ge_valid pre txn "a # txns" e] graph_wfD(1)[OF g] key Cons.prems(1)
      by (metis list.inject)
    have u: "range_set rng = {dt_start rng ..< ?n} \<union> range_set ?r" "{dt_start rng ..< ?n} \<inter> range_set ?r = {}"
      using n nn by auto
    have "\<exists>f''. advance_loop f' (a # txns) ?r = Some f'' \<and> frontier_ok g f'' \<and>
        ghist g f'' = ghist g f' \<union> hist (vparents g) (range_set ?r)"
    proof (rule Cons.IH[where pre = "pre @ [txn]"])
      show "g_entries g = (pre @ [txn]) @ a # txns" using Cons.prems(1) by simp
      show "g_find g (dt_start ?r) = Some a" using e \<open>a = e\<close> by simp
      show "dt_start ?r < dt_end ?r" using nn by simp
      have sub: "range_set ?r \<subseteq> range_set rng" using u(1) by blast
      have "v \<notin> hist (vparents g) {dt_start rng ..< ?n}" if vr: "v \<in> range_set ?r" for v
        using gdag.hist_le[OF g, of "{dt_start rng ..< ?n}" "?n - 1" v] vr n by fastforce
      then show "\<forall>v \<in> range_set ?r. in_graph g v \<and> v \<notin> ghist g f'"
        using Cons.prems(5) sub unfolding f'(3) by blast
      have "set f' \<union> range_set ?r \<subseteq> set f \<union> range_set rng" using f'(4) u(1) by blast
      moreover have "ghist g f \<union> range_set rng \<subseteq> ghist g f' \<union> range_set ?r"
        unfolding f'(3) u(1) using hist_self[of _ "{dt_start rng ..< ?n}"] by blast
      ultimately show "\<forall>v \<in> range_set ?r. \<forall>p \<in> set (vparents g v).
          p \<in> ghist g f' \<union> range_set ?r \<or> (\<forall>u \<in> set f' \<union> range_set ?r. \<not> ganc g u p)"
        using Cons.prems(6) sub by (meson subsetD)
    qed (rule f'(2))
    then obtain f'' where f'': "advance_loop f' (a # txns) ?r = Some f''" "frontier_ok g f''"
      "ghist g f'' = ghist g f' \<union> hist (vparents g) (range_set ?r)" by blast
    have "advance_loop f (txn # a # txns) rng = Some f''"
      by (subst advance_loop.simps(2)) (simp only: Let_def f'(1) option.case False if_False f''(1))
    moreover have "ghist g f'' = ghist g f \<union> hist (vparents g) (range_set rng)"
      unfolding f''(3) f'(3) u(1) hist_simps by blast
    ultimately show ?thesis using f''(2) by blast
  qed
qed

lemma advance_general:
  assumes g: "graph_wf g" and f: "frontier_ok g f" and v: "dt_start rng < dt_end rng"
    and r: "\<forall>v \<in> range_set rng. in_graph g v \<and> v \<notin> ghist g f"
      "\<forall>v \<in> range_set rng. \<forall>p \<in> set (vparents g v).
         p \<in> ghist g f \<union> range_set rng \<or> (\<forall>u \<in> set f \<union> range_set rng. \<not> ganc g u p)"
  shows "\<exists>f'. advance f g rng = Some f' \<and> frontier_ok g f' \<and>
    ghist g f' = ghist g f \<union> hist (vparents g) (range_set rng)"
proof -
  have "in_graph g (dt_start rng)" using r(1) v by simp
  then obtain txn where txn: "g_find g (dt_start rng) = Some txn" by (auto simp: in_graph_def)
  then obtain i where i: "find_index ge_key ge_len (g_entries g) (dt_start rng) = Inr i" "txn = g_entries g ! i"
    by (auto simp: rv_find_def split: sum.splits)
  note s = find_index_ok_split[OF graph_wfD(1)[OF g] i(1)]
  have d: "drop i (g_entries g) = txn # drop (Suc i) (g_entries g)"
    using s(2) i(2) by (simp add: Cons_nth_drop_Suc)
  have "g_entries g = take i (g_entries g) @ txn # drop (Suc i) (g_entries g)" using s(1) i(2) by simp
  then have "\<exists>f'. advance_loop f (txn # drop (Suc i) (g_entries g)) rng = Some f' \<and> frontier_ok g f' \<and>
      ghist g f' = ghist g f \<union> hist (vparents g) (range_set rng)"
    by (rule advance_loop_spec[OF g _ txn f v r])
  then show ?thesis
    unfolding advance_def dtrange_is_empty_def i(1) sum.case d using v by simp
qed

theorem advance_spec:
  assumes g: "graph_wf g" and f: "frontier_ok g f" and v: "dt_start rng \<le> dt_end rng"
    and r: "\<forall>v. dtrange_contains rng v \<longrightarrow> in_graph g v \<and> v \<notin> ghist g f \<and>
      (\<forall>p \<in> set (vparents g v). p \<in> ghist g f \<or> dtrange_contains rng p)"
  shows "\<exists>f'. advance f g rng = Some f' \<and> frontier_ok g f' \<and>
    ghist g f' = ghist g f \<union> {v. dtrange_contains rng v}"
proof -
  have c: "dtrange_contains rng v \<longleftrightarrow> v \<in> range_set rng" for v by (simp add: dtrange_contains_def)
  have rs: "{v. dtrange_contains rng v} = range_set rng" by (auto simp: c)
  have "hist (vparents g) (ghist g f \<union> range_set rng) = ghist g f \<union> range_set rng"
  proof (rule hist_downset)
    fix v p assume "v \<in> ghist g f \<union> range_set rng" "p \<in> set (vparents g v)"
    then show "p \<in> ghist g f \<union> range_set rng"
      using r hist_closed[OF _ anc_parent, of v "vparents g" "set f" p] unfolding c by blast
  qed
  then have h: "ghist g f \<union> hist (vparents g) (range_set rng) = ghist g f \<union> range_set rng" by simp
  show ?thesis
  proof (cases "dt_start rng < dt_end rng")
    case False
    then show ?thesis using f v by (auto simp: advance_def dtrange_is_empty_def dtrange_contains_def)
  next
    case True
    show ?thesis unfolding rs using advance_general[OF g f True] r unfolding c h by blast
  qed
qed

subsection \<open>Joining and sparse advances\<close>

lemma dominators_in_graph: "\<forall>v \<in> S. in_graph g v \<Longrightarrow> \<forall>v \<in> dominators (vparents g) S. in_graph g v"
  using dominators_subset by blast

lemma dominators_idem: "dominators ps (dominators ps S) = dominators ps S"
  by (auto simp: dominators_def)

lemma frontier_ok_dominators:
  assumes "graph_wf g" "finite S" "\<forall>v \<in> S. in_graph g v"
  shows "frontier_ok g (sorted_list_of_set (dominators (vparents g) S))"
    "ghist g (sorted_list_of_set (dominators (vparents g) S)) = hist (vparents g) S"
proof -
  have fin: "finite (dominators (vparents g) S)" using assms(2) dominators_subset finite_subset by blast
  show "frontier_ok g (sorted_list_of_set (dominators (vparents g) S))"
    by (rule frontier_ok_sorted_list[OF fin dominators_idem dominators_in_graph[OF assms(3)]])
  show "ghist g (sorted_list_of_set (dominators (vparents g) S)) = hist (vparents g) S"
    using gdag.hist_dominators[OF assms(1,2)] fin by simp
qed

definition small_frontier :: "frontier \<Rightarrow> bool" where
  "small_frontier f \<longleftrightarrow> (\<forall>v \<in> set f. v < usize_max div 2)"

lemma merge_union_spec:
  assumes g: "graph_wf g" and f: "frontier_ok g f" "frontier_ok g other"
    and small: "small_frontier f" "small_frontier other"
  shows "\<exists>f'. merge_union f other g = Some f' \<and> frontier_ok g f' \<and> ghist g f' = ghist g f \<union> ghist g other"
proof -
  let ?d = "sorted_list_of_set (dominators (vparents g) (set f \<union> set other))"
  have all: "\<forall>v \<in> set f \<union> set other. in_graph g v \<and> v < usize_max div 2"
    using f small by (auto simp: frontier_ok_def small_frontier_def)
  then have d: "find_dominators_2 g f other = Some ?d"
    using f unfolding frontier_ok_def by (intro find_dominators_2_spec[OF g]) blast+
  have ok: "frontier_ok g ?d" "ghist g ?d = ghist g f \<union> ghist g other"
    using frontier_ok_dominators[OF g, of "set f \<union> set other"] all by simp_all
  consider (same) "other = [] \<or> other = f" | (one) w where "other = [w]" "other \<noteq> f" | (many) "other \<noteq> []" "other \<noteq> f" "length other \<noteq> 1"
    by (cases other) (auto simp: length_Suc_conv)
  then show ?thesis
  proof cases
    case same
    then show ?thesis using f(1) by (auto simp: merge_union_def)
  next
    case one
    have "frontier_contains_version g f w = Some (w \<in> ghist g f)"
      using frontier_contains_version_spec[OF g, of w f] f one(1) by (simp add: frontier_ok_def)
    moreover have "ghist g other \<subseteq> ghist g f" if "w \<in> ghist g f"
      unfolding hist_subset using that one(1) by simp
    ultimately show ?thesis using one d ok f(1)
      by (cases "w \<in> ghist g f") (auto simp: merge_union_def)
  next
    case many
    then show ?thesis using d ok by (auto simp: merge_union_def)
  qed
qed

end
