(* ===== verification/GraphBuild.thy ===== *)
theory GraphBuild
  imports Frontier GraphDiffFacts
begin

text \<open>
  Whole graphs: a packed graph holds exactly the versions below its next time, loading a graph
  from exported entries gives a graph with those entries, and the frontier computed from all
  entries is the dominators of the whole graph.  \<open>sample_graph\<close> is the graph the hypotheses of
  the properties are checked on.
\<close>

lemma packed_end:
  assumes "packed_from key len n es"
  shows "(\<exists>e \<in> set es. key e \<le> v \<and> v < key e + len e) \<longleftrightarrow>
    n \<le> v \<and> v < (if es = [] then n else span_end key len (last es))"
  using assms
proof (induction es arbitrary: n)
  case (Cons e es)
  then have IH: "(\<exists>e \<in> set es. key e \<le> v \<and> v < key e + len e) \<longleftrightarrow>
      span_end key len e \<le> v \<and> v < (if es = [] then span_end key len e else span_end key len (last es))"
    by simp
  have le: "span_end key len e \<le> span_end key len (last es)" if "es \<noteq> []"
    using Cons.prems that
    by (induction es arbitrary: e n) (force simp: span_end_def split: if_splits)+
  show ?case using IH Cons.prems le by (auto simp: span_end_def)
qed simp

lemma checked_in_graph: "graph_checked g \<Longrightarrow> in_graph g v \<longleftrightarrow> v < graph_next_time g"
proof -
  assume g: "graph_checked g"
  have "in_graph g v \<longleftrightarrow> (\<exists>e \<in> set (g_entries g). ge_key e \<le> v \<and> v < ge_key e + ge_len e)"
    using g g_find_Some[of g v] by (auto simp: in_graph_def graph_checked_def)
  also have "\<dots> \<longleftrightarrow> v < graph_next_time g"
    using g packed_end[of ge_key ge_len 0 "g_entries g" v]
    by (simp add: graph_checked_def check_packed_from_0_def graph_next_time_def rv_end_def
        rv_last_entry_def split: option.split)
  finally show ?thesis .
qed

lemma graph_new_checked: "graph_checked graph_new" "graph_next_time graph_new = 0" "vparents graph_new v = []"
  by (simp_all add: graph_checked_def graph_new_def graph_wf_def check_packed_from_0_def
      check_fully_merged_def graph_next_time_def rv_end_def rv_last_entry_def vparents_find rv_find_def
      find_index_def binary_search_by_def binary_search_loop.simps split: option.split)

text \<open>A list of exported entries that describes a graph: packed, parents sorted and in the past.\<close>

fun items_ok :: "nat \<Rightarrow> graph_entry_simple list \<Rightarrow> bool" where
  "items_ok n [] = True"
| "items_ok n (e # es) \<longleftrightarrow> dt_start (gs_span e) = n \<and> n < dt_end (gs_span e) \<and>
     sorted_wrt (<) (gs_parents e) \<and> (\<forall>p \<in> set (gs_parents e). p < n) \<and> items_ok (dt_end (gs_span e)) es"

lemma from_simple_items_iter_spec:
  "graph_checked g \<Longrightarrow> items_ok (graph_next_time g) es \<Longrightarrow>
    \<exists>g'. from_simple_items_iter g es = Some g' \<and> graph_checked g' \<and>
      graph_next_time g' = (if es = [] then graph_next_time g else dt_end (gs_span (last es))) \<and>
      (\<forall>v. v < graph_next_time g \<longrightarrow> vparents g' v = vparents g v) \<and>
      (\<forall>e \<in> set es. \<forall>(v, ps) \<in> set (gs_items e). vparents g' v = ps)"
proof (induction es arbitrary: g)
  case (Cons e es)
  let ?n = "graph_next_time g"
  have wf: "graph_wf g" using Cons.prems(1) by (simp add: graph_checked_def)
  have r: "graph_next_time g \<le> dt_start (gs_span e)" "dt_start (gs_span e) < dt_end (gs_span e)"
    "sorted_wrt (<) (gs_parents e)" "\<forall>p \<in> set (gs_parents e). in_graph g p"
    using Cons.prems by (auto simp: checked_in_graph)
  obtain g1 where g1: "graph_push g (gs_parents e) (gs_span e) = Some g1" "graph_checked g1"
    "graph_next_time g1 = dt_end (gs_span e)"
    "\<forall>v. vparents g1 v = (if dtrange_contains (gs_span e) v
        then if v > dt_start (gs_span e) then [v - 1] else gs_parents e else vparents g v)"
    using graph_push_spec[OF wf r] Cons.prems by auto
  obtain g' where g': "from_simple_items_iter g1 es = Some g'" "graph_checked g'"
    "graph_next_time g' = (if es = [] then graph_next_time g1 else dt_end (gs_span (last es)))"
    "\<forall>v. v < graph_next_time g1 \<longrightarrow> vparents g' v = vparents g1 v"
    "\<forall>e \<in> set es. \<forall>(v, ps) \<in> set (gs_items e). vparents g' v = ps"
    using Cons.IH[OF g1(2)] g1(3) Cons.prems(2) by auto
  have old: "\<forall>v. v < ?n \<longrightarrow> vparents g' v = vparents g v"
    using g'(4) g1(3,4) r(1,2) by (simp add: dtrange_contains_def)
  have new: "\<forall>(v, ps) \<in> set (gs_items e). vparents g' v = ps"
    using g'(4) g1(3,4) by (auto simp: gs_items_def dtrange_contains_def)
  have "graph_next_time g' = (if e # es = [] then ?n else dt_end (gs_span (last (e # es))))"
    using g'(3) g1(3) by simp
  then show ?case using g1(1) g'(1,2,5) old new by simp
qed simp

lemma from_simple_items_spec:
  assumes "items_ok 0 es"
  shows "\<exists>g. from_simple_items es = Some g \<and> graph_checked g \<and>
    graph_next_time g = (if es = [] then 0 else dt_end (gs_span (last es))) \<and>
    (\<forall>e \<in> set es. \<forall>(v, ps) \<in> set (gs_items e). vparents g v = ps)"
  using from_simple_items_iter_spec[OF graph_new_checked(1), of es] assms
  unfolding from_simple_items_def graph_new_checked(2) by blast

text \<open>\<open>check\<close> decides the frontier invariant.\<close>

lemma frontier_check_spec:
  assumes g: "graph_wf g" and f: "\<forall>v \<in> set f. in_graph g v \<and> v < usize_max div 2"
  shows "frontier_check f g \<longleftrightarrow> frontier_ok g f"
proof (cases "length f \<ge> 2 \<and> sorted_wrt (<) f")
  case True
  have "sorted_list_of_set (dominators (vparents g) (set f)) = f \<longleftrightarrow> dominators (vparents g) (set f) = set f"
    using True finite_subset[OF dominators_subset[of "vparents g" "set f"]]
    by (metis List.finite_set set_sorted_list_of_set sorted_list_unique)
  then show ?thesis
    using True f find_dominators_spec[OF g f]
    by (auto simp: frontier_check_def frontier_is_sorted_iff frontier_ok_def)
next
  case False
  then consider "f = []" | v where "f = [v]" | "\<not> sorted_wrt (<) f"
    by (cases f; cases "tl f") auto
  then show ?thesis
    using f by cases (auto simp: frontier_check_def frontier_is_sorted_iff frontier_ok_def)
qed

text \<open>
  The sample graph: a run 0..10, a branch 10..20 that leaves it after 4, a merge 20..25 of both,
  and a branch 25..30 that leaves the first run after 7.
\<close>

definition sample_items :: "graph_entry_simple list" where
  "sample_items = [\<lparr>gs_span = dtr 0 10, gs_parents = []\<rparr>, \<lparr>gs_span = dtr 10 20, gs_parents = [4]\<rparr>,
     \<lparr>gs_span = dtr 20 25, gs_parents = [9, 19]\<rparr>, \<lparr>gs_span = dtr 25 30, gs_parents = [7]\<rparr>]"

definition sample_graph :: graph where
  "sample_graph = \<lparr>g_entries =
     [\<lparr>ge_span = dtr 0 10, ge_shadow = 0, ge_parents = [], ge_children = [1, 2, 3]\<rparr>,
      \<lparr>ge_span = dtr 10 20, ge_shadow = 10, ge_parents = [4], ge_children = [2]\<rparr>,
      \<lparr>ge_span = dtr 20 25, ge_shadow = 0, ge_parents = [9, 19], ge_children = []\<rparr>,
      \<lparr>ge_span = dtr 25 30, ge_shadow = 25, ge_parents = [7], ge_children = []\<rparr>],
    g_root_children = [0]\<rparr>"

lemma sample_loaded: "from_simple_items sample_items = Some sample_graph"
  by code_simp

lemma sample_checked: "graph_checked sample_graph" "graph_next_time sample_graph = 30"
  using from_simple_items_spec[of sample_items] sample_loaded by (auto simp: sample_items_def)

lemma sample_wf [simp]: "graph_wf sample_graph"
  using sample_checked by (simp add: graph_checked_def)

lemma sample_in_graph [simp]: "in_graph sample_graph v \<longleftrightarrow> v < 30"
  using checked_in_graph[OF sample_checked(1)] sample_checked(2) by simp

lemma frontier_ok_check:
  assumes g: "graph_wf g" and f: "\<forall>v \<in> set f. in_graph g v" "sorted_wrt (<) f"
    and c: "\<forall>v \<in> set f. \<forall>w \<in> set f. v \<noteq> w \<longrightarrow> frontier_contains_version g [w] v = Some False"
  shows "frontier_ok g f"
proof -
  have "v = w" if v: "v \<in> set f" and w: "w \<in> set f" and a: "ganc g v w" for v w
  proof (rule ccontr)
    assume "v \<noteq> w"
    then have "frontier_contains_version g [w] v = Some False" using c v w by blast
    moreover have "frontier_contains_version g [w] v = Some (v \<in> ghist g [w])"
      using f(1) v w by (intro frontier_contains_version_spec[OF g]) simp_all
    ultimately show False using a by simp
  qed
  then have "dominators (vparents g) (set f) = set f" by (rule antichain_dominators)
  then show ?thesis using f by (simp add: frontier_ok_def)
qed

lemma sample_frontier [simp]:
  "frontier_ok sample_graph [9, 19]" "frontier_ok sample_graph [22]" "frontier_ok sample_graph [6, 12]"
  "frontier_ok sample_graph [24, 28]" "frontier_ok sample_graph [9]"
  by (rule frontier_ok_check[OF sample_wf]; (simp; fail | code_simp))+

lemma sample_hist: "ghist sample_graph [9, 19] = {..< 20}" "ghist sample_graph [22] = {..< 23}"
proof -
  have c: "list_all (\<lambda>v. frontier_contains_version sample_graph [9, 19] v = Some True) [0 ..< 20]"
    "list_all (\<lambda>v. frontier_contains_version sample_graph [22] v = Some True) [0 ..< 23]"
    by code_simp+
  have "v \<in> ghist sample_graph [9, 19]" if "v < 20" for v
    using c(1) frontier_contains_version_spec[OF sample_wf, of v "[9, 19]"] that by (auto simp: list_all_iff)
  moreover have "v < 20" if "v \<in> ghist sample_graph [9, 19]" for v
    using gdag.hist_le[OF sample_wf, of "set [9, 19]" 19 v] that by simp
  ultimately show "ghist sample_graph [9, 19] = {..< 20}" by blast
  have "v \<in> ghist sample_graph [22]" if "v < 23" for v
    using c(2) frontier_contains_version_spec[OF sample_wf, of v "[22]"] that by (auto simp: list_all_iff)
  moreover have "v < 23" if "v \<in> ghist sample_graph [22]" for v
    using gdag.hist_le[OF sample_wf, of "set [22]" 22 v] that by simp
  ultimately show "ghist sample_graph [22] = {..< 23}" by blast
qed

lemma sample_advance:
  "\<forall>v. dtrange_contains (dtr 20 30) v \<longrightarrow> in_graph sample_graph v \<and> v \<notin> ghist sample_graph [9, 19] \<and>
    (\<forall>p \<in> set (vparents sample_graph v). p \<in> ghist sample_graph [9, 19] \<or> dtrange_contains (dtr 20 30) p)"
proof (intro allI impI conjI ballI)
  fix v p assume v: "dtrange_contains (dtr 20 30) v" and "p \<in> set (vparents sample_graph v)"
  then have "p < 30" using gdag.parents_less[OF sample_wf, of p v] by (simp add: dtrange_contains_def)
  then show "p \<in> ghist sample_graph [9, 19] \<or> dtrange_contains (dtr 20 30) p"
    unfolding sample_hist(1) by (simp add: dtrange_contains_def) linarith
qed (simp_all only: sample_hist(1), simp_all add: dtrange_contains_def)

lemma sample_retreat:
  "\<forall>v. dtrange_contains (dtr 15 23) v \<longrightarrow> v \<in> ghist sample_graph [22]"
  "\<forall>v \<in> ghist sample_graph [22]. \<forall>p \<in> set (vparents sample_graph v).
     dtrange_contains (dtr 15 23) p \<longrightarrow> dtrange_contains (dtr 15 23) v"
proof -
  show "\<forall>v. dtrange_contains (dtr 15 23) v \<longrightarrow> v \<in> ghist sample_graph [22]"
    unfolding sample_hist(2) by (simp add: dtrange_contains_def)
  show "\<forall>v \<in> ghist sample_graph [22]. \<forall>p \<in> set (vparents sample_graph v).
     dtrange_contains (dtr 15 23) p \<longrightarrow> dtrange_contains (dtr 15 23) v"
    unfolding sample_hist(2)
  proof (intro ballI impI)
    fix v p assume "v \<in> {..< (23::nat)}" "p \<in> set (vparents sample_graph v)" "dtrange_contains (dtr 15 23) p"
    then show "dtrange_contains (dtr 15 23) v"
      using gdag.parents_less[OF sample_wf, of p v] by (simp add: dtrange_contains_def)
  qed
qed

end
