(* ===== verification/FrontierMoves.thy ===== *)
theory FrontierMoves
  imports GraphBuild
begin

text \<open>
  What \<open>Frontier::retreat\<close> does: it takes a range off the history, when the range is in the
  history and nothing outside the range descends from it.  The parents stored in the graph have
  to be antichains (\<open>graph_deep\<close>), as every pushed entry of a causal graph has.
\<close>

definition graph_deep :: "graph \<Rightarrow> bool" where
  "graph_deep g \<longleftrightarrow> (\<forall>e \<in> set (g_entries g). frontier_ok g (ge_parents e))"

lemma deep_parents:
  assumes g: "graph_wf g" "graph_deep g" and v: "in_graph g v"
  shows "frontier_ok g (vparents g v)"
proof -
  obtain e where e: "g_find g v = Some e" using v by (auto simp: in_graph_def)
  then have "e \<in> set (g_entries g)" "ge_key e \<le> v" using g_find_Some[OF g(1)] by auto
  then show ?thesis
    using e g(2) in_graph_start[OF g(1) e, of "v - 1"]
    by (auto simp: vparents_find graph_deep_def frontier_ok_def in_graph_def)
qed

lemma anc_first:
  assumes "anc ps a b" "a \<noteq> b"
  obtains c where "a \<in> set (ps c)" "anc ps c b"
  using assms unfolding anc_def by (cases rule: converse_rtranclpE) auto

lemma anc_leaves:
  assumes "anc ps a b" "a \<in> R" "b \<notin> R"
  obtains c d where "c \<in> R" "d \<notin> R" "c \<in> set (ps d)" "anc ps d b"
proof -
  have "\<exists>c d. c \<in> R \<and> d \<notin> R \<and> c \<in> set (ps d) \<and> anc ps d b"
    using assms(1,2) unfolding anc_def
  proof (induction rule: converse_rtranclp_induct)
    case base
    then show ?case using assms(3) by simp
  next
    case (step y z)
    then show ?case by (cases "z \<in> R") blast+
  qed
  then show thesis using that by blast
qed

lemma frontier_ok_subset:
  assumes "frontier_ok g f" "sorted_wrt (<) f'" "set f' \<subseteq> set f"
  shows "frontier_ok g f'"
proof -
  have "dominators (vparents g) (set f') = set f'"
    by (rule antichain_dominators) (use frontier_ok_antichain[OF assms(1)] assms(3) in blast)
  then show ?thesis using assms by (auto simp: frontier_ok_def)
qed

lemma retreat_parents_spec:
  assumes g: "graph_wf g"
  shows "frontier_ok g f \<Longrightarrow> frontier_ok g ps \<Longrightarrow> \<forall>u \<in> set f. \<forall>p \<in> set ps. \<not> ganc g u p \<Longrightarrow>
    \<exists>f'. retreat_parents g ps f = Some f' \<and> frontier_ok g f' \<and> ghist g f' = ghist g f \<union> ghist g ps"
proof (induction ps arbitrary: f)
  case (Cons p ps)
  have ps: "frontier_ok g ps" using frontier_ok_subset[OF Cons.prems(2), of ps] Cons.prems(2)
    by (auto simp: frontier_ok_def)
  have c: "frontier_contains_version g f p = Some (p \<in> ghist g f)"
    using Cons.prems(1,2) by (intro frontier_contains_version_spec[OF g]) (simp_all add: frontier_ok_def)
  show ?case
  proof (cases "p \<in> ghist g f")
    case True
    then have "{a. ganc g a p} \<subseteq> ghist g f" using hist_closed by blast
    then show ?thesis using Cons.IH[OF Cons.prems(1) ps] Cons.prems(3) c True by auto
  next
    case False
    then have nf: "p \<notin> set f" using hist_self by blast
    define f1 where "f1 = sorted_list_of_set (insert p (set f))"
    have s: "set f1 = insert p (set f)" by (simp add: f1_def del: sorted_list_of_set_insert_remove)
    have ins: "insert_nonoverlapping f p = Some f1"
      using insert_nonoverlapping_spec[of f p] Cons.prems(1) nf
      by (simp add: frontier_ok_def f1_def del: sorted_list_of_set_insert_remove)
    have "dominators (vparents g) (insert p (set f)) = insert p (set f)"
    proof (rule antichain_dominators)
      fix v w assume vw: "v \<in> insert p (set f)" "w \<in> insert p (set f)" "ganc g v w"
      have "\<not> (v = p \<and> w \<in> set f)" using False vw(3) by (auto simp: hist_def)
      moreover have "\<not> (v \<in> set f \<and> w = p)" using Cons.prems(3) vw(3) by auto
      ultimately show "v = w" using vw frontier_ok_antichain[OF Cons.prems(1)] by blast
    qed
    moreover have "\<forall>v \<in> insert p (set f). in_graph g v" using Cons.prems(1,2) by (simp add: frontier_ok_def)
    ultimately have "frontier_ok g f1" unfolding f1_def by (intro frontier_ok_sorted_list) simp_all
    note f1 = this and h1 = arg_cong[OF s, of "hist (vparents g)", unfolded hist_simps]
    have "\<not> ganc g p q" if "q \<in> set ps" for q
      using frontier_ok_antichain[OF Cons.prems(2), of p q] that Cons.prems(2)
      by (auto simp: frontier_ok_def)
    then have "\<exists>f'. retreat_parents g ps f1 = Some f' \<and> frontier_ok g f' \<and> ghist g f' = ghist g f1 \<union> ghist g ps"
      using Cons.prems(3) s by (intro Cons.IH[OF f1 ps]) auto
    then show ?thesis unfolding h1 using c False ins by auto
  qed
qed simp

text \<open>One run: the frontier loses \<open>{s..l}\<close>, a run inside one entry that ends the range.\<close>

lemma retreat_step:
  assumes g: "graph_wf g" "graph_deep g" and f: "frontier_ok g f"
    and e: "g_find g l = Some txn" and s: "ge_key txn \<le> s" "s \<le> l"
    and R: "{s..l} \<subseteq> R" "R \<subseteq> ghist g f" "\<forall>v \<in> R. v \<le> l" "\<forall>v \<in> ghist g f - R. set (vparents g v) \<inter> R = {}"
  shows "l \<in> set f"
    "\<exists>f'. retreat_parents g (vparents g s) (filter (\<lambda>t. t \<noteq> l) f) = Some f' \<and> frontier_ok g f' \<and>
      ghist g f' = ghist g f - {s..l}"
proof -
  have lR: "l \<in> R" using R(1) s(2) by auto
  then obtain u where u: "u \<in> set f" "ganc g l u" using R(2) by (auto simp: hist_def)
  have "l = u"
  proof (rule ccontr)
    assume "l \<noteq> u"
    then obtain c where c: "l \<in> set (vparents g c)" "ganc g c u" using anc_first[OF u(2)] by blast
    then have "c \<in> ghist g f" "l < c" using u(1) gdag.parents_less[OF g(1)] by (auto simp: hist_def)
    then show False using R(3,4) c(1) lR by (meson DiffI disjoint_iff leD)
  qed
  then show l: "l \<in> set f" using u(1) by simp
  let ?k = "filter (\<lambda>t. t \<noteq> l) f" and ?P = "ghist g (vparents g s)"
  have es: "g_find g s = Some txn" using in_graph_start[OF g(1) e s] .
  have h: "ganc g v l \<longleftrightarrow> (s \<le> v \<and> v \<le> l) \<or> v \<in> ?P" for v
    by (rule run_history[OF g(1) e s])
  have below: "v < s" if v: "v \<in> ?P" for v
    using v gdag.parents_less[OF g(1)] gdag.anc_le[OF g(1)] by (fastforce simp: hist_def)
  have k: "frontier_ok g ?k"
    using frontier_ok_subset[OF f, of ?k] f by (simp add: frontier_ok_def sorted_wrt_filter)
  have P: "frontier_ok g (vparents g s)"
    using deep_parents[OF g, of s] es by (simp add: in_graph_def)
  have "\<not> ganc g u p" if u: "u \<in> set ?k" and p: "p \<in> set (vparents g s)" for u p
  proof
    assume a: "ganc g u p"
    then have "u \<in> ?P" using p by (auto simp: hist_def)
    then have "ganc g u l" using h by blast
    then show False using frontier_ok_antichain[OF f, of u l] u l by auto
  qed
  then obtain f' where f': "retreat_parents g (vparents g s) ?k = Some f'" "frontier_ok g f'"
      "ghist g f' = ghist g ?k \<union> ?P"
    using retreat_parents_spec[OF g(1) k P] by blast
  have "ghist g f - {s..l} \<subseteq> ghist g ?k \<union> ?P"
  proof
    fix v assume v: "v \<in> ghist g f - {s..l}"
    then obtain w where w: "w \<in> set f" "ganc g v w" by (auto simp: hist_def)
    show "v \<in> ghist g ?k \<union> ?P"
    proof (cases "w = l")
      case True
      then show ?thesis using w(2) v h[of v] by auto
    next
      case False
      then show ?thesis using w by (auto simp: hist_def)
    qed
  qed
  moreover have "v \<notin> {s..l}" if v: "v \<in> ghist g ?k" for v
  proof
    assume sl: "v \<in> {s..l}"
    obtain w where w: "w \<in> set f" "w \<noteq> l" "ganc g v w" using v by (auto simp: hist_def)
    have "w \<notin> R"
    proof
      assume "w \<in> R"
      then have "w \<le> l" "v \<le> w" using R(3) gdag.anc_le[OF g(1) w(3)] by auto
      then have "ganc g w l" using h[of w] sl by auto
      then show False using frontier_ok_antichain[OF f w(1) l] w(2) by simp
    qed
    then obtain c d where cd: "c \<in> R" "d \<notin> R" "c \<in> set (vparents g d)" "ganc g d w"
      using anc_leaves[OF w(3)] sl R(1) by blast
    then have "d \<in> ghist g f" using w(1) by (auto simp: hist_def)
    then show False using R(4) cd by blast
  qed
  moreover have "ghist g ?k \<union> ?P \<subseteq> ghist g f"
    using h hist_closed[of l "vparents g" "set f"] hist_self[OF l] by (auto simp: hist_def)
  moreover have "?P \<inter> {s..l} = {}" using below by fastforce
  ultimately have "ghist g f' = ghist g f - {s..l}" unfolding f'(3) by blast
  then show "\<exists>f'. retreat_parents g (vparents g s) ?k = Some f' \<and> frontier_ok g f' \<and>
      ghist g f' = ghist g f - {s..l}"
    using f' by blast
qed

text \<open>The single-element fast case stores the parents of the run: the same frontier.\<close>

lemma retreat_single:
  assumes g: "graph_wf g" "graph_deep g" and l: "in_graph g l" and s: "g_find g l = Some txn" "ge_key txn \<le> s" "s \<le> l"
  shows "ghist g (vparents g s) = ghist g [l] - {s..l}" "frontier_ok g (vparents g s)"
proof -
  have below: "v < s" if v: "v \<in> ghist g (vparents g s)" for v
    using v gdag.parents_less[OF g(1)] gdag.anc_le[OF g(1)] by (fastforce simp: hist_def)
  then show "ghist g (vparents g s) = ghist g [l] - {s..l}"
    using run_history[OF g(1) s] by fastforce
  show "frontier_ok g (vparents g s)"
    using deep_parents[OF g, of s] in_graph_start[OF g(1) s] by (simp add: in_graph_def)
qed

lemma prev_entry:
  assumes ok: "vec_ok key len valid (pre @ x # xs)" and n: "Suc n = key x"
    and f: "rv_find key len (pre @ x # xs) n = Some e"
  obtains ys where "pre = ys @ [e]"
proof -
  from f ok have e: "e \<in> set (pre @ x # xs)" "key e \<le> n" "n < key e + len e"
    by (simp_all add: rv_find_Some[OF ok])
  have "e \<in> set pre"
  proof (rule ccontr)
    assume "e \<notin> set pre"
    then consider "e = x" | "e \<in> set xs" using e(1) by auto
    then have "key x \<le> key e" by cases (use ok in auto)
    then show False using e(2) n by simp
  qed
  then obtain ys y where pre: "pre = ys @ [y]" by (cases pre rule: rev_cases) auto
  have "e = y"
  proof (rule ccontr)
    assume "e \<noteq> y"
    then have "e \<in> set ys" using \<open>e \<in> set pre\<close> pre by simp
    then have "key e + len e \<le> key y" "key y + len y \<le> key x" "0 < len y" using ok pre by auto
    then show False using e(3) n by simp
  qed
  then show thesis using that pre by simp
qed

lemma retreat_loop_unfold:
  assumes e: "g_find g (max (dt_start rng) (ge_key txn)) = Some txn"
    and n: "(if length f = 1 then Some (vparents g (max (dt_start rng) (ge_key txn)))
      else retreat_parents g (vparents g (max (dt_start rng) (ge_key txn)))
             (filter (\<lambda>t. t \<noteq> dtrange_last rng) f)) = Some f1"
  shows "retreat_loop g (txn # txns) f rng = (if ge_key txn \<le> dt_start rng then Some f1
    else retreat_loop g txns f1 (rng\<lparr>dt_end := ge_key txn\<rparr>))"
proof (cases "ge_key txn < dt_start rng")
  case True
  then have "vparents g (dt_start rng) = [dt_start rng - 1]" using e by (simp add: vparents_find)
  then show ?thesis using n True e by (auto simp: vparents_entry ge_key_def ge_with_parents_def split: if_splits)
next
  case False
  then have m: "max (dt_start rng) (ge_key txn) = ge_key txn" by simp
  then have "vparents g (ge_key txn) = ge_parents txn" using e by (simp add: vparents_find)
  then show ?thesis using n False unfolding m by (auto simp: ge_with_parents_def ge_key_def split: if_splits)
qed

lemma retreat_loop_spec:
  assumes g: "graph_wf g" "graph_deep g"
  shows "g_entries g = rev ts @ rest \<Longrightarrow> ts \<noteq> [] \<Longrightarrow> g_find g (dtrange_last rng) = Some (hd ts) \<Longrightarrow>
    frontier_ok g f \<Longrightarrow> dt_start rng < dt_end rng \<Longrightarrow> range_set rng \<subseteq> ghist g f \<Longrightarrow>
    \<forall>v \<in> ghist g f - range_set rng. set (vparents g v) \<inter> range_set rng = {} \<Longrightarrow>
    \<exists>f'. retreat_loop g ts f rng = Some f' \<and> frontier_ok g f' \<and> ghist g f' = ghist g f - range_set rng"
proof (induction ts arbitrary: f rng rest)
  case (Cons txn txns f rng rest)
  let ?l = "dtrange_last rng" and ?s = "max (dt_start rng) (ge_key txn)"
  have e: "g_find g ?l = Some txn" using Cons.prems(3) by simp
  then have kl: "ge_key txn \<le> ?l" using g_find_Some[OF g(1)] by simp
  have l: "dt_start rng \<le> ?l" "dt_end rng = Suc ?l" using Cons.prems(5) by (auto simp: dtrange_last_def)
  have s: "ge_key txn \<le> ?s" "?s \<le> ?l" using kl l by auto
  have es: "g_find g ?s = Some txn" using in_graph_start[OF g(1) e s] .
  have R: "{?s..?l} \<subseteq> range_set rng" "\<forall>v \<in> range_set rng. v \<le> ?l" using l by auto
  note st = retreat_step[OF g Cons.prems(4) e s R(1) Cons.prems(6) R(2) Cons.prems(7)]
  obtain f1 where f1: "(if length f = 1 then Some (vparents g ?s)
      else retreat_parents g (vparents g ?s) (filter (\<lambda>t. t \<noteq> ?l) f)) = Some f1"
    "frontier_ok g f1" "ghist g f1 = ghist g f - {?s..?l}"
  proof (cases "length f = 1")
    case True
    then have "f = [?l]" using st(1) by (auto simp: length_Suc_conv)
    then show ?thesis using that[of "vparents g ?s"] True retreat_single[OF g _ e s] e
      by (simp add: in_graph_def)
  next
    case False
    then show ?thesis using st(2) that by auto
  qed
  have eq: "retreat_loop g (txn # txns) f rng = (if ge_key txn \<le> dt_start rng then Some f1
      else retreat_loop g txns f1 (rng\<lparr>dt_end := ge_key txn\<rparr>))"
    by (rule retreat_loop_unfold[OF es f1(1)])
  show ?case
  proof (cases "ge_key txn \<le> dt_start rng")
    case True
    then have "{?s..?l} = range_set rng" using l by auto
    then show ?thesis using eq True f1 by simp
  next
    case False
    let ?r = "rng\<lparr>dt_end := ge_key txn\<rparr>"
    have split: "range_set rng = range_set ?r \<union> {?s..?l}" "range_set ?r \<inter> {?s..?l} = {}"
      using False l kl by auto
    have last: "Suc (dtrange_last ?r) = ge_key txn" "dtrange_last ?r \<in> range_set ?r"
      using False by (auto simp: dtrange_last_def)
    have "dtrange_last ?r \<in> ghist g f" using last(2) split(1) Cons.prems(6) by blast
    then have "in_graph g (dtrange_last ?r)"
      using gdag.hist_run[OF g(1), of "set f"] Cons.prems(4) by (auto simp: frontier_ok_def)
    then obtain a where a: "g_find g (dtrange_last ?r) = Some a" by (auto simp: in_graph_def)
    have es': "g_entries g = rev txns @ txn # rest" using Cons.prems(1) by simp
    obtain ys where ys: "rev txns = ys @ [a]"
      using prev_entry[of ge_key ge_len ge_valid "rev txns" txn rest] graph_wfD(1)[OF g(1)] a last(1)
      unfolding es' by metis
    then have tx: "txns = a # rev ys" by (simp add: rev_swap)
    have sub: "range_set ?r \<subseteq> ghist g f1" "ghist g f1 - range_set ?r = ghist g f - range_set rng"
      unfolding f1(3) using split Cons.prems(6) by blast+
    have "\<exists>f'. retreat_loop g txns f1 ?r = Some f' \<and> frontier_ok g f' \<and> ghist g f' = ghist g f1 - range_set ?r"
    proof (rule Cons.IH[OF es' _ _ f1(2) _ sub(1)])
      show "\<forall>v \<in> ghist g f1 - range_set ?r. set (vparents g v) \<inter> range_set ?r = {}"
        unfolding sub(2) using Cons.prems(7) split(1) by blast
    qed (use tx a False in simp_all)
    then show ?thesis using eq False sub(2) by simp
  qed
qed simp

theorem retreat_spec:
  assumes g: "graph_wf g" "graph_deep g" and f: "frontier_ok g f" and r: "dt_start rng \<le> dt_end rng"
    and h: "\<forall>v. dtrange_contains rng v \<longrightarrow> v \<in> ghist g f"
    and out: "\<forall>v \<in> ghist g f. \<forall>p \<in> set (vparents g v). dtrange_contains rng p \<longrightarrow> dtrange_contains rng v"
  shows "\<exists>f'. retreat f g rng = Some f' \<and> frontier_ok g f' \<and>
    ghist g f' = ghist g f - {v. dtrange_contains rng v}"
proof -
  have c: "dtrange_contains rng v \<longleftrightarrow> v \<in> range_set rng" for v by (simp add: dtrange_contains_def)
  have rs: "{v. dtrange_contains rng v} = range_set rng" by (auto simp: c)
  show ?thesis
  proof (cases "dt_start rng < dt_end rng")
    case False
    then show ?thesis using f r by (auto simp: retreat_def dtrange_is_empty_def dtrange_contains_def)
  next
    case True
    then have "dtrange_last rng \<in> range_set rng" by (auto simp: dtrange_last_def)
    then have "dtrange_last rng \<in> ghist g f" using h c by blast
    then have "in_graph g (dtrange_last rng)"
      using gdag.hist_run[OF g(1), of "set f"] f by (auto simp: frontier_ok_def)
    then obtain txn where txn: "g_find g (dtrange_last rng) = Some txn" by (auto simp: in_graph_def)
    then obtain i where i: "find_index ge_key ge_len (g_entries g) (dtrange_last rng) = Inr i" "txn = g_entries g ! i"
      by (auto simp: rv_find_def split: sum.splits)
    note s = find_index_ok_split[OF graph_wfD(1)[OF g(1)] i(1)]
    let ?ts = "rev (take (Suc i) (g_entries g))"
    have ts: "?ts = txn # rev (take i (g_entries g))" using s(2) i(2) by (simp add: take_Suc_conv_app_nth)
    have "\<exists>f'. retreat_loop g ?ts f rng = Some f' \<and> frontier_ok g f' \<and> ghist g f' = ghist g f - range_set rng"
    proof (rule retreat_loop_spec[OF g _ _ _ f True])
      show "g_entries g = rev ?ts @ drop (Suc i) (g_entries g)" by simp
      show "?ts \<noteq> []" "g_find g (dtrange_last rng) = Some (hd ?ts)" unfolding ts using txn by simp_all
    qed (use h out c in blast)+
    then show ?thesis
      unfolding retreat_def dtrange_is_empty_def i(1) sum.case rs using True by simp
  qed
qed

text \<open>Retreating over what an advance added leads back to the frontier it started from.\<close>

lemma advance_retreat:
  assumes g: "graph_wf g" "graph_deep g" and f: "frontier_ok g f" and r: "dt_start rng \<le> dt_end rng"
    and a: "\<forall>v. dtrange_contains rng v \<longrightarrow> in_graph g v \<and> v \<notin> ghist g f \<and>
      (\<forall>p \<in> set (vparents g v). p \<in> ghist g f \<or> dtrange_contains rng p)"
  shows "\<exists>f1. advance f g rng = Some f1 \<and> retreat f1 g rng = Some f"
proof -
  obtain f1 where f1: "advance f g rng = Some f1" "frontier_ok g f1"
      "ghist g f1 = ghist g f \<union> {v. dtrange_contains rng v}"
    using advance_spec[OF g(1) f r a] by blast
  have "p \<in> ghist g f" if "v \<in> ghist g f" "p \<in> set (vparents g v)" for v p
    using that hist_closed anc_parent by metis
  then have "\<forall>v \<in> ghist g f1. \<forall>p \<in> set (vparents g v). dtrange_contains rng p \<longrightarrow> dtrange_contains rng v"
    unfolding f1(3) using a by blast
  then obtain f2 where f2: "retreat f1 g rng = Some f2" "frontier_ok g f2"
      "ghist g f2 = ghist g f1 - {v. dtrange_contains rng v}"
    using retreat_spec[OF g f1(2) r] f1(3) by blast
  have "ghist g f2 = ghist g f" unfolding f2(3) f1(3) using a by blast
  then have "f2 = f" by (rule frontier_ok_unique[OF g(1) f2(2) f])
  then show ?thesis using f1(1) f2(1) by blast
qed

text \<open>
  The sparse advance needs no connection between the frontier and the range: it computes the
  dominators of both, from a frontier built over the range alone.
\<close>

lemma hist_run_end:
  assumes g: "graph_wf g" and e: "g_find g (dtrange_last rng) = Some e"
    and s: "ge_key e \<le> dt_start rng" "dt_start rng < dt_end rng"
  shows "hist (vparents g) (range_set rng) = ghist g [dtrange_last rng]"
    "ghist g [dtrange_last rng] = ghist g (vparents g (dt_start rng)) \<union> range_set rng"
proof -
  have l: "dt_start rng \<le> dtrange_last rng" "dt_end rng = Suc (dtrange_last rng)"
    using s(2) by (auto simp: dtrange_last_def)
  note h = run_history[OF g e s(1) l(1)]
  show "ghist g [dtrange_last rng] = ghist g (vparents g (dt_start rng)) \<union> range_set rng"
    by (auto simp: h l(2))
  then have "range_set rng \<subseteq> ghist g [dtrange_last rng]" by blast
  then have "hist (vparents g) (range_set rng) \<subseteq> ghist g [dtrange_last rng]" by (simp only: hist_subset)
  moreover have "{dtrange_last rng} \<subseteq> hist (vparents g) (range_set rng)"
    using hist_self[of "dtrange_last rng" "range_set rng"] l by simp
  then have "ghist g [dtrange_last rng] \<subseteq> hist (vparents g) (range_set rng)" by (simp only: hist_subset list.set)
  ultimately show "hist (vparents g) (range_set rng) = ghist g [dtrange_last rng]" by (rule subset_antisym)
qed

theorem advance_sparse_spec:
  assumes g: "graph_wf g" and f: "frontier_ok g f" "small_frontier f"
    and r: "dt_start rng < dt_end rng" "\<forall>v. dtrange_contains rng v \<longrightarrow> in_graph g v \<and> v < usize_max div 2"
  shows "\<exists>f'. advance_sparse f g rng = Some f' \<and> frontier_ok g f' \<and>
    ghist g f' = ghist g f \<union> hist (vparents g) {v. dtrange_contains rng v}"
proof -
  have c: "dtrange_contains rng v \<longleftrightarrow> v \<in> range_set rng" for v by (simp add: dtrange_contains_def)
  have rs: "{v. dtrange_contains rng v} = range_set rng" by (auto simp: c)
  have r': "in_graph g v" "v < usize_max div 2" if "v \<in> range_set rng" for v using r(2) that c by blast+
  let ?l = "dtrange_last rng"
  have l: "dt_start rng \<le> ?l" "dt_end rng = Suc ?l" using r(1) by (auto simp: dtrange_last_def)
  have "dt_start rng \<in> range_set rng" using r(1) by simp
  then obtain txn where txn: "g_find g (dt_start rng) = Some txn" using r'(1) by (auto simp: in_graph_def)
  then obtain i where i: "find_index ge_key ge_len (g_entries g) (dt_start rng) = Inr i" "txn = g_entries g ! i"
    by (auto simp: rv_find_def split: sum.splits)
  have tx: "ge_key txn \<le> dt_start rng" "txn \<in> set (g_entries g)" using txn g_find_Some[OF g] by auto
  have key: "ge_key txn + ge_len txn = dt_end (ge_span txn)"
    using graph_wfD(1)[OF g] tx(2) by (intro ge_end) (simp add: vec_ok_def)
  show ?thesis
  proof (cases "dt_end rng \<le> dt_end (ge_span txn)")
    case True
    have e: "g_find g ?l = Some txn" using True tx key l by (simp add: g_find_Some[OF g])
    note h = hist_run_end[OF g e tx(1) r(1)]
    have ok: "frontier_ok g [?l]" using e by (simp add: frontier_ok_def in_graph_def)
    have v: "advance_sparse f g rng = advance_sparse_known_run f g (vparents g (dt_start rng)) rng"
      using True by (simp add: advance_sparse_def i(1) i(2)[symmetric] vparents_entry[OF txn])
    show ?thesis
    proof (cases "f = vparents g (dt_start rng)")
      case True
      then show ?thesis
        using v ok h unfolding rs by (simp add: advance_sparse_known_run_def replace_with_1_def)
    next
      case False
      have "small_frontier [?l]" using r'(2)[of ?l] l by (simp add: small_frontier_def)
      then show ?thesis
        using merge_union_spec[OF g f(1) ok f(2)] v False unfolding rs h(1)
        by (simp add: advance_sparse_known_run_def)
    qed
  next
    case False
    have root: "frontier_ok g []" by (simp add: frontier_ok_def)
    have "p \<in> range_set rng \<or> (\<forall>u \<in> range_set rng. \<not> ganc g u p)"
      if "v \<in> range_set rng" "p \<in> set (vparents g v)" for v p
    proof -
      have "p < v" using gdag.parents_less[OF g that(2)] .
      then show ?thesis using that(1) gdag.anc_le[OF g, of _ p] by fastforce
    qed
    then obtain f2 where f2: "advance [] g rng = Some f2" "frontier_ok g f2"
        "ghist g f2 = hist (vparents g) (range_set rng)"
      using advance_general[OF g root r(1)] r'(1) by auto
    have "v \<le> ?l" if "v \<in> set f2" for v
      using hist_self[OF that, of "vparents g"] gdag.hist_le[OF g, of "range_set rng" ?l v] l unfolding f2(3) by auto
    moreover have "?l < usize_max div 2" using r'(2)[of ?l] l by simp
    ultimately have "small_frontier f2" unfolding small_frontier_def using le_less_trans by blast
    then show ?thesis
      using merge_union_spec[OF g f(1) f2(2) f(2)] False i f2(1) unfolding rs f2(3)
      by (simp add: advance_sparse_def frontier_root_def)
  qed
qed

lemma sample_deep: "graph_deep sample_graph"
proof -
  have "frontier_ok sample_graph []" "frontier_ok sample_graph [4]" "frontier_ok sample_graph [7]"
    by (simp_all add: frontier_ok_def)
  moreover have "ge_parents ` set (g_entries sample_graph) = {[], [4], [9, 19], [7]}"
    by (simp add: sample_graph_def)
  then have "graph_deep sample_graph \<longleftrightarrow> (\<forall>ps \<in> {[], [4], [9, 19], [7]}. frontier_ok sample_graph ps)"
    unfolding graph_deep_def by (metis (no_types, lifting) imageE imageI)
  ultimately show ?thesis by simp
qed

end
