(* ===== verification/GraphExport.thy ===== *)
theory GraphExport
  imports Frontier GraphBuild
begin

text \<open>
  The remaining traversals of the graph: \<open>make_simple_graph\<close> (\<open>graph/simple.rs\<close>), which exports the
  history of a frontier as entries whose parents are always the last version of another entry,
  \<open>count_all_graph_entries\<close> (\<open>graph/tools.rs\<close>), which counts those entries, the checker of
  \<open>graph/check.rs\<close> with its failing \<open>assert!\<close> as \<open>False\<close>, and the scopes of \<open>graph/scope.rs\<close>.
\<close>

subsection \<open>make_simple_graph\<close>

fun simple_in_run :: "dtrange \<Rightarrow> lv list \<Rightarrow> graph_entry_simple list \<times> dtrange \<times> lv list" where
  "simple_in_run span_remaining [] = ([], span_remaining, [])"
| "simple_in_run span_remaining (peek_v # queue) =
     (if peek_v < dt_start span_remaining then ([], span_remaining, peek_v # queue)
      else if peek_v = dtrange_last span_remaining then simple_in_run span_remaining queue
      else
        (let (span_remaining, emit_here) =
               dtrange_truncate span_remaining (peek_v + 1 - dt_start span_remaining);
             (rest, out) = simple_in_run span_remaining queue
         in (\<lparr>gs_span = emit_here, gs_parents = [peek_v]\<rparr> # rest, out)))"

partial_function (option) simple_loop :: "graph \<Rightarrow> lv list \<Rightarrow> graph_entry_simple list option" where
  [code]: "simple_loop g queue =
     (case heap_pop queue of
        None \<Rightarrow> Some []
      | Some (v, queue) \<Rightarrow>
          (case g_find_packed g v of
             None \<Rightarrow> None
           | Some e \<Rightarrow>
               let (emitted, span_remaining, queue) =
                     simple_in_run \<lparr>dt_start = dt_start (ge_span e), dt_end = v + 1\<rparr> queue
               in Option.bind (simple_loop g (heap_extend (ge_parents e) queue))
                    (\<lambda>rest. Some (emitted @ \<lparr>gs_span = span_remaining, gs_parents = ge_parents e\<rparr> # rest))))"

definition make_simple_graph :: "graph \<Rightarrow> lv list \<Rightarrow> graph_entry_simple list option" where
  "make_simple_graph g frontier =
     (case simple_loop g (heap_extend frontier []) of None \<Rightarrow> None | Some result \<Rightarrow> Some (rev result))"

subsection \<open>count_all_graph_entries\<close>

fun count_in_run :: "lv \<Rightarrow> lv \<Rightarrow> lv list \<Rightarrow> nat \<times> lv list" where
  "count_in_run start v [] = (0, [])"
| "count_in_run start v (next_lv # queue) =
     (if next_lv \<ge> start
      then (if next_lv < v
            then (let (n, queue) = count_in_run start next_lv queue in (n + 1, queue))
            else count_in_run start v queue)
      else (0, next_lv # queue))"

partial_function (option) count_loop :: "graph \<Rightarrow> lv list \<Rightarrow> nat option" where
  [code]: "count_loop g queue =
     (case heap_pop queue of
        None \<Rightarrow> Some 0
      | Some (v, queue) \<Rightarrow>
          (case g_find_packed g v of
             None \<Rightarrow> None
           | Some entry \<Rightarrow>
               let (n, queue) = count_in_run (dt_start (ge_span entry)) v queue
               in Option.bind (count_loop g (heap_extend (ge_parents entry) queue))
                    (\<lambda>rest. Some (n + 1 + rest))))"

definition count_all_graph_entries :: "graph \<Rightarrow> lv list \<Rightarrow> nat option" where
  "count_all_graph_entries g frontier = count_loop g (heap_extend frontier [])"

subsection \<open>dbg_check\<close>

fun check_child :: "graph_entry list \<Rightarrow> graph_entry \<Rightarrow> nat \<Rightarrow> bool" where
  "check_child entries txn child_idx \<longleftrightarrow>
     child_idx < length entries \<and>
     list_ex (\<lambda>p. ge_contains txn p) (ge_parents (entries ! child_idx))"

text \<open>
  The loop over the parents, highest first: the assertions and the shadow they leave.  Looking at
  the entry after the last one panics.
\<close>

fun check_parents :: "graph_entry list \<Rightarrow> bool \<Rightarrow> nat \<Rightarrow> graph_entry \<Rightarrow> lv list \<Rightarrow> lv \<Rightarrow> lv option" where
  "check_parents entries sparse idx txn [] expect_shadow = Some expect_shadow"
| "check_parents entries sparse idx txn (p # ps) expect_shadow =
     (if \<not> p < dt_start (ge_span txn) then None
      else if sparse \<and> \<not> contains_needle ge_key ge_len entries p then None
      else (case find_index ge_key ge_len entries p of
              Inl _ \<Rightarrow> None
            | Inr parent_idx \<Rightarrow>
                let parent_txn = entries ! parent_idx
                in if idx \<notin> set (ge_children parent_txn) then None
                   else if p + 1 = expect_shadow
                   then check_parents entries sparse idx txn ps (ge_shadow parent_txn)
                   else if sparse
                   then (if parent_idx + 1 < length entries
                         then check_parents entries sparse idx txn ps
                                (if expect_shadow = dt_start (ge_span (entries ! (parent_idx + 1)))
                                 then ge_shadow parent_txn else expect_shadow)
                         else None)
                   else check_parents entries sparse idx txn ps expect_shadow))"

fun check_entries :: "graph \<Rightarrow> bool \<Rightarrow> bool \<Rightarrow> bool \<Rightarrow> nat \<Rightarrow> nat \<Rightarrow> graph_entry list \<Rightarrow> bool" where
  "check_entries g deep sparse strict idx next_change [] \<longleftrightarrow> True"
| "check_entries g deep sparse strict idx next_change (txn # rest) \<longleftrightarrow>
     dt_end (ge_span txn) > dt_start (ge_span txn) \<and>
     list_all (check_child (g_entries g) txn) (ge_children txn) \<and>
     is_sorted_slice True (ge_children txn) \<and>
     (case (if ge_parents txn = [] then Some next_change
            else check_parents (g_entries g) sparse idx txn (rev (ge_parents txn)) next_change) of
        None \<Rightarrow> False
      | Some expect_shadow \<Rightarrow>
          (deep \<and> ge_parents txn \<noteq> [] \<longrightarrow>
             (case find_dominators_full g (ge_parents txn) of
                None \<Rightarrow> False | Some visits \<Rightarrow> list_all snd visits)) \<and>
          (if strict then ge_shadow txn = expect_shadow else ge_shadow txn \<ge> expect_shadow)) \<and>
     check_entries g deep sparse strict (idx + 1) (dt_end (ge_span txn)) rest"

definition root_indexes :: "graph_entry list \<Rightarrow> nat list" where
  "root_indexes entries = map fst (filter (\<lambda>(i, entry). ge_parents entry = []) (enumerate 0 entries))"

definition graph_dbg_check_internal :: "graph \<Rightarrow> bool \<Rightarrow> bool \<Rightarrow> bool \<Rightarrow> bool" where
  "graph_dbg_check_internal g deep sparse strict_shadow_checks \<longleftrightarrow>
     (sparse \<or> check_packed_from_0 ge_key ge_len (g_entries g)) \<and>
     check_fully_merged ge_can_append (g_entries g) \<and>
     root_indexes (g_entries g) = g_root_children g \<and>
     check_entries g deep sparse strict_shadow_checks 0 0 (g_entries g)"

definition graph_dbg_check :: "graph \<Rightarrow> bool \<Rightarrow> bool" where
  "graph_dbg_check g deep = graph_dbg_check_internal g deep False True"

definition graph_dbg_check_subgraph :: "graph \<Rightarrow> bool \<Rightarrow> bool" where
  "graph_dbg_check_subgraph g deep = graph_dbg_check_internal g deep True False"

subsection \<open>Scopes\<close>

record scoped_parents =
  sp_created_at :: lv
  sp_deleted_at :: frontier
  sp_owned_times :: "dtrange list"

fun deleted_in :: "graph \<Rightarrow> lv list \<Rightarrow> lv list \<Rightarrow> bool option" where
  "deleted_in g version [] = Some False"
| "deleted_in g version (v # vs) =
     (case frontier_contains_version g version v of
        None \<Rightarrow> None | Some True \<Rightarrow> Some True | Some False \<Rightarrow> deleted_in g version vs)"

definition exists_at :: "graph \<Rightarrow> scoped_parents \<Rightarrow> lv list \<Rightarrow> bool option" where
  "exists_at g info version =
     (case frontier_contains_version g version (sp_created_at info) of
        None \<Rightarrow> None
      | Some False \<Rightarrow> Some False
      | Some True \<Rightarrow>
          (case deleted_in g version (sp_deleted_at info) of
             None \<Rightarrow> None | Some del \<Rightarrow> Some (\<not> del)))"

end
