(* ===== verification/GraphExportFacts.thy ===== *)
theory GraphExportFacts
  imports GraphExport
begin

text \<open>
  \<open>make_simple_graph\<close> returns the history of the frontier: every version in it once, with its
  parents, in entries whose parents are always the last version of an entry.
\<close>

definition simple_desc :: "graph_entry_simple list \<Rightarrow> bool" where
  "simple_desc es \<longleftrightarrow> sorted_wrt (\<lambda>x y. dt_end (gs_span y) \<le> dt_start (gs_span x)) es \<and>
     (\<forall>e \<in> set es. gs_valid e)"

definition span_members :: "graph_entry_simple list \<Rightarrow> lv set" where
  "span_members es = {v. \<exists>e \<in> set es. dtrange_contains (gs_span e) v}"

definition last_members :: "graph_entry_simple list \<Rightarrow> lv set" where
  "last_members es = (\<lambda>e. dtrange_last (gs_span e)) ` set es"

definition simple_items :: "graph \<Rightarrow> graph_entry_simple list \<Rightarrow> bool" where
  "simple_items g es \<longleftrightarrow> (\<forall>e \<in> set es. \<forall>(v, ps) \<in> set (gs_items e). vparents g v = ps)"

lemma simple_desc_simps [simp]:
  "simple_desc []"
  "simple_desc (e # es) \<longleftrightarrow> gs_valid e \<and> (\<forall>y \<in> set es. dt_end (gs_span y) \<le> dt_start (gs_span e)) \<and> simple_desc es"
  by (auto simp: simple_desc_def)

lemma simple_desc_append: "simple_desc (xs @ ys) \<longleftrightarrow> simple_desc xs \<and> simple_desc ys \<and>
    (\<forall>x \<in> set xs. \<forall>y \<in> set ys. dt_end (gs_span y) \<le> dt_start (gs_span x))"
  by (auto simp: simple_desc_def sorted_wrt_append)

lemma span_members_simps [simp]:
  "span_members [] = {}"
  "span_members (e # es) = {dt_start (gs_span e) ..< dt_end (gs_span e)} \<union> span_members es"
  "span_members (es @ es') = span_members es \<union> span_members es'"
  by (auto simp: span_members_def dtrange_contains_def)

lemma last_members_simps [simp]:
  "last_members [] = {}"
  "last_members (e # es) = insert (dtrange_last (gs_span e)) (last_members es)"
  "last_members (es @ es') = last_members es \<union> last_members es'"
  by (auto simp: last_members_def)

lemma simple_items_simps [simp]:
  "simple_items g []"
  "simple_items g (e # es) \<longleftrightarrow> (\<forall>(v, ps) \<in> set (gs_items e). vparents g v = ps) \<and> simple_items g es"
  "simple_items g (es @ es') \<longleftrightarrow> simple_items g es \<and> simple_items g es'"
  by (auto simp: simple_items_def)

lemma gs_items_iff:
  "(\<forall>(v, ps) \<in> set (gs_items e). vparents g v = ps) \<longleftrightarrow>
   (\<forall>v. dt_start (gs_span e) \<le> v \<longrightarrow> v < dt_end (gs_span e) \<longrightarrow>
     vparents g v = (if v > dt_start (gs_span e) then [v - 1] else gs_parents e))"
  by (auto simp: gs_items_def)

text \<open>One run, cut at the versions of the queue that lie in it.\<close>

lemma simple_in_run_spec:
  assumes "descending q" "\<forall>x \<in> set q. x \<le> v" "s \<le> v"
    and "simple_in_run \<lparr>dt_start = s, dt_end = v + 1\<rparr> q = (es, sp, q')"
  shows "\<exists>w. sp = \<lparr>dt_start = s, dt_end = w + 1\<rparr> \<and> s \<le> w \<and> w \<le> v \<and> q' = filter (\<lambda>x. x < s) q \<and>
    simple_desc es \<and> (\<forall>e \<in> set es. w < dt_start (gs_span e) \<and> dt_end (gs_span e) \<le> v + 1) \<and>
    span_members es = {w <.. v} \<and> insert w (last_members es) = insert v {x \<in> set q. s \<le> x} \<and>
    (\<forall>e \<in> set es. gs_parents e = [dt_start (gs_span e) - 1] \<and>
       dt_start (gs_span e) - 1 \<in> insert w (last_members es))"
  using assms
proof (induction q arbitrary: v es)
  case (Cons x q)
  have q: "descending q" "\<forall>y \<in> set q. y \<le> x" "x \<le> v" using Cons.prems(1,2) by auto
  consider (below) "x < s" | (same) "x = v" "s \<le> x" | (cut) "s \<le> x" "x < v" using q(3) by linarith
  then show ?case
  proof cases
    case below
    then have f: "filter (\<lambda>x. x < s) (x # q) = x # q" "{y \<in> set (x # q). s \<le> y} = {}"
      using q(2) by (auto simp: filter_id_conv)
    have "es = []" "sp = \<lparr>dt_start = s, dt_end = v + 1\<rparr>" "q' = x # q" using below Cons.prems(4) by simp_all
    then show ?thesis unfolding f using Cons.prems(3) by auto
  next
    case same
    have r: "simple_in_run \<lparr>dt_start = s, dt_end = v + 1\<rparr> q = (es, sp, q')"
      using same Cons.prems(4) by (simp add: dtrange_last_def)
    have "\<forall>y \<in> set q. y \<le> v" using q by auto
    note ih = Cons.IH[OF q(1) this Cons.prems(3) r]
    have "filter (\<lambda>x. x < s) (x # q) = filter (\<lambda>x. x < s) q"
      "insert v {y \<in> set (x # q). s \<le> y} = insert v {y \<in> set q. s \<le> y}" using same by auto
    then show ?thesis using ih by simp
  next
    case cut
    let ?e = "\<lparr>gs_span = \<lparr>dt_start = x + 1, dt_end = v + 1\<rparr>, gs_parents = [x]\<rparr>"
    obtain es' where r: "simple_in_run \<lparr>dt_start = s, dt_end = x + 1\<rparr> q = (es', sp, q')" "es = ?e # es'"
      using cut Cons.prems(4)
      by (auto simp: dtrange_last_def dtrange_truncate_def Let_def split: prod.splits)
    obtain w where w: "sp = \<lparr>dt_start = s, dt_end = w + 1\<rparr>" "s \<le> w" "w \<le> x" "q' = filter (\<lambda>x. x < s) q"
        "simple_desc es'" "\<forall>e \<in> set es'. w < dt_start (gs_span e) \<and> dt_end (gs_span e) \<le> x + 1"
        "span_members es' = {w <.. x}" "insert w (last_members es') = insert x {x \<in> set q. s \<le> x}"
        "\<forall>e \<in> set es'. gs_parents e = [dt_start (gs_span e) - 1] \<and>
           dt_start (gs_span e) - 1 \<in> insert w (last_members es')"
      using Cons.IH[OF q(1,2) cut(1) r(1)] by blast
    have "simple_desc es" using w(5,6) cut by (auto simp: r(2) gs_valid_def)
    moreover have "\<forall>e \<in> set es. w < dt_start (gs_span e) \<and> dt_end (gs_span e) \<le> v + 1"
      using w(3,6) cut by (fastforce simp: r(2))
    moreover have "span_members es = {w <.. v}" using w(3,7) cut by (auto simp: r(2))
    moreover have lm: "insert w (last_members es) = insert v (insert w (last_members es'))"
      by (auto simp: r(2) dtrange_last_def)
    moreover have "insert v (insert w (last_members es')) = insert v {y \<in> set (x # q). s \<le> y}"
      unfolding w(8) using cut by auto
    moreover have "\<forall>e \<in> set es. gs_parents e = [dt_start (gs_span e) - 1] \<and>
        dt_start (gs_span e) - 1 \<in> insert w (last_members es)"
      unfolding lm using w(8,9) by (auto simp: r(2))
    ultimately show ?thesis using w(1,2,3,4) cut by (intro exI[of _ w]) auto
  qed
qed (auto simp: dtrange_last_def)

text \<open>The whole traversal.\<close>

definition simple_result :: "graph \<Rightarrow> lv \<Rightarrow> lv list \<Rightarrow> graph_entry_simple list \<Rightarrow> bool" where
  "simple_result g n q es \<longleftrightarrow> simple_desc es \<and> (\<forall>e \<in> set es. dt_end (gs_span e) \<le> n) \<and>
     simple_items g es \<and> span_members es = ghist g q \<and> set q \<subseteq> last_members es \<and>
     (\<forall>e \<in> set es. set (gs_parents e) \<subseteq> last_members es)"

lemma simple_loop_spec:
  assumes g: "graph_wf g"
  shows "descending q \<Longrightarrow> \<forall>x \<in> set q. x < n \<and> in_graph g x \<Longrightarrow>
    \<exists>es. simple_loop g q = Some es \<and> simple_result g n q es"
proof (induction n arbitrary: q rule: less_induct)
  case (less n)
  show ?case
  proof (cases q)
    case Nil
    then show ?thesis
      by (intro exI[of _ "[]"], subst simple_loop.simps) (simp add: simple_result_def)
  next
    case (Cons v q0)
    have v: "in_graph g v" "v < n" "descending q0" "\<forall>x \<in> set q0. x \<le> v \<and> in_graph g x"
      using less.prems by (auto simp: Cons)
    then obtain e where e: "g_find g v = Some e" by (auto simp: in_graph_def)
    define s where "s = ge_key e"
    have s: "s \<le> v" using gdag.run_start[OF g find_run[OF e]] by (simp add: s_def)
    obtain es1 sp q1 where r: "simple_in_run \<lparr>dt_start = s, dt_end = v + 1\<rparr> q0 = (es1, sp, q1)"
      by (metis surj_pair)
    have "\<forall>x \<in> set q0. x \<le> v" using v(4) by blast
    from simple_in_run_spec[OF v(3) this s r] obtain w where
      w: "sp = \<lparr>dt_start = s, dt_end = w + 1\<rparr>" "s \<le> w" "w \<le> v" "q1 = filter (\<lambda>x. x < s) q0"
        "simple_desc es1" "\<forall>e \<in> set es1. w < dt_start (gs_span e) \<and> dt_end (gs_span e) \<le> v + 1"
        "span_members es1 = {w <.. v}" "insert w (last_members es1) = insert v {x \<in> set q0. s \<le> x}"
        "\<forall>e \<in> set es1. gs_parents e = [dt_start (gs_span e) - 1] \<and>
           dt_start (gs_span e) - 1 \<in> insert w (last_members es1)"
      by blast
    define e1 where "e1 = \<lparr>gs_span = sp, gs_parents = ge_parents e\<rparr>"
    let ?q = "heap_extend (ge_parents e) q1"
    have ps: "p < s \<and> in_graph g p" if "p \<in> set (ge_parents e)" for p
      using entry_parents_less[OF g e that] by (simp add: s_def)
    have "descending q1" using v(3) by (simp add: w(4) descending_def sorted_wrt_filter)
    then have "descending ?q" by (rule heap_extend_descending)
    moreover have "\<forall>x \<in> set ?q. x < s \<and> in_graph g x" using ps v(4) by (auto simp: w(4))
    moreover have "s < n" using s v(2) by simp
    ultimately obtain rest where rest: "simple_loop g ?q = Some rest" "simple_result g s ?q rest"
      using less.IH by blast
    let ?es = "es1 @ e1 # rest"
    have rr: "simple_desc rest" "\<forall>e \<in> set rest. dt_end (gs_span e) \<le> s" "simple_items g rest"
      "span_members rest = ghist g ?q" "set ?q \<subseteq> last_members rest"
      "\<forall>e \<in> set rest. set (gs_parents e) \<subseteq> last_members rest"
      using rest(2) by (auto simp: simple_result_def)
    have "simple_loop g q = Some ?es"
      unfolding Cons using e r rest(1)
      by (subst simple_loop.simps) (simp add: find_packed_def Let_def s_def ge_key_def e1_def)
    moreover have "simple_result g n q ?es"
      unfolding simple_result_def
    proof (intro conjI)
      show "simple_desc ?es"
        unfolding simple_desc_append simple_desc_simps using rr(1,2) w(1,2,5,6)
        by (fastforce simp: e1_def gs_valid_def)
      have sp: "gs_span e1 = \<lparr>dt_start = s, dt_end = w + 1\<rparr>" by (simp add: e1_def w(1))
      show "\<forall>e \<in> set ?es. dt_end (gs_span e) \<le> n"
      proof
        fix x assume "x \<in> set ?es"
        then have "dt_end (gs_span x) \<le> v + 1"
          using w(3,6) rr(2) s sp by fastforce
        then show "dt_end (gs_span x) \<le> n" using v(2) by simp
      qed
      have vp: "vparents g x = (if x > s then [x - 1] else ge_parents e)" if "s \<le> x" "x \<le> v" for x
        using in_graph_start[OF g e that[unfolded s_def]] by (simp add: vparents_find s_def)
      have "simple_items g es1"
        unfolding simple_items_def gs_items_iff
      proof (intro ballI allI impI)
        fix y x assume y: "y \<in> set es1" and x: "dt_start (gs_span y) \<le> x" "x < dt_end (gs_span y)"
        have "s < x" "x \<le> v" using x y w(2,6) by fastforce+
        moreover have "gs_parents y = [dt_start (gs_span y) - 1]" using w(9) y by blast
        ultimately show "vparents g x = (if x > dt_start (gs_span y) then [x - 1] else gs_parents y)"
          using vp[of x] x(1) by auto
      qed
      moreover have "\<forall>(x, ps) \<in> set (gs_items e1). vparents g x = ps"
        unfolding gs_items_iff using vp w(3) by (auto simp: e1_def w(1))
      ultimately show "simple_items g ?es" using rr(3) by simp
      have h: "ghist g q = {s..v} \<union> ghist g ?q"
      proof -
        have F: "\<forall>x \<in> {x \<in> set q. s \<le> x}. ge_key e \<le> x \<and> x \<le> v" "{x \<in> set q. s \<le> x} \<noteq> {}"
          using v(4) s by (auto simp: Cons s_def)
        have "set q = {x \<in> set q. s \<le> x} \<union> set q1" using s by (auto simp: Cons w(4))
        then have "ghist g q = hist (vparents g) {x \<in> set q. s \<le> x} \<union> ghist g q1"
          by (metis hist_simps(3))
        also have "hist (vparents g) {x \<in> set q. s \<le> x} = {s..v} \<union> ghist g (ge_parents e)"
          unfolding ghist_split_run[OF g e F] using s v(4) by (auto simp: Cons s_def)
        finally show ?thesis by (simp add: Un_ac)
      qed
      show "span_members ?es = ghist g q"
        unfolding h using w(2,3,7) rr(4) by (auto simp: sp)
      have lm: "last_members ?es = insert w (last_members es1) \<union> last_members rest"
        by (auto simp: sp dtrange_last_def)
      show "set q \<subseteq> last_members ?es"
        unfolding lm w(8) using rr(5) by (auto simp: Cons w(4))
      show "\<forall>y \<in> set ?es. set (gs_parents y) \<subseteq> last_members ?es"
        unfolding lm using w(9) rr(5,6) by (auto simp: e1_def)
    qed
    ultimately show ?thesis by blast
  qed
qed

text \<open>No parent points inside an entry.\<close>

lemma last_members_outside:
  assumes "simple_desc es" "p \<in> last_members es" "e \<in> set es"
  shows "p < dt_start (gs_span e) \<or> dtrange_last (gs_span e) \<le> p"
proof -
  obtain e' where e': "e' \<in> set es" "p = dtrange_last (gs_span e')" using assms(2) by (auto simp: last_members_def)
  have "e = e' \<or> dt_end (gs_span e') \<le> dt_start (gs_span e) \<or> dt_end (gs_span e) \<le> dt_start (gs_span e')"
    using assms(1,3) e'(1) by (induction es) auto
  moreover have "dt_start (gs_span e) < dt_end (gs_span e)" "dt_start (gs_span e') < dt_end (gs_span e')"
    using assms(1,3) e'(1) by (auto simp: simple_desc_def gs_valid_def)
  ultimately show ?thesis by (auto simp: e'(2) dtrange_last_def)
qed

lemma make_simple_graph_spec:
  assumes g: "graph_wf g" and f: "\<forall>v \<in> set f. in_graph g v"
  shows "\<exists>es. make_simple_graph g f = Some es \<and> simple_desc (rev es) \<and>
    simple_items g es \<and> span_members es = ghist g f \<and>
    (\<forall>e \<in> set es. \<forall>e' \<in> set es. \<forall>p \<in> set (gs_parents e').
       p < dt_start (gs_span e) \<or> dtrange_last (gs_span e) \<le> p)"
proof -
  obtain n where n: "\<forall>v \<in> set f. v < n" using finite_nat_set_iff_bounded[of "set f"] by auto
  then obtain es where es: "simple_loop g (heap_extend f []) = Some es" "simple_result g n (heap_extend f []) es"
    using simple_loop_spec[OF g heap_extend_descending, of "[]" f n] f by auto
  then have r: "simple_desc es" "simple_items g es" "span_members es = ghist g f"
    "\<forall>e \<in> set es. set (gs_parents e) \<subseteq> last_members es"
    by (auto simp: simple_result_def)
  have "span_members (rev es) = span_members es" "simple_items g (rev es) = simple_items g es"
    by (auto simp: span_members_def simple_items_def)
  then show ?thesis
    using es(1) r(1-3) last_members_outside[OF r(1) subsetD[OF bspec[OF r(4)]]]
    by (simp add: make_simple_graph_def)
qed

end
