(* ===== verification/GraphConflict.thy ===== *)
theory GraphConflict
  imports GraphDiffFacts
begin

text \<open>
  \<open>find_conflicting\<close> of \<open>src/causalgraph/graph/tools.rs\<close>: the versions of two frontiers back to one
  common point in time.  Unlike \<open>diff\<close>, the queue holds whole points in time: the parents of a
  merge stay together as one \<open>time_point\<close>, so that the search can stop there, and are shattered into
  single versions only when something else is left in the queue.

  The root is the point whose \<open>last\<close> is \<open>usize::MAX\<close>; \<open>wrapping_add(1)\<close> makes it the least.  The
  calls of the callback \<open>visit\<close> are modelled by the list of their arguments, in order.  \<open>BinaryHeap\<close>
  does not specify the order of points that compare as equal and still differ; the model pops the
  one pushed last first.
\<close>

record time_point =
  tp_last :: lv
  tp_merged_with :: "lv list"

type_synonym point_queue = "(time_point \<times> diff_flag) list"

definition wrapping_succ :: "nat \<Rightarrow> nat" where
  "wrapping_succ v = (if v = usize_max then 0 else v + 1)"

text \<open>\<open>Ord for TimePoint\<close>, and the derived order of the pairs in the queue.\<close>

definition tp_less :: "time_point \<Rightarrow> time_point \<Rightarrow> bool" where
  "tp_less self other \<longleftrightarrow>
     wrapping_succ (tp_last self) < wrapping_succ (tp_last other) \<or>
     wrapping_succ (tp_last self) = wrapping_succ (tp_last other) \<and>
       length (tp_merged_with other) < length (tp_merged_with self)"

definition point_less :: "time_point \<times> diff_flag \<Rightarrow> time_point \<times> diff_flag \<Rightarrow> bool" where
  "point_less x y \<longleftrightarrow> tp_less (fst x) (fst y) \<or> \<not> tp_less (fst y) (fst x) \<and> snd x < snd y"

definition tp_from_version :: "lv \<Rightarrow> time_point" where
  "tp_from_version time = \<lparr>tp_last = time, tp_merged_with = []\<rparr>"

definition tp_from_frontier :: "lv list \<Rightarrow> time_point" where
  "tp_from_frontier version =
     \<lparr>tp_last = (if version = [] then usize_max else last version),
      tp_merged_with = (if length version > 1 then take (length version - 1) version else [])\<rparr>"

fun push_point :: "time_point \<times> diff_flag \<Rightarrow> point_queue \<Rightarrow> point_queue" where
  "push_point x [] = [x]"
| "push_point x (y # queue) = (if point_less x y then y # push_point x queue else x # y # queue)"

text \<open>\<open>for t in time.merged_with { queue.push((t.into(), flag)); }\<close>\<close>

fun push_merged :: "lv list \<Rightarrow> diff_flag \<Rightarrow> point_queue \<Rightarrow> point_queue" where
  "push_merged [] flag queue = queue"
| "push_merged (t # ts) flag queue =
     push_merged ts flag (push_point (tp_from_version t, flag) queue)"

fun conflict_dups :: "time_point \<Rightarrow> diff_flag \<Rightarrow> point_queue \<Rightarrow> diff_flag \<times> point_queue" where
  "conflict_dups time flag [] = (flag, [])"
| "conflict_dups time flag ((peek_time, peek_flag) # queue) =
     (if peek_time = time
      then conflict_dups time (if peek_flag \<noteq> flag then Shared else flag) queue
      else (flag, (peek_time, peek_flag) # queue))"

text \<open>
  The loop inside one entry.  \<open>Inl\<close> is the \<open>break 'outer\<close> with a frontier, \<open>Inr\<close> the queue the next
  round starts with.
\<close>

lemma push_point_points: "mset (push_point x queue) = add_mset x (mset queue)"
  by (induction x queue rule: push_point.induct) auto

definition point_count :: "point_queue \<Rightarrow> nat" where
  "point_count queue = (\<Sum>x \<in># mset queue. Suc (length (tp_merged_with (fst x))))"

lemma point_count_simps [simp]:
  "point_count [] = 0"
  "point_count (x # queue) = Suc (length (tp_merged_with (fst x)) + point_count queue)"
  "point_count (push_merged ts flag queue) = length ts + point_count queue"
proof -
  have "point_count (push_point (tp_from_version t, flag) q) = Suc (point_count q)" for t q
    by (simp add: point_count_def push_point_points tp_from_version_def)
  then show "point_count (push_merged ts flag queue) = length ts + point_count queue"
    by (induction ts arbitrary: queue) auto
qed (auto simp: point_count_def)

function conflict_in_run :: "lv \<Rightarrow> lv list \<Rightarrow> dtrange \<Rightarrow> diff_flag \<Rightarrow> point_queue
    \<Rightarrow> (dtrange \<times> diff_flag) list \<times> (frontier + point_queue)" where
  "conflict_in_run start parents rng flag [] = ([], Inl [dtrange_last rng])"
| "conflict_in_run start parents rng flag ((time, next_flag) # queue) =
     (if tp_last time \<noteq> usize_max \<and> tp_last time \<ge> start
      then
        (let (rng', visits) =
               (if tp_last time + 1 < dt_end rng
                then (let (rng', rem) = dtrange_truncate rng (tp_last time + 1 - start)
                      in (rng', [(rem, flag)]))
                else (rng, []));
             queue' = push_merged (tp_merged_with time) next_flag queue;
             flag' = (if next_flag \<noteq> flag then Shared else flag);
             (rest, out) = conflict_in_run start parents rng' flag' queue'
         in (visits @ rest, out))
      else ([(rng, flag)],
            Inr (push_point (tp_from_frontier parents, flag) ((time, next_flag) # queue))))"
  by pat_completeness auto
termination
  by (relation "measure (\<lambda>(start, parents, range, flag, queue). point_count queue)") auto

partial_function (option) conflict_loop ::
    "graph \<Rightarrow> point_queue \<Rightarrow> (frontier \<times> (dtrange \<times> diff_flag) list) option" where
  [code]: "conflict_loop g queue =
     (case queue of
        [] \<Rightarrow> None
      | (time, flag) # queue \<Rightarrow>
          let t = tp_last time
          in if t = usize_max then Some ([], [])
             else
               let (flag, queue) = conflict_dups time flag queue
               in if queue = [] then Some (tp_merged_with time @ [t], [])
                  else
                    let queue = push_merged (tp_merged_with time) flag queue
                    in case g_find_packed g t of
                         None \<Rightarrow> None
                       | Some containing_txn \<Rightarrow>
                           let start = dt_start (ge_span containing_txn);
                               rng = \<lparr>dt_start = start, dt_end = t + 1\<rparr>;
                               (visits, out) =
                                 conflict_in_run start (ge_parents containing_txn) rng flag queue
                           in case out of
                                Inl frontier \<Rightarrow> Some (frontier, visits)
                              | Inr queue \<Rightarrow>
                                  Option.bind (conflict_loop g queue)
                                    (\<lambda>(frontier, rest). Some (frontier, visits @ rest)))"

definition find_conflicting_slow ::
    "graph \<Rightarrow> lv list \<Rightarrow> lv list \<Rightarrow> (frontier \<times> (dtrange \<times> diff_flag) list) option" where
  "find_conflicting_slow g a b =
     conflict_loop g (push_point (tp_from_frontier b, OnlyB) (push_point (tp_from_frontier a, OnlyA) []))"

definition find_conflicting ::
    "graph \<Rightarrow> lv list \<Rightarrow> lv list \<Rightarrow> (frontier \<times> (dtrange \<times> diff_flag) list) option" where
  "find_conflicting g a b =
     (if a = b then Some (a, [])
      else if length a = 1 \<and> length b = 1 then
        (let a0 = a ! 0; b0 = b ! 0
         in case is_direct_descendant_coarse g a0 b0 of
              None \<Rightarrow> None
            | Some True \<Rightarrow>
                Some ([b0], [(\<lparr>dt_start = wrapping_succ b0, dt_end = wrapping_succ a0\<rparr>, OnlyA)])
            | Some False \<Rightarrow>
                (case is_direct_descendant_coarse g b0 a0 of
                   None \<Rightarrow> None
                 | Some True \<Rightarrow>
                     Some ([a0], [(\<lparr>dt_start = wrapping_succ a0, dt_end = wrapping_succ b0\<rparr>, OnlyB)])
                 | Some False \<Rightarrow> find_conflicting_slow g a b))
      else find_conflicting_slow g a b)"

record conflict_zone =
  common_ancestor :: frontier
  rev_spans :: "dtrange list"

definition find_conflicting_simple :: "graph \<Rightarrow> lv list \<Rightarrow> lv list \<Rightarrow> conflict_zone option" where
  "find_conflicting_simple g a b =
     (case find_conflicting g a b of
        None \<Rightarrow> None
      | Some (frontier, visits) \<Rightarrow>
          Some \<lparr>common_ancestor = frontier,
            rev_spans = foldl (\<lambda>spans (span, flag).
              fst (push_reversed_rle dtrange_can_append dtrange_prepend spans span)) [] visits\<rparr>)"

end
