(* ===== verification/GraphConflictFacts.thy ===== *)
theory GraphConflictFacts
  imports GraphConflict
begin

text \<open>
  What \<open>find_conflicting\<close> computes: one point in time that lies below both frontiers and below every
  visited version, and the rest of both histories, each version with the flag that says which of
  the two histories it is in.
\<close>

definition tp_set :: "time_point \<Rightarrow> lv set" where
  "tp_set tp = (if tp_last tp = usize_max then {} else insert (tp_last tp) (set (tp_merged_with tp)))"

definition tp_ok :: "graph \<Rightarrow> time_point \<Rightarrow> bool" where
  "tp_ok g tp \<longleftrightarrow>
     (if tp_last tp = usize_max then tp_merged_with tp = []
      else sorted_wrt (<) (tp_merged_with tp @ [tp_last tp]) \<and>
           (\<forall>v \<in> set (tp_merged_with tp @ [tp_last tp]). in_graph g v))"

definition tp_key :: "time_point \<times> diff_flag \<Rightarrow> nat" where
  "tp_key x = wrapping_succ (tp_last (fst x))"

definition pts_desc :: "point_queue \<Rightarrow> bool" where
  "pts_desc q \<longleftrightarrow> sorted_wrt (\<lambda>x y. tp_key y \<le> tp_key x) q"

definition flat :: "point_queue \<Rightarrow> (lv \<times> diff_flag) set" where
  "flat q = {(v, f). \<exists>tp. (tp, f) \<in> set q \<and> v \<in> tp_set tp}"

text \<open>Every version is below the root's sentinel.\<close>

definition graph_fits :: "graph \<Rightarrow> bool" where
  "graph_fits g \<longleftrightarrow> graph_next_time g \<le> usize_max"

definition vis_of :: "(dtrange \<times> diff_flag) list \<Rightarrow> diff_flag \<Rightarrow> lv set" where
  "vis_of vs F = {a. \<exists>(r, f) \<in> set vs. f = F \<and> dt_start r \<le> a \<and> a < dt_end r}"

definition vis_desc :: "(dtrange \<times> diff_flag) list \<Rightarrow> bool" where
  "vis_desc vs \<longleftrightarrow> sorted_wrt (\<lambda>x y. dt_end (fst y) \<le> dt_start (fst x)) vs \<and>
     (\<forall>x \<in> set vs. dt_start (fst x) < dt_end (fst x))"

lemma vis_of_simps [simp]:
  "vis_of [] F = {}"
  "vis_of ((r, f) # vs) F = (if f = F then {dt_start r ..< dt_end r} else {}) \<union> vis_of vs F"
  "vis_of (vs @ vs') F = vis_of vs F \<union> vis_of vs' F"
  by (auto simp: vis_of_def)

lemma vis_desc_simps [simp]:
  "vis_desc []"
  "vis_desc (x # vs) \<longleftrightarrow> dt_start (fst x) < dt_end (fst x) \<and>
     (\<forall>y \<in> set vs. dt_end (fst y) \<le> dt_start (fst x)) \<and> vis_desc vs"
  "vis_desc (vs @ vs') \<longleftrightarrow> vis_desc vs \<and> vis_desc vs' \<and>
     (\<forall>x \<in> set vs. \<forall>y \<in> set vs'. dt_end (fst y) \<le> dt_start (fst x))"
  by (auto simp: vis_desc_def sorted_wrt_append)

lemma pts_desc_simps [simp]:
  "pts_desc []"
  "pts_desc (x # q) \<longleftrightarrow> (\<forall>y \<in> set q. tp_key y \<le> tp_key x) \<and> pts_desc q"
  by (auto simp: pts_desc_def)

lemma flat_simps [simp]:
  "flat [] = {}" "flat ((tp, f) # q) = (\<lambda>v. (v, f)) ` tp_set tp \<union> flat q"
  "flat (q @ q') = flat q \<union> flat q'"
  by (auto simp: flat_def)

lemma flatI: "x \<in> set q \<Longrightarrow> v \<in> tp_set (fst x) \<Longrightarrow> (v, snd x) \<in> flat q"
  by (cases x) (auto simp: flat_def)

lemma push_point_set [simp]: "set (push_point x q) = insert x (set q)"
  by (metis push_point_points set_mset_add_mset_insert set_mset_mset)

lemma push_point_flat [simp]: "flat (push_point (tp, f) q) = (\<lambda>v. (v, f)) ` tp_set tp \<union> flat q"
  by (auto simp: flat_def)

lemma point_less_key: "point_less x y \<Longrightarrow> tp_key x \<le> tp_key y" "\<not> point_less x y \<Longrightarrow> tp_key y \<le> tp_key x"
  by (auto simp: point_less_def tp_less_def tp_key_def)

lemma push_point_desc: "pts_desc q \<Longrightarrow> pts_desc (push_point x q)"
proof (induction x q rule: push_point.induct)
  case (2 x y q)
  then show ?case
    using point_less_key[of x y] by (cases "point_less x y") (auto intro: order_trans)
qed simp

lemma push_merged_set: "set (push_merged ts f q) = (\<lambda>t. (tp_from_version t, f)) ` set ts \<union> set q"
  by (induction ts f q rule: push_merged.induct) auto

lemma push_merged_desc: "pts_desc q \<Longrightarrow> pts_desc (push_merged ts f q)"
  by (induction ts f q rule: push_merged.induct) (auto intro: push_point_desc)

lemma tp_set_version: "t \<noteq> usize_max \<Longrightarrow> tp_set (tp_from_version t) = {t}"
  by (simp add: tp_set_def tp_from_version_def)

lemma push_merged_flat:
  "usize_max \<notin> set ts \<Longrightarrow> flat (push_merged ts f q) = (\<lambda>t. (t, f)) ` set ts \<union> flat q"
  by (induction ts f q rule: push_merged.induct) (auto simp: tp_set_version)

lemma in_graph_below:
  assumes "graph_wf g" "in_graph g v"
  shows "v < graph_next_time g"
proof -
  obtain e where e: "e \<in> set (g_entries g)" "v < ge_key e + ge_len e"
    using assms g_find_Some by (auto simp: in_graph_def)
  moreover have "ge_key e + ge_len e \<le> graph_next_time g"
    unfolding graph_next_time_def
    by (rule rv_end_bound[OF graph_wfD(1)[OF assms(1)] e(1)])
  ultimately show ?thesis by simp
qed

lemma fits_version: "graph_wf g \<Longrightarrow> graph_fits g \<Longrightarrow> in_graph g v \<Longrightarrow> v < usize_max"
  using in_graph_below unfolding graph_fits_def by (meson less_le_trans)

lemma tp_ok_version: "in_graph g t \<Longrightarrow> t < usize_max \<Longrightarrow> tp_ok g (tp_from_version t)"
  by (simp add: tp_ok_def tp_from_version_def)

lemma tp_from_frontier_ok:
  assumes "sorted_wrt (<) f" "\<forall>v \<in> set f. in_graph g v \<and> v < usize_max"
  shows "tp_ok g (tp_from_frontier f)" "tp_set (tp_from_frontier f) = set f"
    "tp_last (tp_from_frontier f) = (if f = [] then usize_max else last f)"
proof -
  show "tp_ok g (tp_from_frontier f)" "tp_set (tp_from_frontier f) = set f"
    using assms
    by (cases f rule: rev_cases; auto simp: tp_ok_def tp_set_def tp_from_frontier_def sorted_wrt_append)+
qed (simp add: tp_from_frontier_def)

lemma conflict_dups_spec:
  assumes "conflict_dups time flag q = (flag', q')"
  shows "\<exists>pre. q = pre @ q' \<and> (\<forall>x \<in> set pre. fst x = time) \<and>
    (\<forall>side \<in> {in_a, in_b}. side flag' \<longleftrightarrow> side flag \<or> (\<exists>x \<in> set pre. side (snd x)))"
  using assms
proof (induction time flag q rule: conflict_dups.induct)
  case (2 time flag pt pf q)
  show ?case
  proof (cases "pt = time")
    case True
    let ?f = "if pf \<noteq> flag then Shared else flag"
    from 2 True obtain pre where pre: "q = pre @ q'" "\<forall>x \<in> set pre. fst x = time"
        "\<forall>side \<in> {in_a, in_b}. side flag' \<longleftrightarrow> side ?f \<or> (\<exists>x \<in> set pre. side (snd x))"
      by auto
    have "\<forall>side \<in> {in_a, in_b}. side ?f = (side flag \<or> side pf)"
      by (cases pf; cases flag; simp add: in_a_def in_b_def)
    with pre True show ?thesis by (intro exI[of _ "(pt, pf) # pre"]) auto
  next
    case False
    then show ?thesis using "2.prems" by auto
  qed
qed auto

text \<open>The visits inside one run, for the points of the queue whose \<open>last\<close> is in the run.\<close>

definition in_run_result :: "graph \<Rightarrow> lv \<Rightarrow> lv list \<Rightarrow> lv \<Rightarrow> diff_flag \<Rightarrow> point_queue \<Rightarrow>
    (dtrange \<times> diff_flag) list \<Rightarrow> frontier + point_queue \<Rightarrow> lv \<Rightarrow> diff_flag \<Rightarrow> bool" where
  "in_run_result g s ps o1 flag q vs out o2 f2 \<longleftrightarrow>
     (let P = insert (o1, flag) {x \<in> flat q. s \<le> fst x};
          marks = (\<lambda>F a. flag_of (covers in_a P a) (covers in_b P a) = Some F)
      in s \<le> o2 \<and> o2 \<le> o1 \<and> (\<forall>side \<in> {in_a, in_b}. side f2 \<longleftrightarrow> (\<exists>x \<in> P. side (snd x))) \<and>
         (\<forall>x \<in> P. o2 \<le> fst x) \<and> vis_desc vs \<and> (\<forall>x \<in> set vs. s \<le> dt_start (fst x) \<and> dt_end (fst x) \<le> o1 + 1) \<and>
         (case out of
            Inl C \<Rightarrow> C = [o2] \<and> (\<forall>x \<in> set q. \<exists>v \<in> tp_set (fst x). s \<le> v) \<and> (\<forall>x \<in> flat q. s \<le> fst x) \<and>
              (\<forall>F a. a \<in> vis_of vs F \<longleftrightarrow> o2 < a \<and> a \<le> o1 \<and> marks F a)
          | Inr q' \<Rightarrow> (\<exists>r. q' = push_point (tp_from_frontier ps, f2) r \<and> pts_desc r \<and>
              (\<forall>x \<in> set r. tp_ok g (fst x) \<and> (tp_last (fst x) = usize_max \<or> tp_last (fst x) < s)) \<and>
              flat r = {x \<in> flat q. fst x < s} \<and>
              (\<forall>x \<in> set q. x \<in> set r \<or> (\<exists>v \<in> tp_set (fst x). s \<le> v))) \<and>
              (\<forall>F a. a \<in> vis_of vs F \<longleftrightarrow> s \<le> a \<and> a \<le> o1 \<and> marks F a)))"

definition points_below :: "graph \<Rightarrow> lv \<Rightarrow> point_queue \<Rightarrow> bool" where
  "points_below g n q \<longleftrightarrow> pts_desc q \<and>
     (\<forall>x \<in> set q. tp_ok g (fst x) \<and> (tp_last (fst x) = usize_max \<or> tp_last (fst x) < n))"

lemma tp_ok_mem:
  assumes "tp_ok g tp" "v \<in> tp_set tp"
  shows "v \<le> tp_last tp" "in_graph g v" "tp_last tp \<noteq> usize_max"
  using assms by (auto simp: tp_ok_def tp_set_def sorted_wrt_append split: if_splits)

lemma flat_below:
  assumes "points_below g n q" "x \<in> flat q"
  shows "fst x < n" "in_graph g (fst x)"
proof -
  obtain tp f where x: "(tp, f) \<in> set q" "fst x \<in> tp_set tp" using assms(2) by (auto simp: flat_def)
  then have ok: "tp_ok g tp" "tp_last tp = usize_max \<or> tp_last tp < n"
    using assms(1) by (auto simp: points_below_def)
  show "fst x < n" "in_graph g (fst x)" using tp_ok_mem[OF ok(1) x(2)] ok(2) by auto
qed

lemma push_merged_below:
  assumes g: "graph_wf g" "graph_fits g" and q: "points_below g n q" and tp: "tp_ok g tp" "tp_last tp = usize_max \<or> tp_last tp \<le> n"
  shows "points_below g n (push_merged (tp_merged_with tp) f q)" "usize_max \<notin> set (tp_merged_with tp)"
proof -
  have m: "in_graph g t \<and> t < usize_max \<and> t < n" if "t \<in> set (tp_merged_with tp)" for t
  proof -
    have t: "t < tp_last tp" "in_graph g t" "tp_last tp \<noteq> usize_max"
      using tp(1) that by (auto simp: tp_ok_def sorted_wrt_append split: if_splits)
    then show ?thesis using fits_version[OF g t(2)] tp(2) by auto
  qed
  then show "usize_max \<notin> set (tp_merged_with tp)" by blast
  show "points_below g n (push_merged (tp_merged_with tp) f q)"
    using q m by (auto simp: points_below_def push_merged_set push_merged_desc tp_ok_version)
      (auto simp: tp_from_version_def)
qed

lemma run_range_cut:
  assumes "s \<le> (p :: nat)"
  shows "dtrange_truncate \<lparr>dt_start = s, dt_end = e\<rparr> (p + 1 - s) =
    (\<lparr>dt_start = s, dt_end = p + 1\<rparr>, \<lparr>dt_start = p + 1, dt_end = e\<rparr>)"
  using assms by (simp add: dtrange_truncate_def Let_def)

lemma covers_step:
  assumes "po \<le> o1" "\<forall>x \<in> R. fst x \<le> po" "side \<in> {in_a, in_b}" "f' = (if nf \<noteq> flag then Shared else flag)"
  shows "covers side (insert (o1, flag) (insert (po, nf) R)) a \<longleftrightarrow>
    (if a \<le> po then covers side (insert (po, f') R) a else side flag \<and> a \<le> o1)"
proof -
  have "side f' = (side flag \<or> side nf)"
    using assms(3,4) by (cases nf; cases flag; auto simp: in_a_def in_b_def)
  moreover have "\<not> covers side R a" if "\<not> a \<le> po"
    using assms(2) that by (fastforce simp: covers_def)
  ultimately show ?thesis using assms(1) by auto
qed

lemma flag_of_marks: "flag_of (in_a flag \<and> P) (in_b flag \<and> P) = Some F \<longleftrightarrow> P \<and> flag = F"
  using flag_of_self[of flag] by (cases P) (auto simp: flag_of_def)

text \<open>No more points in the run.\<close>

lemma in_run_result_last:
  assumes "s \<le> o1" "points_below g s q" "vs = [(\<lparr>dt_start = s, dt_end = o1 + 1\<rparr>, flag)]"
  shows "in_run_result g s ps o1 flag q vs (Inr (push_point (tp_from_frontier ps, flag) q)) o1 flag"
proof -
  have e: "{x \<in> flat q. s \<le> fst x} = {}" "flat q = {x \<in> flat q. fst x < s}"
    using flat_below[OF assms(2)] by fastforce+
  have m: "a \<in> vis_of vs F \<longleftrightarrow> s \<le> a \<and> a \<le> o1 \<and> flag_of (in_a flag \<and> a \<le> o1) (in_b flag \<and> a \<le> o1) = Some F"
    for F a unfolding flag_of_marks by (auto simp: assms(3))
  show ?thesis
    unfolding in_run_result_def Let_def e(1) sum.case
  proof (intro conjI exI[of _ q] allI)
    show "pts_desc q" "\<forall>x \<in> set q. tp_ok g (fst x) \<and> (tp_last (fst x) = usize_max \<or> tp_last (fst x) < s)"
      using assms(2) by (auto simp: points_below_def)
    show "flat q = {x \<in> flat q. fst x < s}" by (rule e(2))
  qed (use assms(1) m in \<open>auto simp: assms(3)\<close>)
qed

text \<open>One more point.\<close>

lemma in_run_result_step:
  assumes res: "in_run_result g s ps po f' q' vs out o2 f2"
    and po: "s \<le> po" "po \<le> o1" "\<forall>x \<in> flat q'. fst x \<le> po"
    and f': "f' = (if nf \<noteq> flag then Shared else flag)"
    and q': "set q' = (\<lambda>t. (tp_from_version t, nf)) ` M \<union> set q" "flat q' = (\<lambda>t. (t, nf)) ` M \<union> flat q"
    and tp: "tp_set tp = insert po M" and M: "\<forall>t \<in> M. t < usize_max"
    and vs': "vs' = (if po < o1 then [(\<lparr>dt_start = po + 1, dt_end = o1 + 1\<rparr>, flag)] else [])"
  shows "in_run_result g s ps o1 flag ((tp, nf) # q) (vs' @ vs) out o2 f2"
proof -
  let ?R = "{x \<in> flat q'. s \<le> fst x}"
  let ?P = "insert (o1, flag) {x \<in> flat ((tp, nf) # q). s \<le> fst x}"
  let ?P' = "insert (po, f') ?R"
  have P: "?P = insert (o1, flag) (insert (po, nf) ?R)"
    using po(1) by (auto simp: tp q'(2))
  have cov: "covers side ?P a \<longleftrightarrow> (if a \<le> po then covers side ?P' a else side flag \<and> a \<le> o1)"
    if "side \<in> {in_a, in_b}" for side a
    unfolding P using po(2,3) that f' by (intro covers_step) auto
  have side: "(\<exists>x \<in> ?P. side (snd x)) \<longleftrightarrow> (\<exists>x \<in> ?P'. side (snd x))" if "side \<in> {in_a, in_b}" for side
  proof -
    have "side f' = (side flag \<or> side nf)"
      using that f' by (cases nf; cases flag; auto simp: in_a_def in_b_def)
    then show ?thesis unfolding P by (simp add: disj_assoc)
  qed
  have marks: "a \<in> vis_of (vs' @ vs) F \<longleftrightarrow> b \<le> a \<and> a \<le> o1 \<and> flag_of (covers in_a ?P a) (covers in_b ?P a) = Some F"
    if v: "\<And>a. a \<in> vis_of vs F \<longleftrightarrow> b \<le> a \<and> a \<le> po \<and> flag_of (covers in_a ?P' a) (covers in_b ?P' a) = Some F"
      and b: "b \<le> Suc po"
    for F a b
  proof (cases "a \<le> po")
    case True
    then have "a \<notin> vis_of vs' F" by (simp add: vs')
    moreover have "covers in_a ?P a = covers in_a ?P' a" "covers in_b ?P a = covers in_b ?P' a"
      using cov[of in_a a] cov[of in_b a] True by (simp_all del: flat_simps covers_simps)
    moreover have "a \<le> o1" using True po(2) by simp
    ultimately show ?thesis using v[of a] True by (simp del: flat_simps covers_simps)
  next
    case False
    then have "a \<notin> vis_of vs F" "b \<le> a" using v b by auto
    moreover have "covers in_a ?P a = (in_a flag \<and> a \<le> o1)" "covers in_b ?P a = (in_b flag \<and> a \<le> o1)"
      using cov[of in_a a] cov[of in_b a] False by (simp_all del: flat_simps covers_simps)
    moreover have "a \<in> vis_of vs' F \<longleftrightarrow> a \<le> o1 \<and> flag = F" using False by (auto simp: vs')
    ultimately show ?thesis
      using flag_of_marks[of flag "a \<le> o1" F] by (auto simp del: flat_simps covers_simps)
  qed
  have base: "s \<le> o2" "o2 \<le> po" "\<forall>side \<in> {in_a, in_b}. side f2 \<longleftrightarrow> (\<exists>x \<in> ?P'. side (snd x))"
    "\<forall>x \<in> ?P'. o2 \<le> fst x" "vis_desc vs" "\<forall>x \<in> set vs. s \<le> dt_start (fst x) \<and> dt_end (fst x) \<le> po + 1"
    using res unfolding in_run_result_def Let_def by blast+
  show ?thesis
    unfolding in_run_result_def Let_def
  proof (intro conjI)
    show "s \<le> o2" "o2 \<le> o1" using base po by auto
    show "\<forall>side \<in> {in_a, in_b}. side f2 \<longleftrightarrow> (\<exists>x \<in> ?P. side (snd x))" using base(3) side by blast
    show "\<forall>x \<in> ?P. o2 \<le> fst x" unfolding P using base(2,4) po by auto
    show "vis_desc (vs' @ vs)" using base(5,6) by (auto simp: vs')
    show "\<forall>x \<in> set (vs' @ vs). s \<le> dt_start (fst x) \<and> dt_end (fst x) \<le> o1 + 1"
      using base(6) po by (fastforce simp: vs')
    have fl: "x \<in> flat q'" if "x \<in> flat ((tp, nf) # q)" "x \<noteq> (po, nf)" for x
      using that by (auto simp: tp q'(2))
    show "case out of
            Inl C \<Rightarrow> C = [o2] \<and> (\<forall>x \<in> set ((tp, nf) # q). \<exists>v \<in> tp_set (fst x). s \<le> v) \<and>
              (\<forall>x \<in> flat ((tp, nf) # q). s \<le> fst x) \<and>
              (\<forall>F a. a \<in> vis_of (vs' @ vs) F \<longleftrightarrow> o2 < a \<and> a \<le> o1 \<and> flag_of (covers in_a ?P a) (covers in_b ?P a) = Some F)
          | Inr q' \<Rightarrow> (\<exists>r. q' = push_point (tp_from_frontier ps, f2) r \<and> pts_desc r \<and>
              (\<forall>x \<in> set r. tp_ok g (fst x) \<and> (tp_last (fst x) = usize_max \<or> tp_last (fst x) < s)) \<and>
              flat r = {x \<in> flat ((tp, nf) # q). fst x < s} \<and>
              (\<forall>x \<in> set ((tp, nf) # q). x \<in> set r \<or> (\<exists>v \<in> tp_set (fst x). s \<le> v))) \<and>
              (\<forall>F a. a \<in> vis_of (vs' @ vs) F \<longleftrightarrow> s \<le> a \<and> a \<le> o1 \<and> flag_of (covers in_a ?P a) (covers in_b ?P a) = Some F)"
    proof (cases out)
      case (Inl C)
      then have C: "C = [o2]" "\<forall>x \<in> set q'. \<exists>v \<in> tp_set (fst x). s \<le> v" "\<forall>x \<in> flat q'. s \<le> fst x"
        "\<And>F a. a \<in> vis_of vs F \<longleftrightarrow> o2 < a \<and> a \<le> po \<and> flag_of (covers in_a ?P' a) (covers in_b ?P' a) = Some F"
        using res unfolding in_run_result_def Let_def by simp_all
      have "\<forall>F a. a \<in> vis_of (vs' @ vs) F \<longleftrightarrow> o2 < a \<and> a \<le> o1 \<and> flag_of (covers in_a ?P a) (covers in_b ?P a) = Some F"
      proof (intro allI)
        fix F a
        show "a \<in> vis_of (vs' @ vs) F \<longleftrightarrow> o2 < a \<and> a \<le> o1 \<and> flag_of (covers in_a ?P a) (covers in_b ?P a) = Some F"
          unfolding Suc_le_eq[symmetric, of o2] using base(2) C(4)
          by (intro marks) (simp_all only: Suc_le_eq Suc_le_mono)
      qed
      moreover have "\<forall>x \<in> flat ((tp, nf) # q). s \<le> fst x" using C(3) fl po(1) by fastforce
      moreover have "\<forall>x \<in> set ((tp, nf) # q). \<exists>v \<in> tp_set (fst x). s \<le> v"
        using C(2) po(1) by (auto simp: tp q'(1))
      ultimately show ?thesis using C(1) Inl by simp
    next
      case (Inr qo)
      then obtain r where r: "qo = push_point (tp_from_frontier ps, f2) r" "pts_desc r"
          "\<forall>x \<in> set r. tp_ok g (fst x) \<and> (tp_last (fst x) = usize_max \<or> tp_last (fst x) < s)"
          "flat r = {x \<in> flat q'. fst x < s}" "\<forall>x \<in> set q'. x \<in> set r \<or> (\<exists>v \<in> tp_set (fst x). s \<le> v)"
        and v: "\<And>F a. a \<in> vis_of vs F \<longleftrightarrow> s \<le> a \<and> a \<le> po \<and> flag_of (covers in_a ?P' a) (covers in_b ?P' a) = Some F"
        using res unfolding in_run_result_def Let_def by auto
      have "flat r = {x \<in> flat ((tp, nf) # q). fst x < s}"
        unfolding r(4) using po(1) by (auto simp: tp q'(2))
      moreover have "\<forall>x \<in> set ((tp, nf) # q). x \<in> set r \<or> (\<exists>v \<in> tp_set (fst x). s \<le> v)"
        using r(5) po(1) by (auto simp: tp q'(1))
      moreover have "\<forall>F a. a \<in> vis_of (vs' @ vs) F \<longleftrightarrow> s \<le> a \<and> a \<le> o1 \<and> flag_of (covers in_a ?P a) (covers in_b ?P a) = Some F"
        using v po(1) by (intro allI marks) simp_all
      ultimately show ?thesis using r(1-3) Inr by (simp del: flat_simps) blast
    qed
  qed
qed

lemma conflict_in_run_spec:
  assumes g: "graph_wf g" "graph_fits g"
  shows "points_below g (o1 + 1) q \<Longrightarrow> s \<le> o1 \<Longrightarrow>
    conflict_in_run s ps \<lparr>dt_start = s, dt_end = o1 + 1\<rparr> flag q = (vs, out) \<Longrightarrow>
    \<exists>o2 f2. in_run_result g s ps o1 flag q vs out o2 f2"
proof (induction "point_count q" arbitrary: q o1 flag vs rule: less_induct)
  case (less q)
  show ?case
  proof (cases q)
    case Nil
    then have r: "vs = []" "out = Inl [o1]"
      using less.prems by (auto simp: dtrange_last_def)
    show ?thesis
      unfolding in_run_result_def Let_def Nil r
      using less.prems(2) by (intro exI[of _ o1] exI[of _ flag]) (auto simp: flag_of_def)
  next
    case (Cons x q0)
    obtain time nf where x: "x = (time, nf)" by fastforce
    have ok: "tp_ok g time" "points_below g (o1 + 1) q0" "tp_last time = usize_max \<or> tp_last time \<le> o1"
      "\<forall>y \<in> set q0. tp_key y \<le> tp_key x"
      using less.prems(1) by (auto simp: points_below_def Cons x)
    show ?thesis
    proof (cases "tp_last time \<noteq> usize_max \<and> tp_last time \<ge> s")
      case False
      have "tp_last (fst y) = usize_max \<or> tp_last (fst y) < s" if "y \<in> set q" for y
        using ok(4) that False by (auto simp: Cons x tp_key_def wrapping_succ_def split: if_splits)
      then have "points_below g s q" using less.prems(1) by (auto simp: points_below_def)
      moreover have "vs = [(\<lparr>dt_start = s, dt_end = o1 + 1\<rparr>, flag)]"
        "out = Inr (push_point (tp_from_frontier ps, flag) q)"
        using less.prems(3) False by (auto simp: Cons x)
      ultimately show ?thesis using in_run_result_last less.prems(2) by blast
    next
      case True
      let ?po = "tp_last time" and ?f = "if nf \<noteq> flag then Shared else flag"
      let ?q = "push_merged (tp_merged_with time) nf q0"
      define vs' where "vs' = (if ?po < o1 then [(\<lparr>dt_start = ?po + 1, dt_end = o1 + 1\<rparr>, flag)] else [])"
      have po: "s \<le> ?po" "?po \<le> o1" using True ok(3) by auto
      obtain rest where rest: "conflict_in_run s ps \<lparr>dt_start = s, dt_end = ?po + 1\<rparr> ?f ?q = (rest, out)"
          "vs = vs' @ rest"
      proof (cases "?po < o1")
        case True
        then show ?thesis
          using that less.prems(3) \<open>tp_last time \<noteq> usize_max \<and> tp_last time \<ge> s\<close>
          by (auto simp: Cons x run_range_cut[OF po(1), simplified] vs'_def split: prod.splits)
      next
        case False
        then have e: "?po = o1" using po by simp
        then show ?thesis
          using that less.prems(3) \<open>tp_last time \<noteq> usize_max \<and> tp_last time \<ge> s\<close>
          by (auto simp: Cons x vs'_def split: prod.splits)
      qed
      have "tp_last (fst y) = usize_max \<or> tp_last (fst y) \<le> ?po" if "y \<in> set q0" for y
        using ok(4) that True by (auto simp: x tp_key_def wrapping_succ_def split: if_splits)
      then have q0: "points_below g (?po + 1) q0"
        using ok(2) by (auto simp: points_below_def less_Suc_eq_le)
      note m = push_merged_below[OF g q0 ok(1)]
      have "point_count ?q < point_count q" by (simp add: Cons x)
      from less.hyps[OF this m(1) po(1) rest(1)] obtain o2 f2 where
        ih: "in_run_result g s ps ?po ?f ?q rest out o2 f2" by auto
      have M: "\<forall>t \<in> set (tp_merged_with time). t < usize_max"
        using ok(1) True fits_version[OF g] by (auto simp: tp_ok_def)
      have "in_run_result g s ps o1 flag ((time, nf) # q0) (vs' @ rest) out o2 f2"
      proof (rule in_run_result_step[OF ih po _ refl push_merged_set push_merged_flat _ M vs'_def])
        show "\<forall>x \<in> flat ?q. fst x \<le> ?po" using flat_below[OF m(1)] by fastforce
        show "usize_max \<notin> set (tp_merged_with time)" using m(2) by simp
        show "tp_set time = insert ?po (set (tp_merged_with time))" using True by (simp add: tp_set_def)
      qed
      then show ?thesis unfolding Cons x rest(2) by blast
    qed
  qed
qed

subsection \<open>The search\<close>

definition sides :: "(diff_flag \<Rightarrow> bool) \<Rightarrow> (lv \<times> diff_flag) set \<Rightarrow> lv set" where
  "sides side S = {v. \<exists>f. (v, f) \<in> S \<and> side f}"

lemma sides_simps [simp]:
  "sides side {} = {}" "sides side (S \<union> T) = sides side S \<union> sides side T"
  "sides side (insert (v, f) S) = (if side f then insert v (sides side S) else sides side S)"
  "sides side ((\<lambda>v. (v, f)) ` V) = (if side f then V else {})"
  by (auto simp: sides_def)

lemma run_hist_below:
  assumes g: "graph_wf g" "g_find g t = Some e" and v: "ge_key e \<le> v" "v \<le> t"
  shows "ghist g (ge_parents e) \<subseteq> hist (vparents g) {v}"
    "ge_key e \<le> w \<Longrightarrow> w \<le> v \<Longrightarrow> hist (vparents g) {w} \<subseteq> hist (vparents g) {v}"
proof -
  have e: "g_find g v = Some e" using in_graph_start[OF g v] .
  have h: "hist (vparents g) {v} = {a. ge_key e \<le> a \<and> a \<le> v} \<union> ghist g (ge_parents e)"
    using ghist_split_run[OF g(1) e, of "{v}"] v by auto
  then show "ghist g (ge_parents e) \<subseteq> hist (vparents g) {v}" by blast
  show "hist (vparents g) {w} \<subseteq> hist (vparents g) {v}" if "ge_key e \<le> w" "w \<le> v"
  proof -
    have "w \<in> hist (vparents g) {v}" using h that by blast
    then show ?thesis by (simp only: hist_subset insert_subset empty_subsetI simp_thms)
  qed
qed

lemma hist_split_point:
  assumes g: "graph_wf g" "g_find g t = Some e" and F: "\<forall>v \<in> F. v \<le> t"
  shows "hist (vparents g) F = {a. ge_key e \<le> a \<and> (\<exists>w \<in> F. a \<le> w)} \<union>
    (if \<exists>v \<in> F. ge_key e \<le> v then ghist g (ge_parents e) else {}) \<union>
    hist (vparents g) {v \<in> F. v < ge_key e}"
proof -
  let ?H = "{v \<in> F. ge_key e \<le> v}"
  have "F = ?H \<union> {v \<in> F. v < ge_key e}" by auto
  then have "hist (vparents g) F = hist (vparents g) ?H \<union> hist (vparents g) {v \<in> F. v < ge_key e}"
    by (metis hist_simps(3))
  moreover have "{a. ge_key e \<le> a \<and> (\<exists>w \<in> F. a \<le> w)} = {a. ge_key e \<le> a \<and> (\<exists>w \<in> ?H. a \<le> w)}"
    by auto
  moreover have "hist (vparents g) ?H = {a. ge_key e \<le> a \<and> (\<exists>w \<in> ?H. a \<le> w)} \<union>
      (if \<exists>v \<in> F. ge_key e \<le> v then ghist g (ge_parents e) else {})"
  proof (cases "?H = {}")
    case False
    then show ?thesis using ghist_split_run[OF g, of ?H] F by auto
  next
    case True
    then have "\<not> (\<exists>v \<in> F. ge_key e \<le> v)" by blast
    then show ?thesis unfolding True by simp
  qed
  ultimately show ?thesis by simp
qed

text \<open>What the search returns for a queue whose points lie below \<open>n\<close>.\<close>

definition conflict_result ::
    "graph \<Rightarrow> lv \<Rightarrow> point_queue \<Rightarrow> frontier \<Rightarrow> (dtrange \<times> diff_flag) list \<Rightarrow> bool" where
  "conflict_result g n q C vs \<longleftrightarrow>
     sorted_wrt (<) C \<and> (\<forall>v \<in> set C. in_graph g v \<and> v < n) \<and>
     vis_desc vs \<and> (\<forall>x \<in> set vs. dt_end (fst x) \<le> n) \<and>
     (\<forall>x \<in> set q. ghist g C \<subseteq> hist (vparents g) (tp_set (fst x))) \<and>
     (\<forall>F a. a \<in> vis_of vs F \<longleftrightarrow> a \<notin> ghist g C \<and>
       flag_of (a \<in> hist (vparents g) (sides in_a (flat q))) (a \<in> hist (vparents g) (sides in_b (flat q))) = Some F) \<and>
     (\<forall>F. \<forall>v \<in> vis_of vs F. ghist g C \<subseteq> hist (vparents g) {v})"

definition both_sides :: "point_queue \<Rightarrow> bool" where
  "both_sides q \<longleftrightarrow> (\<forall>side \<in> {in_a, in_b}. \<exists>x \<in> set q. side (snd x))"

lemma conflict_result_root:
  assumes "points_below g n ((time, flag) # q)" "tp_last time = usize_max"
  shows "conflict_result g n ((time, flag) # q) [] []"
proof -
  have "tp_last (fst x) = usize_max" if "x \<in> set ((time, flag) # q)" for x
    using assms that by (auto simp: points_below_def tp_key_def wrapping_succ_def split: if_splits)
  then have "flat ((time, flag) # q) = {}" by (fastforce simp: flat_def tp_set_def)
  then show ?thesis by (simp add: conflict_result_def flag_of_def del: flat_simps)
qed

lemma conflict_result_one:
  assumes q: "points_below g n ((time, flag) # pre)" "both_sides ((time, flag) # pre)"
    and t: "tp_last time \<noteq> usize_max" and pre: "\<forall>x \<in> set pre. fst x = time"
  shows "conflict_result g n ((time, flag) # pre) (tp_merged_with time @ [tp_last time]) []"
proof -
  let ?C = "tp_merged_with time @ [tp_last time]"
  have ok: "tp_ok g time" "tp_last time < n" using q(1) t by (auto simp: points_below_def)
  have C: "set ?C = tp_set time" using t by (simp add: tp_set_def)
  have "sides side (flat ((time, flag) # pre)) = tp_set time" if "side \<in> {in_a, in_b}" for side
  proof -
    obtain x where "x \<in> set ((time, flag) # pre)" "side (snd x)"
      using q(2) \<open>side \<in> _\<close> unfolding both_sides_def by blast
    then have "(v, snd x) \<in> flat ((time, flag) # pre)" if "v \<in> tp_set time" for v
      using that pre \<open>x \<in> _\<close> by (intro flatI) auto
    moreover have "v \<in> tp_set time" if "(v, f) \<in> flat ((time, flag) # pre)" for v f
      using that pre by (auto simp: flat_def)
    ultimately show ?thesis using \<open>side (snd x)\<close> unfolding sides_def by blast
  qed
  moreover have "sorted_wrt (<) ?C" "\<forall>v \<in> set ?C. in_graph g v \<and> v < n"
    using ok t tp_ok_mem[OF ok(1)] by (auto simp: tp_ok_def sorted_wrt_append C[symmetric])
  moreover have "\<forall>x \<in> set ((time, flag) # pre). tp_set (fst x) = set ?C" using pre C by auto
  ultimately show ?thesis
    unfolding conflict_result_def C by (simp add: flag_of_def del: flat_simps)
qed

text \<open>The search stops inside a run.\<close>

lemma conflict_result_stop:
  assumes g: "graph_wf g" "g_find g t = Some e" "t < n"
    and res: "in_run_result g (ge_key e) ps t flag q vs (Inl C) o2 f2"
    and S: "\<And>side. side \<in> {in_a, in_b} \<Longrightarrow> sides side (flat q0) = sides side (insert (t, flag) (flat q))"
    and q0: "\<forall>x \<in> set q0. t \<in> tp_set (fst x) \<or> x \<in> set q" "both_sides q0"
      "\<forall>side \<in> {in_a, in_b}. side flag \<or> (\<exists>x \<in> set q. side (snd x))"
    and q: "\<forall>x \<in> flat q. fst x \<le> t"
  shows "conflict_result g n q0 C vs"
proof -
  define P where "P = insert (t, flag) {x \<in> flat q. ge_key e \<le> fst x}"
  have r: "ge_key e \<le> o2" "o2 \<le> t" "\<forall>side \<in> {in_a, in_b}. side f2 \<longleftrightarrow> (\<exists>x \<in> P. side (snd x))"
      "\<forall>x \<in> P. o2 \<le> fst x" "vis_desc vs" "\<forall>x \<in> set vs. ge_key e \<le> dt_start (fst x) \<and> dt_end (fst x) \<le> t + 1"
      "C = [o2]" "\<forall>x \<in> set q. \<exists>v \<in> tp_set (fst x). ge_key e \<le> v" "\<forall>x \<in> flat q. ge_key e \<le> fst x"
      "\<And>F a. a \<in> vis_of vs F \<longleftrightarrow> o2 < a \<and> a \<le> t \<and> flag_of (covers in_a P a) (covers in_b P a) = Some F"
    using res unfolding in_run_result_def Let_def P_def[symmetric] by simp_all
  have Pq: "P = insert (t, flag) (flat q)" using r(9) by (auto simp: P_def)
  have in_run: "ge_key e \<le> fst x \<and> fst x \<le> t" if "x \<in> P" for x
    using that q r(1,2,9) by (auto simp: Pq)
  have o2: "in_graph g o2" "o2 < n"
    using in_graph_start[OF g(1,2) r(1,2)] r(2) g(3) by (auto simp: in_graph_def)
  have H: "a \<in> hist (vparents g) (sides side (flat q0)) \<longleftrightarrow> ge_key e \<le> a \<and> covers side P a \<or> a \<in> ghist g (ge_parents e)"
    if sd: "side \<in> {in_a, in_b}" for side a
  proof -
    have F: "sides side (flat q0) = sides side P" using S[OF sd] by (simp add: Pq)
    have le: "\<forall>v \<in> sides side P. v \<le> t" "{v \<in> sides side P. v < ge_key e} = {}"
      using in_run by (fastforce simp: sides_def)+
    obtain x where "x \<in> P" "side (snd x)"
    proof (cases "side flag")
      case False
      then obtain y where y: "y \<in> set q" "side (snd y)" using q0(3) sd by blast
      then obtain v where "v \<in> tp_set (fst y)" using r(8) by blast
      with y have "(v, snd y) \<in> P" by (simp add: Pq flatI)
      then show ?thesis using that y(2) by fastforce
    qed (use that[of "(t, flag)"] in \<open>simp add: P_def\<close>)
    then have ex: "\<exists>v \<in> sides side P. ge_key e \<le> v" using in_run by (cases x) (auto simp: sides_def)
    show ?thesis
      unfolding F hist_split_point[OF g(1,2) le(1)] le(2) using ex
      by (auto simp: covers_def sides_def)
  qed
  have below: "a \<in> ghist g [o2] \<longleftrightarrow> ge_key e \<le> a \<and> a \<le> o2 \<or> a \<in> ghist g (ge_parents e)" for a
    using ghist_split_run[OF g(1) in_graph_start[OF g(1,2) r(1,2)], of "{o2}"] r(1) by auto
  have lt: "a < ge_key e" if "a \<in> ghist g (ge_parents e)" for a
    using entry_parents_less[OF g(1,2)] that gdag.anc_le[OF g(1)] unfolding hist_def by fastforce
  have cov: "covers side P a \<Longrightarrow> a \<le> t" for side a using in_run by (fastforce simp: covers_def)
  have marks: "a \<in> vis_of vs F \<longleftrightarrow> a \<notin> ghist g [o2] \<and> flag_of (a \<in> hist (vparents g) (sides in_a (flat q0)))
      (a \<in> hist (vparents g) (sides in_b (flat q0))) = Some F" for F a
  proof (cases "o2 < a")
    case True
    then have "a \<notin> ghist g (ge_parents e)" "ge_key e \<le> a" using lt r(1) by fastforce+
    then have "flag_of (a \<in> hist (vparents g) (sides in_a (flat q0))) (a \<in> hist (vparents g) (sides in_b (flat q0)))
        = flag_of (covers in_a P a) (covers in_b P a)" using H by simp
    moreover have "flag_of (covers in_a P a) (covers in_b P a) = Some F \<Longrightarrow> a \<le> t"
      using cov by (auto simp: flag_of_def split: if_splits)
    ultimately show ?thesis unfolding r(10) below using True \<open>a \<notin> _\<close> by auto
  next
    case False
    then have "a \<in> ghist g [o2]" if "a \<in> hist (vparents g) (sides side (flat q0))" "side \<in> {in_a, in_b}" for side
      using that H unfolding below by auto
    then show ?thesis unfolding r(10) using False by (auto simp: flag_of_def)
  qed
  have "ghist g [o2] \<subseteq> hist (vparents g) (tp_set (fst x))" if x: "x \<in> set q0" for x
  proof -
    obtain v where v: "v \<in> tp_set (fst x)" "(v, snd x) \<in> P \<or> v = t"
    proof (cases "t \<in> tp_set (fst x)")
      case False
      then have "x \<in> set q" using q0(1) x by blast
      then obtain v where "v \<in> tp_set (fst x)" using r(8) by blast
      moreover have "(v, snd x) \<in> P" using \<open>x \<in> set q\<close> \<open>v \<in> _\<close> by (simp add: Pq flatI)
      ultimately show ?thesis using that by blast
    qed (use that in blast)
    then have "ge_key e \<le> v" "v \<le> t" "o2 \<le> v" using in_run r(1,2,4) by fastforce+
    then have "ghist g [o2] \<subseteq> hist (vparents g) {v}" using run_hist_below(2)[OF g(1,2) _ _ r(1)] by simp
    also have "\<dots> \<subseteq> hist (vparents g) (tp_set (fst x))"
      unfolding hist_subset using v(1) by (simp add: hist_self)
    finally show ?thesis .
  qed
  moreover have "ghist g [o2] \<subseteq> hist (vparents g) {v}" if "v \<in> vis_of vs F" for F v
    using that run_hist_below(2)[OF g(1,2) _ _ r(1), of v] r(1) by (auto simp: r(10))
  moreover have "\<forall>x \<in> set vs. dt_end (fst x) \<le> n" using r(6) g(3) by fastforce
  ultimately show ?thesis
    unfolding conflict_result_def r(7) using marks r(5) o2 by auto
qed

text \<open>The search goes on below the run.\<close>

lemma conflict_result_next:
  assumes g: "graph_wf g" "graph_fits g" "g_find g t = Some e" "t < n"
    and res: "in_run_result g (ge_key e) (ge_parents e) t flag q vs (Inr q') o2 f2"
    and S: "\<And>side. side \<in> {in_a, in_b} \<Longrightarrow> sides side (flat q0) = sides side (insert (t, flag) (flat q))"
    and q0: "\<forall>x \<in> set q0. t \<in> tp_set (fst x) \<or> x \<in> set q"
    and q: "\<forall>x \<in> flat q. fst x \<le> t"
    and ih: "conflict_result g (ge_key e) q' C rest"
  shows "conflict_result g n q0 C (vs @ rest)"
proof -
  define P where "P = insert (t, flag) {x \<in> flat q. ge_key e \<le> fst x}"
  let ?ps = "ge_parents e"
  have s: "ge_key e \<le> t" using gdag.run_start[OF g(1) find_run[OF g(3)]] by simp
  obtain r where r: "q' = push_point (tp_from_frontier ?ps, f2) r" "flat r = {x \<in> flat q. fst x < ge_key e}"
      "\<forall>x \<in> set q. x \<in> set r \<or> (\<exists>v \<in> tp_set (fst x). ge_key e \<le> v)"
    and rr: "\<forall>side \<in> {in_a, in_b}. side f2 \<longleftrightarrow> (\<exists>x \<in> P. side (snd x))" "vis_desc vs"
      "\<forall>x \<in> set vs. ge_key e \<le> dt_start (fst x) \<and> dt_end (fst x) \<le> t + 1"
      "\<And>F a. a \<in> vis_of vs F \<longleftrightarrow> ge_key e \<le> a \<and> a \<le> t \<and> flag_of (covers in_a P a) (covers in_b P a) = Some F"
    using res unfolding in_run_result_def Let_def P_def[symmetric] by auto
  have ps: "sorted_wrt (<) ?ps" "\<forall>v \<in> set ?ps. in_graph g v \<and> v < usize_max"
    using graph_wfD(2)[OF g(1), of e] g(1,3) fits_version[OF g(1,2)]
    by (auto simp: entry_wf_def g_find_Some)
  note pt = tp_from_frontier_ok(2)[OF ps]
  have C: "sorted_wrt (<) C" "\<forall>v \<in> set C. in_graph g v \<and> v < ge_key e" "vis_desc rest"
      "\<forall>x \<in> set rest. dt_end (fst x) \<le> ge_key e" "\<forall>x \<in> set q'. ghist g C \<subseteq> hist (vparents g) (tp_set (fst x))"
      "\<And>F a. a \<in> vis_of rest F \<longleftrightarrow> a \<notin> ghist g C \<and> flag_of (a \<in> hist (vparents g) (sides in_a (flat q')))
         (a \<in> hist (vparents g) (sides in_b (flat q'))) = Some F"
      "\<And>F v. v \<in> vis_of rest F \<Longrightarrow> ghist g C \<subseteq> hist (vparents g) {v}"
    using ih unfolding conflict_result_def by blast+
  have Cps: "ghist g C \<subseteq> ghist g ?ps" using C(5) by (simp add: r(1) pt)
  have Cv: "ghist g C \<subseteq> hist (vparents g) {v}" if "ge_key e \<le> v" "v \<le> t" for v
    using Cps run_hist_below(1)[OF g(1,3) that] by blast
  have low: "a < ge_key e" if "a \<in> ghist g C \<or> a \<in> hist (vparents g) (sides side (flat q'))" for a side
  proof -
    have "v < ge_key e" if "v \<in> sides side (flat q')" for v
      using that entry_parents_less[OF g(1,3)] by (auto simp: r(1,2) pt sides_def)
    then show ?thesis
      using that C(2) gdag.anc_le[OF g(1)] unfolding hist_def by fastforce
  qed
  have cov: "covers side P a \<Longrightarrow> a \<le> t" for side a using q by (auto simp: covers_def P_def)
  have H: "a \<in> hist (vparents g) (sides side (flat q0)) \<longleftrightarrow>
      ge_key e \<le> a \<and> covers side P a \<or> a \<in> hist (vparents g) (sides side (flat q'))"
    if sd: "side \<in> {in_a, in_b}" for side a
  proof -
    let ?F = "sides side (insert (t, flag) (flat q))"
    have le: "\<forall>v \<in> ?F. v \<le> t" using q by (auto simp: sides_def)
    have c: "{a. ge_key e \<le> a \<and> (\<exists>w \<in> ?F. a \<le> w)} = {a. ge_key e \<le> a \<and> covers side P a}"
      using s by (fastforce simp: covers_def sides_def P_def)
    have ex: "(\<exists>v \<in> ?F. ge_key e \<le> v) \<longleftrightarrow> side f2"
      unfolding bspec[OF rr(1) sd] using s by (fastforce simp: sides_def P_def)
    have lt: "{v \<in> ?F. v < ge_key e} = sides side (flat r)"
      unfolding r(2) using s by (auto simp: sides_def)
    have "sides side (flat q') = (if side f2 then set ?ps else {}) \<union> sides side (flat r)"
      by (simp add: r(1) pt)
    then have "hist (vparents g) (sides side (flat q')) =
        (if side f2 then ghist g ?ps else {}) \<union> hist (vparents g) (sides side (flat r))"
      by simp
    then show ?thesis
      unfolding S[OF sd] hist_split_point[OF g(1,3) le] c ex lt by blast
  qed
  have marks: "a \<in> vis_of (vs @ rest) F \<longleftrightarrow> a \<notin> ghist g C \<and> flag_of (a \<in> hist (vparents g) (sides in_a (flat q0)))
      (a \<in> hist (vparents g) (sides in_b (flat q0))) = Some F" for F a
  proof (cases "ge_key e \<le> a")
    case True
    have C': "a \<notin> ghist g C" using low True by fastforce
    have no: "a \<notin> hist (vparents g) (sides side (flat q'))" for side using low[of a side] True by fastforce
    then have "a \<notin> vis_of rest F" unfolding C(6) by (simp add: flag_of_def)
    moreover have "flag_of (covers in_a P a) (covers in_b P a) = Some F \<Longrightarrow> a \<le> t"
      using cov by (auto simp: flag_of_def split: if_splits)
    moreover have "flag_of (a \<in> hist (vparents g) (sides in_a (flat q0))) (a \<in> hist (vparents g) (sides in_b (flat q0)))
        = flag_of (covers in_a P a) (covers in_b P a)" using H no True by simp
    ultimately show ?thesis using rr(4) True C' by auto
  next
    case False
    then have "flag_of (a \<in> hist (vparents g) (sides in_a (flat q0))) (a \<in> hist (vparents g) (sides in_b (flat q0)))
        = flag_of (a \<in> hist (vparents g) (sides in_a (flat q'))) (a \<in> hist (vparents g) (sides in_b (flat q')))"
      using H by simp
    then show ?thesis using rr(4) C(6) False by simp
  qed
  have below: "ghist g C \<subseteq> hist (vparents g) (tp_set (fst x))" if x: "x \<in> set q0" for x
  proof -
    consider "x \<in> set r" | v where "v \<in> tp_set (fst x)" "ge_key e \<le> v" "v \<le> t"
    proof (cases "t \<in> tp_set (fst x)")
      case False
      then have "x \<in> set q" using q0 x by blast
      show ?thesis
      proof (cases "x \<in> set r")
        case False
        then obtain v where "v \<in> tp_set (fst x)" "ge_key e \<le> v" using r(3) \<open>x \<in> set q\<close> by blast
        then show ?thesis using that(2) q flatI[OF \<open>x \<in> set q\<close>] by fastforce
      qed (use that in blast)
    qed (use that s in blast)
    then show ?thesis
    proof cases
      case 1
      then show ?thesis using C(5) by (simp add: r(1))
    next
      case 2
      then have "hist (vparents g) {v} \<subseteq> hist (vparents g) (tp_set (fst x))"
        unfolding hist_subset by (simp add: hist_self)
      then show ?thesis using Cv[OF 2(2,3)] by blast
    qed
  qed
  have "ghist g C \<subseteq> hist (vparents g) {v}" if v: "v \<in> vis_of (vs @ rest) F" for F v
  proof (cases "v \<in> vis_of rest F")
    case False
    then have "ge_key e \<le> v" "v \<le> t" using v rr(4) by simp_all
    then show ?thesis by (rule Cv)
  qed (rule C(7))
  moreover have "vis_desc (vs @ rest)" "\<forall>x \<in> set (vs @ rest). dt_end (fst x) \<le> n"
    using rr(2,3) C(3,4) s g(4) by fastforce+
  moreover have "\<forall>v \<in> set C. in_graph g v \<and> v < n" using C(2) s g(4) by fastforce
  ultimately show ?thesis
    unfolding conflict_result_def using marks below C(1) by auto
qed

lemma same_point_sides:
  "\<forall>x \<in> set pre. fst x = time \<Longrightarrow>
    sides side (flat pre) = (if \<exists>x \<in> set pre. side (snd x) then tp_set time else {})"
proof (induction pre)
  case (Cons x pre)
  then have IH: "sides side (flat pre) = (if \<exists>x \<in> set pre. side (snd x) then tp_set time else {})" by simp
  obtain f where x: "x = (time, f)" using Cons.prems by (cases x) simp
  show ?case unfolding x flat_simps sides_simps IH by (auto split: if_splits)
qed simp

text \<open>One round, from the popped point.\<close>

lemma conflict_round:
  assumes g: "graph_wf g" "graph_fits g" and q: "points_below g n ((time, flag) # q)" "both_sides ((time, flag) # q)"
    and t: "tp_last time \<noteq> usize_max" and d: "conflict_dups time flag q = (f1, q1)"
    and e: "g_find g (tp_last time) = Some e"
    and r: "conflict_in_run (ge_key e) (ge_parents e) \<lparr>dt_start = ge_key e, dt_end = tp_last time + 1\<rparr> f1
      (push_merged (tp_merged_with time) f1 q1) = (vs, out)"
  shows "out = Inl C \<Longrightarrow> conflict_result g n ((time, flag) # q) C vs"
    "out = Inr q' \<Longrightarrow> ge_key e < n \<and> points_below g (ge_key e) q' \<and> both_sides q' \<and>
      (\<forall>C rest. conflict_result g (ge_key e) q' C rest \<longrightarrow> conflict_result g n ((time, flag) # q) C (vs @ rest))"
proof -
  let ?t = "tp_last time" and ?q0 = "(time, flag) # q"
  let ?q2 = "push_merged (tp_merged_with time) f1 q1"
  obtain pre where pre: "q = pre @ q1" "\<forall>x \<in> set pre. fst x = time"
      "\<forall>side \<in> {in_a, in_b}. side f1 \<longleftrightarrow> side flag \<or> (\<exists>x \<in> set pre. side (snd x))"
    using conflict_dups_spec[OF d] by blast
  have ok: "tp_ok g time" "?t < n" "\<forall>y \<in> set q1. tp_key y \<le> tp_key (time, flag)" "points_below g n q1"
    using q(1) t pre(1) by (auto simp: points_below_def pts_desc_def sorted_wrt_append)
  have "tp_last (fst y) = usize_max \<or> tp_last (fst y) \<le> ?t" if "y \<in> set q1" for y
    using ok(3) that t by (auto simp: tp_key_def wrapping_succ_def split: if_splits)
  then have "points_below g (?t + 1) q1"
    using ok(4) by (auto simp: points_below_def less_Suc_eq_le)
  note m = push_merged_below[OF g this ok(1)]
  have q2: "points_below g (?t + 1) ?q2" "usize_max \<notin> set (tp_merged_with time)" using m by simp_all
  have flt: "\<forall>x \<in> flat ?q2. fst x \<le> ?t" using flat_below[OF q2(1)] by fastforce
  have s: "ge_key e \<le> ?t" using gdag.run_start[OF g(1) find_run[OF e]] by simp
  obtain o2 f2 where res: "in_run_result g (ge_key e) (ge_parents e) ?t f1 ?q2 vs out o2 f2"
    using conflict_in_run_spec[OF g q2(1) s r] by blast
  have tps: "tp_set time = insert ?t (set (tp_merged_with time))" using t by (simp add: tp_set_def)
  have S: "sides side (flat ?q0) = sides side (insert (?t, f1) (flat ?q2))" if sd: "side \<in> {in_a, in_b}" for side
  proof -
    have "sides side (flat pre) = (if \<exists>x \<in> set pre. side (snd x) then tp_set time else {})"
      using pre(2) by (rule same_point_sides)
    then have "sides side (flat ?q0) = (if side f1 then tp_set time else {}) \<union> sides side (flat q1)"
      using bspec[OF pre(3) sd] by (auto simp: pre(1))
    also have "\<dots> = sides side (insert (?t, f1) (flat ?q2))"
      unfolding push_merged_flat[OF q2(2)] by (auto simp: tps)
    finally show ?thesis .
  qed
  have sub: "\<forall>x \<in> set ?q0. ?t \<in> tp_set (fst x) \<or> x \<in> set ?q2"
  proof
    fix x assume "x \<in> set ?q0"
    then consider "fst x = time" | "x \<in> set q1" using pre(1,2) by auto
    then show "?t \<in> tp_set (fst x) \<or> x \<in> set ?q2" by cases (simp_all add: push_merged_set tps)
  qed
  have fl: "\<forall>side \<in> {in_a, in_b}. side f1 \<or> (\<exists>x \<in> set ?q2. side (snd x))"
  proof
    fix side assume sd: "side \<in> {in_a, in_b}"
    then obtain x where x: "x \<in> set ?q0" "side (snd x)" using q(2) unfolding both_sides_def by blast
    then consider "x = (time, flag)" | "x \<in> set pre" | "x \<in> set q1" using pre(1) by auto
    then show "side f1 \<or> (\<exists>x \<in> set ?q2. side (snd x))"
      using x(2) bspec[OF pre(3) sd] by cases (auto simp: push_merged_set)
  qed
  show "conflict_result g n ?q0 C vs" if "out = Inl C"
    using conflict_result_stop[OF g(1) e ok(2) _ S sub q(2) fl flt] res that by blast
  assume out: "out = Inr q'"
  have "conflict_result g n ?q0 C (vs @ rest)" if "conflict_result g (ge_key e) q' C rest" for C rest
    using conflict_result_next[OF g e ok(2) res[unfolded out] S sub flt that] .
  moreover have "points_below g (ge_key e) q' \<and> both_sides q'"
  proof -
    obtain r where r: "q' = push_point (tp_from_frontier (ge_parents e), f2) r" "pts_desc r"
        "\<forall>x \<in> set r. tp_ok g (fst x) \<and> (tp_last (fst x) = usize_max \<or> tp_last (fst x) < ge_key e)"
        "\<forall>x \<in> set ?q2. x \<in> set r \<or> (\<exists>v \<in> tp_set (fst x). ge_key e \<le> v)"
      and f2: "\<forall>side \<in> {in_a, in_b}. side f2 \<longleftrightarrow>
        (\<exists>x \<in> insert (?t, f1) {x \<in> flat ?q2. ge_key e \<le> fst x}. side (snd x))"
      using res unfolding in_run_result_def Let_def out sum.case by blast
    have ps: "sorted_wrt (<) (ge_parents e)" "\<forall>v \<in> set (ge_parents e). in_graph g v \<and> v < usize_max"
      using graph_wfD(2)[OF g(1), of e] g(1) e fits_version[OF g]
      by (auto simp: entry_wf_def g_find_Some)
    note pt = tp_from_frontier_ok[OF ps]
    have "tp_last (tp_from_frontier (ge_parents e)) = usize_max \<or> tp_last (tp_from_frontier (ge_parents e)) < ge_key e"
      unfolding pt(3) using entry_parents_less[OF g(1) e] by simp
    then have "points_below g (ge_key e) q'"
      using r(2,3) pt(1) by (auto simp: points_below_def r(1) push_point_desc)
    moreover have "\<exists>x \<in> set q'. side (snd x)" if sd: "side \<in> {in_a, in_b}" for side
    proof (cases "side f2")
      case False
      then have no: "\<not> side f1" "\<not> (\<exists>x \<in> flat ?q2. ge_key e \<le> fst x \<and> side (snd x))"
        using bspec[OF f2 sd] by auto
      then obtain x where x: "x \<in> set ?q2" "side (snd x)" using fl sd by blast
      then have "x \<in> set r" using r(4) no(2) flatI[OF x(1)] by fastforce
      then show ?thesis using x(2) by (auto simp: r(1))
    qed (simp add: r(1))
    ultimately show ?thesis unfolding both_sides_def by blast
  qed
  ultimately show "ge_key e < n \<and> points_below g (ge_key e) q' \<and> both_sides q' \<and>
      (\<forall>C rest. conflict_result g (ge_key e) q' C rest \<longrightarrow> conflict_result g n ?q0 C (vs @ rest))"
    using s ok(2) by auto
qed

lemma conflict_loop_spec:
  assumes g: "graph_wf g" "graph_fits g"
  shows "points_below g n q \<Longrightarrow> both_sides q \<Longrightarrow>
    \<exists>C vs. conflict_loop g q = Some (C, vs) \<and> conflict_result g n q C vs"
proof (induction n arbitrary: q rule: less_induct)
  case (less n)
  obtain time flag q0 where q: "q = (time, flag) # q0"
  proof (cases q)
    case Nil
    have "\<exists>x \<in> set q. in_a (snd x)" using less.prems(2) by (simp add: both_sides_def)
    then show ?thesis using Nil by simp
  next
    case (Cons x q0)
    then show ?thesis using that[of "fst x" "snd x" q0] by simp
  qed
  show ?case
  proof (cases "tp_last time = usize_max")
    case True
    then have "conflict_loop g q = Some ([], [])" unfolding q by (subst conflict_loop.simps) simp
    moreover have "conflict_result g n q [] []"
      unfolding q using less.prems(1) True by (intro conflict_result_root) (simp_all add: q)
    ultimately show ?thesis by blast
  next
    case False
    obtain f1 q1 where d: "conflict_dups time flag q0 = (f1, q1)" by fastforce
    show ?thesis
    proof (cases "q1 = []")
      case True
      then have "\<forall>x \<in> set q0. fst x = time" using conflict_dups_spec[OF d] by auto
      then have "conflict_result g n q (tp_merged_with time @ [tp_last time]) []"
        unfolding q using conflict_result_one less.prems False by (simp add: q)
      moreover have "conflict_loop g q = Some (tp_merged_with time @ [tp_last time], [])"
        unfolding q using False d True by (subst conflict_loop.simps) simp
      ultimately show ?thesis by blast
    next
      case ne: False
      have "in_graph g (tp_last time)"
        using less.prems(1) False by (auto simp: points_below_def q tp_ok_def)
      then obtain e where e: "g_find g (tp_last time) = Some e" by (auto simp: in_graph_def)
      obtain vs out where r: "conflict_in_run (ge_key e) (ge_parents e)
          \<lparr>dt_start = ge_key e, dt_end = tp_last time + 1\<rparr> f1 (push_merged (tp_merged_with time) f1 q1) = (vs, out)"
        by fastforce
      note round = conflict_round[OF g less.prems[unfolded q] False d e r, folded q]
      have loop: "conflict_loop g q = (case out of Inl C \<Rightarrow> Some (C, vs)
          | Inr q' \<Rightarrow> Option.bind (conflict_loop g q') (\<lambda>(C, rest). Some (C, vs @ rest)))"
        unfolding q using False d ne e r[unfolded ge_key_def]
        by (subst conflict_loop.simps) (simp add: find_packed_def Let_def)
      show ?thesis
      proof (cases out)
        case (Inl C)
        then show ?thesis using loop round(1) by auto
      next
        case (Inr q')
        note next_q = round(2)[OF Inr]
        then obtain C rest where "conflict_loop g q' = Some (C, rest)" "conflict_result g (ge_key e) q' C rest"
          using less.IH by blast
        then show ?thesis using loop Inr next_q by auto
      qed
    qed
  qed
qed

subsection \<open>The result\<close>

text \<open>The zone between two frontiers and the point they have in common.\<close>

definition conflict_zone_of :: "graph \<Rightarrow> lv list \<Rightarrow> lv list \<Rightarrow> frontier \<Rightarrow> (dtrange \<times> diff_flag) list \<Rightarrow> bool" where
  "conflict_zone_of g a b C vs \<longleftrightarrow>
     sorted_wrt (<) C \<and> (\<forall>v \<in> set C. in_graph g v) \<and> vis_desc vs \<and>
     ghist g C \<subseteq> ghist g a \<inter> ghist g b \<and>
     vis_of vs OnlyA = ghist g a - ghist g b \<and> vis_of vs OnlyB = ghist g b - ghist g a \<and>
     vis_of vs Shared = (ghist g a \<inter> ghist g b) - ghist g C \<and>
     (\<forall>F. \<forall>v \<in> vis_of vs F. ghist g C \<subseteq> hist (vparents g) {v})"

lemma flag_of_iff:
  "flag_of p q = Some OnlyA \<longleftrightarrow> p \<and> \<not> q" "flag_of p q = Some OnlyB \<longleftrightarrow> q \<and> \<not> p"
  "flag_of p q = Some Shared \<longleftrightarrow> p \<and> q"
  by (auto simp: flag_of_def)

lemma find_conflicting_slow_spec:
  assumes g: "graph_wf g" "graph_fits g"
    and a: "sorted_wrt (<) a" "\<forall>v \<in> set a. in_graph g v" and b: "sorted_wrt (<) b" "\<forall>v \<in> set b. in_graph g v"
  shows "\<exists>C vs. find_conflicting_slow g a b = Some (C, vs) \<and> conflict_zone_of g a b C vs"
proof -
  have lt: "\<forall>v \<in> set a. in_graph g v \<and> v < usize_max" "\<forall>v \<in> set b. in_graph g v \<and> v < usize_max"
    using a(2) b(2) fits_version[OF g] by auto
  note pa = tp_from_frontier_ok[OF a(1) lt(1)] and pb = tp_from_frontier_ok[OF b(1) lt(2)]
  define q where "q = push_point (tp_from_frontier b, OnlyB) (push_point (tp_from_frontier a, OnlyA) [])"
  have below: "tp_last (fst x) = usize_max \<or> tp_last (fst x) < usize_max" if "x \<in> set q" for x
  proof -
    have "x = (tp_from_frontier a, OnlyA) \<or> x = (tp_from_frontier b, OnlyB)"
      using that unfolding q_def push_point_set by auto
    then show ?thesis using lt by (auto simp: pa(3) pb(3))
  qed
  have "points_below g usize_max q"
    unfolding points_below_def
  proof (intro conjI ballI)
    show "pts_desc q" unfolding q_def by (intro push_point_desc) simp
    show "tp_ok g (fst x)" if "x \<in> set q" for x
      using that pa(1) pb(1) unfolding q_def push_point_set by auto
  qed (rule below)
  moreover have "both_sides q" unfolding both_sides_def q_def push_point_set by (auto simp: in_a_def in_b_def)
  ultimately obtain C vs where r: "conflict_loop g q = Some (C, vs)" "conflict_result g usize_max q C vs"
    using conflict_loop_spec[OF g] by blast
  have sd: "sides in_a (flat q) = set a" "sides in_b (flat q) = set b"
    unfolding q_def push_point_flat flat_simps by (simp_all add: in_a_def in_b_def pa(2) pb(2))
  have "(tp_from_frontier a, OnlyA) \<in> set q" "(tp_from_frontier b, OnlyB) \<in> set q"
    unfolding q_def push_point_set by simp_all
  moreover have low: "\<forall>x \<in> set q. ghist g C \<subseteq> hist (vparents g) (tp_set (fst x))"
    using r(2) unfolding conflict_result_def by simp
  ultimately have sub: "ghist g C \<subseteq> ghist g a" "ghist g C \<subseteq> ghist g b"
    using bspec[OF low] pa(2) pb(2) by force+
  have res: "sorted_wrt (<) C" "\<forall>v \<in> set C. in_graph g v \<and> v < usize_max" "vis_desc vs"
    "\<And>F v. v \<in> vis_of vs F \<longleftrightarrow> v \<notin> ghist g C \<and> flag_of (v \<in> ghist g a) (v \<in> ghist g b) = Some F"
    "\<forall>F. \<forall>v \<in> vis_of vs F. ghist g C \<subseteq> hist (vparents g) {v}"
    using r(2) unfolding conflict_result_def sd by simp_all
  have "vis_of vs OnlyA = ghist g a - ghist g b" "vis_of vs OnlyB = ghist g b - ghist g a"
    "vis_of vs Shared = (ghist g a \<inter> ghist g b) - ghist g C"
    by (rule set_eqI, use sub in \<open>simp only: res(4) flag_of_iff Diff_iff Int_iff\<close>, use sub in blast)+
  then have "conflict_zone_of g a b C vs"
    unfolding conflict_zone_of_def using res(1-3,5) sub by simp
  then show ?thesis using r(1) by (simp add: find_conflicting_slow_def q_def)
qed

lemma coarse_zone:
  assumes g: "graph_wf g" and i: "in_graph g p" "in_graph g c" "p \<noteq> c"
    and d: "is_direct_descendant_coarse g c p = Some True"
  defines "r \<equiv> \<lparr>dt_start = p + 1, dt_end = c + 1\<rparr>"
  shows "p < c" "conflict_zone_of g [p] [c] [p] [(r, OnlyB)]" "conflict_zone_of g [c] [p] [p] [(r, OnlyA)]"
proof -
  have h: "ganc g p c" "ganc g v c \<longleftrightarrow> p < v \<and> v \<le> c \<or> ganc g v p" for v
    using is_direct_descendant_coarse_spec[OF g i(2), of p] d by auto
  have le: "ganc g v w \<Longrightarrow> v \<le> w" for v w by (rule gdag.anc_le[OF g])
  show pc: "p < c" using le[OF h(1)] i(3) by simp
  obtain e where e: "g_find g c = Some e" "ge_key e \<le> p"
    using d pc i(2) by (auto simp: is_direct_descendant_coarse_def in_graph_def ge_contains_def
        dtrange_contains_def ge_key_def)
  have up: "ghist g [p] \<subseteq> hist (vparents g) {v}" if "p < v" "v < c + 1" for v
    using run_hist_below(2)[OF g e(1), of v p] e(2) that by simp
  have "ghist g [c] - ghist g [p] = {p + 1 ..< c + 1}" "ghist g [p] - ghist g [c] = {}"
    "ghist g [p] \<inter> ghist g [c] - ghist g [p] = {}"
    using h le by (auto simp: Suc_le_eq; fastforce)+
  then show "conflict_zone_of g [p] [c] [p] [(r, OnlyB)]" "conflict_zone_of g [c] [p] [p] [(r, OnlyA)]"
    using pc up i(1) by (auto simp: conflict_zone_of_def r_def split: if_splits)
qed

lemma find_conflicting_spec:
  assumes g: "graph_wf g" "graph_fits g"
    and a: "sorted_wrt (<) a" "\<forall>v \<in> set a. in_graph g v" and b: "sorted_wrt (<) b" "\<forall>v \<in> set b. in_graph g v"
  shows "\<exists>C vs. find_conflicting g a b = Some (C, vs) \<and> conflict_zone_of g a b C vs"
proof -
  note slow = find_conflicting_slow_spec[OF assms]
  consider (eq) "a = b" | (one) x y where "a = [x]" "b = [y]" "x \<noteq> y"
    | (other) "a \<noteq> b" "\<not> (length a = 1 \<and> length b = 1)"
    by (cases a; cases b; fastforce)
  then show ?thesis
  proof cases
    case eq
    then show ?thesis using a by (simp add: find_conflicting_def conflict_zone_of_def)
  next
    case other
    then show ?thesis using slow by (auto simp: find_conflicting_def)
  next
    case one
    have i: "in_graph g x" "in_graph g y" using a b one by auto
    have fit: "wrapping_succ x = x + 1" "wrapping_succ y = y + 1"
      using fits_version[OF g i(1)] fits_version[OF g i(2)] by (simp_all add: wrapping_succ_def)
    obtain r1 r2 where r: "is_direct_descendant_coarse g x y = Some r1" "is_direct_descendant_coarse g y x = Some r2"
      using is_direct_descendant_coarse_spec[OF g(1) i(1), of y] is_direct_descendant_coarse_spec[OF g(1) i(2), of x]
      by auto
    consider r1 | "\<not> r1" r2 | "\<not> r1" "\<not> r2" by blast
    then show ?thesis
    proof cases
      case 1
      then show ?thesis
        using coarse_zone(3)[OF g(1) i(2,1)] one r fit by (simp add: find_conflicting_def)
    next
      case 2
      then show ?thesis
        using coarse_zone(2)[OF g(1) i] one r fit by (simp add: find_conflicting_def)
    next
      case 3
      then show ?thesis using slow one r by (simp add: find_conflicting_def)
    qed
  qed
qed

text \<open>\<open>find_conflicting_simple\<close> collects the zone in canonical form.\<close>

abbreviation push_span :: "dtrange list \<Rightarrow> dtrange \<times> diff_flag \<Rightarrow> dtrange list" where
  "push_span \<equiv> \<lambda>spans (span, flag). fst (push_reversed_rle dtrange_can_append dtrange_prepend spans span)"

lemma fold_visits:
  assumes "vis_desc vs" "run_form (rev A)" "\<forall>x \<in> set A. \<forall>y \<in> set vs. dt_end (fst y) \<le> dt_start x"
  shows "run_form (rev (foldl push_span A vs)) \<and> dt_set (foldl push_span A vs) = dt_set A \<union> (\<Union>F. vis_of vs F)"
  using assms
proof (induction vs arbitrary: A)
  case (Cons x vs)
  obtain r f where x: "x = (r, f)" by fastforce
  let ?A = "fst (push_reversed_rle dtrange_can_append dtrange_prepend A r)"
  have r: "dt_start r < dt_end r" "\<forall>y \<in> set A. dt_end r \<le> dt_start y" "vis_desc vs"
    "\<forall>y \<in> set vs. dt_end (fst y) \<le> dt_start r"
    using Cons.prems(1,3) by (simp_all add: x)
  note p = push_run[OF Cons.prems(2) r(1,2)]
  have "\<forall>y \<in> set ?A. \<forall>z \<in> set vs. dt_end (fst z) \<le> dt_start y"
    using p r(4) order_trans by blast
  note ih = Cons.IH[OF r(3) _ this]
  have "(\<Union>F. vis_of (x # vs) F) = {dt_start r ..< dt_end r} \<union> (\<Union>F. vis_of vs F)"
    by (auto simp: x split: if_splits)
  then show ?case using ih p by (simp add: x Un_assoc)
qed simp

lemma find_conflicting_simple_spec:
  assumes "graph_wf g" "graph_fits g" "sorted_wrt (<) a" "\<forall>v \<in> set a. in_graph g v"
    "sorted_wrt (<) b" "\<forall>v \<in> set b. in_graph g v"
  shows "\<exists>z. find_conflicting_simple g a b = Some z \<and> run_form (rev (rev_spans z)) \<and>
    dt_set (rev_spans z) = (ghist g a \<union> ghist g b) - ghist g (common_ancestor z)"
proof -
  obtain C vs where r: "find_conflicting g a b = Some (C, vs)" "conflict_zone_of g a b C vs"
    using find_conflicting_spec[OF assms] by blast
  have "(\<Union>F. vis_of vs F) = vis_of vs OnlyA \<union> vis_of vs OnlyB \<union> vis_of vs Shared"
    by (auto, metis diff_flag.exhaust)
  also have "\<dots> = (ghist g a \<union> ghist g b) - ghist g C"
    using r(2) unfolding conflict_zone_of_def by auto
  finally show ?thesis
    using r fold_visits[of vs "[]"] by (simp add: find_conflicting_simple_def conflict_zone_of_def)
qed

end
