(* ===== verification/Varint.thy ===== *)
theory Varint
  imports "HOL-Library.Word"
begin

text \<open>
  The variable-length integers of \<open>encoding/varint.rs\<close>.  Bytes and integers are words of their
  width; \<open>+\<close>, \<open>-\<close> and \<open>*\<close> wrap, as they do in a release build (a debug build panics instead).  A
  slice is a list of bytes, an array a list of fixed length, and a parse error the left side of a
  sum.
\<close>

unbundle bit_operations_syntax

type_synonym u8 = "8 word"
type_synonym u32 = "32 word"
type_synonym u64 = "64 word"

datatype version_conversion_error = UnknownAgent | SeqInFuture

datatype parse_error = InvalidMagic | UnsupportedProtocolVersion | DocIdMismatch | BaseVersionUnknown
  | UnknownChunk | LZ4DecoderNeeded | LZ4DecompressionError | CompressedDataMissing | InvalidChunkHeader
  | MissingChunk u32 | InvalidLength | UnexpectedEOF | InvalidUTF8
  | InvalidRemoteID version_conversion_error | InvalidVarInt | InvalidContent | GenericInvalidData
  | ChecksumFailed | DataMissing

section \<open>Byte order and arrays\<close>

text \<open>\<open>to_be_bytes\<close>, \<open>from_be\<close> and \<open>copy_from_slice\<close> of the standard library.\<close>

definition be_bytes :: "nat \<Rightarrow> 'a::len word \<Rightarrow> u8 list" where
  "be_bytes n v = map (\<lambda>i. ucast (drop_bit (8 * i) v)) (rev [0 ..< n])"

definition from_be :: "u8 list \<Rightarrow> 'a::len word" where
  "from_be bs = foldl (\<lambda>val b. push_bit 8 val + ucast b) 0 bs"

definition copy_slice :: "'a list \<Rightarrow> nat \<Rightarrow> 'a list \<Rightarrow> 'a list" where
  "copy_slice buf i bs = take i buf @ bs @ drop (i + length bs) buf"

definition leading_ones :: "u8 \<Rightarrow> nat" where
  "leading_ones b = length (takeWhile (\<lambda>i. bit b i) (rev [0 ..< 8]))"

section \<open>Encoding\<close>

definition ENC_1_U32 :: u32 where "ENC_1_U32 = push_bit 7 1"
definition ENC_2_U32 :: u32 where "ENC_2_U32 = push_bit 14 1 + ENC_1_U32"
definition ENC_3_U32 :: u32 where "ENC_3_U32 = push_bit 21 1 + ENC_2_U32"
definition ENC_4_U32 :: u32 where "ENC_4_U32 = push_bit 28 1 + ENC_3_U32"

definition ENC_1_U64 :: u64 where "ENC_1_U64 = push_bit 7 1"
definition ENC_2_U64 :: u64 where "ENC_2_U64 = push_bit 14 1 + ENC_1_U64"
definition ENC_3_U64 :: u64 where "ENC_3_U64 = push_bit 21 1 + ENC_2_U64"
definition ENC_4_U64 :: u64 where "ENC_4_U64 = push_bit 28 1 + ENC_3_U64"
definition ENC_5_U64 :: u64 where "ENC_5_U64 = push_bit 35 1 + ENC_4_U64"
definition ENC_6_U64 :: u64 where "ENC_6_U64 = push_bit 42 1 + ENC_5_U64"
definition ENC_7_U64 :: u64 where "ENC_7_U64 = push_bit 49 1 + ENC_6_U64"
definition ENC_8_U64 :: u64 where "ENC_8_U64 = push_bit 54 1 + ENC_7_U64"

definition ENC_U64_VALS :: "u64 list" where
  "ENC_U64_VALS = [ENC_1_U64, ENC_2_U64, ENC_3_U64, ENC_4_U64, ENC_5_U64, ENC_6_U64, ENC_7_U64, ENC_8_U64]"

definition encode_prefix_varint_u32 :: "u32 \<Rightarrow> u8 list \<times> nat" where
  "encode_prefix_varint_u32 value =
     (let buf = replicate 5 0
      in if value < ENC_1_U32 then (buf[0 := ucast value], 1)
         else if value < ENC_2_U32 then
           (let value = value - ENC_1_U32
            in (buf[0 := 0x80 OR ucast (drop_bit 8 value), 1 := ucast value], 2))
         else if value < ENC_3_U32 then
           (let value = value - ENC_2_U32
            in (buf[0 := 0xC0 OR ucast (drop_bit 16 value), 1 := ucast (drop_bit 8 value),
                    2 := ucast value], 3))
         else if value < ENC_4_U32 then
           (let value = value - ENC_3_U32
            in (buf[0 := 0xE0 OR ucast (drop_bit 24 value), 1 := ucast (drop_bit 16 value),
                    2 := ucast (drop_bit 8 value), 3 := ucast value], 4))
         else
           (let value = value - ENC_4_U32
            in (copy_slice (buf[0 := 0xF0]) 1 (be_bytes 4 value), 5)))"

definition encode_prefix_varint_u64 :: "u64 \<Rightarrow> u8 list \<times> nat" where
  "encode_prefix_varint_u64 value =
     (let buf = replicate 9 0
      in if value < ENC_1_U64 then (buf[0 := ucast value], 1)
         else if value < ENC_2_U64 then
           (let value = value - ENC_1_U64
            in (buf[0 := 0x80 OR ucast (drop_bit 8 value), 1 := ucast value], 2))
         else if value < ENC_3_U64 then
           (let value = value - ENC_2_U64
            in (buf[0 := 0xC0 OR ucast (drop_bit 16 value), 1 := ucast (drop_bit 8 value),
                    2 := ucast value], 3))
         else if value < ENC_4_U64 then
           (let value = value - ENC_3_U64
            in (buf[0 := 0xE0 OR ucast (drop_bit 24 value), 1 := ucast (drop_bit 16 value),
                    2 := ucast (drop_bit 8 value), 3 := ucast value], 4))
         else if value < ENC_5_U64 then
           (let value = value - ENC_4_U64
            in (copy_slice (buf[0 := 0xF0 OR ucast (drop_bit 32 value)]) 1
                  (be_bytes 4 (ucast value :: u32)), 5))
         else if value < ENC_6_U64 then
           (let value = value - ENC_5_U64
            in (copy_slice (buf[0 := 0xF8 OR ucast (drop_bit 40 value), 1 := ucast (drop_bit 32 value)]) 2
                  (be_bytes 4 (ucast value :: u32)), 6))
         else if value < ENC_7_U64 then
           (let value = value - ENC_6_U64
            in (copy_slice (buf[0 := 0xFC OR ucast (drop_bit 48 value), 1 := ucast (drop_bit 40 value),
                    2 := ucast (drop_bit 32 value)]) 3 (be_bytes 4 (ucast value :: u32)), 7))
         else if value < ENC_8_U64 then
           (let value = value - ENC_7_U64
            in (copy_slice (buf[0 := 0xFE OR ucast (drop_bit 56 value), 1 := ucast (drop_bit 48 value),
                    2 := ucast (drop_bit 40 value), 3 := ucast (drop_bit 32 value)]) 4
                  (be_bytes 4 (ucast value :: u32)), 8))
         else
           (let value = value - ENC_8_U64
            in (copy_slice (buf[0 := 0xFF]) 1 (be_bytes 8 value), 9)))"

section \<open>Decoding\<close>

definition decode_prefix_varint_u64 :: "u8 list \<Rightarrow> parse_error + u64 \<times> nat" where
  "decode_prefix_varint_u64 buf =
     (if buf = [] then Inl UnexpectedEOF
      else
        (let b0 = buf ! 0
         in if b0 \<le> 0x7F then Inr (ucast b0, 1)
            else if b0 \<le> 0xBF then
              (if length buf < 2 then Inl UnexpectedEOF
               else Inr (push_bit 8 (ucast b0 AND 0x3F) + ucast (buf ! 1) + ENC_1_U64, 2))
            else
              (let idx = (leading_ones b0 - 1) AND 7; byte_len = idx + 2
               in if length buf < byte_len then Inl UnexpectedEOF
                  else
                    (let val = ucast (b0 AND (push_bit (7 - idx) 1 - 1));
                         val = foldl (\<lambda>val b. push_bit 8 val + ucast b) val (drop 1 (take byte_len buf))
                     in Inr (val + ENC_U64_VALS ! idx, byte_len)))))"

definition decode_prefix_varint_u32_loop :: "u8 list \<Rightarrow> parse_error + u32 \<times> nat" where
  "decode_prefix_varint_u32_loop buf =
     (case decode_prefix_varint_u64 buf of
        Inl e \<Rightarrow> Inl e
      | Inr (val, bytes) \<Rightarrow>
          if val > ucast (- 1 :: u32) then Inl InvalidVarInt else Inr (ucast val, bytes))"

definition decode_prefix_varint_u32_unroll :: "u8 list \<Rightarrow> parse_error + u32 \<times> nat" where
  "decode_prefix_varint_u32_unroll buf =
     (if buf = [] then Inl UnexpectedEOF
      else
        (let b0 = buf ! 0
         in if b0 \<le> 0x7F then Inr (ucast b0, 1)
            else if b0 \<le> 0xBF then
              (if length buf < 2 then Inl UnexpectedEOF
               else Inr (push_bit 8 (ucast b0 AND 0x3F) + ucast (buf ! 1) + ENC_1_U32, 2))
            else if b0 \<le> 0xDF then
              (if length buf < 3 then Inl UnexpectedEOF
               else Inr (push_bit 16 (ucast b0 AND 0x1F) + push_bit 8 (ucast (buf ! 1))
                      + ucast (buf ! 2) + ENC_2_U32, 3))
            else if b0 \<le> 0xEF then
              (if length buf < 4 then Inl UnexpectedEOF
               else Inr (from_be (take 4 buf) - push_bit 24 0xE0 + ENC_3_U32, 4))
            else
              (if length buf < 5 then Inl UnexpectedEOF
               else if b0 \<noteq> 0xF0 then Inl InvalidVarInt
               else Inr (push_bit 24 (ucast (buf ! 1)) + push_bit 16 (ucast (buf ! 2))
                      + push_bit 8 (ucast (buf ! 3)) + ucast (buf ! 4) + ENC_4_U32, 5))))"

text \<open>\<open>wasm\<close> is \<open>cfg!(target_arch = "wasm32")\<close>.\<close>

definition decode_prefix_varint_u32 :: "bool \<Rightarrow> u8 list \<Rightarrow> parse_error + u32 \<times> nat" where
  "decode_prefix_varint_u32 wasm buf =
     (if wasm then decode_prefix_varint_u32_unroll buf else decode_prefix_varint_u32_loop buf)"

definition decode_prefix_varint_u64_unroll_flat :: "u8 list \<Rightarrow> u64 \<times> nat" where
  "decode_prefix_varint_u64_unroll_flat buf =
     (let b0 = buf ! 0
      in if b0 \<le> 0x7F then (ucast b0, 1)
         else if b0 \<le> 0xBF then (push_bit 8 (ucast b0 AND 0x3F) + ucast (buf ! 1) + ENC_1_U64, 2)
         else if b0 \<le> 0xDF then
           (push_bit 16 (ucast b0 AND 0x1F) + push_bit 8 (ucast (buf ! 1)) + ucast (buf ! 2) + ENC_2_U64, 3)
         else if b0 \<le> 0xEF then
           (ucast (from_be (take 4 buf) :: u32) - push_bit 24 0xE0 + ENC_3_U64, 4)
         else if b0 \<le> 0xF7 then
           (push_bit 32 (ucast b0 AND 0x07) + ucast (from_be (take 4 (drop 1 buf)) :: u32) + ENC_4_U64, 5)
         else if b0 \<le> 0xFB then
           (push_bit 40 (ucast b0 AND 0x03) + push_bit 32 (ucast (buf ! 1)) + push_bit 24 (ucast (buf ! 2))
              + push_bit 16 (ucast (buf ! 3)) + push_bit 8 (ucast (buf ! 4)) + ucast (buf ! 5) + ENC_5_U64, 6)
         else if b0 \<le> 0xFD then
           (push_bit 48 (ucast b0 AND 0x01) + push_bit 40 (ucast (buf ! 1)) + push_bit 32 (ucast (buf ! 2))
              + push_bit 24 (ucast (buf ! 3)) + push_bit 16 (ucast (buf ! 4)) + push_bit 8 (ucast (buf ! 5))
              + ucast (buf ! 6) + ENC_6_U64, 7)
         else if b0 = 0xFE then (from_be (take 8 buf) - push_bit 56 0xFE + ENC_7_U64, 8)
         else (from_be (take 8 (drop 1 buf)) + ENC_8_U64, 9))"

definition decode_prefix_varint_u64_unroll :: "u8 list \<Rightarrow> parse_error + u64 \<times> nat" where
  "decode_prefix_varint_u64_unroll buf =
     (if buf = [] then Inl UnexpectedEOF
      else
        (let b0 = buf ! 0
         in if b0 \<le> 0x7F then Inr (ucast b0, 1)
            else if b0 \<le> 0xBF then
              (if length buf < 2 then Inl UnexpectedEOF
               else Inr (push_bit 8 (ucast b0 AND 0x3F) + ucast (buf ! 1) + ENC_1_U64, 2))
            else if b0 \<le> 0xDF then
              (if length buf < 3 then Inl UnexpectedEOF
               else Inr (push_bit 16 (ucast b0 AND 0x1F) + push_bit 8 (ucast (buf ! 1))
                      + ucast (buf ! 2) + ENC_2_U64, 3))
            else if b0 \<le> 0xEF then
              (if length buf < 4 then Inl UnexpectedEOF
               else Inr (ucast (from_be (take 4 buf) :: u32) - push_bit 24 0xE0 + ENC_3_U64, 4))
            else if b0 \<le> 0xF7 then
              (if length buf < 5 then Inl UnexpectedEOF
               else Inr (push_bit 32 (ucast b0 AND 0x07) + push_bit 24 (ucast (buf ! 1))
                      + push_bit 16 (ucast (buf ! 2)) + push_bit 8 (ucast (buf ! 3)) + ucast (buf ! 4)
                      + ENC_4_U64, 5))
            else if b0 \<le> 0xFB then
              (if length buf < 6 then Inl UnexpectedEOF
               else Inr (push_bit 40 (ucast b0 AND 0x03) + push_bit 32 (ucast (buf ! 1))
                      + push_bit 24 (ucast (buf ! 2)) + push_bit 16 (ucast (buf ! 3))
                      + push_bit 8 (ucast (buf ! 4)) + ucast (buf ! 5) + ENC_5_U64, 6))
            else if b0 \<le> 0xFD then
              (if length buf < 7 then Inl UnexpectedEOF
               else Inr (push_bit 48 (ucast b0 AND 0x01) + push_bit 40 (ucast (buf ! 1))
                      + push_bit 32 (ucast (buf ! 2)) + push_bit 24 (ucast (buf ! 3))
                      + push_bit 16 (ucast (buf ! 4)) + push_bit 8 (ucast (buf ! 5)) + ucast (buf ! 6)
                      + ENC_6_U64, 7))
            else if b0 = 0xFE then
              (if length buf < 8 then Inl UnexpectedEOF
               else Inr (from_be (take 8 buf) - push_bit 56 0xFE + ENC_7_U64, 8))
            else
              (if length buf < 9 then Inl UnexpectedEOF
               else Inr (from_be (take 8 (drop 1 buf)) + ENC_8_U64, 9))))"

text \<open>\<open>usize\<close> has 64 bits here, so the other branches of the \<open>usize\<close> functions are not taken.\<close>

definition decode_prefix_varint_usize :: "u8 list \<Rightarrow> parse_error + u64 \<times> nat" where
  "decode_prefix_varint_usize buf =
     (case decode_prefix_varint_u64 buf of Inl e \<Rightarrow> Inl e | Inr (val, count) \<Rightarrow> Inr (val, count))"

section \<open>Flag bits and zigzag\<close>

definition mix_bit_u64 :: "u64 \<Rightarrow> bool \<Rightarrow> u64" where
  "mix_bit_u64 value extra = value * 2 + (if extra then 1 else 0)"

definition mix_bit_u32 :: "u32 \<Rightarrow> bool \<Rightarrow> u32" where
  "mix_bit_u32 value extra = value * 2 + (if extra then 1 else 0)"

definition mix_bit_usize :: "u64 \<Rightarrow> bool \<Rightarrow> u64" where
  "mix_bit_usize value extra = mix_bit_u64 value extra"

definition strip_bit_u64 :: "u64 \<Rightarrow> u64 \<times> bool" where
  "strip_bit_u64 value = (drop_bit 1 value, value AND 1 \<noteq> 0)"

definition strip_bit_u32 :: "u32 \<Rightarrow> u32 \<times> bool" where
  "strip_bit_u32 value = (drop_bit 1 value, value AND 1 \<noteq> 0)"

definition strip_bit_usize :: "u64 \<Rightarrow> u64 \<times> bool" where
  "strip_bit_usize value = (drop_bit 1 value, value AND 1 \<noteq> 0)"

text \<open>Signed integers are words read with \<open>sint\<close>; \<open>>>\<close> on them is \<open>signed_drop_bit\<close>.\<close>

definition num_decode_zigzag_i32 :: "u32 \<Rightarrow> u32" where
  "num_decode_zigzag_i32 val = (let n = drop_bit 1 val in if val AND 1 = 1 then - n - 1 else n)"

definition num_decode_zigzag_i64 :: "u64 \<Rightarrow> u64" where
  "num_decode_zigzag_i64 val = (let n = drop_bit 1 val in if val AND 1 = 1 then - n - 1 else n)"

definition num_decode_zigzag_isize :: "u64 \<Rightarrow> u64" where
  "num_decode_zigzag_isize val = num_decode_zigzag_i64 val"

definition num_encode_zigzag_i64 :: "u64 \<Rightarrow> u64" where
  "num_encode_zigzag_i64 val = push_bit 1 val XOR signed_drop_bit 63 val"

definition num_encode_zigzag_i32 :: "u32 \<Rightarrow> u32" where
  "num_encode_zigzag_i32 val = push_bit 1 val XOR signed_drop_bit 31 val"

definition num_encode_zigzag_isize :: "u64 \<Rightarrow> u64" where
  "num_encode_zigzag_isize val = num_encode_zigzag_i64 val"

section \<open>Writing\<close>

text \<open>
  \<open>ExtendFromSlice\<close> is an operation \<open>ext\<close> of the target, \<open>TryExtendFromSlice\<close> an operation that
  may have no room (\<open>None\<close>).
\<close>

definition try_push_u32 :: "('v \<Rightarrow> u8 list \<Rightarrow> 'v option) \<Rightarrow> 'v \<Rightarrow> u32 \<Rightarrow> 'v option" where
  "try_push_u32 try_ext into val =
     (let (buf, pos) = encode_prefix_varint_u32 val in try_ext into (take pos buf))"

definition try_push_u64 :: "('v \<Rightarrow> u8 list \<Rightarrow> 'v option) \<Rightarrow> 'v \<Rightarrow> u64 \<Rightarrow> 'v option" where
  "try_push_u64 try_ext into val =
     (let (buf, pos) = encode_prefix_varint_u64 val in try_ext into (take pos buf))"

definition try_push_usize :: "('v \<Rightarrow> u8 list \<Rightarrow> 'v option) \<Rightarrow> 'v \<Rightarrow> u64 \<Rightarrow> 'v option" where
  "try_push_usize try_ext into val = try_push_u64 try_ext into val"

definition push_u32 :: "('v \<Rightarrow> u8 list \<Rightarrow> 'v) \<Rightarrow> 'v \<Rightarrow> u32 \<Rightarrow> 'v" where
  "push_u32 ext into val = (let (buf, pos) = encode_prefix_varint_u32 val in ext into (take pos buf))"

definition push_u64 :: "('v \<Rightarrow> u8 list \<Rightarrow> 'v) \<Rightarrow> 'v \<Rightarrow> u64 \<Rightarrow> 'v" where
  "push_u64 ext into val = (let (buf, pos) = encode_prefix_varint_u64 val in ext into (take pos buf))"

definition push_usize :: "('v \<Rightarrow> u8 list \<Rightarrow> 'v) \<Rightarrow> 'v \<Rightarrow> u64 \<Rightarrow> 'v" where
  "push_usize ext into val = push_u64 ext into val"

end
