(* ===== verification/AgentAssign.thy ===== *)
theory AgentAssign
  imports RleVecFacts Frontier Varint
begin

text \<open>
  \<open>causalgraph/agent_span.rs\<close> and \<open>causalgraph/agent_assignment\<close>: the two maps between local
  versions and (agent, sequence number) pairs, agent names, and the conversions to and from the
  names that peers exchange.  Agent ids are indexes of the client table (the casts to \<open>u32\<close> are the
  identity below \<open>2 ^ 32\<close> agents); a name is the list of its UTF-8 bytes; \<open>None\<close> is a panic where the
  source panics and the absent value where it returns an \<open>Option\<close>.
\<close>

section \<open>Agent spans\<close>

type_synonym agent_id = nat
type_synonym agent_version = "agent_id \<times> nat"
type_synonym agent_name = "u8 list"

record agent_span =
  as_agent :: agent_id
  as_seq :: dtrange

definition as_from_version :: "agent_version \<Rightarrow> agent_span" where
  "as_from_version av = \<lparr>as_agent = fst av, as_seq = dtrange_from_usize (snd av)\<rparr>"

definition as_get_offset :: "agent_span \<Rightarrow> agent_version \<Rightarrow> nat option" where
  "as_get_offset s av =
     (if as_agent s = fst av then dtrange_get_offset (as_seq s) (snd av) else None)"

definition as_len :: "agent_span \<Rightarrow> nat" where
  [span_defs]: "as_len s = dtrange_len (as_seq s)"

text \<open>\<open>None\<close> is the failed assertion on the offset.\<close>

definition as_at_offset :: "agent_span \<Rightarrow> nat \<Rightarrow> agent_version option" where
  "as_at_offset s offset =
     (if offset < as_len s then Some (as_agent s, dt_start (as_seq s) + offset) else None)"

definition as_truncate :: "agent_span \<Rightarrow> nat \<Rightarrow> agent_span \<times> agent_span" where
  [span_defs]: "as_truncate s at =
     (let (l, r) = dtrange_truncate (as_seq s) at
      in (s\<lparr>as_seq := l\<rparr>, \<lparr>as_agent = as_agent s, as_seq = r\<rparr>))"

definition as_truncate_keeping_right :: "agent_span \<Rightarrow> nat \<Rightarrow> agent_span \<times> agent_span" where
  [span_defs]: "as_truncate_keeping_right s at =
     (let (r, l) = dtrange_truncate_keeping_right (as_seq s) at
      in (s\<lparr>as_seq := r\<rparr>, \<lparr>as_agent = as_agent s, as_seq = l\<rparr>))"

definition as_can_append :: "agent_span \<Rightarrow> agent_span \<Rightarrow> bool" where
  [span_defs]: "as_can_append s other \<longleftrightarrow>
     as_agent s = as_agent other \<and> dt_end (as_seq s) = dt_start (as_seq other)"

definition as_append :: "agent_span \<Rightarrow> agent_span \<Rightarrow> agent_span" where
  [span_defs]: "as_append s other = s\<lparr>as_seq := (as_seq s)\<lparr>dt_end := dt_end (as_seq other)\<rparr>\<rparr>"

definition as_prepend :: "agent_span \<Rightarrow> agent_span \<Rightarrow> agent_span" where
  [span_defs]: "as_prepend s other = s\<lparr>as_seq := (as_seq s)\<lparr>dt_start := dt_start (as_seq other)\<rparr>\<rparr>"

text \<open>The (agent, sequence number) pairs of a span.\<close>

definition as_items :: "agent_span \<Rightarrow> agent_version list" where
  [span_defs]: "as_items s = map (Pair (as_agent s)) (dtrange_iter (as_seq s))"

definition as_valid :: "agent_span \<Rightarrow> bool" where
  [span_defs]: "as_valid s \<longleftrightarrow> dtrange_is_valid (as_seq s)"

interpretation agent_span: split_join_span as_len as_items as_valid as_truncate as_can_append
  as_append as_prepend as_truncate_keeping_right
  by unfold_locales (auto simp: span_defs Let_def upt_split take_map drop_map simp flip: map_append)

interpretation kv_agent: rle_key_span "kv_len as_len" "kv_items as_items"
  "\<lambda>x. as_valid (kv_val x)" "kv_truncate as_truncate" "kv_can_append as_len as_can_append"
  "kv_append as_append" "kv_prepend as_prepend" "kv_truncate_keeping_right as_truncate_keeping_right" kv_key
  by (rule agent_span.kv_rle_key_span)

section \<open>The two maps\<close>

record client_data =
  cd_name :: agent_name
  cd_lv :: "dtrange kvpair list"

record agent_assignment =
  aa_with_lv :: "agent_span kvpair list"
  aa_clients :: "client_data list"

definition cd_get_next_seq :: "client_data \<Rightarrow> nat" where
  "cd_get_next_seq c = rv_end kv_key (kv_len dtrange_len) (cd_lv c)"

definition cd_is_empty :: "client_data \<Rightarrow> bool" where
  "cd_is_empty c \<longleftrightarrow> cd_lv c = []"

definition try_seq_to_lv :: "client_data \<Rightarrow> nat \<Rightarrow> lv option" where
  "try_seq_to_lv c seq =
     (case find_with_offset kv_key (kv_len dtrange_len) (cd_lv c) seq of
        None \<Rightarrow> None
      | Some (entry, offset) \<Rightarrow> Some (dt_start (kv_val entry) + offset))"

definition seq_to_lv :: "client_data \<Rightarrow> nat \<Rightarrow> lv option" where
  "seq_to_lv c seq = try_seq_to_lv c seq"

definition try_seq_to_lv_span :: "client_data \<Rightarrow> dtrange \<Rightarrow> dtrange option" where
  "try_seq_to_lv_span c seq_range =
     (case find_with_offset kv_key (kv_len dtrange_len) (cd_lv c) (dt_start seq_range) of
        None \<Rightarrow> None
      | Some (e, offset) \<Rightarrow>
          (let entry = kv_val e; start = dt_start entry + offset;
               end' = min (dt_end entry) (start + dtrange_len seq_range)
           in Some \<lparr>dt_start = start, dt_end = end'\<rparr>))"

definition seq_to_time_span :: "client_data \<Rightarrow> dtrange \<Rightarrow> dtrange option" where
  "seq_to_time_span c seq_range = try_seq_to_lv_span c seq_range"

definition MAX_AGENT_NAME_LENGTH :: nat where
  "MAX_AGENT_NAME_LENGTH = 50"

definition ROOT_name :: agent_name where
  "ROOT_name = [0x52, 0x4F, 0x4F, 0x54]"

definition aa_new :: agent_assignment where
  "aa_new = \<lparr>aa_with_lv = [], aa_clients = []\<rparr>"

fun client_position :: "client_data list \<Rightarrow> agent_name \<Rightarrow> nat option" where
  "client_position [] name = None"
| "client_position (c # cs) name =
     (if cd_name c = name then Some 0 else map_option Suc (client_position cs name))"

definition get_agent_id :: "agent_assignment \<Rightarrow> agent_name \<Rightarrow> agent_id option" where
  "get_agent_id aa name = client_position (aa_clients aa) name"

definition get_or_create_agent_id :: "agent_assignment \<Rightarrow> agent_name \<Rightarrow> (agent_assignment \<times> agent_id) option" where
  "get_or_create_agent_id aa name =
     (if name = ROOT_name then None
      else if \<not> length name < MAX_AGENT_NAME_LENGTH then None
      else (case get_agent_id aa name of
              Some agent \<Rightarrow> Some (aa, agent)
            | None \<Rightarrow>
                (let aa = aa\<lparr>aa_clients := aa_clients aa @ [\<lparr>cd_name = name, cd_lv = []\<rparr>]\<rparr>
                 in Some (aa, length (aa_clients aa) - 1))))"

definition get_agent_name :: "agent_assignment \<Rightarrow> agent_id \<Rightarrow> agent_name option" where
  "get_agent_name aa agent =
     (if agent < length (aa_clients aa) then Some (cd_name (aa_clients aa ! agent)) else None)"

definition iter_lv_map_for_agent :: "agent_assignment \<Rightarrow> agent_id \<Rightarrow> (nat \<times> nat \<times> nat) list option" where
  "iter_lv_map_for_agent aa agent =
     (if agent < length (aa_clients aa)
      then Some (map (\<lambda>x. (kv_key x, dt_start (kv_val x), dtrange_len (kv_val x))) (cd_lv (aa_clients aa ! agent)))
      else None)"

definition aa_len :: "agent_assignment \<Rightarrow> nat" where
  "aa_len aa = rv_end kv_key (kv_len as_len) (aa_with_lv aa)"

definition aa_is_empty :: "agent_assignment \<Rightarrow> bool" where
  "aa_is_empty aa \<longleftrightarrow> aa_with_lv aa = []"

definition local_to_agent_version :: "agent_assignment \<Rightarrow> lv \<Rightarrow> agent_version option" where
  "local_to_agent_version aa version =
     Option.bind (rv_get kv_key (kv_len as_len) (kv_at_offset as_at_offset) (aa_with_lv aa) version) id"

definition local_span_to_agent_span :: "agent_assignment \<Rightarrow> dtrange \<Rightarrow> agent_span option" where
  "local_span_to_agent_span aa version =
     (case find_packed_with_offset kv_key (kv_len as_len) (aa_with_lv aa) (dt_start version) of
        None \<Rightarrow> None
      | Some (loc, offset) \<Rightarrow>
          (let start = dt_start (as_seq (kv_val loc)) + offset;
               end' = min (dt_end (as_seq (kv_val loc))) (start + dtrange_len version)
           in Some \<lparr>as_agent = as_agent (kv_val loc), as_seq = \<lparr>dt_start = start, dt_end = end'\<rparr>\<rparr>))"

definition try_agent_version_to_lv :: "agent_assignment \<Rightarrow> agent_version \<Rightarrow> lv option" where
  "try_agent_version_to_lv aa av =
     (if fst av < length (aa_clients aa) then try_seq_to_lv (aa_clients aa ! fst av) (snd av) else None)"

definition assign_lv_to_client_next_seq :: "agent_assignment \<Rightarrow> agent_id \<Rightarrow> dtrange \<Rightarrow> agent_assignment option" where
  "assign_lv_to_client_next_seq aa agent span =
     (if agent < length (aa_clients aa)
      then (let c = aa_clients aa ! agent; next_seq = cd_get_next_seq c;
                c = c\<lparr>cd_lv := fst (rv_push (kv_can_append dtrange_len dtrange_can_append)
                       (kv_append dtrange_append) (cd_lv c) (KVPair next_seq span))\<rparr>
            in Some (aa\<lparr>aa_clients := (aa_clients aa)[agent := c],
                 aa_with_lv := fst (rv_push (kv_can_append as_len as_can_append) (kv_append as_append)
                   (aa_with_lv aa) (KVPair (dt_start span)
                     \<lparr>as_agent = agent, as_seq = \<lparr>dt_start = next_seq, dt_end = next_seq + dtrange_len span\<rparr>\<rparr>))\<rparr>))
      else None)"

text \<open>
  \<open>aa_record\<close> is what every assignment does: it replaces the agent's runs and pushes the span onto
  the other map.
\<close>

definition aa_record :: "agent_assignment \<Rightarrow> agent_id \<Rightarrow> dtrange kvpair list \<Rightarrow> lv \<Rightarrow> agent_span \<Rightarrow> agent_assignment" where
  "aa_record aa agent lv_for_seq time_start span =
     aa\<lparr>aa_clients := (aa_clients aa)[agent := (aa_clients aa ! agent)\<lparr>cd_lv := lv_for_seq\<rparr>],
        aa_with_lv := fst (rv_push (kv_can_append as_len as_can_append) (kv_append as_append)
          (aa_with_lv aa) (KVPair time_start span))\<rparr>"

text \<open>The byte order of \<open>str\<close>.\<close>

fun str_cmp :: "agent_name \<Rightarrow> agent_name \<Rightarrow> ordering" where
  "str_cmp [] [] = Equal"
| "str_cmp [] (b # bs) = Less"
| "str_cmp (a # as) [] = Greater"
| "str_cmp (a # as) (b # bs) = ord_then (cmp a b) (str_cmp as bs)"

definition tie_break_agent_versions :: "agent_assignment \<Rightarrow> agent_version \<Rightarrow> agent_version \<Rightarrow> ordering option" where
  "tie_break_agent_versions aa v1 v2 =
     (if v1 = v2 then Some Equal
      else if fst v1 < length (aa_clients aa) \<and> fst v2 < length (aa_clients aa)
      then Some (ord_then (str_cmp (cd_name (aa_clients aa ! fst v1)) (cd_name (aa_clients aa ! fst v2)))
                   (cmp (snd v1) (snd v2)))
      else None)"

definition tie_break_versions :: "agent_assignment \<Rightarrow> lv \<Rightarrow> lv \<Rightarrow> ordering option" where
  "tie_break_versions aa v1 v2 =
     (if v1 = v2 then Some Equal
      else (case (local_to_agent_version aa v1, local_to_agent_version aa v2) of
              (Some a1, Some a2) \<Rightarrow> tie_break_agent_versions aa a1 a2
            | _ \<Rightarrow> None))"

section \<open>Remote versions\<close>

type_synonym remote_version = "agent_name \<times> nat"

datatype remote_version_span = RemoteVersionSpan (rvs_name: agent_name) (rvs_range: dtrange)

definition rvs_len :: "remote_version_span \<Rightarrow> nat" where
  "rvs_len s = dtrange_len (rvs_range s)"

definition rvs_truncate :: "remote_version_span \<Rightarrow> nat \<Rightarrow> remote_version_span \<times> remote_version_span" where
  "rvs_truncate s at =
     (let (l, r) = dtrange_truncate (rvs_range s) at
      in (RemoteVersionSpan (rvs_name s) l, RemoteVersionSpan (rvs_name s) r))"

definition rvs_can_append :: "remote_version_span \<Rightarrow> remote_version_span \<Rightarrow> bool" where
  "rvs_can_append s other \<longleftrightarrow>
     rvs_name s = rvs_name other \<and> dtrange_can_append (rvs_range s) (rvs_range other)"

definition rvs_append :: "remote_version_span \<Rightarrow> remote_version_span \<Rightarrow> remote_version_span" where
  "rvs_append s other = RemoteVersionSpan (rvs_name s) (dtrange_append (rvs_range s) (rvs_range other))"

definition try_remote_to_local_version :: "agent_assignment \<Rightarrow> remote_version \<Rightarrow> version_conversion_error + lv" where
  "try_remote_to_local_version aa rv =
     (case get_agent_id aa (fst rv) of
        None \<Rightarrow> Inl UnknownAgent
      | Some agent \<Rightarrow>
          (case try_seq_to_lv (aa_clients aa ! agent) (snd rv) of
             None \<Rightarrow> Inl SeqInFuture | Some v \<Rightarrow> Inr v))"

definition remote_to_local_version :: "agent_assignment \<Rightarrow> remote_version \<Rightarrow> lv option" where
  "remote_to_local_version aa rv =
     (case get_agent_id aa (fst rv) of
        None \<Rightarrow> None | Some agent \<Rightarrow> seq_to_lv (aa_clients aa ! agent) (snd rv))"

definition agent_version_to_remote :: "agent_assignment \<Rightarrow> agent_version \<Rightarrow> remote_version option" where
  "agent_version_to_remote aa av =
     (case get_agent_name aa (fst av) of None \<Rightarrow> None | Some name \<Rightarrow> Some (name, snd av))"

definition agent_span_to_remote :: "agent_assignment \<Rightarrow> agent_span \<Rightarrow> remote_version_span option" where
  "agent_span_to_remote aa loc =
     (case get_agent_name aa (as_agent loc) of
        None \<Rightarrow> None | Some name \<Rightarrow> Some (RemoteVersionSpan name (as_seq loc)))"

definition remote_to_agent_version_unknown :: "agent_assignment \<Rightarrow> remote_version
    \<Rightarrow> (agent_assignment \<times> agent_version) option" where
  "remote_to_agent_version_unknown aa rv =
     (case get_or_create_agent_id aa (fst rv) of
        None \<Rightarrow> None | Some (aa, agent) \<Rightarrow> Some (aa, (agent, snd rv)))"

definition remote_to_agent_version_known :: "agent_assignment \<Rightarrow> remote_version \<Rightarrow> agent_version option" where
  "remote_to_agent_version_known aa rv =
     (case get_agent_id aa (fst rv) of None \<Rightarrow> None | Some agent \<Rightarrow> Some (agent, snd rv))"

definition local_to_remote_version :: "agent_assignment \<Rightarrow> lv \<Rightarrow> remote_version option" where
  "local_to_remote_version aa v =
     (case local_to_agent_version aa v of None \<Rightarrow> None | Some av \<Rightarrow> agent_version_to_remote aa av)"

definition local_to_remote_version_span :: "agent_assignment \<Rightarrow> dtrange \<Rightarrow> remote_version_span option" where
  "local_to_remote_version_span aa v =
     (case local_span_to_agent_span aa v of None \<Rightarrow> None | Some s \<Rightarrow> agent_span_to_remote aa s)"

text \<open>Collecting into a \<open>Result\<close> stops at the first error; collecting into a \<open>Frontier\<close> sorts.\<close>

fun collect_results :: "('e + 'a) list \<Rightarrow> 'e + 'a list" where
  "collect_results [] = Inr []"
| "collect_results (r # rs) =
     (case r of Inl e \<Rightarrow> Inl e
      | Inr x \<Rightarrow> (case collect_results rs of Inl e \<Rightarrow> Inl e | Inr xs \<Rightarrow> Inr (x # xs)))"

definition try_remote_to_local_frontier :: "agent_assignment \<Rightarrow> remote_version list \<Rightarrow> version_conversion_error + frontier" where
  "try_remote_to_local_frontier aa ids =
     (case collect_results (map (try_remote_to_local_version aa) ids) of
        Inl e \<Rightarrow> Inl e | Inr vs \<Rightarrow> Inr (frontier_from_unsorted vs))"

definition remote_to_local_frontier :: "agent_assignment \<Rightarrow> remote_version list \<Rightarrow> frontier option" where
  "remote_to_local_frontier aa ids =
     map_option frontier_from_unsorted (those (map (remote_to_local_version aa) ids))"

definition local_to_remote_frontier :: "agent_assignment \<Rightarrow> lv list \<Rightarrow> remote_version list option" where
  "local_to_remote_frontier aa f = those (map (local_to_remote_version aa) f)"

definition iter_remote_mappings :: "agent_assignment \<Rightarrow> remote_version_span list option" where
  "iter_remote_mappings aa = those (map (\<lambda>item. agent_span_to_remote aa (kv_val item)) (aa_with_lv aa))"

definition iter_remote_mappings_range :: "agent_assignment \<Rightarrow> dtrange \<Rightarrow> remote_version_span list option" where
  "iter_remote_mappings_range aa rng =
     those (map (\<lambda>item. agent_span_to_remote aa (kv_val item))
       (iter_range kv_key (kv_len as_len) (kv_truncate as_truncate)
          (kv_truncate_keeping_right as_truncate_keeping_right) (aa_with_lv aa) rng))"

section \<open>Self-check\<close>

definition aa_check_client :: "agent_assignment \<Rightarrow> agent_span kvpair \<Rightarrow> bool" where
  "aa_check_client aa pair =
     (let span = kv_val pair
      in as_agent span < length (aa_clients aa) \<and>
         (case find_packed_and_split kv_key (kv_len dtrange_len) (kv_truncate dtrange_truncate)
                 (kv_truncate_keeping_right dtrange_truncate_keeping_right)
                 (cd_lv (aa_clients aa ! as_agent span)) (as_seq span) of
            None \<Rightarrow> False
          | Some actual_range \<Rightarrow> kv_val actual_range = kv_range as_len pair))"

definition aa_check_agent :: "agent_assignment \<Rightarrow> agent_id \<Rightarrow> dtrange kvpair \<Rightarrow> bool" where
  "aa_check_agent aa agent rng =
     (case find_packed_and_split kv_key (kv_len as_len) (kv_truncate as_truncate)
             (kv_truncate_keeping_right as_truncate_keeping_right) (aa_with_lv aa) (kv_val rng) of
        None \<Rightarrow> False
      | Some actual \<Rightarrow> as_agent (kv_val actual) = agent)"

text \<open>\<open>dbg_check\<close>, as the condition under which it does not panic.\<close>

definition aa_dbg_check :: "agent_assignment \<Rightarrow> bool \<Rightarrow> bool" where
  "aa_dbg_check aa deep \<longleftrightarrow>
     check_packed kv_key (kv_len as_len) (aa_with_lv aa) \<and>
     list_all (aa_check_client aa) (aa_with_lv aa) \<and>
     (deep \<longrightarrow> list_all (\<lambda>(agent, client). list_all (aa_check_agent aa agent) (cd_lv client))
        (enumerate 0 (aa_clients aa)))"

end
