(* ===== verification/CausalState.thy ===== *)
theory CausalState
  imports AgentAssign GraphBuild
begin

text \<open>
  \<open>causalgraph/mod.rs\<close>, \<open>causalgraph.rs\<close>, \<open>entry.rs\<close> and \<open>check.rs\<close>: the causal graph, which keeps
  the agent assignment, the time DAG and the frontier of everything it knows in step.  An operation
  returns the new state and its result; \<open>None\<close> is a panic.
\<close>

section \<open>Entries\<close>

record cg_entry =
  ce_start :: lv
  ce_parents :: frontier
  ce_span :: agent_span

definition ce_default :: cg_entry where
  "ce_default = \<lparr>ce_start = 0, ce_parents = frontier_root,
     ce_span = \<lparr>as_agent = 0, as_seq = \<lparr>dt_start = 0, dt_end = 0\<rparr>\<rparr>\<rparr>"

definition ce_len :: "cg_entry \<Rightarrow> nat" where
  "ce_len e = as_len (ce_span e)"

text \<open>The subtraction wraps when the entry starts at 0.\<close>

definition parents_are_trivial :: "cg_entry \<Rightarrow> bool" where
  "parents_are_trivial e \<longleftrightarrow>
     length (ce_parents e) = 1 \<and>
     ce_parents e ! 0 = (if ce_start e = 0 then usize_max else ce_start e - 1)"

definition ce_can_append :: "cg_entry \<Rightarrow> cg_entry \<Rightarrow> bool" where
  "ce_can_append e other \<longleftrightarrow>
     (let end' = ce_start e + ce_len e
      in end' = ce_start other \<and> parents_are_trivial other \<and> as_can_append (ce_span e) (ce_span other))"

definition ce_append :: "cg_entry \<Rightarrow> cg_entry \<Rightarrow> cg_entry" where
  "ce_append e other = e\<lparr>ce_span := as_append (ce_span e) (ce_span other)\<rparr>"

definition ce_time_span :: "cg_entry \<Rightarrow> dtrange" where
  "ce_time_span e = \<lparr>dt_start = ce_start e, dt_end = ce_start e + ce_len e\<rparr>"

definition ce_clear :: "cg_entry \<Rightarrow> cg_entry" where
  "ce_clear e = e\<lparr>ce_span := (ce_span e)\<lparr>as_seq := dtrange_clear (as_seq (ce_span e))\<rparr>\<rparr>"

definition ce_truncate :: "cg_entry \<Rightarrow> nat \<Rightarrow> cg_entry \<times> cg_entry" where
  "ce_truncate e at =
     (let (span, other_span) = as_truncate (ce_span e) at
      in (e\<lparr>ce_span := span\<rparr>,
          \<lparr>ce_start = ce_start e + at, ce_parents = frontier_new_1 (ce_start e + at - 1), ce_span = other_span\<rparr>))"

section \<open>The causal graph\<close>

record causal_graph =
  cg_aa :: agent_assignment
  cg_graph :: graph
  cg_version :: frontier

definition cg_new :: causal_graph where
  "cg_new = \<lparr>cg_aa = aa_new, cg_graph = graph_new, cg_version = frontier_root\<rparr>"

definition cg_get_or_create_agent_id :: "causal_graph \<Rightarrow> agent_name \<Rightarrow> (causal_graph \<times> agent_id) option" where
  "cg_get_or_create_agent_id cg name =
     (case get_or_create_agent_id (cg_aa cg) name of
        None \<Rightarrow> None | Some (aa, agent) \<Rightarrow> Some (cg\<lparr>cg_aa := aa\<rparr>, agent))"

definition num_agents :: "causal_graph \<Rightarrow> nat" where
  "num_agents cg = length (aa_clients (cg_aa cg))"

definition len_assignment :: "causal_graph \<Rightarrow> nat" where
  "len_assignment cg = aa_len (cg_aa cg)"

definition len_history :: "causal_graph \<Rightarrow> nat" where
  "len_history cg = graph_len (cg_graph cg)"

definition cg_len :: "causal_graph \<Rightarrow> nat" where
  "cg_len cg = len_assignment cg"

definition cg_is_empty :: "causal_graph \<Rightarrow> bool" where
  "cg_is_empty cg \<longleftrightarrow> aa_is_empty (cg_aa cg)"

definition check_flat :: "causal_graph \<Rightarrow> bool" where
  "check_flat cg \<longleftrightarrow> len_assignment cg = len_history cg"

definition assign_local_op_with_parents :: "causal_graph \<Rightarrow> lv list \<Rightarrow> agent_id \<Rightarrow> nat
    \<Rightarrow> (causal_graph \<times> dtrange) option" where
  "assign_local_op_with_parents cg parents agent num =
     (let start = cg_len cg; span = \<lparr>dt_start = start, dt_end = start + num\<rparr>
      in case assign_lv_to_client_next_seq (cg_aa cg) agent span of
           None \<Rightarrow> None
         | Some aa \<Rightarrow>
             (case graph_push (cg_graph cg) parents span of
                None \<Rightarrow> None
              | Some g \<Rightarrow>
                  (case advance_by_known_run (cg_version cg) parents span of
                     None \<Rightarrow> None
                   | Some version \<Rightarrow> Some (\<lparr>cg_aa = aa, cg_graph = g, cg_version = version\<rparr>, span))))"

definition assign_span :: "causal_graph \<Rightarrow> agent_id \<Rightarrow> lv list \<Rightarrow> dtrange \<Rightarrow> causal_graph option" where
  "assign_span cg agent parents span =
     map_option fst (assign_local_op_with_parents cg parents agent (dtrange_len span))"

definition assign_local_op :: "causal_graph \<Rightarrow> agent_id \<Rightarrow> nat \<Rightarrow> (causal_graph \<times> dtrange) option" where
  "assign_local_op cg agent num =
     (let start = cg_len cg; span = \<lparr>dt_start = start, dt_end = start + num\<rparr>
      in case assign_lv_to_client_next_seq (cg_aa cg) agent span of
           None \<Rightarrow> None
         | Some aa \<Rightarrow>
             (case graph_push (cg_graph cg) (cg_version cg) span of
                None \<Rightarrow> None
              | Some g \<Rightarrow>
                  Some (\<lparr>cg_aa = aa, cg_graph = g,
                     cg_version = replace_with_1 (cg_version cg) (dtrange_last span)\<rparr>, span)))"

text \<open>What the branches of \<open>merge_and_assign\<close> share: extend the DAG and the frontier.\<close>

definition cg_extend :: "causal_graph \<Rightarrow> agent_assignment \<Rightarrow> lv list \<Rightarrow> dtrange \<Rightarrow> (causal_graph \<times> dtrange) option" where
  "cg_extend cg aa parents time_span =
     (case graph_push (cg_graph cg) parents time_span of
        None \<Rightarrow> None
      | Some g \<Rightarrow>
          (case advance_by_known_run (cg_version cg) parents time_span of
             None \<Rightarrow> None
           | Some version \<Rightarrow> Some (\<lparr>cg_aa = aa, cg_graph = g, cg_version = version\<rparr>, time_span)))"

definition merge_and_assign_nonoverlapping :: "causal_graph \<Rightarrow> lv list \<Rightarrow> agent_span
    \<Rightarrow> (causal_graph \<times> dtrange) option" where
  "merge_and_assign_nonoverlapping cg parents span =
     (let time_start = cg_len cg; aa = cg_aa cg; agent = as_agent span
      in if \<not> agent < length (aa_clients aa) then None
         else
           (let xs = cd_lv (aa_clients aa ! agent)
            in case fst (find_sparse kv_key (kv_len dtrange_len) xs (dt_start (as_seq span))) of
                 Inr _ \<Rightarrow> None
               | Inl rng \<Rightarrow>
                   if \<not> dt_end rng \<ge> dt_end (as_seq span) then None
                   else
                     (let time_span = \<lparr>dt_start = time_start, dt_end = time_start + as_len span\<rparr>
                      in case rle_insert kv_key (kv_len dtrange_len) (kv_can_append dtrange_len dtrange_can_append)
                                (kv_append dtrange_append) (kv_prepend dtrange_prepend) xs
                                (KVPair (dt_start (as_seq span)) time_span) of
                           None \<Rightarrow> None
                         | Some xs' \<Rightarrow>
                             cg_extend cg (aa_record aa agent xs' time_start span) parents time_span)))"

definition merge_and_assign :: "causal_graph \<Rightarrow> lv list \<Rightarrow> agent_span \<Rightarrow> (causal_graph \<times> dtrange) option" where
  "merge_and_assign cg parents span =
     (let time_start = cg_len cg; aa = cg_aa cg; agent = as_agent span
      in if \<not> agent < length (aa_clients aa) then None
         else
           (let xs = cd_lv (aa_clients aa ! agent)
            in case find_index kv_key (kv_len dtrange_len) xs (dtrange_last (as_seq span)) of
                 Inr _ \<Rightarrow> Some (cg, \<lparr>dt_start = time_start, dt_end = time_start\<rparr>)
               | Inl idx \<Rightarrow>
                   (let prev_entry = xs ! (idx - 1);
                        previous_end = span_end kv_key (kv_len dtrange_len) prev_entry
                    in if idx \<ge> 1 \<and> previous_end \<ge> dt_start (as_seq span)
                       then
                         (let actual_len = dt_end (as_seq span) - previous_end;
                              time_span = \<lparr>dt_start = time_start, dt_end = time_start + actual_len\<rparr>;
                              new_entry = KVPair previous_end time_span;
                              parents = (if previous_end > dt_start (as_seq span)
                                         then [dtrange_last (kv_val prev_entry)] else parents);
                              xs' = (if kv_can_append dtrange_len dtrange_can_append prev_entry new_entry
                                     then xs[idx - 1 := kv_append dtrange_append prev_entry new_entry]
                                     else take idx xs @ new_entry # drop idx xs)
                          in cg_extend cg (aa_record aa agent xs' time_start
                               \<lparr>as_agent = agent,
                                as_seq = \<lparr>dt_start = previous_end, dt_end = dt_end (as_seq span)\<rparr>\<rparr>)
                               parents time_span)
                       else
                         (let time_span = \<lparr>dt_start = time_start, dt_end = time_start + as_len span\<rparr>;
                              xs' = take idx xs @ KVPair (dt_start (as_seq span)) time_span # drop idx xs
                          in cg_extend cg (aa_record aa agent xs' time_start span) parents time_span))))"

section \<open>Reading\<close>

definition cg_iter_parents :: "causal_graph \<Rightarrow> graph_entry_simple list" where
  "cg_iter_parents cg = graph_iter (cg_graph cg)"

definition simple_entry_at :: "causal_graph \<Rightarrow> dtrange \<Rightarrow> cg_entry option" where
  "simple_entry_at cg v =
     (case g_find_packed (cg_graph cg) (dt_start v) of
        None \<Rightarrow> None
      | Some entry \<Rightarrow>
          (let parents = ge_clone_parents_at_version entry (dt_start v)
           in case local_span_to_agent_span (cg_aa cg) v of
                None \<Rightarrow> None
              | Some av \<Rightarrow>
                  (let usable_entry_len = dt_end (ge_span entry) - dt_start v;
                       av = (if usable_entry_len < as_len av then fst (as_truncate av usable_entry_len) else av)
                   in Some \<lparr>ce_start = dt_start v, ce_parents = parents, ce_span = av\<rparr>)))"

definition cg_iter_range :: "causal_graph \<Rightarrow> dtrange \<Rightarrow> cg_entry list" where
  "cg_iter_range cg rng =
     (let parents = graph_iter_range (cg_graph cg) rng;
          aa = map kv_val (iter_range kv_key (kv_len as_len) (kv_truncate as_truncate)
                 (kv_truncate_keeping_right as_truncate_keeping_right) (aa_with_lv (cg_aa cg)) rng)
      in map (\<lambda>(parents, span). \<lparr>ce_start = dt_start (gs_span parents), ce_parents = gs_parents parents, ce_span = span\<rparr>)
           (rle_zip gs_len as_len gs_truncate as_truncate parents aa))"

definition cg_iter :: "causal_graph \<Rightarrow> cg_entry list" where
  "cg_iter cg = cg_iter_range cg \<lparr>dt_start = 0, dt_end = cg_len cg\<rparr>"

definition remote_frontier :: "causal_graph \<Rightarrow> remote_version list option" where
  "remote_frontier cg = local_to_remote_frontier (cg_aa cg) (cg_version cg)"

definition diff_since_rev :: "causal_graph \<Rightarrow> lv list \<Rightarrow> dtrange list option" where
  "diff_since_rev cg f = map_option snd (diff_rev (cg_graph cg) f (cg_version cg))"

definition diff_since :: "causal_graph \<Rightarrow> lv list \<Rightarrow> dtrange list option" where
  "diff_since cg f = map_option rev (diff_since_rev cg f)"

end
