(* ===== verification/AgentFacts.thy ===== *)
theory AgentFacts
  imports AgentAssign
begin

text \<open>
  What the agent assignment promises.  Its abstraction is the relation \<open>assigned\<close> between local
  versions and (agent, sequence number) pairs; the invariant \<open>aa_ok\<close> says that the two stored maps
  agree, cover exactly the local versions so far, and that names identify agents.
\<close>

abbreviation seq_ok :: "dtrange kvpair list \<Rightarrow> bool" where
  "seq_ok xs \<equiv> vec_ok kv_key (kv_len dtrange_len) (\<lambda>x. dtrange_is_valid (kv_val x)) xs"

abbreviation with_lv_ok :: "agent_span kvpair list \<Rightarrow> bool" where
  "with_lv_ok xs \<equiv> vec_ok kv_key (kv_len as_len) (\<lambda>x. as_valid (kv_val x)) xs"

abbreviation seq_map :: "dtrange kvpair list \<Rightarrow> (nat \<times> lv) set" where
  "seq_map xs \<equiv> content kv_key (kv_items dtrange_iter) xs"

definition assigned :: "agent_assignment \<Rightarrow> (lv \<times> agent_version) set" where
  "assigned aa = content kv_key (kv_items as_items) (aa_with_lv aa)"

definition aa_ok :: "agent_assignment \<Rightarrow> bool" where
  "aa_ok aa \<longleftrightarrow>
     with_lv_ok (aa_with_lv aa) \<and> fst ` assigned aa = {..< aa_len aa} \<and>
     (\<forall>c \<in> set (aa_clients aa). seq_ok (cd_lv c)) \<and>
     (\<forall>v a q. (v, (a, q)) \<in> assigned aa \<longleftrightarrow>
        a < length (aa_clients aa) \<and> (q, v) \<in> seq_map (cd_lv (aa_clients aa ! a))) \<and>
     distinct (map cd_name (aa_clients aa))"

section \<open>Lookups\<close>

lemma kv_run_range:
  "(n, v) \<in> set (enumerate (kv_key x) (kv_items dtrange_iter x)) \<longleftrightarrow>
   kv_key x \<le> n \<and> n < kv_key x + kv_len dtrange_len x \<and> v = dt_start (kv_val x) + (n - kv_key x)"
  by (auto simp: in_set_enumerate_eq kv_items_def kv_len_def dtrange_iter_def dtrange_len_def)

lemma kv_run_agent:
  "(n, (a, q)) \<in> set (enumerate (kv_key x) (kv_items as_items x)) \<longleftrightarrow>
   kv_key x \<le> n \<and> n < kv_key x + kv_len as_len x \<and> a = as_agent (kv_val x) \<and>
   q = dt_start (as_seq (kv_val x)) + (n - kv_key x)"
  by (auto simp: in_set_enumerate_eq kv_items_def kv_len_def as_items_def as_len_def dtrange_iter_def dtrange_len_def)

lemma content_unique:
  assumes "vec_ok key len valid xs" "\<And>x. valid x \<Longrightarrow> length (items x) = len x"
    and "(n, i) \<in> content key items xs" "(n, j) \<in> content key items xs"
  shows "i = j"
proof -
  obtain x where x: "x \<in> set xs" "(n, i) \<in> set (enumerate (key x) (items x))"
    using assms(3) by (auto simp: content_def)
  obtain y where y: "y \<in> set xs" "(n, j) \<in> set (enumerate (key y) (items y))"
    using assms(4) by (auto simp: content_def)
  have v: "length (items z) = len z" if "z \<in> set xs" for z
    using assms(1,2) that by (simp add: vec_ok_def)
  have "x = y"
    using vec_ok_unique[OF assms(1) x(1) y(1), of n] x y v[of x] v[of y] by (auto simp: in_set_enumerate_eq)
  then show ?thesis using x(2) y(2) by (auto simp: in_set_enumerate_eq)
qed

lemma seq_map_unique: "seq_ok xs \<Longrightarrow> (q, v) \<in> seq_map xs \<Longrightarrow> (q, w) \<in> seq_map xs \<Longrightarrow> v = w"
  by (erule content_unique) (auto intro: kv_dtrange.length_items)

lemma assigned_unique: "with_lv_ok (aa_with_lv aa) \<Longrightarrow> (v, x) \<in> assigned aa \<Longrightarrow> (v, y) \<in> assigned aa \<Longrightarrow> x = y"
  unfolding assigned_def by (erule content_unique) (auto intro: kv_agent.length_items)

lemma try_seq_to_lv_iff:
  assumes "seq_ok (cd_lv c)"
  shows "try_seq_to_lv c q = Some v \<longleftrightarrow> (q, v) \<in> seq_map (cd_lv c)"
proof (cases "find_with_offset kv_key (kv_len dtrange_len) (cd_lv c) q")
  case None
  then show ?thesis using kv_dtrange.find_with_offset_content[OF assms, of q] by (simp add: try_seq_to_lv_def)
next
  case (Some r)
  obtain x off where r: "r = (x, off)" by (cases r)
  have "off < kv_len dtrange_len x" "\<forall>i. (q, i) \<in> seq_map (cd_lv c) \<longleftrightarrow> i = kv_items dtrange_iter x ! off"
    using kv_dtrange.find_with_offset_content[OF assms, of q] Some r by simp_all
  then show ?thesis using Some r
    by (auto simp: try_seq_to_lv_def kv_items_def kv_len_def dtrange_iter_def dtrange_len_def)
qed

lemma local_to_agent_version_iff:
  assumes "with_lv_ok (aa_with_lv aa)"
  shows "local_to_agent_version aa v = Some av \<longleftrightarrow> (v, av) \<in> assigned aa"
proof (cases "find_with_offset kv_key (kv_len as_len) (aa_with_lv aa) v")
  case None
  then show ?thesis using kv_agent.find_with_offset_content[OF assms, of v]
    by (cases av) (simp add: local_to_agent_version_def rv_get_def find_packed_with_offset_def assigned_def)
next
  case (Some r)
  obtain x off where r: "r = (x, off)" by (cases r)
  have "off < kv_len as_len x" "\<forall>i. (v, i) \<in> assigned aa \<longleftrightarrow> i = kv_items as_items x ! off"
    using kv_agent.find_with_offset_content[OF assms, of v] Some r by (simp_all add: assigned_def)
  then show ?thesis using Some r
    by (cases av) (auto simp: local_to_agent_version_def rv_get_def find_packed_with_offset_def kv_items_def kv_len_def
        kv_at_offset_def as_at_offset_def as_items_def as_len_def dtrange_iter_def dtrange_len_def)
qed

lemma aa_okD:
  assumes "aa_ok aa"
  shows "with_lv_ok (aa_with_lv aa)" "fst ` assigned aa = {..< aa_len aa}"
    "a < length (aa_clients aa) \<Longrightarrow> seq_ok (cd_lv (aa_clients aa ! a))"
    "(v, (a, q)) \<in> assigned aa \<longleftrightarrow>
       a < length (aa_clients aa) \<and> (q, v) \<in> seq_map (cd_lv (aa_clients aa ! a))"
    "distinct (map cd_name (aa_clients aa))"
  using assms by (auto simp: aa_ok_def)

lemma local_to_agent_assigned: "aa_ok aa \<Longrightarrow> local_to_agent_version aa v = Some av \<longleftrightarrow> (v, av) \<in> assigned aa"
  by (rule local_to_agent_version_iff) (rule aa_okD)

lemma agent_to_local_assigned:
  assumes "aa_ok aa"
  shows "try_agent_version_to_lv aa av = Some v \<longleftrightarrow> (v, av) \<in> assigned aa"
  by (cases av) (simp add: try_agent_version_to_lv_def aa_okD(4)[OF assms] try_seq_to_lv_iff aa_okD(3)[OF assms])

theorem agent_version_inverse:
  assumes "aa_ok aa"
  shows "try_agent_version_to_lv aa av = Some v \<longleftrightarrow> local_to_agent_version aa v = Some av"
  by (simp only: agent_to_local_assigned[OF assms] local_to_agent_assigned[OF assms])

theorem local_to_agent_total:
  assumes "aa_ok aa"
  shows "local_to_agent_version aa v = None \<longleftrightarrow> aa_len aa \<le> v"
proof -
  have "(\<exists>av. (v, av) \<in> assigned aa) \<longleftrightarrow> v \<in> fst ` assigned aa" by force
  then have "(\<exists>av. local_to_agent_version aa v = Some av) \<longleftrightarrow> v < aa_len aa"
    by (simp add: local_to_agent_assigned[OF assms] aa_okD(2)[OF assms])
  then show ?thesis by (metis not_None_eq not_le)
qed

section \<open>Names\<close>

lemma client_position_iff:
  assumes "distinct (map cd_name cs)"
  shows "client_position cs name = Some i \<longleftrightarrow> i < length cs \<and> cd_name (cs ! i) = name"
  using assms
proof (induction cs arbitrary: i)
  case (Cons c cs)
  have "cd_name (cs ! j) \<noteq> cd_name c" if "j < length cs" for j
    using Cons.prems nth_mem[OF that] by (metis image_eqI distinct.simps(2) list.simps(9) list.set_map)
  then show ?case using Cons by (cases i) auto
qed simp

lemma client_position_None: "client_position cs name = None \<longleftrightarrow> (\<forall>c \<in> set cs. cd_name c \<noteq> name)"
  by (induction cs) auto

theorem remote_round_trip:
  assumes "aa_ok aa" "v < aa_len aa"
  shows "\<exists>rv. local_to_remote_version aa v = Some rv \<and> try_remote_to_local_version aa rv = Inr v \<and>
    remote_to_local_version aa rv = Some v"
proof -
  obtain a q where av: "local_to_agent_version aa v = Some (a, q)"
    using local_to_agent_total[OF assms(1), of v] assms(2) by (cases "local_to_agent_version aa v") auto
  then have inv_v: "try_agent_version_to_lv aa (a, q) = Some v"
    by (simp add: agent_version_inverse[OF assms(1)])
  then have a: "a < length (aa_clients aa)" by (simp add: try_agent_version_to_lv_def split: if_splits)
  have id: "get_agent_id aa (cd_name (aa_clients aa ! a)) = Some a"
    using a by (simp add: get_agent_id_def client_position_iff aa_okD(5)[OF assms(1)])
  show ?thesis using av inv_v a id
    by (auto simp: local_to_remote_version_def agent_version_to_remote_def get_agent_name_def
        try_remote_to_local_version_def remote_to_local_version_def seq_to_lv_def try_agent_version_to_lv_def)
qed

lemma aa_new_ok: "aa_ok aa_new" "assigned aa_new = {}" "aa_len aa_new = 0"
  by (simp_all add: aa_ok_def aa_new_def assigned_def aa_len_def rv_end_def rv_last_entry_def)

theorem get_or_create_agent_id_spec:
  assumes ok: "aa_ok aa" and n: "name \<noteq> ROOT_name" "length name < MAX_AGENT_NAME_LENGTH"
  shows "\<exists>aa' agent. get_or_create_agent_id aa name = Some (aa', agent) \<and> aa_ok aa' \<and>
    assigned aa' = assigned aa \<and> aa_len aa' = aa_len aa \<and> get_agent_id aa' name = Some agent \<and>
    (\<forall>other i. get_agent_id aa other = Some i \<longrightarrow> get_agent_id aa' other = Some i)"
proof (cases "get_agent_id aa name")
  case (Some i)
  then show ?thesis using ok n by (auto simp: get_or_create_agent_id_def)
next
  case None
  define aa' where "aa' = aa\<lparr>aa_clients := aa_clients aa @ [\<lparr>cd_name = name, cd_lv = []\<rparr>]\<rparr>"
  have r: "get_or_create_agent_id aa name = Some (aa', length (aa_clients aa))"
    using None n by (simp add: get_or_create_agent_id_def aa'_def)
  have as: "assigned aa' = assigned aa" "aa_len aa' = aa_len aa" "aa_with_lv aa' = aa_with_lv aa"
    by (simp_all add: assigned_def aa_len_def aa'_def)
  have d: "distinct (map cd_name (aa_clients aa'))"
    using None aa_okD(5)[OF ok] by (auto simp: get_agent_id_def client_position_None aa'_def)
  have "aa_ok aa'"
    unfolding aa_ok_def as
    using aa_okD[OF ok] d by (auto simp: aa'_def nth_append less_Suc_eq aa_ok_def in_set_conv_nth)
  moreover have "get_agent_id aa' name = Some (length (aa_clients aa))"
    using d by (simp add: get_agent_id_def client_position_iff aa'_def nth_append)
  moreover have "get_agent_id aa' other = Some i" if "get_agent_id aa other = Some i" for other i
    using that d aa_okD(5)[OF ok] by (simp add: get_agent_id_def client_position_iff aa'_def nth_append)
  ultimately show ?thesis using r as by blast
qed

section \<open>Assigning versions\<close>

definition new_pairs :: "lv \<Rightarrow> nat \<Rightarrow> nat \<Rightarrow> (nat \<times> lv) set" where
  "new_pairs t s e = {(q, v). s \<le> q \<and> q < e \<and> v = t + (q - s)}"

lemma new_pairs_versions: "fst ` (\<lambda>(q, v). (v, (a, q))) ` new_pairs t s e = {t ..< t + (e - s)}"
proof -
  have "v \<in> snd ` new_pairs t s e" if "t \<le> v" "v < t + (e - s)" for v
    using that by (intro image_eqI[of _ _ "(s + (v - t), v)"]) (auto simp: new_pairs_def)
  then have "snd ` new_pairs t s e = {t ..< t + (e - s)}" by (auto simp: new_pairs_def)
  moreover have "fst ` (\<lambda>(q, v). (v, (a, q))) ` new_pairs t s e = snd ` new_pairs t s e"
    unfolding image_image by (rule image_cong) auto
  ultimately show ?thesis by simp
qed

lemma new_pairs_run:
  "s < e \<Longrightarrow> set (enumerate s (kv_items dtrange_iter (KVPair s \<lparr>dt_start = t, dt_end = t + (e - s)\<rparr>))) = new_pairs t s e"
  using kv_run_range[of _ _ "KVPair s \<lparr>dt_start = t, dt_end = t + (e - s)\<rparr>"]
  by (auto simp: new_pairs_def kv_len_def dtrange_len_def)

lemma rv_end_push:
  assumes "0 < len val" "\<And>x. x \<in> set xs \<Longrightarrow> can x val \<Longrightarrow> key x + len x = key val"
    "\<And>x. x \<in> set xs \<Longrightarrow> can x val \<Longrightarrow> key (app x val) = key x \<and> len (app x val) = len x + len val"
  shows "rv_end key len (fst (rv_push can app xs val)) = key val + len val"
  using assms by (auto simp: rv_end_def rv_push_def push_rle_def rv_last_entry_def span_end_def)

theorem aa_record_spec:
  assumes ok: "aa_ok aa" and a: "a < length (aa_clients aa)" and se: "s < e"
    and t: "t = aa_len aa" and xs: "seq_ok xs" "seq_map xs = seq_map (cd_lv (aa_clients aa ! a)) \<union> new_pairs t s e"
  defines "aa' \<equiv> aa_record aa a xs t \<lparr>as_agent = a, as_seq = \<lparr>dt_start = s, dt_end = e\<rparr>\<rparr>"
  shows "aa_ok aa'" "assigned aa' = assigned aa \<union> (\<lambda>(q, v). (v, (a, q))) ` new_pairs t s e"
    "aa_len aa' = t + (e - s)"
proof -
  let ?val = "KVPair t \<lparr>as_agent = a, as_seq = \<lparr>dt_start = s, dt_end = e\<rparr>\<rparr>"
  let ?push = "rv_push (kv_can_append as_len as_can_append) (kv_append as_append) (aa_with_lv aa) ?val"
  have lens: "kv_len as_len ?val = e - s" "as_valid (kv_val ?val)"
    using se by (simp_all add: kv_len_def as_len_def dtrange_len_def as_valid_def dtrange_is_valid_def)
  have before: "\<forall>x \<in> set (aa_with_lv aa). kv_key x + kv_len as_len x \<le> kv_key ?val"
    using rv_end_bound[OF aa_okD(1)[OF ok]] t by (simp add: aa_len_def)
  note push = kv_agent.push_ok[OF aa_okD(1)[OF ok] lens(2) _ before, unfolded lens(1)]
  have with_ok: "with_lv_ok (aa_with_lv aa')" using push(1) se by (simp add: aa'_def aa_record_def)
  have run: "set (enumerate t (kv_items as_items ?val)) = (\<lambda>(q, v). (v, (a, q))) ` new_pairs t s e"
    using kv_run_agent[of _ _ _ ?val] se lens(1) by (force simp: new_pairs_def image_iff)
  have asg: "assigned aa' = assigned aa \<union> (\<lambda>(q, v). (v, (a, q))) ` new_pairs t s e"
    using push(2) se run by (simp add: aa'_def aa_record_def assigned_def)
  show "assigned aa' = assigned aa \<union> (\<lambda>(q, v). (v, (a, q))) ` new_pairs t s e" by (rule asg)
  have "rv_end kv_key (kv_len as_len) (fst ?push) = kv_key ?val + kv_len as_len ?val"
    using se aa_okD(1)[OF ok] by (intro rv_end_push)
      (auto simp: kv_defs as_len_def as_can_append_def as_append_def dtrange_len_def vec_ok_def as_valid_def
        dtrange_is_valid_def)
  then show len: "aa_len aa' = t + (e - s)" by (simp add: aa_len_def aa'_def aa_record_def lens(1))
  have cl: "aa_clients aa' = (aa_clients aa)[a := (aa_clients aa ! a)\<lparr>cd_lv := xs\<rparr>]"
    by (simp add: aa'_def aa_record_def)
  have "fst ` assigned aa' = {..< aa_len aa'}"
    unfolding asg len image_Un aa_okD(2)[OF ok] t[symmetric] new_pairs_versions by auto
  moreover have "\<forall>c \<in> set (aa_clients aa'). seq_ok (cd_lv c)"
    using xs(1) a aa_okD(3)[OF ok] by (auto simp: cl in_set_conv_nth nth_list_update)
  moreover have "(v, (b, q)) \<in> assigned aa' \<longleftrightarrow>
      b < length (aa_clients aa') \<and> (q, v) \<in> seq_map (cd_lv (aa_clients aa' ! b))" for v b q
  proof -
    have m: "(v, (b, q)) \<in> (\<lambda>(q, v). (v, (a, q))) ` P \<longleftrightarrow> b = a \<and> (q, v) \<in> P" for P by force
    show ?thesis
      unfolding asg cl Un_iff m aa_okD(4)[OF ok] using a
      by (cases "b = a") (simp_all add: xs(2) Un_iff)
  qed
  moreover have "map cd_name (aa_clients aa') = map cd_name (aa_clients aa)"
    using a by (simp add: cl map_update) (metis list_update_id map_update nth_map)
  ultimately show "aa_ok aa'"
    unfolding aa_ok_def using with_ok aa_okD(5)[OF ok] by simp
qed

lemma next_seq_above: "seq_ok (cd_lv c) \<Longrightarrow> x \<in> set (cd_lv c) \<Longrightarrow> kv_key x + kv_len dtrange_len x \<le> cd_get_next_seq c"
  unfolding cd_get_next_seq_def by (rule rv_end_bound)

text \<open>A run whose sequence numbers are all free can be pushed, inserted or appended to its neighbour.\<close>

lemma seq_entry:
  "kv_len dtrange_len (KVPair s \<lparr>dt_start = t, dt_end = t + (e - s)\<rparr>) = e - s"
  "dtrange_is_valid (kv_val (KVPair s \<lparr>dt_start = t, dt_end = t + (e - s)\<rparr>))"
  by (simp_all add: kv_len_def dtrange_len_def dtrange_is_valid_def)

theorem assign_next_seq_spec:
  assumes ok: "aa_ok aa" and a: "a < length (aa_clients aa)" and n: "0 < num"
  defines "s \<equiv> cd_get_next_seq (aa_clients aa ! a)" and "t \<equiv> aa_len aa"
  shows "\<exists>aa'. assign_lv_to_client_next_seq aa a \<lparr>dt_start = t, dt_end = t + num\<rparr> = Some aa' \<and>
    aa_ok aa' \<and> aa_len aa' = t + num \<and>
    assigned aa' = assigned aa \<union> (\<lambda>(q, v). (v, (a, q))) ` new_pairs t s (s + num)"
proof -
  let ?c = "aa_clients aa ! a" and ?e = "KVPair s \<lparr>dt_start = t, dt_end = t + num\<rparr>"
  let ?xs = "fst (rv_push (kv_can_append dtrange_len dtrange_can_append) (kv_append dtrange_append) (cd_lv ?c) ?e)"
  have e: "kv_len dtrange_len ?e = num" "dtrange_is_valid (kv_val ?e)"
    by (simp_all add: kv_len_def dtrange_len_def dtrange_is_valid_def)
  have okc: "seq_ok (cd_lv ?c)" using aa_okD(3)[OF ok a] .
  have above: "\<forall>x \<in> set (cd_lv ?c). kv_key x + kv_len dtrange_len x \<le> kv_key ?e"
    using next_seq_above[OF okc] by (simp add: s_def)
  have run: "set (enumerate s (kv_items dtrange_iter ?e)) = new_pairs t s (s + num)"
    using new_pairs_run[of s "s + num" t] n by simp
  have xs: "seq_ok ?xs" "seq_map ?xs = seq_map (cd_lv ?c) \<union> new_pairs t s (s + num)"
    using kv_dtrange.push_ok[OF okc e(2) _ above] n run by (simp_all add: e(1))
  have "assign_lv_to_client_next_seq aa a \<lparr>dt_start = t, dt_end = t + num\<rparr> =
      Some (aa_record aa a ?xs t \<lparr>as_agent = a, as_seq = \<lparr>dt_start = s, dt_end = s + num\<rparr>\<rparr>)"
    using a by (simp add: assign_lv_to_client_next_seq_def aa_record_def Let_def s_def dtrange_len_def)
  then show ?thesis
    using aa_record_spec[OF ok a _ t_def[THEN meta_eq_to_obj_eq] xs] n by simp
qed

section \<open>Breaking ties\<close>

lemma ord_then_simps:
  "ord_then x y = Less \<longleftrightarrow> x = Less \<or> x = Equal \<and> y = Less"
  "ord_then x y = Equal \<longleftrightarrow> x = Equal \<and> y = Equal"
  "ord_then x y = Greater \<longleftrightarrow> x = Greater \<or> x = Equal \<and> y = Greater"
  by (cases x; simp)+

lemma str_cmp_Equal: "str_cmp a b = Equal \<longleftrightarrow> a = b"
  by (induction a b rule: str_cmp.induct) (auto simp: ord_then_simps)

lemma cmp_reverse: "cmp b a = ord_reverse (cmp a b)"
  by (auto simp: cmp_def)

lemma ord_then_reverse: "ord_reverse (ord_then x y) = ord_then (ord_reverse x) (ord_reverse y)"
  by (cases x; cases y) auto

lemma str_cmp_reverse: "str_cmp b a = ord_reverse (str_cmp a b)"
proof (induction a b rule: str_cmp.induct)
  case (4 a as b bs)
  then show ?case using cmp_reverse[of b a] by (simp add: ord_then_reverse)
qed simp_all

lemma str_cmp_trans: "str_cmp a b = Less \<Longrightarrow> str_cmp b c = Less \<Longrightarrow> str_cmp a c = Less"
proof (induction a b arbitrary: c rule: str_cmp.induct)
  case (2 b bs)
  then show ?case by (cases c) auto
next
  case (4 a as b bs)
  then show ?case by (cases c) (auto simp: ord_then_simps)
qed auto

lemma tie_break_Some:
  assumes ok: "aa_ok aa" and v: "v < aa_len aa" "w < aa_len aa" "v \<noteq> w"
  obtains a q b r where "local_to_agent_version aa v = Some (a, q)" "local_to_agent_version aa w = Some (b, r)"
    "(a, q) \<noteq> (b, r)"
    "tie_break_versions aa v w = Some (ord_then
       (str_cmp (cd_name (aa_clients aa ! a)) (cd_name (aa_clients aa ! b))) (cmp q r))"
    "cd_name (aa_clients aa ! a) = cd_name (aa_clients aa ! b) \<longleftrightarrow> a = b"
proof -
  obtain a q where a: "local_to_agent_version aa v = Some (a, q)"
    using local_to_agent_total[OF ok, of v] v(1) by (cases "local_to_agent_version aa v") auto
  obtain b r where b: "local_to_agent_version aa w = Some (b, r)"
    using local_to_agent_total[OF ok, of w] v(2) by (cases "local_to_agent_version aa w") auto
  have ia: "try_agent_version_to_lv aa (a, q) = Some v" using a by (simp add: agent_version_inverse[OF ok])
  have ib: "try_agent_version_to_lv aa (b, r) = Some w" using b by (simp add: agent_version_inverse[OF ok])
  have ne: "(a, q) \<noteq> (b, r)" using ia ib v(3) by (metis option.inject)
  have l: "a < length (aa_clients aa)" "b < length (aa_clients aa)"
    using ia ib by (simp_all add: try_agent_version_to_lv_def split: if_splits)
  have "cd_name (aa_clients aa ! a) = cd_name (aa_clients aa ! b) \<longleftrightarrow> a = b"
    using nth_eq_iff_index_eq[OF aa_okD(5)[OF ok]] l by simp
  then show ?thesis
    using that[OF a b ne] a b ne l v(3) by (auto simp: tie_break_versions_def tie_break_agent_versions_def)
qed

theorem tie_break_order:
  assumes ok: "aa_ok aa" and v: "v < aa_len aa" "w < aa_len aa"
  shows "\<exists>res. tie_break_versions aa v w = Some res \<and> tie_break_versions aa w v = Some (ord_reverse res) \<and>
    (res = Equal \<longleftrightarrow> v = w)"
proof (cases "v = w")
  case True
  then show ?thesis by (simp add: tie_break_versions_def)
next
  case False
  show ?thesis
  proof (rule tie_break_Some[OF ok v False])
    fix a q b r
    assume 1: "local_to_agent_version aa v = Some (a, q)" "local_to_agent_version aa w = Some (b, r)"
      "(a, q) \<noteq> (b, r)" "tie_break_versions aa v w = Some (ord_then
         (str_cmp (cd_name (aa_clients aa ! a)) (cd_name (aa_clients aa ! b))) (cmp q r))"
      "cd_name (aa_clients aa ! a) = cd_name (aa_clients aa ! b) \<longleftrightarrow> a = b"
    have "tie_break_versions aa w v = Some (ord_then
        (str_cmp (cd_name (aa_clients aa ! b)) (cd_name (aa_clients aa ! a))) (cmp r q))"
      using False by (rule tie_break_Some[OF ok v(2,1), OF not_sym]) (use 1 in auto)
    then show ?thesis
      using 1(3-5) False unfolding 1(4)
      by (auto simp: ord_then_reverse ord_then_simps str_cmp_Equal cmp_reverse[of r q]
          str_cmp_reverse[of "cd_name (aa_clients aa ! b)" "cd_name (aa_clients aa ! a)"])
  qed
qed

theorem tie_break_trans:
  assumes ok: "aa_ok aa" and v: "u < aa_len aa" "v < aa_len aa" "w < aa_len aa"
    and lt: "tie_break_versions aa u v = Some Less" "tie_break_versions aa v w = Some Less"
  shows "tie_break_versions aa u w = Some Less"
proof -
  have uv: "u \<noteq> v" "v \<noteq> w" using lt by (auto simp: tie_break_versions_def)
  have uw: "u \<noteq> w"
    using lt tie_break_order[OF ok v(1,2)] by auto
  show ?thesis
  proof (rule tie_break_Some[OF ok v(1,2) uv(1)], rule tie_break_Some[OF ok v(2,3) uv(2)],
      rule tie_break_Some[OF ok v(1,3) uw])
    fix a q b r b' r' c s a' q' c' s'
    assume 1: "local_to_agent_version aa u = Some (a, q)" "local_to_agent_version aa v = Some (b, r)"
        "tie_break_versions aa u v = Some (ord_then
           (str_cmp (cd_name (aa_clients aa ! a)) (cd_name (aa_clients aa ! b))) (cmp q r))"
      and 2: "local_to_agent_version aa v = Some (b', r')" "local_to_agent_version aa w = Some (c, s)"
        "tie_break_versions aa v w = Some (ord_then
           (str_cmp (cd_name (aa_clients aa ! b')) (cd_name (aa_clients aa ! c))) (cmp r' s))"
      and 3: "local_to_agent_version aa u = Some (a', q')" "local_to_agent_version aa w = Some (c', s')"
        "tie_break_versions aa u w = Some (ord_then
           (str_cmp (cd_name (aa_clients aa ! a')) (cd_name (aa_clients aa ! c'))) (cmp q' s'))"
    let ?n = "\<lambda>i. cd_name (aa_clients aa ! i)"
    have e: "b' = b" "r' = r" "a' = a" "q' = q" "c' = c" "s' = s" using 1 2 3 by simp_all
    have l1: "str_cmp (?n a) (?n b) = Less \<or> ?n a = ?n b \<and> q < r"
      using lt(1) 1(3) by (auto simp: ord_then_simps str_cmp_Equal)
    have l2: "str_cmp (?n b) (?n c) = Less \<or> ?n b = ?n c \<and> r < s"
      using lt(2) 2(3) e by (auto simp: ord_then_simps str_cmp_Equal)
    from l1 l2 have "str_cmp (?n a) (?n c) = Less \<or> ?n a = ?n c \<and> q < s"
      using str_cmp_trans[of "?n a" "?n b" "?n c"] by auto
    then show ?thesis using 3(3) e by (auto simp: ord_then_simps str_cmp_Equal)
  qed
qed

end
