(* ===== verification/CausalFacts.thy ===== *)
theory CausalFacts
  imports CausalState AgentFacts
begin

text \<open>
  What the causal graph promises.  \<open>cg_ok\<close> is its invariant: both halves are well formed and equally
  long, every local version so far has parents and an (agent, sequence number) pair, and the version
  is the frontier of all of them.  Every way to add operations extends it (\<open>cg_extends\<close>).
\<close>

definition cg_ok :: "causal_graph \<Rightarrow> bool" where
  "cg_ok cg \<longleftrightarrow>
     aa_ok (cg_aa cg) \<and> graph_checked (cg_graph cg) \<and> graph_next_time (cg_graph cg) = aa_len (cg_aa cg) \<and>
     frontier_ok (cg_graph cg) (cg_version cg) \<and> ghist (cg_graph cg) (cg_version cg) = {..< aa_len (cg_aa cg)}"

text \<open>
  \<open>cg_extends cg cg' a s e ps\<close>: the agent's sequence numbers from \<open>s\<close> to \<open>e\<close> became the new local
  versions, the first of them with the parents \<open>ps\<close> and the others in a chain.
\<close>

definition cg_extends :: "causal_graph \<Rightarrow> causal_graph \<Rightarrow> agent_id \<Rightarrow> nat \<Rightarrow> nat \<Rightarrow> lv list \<Rightarrow> bool" where
  "cg_extends cg cg' a s e ps \<longleftrightarrow>
     cg_len cg' = cg_len cg + (e - s) \<and>
     assigned (cg_aa cg') = assigned (cg_aa cg) \<union> (\<lambda>(q, v). (v, (a, q))) ` new_pairs (cg_len cg) s e \<and>
     (\<forall>v. vparents (cg_graph cg') v =
        (if cg_len cg \<le> v \<and> v < cg_len cg'
         then if v > cg_len cg then [v - 1] else ps else vparents (cg_graph cg) v))"

lemma cg_okD:
  assumes "cg_ok cg"
  shows "aa_ok (cg_aa cg)" "graph_wf (cg_graph cg)" "graph_checked (cg_graph cg)"
    "graph_next_time (cg_graph cg) = cg_len cg" "in_graph (cg_graph cg) v \<longleftrightarrow> v < cg_len cg"
    "frontier_ok (cg_graph cg) (cg_version cg)" "ghist (cg_graph cg) (cg_version cg) = {..< cg_len cg}"
  using assms checked_in_graph[of "cg_graph cg"]
  by (simp_all add: cg_ok_def graph_checked_def cg_len_def len_assignment_def)

lemma cg_new_ok: "cg_ok cg_new" "cg_len cg_new = 0"
proof -
  have "frontier_ok graph_new []" by (simp add: frontier_ok_def)
  then show "cg_ok cg_new" "cg_len cg_new = 0"
    using graph_new_checked aa_new_ok
    by (simp_all add: cg_ok_def cg_new_def frontier_root_def cg_len_def len_assignment_def)
qed

section \<open>Extending the DAG\<close>

lemma anc_cong:
  assumes "\<And>v p. p \<in> set (ps v) \<Longrightarrow> p < v" "\<And>v. v \<le> b \<Longrightarrow> ps' v = ps v"
  shows "anc ps' a b \<longleftrightarrow> anc ps a b"
  using assms(2)
proof (induction b rule: less_induct)
  case (less b)
  have "anc ps' a p \<longleftrightarrow> anc ps a p" if "p \<in> set (ps b)" for p
    using assms(1)[OF that] less.prems by (intro less.IH) auto
  then show ?case
    using anc_step[of ps' a b] anc_step[of ps a b] less.prems[of b] by auto
qed

lemma chain_history:
  assumes "s \<le> l" "\<And>v. s < v \<Longrightarrow> v \<le> l \<Longrightarrow> ps v = [v - 1]"
  shows "anc ps v l \<longleftrightarrow> (s \<le> v \<and> v \<le> l) \<or> v \<in> hist ps (set (ps s))"
  using assms
proof (induction l)
  case 0
  then show ?case using anc_step[of ps v 0] by (auto simp: hist_def)
next
  case (Suc l)
  show ?case
  proof (cases "s = Suc l")
    case True
    then show ?thesis using anc_step[of ps v "Suc l"] by (auto simp: hist_def)
  next
    case False
    then have "anc ps v l \<longleftrightarrow> (s \<le> v \<and> v \<le> l) \<or> v \<in> hist ps (set (ps s))" using Suc by simp
    moreover have "anc ps v (Suc l) \<longleftrightarrow> v = Suc l \<or> anc ps v l"
      using anc_step[of ps v "Suc l"] Suc.prems(2)[of "Suc l"] False Suc.prems(1) by simp
    ultimately show ?thesis using False Suc.prems(1) by auto
  qed
qed

theorem cg_extend_spec:
  assumes ok: "cg_ok cg" and n: "0 < num" and aa: "aa_ok aa" "aa_len aa = cg_len cg + num"
    and ps: "sorted_wrt (<) ps" "\<forall>p \<in> set ps. p < cg_len cg"
  defines "span \<equiv> \<lparr>dt_start = cg_len cg, dt_end = cg_len cg + num\<rparr>"
  shows "\<exists>cg'. cg_extend cg aa ps span = Some (cg', span) \<and> cg_ok cg' \<and> cg_aa cg' = aa \<and>
    (\<forall>v. vparents (cg_graph cg') v = (if cg_len cg \<le> v \<and> v < cg_len cg + num
        then if v > cg_len cg then [v - 1] else ps else vparents (cg_graph cg) v))"
proof -
  let ?g = "cg_graph cg" and ?f = "cg_version cg" and ?n = "cg_len cg"
  note okD = cg_okD[OF ok]
  obtain g' where g': "graph_push ?g ps span = Some g'" "graph_checked g'" "graph_next_time g' = ?n + num"
    "\<forall>v. vparents g' v = (if ?n \<le> v \<and> v < ?n + num then if v > ?n then [v - 1] else ps else vparents ?g v)"
    using graph_push_spec[OF okD(2), of span ps] okD(3,4) n ps by (auto simp: span_def okD(5) dtrange_contains_def)
  have wf': "graph_wf g'" using g'(2) by (simp add: graph_checked_def)
  have in': "in_graph g' v \<longleftrightarrow> v < ?n + num" for v using checked_in_graph[OF g'(2)] g'(3) by simp
  have same: "ganc g' a b \<longleftrightarrow> ganc ?g a b" if "b < ?n" for a b
  proof (rule anc_cong)
    show "p < v" if "p \<in> set (vparents ?g v)" for p v using gdag.parents_less[OF okD(2) that] .
    show "vparents g' v = vparents ?g v" if "v \<le> b" for v using g'(4) that \<open>b < ?n\<close> by simp
  qed
  have fn: "v < ?n" if "v \<in> set ?f" for v using that okD(6) by (simp add: frontier_ok_def okD(5))
  have hf: "ghist g' ?f = {..< ?n}"
    using fn same unfolding okD(7)[symmetric] by (auto simp: hist_def)
  have fok: "frontier_ok g' ?f"
    using okD(6) fn trans_less_add1[OF fn, of _ num] same unfolding frontier_ok_def dominators_def in'
    by (auto simp: okD(5))
  have last: "dtrange_last span = ?n + num - 1" by (simp add: span_def dtrange_last_def)
  have vs: "vparents g' ?n = ps" using g'(4) n by simp
  have "\<exists>f'. advance_by_known_run ?f ps span = Some f' \<and> frontier_ok g' f' \<and>
      set f' \<subseteq> set ?f \<union> {dt_start span ..< dt_end span} \<and>
      ghist g' f' = ghist g' ?f \<union> hist (vparents g') {dt_start span ..< dt_end span}"
  proof (rule advance_by_run_history[OF fok])
    show "in_graph g' (dtrange_last span)" using n by (simp add: in' last)
    show "dt_start span < dt_end span" using n by (simp add: span_def)
    show "ganc g' v (dtrange_last span) \<longleftrightarrow>
        (dt_start span \<le> v \<and> v \<le> dtrange_last span) \<or> v \<in> ghist g' ps" for v
    proof -
      have "vparents g' u = [u - 1]" if "?n < u" "u \<le> ?n + num - 1" for u
      proof -
        have "u < ?n + num" using that n by linarith
        then show ?thesis using g'(4) that(1) by simp
      qed
      then have "ganc g' v (?n + num - 1) \<longleftrightarrow> (?n \<le> v \<and> v \<le> ?n + num - 1) \<or> v \<in> ghist g' (vparents g' ?n)"
        using n by (intro chain_history) simp_all
      then show ?thesis unfolding vs last by (simp add: span_def)
    qed
    show "\<forall>v \<in> set ?f. \<forall>q \<in> set ps. ganc g' v q \<longrightarrow> v = q"
    proof (intro ballI impI)
      fix v q assume v: "v \<in> set ?f" and q: "q \<in> set ps" and a: "ganc g' v q"
      have qn: "q < ?n" using ps(2) q by blast
      then have "q \<in> ghist ?g ?f" by (simp add: okD(7))
      then obtain w where w: "w \<in> set ?f" "ganc ?g q w" by (auto simp: hist_def)
      have vq: "ganc ?g v q" using a same[OF qn] by simp
      then have "v = w" using frontier_ok_antichain[OF okD(6) v w(1)] anc_trans w(2) by blast
      then show "v = q" using gdag.anc_antisym[OF okD(2) vq] w(2) by simp
    qed
    show "\<forall>v. dtrange_contains span v \<longrightarrow> v \<notin> ghist g' ?f" by (simp add: hf span_def dtrange_contains_def)
  qed
  then obtain f' where f': "advance_by_known_run ?f ps span = Some f'" "frontier_ok g' f'"
    "ghist g' f' = {..< ?n} \<union> hist (vparents g') {?n ..< ?n + num}" by (auto simp: hf span_def)
  have all: "hist (vparents g') {..< ?n + num} = {..< ?n + num}"
    by (rule hist_downset) (use gdag.parents_less[OF wf'] in fastforce)
  have "{?n ..< ?n + num} \<subseteq> hist (vparents g') {..< ?n + num}" unfolding all by auto
  then have "hist (vparents g') {?n ..< ?n + num} \<subseteq> {..< ?n + num}"
    using hist_subset[of "vparents g'" "{?n ..< ?n + num}" "{..< ?n + num}"] all by simp
  moreover have "{?n ..< ?n + num} \<subseteq> hist (vparents g') {?n ..< ?n + num}" using hist_self by blast
  moreover have "{..< ?n + num} = {..< ?n} \<union> {?n ..< ?n + num}" by auto
  ultimately have h: "ghist g' f' = {..< ?n + num}" unfolding f'(3) by blast
  let ?cg' = "\<lparr>cg_aa = aa, cg_graph = g', cg_version = f'\<rparr>"
  have "cg_extend cg aa ps span = Some (?cg', span)" using g'(1) f'(1) by (simp add: cg_extend_def)
  moreover have "cg_ok ?cg'" using aa g'(2,3) f'(2) h by (simp add: cg_ok_def)
  ultimately show ?thesis using g'(4) by auto
qed

lemma cg_record_spec:
  assumes ok: "cg_ok cg" and a: "a < length (aa_clients (cg_aa cg))" and se: "s < e"
    and xs: "seq_ok xs" "seq_map xs = seq_map (cd_lv (aa_clients (cg_aa cg) ! a)) \<union> new_pairs (cg_len cg) s e"
    and ps: "sorted_wrt (<) ps" "\<forall>p \<in> set ps. p < cg_len cg"
  defines "span \<equiv> \<lparr>dt_start = cg_len cg, dt_end = cg_len cg + (e - s)\<rparr>"
  shows "\<exists>cg'. cg_extend cg (aa_record (cg_aa cg) a xs (cg_len cg) \<lparr>as_agent = a, as_seq = \<lparr>dt_start = s, dt_end = e\<rparr>\<rparr>)
      ps span = Some (cg', span) \<and> cg_ok cg' \<and> cg_extends cg cg' a s e ps"
proof -
  let ?aa = "aa_record (cg_aa cg) a xs (cg_len cg) \<lparr>as_agent = a, as_seq = \<lparr>dt_start = s, dt_end = e\<rparr>\<rparr>"
  have t: "cg_len cg = aa_len (cg_aa cg)" by (simp add: cg_len_def len_assignment_def)
  note r = aa_record_spec[OF cg_okD(1)[OF ok] a se t xs]
  have "0 < e - s" using se by simp
  from cg_extend_spec[OF ok this r(1,3) ps] obtain cg' where
    "cg_extend cg ?aa ps span = Some (cg', span)" "cg_ok cg'" "cg_aa cg' = ?aa"
    "\<forall>v. vparents (cg_graph cg') v = (if cg_len cg \<le> v \<and> v < cg_len cg + (e - s)
        then if v > cg_len cg then [v - 1] else ps else vparents (cg_graph cg) v)"
    unfolding span_def by blast
  moreover from this have "cg_len cg' = cg_len cg + (e - s)" using r(3) by (simp add: cg_len_def len_assignment_def)
  ultimately show ?thesis using r(2) by (auto simp: cg_extends_def)
qed

section \<open>Local operations\<close>

theorem assign_local_op_with_parents_spec:
  assumes ok: "cg_ok cg" and a: "a < length (aa_clients (cg_aa cg))" and n: "0 < num"
    and ps: "sorted_wrt (<) ps" "\<forall>p \<in> set ps. p < cg_len cg"
  defines "s \<equiv> cd_get_next_seq (aa_clients (cg_aa cg) ! a)"
  shows "\<exists>cg'. assign_local_op_with_parents cg ps a num =
      Some (cg', \<lparr>dt_start = cg_len cg, dt_end = cg_len cg + num\<rparr>) \<and>
    cg_ok cg' \<and> cg_extends cg cg' a s (s + num) ps"
proof -
  have t: "cg_len cg = aa_len (cg_aa cg)" by (simp add: cg_len_def len_assignment_def)
  obtain aa where aa: "assign_lv_to_client_next_seq (cg_aa cg) a \<lparr>dt_start = cg_len cg, dt_end = cg_len cg + num\<rparr> = Some aa"
    "aa_ok aa" "aa_len aa = cg_len cg + num"
    "assigned aa = assigned (cg_aa cg) \<union> (\<lambda>(q, v). (v, (a, q))) ` new_pairs (cg_len cg) s (s + num)"
    using assign_next_seq_spec[OF cg_okD(1)[OF ok] a n] unfolding t s_def by blast
  from cg_extend_spec[OF ok n aa(2,3) ps] obtain cg' where
    cg': "cg_extend cg aa ps \<lparr>dt_start = cg_len cg, dt_end = cg_len cg + num\<rparr> =
      Some (cg', \<lparr>dt_start = cg_len cg, dt_end = cg_len cg + num\<rparr>)" "cg_ok cg'" "cg_aa cg' = aa"
    "\<forall>v. vparents (cg_graph cg') v = (if cg_len cg \<le> v \<and> v < cg_len cg + num
        then if v > cg_len cg then [v - 1] else ps else vparents (cg_graph cg) v)"
    by blast
  have "assign_local_op_with_parents cg ps a num =
      cg_extend cg aa ps \<lparr>dt_start = cg_len cg, dt_end = cg_len cg + num\<rparr>"
    by (simp add: assign_local_op_with_parents_def cg_extend_def Let_def aa(1))
  moreover have "cg_len cg' = cg_len cg + num" using cg'(3) aa(3) by (simp add: cg_len_def len_assignment_def)
  ultimately show ?thesis using cg' aa(4) by (auto simp: cg_extends_def)
qed

lemma version_members: "cg_ok cg \<Longrightarrow> sorted_wrt (<) (cg_version cg) \<and> (\<forall>v \<in> set (cg_version cg). v < cg_len cg)"
  using cg_okD(5,6) by (auto simp: frontier_ok_def)

text \<open>\<open>assign_local_op\<close> is \<open>assign_local_op_with_parents\<close> on the current version.\<close>

lemma assign_local_op_eq: "assign_local_op cg a num = assign_local_op_with_parents cg (cg_version cg) a num"
proof -
  have "advance_by_known_run f f span = Some (replace_with_1 f (dtrange_last span))" for f span
    by (simp add: advance_by_known_run_def replace_with_1_def)
  then show ?thesis
    by (auto simp: assign_local_op_def assign_local_op_with_parents_def Let_def split: option.split)
qed

theorem assign_local_op_spec:
  assumes ok: "cg_ok cg" and a: "a < length (aa_clients (cg_aa cg))" and n: "0 < num"
  defines "s \<equiv> cd_get_next_seq (aa_clients (cg_aa cg) ! a)"
  shows "\<exists>cg'. assign_local_op cg a num = Some (cg', \<lparr>dt_start = cg_len cg, dt_end = cg_len cg + num\<rparr>) \<and>
    cg_ok cg' \<and> cg_extends cg cg' a s (s + num) (cg_version cg) \<and> cg_version cg' = [cg_len cg + num - 1]"
proof -
  obtain cg' where "assign_local_op cg a num = Some (cg', \<lparr>dt_start = cg_len cg, dt_end = cg_len cg + num\<rparr>)"
    "cg_ok cg'" "cg_extends cg cg' a s (s + num) (cg_version cg)"
    using assign_local_op_with_parents_spec[OF ok a n] version_members[OF ok] unfolding s_def assign_local_op_eq by blast
  moreover from this(1) have "cg_version cg' = [cg_len cg + num - 1]"
    by (auto simp: assign_local_op_def Let_def replace_with_1_def dtrange_last_def split: option.splits)
  ultimately show ?thesis by blast
qed

section \<open>Merging\<close>

lemma insert_run:
  fixes t :: lv
  assumes ok: "seq_ok xs" and i: "i \<le> length xs" and k: "k < e"
    and below: "\<And>x. x \<in> set (take i xs) \<Longrightarrow> kv_key x + kv_len dtrange_len x \<le> k"
    and above: "\<And>x. x \<in> set (drop i xs) \<Longrightarrow> e \<le> kv_key x"
  defines "new \<equiv> KVPair k \<lparr>dt_start = t, dt_end = t + (e - k)\<rparr>"
  shows "seq_ok (take i xs @ new # drop i xs)"
    "seq_map (take i xs @ new # drop i xs) = seq_map xs \<union> new_pairs t k e"
proof -
  have n: "kv_len dtrange_len new = e - k" "dtrange_is_valid (kv_val new)" "kv_key new = k"
    using seq_entry[of k t e] by (simp_all add: new_def)
  show "seq_ok (take i xs @ new # drop i xs)"
    using ok k n below above vec_ok_take[OF ok, of i] vec_ok_drop[OF ok, of i]
    by (subst (asm) append_take_drop_id[symmetric, of xs i]) (auto simp del: append_take_drop_id)
  have "seq_map xs = seq_map (take i xs) \<union> seq_map (drop i xs)"
    by (metis append_take_drop_id content_simps(3))
  then show "seq_map (take i xs @ new # drop i xs) = seq_map xs \<union> new_pairs t k e"
    using new_pairs_run[OF k, of t] by (auto simp: new_def)
qed

lemma append_run:
  assumes ok: "seq_ok (take i xs @ new # drop i xs)" and i: "1 \<le> i" "i \<le> length xs"
    and can: "kv_can_append dtrange_len dtrange_can_append (xs ! (i - 1)) new"
  defines "ys \<equiv> xs[i - 1 := kv_append dtrange_append (xs ! (i - 1)) new]"
  shows "seq_ok ys" "seq_map ys = seq_map (take i xs @ new # drop i xs)"
proof -
  have l: "i - 1 < length xs" "Suc (i - 1) = i" using i by simp_all
  have t: "take i xs @ new # drop i xs = take (i - 1) xs @ xs ! (i - 1) # new # drop i xs"
    using take_Suc_conv_app_nth[OF l(1)] l(2) by simp
  have y: "ys = take (i - 1) xs @ kv_append dtrange_append (xs ! (i - 1)) new # drop i xs"
    unfolding ys_def using l by (simp add: upd_conv_take_nth_drop)
  show "seq_ok ys" "seq_map ys = seq_map (take i xs @ new # drop i xs)"
    unfolding y t using kv_dtrange.join_neighbours[OF ok[unfolded t] can] by blast+
qed

abbreviation known :: "causal_graph \<Rightarrow> agent_id \<Rightarrow> nat \<Rightarrow> bool" where
  "known cg a q \<equiv> (\<exists>v. (v, (a, q)) \<in> assigned (cg_aa cg))"

lemma seq_map_entry:
  "(q, v) \<in> seq_map xs \<longleftrightarrow> (\<exists>x \<in> set xs. kv_key x \<le> q \<and> q < kv_key x + kv_len dtrange_len x \<and>
     v = dt_start (kv_val x) + (q - kv_key x))"
  by (auto simp: content_def kv_run_range simp del: in_set_enumerate_eq)

lemma known_entry:
  assumes "cg_ok cg" "a < length (aa_clients (cg_aa cg))"
  shows "known cg a q \<longleftrightarrow> (\<exists>x \<in> set (cd_lv (aa_clients (cg_aa cg) ! a)).
    kv_key x \<le> q \<and> q < kv_key x + kv_len dtrange_len x)"
  by (auto simp: aa_okD(4)[OF cg_okD(1)[OF assms(1)]] assms(2) seq_map_entry)

lemma entry_last_lv:
  assumes "x \<in> set xs" "seq_ok xs"
  shows "(kv_key x + kv_len dtrange_len x - 1, dtrange_last (kv_val x)) \<in> seq_map xs"
  using assms by (auto simp: seq_map_entry vec_ok_def kv_len_def dtrange_len_def dtrange_last_def intro!: bexI[of _ x])

text \<open>
  The search of \<open>merge_and_assign\<close>: when the last number of the span is free and the known numbers
  come first, \<open>k\<close> is where the free part begins.
\<close>

lemma split_unknown:
  assumes ok: "seq_ok xs" and se: "s < e" and f: "find_index kv_key (kv_len dtrange_len) xs (e - 1) = Inl i"
    and pre: "\<forall>q r. s \<le> q \<longrightarrow> q \<le> r \<longrightarrow> r < e \<longrightarrow> (\<exists>v. (r, v) \<in> seq_map xs) \<longrightarrow> (\<exists>v. (q, v) \<in> seq_map xs)"
  defines "p \<equiv> kv_key (xs ! (i - 1)) + kv_len dtrange_len (xs ! (i - 1))"
  defines "k \<equiv> (if 1 \<le> i \<and> s \<le> p then p else s)"
  shows "i \<le> length xs" "s \<le> k" "k < e"
    "\<And>x. x \<in> set (take i xs) \<Longrightarrow> kv_key x + kv_len dtrange_len x \<le> k"
    "\<And>x. x \<in> set (drop i xs) \<Longrightarrow> e \<le> kv_key x"
    "\<And>q. s \<le> q \<Longrightarrow> q < e \<Longrightarrow> (\<exists>v. (q, v) \<in> seq_map xs) \<longleftrightarrow> q < k"
    "s < k \<Longrightarrow> 1 \<le> i \<and> k = p \<and> (k - 1, dtrange_last (kv_val (xs ! (i - 1)))) \<in> seq_map xs"
proof -
  have cases: "i \<le> length xs" "\<And>x. x \<in> set (take i xs) \<Longrightarrow> kv_key x + kv_len dtrange_len x \<le> e - 1"
    "\<And>x. x \<in> set (drop i xs) \<Longrightarrow> e - 1 < kv_key x"
    using find_index_cases[OF ok, of "e - 1"] f by (metis sum.inject(1) sum.distinct(1))+
  show i: "i \<le> length xs" by (rule cases)
  show above: "e \<le> kv_key x" if "x \<in> set (drop i xs)" for x using cases(3)[OF that] se by linarith
  have prev: "xs ! (i - 1) \<in> set (take i xs)" if "1 \<le> i"
    using that i by (auto simp: in_set_conv_nth intro!: exI[of _ "i - 1"])
  have top: "kv_key x + kv_len dtrange_len x \<le> p" if x: "x \<in> set (take i xs)" "1 \<le> i" for x
  proof -
    obtain j where j: "j < i" "j < length xs" "x = xs ! j" using x(1) by (auto simp: in_set_conv_nth)
    show ?thesis
    proof (cases "j = i - 1")
      case False
      then have "kv_key x + kv_len dtrange_len x \<le> kv_key (xs ! (i - 1))"
        using vec_ok_nth[OF ok, of j "i - 1"] j i by simp
      then show ?thesis by (simp add: p_def)
    qed (simp add: p_def j)
  qed
  have pe: "p < e" if "1 \<le> i" using cases(2)[OF prev[OF that]] se by (simp add: p_def)
  show k: "s \<le> k" "k < e" using pe se by (auto simp: k_def)
  have ne: "1 \<le> i" if "x \<in> set (take i xs)" for x using that by (cases i) auto
  show below: "kv_key x + kv_len dtrange_len x \<le> k" if x: "x \<in> set (take i xs)" for x
    using top[OF x ne[OF x]] ne[OF x] by (auto simp: k_def)
  have above_k: "\<nexists>v. (q, v) \<in> seq_map xs" if "k \<le> q" "q < e" for q
  proof -
    have "x \<in> set (take i xs) \<or> x \<in> set (drop i xs)" if "x \<in> set xs" for x
      using that by (metis Un_iff append_take_drop_id set_append)
    then have "\<not> (kv_key x \<le> q \<and> q < kv_key x + kv_len dtrange_len x)" if "x \<in> set xs" for x
      using below above that \<open>k \<le> q\<close> \<open>q < e\<close> by (meson le_trans not_le)
    then show ?thesis by (auto simp: seq_map_entry)
  qed
  show s_k: "1 \<le> i \<and> k = p \<and> (k - 1, dtrange_last (kv_val (xs ! (i - 1)))) \<in> seq_map xs" if "s < k"
  proof -
    have "1 \<le> i" "k = p" using that by (auto simp: k_def split: if_splits)
    moreover have "xs ! (i - 1) \<in> set xs" using prev[OF \<open>1 \<le> i\<close>] in_set_takeD by fast
    ultimately show ?thesis using entry_last_lv[OF _ ok] by (simp add: p_def)
  qed
  show "(\<exists>v. (q, v) \<in> seq_map xs) \<longleftrightarrow> q < k" if q: "s \<le> q" "q < e" for q
  proof
    assume "q < k"
    then have "\<exists>v. (k - 1, v) \<in> seq_map xs" using s_k q(1) by auto
    then show "\<exists>v. (q, v) \<in> seq_map xs" using pre[rule_format, OF q(1), of "k - 1"] \<open>q < k\<close> k(2) by simp
  qed (use above_k q not_le in blast)
qed

theorem merge_and_assign_spec:
  assumes ok: "cg_ok cg" and a: "a < length (aa_clients (cg_aa cg))" and se: "s < e"
    and ps: "sorted_wrt (<) ps" "\<forall>p \<in> set ps. p < cg_len cg"
    and pre: "\<forall>q r. s \<le> q \<longrightarrow> q \<le> r \<longrightarrow> r < e \<longrightarrow> known cg a r \<longrightarrow> known cg a q"
  shows "\<exists>k cg'. s \<le> k \<and> k \<le> e \<and> (\<forall>q. s \<le> q \<longrightarrow> q < e \<longrightarrow> known cg a q = (q < k)) \<and>
    merge_and_assign cg ps \<lparr>as_agent = a, as_seq = \<lparr>dt_start = s, dt_end = e\<rparr>\<rparr> =
      Some (cg', \<lparr>dt_start = cg_len cg, dt_end = cg_len cg + (e - k)\<rparr>) \<and> cg_ok cg' \<and>
    (if k = e then cg' = cg
     else \<exists>ps'. cg_extends cg cg' a k e ps' \<and>
       (if k = s then ps' = ps else \<exists>v. ps' = [v] \<and> (v, (a, k - 1)) \<in> assigned (cg_aa cg)))"
proof -
  let ?xs = "cd_lv (aa_clients (cg_aa cg) ! a)" and ?n = "cg_len cg"
  let ?span = "\<lparr>as_agent = a, as_seq = \<lparr>dt_start = s, dt_end = e\<rparr>\<rparr>"
  note okD = cg_okD[OF ok]
  have oks: "seq_ok ?xs" using aa_okD(3)[OF okD(1) a] .
  have kn: "known cg a q \<longleftrightarrow> (\<exists>v. (q, v) \<in> seq_map ?xs)" for q by (simp add: aa_okD(4)[OF okD(1)] a)
  have last: "dtrange_last \<lparr>dt_start = s, dt_end = e\<rparr> = e - 1" by (simp add: dtrange_last_def)
  show ?thesis
  proof (cases "find_index kv_key (kv_len dtrange_len) ?xs (e - 1)")
    case (Inr i)
    have "known cg a (e - 1)"
      using find_index_ok_split[OF oks Inr] by (auto simp: known_entry[OF ok a] intro!: bexI[of _ "?xs ! i"])
    have "known cg a q" if "s \<le> q" "q < e" for q
      using that by (intro pre[rule_format, OF that(1) _ _ \<open>known cg a (e - 1)\<close>]) auto
    then have "\<forall>q. s \<le> q \<longrightarrow> q < e \<longrightarrow> known cg a q = (q < e)" by simp
    moreover have "merge_and_assign cg ps ?span = Some (cg, \<lparr>dt_start = ?n, dt_end = ?n + (e - e)\<rparr>)"
      using a Inr by (simp add: merge_and_assign_def Let_def last)
    ultimately show ?thesis using ok se by (intro exI[of _ e] exI[of _ cg]) simp
  next
    case (Inl i)
    define p where "p = kv_key (?xs ! (i - 1)) + kv_len dtrange_len (?xs ! (i - 1))"
    define k where "k = (if 1 \<le> i \<and> s \<le> p then p else s)"
    note su = split_unknown[OF oks se Inl pre[unfolded kn], folded p_def, folded k_def]
    define t where "t = \<lparr>dt_start = ?n, dt_end = ?n + (e - k)\<rparr>"
    define new where "new = KVPair k t"
    define ps' where "ps' = (if s < k then [dtrange_last (kv_val (?xs ! (i - 1)))] else ps)"
    define ys where "ys = (if 1 \<le> i \<and> s \<le> p \<and> kv_can_append dtrange_len dtrange_can_append (?xs ! (i - 1)) new
      then ?xs[i - 1 := kv_append dtrange_append (?xs ! (i - 1)) new] else take i ?xs @ new # drop i ?xs)"
    have end_p: "span_end kv_key (kv_len dtrange_len) (?xs ! (i - 1)) = p" by (simp add: p_def span_end_def)
    have m: "merge_and_assign cg ps ?span =
        cg_extend cg (aa_record (cg_aa cg) a ys ?n \<lparr>as_agent = a, as_seq = \<lparr>dt_start = k, dt_end = e\<rparr>\<rparr>) ps' t"
    proof (cases "1 \<le> i \<and> s \<le> p")
      case True
      then have "k = p" by (simp add: k_def)
      then show ?thesis
        using True a Inl
        by (simp add: merge_and_assign_def Let_def last end_p[unfolded One_nat_def] ys_def ps'_def t_def new_def)
    next
      case False
      then have "k = s" unfolding k_def by (rule if_not_P)
      then show ?thesis
        using False a Inl
        by (auto simp: merge_and_assign_def Let_def last end_p[unfolded One_nat_def] ys_def ps'_def t_def new_def as_len_def dtrange_len_def)
    qed
    note ins = insert_run[OF oks su(1,3,4,5), where t = ?n, folded t_def, folded new_def]
    have ys: "seq_ok ys" "seq_map ys = seq_map ?xs \<union> new_pairs ?n k e"
      using ins append_run[OF ins(1) _ su(1)] by (auto simp: ys_def)
    have ps'k: "s < k \<Longrightarrow> \<exists>v. ps' = [v] \<and> (v, (a, k - 1)) \<in> assigned (cg_aa cg)"
      using su(7) by (auto simp: ps'_def aa_okD(4)[OF okD(1)] a)
    have lens: "v < ?n" if "(v, x) \<in> assigned (cg_aa cg)" for v x
      using aa_okD(2)[OF okD(1)] that by (force simp: cg_len_def len_assignment_def)
    have "sorted_wrt (<) ps'" "\<forall>p \<in> set ps'. p < ?n"
      using ps ps'k lens by (auto simp: ps'_def split: if_splits)
    from cg_record_spec[OF ok a su(3) ys this] obtain cg' where
      "merge_and_assign cg ps ?span = Some (cg', t)" "cg_ok cg'" "cg_extends cg cg' a k e ps'"
      unfolding m t_def by blast
    moreover have "\<forall>q. s \<le> q \<longrightarrow> q < e \<longrightarrow> known cg a q = (q < k)" unfolding kn using su(6) by blast
    moreover have "if k = s then ps' = ps else \<exists>v. ps' = [v] \<and> (v, (a, k - 1)) \<in> assigned (cg_aa cg)"
      using ps'k su(2) by (simp add: ps'_def)
    ultimately show ?thesis
      using su(2,3) by (intro exI[of _ k] exI[of _ cg'] conjI) (auto simp: t_def)
  qed
qed

theorem merge_nonoverlapping_spec:
  assumes ok: "cg_ok cg" and a: "a < length (aa_clients (cg_aa cg))" and se: "s < e" "e < usize_max"
    and ps: "sorted_wrt (<) ps" "\<forall>p \<in> set ps. p < cg_len cg"
    and new: "\<forall>q. s \<le> q \<longrightarrow> q < e \<longrightarrow> \<not> known cg a q"
  shows "\<exists>cg'. merge_and_assign_nonoverlapping cg ps \<lparr>as_agent = a, as_seq = \<lparr>dt_start = s, dt_end = e\<rparr>\<rparr> =
      Some (cg', \<lparr>dt_start = cg_len cg, dt_end = cg_len cg + (e - s)\<rparr>) \<and> cg_ok cg' \<and> cg_extends cg cg' a s e ps"
proof -
  let ?xs = "cd_lv (aa_clients (cg_aa cg) ! a)" and ?n = "cg_len cg"
  let ?new = "KVPair s \<lparr>dt_start = ?n, dt_end = ?n + (e - s)\<rparr>"
  have oks: "seq_ok ?xs" using aa_okD(3)[OF cg_okD(1)[OF ok] a] .
  have free: "\<not> (kv_key x \<le> q \<and> q < kv_key x + kv_len dtrange_len x)" if "x \<in> set ?xs" "s \<le> q" "q < e" for x q
    using new that by (auto simp: known_entry[OF ok a])
  have pos: "0 < kv_len dtrange_len x" if "x \<in> set ?xs" for x using oks that by (simp add: vec_ok_def)
  have dis: "kv_key x + kv_len dtrange_len x \<le> s \<or> e \<le> kv_key x" if x: "x \<in> set ?xs" for x
    using free[OF x, of s] free[OF x, of "kv_key x"] pos[OF x] se(1) by linarith
  note fs = kv_dtrange.find_sparse_content[OF oks, of s]
  obtain gap where gap: "fst (find_sparse kv_key (kv_len dtrange_len) ?xs s) = Inl gap" "e \<le> dt_end gap"
  proof (cases "find_sparse kv_key (kv_len dtrange_len) ?xs s")
    case (Pair r off)
    show thesis
    proof (cases r)
      case (Inl g)
      then have "dt_end g = usize_max \<or> (\<exists>x \<in> set ?xs. dt_end g = kv_key x)" "s < dt_end g"
        using fs Pair se by auto
      then have "e \<le> dt_end g" using se dis pos by force
      then show thesis using that Inl Pair by simp
    next
      case (Inr x)
      then have "x \<in> set ?xs" "kv_key x \<le> s" "s < kv_key x + kv_len dtrange_len x"
        using fs Pair se by auto
      then show thesis using free[of x s] se(1) by blast
    qed
  qed
  have n: "kv_len dtrange_len ?new = e - s" "dtrange_is_valid (kv_val ?new)" using seq_entry[of s ?n e] by simp_all
  have "\<forall>x \<in> set ?xs. kv_key x + kv_len dtrange_len x \<le> kv_key ?new \<or> kv_key ?new + kv_len dtrange_len ?new \<le> kv_key x"
    using dis se(1) unfolding n(1) by simp
  from kv_dtrange.rle_insert_content[OF oks n(2) _ this] obtain ys where
    ys: "rle_insert kv_key (kv_len dtrange_len) (kv_can_append dtrange_len dtrange_can_append)
       (kv_append dtrange_append) (kv_prepend dtrange_prepend) ?xs ?new = Some ys" "seq_ok ys"
      "seq_map ys = seq_map ?xs \<union> new_pairs ?n s e"
    using n(1) se(1) new_pairs_run[OF se(1), of ?n] by auto
  have "merge_and_assign_nonoverlapping cg ps \<lparr>as_agent = a, as_seq = \<lparr>dt_start = s, dt_end = e\<rparr>\<rparr> =
      cg_extend cg (aa_record (cg_aa cg) a ys ?n \<lparr>as_agent = a, as_seq = \<lparr>dt_start = s, dt_end = e\<rparr>\<rparr>) ps
        \<lparr>dt_start = ?n, dt_end = ?n + (e - s)\<rparr>"
    using a gap ys(1) by (simp add: merge_and_assign_nonoverlapping_def Let_def as_len_def dtrange_len_def)
  then show ?thesis using cg_record_spec[OF ok a se(1) ys(2,3) ps] by auto
qed

section \<open>Agents\<close>

theorem cg_get_or_create_spec:
  assumes ok: "cg_ok cg" and n: "name \<noteq> ROOT_name" "length name < MAX_AGENT_NAME_LENGTH"
  shows "\<exists>cg' agent. cg_get_or_create_agent_id cg name = Some (cg', agent) \<and> cg_ok cg' \<and>
    cg_len cg' = cg_len cg \<and> assigned (cg_aa cg') = assigned (cg_aa cg) \<and>
    get_agent_id (cg_aa cg') name = Some agent"
  using get_or_create_agent_id_spec[OF cg_okD(1)[OF ok] n] ok
  by (auto simp: cg_get_or_create_agent_id_def cg_ok_def cg_len_def len_assignment_def)

section \<open>A sample\<close>

text \<open>Two agents write at the same time and the first one writes again after both.\<close>

definition sample_agents :: causal_graph where
  "sample_agents = fst (the (cg_get_or_create_agent_id
     (fst (the (cg_get_or_create_agent_id cg_new [0x73, 0x65, 0x70, 0x68]))) [0x6D, 0x69, 0x6B, 0x65]))"

definition sample_first :: causal_graph where
  "sample_first = fst (the (assign_local_op_with_parents sample_agents [] 0 3))"

definition sample_both :: causal_graph where
  "sample_both = fst (the (assign_local_op_with_parents sample_first [] 1 2))"

definition sample_cg :: causal_graph where
  "sample_cg = fst (the (assign_local_op sample_both 0 2))"

lemma sample_values:
  "map cd_name (aa_clients (cg_aa sample_agents)) = [[0x73, 0x65, 0x70, 0x68], [0x6D, 0x69, 0x6B, 0x65]]"
  "cg_len sample_agents = 0" "length (aa_clients (cg_aa sample_first)) = 2" "cg_len sample_first = 3"
  "length (aa_clients (cg_aa sample_both)) = 2" "cg_len sample_both = 5"
  "length (aa_clients (cg_aa sample_cg)) = 2" "cg_len sample_cg = 7" "cg_version sample_cg = [6]"
  "cd_lv (aa_clients (cg_aa sample_cg) ! 0) = [KVPair 0 (dtr 0 3), KVPair 3 (dtr 5 7)]"
  "cd_get_next_seq (aa_clients (cg_aa sample_cg) ! 1) = 2"
  by code_simp+

lemma sample_cg_ok: "cg_ok sample_agents" "cg_ok sample_first" "cg_ok sample_both" "cg_ok sample_cg"
proof -
  have a: "[0x73, 0x65, 0x70, 0x68] \<noteq> ROOT_name" "[0x6D, 0x69, 0x6B, 0x65] \<noteq> ROOT_name"
    "length [0x73, 0x65, 0x70, 0x68 :: u8] < MAX_AGENT_NAME_LENGTH"
    "length [0x6D, 0x69, 0x6B, 0x65 :: u8] < MAX_AGENT_NAME_LENGTH"
    by (simp_all add: ROOT_name_def MAX_AGENT_NAME_LENGTH_def)
  show 1: "cg_ok sample_agents"
    using cg_get_or_create_spec[OF cg_new_ok(1) a(1,3)] cg_get_or_create_spec[OF _ a(2,4)]
    unfolding sample_agents_def by (metis fst_conv option.sel)
  have l: "length (aa_clients (cg_aa sample_agents)) = 2" using arg_cong[OF sample_values(1), of length] by simp
  show 2: "cg_ok sample_first"
    using assign_local_op_with_parents_spec[OF 1, of 0 3 "[]"] l unfolding sample_first_def by force
  show 3: "cg_ok sample_both"
    using assign_local_op_with_parents_spec[OF 2, of 1 2 "[]"] sample_values(3) unfolding sample_both_def by force
  show "cg_ok sample_cg"
    using assign_local_op_spec[OF 3, of 0 2] sample_values(5) unfolding sample_cg_def by force
qed

lemma sample_known: "known sample_cg 0 q \<longleftrightarrow> q < 5"
  using sample_values(7) by (subst known_entry[OF sample_cg_ok(4)])
    (auto simp: sample_values(10) kv_len_def dtrange_len_def)

lemma sample_aa: "aa_ok (cg_aa sample_cg)" "aa_len (cg_aa sample_cg) = 7"
  using sample_cg_ok(4) sample_values(8) by (simp_all add: cg_ok_def cg_len_def len_assignment_def)

end
