(* ===== verification/GraphCheckFacts.thy ===== *)
theory GraphCheckFacts
  imports GraphExportFacts GraphConflictFacts CausalFacts
begin

text \<open>
  Every graph built by \<open>push\<close> passes the checker of \<open>graph/check.rs\<close>, in its strict form: packed
  from 0, fully merged, each shadow the one the checker recomputes from the parents, each list of
  child indices exactly the entries that name a version of this one as a parent.
  \<open>graph_built\<close> is the step relation; \<open>graph_linked\<close> is its invariant.
\<close>

inductive graph_built :: "graph \<Rightarrow> bool" where
  built_new: "graph_built graph_new"
| built_push: "graph_built g \<Longrightarrow> graph_push g ps rng = Some g' \<Longrightarrow> frontier_ok g ps \<Longrightarrow>
    dt_start rng = graph_next_time g \<Longrightarrow> dt_start rng < dt_end rng \<Longrightarrow> graph_built g'"

definition g_shadow :: "graph_entry list \<Rightarrow> lv \<Rightarrow> lv" where
  "g_shadow es v = ge_shadow (the (rv_find ge_key ge_len es v))"

text \<open>The checker's scan over the parents, without its assertions.\<close>

fun shadow_scan :: "(lv \<Rightarrow> lv) \<Rightarrow> lv list \<Rightarrow> lv \<Rightarrow> lv" where
  "shadow_scan sf [] sh = sh"
| "shadow_scan sf (p # ps) sh = shadow_scan sf ps (if p + 1 = sh then sf p else sh)"

lemma shadow_scan_stop: "\<forall>p \<in> set ps. p + 1 < sh \<Longrightarrow> shadow_scan sf ps sh = sh"
  by (induction ps) auto

lemma shadow_scan_cong: "\<forall>p \<in> set ps. sf p = sf' p \<Longrightarrow> shadow_scan sf ps sh = shadow_scan sf' ps sh"
  by (induction ps arbitrary: sh) auto

lemma push_shadow_scan:
  assumes g: "graph_wf g"
  shows "sorted_wrt (>) ps \<Longrightarrow> \<forall>p \<in> set qs. in_graph g p \<Longrightarrow> \<forall>p \<in> X. sh \<le> p \<Longrightarrow> set qs = X \<union> set ps \<Longrightarrow>
    push_shadow (g_entries g) qs sh = Some (shadow_scan (g_shadow (g_entries g)) ps sh)"
proof (induction ps arbitrary: sh X)
  case Nil
  then have "\<not> (sh \<ge> 1 \<and> sh - 1 \<in> set qs)" by fastforce
  then show ?case by (subst push_shadow.simps) (simp only: if_False shadow_scan.simps)
next
  case (Cons p ps)
  have s: "sorted_wrt (>) ps" "\<forall>q \<in> set ps. q < p" using Cons.prems(1) by auto
  have qs: "set qs = insert p X \<union> set ps" using Cons.prems(4) by auto
  consider (hit) "p + 1 = sh" | (above) "sh \<le> p" | (below) "p + 1 < sh" by linarith
  then show ?case
  proof cases
    case hit
    obtain e where e: "g_find g p = Some e" using Cons.prems(2,4) by (auto simp: in_graph_def)
    have le: "ge_shadow e \<le> p" using gdag.run_start[OF g find_run[OF e]] by simp
    have "\<forall>q \<in> insert p X. ge_shadow e \<le> q" using le Cons.prems(3) hit by fastforce
    from Cons.IH[OF s(1) Cons.prems(2) this qs]
    have "push_shadow (g_entries g) qs (ge_shadow e) =
        Some (shadow_scan (g_shadow (g_entries g)) ps (ge_shadow e))" .
    moreover have "push_shadow (g_entries g) qs sh = push_shadow (g_entries g) qs (ge_shadow e)"
    proof -
      have c: "1 \<le> sh" "sh - 1 = p" "p \<in> set qs" using hit qs by auto
      show ?thesis by (subst push_shadow.simps) (simp only: c simp_thms if_True e option.case)
    qed
    ultimately show ?thesis using hit e by (simp add: g_shadow_def[of _ p])
  next
    case above
    have "\<forall>q \<in> insert p X. sh \<le> q" using above Cons.prems(3) by auto
    from Cons.IH[OF s(1) Cons.prems(2) this qs] show ?thesis using above by simp
  next
    case below
    have "\<not> (sh \<ge> 1 \<and> sh - 1 \<in> set qs)" using below s(2) Cons.prems(3) unfolding qs by fastforce
    then have "push_shadow (g_entries g) qs sh = Some sh"
      by (subst push_shadow.simps) (simp only: if_False)
    moreover have "shadow_scan (g_shadow (g_entries g)) (p # ps) sh = sh"
      using below s(2) by (intro shadow_scan_stop) fastforce
    ultimately show ?thesis by simp
  qed
qed

subsection \<open>The invariant\<close>

definition child_of :: "graph_entry list \<Rightarrow> graph_entry \<Rightarrow> nat \<Rightarrow> bool" where
  "child_of es e j \<longleftrightarrow> j < length es \<and> (\<exists>p \<in> set (ge_parents (es ! j)). ge_contains e p)"

definition entry_linked :: "graph \<Rightarrow> graph_entry list \<Rightarrow> graph_entry \<Rightarrow> bool" where
  "entry_linked g es e \<longleftrightarrow>
     sorted_wrt (<) (ge_children e) \<and> set (ge_children e) = {j. child_of es e j} \<and>
     ge_shadow e = shadow_scan (g_shadow es) (rev (ge_parents e)) (ge_key e) \<and>
     dominators (vparents g) (set (ge_parents e)) = set (ge_parents e)"

definition graph_linked :: "graph \<Rightarrow> bool" where
  "graph_linked g \<longleftrightarrow> graph_checked g \<and> (\<forall>e \<in> set (g_entries g). entry_linked g (g_entries g) e) \<and>
     g_root_children g = root_indexes (g_entries g)"

lemma find_index_find:
  assumes "vec_ok key len valid es" "rv_find key len es p = Some e"
  obtains i where "find_index key len es p = Inr i" "i < length es" "es ! i = e"
  using assms by (cases "find_index key len es p") (auto simp: rv_find_def dest: find_index_ok_split)

lemma find_contains:
  assumes "graph_wf g" "g_find g p = Some e"
  shows "e \<in> set (g_entries g)" "ge_contains e p" "ge_key e \<le> p"
  using assms by (auto simp: g_find_Some ge_contains_def dtrange_contains_def ge_key_def ge_len_def span_defs)

lemma contains_find:
  assumes "graph_wf g" "e \<in> set (g_entries g)" "ge_contains e p"
  shows "g_find g p = Some e"
  using assms by (auto simp: g_find_Some ge_contains_def dtrange_contains_def ge_key_def ge_len_def span_defs)

lemma check_parents_scan:
  assumes g: "graph_wf g" and l: "\<forall>e \<in> set (g_entries g). entry_linked g (g_entries g) e"
    and idx: "idx < length (g_entries g)" "e = g_entries g ! idx"
    and ps: "set ps \<subseteq> set (ge_parents e)"
  shows "check_parents (g_entries g) False idx e ps sh = Some (shadow_scan (g_shadow (g_entries g)) ps sh)"
  using ps
proof (induction ps arbitrary: sh)
  case (Cons p ps)
  have e: "e \<in> set (g_entries g)" using idx by simp
  have p: "p < ge_key e" "in_graph g p"
    using graph_wfD(2)[OF g e] Cons.prems by (auto simp: entry_wf_def)
  obtain pe where pe: "g_find g p = Some pe" using p(2) by (auto simp: in_graph_def)
  obtain i where i: "find_index ge_key ge_len (g_entries g) p = Inr i" "i < length (g_entries g)" "g_entries g ! i = pe"
    using find_index_find[OF graph_wfD(1)[OF g] pe] by blast
  have "idx \<in> set (ge_children pe)"
    using l i(2,3) find_contains[OF g pe] idx Cons.prems
    by (auto simp: entry_linked_def child_of_def)
  then show ?case using i p(1) Cons pe by (simp add: Let_def ge_key_def g_shadow_def)
qed simp

lemma linked_checks:
  assumes l: "graph_linked g" and small: "graph_next_time g \<le> usize_max div 2"
  shows "graph_dbg_check g deep"
proof -
  have g: "graph_checked g" "graph_wf g" and el: "\<forall>e \<in> set (g_entries g). entry_linked g (g_entries g) e"
    using l by (auto simp: graph_linked_def graph_checked_def)
  let ?es = "g_entries g"
  have "drop i ?es = rest \<Longrightarrow> packed_from ge_key ge_len n rest \<Longrightarrow> check_entries g deep False True i n rest" for i n rest
  proof (induction rest arbitrary: i n)
    case (Cons e rest)
    have i: "i < length ?es" "e = ?es ! i" "drop (Suc i) ?es = rest"
    proof -
      show i: "i < length ?es" using Cons.prems(1) by (metis drop_all list.distinct(1) not_le_imp_less)
      show "e = ?es ! i" "drop (Suc i) ?es = rest" using Cons_nth_drop_Suc[OF i] Cons.prems(1) by auto
    qed
    have e: "e \<in> set ?es" "entry_linked g ?es e" using i el by auto
    have wf: "entry_wf g e" "dt_start (ge_span e) < dt_end (ge_span e)"
      using graph_wfD[OF g(2)] e(1) by (auto simp: vec_ok_def ge_len_def span_defs)
    have n: "n = ge_key e" "packed_from ge_key ge_len (dt_end (ge_span e)) rest"
    proof -
      have "span_end ge_key ge_len e = dt_end (ge_span e)"
        using wf(2) by (simp add: span_end_def ge_key_def ge_len_def span_defs)
      then show "n = ge_key e" "packed_from ge_key ge_len (dt_end (ge_span e)) rest"
        using Cons.prems(2) by simp_all
    qed
    have "check_parents ?es False i e (rev (ge_parents e)) n = Some (ge_shadow e)"
      using check_parents_scan[OF g(2) el i(1,2), of "rev (ge_parents e)" n] e(2) n(1)
      by (simp add: entry_linked_def)
    moreover have "ge_shadow e = n" if "ge_parents e = []"
      using e(2) that n(1) by (simp add: entry_linked_def)
    moreover have "\<exists>vs. find_dominators_full g (ge_parents e) = Some vs \<and> list_all snd vs"
    proof -
      have "\<forall>v \<in> set (ge_parents e). in_graph g v \<and> v < usize_max div 2"
        using wf(1) in_graph_below[OF g(2)] small by (fastforce simp: entry_wf_def)
      from find_dominators_full_internal_spec[OF g(2) this, of usize_max] obtain vs where
        vs: "find_dominators_full g (ge_parents e) = Some vs" "seen vs False = {}"
        using e(2) by (auto simp: find_dominators_full_def entry_linked_def)
      have "b" if "(a, b) \<in> set vs" for a b using vs(2) that by (cases b) (auto simp: seen_def)
      then have "list_all snd vs" by (auto simp: list_all_iff)
      then show ?thesis using vs(1) by blast
    qed
    moreover have "list_all (check_child ?es e) (ge_children e)" "is_sorted_slice True (ge_children e)"
      using e(2) frontier_is_sorted_iff[of "ge_children e"]
      by (auto simp: entry_linked_def child_of_def list_all_iff list_ex_iff frontier_is_sorted_def)
    ultimately show ?case
      using wf(2) Cons.IH[OF i(3) n(2)] by auto
  qed simp
  then show ?thesis
    using g(1) l by (simp add: graph_dbg_check_def graph_dbg_check_internal_def graph_checked_def
        graph_linked_def check_packed_from_0_def)
qed

subsection \<open>push keeps it\<close>

text \<open>What an old entry keeps: everything but the end of its span and its children.\<close>

definition same_entry :: "nat \<Rightarrow> graph_entry \<Rightarrow> graph_entry \<Rightarrow> bool" where
  "same_entry n e' e \<longleftrightarrow> ge_key e' = ge_key e \<and> ge_shadow e' = ge_shadow e \<and> ge_parents e' = ge_parents e \<and>
     (\<forall>p < n. ge_contains e' p = ge_contains e p)"

lemma same_entry_refl [simp]: "same_entry n e e"
  by (simp add: same_entry_def)

lemma push_children_spec:
  assumes "vec_ok ge_key ge_len valid es" "\<forall>p \<in> set ps. rv_find ge_key ge_len es p \<noteq> None"
    and valid: "\<And>e c. valid (e\<lparr>ge_children := c\<rparr>) = valid e"
  shows "\<exists>es'. push_children n ps es = Some es' \<and> length es' = length es \<and>
    (\<forall>i < length es. es' ! i = (es ! i)\<lparr>ge_children :=
       ge_children (es ! i) @ map (\<lambda>_. n) (filter (\<lambda>p. ge_key (es ! i) \<le> p \<and> p < ge_key (es ! i) + ge_len (es ! i)) ps)\<rparr>)"
  using assms(1,2)
proof (induction ps arbitrary: es)
  case (Cons p ps)
  obtain e where "rv_find ge_key ge_len es p = Some e" using Cons.prems(2) by auto
  then obtain i where i: "find_index ge_key ge_len es p = Inr i" "i < length es"
    using find_index_find[OF Cons.prems(1)] by blast
  let ?h = "\<lambda>e. e\<lparr>ge_children := ge_children e @ [n]\<rparr>"
  let ?es = "es[i := ?h (es ! i)]"
  have kl: "ge_key (?h e) = ge_key e" "ge_len (?h e) = ge_len e" for e by (simp_all add: ge_key_def ge_len_def)
  have nth: "ge_key (?es ! j) = ge_key (es ! j)" "ge_len (?es ! j) = ge_len (es ! j)"
    "valid (?es ! j) = valid (es ! j)" if "j < length es" for j
    using that kl valid i(2) by (simp_all add: nth_list_update)
  have ok: "vec_ok ge_key ge_len valid ?es"
    using Cons.prems(1) nth
    by (auto simp: vec_ok_def span_sorted_def sorted_wrt_iff_nth_less all_set_conv_all_nth)
  have "\<forall>q \<in> set ps. rv_find ge_key ge_len ?es q \<noteq> None"
  proof
    fix q assume "q \<in> set ps"
    then have "rv_find ge_key ge_len es q \<noteq> None" using Cons.prems(2) by simp
    then show "rv_find ge_key ge_len ?es q \<noteq> None"
      unfolding rv_find_None[OF ok] rv_find_None[OF Cons.prems(1)] all_set_conv_all_nth
      using nth by auto
  qed
  from Cons.IH[OF ok this] obtain es' where es': "push_children n ps ?es = Some es'" "length es' = length es"
      "\<forall>j < length es. es' ! j = (?es ! j)\<lparr>ge_children := ge_children (?es ! j) @
         map (\<lambda>_. n) (filter (\<lambda>p. ge_key (es ! j) \<le> p \<and> p < ge_key (es ! j) + ge_len (es ! j)) ps)\<rparr>"
    using nth by auto
  have own: "(ge_key (es ! j) \<le> p \<and> p < ge_key (es ! j) + ge_len (es ! j)) = (j = i)" if j: "j < length es" for j
  proof -
    note s = find_index_ok_split[OF Cons.prems(1) i(1)]
    consider "j < i" | "j = i" | "i < j" by linarith
    then show ?thesis
    proof cases
      case 1
      then have "es ! j \<in> set (take i es)" using j i(2) by (metis in_set_conv_nth length_take min.absorb2 nth_take less_imp_le)
      then show ?thesis using s(3,4,5) 1 by fastforce
    next
      case 2
      then show ?thesis using s(3,4) by simp
    next
      case 3
      then have "es ! j \<in> set (drop (Suc i) es)"
        using j 3 by (auto simp: in_set_conv_nth intro!: exI[of _ "j - Suc i"])
      then show ?thesis using s(4,6) 3 by fastforce
    qed
  qed
  show ?case
    using es' i own by (intro exI[of _ es']) (auto simp: nth_list_update)
qed simp

lemma old_find:
  assumes "graph_wf g" "graph_wf g'" "i < length (g_entries g)" "i < length (g_entries g')"
    "same_entry n (g_entries g' ! i) (g_entries g ! i)" "ge_contains (g_entries g ! i) p" "p < n"
  shows "g_find g p = Some (g_entries g ! i)" "g_find g' p = Some (g_entries g' ! i)"
  using assms by (auto intro!: contains_find simp: same_entry_def)

text \<open>The invariant of the old entries, in the new graph.\<close>

lemma linked_old:
  assumes l: "graph_linked g" and g': "graph_wf g'"
    and len: "length (g_entries g) \<le> length (g_entries g')"
    and same: "\<forall>i < length (g_entries g). same_entry (graph_next_time g) (g_entries g' ! i) (g_entries g ! i)"
    and vp: "\<forall>v < graph_next_time g. vparents g' v = vparents g v"
    and i: "i < length (g_entries g)"
  shows "ge_shadow (g_entries g' ! i) =
      shadow_scan (g_shadow (g_entries g')) (rev (ge_parents (g_entries g' ! i))) (ge_key (g_entries g' ! i))"
    "dominators (vparents g') (set (ge_parents (g_entries g' ! i))) = set (ge_parents (g_entries g' ! i))"
    "\<And>j. j < length (g_entries g) \<Longrightarrow>
       child_of (g_entries g') (g_entries g' ! i) j = child_of (g_entries g) (g_entries g ! i) j"
proof -
  let ?n = "graph_next_time g"
  have g: "graph_wf g" using l by (simp add: graph_linked_def graph_checked_def)
  have e: "entry_linked g (g_entries g) (g_entries g ! i)" using l i by (simp add: graph_linked_def)
  have low: "p < ?n \<and> in_graph g p" if "p \<in> set (ge_parents (g_entries g ! j))" "j < length (g_entries g)" for p j
    using graph_wfD(2)[OF g nth_mem[OF that(2)]] that(1) in_graph_below[OF g] by (auto simp: entry_wf_def)
  have sh: "g_shadow (g_entries g') p = g_shadow (g_entries g) p" if "in_graph g p" for p
  proof -
    obtain pe where pe: "g_find g p = Some pe" using \<open>in_graph g p\<close> by (auto simp: in_graph_def)
    obtain j where j: "j < length (g_entries g)" "g_entries g ! j = pe"
      using find_contains(1)[OF g pe] by (metis in_set_conv_nth)
    have "same_entry ?n (g_entries g' ! j) (g_entries g ! j)" using same j(1) by blast
    from old_find[OF g g' j(1) order_less_le_trans[OF j(1) len] this] find_contains(2)[OF g pe]
      in_graph_below[OF g \<open>in_graph g p\<close>] this
    show ?thesis by (simp add: g_shadow_def j(2) same_entry_def)
  qed
  have s: "same_entry ?n (g_entries g' ! i) (g_entries g ! i)" using same i by blast
  show "ge_shadow (g_entries g' ! i) =
      shadow_scan (g_shadow (g_entries g')) (rev (ge_parents (g_entries g' ! i))) (ge_key (g_entries g' ! i))"
    using e s sh low[OF _ i]
      shadow_scan_cong[of "rev (ge_parents (g_entries g ! i))" "g_shadow (g_entries g')" "g_shadow (g_entries g)"]
    by (simp add: entry_linked_def same_entry_def)
  have "anc (vparents g') v w = ganc g v w" if "w < ?n" for v w
    using that vp gdag.parents_less[OF g] by (intro anc_cong) auto
  then have "dominators (vparents g') S = dominators (vparents g) S" if "\<forall>v \<in> S. v < ?n" for S
    using that by (auto simp: dominators_def)
  then show "dominators (vparents g') (set (ge_parents (g_entries g' ! i))) = set (ge_parents (g_entries g' ! i))"
    using e s low[OF _ i] by (simp add: entry_linked_def same_entry_def)
  show "child_of (g_entries g') (g_entries g' ! i) j = child_of (g_entries g) (g_entries g ! i) j"
    if j: "j < length (g_entries g)" for j
  proof -
    have "same_entry ?n (g_entries g' ! j) (g_entries g ! j)" using same j by blast
    then have p: "ge_parents (g_entries g' ! j) = ge_parents (g_entries g ! j)" by (simp add: same_entry_def)
    have "ge_contains (g_entries g' ! i) p = ge_contains (g_entries g ! i) p"
      if "p \<in> set (ge_parents (g_entries g ! j))" for p
      using s low[OF that j] by (simp add: same_entry_def)
    then show ?thesis using j len by (auto simp: child_of_def p)
  qed
qed

lemma root_indexes_cong: "map ge_parents es = map ge_parents es' \<Longrightarrow> root_indexes es = root_indexes es'"
proof -
  have f: "filter (\<lambda>(i, e). ge_parents e = []) (enumerate n es) =
      map (\<lambda>i. (i, es ! (i - n))) (filter (\<lambda>i. ge_parents (es ! (i - n)) = []) [n ..< n + length es])" for n es
  proof (induction es arbitrary: n rule: rev_induct)
    case (snoc x es)
    have "filter (\<lambda>i. ge_parents ((es @ [x]) ! (i - n)) = []) [n ..< n + length es] =
        filter (\<lambda>i. ge_parents (es ! (i - n)) = []) [n ..< n + length es]"
      by (rule filter_cong) (auto simp: nth_append)
    then show ?case using snoc by (auto simp: enumerate_append_eq nth_append)
  qed simp
  assume eq: "map ge_parents es = map ge_parents es'"
  then have l: "length es = length es'" by (metis length_map)
  have "ge_parents (es ! i) = ge_parents (es' ! i)" if "i < length es" for i
    using eq that l by (metis nth_map)
  then show "root_indexes es = root_indexes es'"
    unfolding root_indexes_def f[of 0] using l by (auto simp: comp_def intro: filter_cong)
qed

lemma root_indexes_snoc:
  "root_indexes (es @ [x]) = root_indexes es @ (if ge_parents x = [] then [length es] else [])"
  by (simp add: root_indexes_def enumerate_append_eq)

text \<open>Case one: the last entry grows.\<close>

lemma linked_extend:
  assumes l: "graph_linked g" and g': "graph_checked g'"
    and es: "g_entries g = es @ [z]" "g_entries g' = es @ [z\<lparr>ge_span := ge_span z\<lparr>dt_end := m\<rparr>\<rparr>]"
    and m: "dt_end (ge_span z) = graph_next_time g" "graph_next_time g \<le> m"
    and r: "g_root_children g' = g_root_children g"
    and vp: "\<forall>v < graph_next_time g. vparents g' v = vparents g v"
  shows "graph_linked g'"
proof -
  let ?n = "graph_next_time g" and ?es = "g_entries g" and ?es' = "g_entries g'"
  have same: "\<forall>i < length ?es. same_entry ?n (?es' ! i) (?es ! i) \<and> ge_children (?es' ! i) = ge_children (?es ! i)"
    using m by (auto simp: es nth_append same_entry_def ge_key_def ge_contains_def dtrange_contains_def less_Suc_eq)
  have len: "length ?es \<le> length ?es'" "length ?es' = length ?es" by (simp_all add: es)
  have g'wf: "graph_wf g'" using g' by (simp add: graph_checked_def)
  have "entry_linked g' ?es' (?es' ! i)" if i: "i < length ?es" for i
  proof -
    note old = linked_old[OF l g'wf len(1) _ vp i]
    have sm: "\<forall>i < length ?es. same_entry ?n (?es' ! i) (?es ! i)" using same by blast
    have "entry_linked g ?es (?es ! i)" using l i by (simp add: graph_linked_def)
    moreover have "{j. child_of ?es' (?es' ! i) j} = {j. child_of ?es (?es ! i) j}"
      using old(3)[OF sm] len(2) by (auto simp: child_of_def)
    ultimately show ?thesis using old(1,2)[OF sm] same i by (simp add: entry_linked_def)
  qed
  then have "\<forall>e \<in> set ?es'. entry_linked g' ?es' e" unfolding all_set_conv_all_nth len(2) by blast
  moreover have "root_indexes ?es' = root_indexes ?es" by (rule root_indexes_cong) (simp add: es)
  ultimately show ?thesis using g' l r by (simp add: graph_linked_def)
qed

text \<open>Case two: a new entry.\<close>

lemma antichain_one_per_run:
  assumes g: "graph_wf g" and ps: "frontier_ok g ps" and e: "e \<in> set (g_entries g)"
  shows "length (filter (\<lambda>p. ge_key e \<le> p \<and> p < ge_key e + ge_len e) ps) \<le> 1"
proof (rule ccontr)
  let ?f = "filter (\<lambda>p. ge_key e \<le> p \<and> p < ge_key e + ge_len e) ps"
  assume "\<not> length ?f \<le> 1"
  then obtain p q rest where f: "?f = p # q # rest" by (cases ?f rule: remdups_adj.cases) auto
  have s: "sorted_wrt (<) ?f" using ps by (simp add: frontier_ok_def sorted_wrt_filter)
  have "p \<in> set ?f" "q \<in> set ?f" unfolding f by simp_all
  then have pq: "p \<in> set ps" "q \<in> set ps" "ge_key e \<le> p" "q < ge_key e + ge_len e" by simp_all
  have "p < q" using s unfolding f by simp
  note pq = pq(1,2) this pq(3,4)
  have "g_find g q = Some e" using pq e by (simp add: g_find_Some[OF g])
  then have "ganc g p q" using ganc_in_run[OF g _ pq(4)] pq(3) by simp
  then have "p \<notin> dominators (vparents g) (set ps)" using pq by (auto simp: dominators_def)
  then show False using ps pq(1) by (simp add: frontier_ok_def)
qed

lemma linked_append:
  assumes l: "graph_linked g" and g': "graph_checked g'"
    and es: "g_entries g' = es1 @ [x]" "length es1 = length (g_entries g)"
    and ch: "\<forall>i < length (g_entries g). es1 ! i = (g_entries g ! i)\<lparr>ge_children := ge_children (g_entries g ! i) @
       map (\<lambda>_. length (g_entries g)) (filter (\<lambda>p. ge_key (g_entries g ! i) \<le> p \<and>
         p < ge_key (g_entries g ! i) + ge_len (g_entries g ! i)) ps)\<rparr>"
    and x: "x = \<lparr>ge_span = rng, ge_shadow = sh, ge_parents = ps, ge_children = []\<rparr>"
    and rng: "dt_start rng = graph_next_time g" and ps: "frontier_ok g ps"
    and sh: "push_shadow (g_entries g) ps (dt_start rng) = Some sh"
    and r: "g_root_children g' = (if ps = [] then g_root_children g @ [length (g_entries g)] else g_root_children g)"
    and vp: "\<forall>v < graph_next_time g. vparents g' v = vparents g v"
  shows "graph_linked g'"
proof -
  let ?n = "graph_next_time g" and ?es = "g_entries g" and ?es' = "g_entries g'"
  let ?N = "length ?es"
  let ?in = "\<lambda>e p. ge_key e \<le> p \<and> p < ge_key e + ge_len e"
  have wf: "graph_wf g" "graph_wf g'" using g' l by (simp_all add: graph_checked_def graph_linked_def)
  have nth: "?es' ! i = (?es ! i)\<lparr>ge_children := ge_children (?es ! i) @ map (\<lambda>_. ?N) (filter (?in (?es ! i)) ps)\<rparr>"
    if "i < ?N" for i using that ch by (simp add: es nth_append)
  have lst: "?es' ! ?N = x" "length ?es' = Suc ?N" by (simp_all add: es nth_append)
  have same: "\<forall>i < ?N. same_entry ?n (?es' ! i) (?es ! i)"
    using nth by (auto simp: same_entry_def ge_key_def ge_contains_def)
  have pn: "p < ?n" "in_graph g p" if "p \<in> set ps" for p
    using ps that in_graph_below[OF wf(1)] by (auto simp: frontier_ok_def)
  have contains: "ge_contains e p \<longleftrightarrow> ?in e p" if "e \<in> set ?es" for e p
    using graph_wfD(1)[OF wf(1)] that
    by (auto simp: ge_contains_def dtrange_contains_def ge_key_def ge_len_def span_defs vec_ok_def)
  have old: "entry_linked g' ?es' (?es' ! i)" if i: "i < ?N" for i
  proof -
    note o = linked_old[OF l wf(2) _ same vp i]
    have e: "?es ! i \<in> set ?es" "entry_linked g ?es (?es ! i)" using l i by (simp_all add: graph_linked_def)
    have one: "length (filter (?in (?es ! i)) ps) \<le> 1" by (rule antichain_one_per_run[OF wf(1) ps e(1)])
    have c: "ge_children (?es' ! i) = ge_children (?es ! i) @ (if filter (?in (?es ! i)) ps = [] then [] else [?N])"
      using one by (cases "filter (?in (?es ! i)) ps") (auto simp: nth[OF i])
    have lt: "\<forall>j \<in> set (ge_children (?es ! i)). j < ?N" using e(2) by (auto simp: entry_linked_def child_of_def)
    have new: "child_of ?es' (?es' ! i) ?N \<longleftrightarrow> filter (?in (?es ! i)) ps \<noteq> []"
    proof -
      have "child_of ?es' (?es' ! i) ?N \<longleftrightarrow> (\<exists>p \<in> set ps. ge_contains (?es' ! i) p)"
        using lst by (simp add: child_of_def x)
      also have "\<dots> \<longleftrightarrow> (\<exists>p \<in> set ps. ?in (?es ! i) p)"
        using same i pn contains[OF e(1)] by (auto simp: same_entry_def)
      finally show ?thesis by (auto simp: filter_empty_conv)
    qed
    have len: "?N \<le> length ?es'" using lst by simp
    have "child_of ?es' (?es' ! i) j \<longleftrightarrow> j < ?N \<and> child_of ?es (?es ! i) j \<or> j = ?N \<and> filter (?in (?es ! i)) ps \<noteq> []" for j
    proof (cases "j < ?N")
      case True
      then show ?thesis using o(3)[OF len] by simp
    next
      case False
      show ?thesis
      proof (cases "j = ?N")
        case True
        then show ?thesis using new by simp
      next
        case False
        then have "\<not> child_of ?es' (?es' ! i) j" using \<open>\<not> j < ?N\<close> lst(2) by (simp add: child_of_def)
        then show ?thesis using False \<open>\<not> j < ?N\<close> by simp
      qed
    qed
    then have "{j. child_of ?es' (?es' ! i) j} = set (ge_children (?es' ! i))"
      using e(2) lt unfolding c by (auto simp: entry_linked_def)
    moreover have "sorted_wrt (<) (ge_children (?es' ! i))"
      unfolding c using e(2) lt by (auto simp: entry_linked_def sorted_wrt_append)
    ultimately show ?thesis using o(1,2)[OF len] by (simp add: entry_linked_def)
  qed
  have "entry_linked g' ?es' x"
    unfolding entry_linked_def
  proof (intro conjI)
    show "sorted_wrt (<) (ge_children x)" by (simp add: x)
    have "\<not> ge_contains x p" if "p < ?n" for p
      using that rng by (simp add: x ge_contains_def dtrange_contains_def)
    moreover have "p < ?n" if "p \<in> set (ge_parents (?es' ! j))" "j < length ?es'" for p j
    proof (cases "j < ?N")
      case True
      have "p \<in> set (ge_parents (?es ! j))" using that(1) nth[OF True] by simp
      then show ?thesis
        using graph_wfD(2)[OF wf(1) nth_mem[OF True]] in_graph_below[OF wf(1)] by (auto simp: entry_wf_def)
    next
      case False
      then have "j = ?N" using that(2) lst(2) by simp
      then show ?thesis using that(1) pn lst(1) by (simp add: x)
    qed
    ultimately show "set (ge_children x) = {j. child_of ?es' x j}" by (auto simp: x child_of_def)
    have sf: "g_shadow ?es' p = g_shadow ?es p" if p: "p \<in> set ps" for p
    proof -
      obtain pe where pe: "g_find g p = Some pe" using pn(2)[OF p] by (auto simp: in_graph_def)
      obtain j where j: "j < ?N" "?es ! j = pe" using find_contains(1)[OF wf(1) pe] by (metis in_set_conv_nth)
      have "j < length ?es'" "same_entry ?n (?es' ! j) (?es ! j)" using j(1) lst(2) same by simp_all
      from old_find[OF wf j(1) this] find_contains(2)[OF wf(1) pe] pn(1)[OF p] this(2)
      show ?thesis by (simp add: g_shadow_def j(2) same_entry_def)
    qed
    have "sorted_wrt (>) (rev ps)" using ps by (simp add: frontier_ok_def sorted_wrt_rev)
    then have "push_shadow ?es ps (dt_start rng) = Some (shadow_scan (g_shadow ?es) (rev ps) (dt_start rng))"
    proof (rule push_shadow_scan[OF wf(1)])
      show "\<forall>p \<in> set ps. in_graph g p" using pn(2) by blast
      show "\<forall>p \<in> {}. dt_start rng \<le> p" "set ps = {} \<union> set (rev ps)" by simp_all
    qed
    then have "sh = shadow_scan (g_shadow ?es) (rev ps) (dt_start rng)" unfolding sh option.inject .
    then show "ge_shadow x = shadow_scan (g_shadow ?es') (rev (ge_parents x)) (ge_key x)"
      using sf shadow_scan_cong[of "rev ps" "g_shadow ?es'" "g_shadow ?es"] by (simp add: x ge_key_def)
    have "anc (vparents g') v w = ganc g v w" if "w < ?n" for v w
      using that vp gdag.parents_less[OF wf(1)] by (intro anc_cong) auto
    then have "dominators (vparents g') (set ps) = dominators (vparents g) (set ps)"
      using pn(1) by (auto simp: dominators_def)
    then show "dominators (vparents g') (set (ge_parents x)) = set (ge_parents x)"
      using ps by (simp add: frontier_ok_def x)
  qed
  then have "entry_linked g' ?es' (?es' ! i)" if "i < length ?es'" for i
    using old[of i] lst that by (cases "i = ?N") auto
  then have "\<forall>e \<in> set ?es'. entry_linked g' ?es' e" unfolding all_set_conv_all_nth by blast
  moreover have "root_indexes ?es' = g_root_children g'"
  proof -
    have "root_indexes es1 = root_indexes ?es"
      by (rule root_indexes_cong, rule nth_equalityI) (use es(2) ch in simp_all)
    then show ?thesis using l es(2) unfolding es(1) root_indexes_snoc by (simp add: graph_linked_def r x)
  qed
  ultimately show ?thesis using g' by (simp add: graph_linked_def)
qed

lemma push_linked:
  assumes l: "graph_linked g" and ps: "frontier_ok g ps"
    and rng: "dt_start rng = graph_next_time g" "dt_start rng < dt_end rng"
    and push: "graph_push g ps rng = Some g'"
  shows "graph_linked g'"
proof -
  have g: "graph_checked g" "graph_wf g" using l by (simp_all add: graph_linked_def graph_checked_def)
  have pp: "sorted_wrt (<) ps" "\<forall>p \<in> set ps. in_graph g p" using ps by (simp_all add: frontier_ok_def)
  from graph_push_spec[OF g(2) _ rng(2) pp] rng(1) push g(1)
  have g': "graph_checked g'" "\<forall>v < graph_next_time g. vparents g' v = vparents g v"
    by (auto simp: dtrange_contains_def)
  show ?thesis
  proof (cases "g_entries g \<noteq> [] \<and> length ps = 1 \<and> ps ! 0 = ge_last_time (last (g_entries g)) \<and>
      dtrange_can_append (ge_span (last (g_entries g))) rng")
    case True
    then obtain es z where es: "g_entries g = es @ [z]" by (cases "g_entries g" rule: rev_cases) auto
    have r: "dt_start rng = dt_end (ge_span z)" using True es by (simp add: dtrange_can_append_def)
    have "g' = g\<lparr>g_entries := es @ [z\<lparr>ge_span := ge_span z\<lparr>dt_end := dt_end rng\<rparr>\<rparr>]\<rparr>"
      using push True es by (auto simp: graph_push_def dtrange_append_def)
    then show ?thesis
      using linked_extend[OF l g'(1) es _ _ _ _ g'(2)] r rng by simp
  next
    case False
    obtain sh where sh: "push_shadow (g_entries g) ps (dt_start rng) = Some sh"
      using push_shadow_correct[OF g(2) pp(2)] by blast
    define x where "x = \<lparr>ge_span = rng, ge_shadow = sh, ge_parents = ps, ge_children = []\<rparr>"
    have found: "\<forall>p \<in> set ps. rv_find ge_key ge_len (g_entries g) p \<noteq> None" using pp(2) by (auto simp: in_graph_def)
    obtain es where es: "push_children (length (g_entries g)) ps (g_entries g) = Some es"
        "length es = length (g_entries g)"
        "\<forall>i < length (g_entries g). es ! i = (g_entries g ! i)\<lparr>ge_children := ge_children (g_entries g ! i) @
           map (\<lambda>_. length (g_entries g)) (filter (\<lambda>p. ge_key (g_entries g ! i) \<le> p \<and>
             p < ge_key (g_entries g ! i) + ge_len (g_entries g ! i)) ps)\<rparr>"
      using push_children_spec[OF graph_wfD(1)[OF g(2)] found, of "length (g_entries g)"] by auto
    have nomerge: "\<not> ge_can_append (last es) x" if "es \<noteq> []"
    proof -
      have i: "length es - 1 < length (g_entries g)" using that es(2) by (cases es) auto
      have "ge_span (es ! (length es - 1)) = ge_span (g_entries g ! (length es - 1))"
        unfolding es(3)[rule_format, OF i] by simp
      then have "ge_span (last es) = ge_span (last (g_entries g))"
        using that es(2) by (cases "g_entries g") (auto simp: last_conv_nth)
      then show ?thesis using False that es(2) by (auto simp: ge_can_append_def x_def ge_last_time_def)
    qed
    have nomerge0: "\<not> ge_can_append (last (g_entries g)) x" if "g_entries g \<noteq> []"
      using False that by (auto simp: ge_can_append_def x_def ge_last_time_def)
    show ?thesis
    proof (cases "ps = []")
      case True
      then have "g' = \<lparr>g_entries = g_entries g @ [x], g_root_children = g_root_children g @ [length (g_entries g)]\<rparr>"
        using push False sh nomerge0 by (auto simp: graph_push_def Let_def rv_push_def push_rle_def x_def)
      then show ?thesis
        using linked_append[OF l g'(1) _ refl _ x_def rng(1) ps sh _ g'(2)] True by simp
    next
      case ne: False
      then have "g' = g\<lparr>g_entries := es @ [x]\<rparr>"
        using push False sh nomerge es(1) by (auto simp: graph_push_def Let_def rv_push_def push_rle_def x_def)
      then show ?thesis
        using linked_append[OF l g'(1) _ es(2,3) x_def rng(1) ps sh _ g'(2)] ne by simp
    qed
  qed
qed

lemma built_linked: "graph_built g \<Longrightarrow> graph_linked g"
proof (induction rule: graph_built.induct)
  case built_new
  show ?case using graph_new_checked(1) by (simp add: graph_linked_def graph_new_def root_indexes_def)
next
  case (built_push g ps rng g')
  then show ?case using push_linked by blast
qed

lemma built_checks:
  "graph_built g \<Longrightarrow> graph_next_time g \<le> usize_max div 2 \<Longrightarrow> graph_dbg_check g deep"
  using built_linked linked_checks by blast

end
