(* ===== verification/GraphProject.thy ===== *)
theory GraphProject
  imports GraphConflictFacts
begin

text \<open>
  \<open>project_onto_subgraph\<close> of \<open>src/causalgraph/graph/subgraph.rs\<close>: the frontier, within a set of
  versions given as runs, of what a frontier contains.  The queue holds numbers: \<open>2 v + 1\<close> for an
  active version, \<open>2 v\<close> for one below a version that is already in the result; the shift loses the top bit
  of a version beyond half of the numbers of the machine.
  The runs of the filter come in descending order, merged by \<open>merge_spans_rev\<close>.
\<close>

record sub_filter =
  sf_iter :: "dtrange list"
  sf_current :: "dtrange option"

definition filter_new :: "dtrange list \<Rightarrow> sub_filter" where
  "filter_new iter =
     (case merge_spans_rev dtrange_can_append dtrange_append dtrange_prepend iter of
        [] \<Rightarrow> \<lparr>sf_iter = [], sf_current = None\<rparr>
      | first # iter \<Rightarrow> \<lparr>sf_iter = iter, sf_current = Some first\<rparr>)"

function scan_until_start_below :: "sub_filter \<Rightarrow> lv \<Rightarrow> sub_filter \<times> dtrange option" where
  "scan_until_start_below self v =
     (case sf_current self of
        None \<Rightarrow> (self, None)
      | Some c \<Rightarrow>
          if dt_start c > v
          then (case sf_iter self of
                  [] \<Rightarrow> scan_until_start_below (self\<lparr>sf_current := None\<rparr>) v
                | c' # iter \<Rightarrow> scan_until_start_below \<lparr>sf_iter = iter, sf_current = Some c'\<rparr> v)
          else (self, Some c))"
  by pat_completeness auto
termination
  by (relation "measure (\<lambda>(self, v). length (sf_iter self) + (if sf_current self = None then 0 else 1))") auto

declare scan_until_start_below.simps [simp del]

definition proj_dec :: "nat \<Rightarrow> bool \<times> lv" where
  "proj_dec v_enc = (v_enc mod 2 = 1, v_enc div 2)"

definition proj_enc :: "bool \<Rightarrow> lv \<Rightarrow> nat" where
  "proj_enc active v = (2 * v) mod (usize_max + 1) + (if active then 1 else 0)"

fun proj_in_run :: "lv \<Rightarrow> lv \<Rightarrow> bool \<Rightarrow> nat \<Rightarrow> nat list \<Rightarrow> bool \<times> nat \<times> nat list" where
  "proj_in_run start mark_v mark_active num_active [] = (mark_active, num_active, [])"
| "proj_in_run start mark_v mark_active num_active (peek_vv # queue) =
     (let (peek_active, peek_v) = proj_dec peek_vv
      in if peek_v \<ge> start
         then proj_in_run start mark_v
                (if peek_v \<ge> mark_v \<and> \<not> peek_active then False else mark_active)
                (if peek_active then num_active - 1 else num_active) queue
         else (mark_active, num_active, peek_vv # queue))"

partial_function (option) proj_loop :: "graph \<Rightarrow> sub_filter \<Rightarrow> nat list \<Rightarrow> nat \<Rightarrow> lv list option" where
  [code]: "proj_loop g filter_iter queue num_active =
     (case heap_pop queue of
        None \<Rightarrow> Some []
      | Some (vv, queue) \<Rightarrow>
          let (mark_active, v) = proj_dec vv;
              num_active = (if mark_active then num_active - 1 else num_active)
          in case g_find_packed g v of
               None \<Rightarrow> None
             | Some txn \<Rightarrow>
                 (let (filter_iter, current) = scan_until_start_below filter_iter v
                  in case current of
                       None \<Rightarrow> Some []
                     | Some flt \<Rightarrow>
                         let mark_v = min v (dt_end flt - 1);
                             start = dt_start (ge_span txn);
                             (mark_active, num_active, queue) =
                               proj_in_run start mark_v mark_active num_active queue;
                             marks = (dt_end flt > start \<and> mark_active);
                             found = (if marks then [mark_v] else []);
                             mark_active = (mark_active \<and> \<not> marks);
                             num_active = (if mark_active then num_active + length (ge_parents txn) else num_active)
                         in if \<not> mark_active \<and> num_active = 0 then Some found
                            else Option.bind
                              (proj_loop g filter_iter
                                (heap_extend (map (proj_enc mark_active) (ge_parents txn)) queue) num_active)
                              (\<lambda>rest. Some (found @ rest))))"

definition project_onto_subgraph_raw :: "graph \<Rightarrow> dtrange list \<Rightarrow> lv list \<Rightarrow> frontier option" where
  "project_onto_subgraph_raw g rev_filter_iter frontier =
     (if frontier = [] then Some []
      else map_option rev
        (proj_loop g (filter_new rev_filter_iter) (heap_extend (map (proj_enc True) frontier) [])
          (length frontier)))"

definition project_onto_subgraph :: "graph \<Rightarrow> dtrange list \<Rightarrow> lv list \<Rightarrow> frontier option" where
  "project_onto_subgraph g flt frontier = project_onto_subgraph_raw g (rev flt) frontier"

section \<open>The filter\<close>

definition filter_runs :: "sub_filter \<Rightarrow> dtrange list" where
  "filter_runs f = (case sf_current f of None \<Rightarrow> [] | Some c \<Rightarrow> c # sf_iter f)"

definition runs_desc :: "dtrange list \<Rightarrow> bool" where
  "runs_desc xs \<longleftrightarrow> sorted_wrt (\<lambda>x y. dt_end y \<le> dt_start x) xs \<and> (\<forall>x \<in> set xs. dt_start x < dt_end x)"

lemma runs_desc_simps [simp]:
  "runs_desc []"
  "runs_desc (x # xs) \<longleftrightarrow> dt_start x < dt_end x \<and> (\<forall>y \<in> set xs. dt_end y \<le> dt_start x) \<and> runs_desc xs"
  by (auto simp: runs_desc_def)

lemma merge_absorb_runs:
  assumes "merge_absorb dtrange_can_append dtrange_append dtrange_prepend False v xs = (v', nx, xs')"
    and "runs_desc (v # xs)"
  shows "runs_desc (v' # (case nx of None \<Rightarrow> [] | Some x \<Rightarrow> [x]) @ xs') \<and> dt_end v' = dt_end v \<and>
    dt_set (v' # (case nx of None \<Rightarrow> [] | Some x \<Rightarrow> [x]) @ xs') = dt_set (v # xs)"
  using assms
proof (induction xs arbitrary: v)
  case (Cons x xs)
  show ?case
  proof (cases "dtrange_can_append x v")
    case True
    let ?v = "dtrange_prepend v x"
    have r: "merge_absorb dtrange_can_append dtrange_append dtrange_prepend False ?v xs = (v', nx, xs')"
      using Cons.prems(1) True by simp
    have v: "dt_start ?v = dt_start x" "dt_end ?v = dt_end v" by (simp_all add: dtrange_prepend_def)
    have d: "runs_desc (?v # xs)" using Cons.prems(2) v by auto
    have "{dt_start ?v ..< dt_end ?v} = {dt_start v ..< dt_end v} \<union> {dt_start x ..< dt_end x}"
      using True Cons.prems(2) unfolding v by (auto simp: dtrange_can_append_def)
    then have "dt_set (?v # xs) = dt_set (v # x # xs)" by (simp add: Un_assoc)
    then show ?thesis using Cons.IH[OF r d] v(2) by (simp only: simp_thms)
  next
    case False
    then show ?thesis using Cons.prems by auto
  qed
qed auto

lemma merge_collect_runs:
  "runs_desc ((case nx of None \<Rightarrow> [] | Some x \<Rightarrow> [x]) @ xs) \<Longrightarrow>
   (let ys = merge_collect dtrange_can_append dtrange_append dtrange_prepend False nx xs
    in runs_desc ys \<and> dt_set ys = dt_set ((case nx of None \<Rightarrow> [] | Some x \<Rightarrow> [x]) @ xs))"
proof (induction "length xs + (if nx = None then 0 else 1)" arbitrary: nx xs rule: less_induct)
  case less
  let ?m = "merge_next dtrange_can_append dtrange_append dtrange_prepend False nx xs"
  let ?in = "(case nx of None \<Rightarrow> [] | Some x \<Rightarrow> [x]) @ xs"
  show ?case
  proof (cases ?m)
    case None
    then have "nx = None" "xs = []" by (cases nx; cases xs; simp)+
    then show ?thesis by (subst merge_collect.simps) simp
  next
    case (Some r)
    obtain v nx' xs' where r: "r = (v, nx', xs')" by (metis prod_cases3)
    let ?rest = "(case nx' of None \<Rightarrow> [] | Some x \<Rightarrow> [x]) @ xs'"
    obtain w ws where w: "?in = w # ws"
        "merge_absorb dtrange_can_append dtrange_append dtrange_prepend False w ws = (v, nx', xs')"
      using Some r by (cases nx; cases xs) auto
    note a = merge_absorb_runs[OF w(2) less.prems[unfolded w(1)]]
    have "length xs' + (if nx' = None then 0 else 1) < length xs + (if nx = None then 0 else 1)"
      using merge_next_shorter[OF Some[unfolded r]] .
    moreover have "runs_desc ?rest" using a by simp
    moreover define ys where "ys = merge_collect dtrange_can_append dtrange_append dtrange_prepend False nx' xs'"
    ultimately have ih: "runs_desc ys" "dt_set ys = dt_set ?rest" using less.hyps by (auto simp: Let_def)
    have c: "merge_collect dtrange_can_append dtrange_append dtrange_prepend False nx xs = v # ys"
      unfolding ys_def by (subst merge_collect.simps) (simp add: Some r)
    have "dt_end y \<le> dt_start v" if "y \<in> set ys" for y
    proof -
      have "dt_start y < dt_end y" using ih(1) that by (simp add: runs_desc_def)
      then have "dt_end y - 1 \<in> dt_set ys" using that by (force simp: dt_set_def)
      then obtain z where z: "z \<in> set ?rest" "dt_end y - 1 < dt_end z" unfolding ih(2) by (auto simp: dt_set_def)
      moreover have "dt_end z \<le> dt_start v" using a z(1) by simp
      ultimately show ?thesis by simp
    qed
    then have "runs_desc (v # ys)" using a ih(1) by simp
    moreover have "dt_set (v # ys) = dt_set ?in"
      using a unfolding dt_set_simps(2)[of v] ih(2) w(1) by blast
    ultimately show ?thesis unfolding c Let_def ..
  qed
qed

lemma filter_new_runs:
  assumes "runs_desc xs"
  shows "runs_desc (filter_runs (filter_new xs))" "dt_set (filter_runs (filter_new xs)) = dt_set xs"
proof -
  have "filter_runs (filter_new xs) = merge_spans_rev dtrange_can_append dtrange_append dtrange_prepend xs"
    by (simp add: filter_new_def filter_runs_def split: list.split)
  then show "runs_desc (filter_runs (filter_new xs))" "dt_set (filter_runs (filter_new xs)) = dt_set xs"
    using merge_collect_runs[of None xs] assms by (simp_all add: merge_spans_rev_def Let_def)
qed

text \<open>Scanning drops the runs above the version.\<close>

lemma scan_spec:
  assumes "runs_desc (filter_runs f)" "scan_until_start_below f v = (f', cur)"
  shows "runs_desc (filter_runs f') \<and> dt_set (filter_runs f') \<inter> {..v} = dt_set (filter_runs f) \<inter> {..v} \<and>
    cur = sf_current f' \<and> (\<forall>c. cur = Some c \<longrightarrow> dt_start c \<le> v)"
  using assms
proof (induction f v arbitrary: f' cur rule: scan_until_start_below.induct)
  case (1 f v)
  show ?case
  proof (cases "sf_current f")
    case None
    then show ?thesis using "1.prems" by (subst (asm) scan_until_start_below.simps) auto
  next
    case (Some c)
    show ?thesis
    proof (cases "dt_start c > v")
      case False
      then show ?thesis using "1.prems" Some by (subst (asm) scan_until_start_below.simps) auto
    next
      case True
      then have low: "dt_set (c # xs) \<inter> {..v} = dt_set xs \<inter> {..v}" for xs by auto
      show ?thesis
      proof (cases "sf_iter f")
        case Nil
        have "scan_until_start_below (f\<lparr>sf_current := None\<rparr>) v = (f', cur)"
          using "1.prems"(2) Some True Nil by (subst (asm) scan_until_start_below.simps) simp
        from "1.IH"(1)[OF Some True Nil _ this] low[of "[]"] show ?thesis
          by (simp add: filter_runs_def Some Nil)
      next
        case (Cons c' iter)
        let ?f = "\<lparr>sf_iter = iter, sf_current = Some c'\<rparr>"
        have r: "scan_until_start_below ?f v = (f', cur)"
          using "1.prems"(2) Some True Cons by (subst (asm) scan_until_start_below.simps) simp
        have "runs_desc (filter_runs ?f)" using "1.prems"(1) by (simp add: filter_runs_def Some Cons)
        from "1.IH"(2)[OF Some True Cons this r] low[of "c' # iter"] show ?thesis
          by (simp add: filter_runs_def Some Cons)
      qed
    qed
  qed
qed

end
