(* ===== verification/GraphProjectFacts.thy ===== *)
theory GraphProjectFacts
  imports GraphProject
begin

text \<open>
  The projection returns the dominators of the filtered part of the history.  \<open>proj_out\<close> is what a
  queue still has to contribute: the versions of the filter in the history of an active entry that
  are in the history of no inactive one and have none of the filter above them.
\<close>

definition proj_out :: "graph \<Rightarrow> lv set \<Rightarrow> lv set \<Rightarrow> lv set \<Rightarrow> lv set" where
  "proj_out g F A I = {x \<in> F \<inter> hist (vparents g) A. x \<notin> hist (vparents g) I \<and>
     (\<forall>y \<in> F \<inter> hist (vparents g) A. ganc g x y \<longrightarrow> y = x)}"

lemma proj_out_empty: "F \<inter> hist (vparents g) A = {} \<Longrightarrow> proj_out g F A I = {}"
  by (auto simp: proj_out_def)

text \<open>The entries of one run, \<open>H\<close>, and the entries below it, \<open>L\<close>.\<close>

lemma hist_run_part:
  assumes g: "graph_wf g" "g_find g v = Some e" and H: "\<forall>w \<in> H. ge_key e \<le> w \<and> w \<le> v"
  shows "a \<in> hist (vparents g) H \<longleftrightarrow>
    (if ge_key e \<le> a then \<exists>w \<in> H. a \<le> w else H \<noteq> {} \<and> a \<in> ghist g (ge_parents e))"
proof (cases "H = {}")
  case False
  have lt: "a \<notin> ghist g (ge_parents e)" if "ge_key e \<le> a"
    using entry_parents_less[OF g] that gdag.anc_le[OF g(1)] unfolding hist_def by fastforce
  have h: "a \<in> hist (vparents g) H \<longleftrightarrow> ge_key e \<le> a \<and> (\<exists>w \<in> H. a \<le> w) \<or> a \<in> ghist g (ge_parents e)"
    unfolding ghist_split_run[OF g H False] by simp
  show ?thesis unfolding h using lt False by (cases "ge_key e \<le> a") simp_all
next
  case True
  show ?thesis unfolding True by simp
qed

lemma proj_step_hidden:
  assumes g: "graph_wf g" "g_find g v = Some e"
    and HA: "\<forall>w \<in> HA. ge_key e \<le> w \<and> w \<le> v" and HI: "\<forall>w \<in> HI. ge_key e \<le> w \<and> w \<le> v" "HI \<noteq> {}"
    and LA: "\<forall>w \<in> LA. w < ge_key e"
    and hid: "\<forall>x \<in> F. ge_key e \<le> x \<longrightarrow> x \<le> v \<longrightarrow> (\<exists>i \<in> HI. x \<le> i)"
  shows "proj_out g F (HA \<union> LA) (HI \<union> LI) = proj_out g F LA (set (ge_parents e) \<union> LI)"
proof -
  let ?h = "hist (vparents g)" and ?s = "ge_key e" and ?P = "ghist g (ge_parents e)"
  note ha = hist_run_part[OF g HA] and hi = hist_run_part[OF g HI(1)]
  have sub: "x \<in> ?h HI" if "x \<in> F" "x \<in> ?h HA" for x
  proof (cases "?s \<le> x")
    case True
    then have "x \<le> v" using that(2) HA unfolding ha by force
    then show ?thesis using hid that(1) True unfolding hi by simp
  next
    case False
    then show ?thesis using that(2) HI(2) unfolding ha hi by simp
  qed
  have low: "a < ?s" if "a \<in> ?h LA" for a using that LA gdag.anc_le[OF g(1)] unfolding hist_def by fastforce
  have lowI: "a \<in> ?h HI \<longleftrightarrow> a \<in> ?P" if "a < ?s" for a using that HI(2) unfolding hi by simp
  show ?thesis
  proof (rule set_eqI, rule iffI)
    fix x assume "x \<in> proj_out g F (HA \<union> LA) (HI \<union> LI)"
    then have x: "x \<in> F" "x \<in> ?h HA \<or> x \<in> ?h LA" "x \<notin> ?h HI" "x \<notin> ?h LI"
      "\<forall>y \<in> F. y \<in> ?h HA \<or> y \<in> ?h LA \<longrightarrow> ganc g x y \<longrightarrow> y = x" by (auto simp: proj_out_def)
    then have "x \<in> ?h LA" using sub by blast
    moreover from this have "x \<notin> ?P" using x(3) low lowI by blast
    ultimately show "x \<in> proj_out g F LA (set (ge_parents e) \<union> LI)"
      using x(1,4,5) by (simp add: proj_out_def)
  next
    fix x assume "x \<in> proj_out g F LA (set (ge_parents e) \<union> LI)"
    then have x: "x \<in> F" "x \<in> ?h LA" "x \<notin> ?P" "x \<notin> ?h LI" "\<forall>y \<in> F. y \<in> ?h LA \<longrightarrow> ganc g x y \<longrightarrow> y = x"
      by (auto simp: proj_out_def)
    then have nI: "x \<notin> ?h HI" using low lowI by blast
    moreover have "y = x" if y: "y \<in> F" "y \<in> ?h HA \<or> y \<in> ?h LA" "ganc g x y" for y
    proof (cases "y \<in> ?h LA")
      case True
      then show ?thesis using x(5) y by blast
    next
      case False
      then have "y \<in> ?h HI" using sub y by blast
      then have "x \<in> ?h HI" using y(3) hist_closed by blast
      then show ?thesis using nI by blast
    qed
    ultimately show "x \<in> proj_out g F (HA \<union> LA) (HI \<union> LI)"
      using x(1,2,4) by (simp add: proj_out_def)
  qed
qed

lemma proj_step_mark:
  assumes g: "graph_wf g" "g_find g v = Some e"
    and HA: "\<forall>w \<in> HA. ge_key e \<le> w \<and> w \<le> v" "v \<in> HA" and HI: "\<forall>w \<in> HI. ge_key e \<le> w \<and> w \<le> v"
    and LA: "\<forall>w \<in> LA. w < ge_key e" and LI: "\<forall>w \<in> LI. w < ge_key e"
    and m: "m \<in> F" "ge_key e \<le> m" "m \<le> v" "\<forall>x \<in> F. x \<le> v \<longrightarrow> x \<le> m" "\<forall>i \<in> HI. i < m"
  shows "proj_out g F (HA \<union> LA) (HI \<union> LI) = insert m (proj_out g F LA (set (ge_parents e) \<union> LI))"
proof -
  let ?h = "hist (vparents g)" and ?s = "ge_key e" and ?P = "ghist g (ge_parents e)"
  note ha = hist_run_part[OF g HA(1)] and hi = hist_run_part[OF g HI]
  have low: "a < ?s" if "a \<in> ?h L" "\<forall>w \<in> L. w < ?s" for a L
    using that gdag.anc_le[OF g(1)] unfolding hist_def by fastforce
  have lowA: "a \<in> ?h HA \<longleftrightarrow> a \<in> ?P" if "a < ?s" for a using that HA(2) unfolding ha by auto
  have lowI: "a \<in> ?h HI \<Longrightarrow> a < ?s \<Longrightarrow> a \<in> ?P" for a unfolding hi by simp
  have le: "y \<le> v" if "y \<in> ?h HA \<or> y \<in> ?h LA" for y
  proof (cases "?s \<le> y")
    case True
    then have "y \<in> ?h HA" using that low[OF _ LA] by fastforce
    then show ?thesis using True HA(1) unfolding ha by force
  next
    case False
    then show ?thesis using m(2,3) by simp
  qed
  have em: "g_find g m = Some e" using in_graph_start[OF g m(2,3)] .
  have below_m: "ganc g a m" if "a \<le> m" "?s \<le> a \<or> a \<in> ?P" for a
  proof (cases "?s \<le> a")
    case True
    then show ?thesis using ganc_in_run[OF g(1) em] that(1) by simp
  next
    case False
    then show ?thesis using that(2) run_hist_below(1)[OF g(1) em m(2)] by auto
  qed
  show ?thesis
  proof (rule set_eqI, rule iffI)
    fix x assume "x \<in> proj_out g F (HA \<union> LA) (HI \<union> LI)"
    then have x: "x \<in> F" "x \<in> ?h HA \<or> x \<in> ?h LA" "x \<notin> ?h HI" "x \<notin> ?h LI"
      "\<forall>y \<in> F. y \<in> ?h HA \<or> y \<in> ?h LA \<longrightarrow> ganc g x y \<longrightarrow> y = x" by (auto simp: proj_out_def)
    have xm: "x \<le> m" using m(4) x(1) le[OF x(2)] by blast
    have mh: "m \<in> ?h HA" using m(2,3) HA(2) unfolding ha by auto
    show "x \<in> insert m (proj_out g F LA (set (ge_parents e) \<union> LI))"
    proof (cases "?s \<le> x \<or> x \<in> ?P")
      case True
      then have "ganc g x m" using below_m xm by blast
      then have "m = x" using x(5) m(1) mh by blast
      then show ?thesis by simp
    next
      case False
      then have "x \<in> ?h LA" using x(2) lowA by auto
      then show ?thesis using x False by (simp add: proj_out_def)
    qed
  next
    fix x assume "x \<in> insert m (proj_out g F LA (set (ge_parents e) \<union> LI))"
    then consider "x = m" | "x \<in> proj_out g F LA (set (ge_parents e) \<union> LI)" by blast
    then show "x \<in> proj_out g F (HA \<union> LA) (HI \<union> LI)"
    proof cases
      case 1
      have "m \<in> ?h HA" using m(2,3) HA(2) unfolding ha by auto
      moreover have "m \<notin> ?h HI" using m(2,5) unfolding hi by force
      moreover have "m \<notin> ?h LI" using low[OF _ LI] m(2) by fastforce
      moreover have "y = m" if "y \<in> F" "y \<in> ?h HA \<or> y \<in> ?h LA" "ganc g m y" for y
        using m(4) that(1) le[OF that(2)] gdag.anc_le[OF g(1) that(3)] by fastforce
      ultimately show ?thesis using 1 m(1) by (simp add: proj_out_def)
    next
      case 2
      then have x: "x \<in> F" "x \<in> ?h LA" "x \<notin> ?P" "x \<notin> ?h LI" "\<forall>y \<in> F. y \<in> ?h LA \<longrightarrow> ganc g x y \<longrightarrow> y = x"
        by (auto simp: proj_out_def)
      have xs: "x < ?s" using low[OF x(2) LA] .
      have "x \<notin> ?h HI" using lowI xs x(3) by blast
      moreover have "y = x" if y: "y \<in> F" "y \<in> ?h HA \<or> y \<in> ?h LA" "ganc g x y" for y
      proof (cases "y \<in> ?h LA")
        case True
        then show ?thesis using x(5) y by blast
      next
        case False
        then have "x \<in> ?h HA" using y hist_closed by blast
        then show ?thesis using lowA[OF xs] x(3) by blast
      qed
      ultimately show ?thesis using x(1,2,4) by (simp add: proj_out_def)
    qed
  qed
qed

lemma proj_step_pass:
  assumes g: "graph_wf g" "g_find g v = Some e"
    and HA: "\<forall>w \<in> HA. ge_key e \<le> w \<and> w \<le> v" "HA \<noteq> {}"
    and none: "\<forall>x \<in> F. \<not> (ge_key e \<le> x \<and> x \<le> v)"
  shows "proj_out g F (HA \<union> LA) LI = proj_out g F (set (ge_parents e) \<union> LA) LI"
proof -
  have "y \<in> hist (vparents g) HA \<longleftrightarrow> y \<in> ghist g (ge_parents e)" if "y \<in> F" for y
  proof (cases "ge_key e \<le> y")
    case True
    then have "\<not> y \<le> v" using none that by blast
    then have "y \<notin> hist (vparents g) HA" using True HA(1) unfolding hist_run_part[OF g HA(1)] by force
    moreover have "y \<notin> ghist g (ge_parents e)"
      using True entry_parents_less[OF g] gdag.anc_le[OF g(1)] unfolding hist_def by fastforce
    ultimately show ?thesis by simp
  qed (use HA(2) hist_run_part[OF g HA(1)] in auto)
  then have "F \<inter> hist (vparents g) (HA \<union> LA) = F \<inter> hist (vparents g) (set (ge_parents e) \<union> LA)"
    by auto
  then show ?thesis unfolding proj_out_def by simp
qed

section \<open>The queue\<close>

definition actives :: "nat list \<Rightarrow> lv set" where
  "actives q = {v. 2 * v + 1 \<in> set q}"

definition inactives :: "nat list \<Rightarrow> lv set" where
  "inactives q = {v. 2 * v \<in> set q}"

definition nactive :: "nat list \<Rightarrow> nat" where
  "nactive q = length (filter odd q)"

lemma proj_dec_iff: "proj_dec x = (odd x, x div 2)"
  by (simp add: proj_dec_def odd_iff_mod_2_eq_one)

lemma actives_div: "v \<in> actives q \<longleftrightarrow> (\<exists>x \<in> set q. odd x \<and> x div 2 = v)"
proof
  assume "v \<in> actives q"
  then show "\<exists>x \<in> set q. odd x \<and> x div 2 = v"
    unfolding actives_def by (intro bexI[of _ "2 * v + 1"]) simp_all
next
  assume "\<exists>x \<in> set q. odd x \<and> x div 2 = v"
  then obtain x where "x \<in> set q" "odd x" "x div 2 = v" by blast
  moreover from this have "2 * v + 1 = x" using odd_two_times_div_two_succ[of x] by simp
  ultimately show "v \<in> actives q" by (simp add: actives_def)
qed

lemma inactives_div: "v \<in> inactives q \<longleftrightarrow> (\<exists>x \<in> set q. even x \<and> x div 2 = v)"
proof
  assume "v \<in> inactives q"
  then show "\<exists>x \<in> set q. even x \<and> x div 2 = v"
    unfolding inactives_def by (intro bexI[of _ "2 * v"]) simp_all
next
  assume "\<exists>x \<in> set q. even x \<and> x div 2 = v"
  then obtain x where "x \<in> set q" "even x" "x div 2 = v" by blast
  moreover from this have "2 * v = x" by (metis dvd_mult_div_cancel)
  ultimately show "v \<in> inactives q" by (simp add: inactives_def)
qed

lemma nactive_zero: "nactive q = 0 \<longleftrightarrow> actives q = {}"
  by (auto simp: nactive_def actives_div set_eq_iff filter_empty_conv)

lemma nactive_simps [simp]:
  "nactive [] = 0" "nactive (x # q) = (if odd x then Suc (nactive q) else nactive q)"
  by (auto simp: nactive_def)

lemma nactive_mset: "nactive q = size (filter_mset odd (mset q))"
  by (induction q) auto

lemma nactive_extend: "nactive (heap_extend xs q) = nactive xs + nactive q"
  by (simp add: nactive_mset heap_extend_mset)

text \<open>Versions in the lower half of the numbers are encoded without loss.\<close>

lemma proj_enc_small: "v \<le> usize_max div 2 \<Longrightarrow> proj_enc b v = 2 * v + (if b then 1 else 0)"
  by (simp add: proj_enc_def)

lemma map_proj_enc:
  "\<forall>v \<in> set ps. v \<le> usize_max div 2 \<Longrightarrow> map (proj_enc b) ps = map (\<lambda>v. 2 * v + (if b then 1 else 0)) ps"
  by (simp add: proj_enc_small)

lemma nactive_enc: "nactive (map (proj_enc b) ps) = (if b then length ps else 0)"
  by (induction ps) (auto simp: proj_enc_def usize_max_def dvd_mod)

lemma proj_in_run_spec:
  assumes "descending q" "na = nactive q + k" "proj_in_run s m ma na q = (ma', na', q')"
  shows "q' = filter (\<lambda>x. x div 2 < s) q \<and> na' = nactive q' + k \<and>
    (ma' \<longleftrightarrow> ma \<and> \<not> (\<exists>i \<in> inactives q. s \<le> i \<and> m \<le> i))"
  using assms
proof (induction q arbitrary: ma na)
  case (Cons x q)
  have d: "descending q" "\<forall>y \<in> set q. y div 2 \<le> x div 2" using Cons.prems(1) by (auto simp: div_le_mono)
  have inx: "(\<exists>i \<in> inactives (x # q). P i) \<longleftrightarrow> (even x \<and> P (x div 2)) \<or> (\<exists>i \<in> inactives q. P i)" for P
    by (auto simp: inactives_div)
  show ?case
  proof (cases "s \<le> x div 2")
    case True
    let ?ma = "if m \<le> x div 2 \<and> even x then False else ma" and ?na = "if odd x then na - 1 else na"
    have "proj_in_run s m ?ma ?na q = (ma', na', q')"
      using Cons.prems(3) True by (simp add: proj_dec_iff)
    moreover have "?na = nactive q + k" using Cons.prems(2) by simp
    ultimately have "q' = filter (\<lambda>x. x div 2 < s) q \<and> na' = nactive q' + k \<and>
      (ma' \<longleftrightarrow> ?ma \<and> \<not> (\<exists>i \<in> inactives q. s \<le> i \<and> m \<le> i))"
      using Cons.IH[OF d(1)] by blast
    then show ?thesis unfolding inx using True by auto
  next
    case False
    then have "\<forall>y \<in> set (x # q). y div 2 < s" using d(2) by fastforce
    then have "filter (\<lambda>x. x div 2 < s) (x # q) = x # q" by (simp only: filter_id_conv)
    moreover have "\<not> (\<exists>i \<in> inactives (x # q). s \<le> i \<and> m \<le> i)"
      using \<open>\<forall>y \<in> set (x # q). y div 2 < s\<close> by (force simp: inactives_div not_le[symmetric])
    moreover have "ma' = ma" "na' = na" "q' = x # q"
      using Cons.prems(3) False by (auto simp: proj_dec_iff)
    ultimately show ?thesis using Cons.prems(2) by simp
  qed
qed (auto simp: inactives_def)

lemma queue_extend:
  assumes "\<forall>v \<in> set ps. v \<le> usize_max div 2"
  shows "actives (heap_extend (map (proj_enc b) ps) q) = (if b then set ps else {}) \<union> actives q"
  "inactives (heap_extend (map (proj_enc b) ps) q) = (if b then {} else set ps) \<union> inactives q"
proof -
  have odd_even: "2 * v + 1 \<noteq> 2 * w" "2 * w \<noteq> 2 * v + 1" for v w :: nat by presburger+
  show "actives (heap_extend (map (proj_enc b) ps) q) = (if b then set ps else {}) \<union> actives q"
    "inactives (heap_extend (map (proj_enc b) ps) q) = (if b then {} else set ps) \<union> inactives q"
    using odd_even unfolding map_proj_enc[OF assms] by (auto simp: actives_def inactives_def image_iff)
qed

text \<open>The largest version of the filter that is not above \<open>v\<close>.\<close>

lemma filter_top:
  assumes "runs_desc (c # cs)" "dt_start c \<le> v"
  defines "m \<equiv> min v (dt_end c - 1)"
  shows "m \<in> dt_set (c # cs)" "m \<le> v" "\<forall>x \<in> dt_set (c # cs). x \<le> v \<longrightarrow> x \<le> m"
proof -
  have c: "dt_start c < dt_end c" using assms(1) by simp
  then show "m \<in> dt_set (c # cs)" using assms(2) by (auto simp: m_def)
  show "m \<le> v" by (simp add: m_def)
  have "x < dt_end c" if "x \<in> dt_set (c # cs)" for x
    using that assms(1) c by (fastforce simp: dt_set_def)
  then show "\<forall>x \<in> dt_set (c # cs). x \<le> v \<longrightarrow> x \<le> m" by (fastforce simp: m_def)
qed

section \<open>The search\<close>

lemma proj_out_cong:
  assumes g: "graph_wf g" and A: "\<forall>w \<in> A. w \<le> n" and F: "F \<inter> {..n} = F' \<inter> {..n}"
  shows "proj_out g F A I = proj_out g F' A I"
proof -
  have "x \<le> n" if "x \<in> hist (vparents g) A" for x
    using that A gdag.anc_le[OF g] unfolding hist_def by fastforce
  then have "F \<inter> hist (vparents g) A = F' \<inter> hist (vparents g) A" using F by blast
  then show ?thesis by (simp add: proj_out_def)
qed

lemma proj_loop_spec:
  assumes g: "graph_wf g"
  shows "n \<le> Suc (usize_max div 2) \<Longrightarrow> descending q \<Longrightarrow> \<forall>x \<in> set q. x div 2 < n \<and> in_graph g (x div 2) \<Longrightarrow> runs_desc (filter_runs f) \<Longrightarrow>
    \<exists>rs. proj_loop g f q (nactive q) = Some rs \<and> sorted_wrt (>) rs \<and> (\<forall>x \<in> set rs. x < n) \<and>
      set rs = proj_out g (dt_set (filter_runs f)) (actives q) (inactives q)"
proof (induction n arbitrary: q f rule: less_induct)
  case (less n)
  show ?case
  proof (cases q)
    case Nil
    then have "proj_loop g f q (nactive q) = Some []" by (subst proj_loop.simps) simp
    then show ?thesis by (simp add: proj_out_def actives_def Nil)
  next
    case (Cons vv q0)
    let ?v = "vv div 2" and ?a = "odd vv"
    have d: "descending q0" "\<forall>x \<in> set q. x div 2 \<le> ?v" using less.prems(2) by (auto simp: Cons div_le_mono)
    have v: "?v < n" "in_graph g ?v" using less.prems(3) by (simp_all add: Cons)
    then obtain e where e: "g_find g ?v = Some e" by (auto simp: in_graph_def)
    let ?s = "ge_key e"
    have s: "?s \<le> ?v" using gdag.run_start[OF g find_run[OF e]] by simp
    have low_parents: "\<forall>p \<in> set (ge_parents e). p \<le> usize_max div 2"
      using entry_parents_less[OF g e] s v(1) less.prems(1) by fastforce
    note queue_extend = queue_extend[OF low_parents]
    have na: "(if ?a then nactive q - 1 else nactive q) = nactive q0" by (simp add: Cons)
    obtain f' cur where sc: "scan_until_start_below f ?v = (f', cur)" by fastforce
    note scan = scan_spec[OF less.prems(4) sc]
    define F where "F = dt_set (filter_runs f')"
    have FF: "proj_out g (dt_set (filter_runs f)) (actives q) (inactives q) = proj_out g F (actives q) (inactives q)"
      using d(2) scan by (intro proj_out_cong[OF g, of _ ?v]) (auto simp: F_def actives_div)
    show ?thesis
    proof (cases cur)
      case None
      then have "F = {}" using scan by (simp add: F_def filter_runs_def)
      then have "proj_out g F (actives q) (inactives q) = {}" by (simp add: proj_out_def)
      moreover have "proj_loop g f q (nactive q) = Some []"
        unfolding Cons using e sc None by (subst proj_loop.simps) (simp add: proj_dec_iff find_packed_def Let_def)
      ultimately show ?thesis unfolding FF by simp
    next
      case (Some c)
      define m where "m = min ?v (dt_end c - 1)"
      have "sf_current f' = Some c" using scan Some by simp
      then have fr: "filter_runs f' = c # sf_iter f'" by (simp add: filter_runs_def)
      have cs: "dt_start c \<le> ?v" using scan Some by blast
      have F: "m \<in> F" "m \<le> ?v" "\<forall>x \<in> F. x \<le> ?v \<longrightarrow> x \<le> m"
        using filter_top[of c "sf_iter f'" ?v] scan cs unfolding F_def fr m_def by blast+
      obtain ma na' q1 where r: "proj_in_run ?s m ?a (nactive q0) q0 = (ma, na', q1)" by (metis prod_cases3)
      have sp: "q1 = filter (\<lambda>x. x div 2 < ?s) q0" "na' = nactive q1"
        "ma \<longleftrightarrow> ?a \<and> \<not> (\<exists>i \<in> inactives q0. ?s \<le> i \<and> m \<le> i)"
        using proj_in_run_spec[OF d(1) _ r, of 0] by simp_all
      define marks where "marks \<longleftrightarrow> dt_end c > ?s \<and> ma"
      define ma2 where "ma2 \<longleftrightarrow> ma \<and> \<not> marks"
      let ?q = "heap_extend (map (proj_enc ma2) (ge_parents e)) q1"
      let ?found = "if marks then [m] else []"
      have "dt_start c < dt_end c" using scan unfolding fr by simp
      then have c_iff: "dt_end c > ?s \<longleftrightarrow> ?s \<le> m" using s cs by (auto simp: m_def)
      have loop: "proj_loop g f q (nactive q) =
          (if \<not> ma2 \<and> nactive q1 = 0 then Some ?found
           else Option.bind (proj_loop g f' ?q (nactive ?q)) (\<lambda>rest. Some (?found @ rest)))"
        unfolding Cons using e sc Some r sp(2) na[unfolded Cons]
        by (subst proj_loop.simps)
          (simp add: proj_dec_iff find_packed_def Let_def nactive_extend nactive_enc m_def ge_key_def
            marks_def ma2_def Cons ac_simps)
      define HA where "HA = {w \<in> actives q. ?s \<le> w}"
      define LA where "LA = {w \<in> actives q. w < ?s}"
      define HI where "HI = {w \<in> inactives q. ?s \<le> w}"
      define LI where "LI = {w \<in> inactives q. w < ?s}"
      have split: "actives q = HA \<union> LA" "inactives q = HI \<union> LI" by (auto simp: HA_def LA_def HI_def LI_def)
      have q1: "actives q1 = LA" "inactives q1 = LI"
      proof -
        have e1: "(\<exists>x \<in> set q1. P x \<and> x div 2 = w) \<longleftrightarrow> w < ?s \<and> (\<exists>x \<in> set q. P x \<and> x div 2 = w)" for P w
          using s by (auto simp: sp(1) Cons)
        show "actives q1 = LA" "inactives q1 = LI"
          unfolding LA_def LI_def set_eq_iff actives_div inactives_div mem_Collect_eq e1 by blast+
      qed
      have hi: "\<forall>w \<in> HA. ?s \<le> w \<and> w \<le> ?v" "\<forall>w \<in> HI. ?s \<le> w \<and> w \<le> ?v"
        using d(2) by (auto simp: HA_def HI_def actives_div inactives_div)
      have lo: "\<forall>w \<in> LA. w < ?s" "\<forall>w \<in> LI. w < ?s" by (auto simp: LA_def LI_def)
      have va: "?v \<in> HA \<longleftrightarrow> ?a \<or> ?v \<in> actives q0" "?a \<Longrightarrow> ?v \<in> HA" "\<not> ?a \<Longrightarrow> ?v \<in> HI"
        using s by (auto simp: HA_def HI_def actives_div inactives_div Cons)
      have HI: "ma \<longleftrightarrow> ?a \<and> \<not> (\<exists>i \<in> HI. m \<le> i)"
      proof -
        have "inactives q = inactives q0" if ?a using that by (auto simp: inactives_div Cons)
        then show ?thesis unfolding sp(3) HI_def by blast
      qed
      have out: "proj_out g F (actives q) (inactives q) =
          set ?found \<union> proj_out g F (actives ?q) (inactives ?q) \<and> (marks \<longrightarrow> ?s \<le> m)"
      proof -
        consider (hidden) "\<not> ma" | (mark) "ma" "?s \<le> m" | (pass) "ma" "\<not> ?s \<le> m" by blast
        then show ?thesis
        proof cases
          case hidden
          then have fl: "\<not> marks" "\<not> ma2" by (simp_all add: marks_def ma2_def)
          have "(\<exists>i \<in> HI. m \<le> i) \<or> ?v \<in> HI" using hidden HI va(3) by blast
          then obtain i where i: "i \<in> HI" "m \<le> i" using F(2) by blast
          have hid: "\<forall>x \<in> F. ?s \<le> x \<longrightarrow> x \<le> ?v \<longrightarrow> (\<exists>i \<in> HI. x \<le> i)"
            using F(3) i order_trans by blast
          have "HI \<noteq> {}" using i by blast
          from proj_step_hidden[OF g e hi(1,2) this lo(1) hid, of LI] show ?thesis
            using fl unfolding split queue_extend q1 by simp
        next
          case mark
          then have fl: "marks" "\<not> ma2" using c_iff by (simp_all add: marks_def ma2_def)
          have "?v \<in> HA" "\<forall>i \<in> HI. i < m" using mark(1) HI va(2) by (auto simp: not_le)
          from proj_step_mark[OF g e hi(1) this(1) hi(2) lo F(1) mark(2) F(2,3) this(2)] show ?thesis
            using fl mark(2) unfolding split queue_extend q1 by simp
        next
          case pass
          then have fl: "\<not> marks" "ma2" using c_iff by (simp_all add: marks_def ma2_def)
          have "HI = {}" using pass HI by (auto simp: HI_def)
          moreover have "HA \<noteq> {}" using pass HI va(2) by blast
          moreover have "\<forall>x \<in> F. \<not> (?s \<le> x \<and> x \<le> ?v)" using F(3) pass(2) by fastforce
          ultimately show ?thesis
            using proj_step_pass[OF g e hi(1), of F LA LI] fl unfolding split queue_extend q1 by simp
        qed
      qed
      have q_ok: "descending ?q" "\<forall>x \<in> set ?q. x div 2 < ?s \<and> in_graph g (x div 2)"
      proof -
        have "descending q1" using d(1) by (simp add: sp(1) descending_def sorted_wrt_filter)
        then show "descending ?q" by (rule heap_extend_descending)
        have "p < ?s \<and> in_graph g p" if "p \<in> set (ge_parents e)" for p
          using entry_parents_less[OF g e that] by simp
        then show "\<forall>x \<in> set ?q. x div 2 < ?s \<and> in_graph g (x div 2)"
          using less.prems(3) unfolding map_proj_enc[OF low_parents] by (auto simp: sp(1) Cons)
      qed
      have s_low: "?s \<le> Suc (usize_max div 2)" using s v(1) less.prems(1) by simp
      show ?thesis
      proof (cases "\<not> ma2 \<and> nactive q1 = 0")
        case True
        then have "actives ?q = {}" by (simp add: queue_extend nactive_zero)
        then have "proj_out g F (actives ?q) (inactives ?q) = {}" by (simp add: proj_out_def)
        then have "set ?found = proj_out g (dt_set (filter_runs f)) (actives q) (inactives q)"
          using out FF by simp
        moreover have "proj_loop g f q (nactive q) = Some ?found" using loop True by simp
        moreover have "sorted_wrt (>) ?found" "\<forall>x \<in> set ?found. x < n" using F(2) v(1) by simp_all
        ultimately show ?thesis by blast
      next
        case False
        obtain rs where rs: "proj_loop g f' ?q (nactive ?q) = Some rs" "sorted_wrt (>) rs"
            "\<forall>x \<in> set rs. x < ?s" "set rs = proj_out g F (actives ?q) (inactives ?q)"
          using less.IH[OF order_le_less_trans[OF s v(1)] s_low q_ok, of f'] scan unfolding F_def by blast
        have "proj_loop g f q (nactive q) = Some (?found @ rs)" using loop False rs(1) by simp
        moreover have "sorted_wrt (>) (?found @ rs)" using rs(2,3) out by auto
        moreover have "\<forall>x \<in> set (?found @ rs). x < n" using rs(3) F(2) s v(1) by auto
        moreover have "set (?found @ rs) = proj_out g (dt_set (filter_runs f)) (actives q) (inactives q)"
          using out rs(4) FF by simp
        ultimately show ?thesis by blast
      qed
    qed
  qed
qed

lemma project_onto_subgraph_spec:
  assumes g: "graph_wf g" and f: "\<forall>v \<in> set f. in_graph g v \<and> v \<le> usize_max div 2" and flt: "runs_desc (rev flt)"
  shows "\<exists>out. project_onto_subgraph g flt f = Some out \<and> sorted_wrt (<) out \<and>
    set out = dominators (vparents g) (dt_set flt \<inter> ghist g f)"
proof (cases "f = []")
  case True
  then show ?thesis by (simp add: project_onto_subgraph_def project_onto_subgraph_raw_def)
next
  case False
  let ?q = "heap_extend (map (proj_enc True) f) []"
  note fr = filter_new_runs[OF flt]
  let ?n = "Suc (usize_max div 2)"
  have small: "\<forall>v \<in> set f. v \<le> usize_max div 2" using f by blast
  note queue_extend = queue_extend[OF small]
  have q: "actives ?q = set f" "inactives ?q = {}" unfolding queue_extend by (auto simp: actives_def inactives_def)
  have "\<forall>x \<in> set ?q. x div 2 < ?n \<and> in_graph g (x div 2)" using f unfolding map_proj_enc[OF small] by auto
  moreover have "descending ?q" by (rule heap_extend_descending) simp
  ultimately have "\<exists>rs. proj_loop g (filter_new (rev flt)) ?q (nactive ?q) = Some rs \<and> sorted_wrt (>) rs \<and>
      (\<forall>x \<in> set rs. x < ?n) \<and> set rs = proj_out g (dt_set (filter_runs (filter_new (rev flt)))) (actives ?q) (inactives ?q)"
    by (intro proj_loop_spec[OF g order.refl _ _ fr(1)])
  then obtain rs where rs: "proj_loop g (filter_new (rev flt)) ?q (nactive ?q) = Some rs"
      "sorted_wrt (>) rs" "set rs = proj_out g (dt_set flt) (set f) {}"
    unfolding q fr(2) by auto
  have "nactive ?q = length f" by (simp add: nactive_extend nactive_enc)
  moreover have "proj_out g (dt_set flt) (set f) {} = dominators (vparents g) (dt_set flt \<inter> ghist g f)"
    by (auto simp: proj_out_def dominators_def)
  ultimately show ?thesis
    using rs False by (intro exI[of _ "rev rs"])
      (simp add: project_onto_subgraph_def project_onto_subgraph_raw_def sorted_wrt_rev)
qed

end
