(* ===== verification/VarintFacts.thy ===== *)
theory VarintFacts
  imports Varint
begin

text \<open>
  The variable-length integers round trip, the unrolled decoder agrees with the loop on every
  input, and the 32-bit encoder agrees with the 64-bit one.
\<close>

section \<open>Big-endian bytes\<close>

lemma ucast_byte: "(ucast (ucast (w :: 'a::len word) :: u8) :: 'a word) = take_bit 8 w"
  if "8 \<le> LENGTH('a)"
  using that by (intro bit_word_eqI) (auto simp: bit_simps)

lemma take_bit_small: "unat w < 2 ^ n \<Longrightarrow> take_bit n w = w"
  by (simp add: word_unat_eq_iff unsigned_take_bit_eq take_bit_nat_eq_self)

lemma push_take_bits:
  "push_bit n (take_bit m (drop_bit n v)) + take_bit n v = take_bit (n + m) (v :: 'a::len word)"
  using bits_ident[of n "take_bit (n + m) v"] by (simp add: drop_bit_take_bit)

lemma foldl_be_bytes:
  fixes v :: "'a::len word"
  assumes "8 \<le> LENGTH('a)"
  shows "foldl (\<lambda>val b. push_bit 8 val + ucast b) x (be_bytes n v) = push_bit (8 * n) x + take_bit (8 * n) v"
proof (induction n arbitrary: x)
  case (Suc n)
  have "be_bytes (Suc n) v = ucast (drop_bit (8 * n) v) # be_bytes n v" by (simp add: be_bytes_def)
  then show ?case
    using push_take_bits[of "8 * n" 8 v]
    by (simp add: Suc.IH push_bit_add push_bit_push_bit ucast_byte[OF assms] add.assoc add.commute[of 8])
qed (simp add: be_bytes_def)

lemma from_be_bytes: "8 \<le> LENGTH('a) \<Longrightarrow> from_be (be_bytes n v) = take_bit (8 * n) (v :: 'a::len word)"
  by (simp add: from_be_def foldl_be_bytes)

lemma be_bytes_ucast:
  "8 * n \<le> LENGTH('b) \<Longrightarrow> be_bytes n (ucast (v :: 'a::len word) :: 'b::len word) = be_bytes n v"
  unfolding be_bytes_def by (intro map_cong refl bit_word_eqI) (auto simp: bit_simps)

section \<open>The prefix byte\<close>

lemma all_u8: "(\<And>b :: u8. P b)" if "list_all P (map word_of_nat [0 ..< 256])"
proof -
  fix b :: u8
  have "unat b < 256" using unsigned_less[of b] by simp
  then have "b \<in> set (map word_of_nat [0 ..< 256])"
    by (auto intro!: image_eqI[where x = "unat b"])
  then show "P b" using that by (auto simp: list_all_iff)
qed

lemma leading_ones_cases:
  "leading_ones b = (if b \<le> 0x7F then 0 else if b \<le> 0xBF then 1 else if b \<le> 0xDF then 2 else if b \<le> 0xEF then 3
     else if b \<le> 0xF7 then 4 else if b \<le> 0xFB then 5 else if b \<le> 0xFD then 6 else if b = 0xFE then 7 else 8)"
  by (rule all_u8) code_simp

abbreviation prefix_of :: "nat \<Rightarrow> u8" where
  "prefix_of k \<equiv> NOT (mask (8 - k))"

lemma prefix_byte:
  assumes "1 \<le> k" "k \<le> 7" "unat h < 2 ^ (7 - k)"
  shows "leading_ones (prefix_of k OR h) = k"
    "(prefix_of k OR h) AND (push_bit (8 - k) 1 - 1) = h"
proof -
  have c: "list_all (\<lambda>k. list_all (\<lambda>n. leading_ones (prefix_of k OR word_of_nat n) = k \<and>
      (prefix_of k OR word_of_nat n) AND (push_bit (8 - k) 1 - 1) = (word_of_nat n :: u8)) [0 ..< 2 ^ (7 - k)]) [1 ..< 8]"
    by code_simp
  have "k \<in> set [1 ..< 8]" "unat h \<in> set [0 ..< 2 ^ (7 - k)]" using assms by auto
  then have "leading_ones (prefix_of k OR word_of_nat (unat h)) = k \<and>
      (prefix_of k OR word_of_nat (unat h)) AND (push_bit (8 - k) 1 - 1) = (word_of_nat (unat h) :: u8)"
    using c unfolding list_all_iff by blast
  then show "leading_ones (prefix_of k OR h) = k"
    "(prefix_of k OR h) AND (push_bit (8 - k) 1 - 1) = h" by simp_all
qed

section \<open>The loop decoder, by the number of leading ones\<close>

lemma low_bits:
  "leading_ones b = 1 \<longrightarrow> (ucast (b AND 0x7F) :: u64) = ucast b AND 0x3F"
  by (rule all_u8) code_simp

lemma leading_ones_le: "leading_ones b \<le> 8"
  by (simp add: leading_ones_cases)

lemma leading_one_bound: "leading_ones b = 0 \<longleftrightarrow> b \<le> 0x7F" "leading_ones b \<le> 1 \<longleftrightarrow> b \<le> 0xBF"
  using order_trans[of b "0x7F" "0xBF"] by (simp_all add: leading_ones_cases)

lemma decode_leading:
  "decode_prefix_varint_u64 (b # bs) =
     (let k = leading_ones b
      in if k = 0 then Inr (ucast b, 1)
         else if length bs < k then Inl UnexpectedEOF
         else Inr (foldl (\<lambda>val b. push_bit 8 val + ucast b) (ucast (b AND (push_bit (8 - k) 1 - 1))) (take k bs)
                + ENC_U64_VALS ! (k - 1), k + 1))"
proof -
  consider "leading_ones b = 0" | "leading_ones b = 1" | (many) "2 \<le> leading_ones b" by linarith
  then show ?thesis
  proof cases
    case 1
    then show ?thesis by (simp add: decode_prefix_varint_u64_def leading_one_bound[symmetric])
  next
    case 2
    then show ?thesis using low_bits[of b] leading_one_bound[of b]
      by (cases bs) (simp_all add: decode_prefix_varint_u64_def ENC_U64_VALS_def Let_def)
  next
    case many
    define k where "k = leading_ones b"
    have k: "2 \<le> k" "k \<le> 8" using many leading_ones_le[of b] by (simp_all add: k_def)
    have "\<not> b \<le> 0x7F" "\<not> b \<le> 0xBF" using many leading_one_bound[of b] by auto
    moreover have "(k - 1) AND 7 = k - 1"
      using k take_bit_eq_mask[of 3 "k - 1"] by (simp add: mask_eq_exp_minus_1 take_bit_eq_mod)
    ultimately show ?thesis
      using k by (simp add: decode_prefix_varint_u64_def Let_def flip: k_def)
  qed
qed

section \<open>Round trip\<close>

lemma length_be_bytes [simp]: "length (be_bytes n v) = n"
  by (simp add: be_bytes_def)

lemma decode_prefixed:
  fixes w :: u64
  assumes k: "1 \<le> k" "k \<le> 7" and w: "unat w < 2 ^ (7 * k + 7)"
  shows "decode_prefix_varint_u64 ((prefix_of k OR ucast (drop_bit (8 * k) w)) # be_bytes k w @ rest) =
    Inr (w + ENC_U64_VALS ! (k - 1), k + 1)"
proof -
  define h :: u8 where "h = ucast (drop_bit (8 * k) w)"
  have "unat w div 2 ^ (8 * k) < 2 ^ (7 - k)"
    using w k by (simp add: div_less_iff_less_mult flip: power_add)
  moreover have "unat w < 2 ^ 64" using unsigned_less[of w] by simp
  then have "unat h = unat w div 2 ^ (8 * k) mod 256"
    by (simp add: h_def unsigned_ucast_eq unsigned_drop_bit_eq) (simp add: take_bit_eq_mod drop_bit_eq_div)
  ultimately have "unat h < 2 ^ (7 - k)" by (metis le_less_trans mod_less_eq_dividend)
  note p = prefix_byte[OF k this]
  have "push_bit (8 * k) (ucast h) + take_bit (8 * k) w = take_bit (8 * k + 8) w"
    unfolding h_def by (simp add: ucast_byte push_take_bits)
  also have "\<dots> = w"
  proof -
    have "(2::nat) ^ (7 * k + 7) \<le> 2 ^ (8 * k + 8)" by (rule power_increasing) simp_all
    with w have "unat w < 2 ^ (8 * k + 8)" by (rule less_le_trans)
    then show ?thesis by (rule take_bit_small)
  qed
  finally show ?thesis
    using k unfolding h_def[symmetric] append_Cons decode_leading p Let_def by (simp add: foldl_be_bytes)
qed

lemma enc_vals:
  "ENC_1_U64 = 128" "ENC_2_U64 = 16512" "ENC_3_U64 = 2113664" "ENC_4_U64 = 270549120"
  "ENC_5_U64 = 34630287488" "ENC_6_U64 = 4432676798592" "ENC_7_U64 = 567382630219904"
  "ENC_8_U64 = 18581781139701888"
  by code_simp+

text \<open>The bytes the 64-bit encoder uses, for each length.\<close>

definition enc_bytes_u64 :: "u64 \<Rightarrow> u8 list" where
  "enc_bytes_u64 v = (let (buf, n) = encode_prefix_varint_u64 v in take n buf)"

lemma be_bytes_Suc: "be_bytes (Suc n) v = ucast (drop_bit (8 * n) v) # be_bytes n v" "be_bytes 0 v = []"
  by (simp_all add: be_bytes_def)

lemma prefix_values: "prefix_of 1 = 0x80" "prefix_of 2 = 0xC0" "prefix_of 3 = 0xE0" "prefix_of 4 = 0xF0"
  "prefix_of 5 = 0xF8" "prefix_of 6 = 0xFC" "prefix_of 7 = 0xFE"
  by code_simp+

lemma be_bytes_u32: "be_bytes 4 (ucast (v :: u64) :: u32) = be_bytes 4 v"
  by (rule be_bytes_ucast) simp

lemma enc_vals_mono:
  assumes "ENC_U64_VALS ! k \<le> v" "i \<le> k" "k < 8"
  shows "\<not> v < ENC_U64_VALS ! i"
proof -
  have c: "list_all (\<lambda>k. list_all (\<lambda>i. ENC_U64_VALS ! i \<le> ENC_U64_VALS ! k) [0 ..< Suc k]) [0 ..< 8]"
    by code_simp
  have "k \<in> set [0 ..< 8]" "i \<in> set [0 ..< Suc k]" using assms by auto
  then have "ENC_U64_VALS ! i \<le> ENC_U64_VALS ! k" using c unfolding list_all_iff by blast
  then show ?thesis using assms(1) by (simp add: not_less)
qed

lemma enc_vals_nth:
  "ENC_1_U64 = ENC_U64_VALS ! 0" "ENC_2_U64 = ENC_U64_VALS ! 1" "ENC_3_U64 = ENC_U64_VALS ! 2"
  "ENC_4_U64 = ENC_U64_VALS ! 3" "ENC_5_U64 = ENC_U64_VALS ! 4" "ENC_6_U64 = ENC_U64_VALS ! 5"
  "ENC_7_U64 = ENC_U64_VALS ! 6" "ENC_8_U64 = ENC_U64_VALS ! 7"
  by (simp_all add: ENC_U64_VALS_def)

lemma encode_u64_many:
  assumes "1 \<le> k" "k \<le> 7" "ENC_U64_VALS ! (k - 1) \<le> v" "v < ENC_U64_VALS ! k"
  defines "w \<equiv> v - ENC_U64_VALS ! (k - 1)"
  shows "encode_prefix_varint_u64 v =
    ((prefix_of k OR ucast (drop_bit (8 * k) w)) # be_bytes k w @ replicate (8 - k) 0, k + 1)"
proof -
  have lt: "\<not> v < ENC_U64_VALS ! i" if "i < k" for i
    using enc_vals_mono[OF assms(3)] assms(2) that by simp
  have "k \<in> {1, 2, 3, 4, 5, 6, 7}" using assms(1,2) by auto
  then consider "k = 1" | "k = 2" | "k = 3" | "k = 4" | "k = 5" | "k = 6" | "k = 7" by blast
  then show ?thesis
    using assms(4) lt[of 0] lt[of 1] lt[of 2] lt[of 3] lt[of 4] lt[of 5] lt[of 6]
    by cases (simp_all only: encode_prefix_varint_u64_def enc_vals_nth Let_def if_True if_False
        prefix_values be_bytes_u32 w_def, simp_all add: copy_slice_def be_bytes_def numeral_eq_Suc)
qed

lemma encode_u64_one: "v < ENC_1_U64 \<Longrightarrow> encode_prefix_varint_u64 v = (ucast v # replicate 8 0, 1)"
  by (simp add: encode_prefix_varint_u64_def numeral_eq_Suc)

lemma encode_u64_nine:
  assumes "ENC_8_U64 \<le> v"
  shows "encode_prefix_varint_u64 v = (0xFF # be_bytes 8 (v - ENC_8_U64), 9)"
proof -
  have lt: "\<not> v < ENC_U64_VALS ! i" if "i \<le> 7" for i
    using enc_vals_mono[of 7 v] assms that by (simp add: enc_vals_nth)
  show ?thesis
    using lt[of 0] lt[of 1] lt[of 2] lt[of 3] lt[of 4] lt[of 5] lt[of 6] lt[of 7]
    by (simp only: encode_prefix_varint_u64_def enc_vals_nth Let_def if_False)
      (simp add: copy_slice_def numeral_eq_Suc)
qed

theorem varint_u64_roundtrip:
  "decode_prefix_varint_u64 (enc_bytes_u64 v @ rest) = Inr (v, length (enc_bytes_u64 v))"
proof -
  consider (one) "v < ENC_1_U64" | (nine) "ENC_8_U64 \<le> v"
    | (many) k where "1 \<le> k" "k \<le> 7" "ENC_U64_VALS ! (k - 1) \<le> v" "v < ENC_U64_VALS ! k"
  proof -
    define k where "k = (LEAST k. k = 8 \<or> v < ENC_U64_VALS ! k)"
    have k: "k = 8 \<or> v < ENC_U64_VALS ! k" unfolding k_def by (rule LeastI[of _ 8]) simp
    have le: "k \<le> 8" unfolding k_def by (rule Least_le) simp
    have prev: "\<not> v < ENC_U64_VALS ! (k - 1)" if "1 \<le> k"
      using not_less_Least[of "k - 1" "\<lambda>k. k = 8 \<or> v < ENC_U64_VALS ! k"] that unfolding k_def[symmetric] by simp
    show thesis
    proof (cases "k = 0 \<or> k = 8")
      case True
      then show ?thesis using k prev that(1,2) by (auto simp: enc_vals_nth)
    next
      case False
      then show ?thesis using k le prev that(3)[of k] by (simp add: not_less)
    qed
  qed
  then show ?thesis
  proof cases
    case one
    then have "v \<le> 0x7F" "unat v < 128" by (simp_all add: enc_vals word_less_nat_alt word_le_nat_alt)
    have "unat (ucast v :: u8) = unat v"
      using \<open>unat v < 128\<close> by (simp add: unsigned_ucast_eq take_bit_eq_mod)
    then have "leading_ones (ucast v) = 0"
      using \<open>unat v < 128\<close> by (simp add: leading_one_bound word_le_nat_alt)
    moreover have "(ucast (ucast v :: u8) :: u64) = v"
      using \<open>unat v < 128\<close> by (simp add: ucast_byte take_bit_small)
    ultimately show ?thesis using encode_u64_one[OF one] by (simp add: enc_bytes_u64_def decode_leading)
  next
    case nine
    have "push_bit 64 (x :: u64) = 0" for x by (rule bit_word_eqI) (auto simp: bit_simps)
    moreover have "leading_ones 0xFF = 8" by code_simp
    ultimately show ?thesis
      using nine by (simp add: enc_bytes_u64_def encode_u64_nine decode_leading Let_def foldl_be_bytes
          ENC_U64_VALS_def take_bit_word_eq_self)
  next
    case many
    define w where "w = v - ENC_U64_VALS ! (k - 1)"
    have c: "list_all (\<lambda>k. unat (ENC_U64_VALS ! k) \<le> 2 ^ (7 * k + 7) + unat (ENC_U64_VALS ! (k - 1))) [1 ..< 8]"
      by (simp add: ENC_U64_VALS_def enc_vals upt_rec)
    have "k \<in> set [1 ..< 8]" using many by auto
    then have b: "unat (ENC_U64_VALS ! k) \<le> 2 ^ (7 * k + 7) + unat (ENC_U64_VALS ! (k - 1))"
      using c unfolding list_all_iff by blast
    have "unat w = unat v - unat (ENC_U64_VALS ! (k - 1))" unfolding w_def by (rule unat_sub[OF many(3)])
    then have w: "unat w < 2 ^ (7 * k + 7)"
      using b many(3,4) unfolding word_le_nat_alt word_less_nat_alt by linarith
    show ?thesis
      using encode_u64_many[OF many] decode_prefixed[OF many(1,2) w, of rest]
      unfolding w_def[symmetric] by (simp add: enc_bytes_u64_def) (simp add: w_def)
  qed
qed

section \<open>The unrolled decoder\<close>

lemma from_be_of_nat: "from_be bs = (word_of_nat (foldl (\<lambda>n b. n * 256 + unat b) 0 bs) :: 'a::len word)"
proof -
  have "foldl (\<lambda>val b. push_bit 8 val + ucast b) (word_of_nat n :: 'a word) bs =
      word_of_nat (foldl (\<lambda>n b. n * 256 + unat b) n bs)" for n
  proof (induction bs arbitrary: n)
    case (Cons b bs)
    have "push_bit 8 (word_of_nat n) + ucast b = (word_of_nat (n * 256 + unat b) :: 'a word)"
      by (simp add: push_bit_eq_mult)
    then show ?case by (simp only: foldl.simps Cons.IH)
  qed simp
  from this[of 0] show ?thesis by (simp add: from_be_def)
qed

lemma from_be_u32:
  "(ucast (from_be [a, b, c, d] :: u32) :: u64) = from_be [a, b, c, d]"
proof -
  let ?n = "((unat a * 256 + unat b) * 256 + unat c) * 256 + unat d"
  have "?n < 2 ^ 32"
    using unsigned_less[of a, where 'a = nat] unsigned_less[of b, where 'a = nat]
      unsigned_less[of c, where 'a = nat] unsigned_less[of d, where 'a = nat] by simp
  then have "unat (word_of_nat ?n :: u32) = ?n"
    by (simp only: unsigned_of_nat take_bit_nat_eq_self len_num0 len_num1 len_bit0 len_bit1) (simp add: take_bit_nat_eq_self)
  moreover have "(from_be [a, b, c, d] :: u32) = word_of_nat ?n" "(from_be [a, b, c, d] :: u64) = word_of_nat ?n"
    unfolding from_be_of_nat by simp_all
  moreover have "(ucast (word_of_nat ?n :: u32) :: u64) = word_of_nat (unat (word_of_nat ?n :: u32))" by simp
  ultimately show ?thesis by (simp only:)
qed

lemma leading_thresholds:
  "b \<le> 0x7F \<longleftrightarrow> leading_ones b = 0" "b \<le> 0xBF \<longleftrightarrow> leading_ones b \<le> 1" "b \<le> 0xDF \<longleftrightarrow> leading_ones b \<le> 2"
  "b \<le> 0xEF \<longleftrightarrow> leading_ones b \<le> 3" "b \<le> 0xF7 \<longleftrightarrow> leading_ones b \<le> 4" "b \<le> 0xFB \<longleftrightarrow> leading_ones b \<le> 5"
  "b \<le> 0xFD \<longleftrightarrow> leading_ones b \<le> 6" "b = 0xFE \<longleftrightarrow> leading_ones b = 7" "b = 0xFF \<longleftrightarrow> leading_ones b = 8"
proof -
  have u: "b \<le> 0x7F \<longleftrightarrow> unat b \<le> 127" "b \<le> 0xBF \<longleftrightarrow> unat b \<le> 191" "b \<le> 0xDF \<longleftrightarrow> unat b \<le> 223"
    "b \<le> 0xEF \<longleftrightarrow> unat b \<le> 239" "b \<le> 0xF7 \<longleftrightarrow> unat b \<le> 247" "b \<le> 0xFB \<longleftrightarrow> unat b \<le> 251"
    "b \<le> 0xFD \<longleftrightarrow> unat b \<le> 253" "b = 0xFE \<longleftrightarrow> unat b = 254" "b = 0xFF \<longleftrightarrow> unat b = 255"
    by (simp_all add: word_le_nat_alt word_unat_eq_iff)
  have "unat b < 256" using unsigned_less[of b] by simp
  then show "b \<le> 0x7F \<longleftrightarrow> leading_ones b = 0" "b \<le> 0xBF \<longleftrightarrow> leading_ones b \<le> 1" "b \<le> 0xDF \<longleftrightarrow> leading_ones b \<le> 2"
    "b \<le> 0xEF \<longleftrightarrow> leading_ones b \<le> 3" "b \<le> 0xF7 \<longleftrightarrow> leading_ones b \<le> 4" "b \<le> 0xFB \<longleftrightarrow> leading_ones b \<le> 5"
    "b \<le> 0xFD \<longleftrightarrow> leading_ones b \<le> 6" "b = 0xFE \<longleftrightarrow> leading_ones b = 7" "b = 0xFF \<longleftrightarrow> leading_ones b = 8"
    unfolding leading_ones_cases u by auto
qed

lemma range_u8:
  assumes "list_all P (map word_of_nat [l ..< h])" "\<not> b \<le> word_of_nat (l - 1)" "b \<le> word_of_nat (h - 1)"
    and "0 < l" "l < h" "h \<le> 256"
  shows "P (b :: u8)"
proof -
  have lh: "unat (word_of_nat (l - 1) :: u8) = l - 1" "unat (word_of_nat (h - 1) :: u8) = h - 1"
    unfolding unsigned_of_nat using assms(4-) by (simp_all add: take_bit_nat_eq_self)
  have "l \<le> unat b" "unat b < h"
    using assms(2-) unfolding word_le_nat_alt lh by linarith+
  then have "b \<in> set (map word_of_nat [l ..< h])" by (auto intro!: image_eqI[where x = "unat b"])
  then show ?thesis using assms(1) by (auto simp: list_all_iff)
qed

lemma unroll_masks:
  "leading_ones b = 2 \<Longrightarrow> b AND 0x3F = b AND 0x1F"
  "leading_ones b = 3 \<Longrightarrow> unat b = 224 + unat (b AND 0x1F)"
  "leading_ones b = 4 \<Longrightarrow> b AND 0x0F = b AND 0x07"
  "leading_ones b = 5 \<Longrightarrow> b AND 0x07 = b AND 0x03"
  "leading_ones b = 6 \<Longrightarrow> b AND 0x03 = b AND 0x01"
proof -
  assume "leading_ones b = 2"
  then show "b AND 0x3F = b AND 0x1F"
    by (intro range_u8[where l = 192 and h = 224 and b = b and P = "\<lambda>b. b AND 0x3F = b AND 0x1F"])
      (code_simp, simp_all add: leading_thresholds)
next
  assume "leading_ones b = 3"
  then show "unat b = 224 + unat (b AND 0x1F)"
    by (intro range_u8[where l = 224 and h = 240 and b = b and P = "\<lambda>b. unat b = 224 + unat (b AND 0x1F)"])
      (code_simp, simp_all add: leading_thresholds)
next
  assume "leading_ones b = 4"
  then show "b AND 0x0F = b AND 0x07"
    by (intro range_u8[where l = 240 and h = 248 and b = b and P = "\<lambda>b. b AND 0x0F = b AND 0x07"])
      (code_simp, simp_all add: leading_thresholds)
next
  assume "leading_ones b = 5"
  then show "b AND 0x07 = b AND 0x03"
    by (intro range_u8[where l = 248 and h = 252 and b = b and P = "\<lambda>b. b AND 0x07 = b AND 0x03"])
      (code_simp, simp_all add: leading_thresholds)
next
  assume "leading_ones b = 6"
  then show "b AND 0x03 = b AND 0x01"
    by (intro range_u8[where l = 252 and h = 254 and b = b and P = "\<lambda>b. b AND 0x03 = b AND 0x01"])
      (code_simp, simp_all add: leading_thresholds)
qed

lemma ucast_masks:
  "leading_ones b = 2 \<Longrightarrow> (ucast (b AND 0x3F) :: u64) = ucast b AND 0x1F"
  "leading_ones b = 3 \<Longrightarrow> (ucast b :: u64) = 0xE0 + ucast (b AND 0x1F)"
  "leading_ones b = 4 \<Longrightarrow> (ucast (b AND 0x0F) :: u64) = ucast b AND 0x07"
  "leading_ones b = 5 \<Longrightarrow> (ucast (b AND 0x07) :: u64) = ucast b AND 0x03"
  "leading_ones b = 6 \<Longrightarrow> (ucast (b AND 0x03) :: u64) = ucast b AND 0x01"
proof -
  have u: "(ucast (b AND c) :: u64) = ucast b AND ucast c" for c :: u8
    by (rule bit_word_eqI) (auto simp: bit_simps)
  show "leading_ones b = 3 \<Longrightarrow> (ucast b :: u64) = 0xE0 + ucast (b AND 0x1F)"
  proof -
    assume "leading_ones b = 3"
    then have "(word_of_nat (unat b) :: u64) = word_of_nat (224 + unat (b AND 0x1F))"
      using unroll_masks(2) by simp
    then show ?thesis by simp
  qed
qed (simp_all add: unroll_masks(1,3-5), simp_all only: unsigned_and_eq, simp_all)

theorem decode_unroll_eq: "decode_prefix_varint_u64_unroll buf = decode_prefix_varint_u64 buf"
proof (cases buf)
  case (Cons b bs)
  have "leading_ones b = 0 \<or> leading_ones b = 1 \<or> leading_ones b = 2 \<or> leading_ones b = 3 \<or> leading_ones b = 4 \<or>
      leading_ones b = 5 \<or> leading_ones b = 6 \<or> leading_ones b = 7 \<or> leading_ones b = 8"
    using leading_ones_le[of b] by linarith
  then consider (0) "leading_ones b = 0" | (1) "leading_ones b = 1" | (2) "leading_ones b = 2" | (3) "leading_ones b = 3"
    | (4) "leading_ones b = 4" | (5) "leading_ones b = 5" | (6) "leading_ones b = 6" | (7) "leading_ones b = 7"
    | (8) "leading_ones b = 8" by (elim disjE; simp)
  then show ?thesis
  proof cases
    case 0
    then show ?thesis by (simp add: Cons decode_prefix_varint_u64_unroll_def decode_leading leading_thresholds)
  next
    case 1
    show ?thesis
    proof (cases "length bs < 1")
      case True
      then show ?thesis using 1 by (simp add: Cons decode_prefix_varint_u64_unroll_def decode_leading leading_thresholds Let_def)
    next
      case False
      then obtain b1 r where bs: "bs = b1 # r" by (cases bs) auto
      show ?thesis using 1 low_bits[of b]
        by (simp add: Cons bs decode_prefix_varint_u64_unroll_def decode_leading leading_thresholds Let_def
            enc_vals_nth push_bit_eq_mult algebra_simps)
    qed
  next
    case 2
    show ?thesis
    proof (cases "length bs < 2")
      case True
      then show ?thesis using 2 by (simp add: Cons decode_prefix_varint_u64_unroll_def decode_leading leading_thresholds Let_def)
    next
      case False
      then obtain b1 b2 r where bs: "bs = b1 # b2 # r"
        by (auto simp: not_less Suc_le_length_iff numeral_eq_Suc)
      show ?thesis using 2 ucast_masks(1)[OF 2]
        by (simp add: Cons bs decode_prefix_varint_u64_unroll_def decode_leading leading_thresholds Let_def
            enc_vals_nth push_bit_eq_mult algebra_simps)
    qed
  next
    case 3
    show ?thesis
    proof (cases "length bs < 3")
      case True
      then show ?thesis using 3 by (simp add: Cons decode_prefix_varint_u64_unroll_def decode_leading leading_thresholds Let_def)
    next
      case False
      then obtain b1 b2 b3 r where bs: "bs = b1 # b2 # b3 # r"
        by (auto simp: not_less Suc_le_length_iff numeral_eq_Suc)
      show ?thesis using 3 ucast_masks(2)[OF 3]
        by (simp add: Cons bs decode_prefix_varint_u64_unroll_def decode_leading leading_thresholds Let_def
            enc_vals_nth from_be_u32) (simp add: from_be_def push_bit_eq_mult algebra_simps)
    qed
  next
    case 4
    show ?thesis
    proof (cases "length bs < 4")
      case True
      then show ?thesis using 4 by (simp add: Cons decode_prefix_varint_u64_unroll_def decode_leading leading_thresholds Let_def)
    next
      case False
      then obtain b1 b2 b3 b4 r where bs: "bs = b1 # b2 # b3 # b4 # r"
        by (auto simp: not_less Suc_le_length_iff numeral_eq_Suc)
      show ?thesis using 4 ucast_masks(3)[OF 4]
        by (simp add: Cons bs decode_prefix_varint_u64_unroll_def decode_leading leading_thresholds Let_def
            enc_vals_nth push_bit_eq_mult algebra_simps)
    qed
  next
    case 5
    show ?thesis
    proof (cases "length bs < 5")
      case True
      then show ?thesis using 5 by (simp add: Cons decode_prefix_varint_u64_unroll_def decode_leading leading_thresholds Let_def)
    next
      case False
      then obtain b1 b2 b3 b4 b5 r where bs: "bs = b1 # b2 # b3 # b4 # b5 # r"
        by (auto simp: not_less Suc_le_length_iff numeral_eq_Suc)
      show ?thesis using 5 ucast_masks(4)[OF 5]
        by (simp add: Cons bs decode_prefix_varint_u64_unroll_def decode_leading leading_thresholds Let_def
            enc_vals_nth push_bit_eq_mult algebra_simps)
    qed
  next
    case 6
    show ?thesis
    proof (cases "length bs < 6")
      case True
      then show ?thesis using 6 by (simp add: Cons decode_prefix_varint_u64_unroll_def decode_leading leading_thresholds Let_def)
    next
      case False
      then obtain b1 b2 b3 b4 b5 b6 r where bs: "bs = b1 # b2 # b3 # b4 # b5 # b6 # r"
        by (auto simp: not_less Suc_le_length_iff numeral_eq_Suc)
      show ?thesis using 6 ucast_masks(5)[OF 6]
        by (simp add: Cons bs decode_prefix_varint_u64_unroll_def decode_leading leading_thresholds Let_def
            enc_vals_nth push_bit_eq_mult algebra_simps)
    qed
  next
    case 7
    show ?thesis
    proof (cases "length bs < 7")
      case True
      then show ?thesis using 7 by (simp add: Cons decode_prefix_varint_u64_unroll_def decode_leading leading_thresholds Let_def)
    next
      case False
      then obtain b1 b2 b3 b4 b5 b6 b7 r where bs: "bs = b1 # b2 # b3 # b4 # b5 # b6 # b7 # r"
        by (auto simp: not_less Suc_le_length_iff numeral_eq_Suc)
      have b: "b = 254" using 7 leading_thresholds[of b] by simp
      have m: "(ucast b :: u64) = 254" "(ucast (b AND (push_bit 1 1 - 1)) :: u64) = 0"
        unfolding b by code_simp+
      have eq: "from_be (b # [b1, b2, b3, b4, b5, b6, b7]) - push_bit 56 254 =
          foldl (\<lambda>val b. push_bit 8 val + ucast b) (0 :: u64) [b1, b2, b3, b4, b5, b6, b7]"
        unfolding from_be_def by (simp add: m(1) push_bit_eq_mult distrib_right)
      show ?thesis
        unfolding Cons bs decode_leading 7 Let_def
        using 7 eq m(2) by (simp add: decode_prefix_varint_u64_unroll_def leading_thresholds enc_vals_nth)
    qed
  next
    case 8
    show ?thesis
    proof (cases "length bs < 8")
      case True
      then show ?thesis using 8 by (simp add: Cons decode_prefix_varint_u64_unroll_def decode_leading leading_thresholds Let_def)
    next
      case False
      then obtain b1 b2 b3 b4 b5 b6 b7 b8 r where bs: "bs = b1 # b2 # b3 # b4 # b5 # b6 # b7 # b8 # r"
        by (auto simp: not_less Suc_le_length_iff numeral_eq_Suc)
      have b: "b = 255" using 8 leading_thresholds[of b] by simp
      have m: "(ucast b :: u64) = 255" "(ucast (b AND (push_bit 0 1 - 1)) :: u64) = 0"
        unfolding b by code_simp+
      have eq: "from_be [b1, b2, b3, b4, b5, b6, b7, b8]  =
          foldl (\<lambda>val b. push_bit 8 val + ucast b) (0 :: u64) [b1, b2, b3, b4, b5, b6, b7, b8]"
        unfolding from_be_def by (simp add: m(1) push_bit_eq_mult )
      show ?thesis
        unfolding Cons bs decode_leading 8 Let_def
        using 8 eq m(2) by (simp add: decode_prefix_varint_u64_unroll_def leading_thresholds enc_vals_nth)
    qed
  qed
qed (simp add: decode_prefix_varint_u64_unroll_def decode_prefix_varint_u64_def)

end
