(* ===== verification/VarintNarrow.thy ===== *)
theory VarintNarrow
  imports VarintFacts
begin

text \<open>
  The 32 bit varints of \<open>encoding/varint.rs\<close>: the narrow encoder writes what the 64 bit one writes for the
  same number, and its decoders return it.
\<close>

section \<open>The 32-bit encoder\<close>

definition enc_bytes_u32 :: "u32 \<Rightarrow> u8 list" where
  "enc_bytes_u32 v = (let (buf, n) = encode_prefix_varint_u32 v in take n buf)"

lemma enc_vals_u32:
  "ENC_1_U32 = 128" "ENC_2_U32 = 16512" "ENC_3_U32 = 2113664" "ENC_4_U32 = 270549120"
  by code_simp+

lemma unat_up [simp]: "unat (ucast (v :: u32) :: u64) = unat v"
proof -
  have "unat v < 2 ^ 32" using unsigned_less[of v, where 'a = nat] by simp
  then have "unat v < 2 ^ 64" by simp
  then show ?thesis by (simp add: unsigned_ucast_eq take_bit_nat_eq_self)
qed

lemma ucast_cmp: "(ucast (v :: u32) :: u64) < ucast e \<longleftrightarrow> v < e"
  by (simp add: word_less_nat_alt)

lemma ucast_sub:
  assumes "\<not> v < e"
  shows "(ucast (v - e) :: u64) = ucast v - ucast (e :: u32)"
proof -
  have "(ucast e :: u64) \<le> ucast v" "e \<le> v" using assms by (simp_all add: ucast_cmp flip: not_less)
  then show ?thesis by (simp add: word_unat_eq_iff unat_sub)
qed

lemma ucast_drop: "(ucast (drop_bit n (ucast (w :: u32) :: u64)) :: u8) = ucast (drop_bit n w)"
  by (rule bit_word_eqI) (auto simp: bit_simps dest: bit_imp_le_length)

lemma ucast_low: "(ucast (ucast (w :: u32) :: u64) :: u8) = ucast w"
  by (rule bit_word_eqI) (auto simp: bit_simps)

theorem encode_u32_eq: "enc_bytes_u32 v = enc_bytes_u64 (ucast v)"
proof -
  have e: "ENC_1_U64 = ucast ENC_1_U32" "ENC_2_U64 = ucast ENC_2_U32" "ENC_3_U64 = ucast ENC_3_U32"
    "ENC_4_U64 = ucast ENC_4_U32" by (simp_all add: enc_vals enc_vals_u32)
  consider (a) "v < ENC_1_U32" | (b) "\<not> v < ENC_1_U32" "v < ENC_2_U32"
    | (c) "\<not> v < ENC_1_U32" "\<not> v < ENC_2_U32" "v < ENC_3_U32"
    | (d) "\<not> v < ENC_1_U32" "\<not> v < ENC_2_U32" "\<not> v < ENC_3_U32" "v < ENC_4_U32"
    | (f) "\<not> v < ENC_1_U32" "\<not> v < ENC_2_U32" "\<not> v < ENC_3_U32" "\<not> v < ENC_4_U32" by blast
  then show ?thesis
  proof cases
    case f
    have "unat v < 2 ^ 32" using unsigned_less[of v, where 'a = nat] by simp
    then have lt: "(ucast v :: u64) < ENC_5_U64" by (simp add: word_less_nat_alt enc_vals)
    have "drop_bit 32 (ucast (v - ENC_4_U32) :: u64) = 0"
      by (rule bit_word_eqI) (auto simp: bit_simps dest: bit_imp_le_length)
    then show ?thesis
      using f lt by (simp add: enc_bytes_u32_def enc_bytes_u64_def encode_prefix_varint_u32_def
          encode_prefix_varint_u64_def e ucast_cmp ucast_sub[symmetric] Let_def be_bytes_u32)
        (simp add: copy_slice_def be_bytes_ucast, simp add: numeral_eq_Suc)
  qed (simp_all add: enc_bytes_u32_def enc_bytes_u64_def encode_prefix_varint_u32_def
      encode_prefix_varint_u64_def e ucast_cmp ucast_sub[symmetric] ucast_drop ucast_low Let_def numeral_eq_Suc)
qed

theorem varint_u32_roundtrip:
  "decode_prefix_varint_u32_loop (enc_bytes_u32 v @ rest) = Inr (v, length (enc_bytes_u32 v))"
proof -
  have "\<not> (ucast (- 1 :: u32) :: u64) < ucast v" by (simp add: ucast_cmp)
  moreover have "(ucast (ucast v :: u64) :: u32) = v" by (rule bit_word_eqI) (auto simp: bit_simps)
  ultimately show ?thesis
    unfolding decode_prefix_varint_u32_loop_def encode_u32_eq varint_u64_roundtrip by simp
qed

section \<open>Zigzag and flag bits\<close>

lemma and_one_iff: "w AND 1 = 1 \<longleftrightarrow> bit (w :: 'a::len word) 0" "w AND 1 = 0 \<longleftrightarrow> \<not> bit w 0"
  by (auto simp: and_one_eq odd_iff_mod_2_eq_one even_iff_mod_2_eq_zero bit_0)

lemma zigzag_bits:
  "bit (num_encode_zigzag_i64 v) n \<longleftrightarrow> n < 64 \<and> ((0 < n \<and> bit v (n - 1)) \<noteq> bit v 63)"
  unfolding num_encode_zigzag_i64_def bit_xor_iff bit_push_bit_iff bit_signed_drop_bit_iff
  by (cases n) (auto dest: bit_imp_le_length)

theorem zigzag_roundtrip: "num_decode_zigzag_i64 (num_encode_zigzag_i64 v) = v"
proof (rule bit_word_eqI)
  fix n :: nat assume n: "n < LENGTH(64)"
  have m: "- w - 1 = NOT w" for w :: u64 by (simp add: not_eq_complement)
  show "bit (num_decode_zigzag_i64 (num_encode_zigzag_i64 v)) n = bit v n"
    using n by (cases "n = 63") (auto simp: num_decode_zigzag_i64_def Let_def m and_one_iff bit_simps zigzag_bits)
qed

theorem zigzag_onto: "num_encode_zigzag_i64 (num_decode_zigzag_i64 u) = u"
proof (rule bit_word_eqI)
  fix n :: nat assume n: "n < LENGTH(64)"
  have m: "- w - 1 = NOT w" for w :: u64 by (simp add: not_eq_complement)
  show "bit (num_encode_zigzag_i64 (num_decode_zigzag_i64 u)) n = bit u n"
    using n by (cases n) (auto simp: num_decode_zigzag_i64_def Let_def m and_one_iff bit_simps zigzag_bits
        dest: bit_imp_le_length)
qed

lemma mix_strip_u64:
  assumes "unat v < 2 ^ 63"
  shows "strip_bit_u64 (mix_bit_u64 v b) = (v, b)"
proof -
  let ?m = "mix_bit_u64 v b"
  have u: "unat ?m = 2 * unat v + (if b then 1 else 0)"
    using assms by (cases b) (simp_all add: mix_bit_u64_def unat_word_ariths)
  have "unat (drop_bit 1 ?m) = unat v"
    using assms by (simp add: unsigned_drop_bit_eq) (simp add: drop_bit_eq_div u take_bit_nat_eq_self)
  moreover have "?m AND 1 \<noteq> 0 \<longleftrightarrow> b"
    using u by (auto simp: and_one_eq word_unat_eq_iff unat_mod)
  ultimately show ?thesis by (simp add: strip_bit_u64_def word_unat_eq_iff)
qed

section \<open>Where the format is not what the header says\<close>

lemma varint_not_bijective:
  "decode_prefix_varint_u64 [0xFE, 0x40, 0, 0, 0, 0, 0, 0] = Inr (ENC_8_U64, 8)"
  "decode_prefix_varint_u64 [0xFF, 0, 0, 0, 0, 0, 0, 0, 0] = Inr (ENC_8_U64, 9)"
  by code_simp+

lemma decode_u32_variants_differ:
  "decode_prefix_varint_u32 False [0xF0, 0xFF, 0xFF, 0xFF, 0xFF] = Inl InvalidVarInt"
  "decode_prefix_varint_u32 True [0xF0, 0xFF, 0xFF, 0xFF, 0xFF] = Inr (ENC_4_U32 - 1, 5)"
  by code_simp+

end
