(* ===== verification/Leb.thy ===== *)
theory Leb
  imports Varint
begin

text \<open>
  The LEB128 integers of \<open>list/encoding/leb.rs\<close>, which the list file format uses.  The unrolled
  encoder writes at most nine bytes with the continuation bit and one last byte; \<open>leb_steps n\<close>
  is the part of it with \<open>n\<close> calls of \<open>iter\<close> left.
\<close>

section \<open>Encoding\<close>

text \<open>\<open>iter\<close>: the byte, the value that is left, and whether there is more to write.\<close>

definition leb_iter :: "'a::len word \<Rightarrow> u8 \<times> 'a word \<times> bool" where
  "leb_iter value =
     (if value AND NOT 0x7F > 0
      then (ucast ((value AND 0x7F) OR 0x80), drop_bit 7 value, True)
      else (ucast value, value, False))"

fun leb_steps :: "nat \<Rightarrow> 'a::len word \<Rightarrow> u8 list" where
  "leb_steps 0 value = [ucast value]"
| "leb_steps (Suc n) value =
     (let (byte, value, more) = leb_iter value
      in if more then byte # leb_steps n value else [byte])"

text \<open>\<open>None\<close> is the panic on a short buffer; the result is the buffer and the bytes written.\<close>

definition encode_leb_u64 :: "u64 \<Rightarrow> u8 list \<Rightarrow> (u8 list \<times> nat) option" where
  "encode_leb_u64 value buf =
     (if length buf < 10 then None
      else (let bytes = leb_steps 9 value in Some (copy_slice buf 0 bytes, length bytes)))"

definition encode_leb_u32 :: "u32 \<Rightarrow> u8 list \<Rightarrow> (u8 list \<times> nat) option" where
  "encode_leb_u32 value buf =
     (if length buf < 5 then None
      else (let bytes = leb_steps 4 value in Some (copy_slice buf 0 bytes, length bytes)))"

definition encode_leb_usize :: "u64 \<Rightarrow> u8 list \<Rightarrow> (u8 list \<times> nat) option" where
  "encode_leb_usize value buf = encode_leb_u64 value buf"

section \<open>Decoding\<close>

fun leb_slow_loop :: "nat \<Rightarrow> u64 \<Rightarrow> u8 list \<Rightarrow> parse_error + u64 \<times> nat" where
  "leb_slow_loop i r [] = Inl UnexpectedEOF"
| "leb_slow_loop i r (b # bs) =
     (if i = 10 then Inl InvalidVarInt
      else if i = 9 \<and> b AND 0x7F > 1 then Inl InvalidVarInt
      else
        (let r = r OR push_bit (i * 7) (ucast (b AND 0x7F))
         in if b < 0x80 then Inr (r, i + 1) else leb_slow_loop (i + 1) r bs))"

definition decode_leb_u64_slow :: "u8 list \<Rightarrow> parse_error + u64 \<times> nat" where
  "decode_leb_u64_slow buf = leb_slow_loop 0 0 buf"

fun leb_fast_loop :: "nat \<Rightarrow> u64 \<Rightarrow> u8 list \<Rightarrow> parse_error + u64 \<times> nat" where
  "leb_fast_loop i r [] = Inl InvalidVarInt"
| "leb_fast_loop i r (b # bs) =
     (if i \<ge> 10 then Inl InvalidVarInt
      else if i = 9 \<and> b AND 0x7F > 1 then Inl InvalidVarInt
      else
        (let r = r OR push_bit (i * 7) (ucast (b AND 0x7F))
         in if b < 0x80 then Inr (r, i + 1) else leb_fast_loop (i + 1) r bs))"

definition decode_leb_u64 :: "u8 list \<Rightarrow> parse_error + u64 \<times> nat" where
  "decode_leb_u64 buf =
     (if buf = [] then Inl UnexpectedEOF
      else if buf ! 0 < 0x80 then Inr (ucast (buf ! 0), 1)
      else if length buf \<ge> 2 \<and> buf ! 1 < 0x80 then
        Inr (ucast (buf ! 0 AND 0x7F) OR push_bit 7 (ucast (buf ! 1)), 2)
      else if length buf \<ge> 10 then leb_fast_loop 0 0 buf
      else decode_leb_u64_slow buf)"

definition decode_leb_u32 :: "u8 list \<Rightarrow> parse_error + u32 \<times> nat" where
  "decode_leb_u32 buf =
     (case decode_leb_u64 buf of
        Inl e \<Rightarrow> Inl e
      | Inr (val, bytes_consumed) \<Rightarrow>
          if val \<ge> ucast (- 1 :: u32) then Inl InvalidVarInt else Inr (ucast val, bytes_consumed))"

definition decode_leb_usize :: "u8 list \<Rightarrow> parse_error + u64 \<times> nat" where
  "decode_leb_usize buf =
     (case decode_leb_u64 buf of Inl e \<Rightarrow> Inl e | Inr (val, count) \<Rightarrow> Inr (val, count))"

section \<open>The sign-and-magnitude zigzag of old files\<close>

definition num_encode_zigzag_i64_old :: "u64 \<Rightarrow> u64" where
  "num_encode_zigzag_i64_old val =
     (if sint val < 0 then - val else val) * 2 + (if sint val < 0 then 1 else 0)"

definition num_encode_zigzag_i32_old :: "u32 \<Rightarrow> u32" where
  "num_encode_zigzag_i32_old val =
     (if sint val < 0 then - val else val) * 2 + (if sint val < 0 then 1 else 0)"

definition num_encode_zigzag_isize_old :: "u64 \<Rightarrow> u64" where
  "num_encode_zigzag_isize_old val = num_encode_zigzag_i64_old val"

definition num_decode_zigzag_i64_old :: "u64 \<Rightarrow> u64" where
  "num_decode_zigzag_i64_old val = drop_bit 1 val * (if val AND 1 = 1 then - 1 else 1)"

definition num_decode_zigzag_i32_old :: "u32 \<Rightarrow> u32" where
  "num_decode_zigzag_i32_old val = drop_bit 1 val * (if val AND 1 = 1 then - 1 else 1)"

definition num_decode_zigzag_isize_old :: "u64 \<Rightarrow> u64" where
  "num_decode_zigzag_isize_old val = num_decode_zigzag_i64_old val"

end
