(* ===== verification/LebFacts.thy ===== *)
theory LebFacts
  imports Leb VarintFacts
begin

text \<open>
  The LEB128 integers round trip, the fast decoder agrees with the slow one except on ten
  continuation bytes, and the two places where the old formats lose a value.
\<close>

lemma u8_top: "b < 0x80 \<longleftrightarrow> \<not> bit (b :: u8) 7"
proof -
  have "b < 0x80 \<longleftrightarrow> b \<le> 0x7F" by (simp add: word_le_nat_alt word_less_nat_alt) linarith
  also have "\<dots> \<longleftrightarrow> leading_ones b = 0" by (rule leading_thresholds)
  also have "\<dots> \<longleftrightarrow> \<not> bit b 7" by (simp add: leading_ones_def upt_rec numeral_eq_Suc)
  finally show ?thesis .
qed

lemma masks7: "(0x7F :: u8) = mask 7" "(0x7F :: u64) = mask 7" "(0x80 :: u64) = push_bit 7 1" "(0x7F :: u32) = mask 7"
  "(0x80 :: u32) = push_bit 7 1"
  by (simp_all add: mask_eq_exp_minus_1)

lemma bit_80: "bit (0x80 :: u64) n \<longleftrightarrow> n = 7"
  unfolding masks7(3) bit_push_bit_iff by (auto simp: bit_1_iff)

lemma bit_80_u8: "bit (0x80 :: u8) n \<longleftrightarrow> n = 7"
proof -
  have "(0x80 :: u8) = push_bit 7 1" by simp
  then have "bit (0x80 :: u8) n \<longleftrightarrow> bit (push_bit 7 1 :: u8) n" by (simp only:)
  then show ?thesis unfolding bit_push_bit_iff by (auto simp: bit_1_iff)
qed

lemma low7_byte:
  fixes w :: u64
  defines "b \<equiv> ucast ((w AND 0x7F) OR 0x80) :: u8"
  shows "\<not> b < 0x80" "(ucast (b AND 0x7F) :: u64) = take_bit 7 w"
proof -
  show "\<not> b < 0x80" unfolding u8_top b_def masks7(1,2) by (simp add: bit_simps bit_80)
  show "(ucast (b AND 0x7F) :: u64) = take_bit 7 w"
  proof (rule bit_word_eqI)
    fix n :: nat assume "n < LENGTH(64)"
    show "bit (ucast (b AND 0x7F) :: u64) n = bit (take_bit 7 w) n"
      unfolding b_def masks7(1,2) bit_ucast_iff bit_and_iff bit_or_iff bit_mask_iff bit_80 bit_take_bit_iff
      using \<open>n < LENGTH(64)\<close> by auto
  qed
qed

lemma last_byte:
  fixes w :: u64
  assumes "unat w < 128"
  defines "b \<equiv> ucast w :: u8"
  shows "b < 0x80" "b AND 0x7F = b" "(ucast b :: u64) = w" "unat b = unat w"
proof -
  show u: "unat b = unat w" using assms(1) by (simp add: b_def unsigned_ucast_eq take_bit_nat_eq_self)
  show lt: "b < 0x80" using assms(1) u by (simp add: word_less_nat_alt)
  have "take_bit 7 b = b" using assms(1) u by (intro take_bit_small) simp
  then show "b AND 0x7F = b" unfolding masks7 by (simp add: take_bit_eq_mask)
  show "(ucast b :: u64) = w" using assms(1) u by (simp add: word_unat_eq_iff unsigned_ucast_eq take_bit_nat_eq_self)
qed

lemma unat_drop: "unat (drop_bit n w) = unat (w :: u64) div 2 ^ n"
proof -
  have "unat w < 2 ^ 64" using unsigned_less[of w, where 'a = nat] by simp
  then show ?thesis by (simp add: unsigned_drop_bit_eq) (simp add: drop_bit_eq_div take_bit_nat_eq_self)
qed

lemma more_iff: "0 < w AND NOT 0x7F \<longleftrightarrow> 128 \<le> unat (w :: u64)"
proof -
  have "w AND NOT (mask 7) = 0 \<longleftrightarrow> drop_bit 7 w = 0"
  proof
    assume a: "w AND NOT (mask 7) = 0"
    show "drop_bit 7 w = 0"
    proof (rule bit_word_eqI)
      fix n :: nat assume "n < LENGTH(64)"
      have "\<not> bit (w AND NOT (mask 7)) (7 + n)" by (simp add: a)
      then show "bit (drop_bit 7 w) n = bit (0 :: u64) n"
        by (auto simp: bit_simps dest: bit_imp_le_length)
    qed
  next
    assume a: "drop_bit 7 w = 0"
    show "w AND NOT (mask 7) = 0"
    proof (rule bit_word_eqI)
      fix n :: nat assume "n < LENGTH(64)"
      have "\<not> bit (drop_bit 7 w) (n - 7)" by (simp add: a)
      then show "bit (w AND NOT (mask 7)) n = bit (0 :: u64) n"
        by (cases "7 \<le> n") (auto simp: bit_simps)
    qed
  qed
  also have "\<dots> \<longleftrightarrow> unat w div 2 ^ 7 = 0" using unat_drop[of 7 w] by (simp add: word_unat_eq_iff)
  finally show ?thesis unfolding masks7 word_neq_0_conv[symmetric] by (simp add: div_eq_0_iff not_less)
qed

lemma leb_bits: "r OR push_bit n (take_bit 7 w) OR push_bit (n + 7) (drop_bit 7 w) = r OR push_bit n (w :: u64)"
proof (rule bit_word_eqI)
  fix k :: nat assume "k < LENGTH(64)"
  then show "bit (r OR push_bit n (take_bit 7 w) OR push_bit (n + 7) (drop_bit 7 w)) k = bit (r OR push_bit n w) k"
    by (cases "n + 7 \<le> k") (auto simp: bit_simps)
qed

lemma leb_slow_steps:
  "n + i = 9 \<Longrightarrow> unat w < 2 ^ (64 - 7 * i) \<Longrightarrow>
   leb_slow_loop i r (leb_steps n w @ rest) = Inr (r OR push_bit (i * 7) w, i + length (leb_steps n w))"
proof (induction n arbitrary: i w r)
  case 0
  then have i: "i = 9" and w: "unat w < 2" by simp_all
  note b = last_byte[of w]
  have "\<not> ((1 :: u8) < ucast w)" using w b(4) by (simp add: word_less_nat_alt)
  then show ?case using b w by (simp add: i)
next
  case (Suc n)
  show ?case
  proof (cases "128 \<le> unat w")
    case False
    then show ?thesis using last_byte[of w] Suc.prems(1) by (simp add: leb_iter_def more_iff[simplified])
  next
    case True
    have i: "i \<le> 8" "64 - 7 * i = (64 - 7 * (i + 1)) + 7" using Suc.prems(1) by auto
    have "unat (drop_bit 7 w) < 2 ^ (64 - 7 * (i + 1))"
      using Suc.prems(2) unfolding i(2) power_add by (simp add: unat_drop div_less_iff_less_mult)
    note IH = Suc.IH[of "i + 1" "drop_bit 7 w", OF _ this]
    show ?thesis
      using True Suc.prems(1) i(1) low7_byte[of w] IH leb_bits[of _ "i * 7" w]
      by (simp add: leb_iter_def more_iff[simplified] Let_def add.commute or.assoc)
  qed
qed

theorem leb_slow_roundtrip:
  "decode_leb_u64_slow (leb_steps 9 v @ rest) = Inr (v, length (leb_steps 9 v))"
proof -
  have "unat v < 2 ^ 64" using unsigned_less[of v, where 'a = nat] by simp
  then show ?thesis using leb_slow_steps[of 9 0 v 0 rest] by (simp add: decode_leb_u64_slow_def)
qed

section \<open>The two decoders\<close>

lemma leb_fast_eq_slow:
  "length bs + i \<noteq> 10 \<Longrightarrow> i \<le> 10 \<Longrightarrow> 10 \<le> length bs + i \<Longrightarrow> leb_fast_loop i r bs = leb_slow_loop i r bs"
  by (induction bs arbitrary: i r) (auto simp: Let_def)

lemma leb_fast_of_slow: "leb_slow_loop i r bs = Inr x \<Longrightarrow> i \<le> 10 \<Longrightarrow> leb_fast_loop i r bs = Inr x"
  by (induction bs arbitrary: i r) (auto simp: Let_def split: if_splits)

lemma low7_id: "b < (0x80 :: u8) \<Longrightarrow> b AND 0x7F = b"
proof -
  assume "b < (0x80 :: u8)"
  then have "take_bit 7 b = b" by (intro take_bit_small) (simp add: word_less_nat_alt)
  then show "b AND 0x7F = b" unfolding masks7 by (simp add: take_bit_eq_mask)
qed

lemma decode_leb_cases:
  "decode_leb_u64 buf =
    (if 10 \<le> length buf \<and> \<not> buf ! 0 < 0x80 \<and> \<not> buf ! 1 < 0x80 then leb_fast_loop 0 0 buf
     else decode_leb_u64_slow buf)"
proof (cases buf)
  case (Cons b bs)
  show ?thesis
  proof (cases "b < 0x80")
    case True
    then show ?thesis by (simp add: Cons decode_leb_u64_def decode_leb_u64_slow_def low7_id)
  next
    case False
    then show ?thesis
      by (cases bs) (auto simp: Cons decode_leb_u64_def decode_leb_u64_slow_def low7_id)
  qed
qed (simp add: decode_leb_u64_def decode_leb_u64_slow_def)

theorem decode_leb_eq_slow: "length buf \<noteq> 10 \<Longrightarrow> decode_leb_u64 buf = decode_leb_u64_slow buf"
  using leb_fast_eq_slow[of buf 0 0] by (simp add: decode_leb_cases decode_leb_u64_slow_def)

lemma decode_leb_differs:
  "decode_leb_u64 (replicate 10 0x80) = Inl InvalidVarInt"
  "decode_leb_u64_slow (replicate 10 0x80) = Inl UnexpectedEOF"
  by code_simp+

theorem leb_u64_roundtrip: "decode_leb_u64 (leb_steps 9 v @ rest) = Inr (v, length (leb_steps 9 v))"
  using leb_slow_roundtrip[of v rest] leb_fast_of_slow[of 0 0 "leb_steps 9 v @ rest"]
  by (simp add: decode_leb_cases decode_leb_u64_slow_def)

text \<open>\<open>u32::MAX\<close> encodes but does not decode.\<close>

lemma leb_u32_max: "decode_leb_u32 (leb_steps 4 (- 1 :: u32)) = Inl InvalidVarInt"
  by code_simp

lemma zigzag_old_min:
  "num_encode_zigzag_i64_old (0x8000000000000000) = 1" "num_decode_zigzag_i64_old 1 = 0"
  by code_simp+

lemma leb_steps_length: "length (leb_steps n w) \<le> Suc n"
  by (induction n arbitrary: w) (auto simp: Let_def split: prod.split)

lemma encode_leb_spec:
  assumes "10 \<le> length buf"
  shows "\<exists>buf' n. encode_leb_u64 v buf = Some (buf', n) \<and> n \<le> 10 \<and>
    (\<forall>rest. decode_leb_u64 (take n buf' @ rest) = Inr (v, n))"
  using assms leb_u64_roundtrip[of v] leb_steps_length[of 9 v]
  by (auto simp: encode_leb_u64_def copy_slice_def Let_def)

end
