(* ===== verification/BufParser.thy ===== *)
theory BufParser
  imports VarintNarrow
begin

text \<open>
  Writing and reading the chunks of the binary format: \<open>encoding/tools.rs\<close>,
  \<open>encoding/bufparser.rs\<close>, \<open>encoding/chunk_reader.rs\<close> and the chunk types of \<open>encoding/mod.rs\<close>.
  A parser is the list of bytes it has left; an operation returns its result and the parser
  afterwards, also when it fails.  The checksum of \<open>tools.rs\<close> is third-party code and is left out.
\<close>

section \<open>Writing\<close>

record stack_write_buf =
  sw_arr :: "u8 list"
  sw_pos :: nat

definition sw_new :: "nat \<Rightarrow> stack_write_buf" where
  "sw_new capacity = \<lparr>sw_arr = replicate capacity 0, sw_pos = 0\<rparr>"

definition sw_len :: "stack_write_buf \<Rightarrow> nat" where
  "sw_len b = sw_pos b"

definition sw_is_empty :: "stack_write_buf \<Rightarrow> bool" where
  "sw_is_empty b \<longleftrightarrow> sw_pos b \<noteq> 0"

definition sw_data_slice :: "stack_write_buf \<Rightarrow> u8 list" where
  "sw_data_slice b = take (sw_pos b) (sw_arr b)"

definition sw_try_extend :: "stack_write_buf \<Rightarrow> u8 list \<Rightarrow> stack_write_buf option" where
  "sw_try_extend b data =
     (let end_pos = sw_pos b + length data
      in if end_pos > length (sw_arr b) \<or> end_pos < sw_pos b then None
         else Some (b\<lparr>sw_arr := copy_slice (sw_arr b) (sw_pos b) data, sw_pos := end_pos\<rparr>))"

text \<open>The blanket implementation of \<open>TryExtendFromSlice\<close>, and the one of \<open>Vec\<close>.\<close>

definition try_of_extend :: "('v \<Rightarrow> u8 list \<Rightarrow> 'v) \<Rightarrow> 'v \<Rightarrow> u8 list \<Rightarrow> 'v option" where
  "try_of_extend ext into data = Some (ext into data)"

definition vec_extend :: "u8 list \<Rightarrow> u8 list \<Rightarrow> u8 list" where
  "vec_extend v data = v @ data"

text \<open>A \<open>str\<close> is the list of its bytes.\<close>

definition try_push_str :: "('v \<Rightarrow> u8 list \<Rightarrow> 'v option) \<Rightarrow> 'v \<Rightarrow> u8 list \<Rightarrow> 'v option" where
  "try_push_str try_ext into bytes =
     (case try_push_usize try_ext into (word_of_nat (length bytes)) of
        None \<Rightarrow> None | Some into \<Rightarrow> try_ext into bytes)"

definition push_str :: "('v \<Rightarrow> u8 list \<Rightarrow> 'v) \<Rightarrow> 'v \<Rightarrow> u8 list \<Rightarrow> 'v" where
  "push_str ext into bytes = ext (push_usize ext into (word_of_nat (length bytes))) bytes"

datatype chunk_type = FileInfo | DbId | UserData | StartBranch | Version | SetContent
  | SetContentCompressed | CausalGraph | Operations

fun chunk_code :: "chunk_type \<Rightarrow> u32" where
  "chunk_code FileInfo = 1"
| "chunk_code DbId = 2"
| "chunk_code UserData = 4"
| "chunk_code StartBranch = 10"
| "chunk_code Version = 12"
| "chunk_code SetContent = 15"
| "chunk_code SetContentCompressed = 16"
| "chunk_code CausalGraph = 21"
| "chunk_code Operations = 20"

definition chunk_types :: "chunk_type list" where
  "chunk_types = [FileInfo, DbId, UserData, StartBranch, Version, SetContent, SetContentCompressed,
     CausalGraph, Operations]"

text \<open>\<open>try_from\<close>, derived from the codes.\<close>

definition chunk_try_from :: "u32 \<Rightarrow> chunk_type option" where
  "chunk_try_from n = find (\<lambda>c. chunk_code c = n) chunk_types"

definition push_chunk_header :: "('v \<Rightarrow> u8 list \<Rightarrow> 'v option) \<Rightarrow> 'v \<Rightarrow> chunk_type \<Rightarrow> nat \<Rightarrow> 'v option" where
  "push_chunk_header try_ext into ct len =
     (case try_push_u32 try_ext into (chunk_code ct) of
        None \<Rightarrow> None | Some into \<Rightarrow> try_push_usize try_ext into (word_of_nat len))"

definition push_chunk :: "('v \<Rightarrow> u8 list \<Rightarrow> 'v option) \<Rightarrow> 'v \<Rightarrow> chunk_type \<Rightarrow> u8 list \<Rightarrow> 'v option" where
  "push_chunk try_ext into ct data =
     (case push_chunk_header try_ext into ct (length data) of
        None \<Rightarrow> None | Some into \<Rightarrow> try_ext into data)"

text \<open>\<open>DTSerializable\<close>: a value knows how to write itself, and tuples write their parts in order.\<close>

definition ser_pair :: "('v \<Rightarrow> 'a \<Rightarrow> 'v) \<Rightarrow> ('v \<Rightarrow> 'b \<Rightarrow> 'v) \<Rightarrow> 'v \<Rightarrow> 'a \<times> 'b \<Rightarrow> 'v" where
  "ser_pair sa sb into x = sb (sa into (fst x)) (snd x)"

definition try_ser_pair :: "('v \<Rightarrow> 'a \<Rightarrow> 'v option) \<Rightarrow> ('v \<Rightarrow> 'b \<Rightarrow> 'v option) \<Rightarrow> 'v \<Rightarrow> 'a \<times> 'b \<Rightarrow> 'v option" where
  "try_ser_pair sa sb into x = (case sa into (fst x) of None \<Rightarrow> None | Some into \<Rightarrow> sb into (snd x))"

definition ser_triple :: "('v \<Rightarrow> 'a \<Rightarrow> 'v) \<Rightarrow> ('v \<Rightarrow> 'b \<Rightarrow> 'v) \<Rightarrow> ('v \<Rightarrow> 'c \<Rightarrow> 'v) \<Rightarrow> 'v \<Rightarrow> 'a \<times> 'b \<times> 'c \<Rightarrow> 'v" where
  "ser_triple sa sb sc into x = (case x of (a, b, c) \<Rightarrow> sc (sb (sa into a) b) c)"

definition try_ser_triple :: "('v \<Rightarrow> 'a \<Rightarrow> 'v option) \<Rightarrow> ('v \<Rightarrow> 'b \<Rightarrow> 'v option) \<Rightarrow> ('v \<Rightarrow> 'c \<Rightarrow> 'v option)
    \<Rightarrow> 'v \<Rightarrow> 'a \<times> 'b \<times> 'c \<Rightarrow> 'v option" where
  "try_ser_triple sa sb sc into x = (case x of (a, b, c) \<Rightarrow>
     Option.bind (sa into a) (\<lambda>into. Option.bind (sb into b) (\<lambda>into. sc into c)))"

section \<open>Reading\<close>

type_synonym parser = "u8 list"

definition bp_check_has_bytes :: "parser \<Rightarrow> nat \<Rightarrow> parse_error + unit" where
  "bp_check_has_bytes p num = (if length p < num then Inl UnexpectedEOF else Inr ())"

definition bp_check_not_empty :: "parser \<Rightarrow> parse_error + unit" where
  "bp_check_not_empty p = bp_check_has_bytes p 1"

definition bp_is_empty :: "parser \<Rightarrow> bool" where
  "bp_is_empty p \<longleftrightarrow> p = []"

definition bp_expect_empty :: "parser \<Rightarrow> parse_error + unit" where
  "bp_expect_empty p = (if bp_is_empty p then Inr () else Inl InvalidLength)"

definition bp_len :: "parser \<Rightarrow> nat" where
  "bp_len p = length p"

text \<open>
  A read returns its result and the parser afterwards.  \<open>None\<close> is a panic, or the undefined behaviour of
  \<open>get_unchecked\<close> past the end; \<open>bp_try\<close> is the operator \<open>?\<close>.
\<close>

type_synonym 'a read = "((parse_error + 'a) \<times> parser) option"

definition bp_try :: "'a read \<Rightarrow> ('a \<Rightarrow> parser \<Rightarrow> 'b read) \<Rightarrow> 'b read" where
  "bp_try r k =
     (case r of
        None \<Rightarrow> None
      | Some (Inl e, p) \<Rightarrow> Some (Inl e, p)
      | Some (Inr x, p) \<Rightarrow> k x p)"

lemma bp_try_simps [simp]:
  "bp_try None k = None" "bp_try (Some (Inl e, p)) k = Some (Inl e, p)" "bp_try (Some (Inr x, p)) k = k x p"
  by (simp_all add: bp_try_def)

definition bp_consume :: "parser \<Rightarrow> nat \<Rightarrow> parser option" where
  "bp_consume p num = (if num \<le> length p then Some (drop num p) else None)"

text \<open>\<open>split_at\<close> of the standard library panics past the end.\<close>

definition slice_split_at :: "u8 list \<Rightarrow> nat \<Rightarrow> (u8 list \<times> u8 list) option" where
  "slice_split_at p n = (if n \<le> length p then Some (take n p, drop n p) else None)"

definition bp_peek_u32 :: "bool \<Rightarrow> parser \<Rightarrow> parse_error + u32 option" where
  "bp_peek_u32 wasm p =
     (if bp_is_empty p then Inr None
      else (case decode_prefix_varint_u32 wasm p of Inl e \<Rightarrow> Inl e | Inr (v, _) \<Rightarrow> Inr (Some v)))"

definition bp_next_u32 :: "bool \<Rightarrow> parser \<Rightarrow> u32 read" where
  "bp_next_u32 wasm p =
     (case bp_check_not_empty p of
        Inl e \<Rightarrow> Some (Inl e, p)
      | Inr _ \<Rightarrow>
          (case decode_prefix_varint_u32 wasm p of
             Inl e \<Rightarrow> Some (Inl e, p)
           | Inr (val, count) \<Rightarrow> (case bp_consume p count of None \<Rightarrow> None | Some p \<Rightarrow> Some (Inr val, p))))"

text \<open>The slice \<open>[0..4]\<close> panics on a short buffer.\<close>

definition bp_next_u32_le :: "parser \<Rightarrow> u32 read" where
  "bp_next_u32_le p =
     (if length p < 4 then None
      else (case bp_consume p 4 of None \<Rightarrow> None | Some p' \<Rightarrow> Some (Inr (from_be (rev (take 4 p))), p')))"

definition bp_next_u64 :: "parser \<Rightarrow> u64 read" where
  "bp_next_u64 p =
     (case bp_check_not_empty p of
        Inl e \<Rightarrow> Some (Inl e, p)
      | Inr _ \<Rightarrow>
          (case decode_prefix_varint_u64 p of
             Inl e \<Rightarrow> Some (Inl e, p)
           | Inr (val, count) \<Rightarrow> (case bp_consume p count of None \<Rightarrow> None | Some p \<Rightarrow> Some (Inr val, p))))"

definition bp_next_usize :: "parser \<Rightarrow> u64 read" where
  "bp_next_usize p =
     (case bp_check_not_empty p of
        Inl e \<Rightarrow> Some (Inl e, p)
      | Inr _ \<Rightarrow>
          (case decode_prefix_varint_usize p of
             Inl e \<Rightarrow> Some (Inl e, p)
           | Inr (val, count) \<Rightarrow> (case bp_consume p count of None \<Rightarrow> None | Some p \<Rightarrow> Some (Inr val, p))))"

definition bp_next_zigzag_isize :: "parser \<Rightarrow> u64 read" where
  "bp_next_zigzag_isize p = bp_try (bp_next_usize p) (\<lambda>n p. Some (Inr (num_decode_zigzag_isize n), p))"

definition bp_next_n_bytes :: "parser \<Rightarrow> u64 \<Rightarrow> u8 list read" where
  "bp_next_n_bytes p num_bytes =
     (if unat num_bytes > length p then Some (Inl UnexpectedEOF, p)
      else (case slice_split_at p (unat num_bytes) of
              None \<Rightarrow> None
            | Some (data, remainder) \<Rightarrow> Some (Inr data, remainder)))"

text \<open>The well-formed byte sequences of UTF-8, which \<open>str::from_utf8\<close> of the standard library accepts.\<close>

definition utf8_cont :: "u8 \<Rightarrow> bool" where
  "utf8_cont b \<longleftrightarrow> 0x80 \<le> b \<and> b \<le> 0xBF"

fun utf8_valid :: "u8 list \<Rightarrow> bool" where
  "utf8_valid [] = True"
| "utf8_valid (a # bs) =
     (if a \<le> 0x7F then utf8_valid bs
      else (case bs of
              [] \<Rightarrow> False
            | b # cs \<Rightarrow>
                if 0xC2 \<le> a \<and> a \<le> 0xDF then utf8_cont b \<and> utf8_valid cs
                else (case cs of
                        [] \<Rightarrow> False
                      | c # ds \<Rightarrow>
                          if a = 0xE0 then 0xA0 \<le> b \<and> b \<le> 0xBF \<and> utf8_cont c \<and> utf8_valid ds
                          else if a = 0xED then 0x80 \<le> b \<and> b \<le> 0x9F \<and> utf8_cont c \<and> utf8_valid ds
                          else if 0xE1 \<le> a \<and> a \<le> 0xEF then utf8_cont b \<and> utf8_cont c \<and> utf8_valid ds
                          else (case ds of
                                  [] \<Rightarrow> False
                                | d # es \<Rightarrow>
                                    if a = 0xF0 then 0x90 \<le> b \<and> b \<le> 0xBF \<and> utf8_cont c \<and> utf8_cont d \<and> utf8_valid es
                                    else if a = 0xF4 then 0x80 \<le> b \<and> b \<le> 0x8F \<and> utf8_cont c \<and> utf8_cont d \<and> utf8_valid es
                                    else if 0xF1 \<le> a \<and> a \<le> 0xF3 then utf8_cont b \<and> utf8_cont c \<and> utf8_cont d \<and> utf8_valid es
                                    else False))))"

definition bp_next_str :: "parser \<Rightarrow> u8 list read" where
  "bp_next_str p =
     (if p = [] then Some (Inl UnexpectedEOF, p)
      else bp_try (bp_next_usize p) (\<lambda>len p.
        if unat len > length p then Some (Inl InvalidLength, p)
        else bp_try (bp_next_n_bytes p len) (\<lambda>bytes p.
          if utf8_valid bytes then Some (Inr bytes, p) else Some (Inl InvalidUTF8, p))))"

section \<open>Chunks\<close>

definition next_chunk_raw :: "bool \<Rightarrow> parser \<Rightarrow> (chunk_type \<times> parser) read" where
  "next_chunk_raw wasm p =
     bp_try (bp_next_u32 wasm p) (\<lambda>code p.
       let chunk_type = chunk_try_from code
       in bp_try (bp_next_usize p) (\<lambda>len p.
            if unat len > bp_len p then Some (Inl InvalidLength, p)
            else bp_try (bp_next_n_bytes p len) (\<lambda>reader p.
              case chunk_type of
                None \<Rightarrow> Some (Inl UnknownChunk, p)
              | Some c \<Rightarrow> Some (Inr (c, reader), p))))"

lemma decode_u64_result:
  "decode_prefix_varint_u64 p = Inl e \<Longrightarrow> e = UnexpectedEOF"
  "decode_prefix_varint_u64 p = Inr (v, n) \<Longrightarrow> 0 < n \<and> n \<le> length p"
  by (auto simp: decode_prefix_varint_u64_def Let_def not_less Suc_le_eq split: if_splits)

lemma decode_u32_result:
  "decode_prefix_varint_u32 w p = Inl e \<Longrightarrow> e \<in> {UnexpectedEOF, InvalidVarInt}"
  "decode_prefix_varint_u32 w p = Inr (v', n) \<Longrightarrow> 0 < n \<and> n \<le> length p"
proof -
  show "decode_prefix_varint_u32 w p = Inl e \<Longrightarrow> e \<in> {UnexpectedEOF, InvalidVarInt}"
    using decode_u64_result(1)[of p]
    by (auto simp: decode_prefix_varint_u32_def decode_prefix_varint_u32_loop_def
        decode_prefix_varint_u32_unroll_def Let_def split: if_splits sum.splits)
  show "decode_prefix_varint_u32 w p = Inr (v', n) \<Longrightarrow> 0 < n \<and> n \<le> length p"
    using decode_u64_result(2)[of p]
    by (cases w) (auto simp: decode_prefix_varint_u32_def decode_prefix_varint_u32_loop_def
        decode_prefix_varint_u32_unroll_def Let_def not_less Suc_le_eq split: if_splits sum.splits)
qed

lemma decode_usize_eq: "decode_prefix_varint_usize p = decode_prefix_varint_u64 p"
  by (simp add: decode_prefix_varint_usize_def split: sum.split)

lemma decode_u64_empty [simp]: "decode_prefix_varint_u64 [] = Inl UnexpectedEOF"
  by (simp add: decode_prefix_varint_u64_def)

lemma decode_u32_empty [simp]: "decode_prefix_varint_u32 w [] = Inl UnexpectedEOF"
  by (simp add: decode_prefix_varint_u32_def decode_prefix_varint_u32_loop_def decode_prefix_varint_u32_unroll_def)

text \<open>
  The reads of numbers never panic: each is the decoder at the start of the buffer, which on success
  leaves what follows the number and on failure consumes nothing.
\<close>

lemma bp_next_u32_decode:
  "bp_next_u32 w p = (case decode_prefix_varint_u32 w p of
     Inl e \<Rightarrow> Some (Inl e, p) | Inr (v, n) \<Rightarrow> Some (Inr v, drop n p))"
  using decode_u32_result[of w p]
  by (auto simp: bp_next_u32_def bp_check_not_empty_def bp_check_has_bytes_def bp_consume_def
      split: sum.splits)

lemma bp_next_usize_decode:
  "bp_next_usize p = (case decode_prefix_varint_usize p of
     Inl e \<Rightarrow> Some (Inl e, p) | Inr (v, n) \<Rightarrow> Some (Inr v, drop n p))"
  using decode_u64_result[of p]
  by (auto simp: bp_next_usize_def bp_check_not_empty_def bp_check_has_bytes_def bp_consume_def
      decode_usize_eq split: sum.splits)

lemma bp_next_n_bytes_split:
  "unat n \<le> length p \<Longrightarrow> bp_next_n_bytes p n = Some (Inr (take (unat n) p), drop (unat n) p)"
  by (simp add: bp_next_n_bytes_def slice_split_at_def)

text \<open>The body of \<open>next_chunk_raw\<close> as one equation over the two decoders.\<close>

lemma next_chunk_raw_decode:
  "next_chunk_raw w p =
     (case decode_prefix_varint_u32 w p of
        Inl e \<Rightarrow> Some (Inl e, p)
      | Inr (code, n) \<Rightarrow>
          (case decode_prefix_varint_usize (drop n p) of
             Inl e \<Rightarrow> Some (Inl e, drop n p)
           | Inr (len, m) \<Rightarrow>
               (let q = drop (n + m) p
                in if length q < unat len then Some (Inl InvalidLength, q)
                   else (case chunk_try_from code of
                           None \<Rightarrow> Some (Inl UnknownChunk, drop (unat len) q)
                         | Some c \<Rightarrow> Some (Inr (c, take (unat len) q), drop (unat len) q)))))"
  by (auto simp: next_chunk_raw_def bp_next_u32_decode bp_next_usize_decode bp_next_n_bytes_split bp_len_def
      Let_def add.commute not_less split: sum.split option.split)

lemma next_chunk_raw_shrinks:
  assumes "next_chunk_raw w p = Some (Inl UnknownChunk, p')"
  shows "length p' < length p"
proof -
  have "\<not> (decode_prefix_varint_u32 w p = Inl UnknownChunk)" "\<not> (decode_prefix_varint_usize q = Inl UnknownChunk)" for q
    using decode_u32_result(1)[of w p UnknownChunk] decode_u64_result(1)[of q UnknownChunk]
    by (auto simp: decode_usize_eq)
  then show ?thesis
    using assms decode_u32_result(2)[of w p]
    by (force simp: next_chunk_raw_decode Let_def split: sum.splits prod.splits if_splits option.splits)
qed

text \<open>\<open>next_chunk\<close> skips unknown chunks; it ends because every chunk it skips is shorter than the input.\<close>

function next_chunk :: "bool \<Rightarrow> parser \<Rightarrow> (chunk_type \<times> parser) read" where
  "next_chunk wasm p =
     (case next_chunk_raw wasm p of
        Some (Inl UnknownChunk, p') \<Rightarrow> next_chunk wasm p'
      | c \<Rightarrow> c)"
  by auto
termination
  by (relation "measure (\<lambda>(_, p). length p)") (auto dest!: sym[of "Some _" "next_chunk_raw _ _"] next_chunk_raw_shrinks)

declare next_chunk.simps [simp del]

definition chunk_reader_next :: "bool \<Rightarrow> parser \<Rightarrow> ((parse_error + chunk_type \<times> parser) option \<times> parser) option" where
  "chunk_reader_next wasm p =
     (if bp_is_empty p then Some (None, p)
      else (case next_chunk wasm p of None \<Rightarrow> None | Some (c, p) \<Rightarrow> Some (Some c, p)))"

definition read_chunk_if_eq :: "bool \<Rightarrow> chunk_type \<Rightarrow> parser \<Rightarrow> parser option read" where
  "read_chunk_if_eq wasm expect_chunk_type p =
     (case bp_peek_u32 wasm p of
        Inl e \<Rightarrow> Some (Inl e, p)
      | Inr (Some actual_chunk_type) \<Rightarrow>
          if actual_chunk_type \<noteq> chunk_code expect_chunk_type then Some (Inr None, p)
          else bp_try (next_chunk wasm p) (\<lambda>(_, c) p. Some (Inr (Some c), p))
      | Inr None \<Rightarrow> Some (Inr None, p))"

definition expect_chunk_pred :: "bool \<Rightarrow> (chunk_type \<Rightarrow> bool) \<Rightarrow> chunk_type \<Rightarrow> parser \<Rightarrow> (chunk_type \<times> parser) read" where
  "expect_chunk_pred wasm pred err_type p =
     bp_try (next_chunk wasm p) (\<lambda>(actual_chunk_type, r) p.
       if pred actual_chunk_type then Some (Inr (actual_chunk_type, r), p)
       else Some (Inl (MissingChunk (chunk_code err_type)), p))"

definition expect_chunk :: "bool \<Rightarrow> chunk_type \<Rightarrow> parser \<Rightarrow> parser read" where
  "expect_chunk wasm expect_chunk_type p =
     bp_try (expect_chunk_pred wasm (\<lambda>c. c = expect_chunk_type) expect_chunk_type p) (\<lambda>(_, r) p. Some (Inr r, p))"

section \<open>Round trips\<close>

lemma chunk_try_from_code [simp]: "chunk_try_from (chunk_code c) = Some c"
  by (cases c) (simp_all add: chunk_try_from_def chunk_types_def)

lemma bp_next_u32_push:
  "bp_next_u32 False (push_u32 vec_extend [] v @ rest) = Some (Inr v, rest)"
proof -
  have "push_u32 vec_extend [] v = enc_bytes_u32 v"
    by (simp add: push_u32_def vec_extend_def enc_bytes_u32_def split: prod.split)
  then show ?thesis
    by (simp add: bp_next_u32_decode decode_prefix_varint_u32_def varint_u32_roundtrip)
qed

lemma bp_next_usize_push:
  "bp_next_usize (push_usize vec_extend [] v @ rest) = Some (Inr v, rest)"
proof -
  have "push_usize vec_extend [] v = enc_bytes_u64 v"
    by (simp add: push_usize_def push_u64_def vec_extend_def enc_bytes_u64_def split: prod.split)
  then show ?thesis
    by (simp add: bp_next_usize_decode decode_prefix_varint_usize_def varint_u64_roundtrip)
qed

lemma push_vec: "push_u32 vec_extend v n = v @ push_u32 vec_extend [] n"
  "push_usize vec_extend v m = v @ push_usize vec_extend [] m"
  by (simp_all add: push_u32_def push_usize_def push_u64_def vec_extend_def split: prod.split)

lemma try_push_vec:
  "try_push_u32 (try_of_extend vec_extend) v n = Some (push_u32 vec_extend v n)"
  "try_push_usize (try_of_extend vec_extend) v m = Some (push_usize vec_extend v m)"
  by (simp_all add: try_push_u32_def try_push_usize_def try_push_u64_def push_u32_def push_usize_def push_u64_def
      try_of_extend_def split: prod.split)

lemma length_fits: "length bs < 2 ^ 64 \<Longrightarrow> unat (word_of_nat (length bs) :: u64) = length bs"
  by (simp add: unsigned_of_nat take_bit_nat_eq_self)

lemma bp_next_str_push:
  assumes "utf8_valid s" "length s < 2 ^ 64"
  shows "bp_next_str (push_str vec_extend [] s @ rest) = Some (Inr s, rest)"
proof -
  have "bp_next_usize (push_str vec_extend [] s @ rest) = Some (Inr (word_of_nat (length s)), s @ rest)"
    using bp_next_usize_push[of "word_of_nat (length s)" "s @ rest"] by (simp add: push_str_def vec_extend_def)
  moreover from this have "push_str vec_extend [] s @ rest \<noteq> []"
    by (auto simp: bp_next_usize_def bp_check_not_empty_def bp_check_has_bytes_def)
  ultimately show ?thesis
    using assms by (simp add: bp_next_str_def bp_next_n_bytes_split length_fits)
qed

lemma next_chunk_push:
  assumes "length data < 2 ^ 64"
  shows "\<exists>bytes. push_chunk (try_of_extend vec_extend) v ct data = Some (v @ bytes) \<and>
    next_chunk False (bytes @ rest) = Some (Inr (ct, data), rest)"
proof -
  let ?len = "word_of_nat (length data) :: u64"
  let ?bytes = "push_u32 vec_extend [] (chunk_code ct) @ push_usize vec_extend [] ?len @ data"
  have p: "push_chunk (try_of_extend vec_extend) v ct data = Some (v @ ?bytes)"
    by (simp add: push_chunk_def push_chunk_header_def try_push_vec push_vec[of v]
        push_vec(2)[of "v @ push_u32 vec_extend [] (chunk_code ct)"] try_of_extend_def vec_extend_def)
  have u: "bp_next_u32 False (?bytes @ rest) =
      Some (Inr (chunk_code ct), push_usize vec_extend [] ?len @ data @ rest)"
    using bp_next_u32_push[of "chunk_code ct" "push_usize vec_extend [] ?len @ data @ rest"] by simp
  have "next_chunk_raw False (?bytes @ rest) = Some (Inr (ct, data), rest)"
    unfolding next_chunk_raw_def u
    by (simp add: bp_next_usize_push bp_next_n_bytes_split bp_len_def length_fits[OF assms])
  then have "next_chunk False (?bytes @ rest) = Some (Inr (ct, data), rest)" by (simp add: next_chunk.simps)
  then show ?thesis using p by blast
qed

section \<open>What a reader finds\<close>

text \<open>
  A chunk stands at the start of \<open>p\<close> with its kind, its length and its body.  A reader passes over chunks
  of unknown kind; it stops with an error where the kind or the length is not a number, or the length is
  more than what is left.
\<close>

definition chunk_at :: "bool \<Rightarrow> parser \<Rightarrow> u32 \<Rightarrow> parser \<Rightarrow> parser \<Rightarrow> bool" where
  "chunk_at w p code body p' \<longleftrightarrow>
     (\<exists>n len m. decode_prefix_varint_u32 w p = Inr (code, n) \<and> decode_prefix_varint_usize (drop n p) = Inr (len, m) \<and>
        length body = unat len \<and> p = take (n + m) p @ body @ p')"

inductive chunk_skips :: "bool \<Rightarrow> parser \<Rightarrow> parser \<Rightarrow> bool" for w where
  skip_none: "chunk_skips w p p"
| skip_unknown: "chunk_at w p code body q \<Longrightarrow> code \<notin> set (map chunk_code chunk_types) \<Longrightarrow> chunk_skips w q r \<Longrightarrow>
    chunk_skips w p r"

inductive chunk_fails :: "bool \<Rightarrow> parser \<Rightarrow> parse_error \<Rightarrow> parser \<Rightarrow> bool" for w where
  bad_kind: "decode_prefix_varint_u32 w p = Inl e \<Longrightarrow> chunk_fails w p e p"
| bad_length: "decode_prefix_varint_u32 w p = Inr (code, n) \<Longrightarrow> decode_prefix_varint_usize (drop n p) = Inl e \<Longrightarrow>
    chunk_fails w p e (drop n p)"
| too_long: "decode_prefix_varint_u32 w p = Inr (code, n) \<Longrightarrow> decode_prefix_varint_usize (drop n p) = Inr (len, m) \<Longrightarrow>
    length (drop (n + m) p) < unat len \<Longrightarrow> chunk_fails w p InvalidLength (drop (n + m) p)"

inductive_simps chunk_fails_iff: "chunk_fails w p e p'"
inductive_cases chunk_skipsE: "chunk_skips w p r"

text \<open>A read of one chunk has one of three outcomes, and each excludes the other two.\<close>

lemma chunk_try_from_known:
  "chunk_try_from code = Some c \<longleftrightarrow> code = chunk_code c"
  "chunk_try_from code = None \<longleftrightarrow> code \<notin> set (map chunk_code chunk_types)"
proof -
  show "chunk_try_from code = Some c \<longleftrightarrow> code = chunk_code c"
    by (metis (mono_tags, lifting) chunk_try_from_code chunk_try_from_def find_Some_iff)
  show "chunk_try_from code = None \<longleftrightarrow> code \<notin> set (map chunk_code chunk_types)"
    by (auto simp: chunk_try_from_def find_None_iff)
qed

lemma chunk_at_iff:
  assumes "decode_prefix_varint_u32 w p = Inr (code, n)" "decode_prefix_varint_usize (drop n p) = Inr (len, m)"
  shows "chunk_at w p code' body p' \<longleftrightarrow> code' = code \<and> unat len \<le> length (drop (n + m) p) \<and>
    body = take (unat len) (drop (n + m) p) \<and> p' = drop (unat len) (drop (n + m) p)"
proof -
  have "p = take (n + m) p @ q \<longleftrightarrow> drop (n + m) p = q" for q
    by (metis append_take_drop_id same_append_eq)
  then have "chunk_at w p code' body p' \<longleftrightarrow> code' = code \<and> length body = unat len \<and> drop (n + m) p = body @ p'"
    using assms by (auto simp: chunk_at_def)
  also have "length body = unat len \<and> drop (n + m) p = body @ p' \<longleftrightarrow> unat len \<le> length (drop (n + m) p) \<and>
    body = take (unat len) (drop (n + m) p) \<and> p' = drop (unat len) (drop (n + m) p)"
    by (auto simp del: drop_drop length_drop)
  finally show ?thesis .
qed

lemma chunk_at_decodes:
  assumes "chunk_at w p code body p'"
  obtains n len m where "decode_prefix_varint_u32 w p = Inr (code, n)" "decode_prefix_varint_usize (drop n p) = Inr (len, m)"
  using assms by (auto simp: chunk_at_def)

lemma next_chunk_raw_outcome:
  "(\<exists>c body p'. next_chunk_raw w p = Some (Inr (c, body), p') \<and> chunk_at w p (chunk_code c) body p') \<or>
   (\<exists>code body p'. next_chunk_raw w p = Some (Inl UnknownChunk, p') \<and> chunk_at w p code body p' \<and>
      code \<notin> set (map chunk_code chunk_types)) \<or>
   (\<exists>e p'. next_chunk_raw w p = Some (Inl e, p') \<and> chunk_fails w p e p')"
proof (cases "decode_prefix_varint_u32 w p")
  case (Inl e)
  then show ?thesis by (simp add: next_chunk_raw_decode chunk_fails_iff)
next
  case (Inr r)
  obtain code n where r: "r = (code, n)" by (cases r)
  note k = Inr[unfolded r]
  show ?thesis
  proof (cases "decode_prefix_varint_usize (drop n p)")
    case (Inl e)
    then show ?thesis using k by (simp add: next_chunk_raw_decode chunk_fails_iff)
  next
    case (Inr r)
    obtain len m where r: "r = (len, m)" by (cases r)
    note l = Inr[unfolded r]
    note raw = next_chunk_raw_decode[of w p, unfolded k sum.case prod.case l Let_def]
    show ?thesis
    proof (cases "length (drop (n + m) p) < unat len")
      case True
      then have "chunk_fails w p InvalidLength (drop (n + m) p)" by (rule chunk_fails.too_long[OF k l])
      then show ?thesis using raw True by simp
    next
      case False
      have at: "chunk_at w p code (take (unat len) (drop (n + m) p)) (drop (unat len) (drop (n + m) p))"
        using False by (simp add: chunk_at_iff[OF k l])
      show ?thesis
      proof (cases "chunk_try_from code")
        case None
        then have "next_chunk_raw w p = Some (Inl UnknownChunk, drop (unat len) (drop (n + m) p))" using raw False by simp
        then show ?thesis using at None chunk_try_from_known(2)[of code] by blast
      next
        case (Some c)
        then have "next_chunk_raw w p = Some (Inr (c, take (unat len) (drop (n + m) p)), drop (unat len) (drop (n + m) p))"
          using raw False by simp
        then show ?thesis using at Some chunk_try_from_known(1)[of code c] by blast
      qed
    qed
  qed
qed

lemma chunk_at_unique:
  assumes "chunk_at w p code body p'" "chunk_at w p code' body' p''"
  shows "code' = code" "body' = body" "p'' = p'"
proof -
  obtain n len m where d: "decode_prefix_varint_u32 w p = Inr (code, n)" "decode_prefix_varint_usize (drop n p) = Inr (len, m)"
    by (rule chunk_at_decodes[OF assms(1)])
  show "code' = code" "body' = body" "p'' = p'" using assms by (simp_all add: chunk_at_iff[OF d])
qed

lemma chunk_at_not_fails:
  assumes "chunk_at w p code body p'"
  shows "\<not> chunk_fails w p e p''"
proof -
  obtain n len m where d: "decode_prefix_varint_u32 w p = Inr (code, n)" "decode_prefix_varint_usize (drop n p) = Inr (len, m)"
    by (rule chunk_at_decodes[OF assms])
  show ?thesis using assms unfolding chunk_at_iff[OF d] by (simp add: chunk_fails_iff d)
qed

lemma chunk_fails_unique: "chunk_fails w p e p' \<Longrightarrow> chunk_fails w p e' p'' \<Longrightarrow> e' = e \<and> p'' = p'"
  by (auto simp: chunk_fails_iff)

lemma chunk_fails_errors: "chunk_fails w p e p' \<Longrightarrow> e \<in> {UnexpectedEOF, InvalidVarInt, InvalidLength}"
  using decode_u32_result(1)[of w p e] decode_u64_result(1)
  by (auto simp: chunk_fails_iff decode_usize_eq)

text \<open>From a chunk of unknown kind the search goes on behind it; elsewhere it stops.\<close>

lemma chunk_skips_known:
  assumes "chunk_skips w p q" "chunk_at w p (chunk_code c) body p' \<or> chunk_fails w p e p'"
  shows "q = p"
  using assms(1)
proof cases
  case (skip_unknown code b r)
  have "chunk_code c \<in> set (map chunk_code chunk_types)" by (cases c) (simp_all add: chunk_types_def)
  then show ?thesis using skip_unknown assms(2) chunk_at_unique(1) chunk_at_not_fails by metis
qed simp

lemma chunk_skips_unknown:
  assumes "chunk_at w p code body p'" "code \<notin> set (map chunk_code chunk_types)"
    and stop: "chunk_at w q (chunk_code c) b q' \<or> chunk_fails w q e q'"
  shows "chunk_skips w p q \<longleftrightarrow> chunk_skips w p' q"
proof
  assume "chunk_skips w p q"
  then show "chunk_skips w p' q"
  proof cases
    case skip_none
    have "chunk_code c \<in> set (map chunk_code chunk_types)" by (cases c) (simp_all add: chunk_types_def)
    then show ?thesis using skip_none stop assms chunk_at_unique(1) chunk_at_not_fails by metis
  next
    case (skip_unknown code b r)
    then show ?thesis using chunk_at_unique(3)[OF assms(1)] by metis
  qed
qed (rule chunk_skips.skip_unknown[OF assms(1,2)])

definition chunk_found :: "bool \<Rightarrow> parser \<Rightarrow> parse_error + chunk_type \<times> parser \<Rightarrow> parser \<Rightarrow> bool" where
  "chunk_found w q r p' \<longleftrightarrow>
     (case r of Inl e \<Rightarrow> chunk_fails w q e p' | Inr (c, body) \<Rightarrow> chunk_at w q (chunk_code c) body p')"

lemma chunk_foundE:
  assumes "chunk_found w p r p'"
  obtains (chunk) c body where "r = Inr (c, body)" "chunk_at w p (chunk_code c) body p'"
  | (error) e where "r = Inl e" "chunk_fails w p e p'"
  using assms by (auto simp: chunk_found_def split: sum.splits)

lemma chunk_found_skips:
  "chunk_found w p r p' \<Longrightarrow> chunk_skips w p q \<Longrightarrow> q = p"
  "chunk_found w q r q' \<Longrightarrow> chunk_at w p code body p' \<Longrightarrow> code \<notin> set (map chunk_code chunk_types) \<Longrightarrow>
    chunk_skips w p q \<longleftrightarrow> chunk_skips w p' q"
  by (erule chunk_foundE, metis chunk_skips_known, metis chunk_skips_known)
    (erule chunk_foundE, metis chunk_skips_unknown, metis chunk_skips_unknown)

lemma chunk_found_unique:
  assumes "chunk_found w q r q'"
  shows "chunk_found w q r' q'' \<longleftrightarrow> r' = r \<and> q'' = q'"
proof
  have c: "chunk_code c' = chunk_code c \<Longrightarrow> c' = c" for c c' by (metis chunk_try_from_code option.inject)
  assume "chunk_found w q r' q''"
  then show "r' = r \<and> q'' = q'"
  proof (cases rule: chunk_foundE)
    case (chunk c body)
    show ?thesis using assms
    proof (rule chunk_foundE)
      fix d b assume d: "r = Inr (d, b)" "chunk_at w q (chunk_code d) b q'"
      show ?thesis using chunk(1) d(1) chunk_at_unique[OF d(2) chunk(2)] c[of c d] by simp
    qed (use chunk_at_not_fails[OF chunk(2)] in blast)
  next
    case (error e)
    show ?thesis
      by (rule chunk_foundE[OF assms]) (use error chunk_fails_unique[OF error(2)] chunk_at_not_fails in blast)+
  qed
qed (use assms in simp)

lemma next_chunk_cases:
  obtains (found) r p' where "next_chunk w p = Some (r, p')" "chunk_found w p r p'"
  | (unknown) code body p' where "next_chunk w p = next_chunk w p'" "next_chunk_raw w p = Some (Inl UnknownChunk, p')"
    "chunk_at w p code body p'" "code \<notin> set (map chunk_code chunk_types)"
  using next_chunk_raw_outcome[of w p]
proof (elim disjE exE conjE)
  fix c body p' assume r: "next_chunk_raw w p = Some (Inr (c, body), p')" "chunk_at w p (chunk_code c) body p'"
  show thesis using r by (intro found[of "Inr (c, body)" p']) (simp_all add: next_chunk.simps[of w p] chunk_found_def)
next
  fix code body p'
  assume r: "next_chunk_raw w p = Some (Inl UnknownChunk, p')" "chunk_at w p code body p'" "code \<notin> set (map chunk_code chunk_types)"
  have "next_chunk w p = next_chunk w p'" by (subst next_chunk.simps) (simp add: r(1))
  then show thesis using r by (rule unknown)
next
  fix e p' assume r: "next_chunk_raw w p = Some (Inl e, p')" "chunk_fails w p e p'"
  have "e \<noteq> UnknownChunk" using chunk_fails_errors[OF r(2)] by auto
  then have "next_chunk w p = Some (Inl e, p')" by (subst next_chunk.simps) (simp add: r(1) split: parse_error.split)
  then show thesis using r by (intro found[of "Inl e" p']) (simp_all add: chunk_found_def)
qed

theorem next_chunk_found:
  "next_chunk w p = Some (r, p') \<longleftrightarrow> (\<exists>q. chunk_skips w p q \<and> chunk_found w q r p')"
proof (induction w p rule: next_chunk.induct)
  case (1 w p)
  show ?case
  proof (cases rule: next_chunk_cases[of w p])
    case n: (found r0 p0)
    have "(\<exists>q. chunk_skips w p q \<and> chunk_found w q r p') \<longleftrightarrow> chunk_found w p r p'"
      using chunk_found_skips(1)[OF n(2)] chunk_skips.skip_none by blast
    then show ?thesis using n by (auto simp: chunk_found_unique)
  next
    case n: (unknown code body p0)
    have "next_chunk w p0 = Some (r, p') \<longleftrightarrow> (\<exists>q. chunk_skips w p0 q \<and> chunk_found w q r p')"
      using 1 n(2) by simp
    then show ?thesis unfolding n(1) using chunk_found_skips(2)[OF _ n(3,4)] by blast
  qed
qed

lemma next_chunk_returns: "next_chunk w p \<noteq> None"
proof (induction w p rule: next_chunk.induct)
  case (1 w p)
  then show ?case by (cases rule: next_chunk_cases[of w p]) auto
qed

text \<open>The stack buffer: writes append, and one that does not fit is refused and changes nothing.\<close>

lemma sw_extend_spec:
  assumes "sw_pos b \<le> length (sw_arr b)"
  shows "(if sw_pos b + length bs \<le> length (sw_arr b)
     then \<exists>b'. sw_try_extend b bs = Some b' \<and> sw_data_slice b' = sw_data_slice b @ bs \<and>
       length (sw_arr b') = length (sw_arr b) \<and> sw_pos b' \<le> length (sw_arr b')
     else sw_try_extend b bs = None)"
  using assms by (auto simp: sw_try_extend_def sw_data_slice_def copy_slice_def Let_def)

lemma sw_new_is_empty_inverted: "\<not> sw_is_empty (sw_new n)" "sw_data_slice (sw_new n) = []"
  by (simp_all add: sw_is_empty_def sw_new_def sw_data_slice_def)

lemma next_u32_le_panics: "length p < 4 \<Longrightarrow> bp_next_u32_le p = None"
  by (simp add: bp_next_u32_le_def)

end
