(* ===== verification/CausalRead.thy ===== *)
theory CausalRead
  imports CausalFacts GraphDiffFacts
begin

text \<open>
  Reading a causal graph: the entries of a range of versions, the single entry at a version, what is
  new since a frontier, and frontiers in the form that peers exchange.
\<close>

section \<open>A packed vector as a list of items\<close>

context rle_key_span
begin

lemma content_as_list:
  "ok ys \<Longrightarrow> content key items ys = {(v, f v) | v. s \<le> v \<and> v < e} \<Longrightarrow> concat (map items ys) = map f [s ..< e]"
proof (induction ys arbitrary: s)
  case Nil
  then show ?case by (auto simp: set_eq_iff)
next
  case (Cons y ys)
  have y: "valid y" "0 < len y" "ok ys" and above: "\<forall>z \<in> set ys. key y + len y \<le> key z" using Cons.prems(1) by simp_all
  have rest: "key y + len y \<le> n" if "(n, i) \<in> content key items ys" for n i
    using content_key[of ys n i] that y(3) above by (fastforce simp: vec_ok_def)
  have run: "(n, i) \<in> run_content y \<longleftrightarrow> key y \<le> n \<and> n < key y + len y \<and> i = items y ! (n - key y)" for n i
    by (rule in_run_content[OF y(1)])
  have all: "(n, i) \<in> run_content y \<or> (n, i) \<in> content key items ys \<longleftrightarrow> s \<le> n \<and> n < e \<and> i = f n" for n i
    using Cons.prems(2) by (simp add: set_eq_iff del: in_set_enumerate_eq) blast
  have "s \<le> key y" "key y < e" using all[of "key y" "items y ! 0"] run[of "key y" "items y ! 0"] y(2) by auto
  then have "\<exists>i. (s, i) \<in> run_content y \<or> (s, i) \<in> content key items ys" using all[of s "f s"] by auto
  then have s: "s = key y" using run[of s] rest[of s] y(2) \<open>s \<le> key y\<close> by force
  have in_y: "key y + n < e \<and> items y ! n = f (key y + n)" if "n < len y" for n
    using all[of "key y + n" "items y ! n"] run[of "key y + n" "items y ! n"] that by simp
  have ly: "key y + len y \<le> e" using in_y[of "len y - 1"] y(2) by linarith
  have "(n, i) \<in> content key items ys \<longleftrightarrow> key y + len y \<le> n \<and> n < e \<and> i = f n" for n i
    using all[of n i] run[of n i] rest[of n i] s by auto
  then have "content key items ys = {(v, f v) | v. key y + len y \<le> v \<and> v < e}" by auto
  then have "concat (map items ys) = map f [key y + len y ..< e]" by (rule Cons.IH[OF y(3)])
  moreover have "items y = map f [s ..< key y + len y]"
    using in_y length_items[OF y(1)] by (intro nth_equalityI) (simp_all add: s)
  moreover have "[s ..< e] = [s ..< key y + len y] @ [key y + len y ..< e]"
    using ly s by (metis le_add1 le_add_diff_inverse upt_add_eq_append)
  ultimately show ?case by simp
qed

end

section \<open>Iterating over the entries\<close>

text \<open>The versions an entry stands for, with their parents and names.\<close>

definition ce_items :: "cg_entry \<Rightarrow> (lv \<times> lv list \<times> agent_version) list" where
  "ce_items e = map (\<lambda>i. (ce_start e + i, if i = 0 then ce_parents e else [ce_start e + i - 1],
     (as_agent (ce_span e), dt_start (as_seq (ce_span e)) + i))) [0 ..< ce_len e]"

lemma graph_iter_range_list:
  assumes g: "graph_wf g" and r: "s < e" "\<forall>v. s \<le> v \<longrightarrow> v < e \<longrightarrow> in_graph g v"
  shows "concat (map gs_items (graph_iter_range g \<lparr>dt_start = s, dt_end = e\<rparr>)) = map (\<lambda>v. (v, vparents g v)) [s ..< e]"
    "\<forall>x \<in> set (graph_iter_range g \<lparr>dt_start = s, dt_end = e\<rparr>). gs_valid x \<and> 0 < gs_len x"
proof -
  let ?r = "\<lparr>dt_start = s, dt_end = e\<rparr>"
  have eq: "graph_iter_range g ?r =
      iter_range gs_key gs_len gs_truncate (default_truncate_keeping_right gs_truncate) (graph_iter g) ?r"
    unfolding graph_iter_range_def graph_iter_def
    by (rule iter_range_map_eq) (simp_all add: gs_from_def gs_key_def gs_len_def ge_key_def ge_len_def)
  have ok: "vec_ok gs_key gs_len gs_valid (graph_iter_range g ?r)"
    unfolding eq by (rule gs_rle.iter_range_content(1)[OF graph_iter_ok(1)[OF g]]) (simp add: r)
  have "content gs_key gs_items (graph_iter_range g ?r) = {(v, v, vparents g v) | v. s \<le> v \<and> v < e}"
    using graph_iter_range_spec[OF g, of ?r] r by (auto simp: dtrange_contains_def)
  then show "concat (map gs_items (graph_iter_range g ?r)) = map (\<lambda>v. (v, vparents g v)) [s ..< e]"
    by (rule gs_rle.content_as_list[OF ok, where f = "\<lambda>v. (v, vparents g v)"])
  show "\<forall>x \<in> set (graph_iter_range g ?r). gs_valid x \<and> 0 < gs_len x" using ok by (simp add: vec_ok_def)
qed

interpretation zip_graph_agents: zip_spans gs_len gs_items gs_valid gs_truncate as_len as_items as_valid as_truncate
  by unfold_locales

definition agent_of :: "agent_assignment \<Rightarrow> lv \<Rightarrow> agent_version" where
  "agent_of aa v = (case local_to_agent_version aa v of None \<Rightarrow> (0, 0) | Some av \<Rightarrow> av)"

lemma agent_iter_range_list:
  assumes aa: "aa_ok aa" and r: "s < e" "e \<le> aa_len aa"
  defines "ys \<equiv> iter_range kv_key (kv_len as_len) (kv_truncate as_truncate)
    (kv_truncate_keeping_right as_truncate_keeping_right) (aa_with_lv aa) \<lparr>dt_start = s, dt_end = e\<rparr>"
  shows "concat (map as_items (map kv_val ys)) = map (agent_of aa) [s ..< e]"
    "\<forall>x \<in> set (map kv_val ys). as_valid x \<and> 0 < as_len x"
proof -
  note ok = kv_agent.iter_range_content[OF aa_okD(1)[OF aa], of "\<lparr>dt_start = s, dt_end = e\<rparr>", folded ys_def]
  have "(v, x) \<in> assigned aa \<longleftrightarrow> v < aa_len aa \<and> x = agent_of aa v" for v x
  proof (cases "local_to_agent_version aa v")
    case None
    then show ?thesis
      using local_to_agent_total[OF aa, of v] local_to_agent_assigned[OF aa, of v x] by simp
  next
    case (Some av)
    then have "v < aa_len aa" using local_to_agent_total[OF aa, of v] by (metis not_le option.distinct(1))
    then show ?thesis using Some local_to_agent_assigned[OF aa, of v x] by (auto simp: agent_of_def)
  qed
  then have "content kv_key (kv_items as_items) ys = {(v, agent_of aa v) | v. s \<le> v \<and> v < e}"
    using ok(2) r by (auto simp: keys_within_def assigned_def)
  then have "concat (map (kv_items as_items) ys) = map (agent_of aa) [s ..< e]"
    using kv_agent.content_as_list ok(1) r by simp
  then show "concat (map as_items (map kv_val ys)) = map (agent_of aa) [s ..< e]"
    by (simp add: kv_items_def[abs_def] comp_def)
  show "\<forall>x \<in> set (map kv_val ys). as_valid x \<and> 0 < as_len x"
    using ok(1) r by (auto simp: vec_ok_def kv_len_def)
qed

lemma zip_entry_items:
  assumes "gs_len p = as_len s"
  shows "ce_items \<lparr>ce_start = dt_start (gs_span p), ce_parents = gs_parents p, ce_span = s\<rparr> =
    map (\<lambda>((v, ps), av). (v, ps, av)) (zip (gs_items p) (as_items s))"
  using assms
  by (intro nth_equalityI) (auto simp: ce_items_def ce_len_def gs_items_def gs_len_def as_items_def as_len_def
      dtrange_iter_def dtrange_len_def)

theorem cg_iter_range_spec:
  assumes ok: "cg_ok cg" and r: "s < e" "e \<le> cg_len cg"
  shows "concat (map ce_items (cg_iter_range cg \<lparr>dt_start = s, dt_end = e\<rparr>)) =
    map (\<lambda>v. (v, vparents (cg_graph cg) v, agent_of (cg_aa cg) v)) [s ..< e]"
proof -
  let ?ps = "graph_iter_range (cg_graph cg) \<lparr>dt_start = s, dt_end = e\<rparr>"
  let ?as = "map kv_val (iter_range kv_key (kv_len as_len) (kv_truncate as_truncate)
    (kv_truncate_keeping_right as_truncate_keeping_right) (aa_with_lv (cg_aa cg)) \<lparr>dt_start = s, dt_end = e\<rparr>)"
  let ?z = "rle_zip gs_len as_len gs_truncate as_truncate ?ps ?as"
  have gi: "\<forall>v. s \<le> v \<longrightarrow> v < e \<longrightarrow> in_graph (cg_graph cg) v" using r by (simp add: cg_okD(5)[OF ok])
  note ps = graph_iter_range_list[OF cg_okD(2)[OF ok] r(1) gi]
  have as: "concat (map as_items ?as) = map (agent_of (cg_aa cg)) [s ..< e]"
    "\<forall>x \<in> set ?as. as_valid x \<and> 0 < as_len x"
    using agent_iter_range_list[OF cg_okD(1)[OF ok] r(1)] r(2) by (simp_all add: cg_len_def len_assignment_def)
  note z = zip_graph_agents.rle_zip_items[OF ps(2) as(2), unfolded ps(1) as(1)]
  have "concat (map ce_items (cg_iter_range cg \<lparr>dt_start = s, dt_end = e\<rparr>)) =
      concat (map (\<lambda>(p, s). map (\<lambda>((v, ps), av). (v, ps, av)) (zip (gs_items p) (as_items s))) ?z)"
    unfolding cg_iter_range_def Let_def map_map
    using z(2) by (intro arg_cong[of _ _ concat] map_cong) (auto simp: zip_entry_items)
  also have "\<dots> = map (\<lambda>((v, ps), av). (v, ps, av)) (concat (map (\<lambda>(p, s). zip (gs_items p) (as_items s)) ?z))"
    by (simp only: map_concat map_map comp_def case_prod_unfold)
  also have "\<dots> = map (\<lambda>v. (v, vparents (cg_graph cg) v, agent_of (cg_aa cg) v)) [s ..< e]"
    unfolding z(1) by (simp add: zip_map1 zip_map2 zip_same_conv_map)
  finally show ?thesis .
qed

section \<open>What is new since a frontier\<close>

theorem diff_since_spec:
  assumes ok: "cg_ok cg" and f: "\<forall>v \<in> set f. v < cg_len cg"
  shows "\<exists>r. diff_since cg f = Some r \<and> run_form r \<and> dt_set r = {..< cg_len cg} - ghist (cg_graph cg) f"
proof -
  have "\<forall>v \<in> set f \<union> set (cg_version cg). in_graph (cg_graph cg) v"
    using f version_members[OF ok] cg_okD(5)[OF ok] by blast
  from diff_spec[OF cg_okD(2)[OF ok] this] obtain ra rb where
    "diff (cg_graph cg) f (cg_version cg) = Some (ra, rb)" "run_form rb"
    "dt_set rb = ghist (cg_graph cg) (cg_version cg) - ghist (cg_graph cg) f" by blast
  moreover from this(1) have "diff_since cg f = Some rb"
    by (auto simp: diff_since_def diff_since_rev_def diff_def)
  ultimately show ?thesis using cg_okD(7)[OF ok] by simp
qed

section \<open>Exchanging frontiers\<close>

lemma those_map: "those (map f xs) = Some ys \<longleftrightarrow> length ys = length xs \<and> (\<forall>i < length xs. f (xs ! i) = Some (ys ! i))"
proof (induction xs arbitrary: ys)
  case (Cons x xs)
  show ?case
    by (cases ys) (auto simp: Cons.IH nth_Cons All_less_Suc2 split: option.split)
qed auto

lemma collect_results_map:
  "\<forall>x \<in> set xs. f x = Inr (g x) \<Longrightarrow> collect_results (map f xs) = Inr (map g xs)"
  by (induction xs) auto

theorem remote_frontier_round_trip:
  assumes ok: "aa_ok aa" and f: "sorted_wrt (<) f" "\<forall>v \<in> set f. v < aa_len aa"
  shows "\<exists>rf. local_to_remote_frontier aa f = Some rf \<and> remote_to_local_frontier aa rf = Some f \<and>
    try_remote_to_local_frontier aa rf = Inr f"
proof -
  have "\<forall>v \<in> set f. \<exists>rv. local_to_remote_version aa v = Some rv \<and> try_remote_to_local_version aa rv = Inr v \<and>
      remote_to_local_version aa rv = Some v"
    using remote_round_trip[OF ok] f(2) by blast
  from bchoice[OF this] obtain h where h: "\<forall>v \<in> set f. local_to_remote_version aa v = Some (h v) \<and>
      try_remote_to_local_version aa (h v) = Inr v \<and> remote_to_local_version aa (h v) = Some v"
    by blast
  have "local_to_remote_frontier aa f = Some (map h f)"
    using h by (simp add: local_to_remote_frontier_def those_map)
  moreover have "those (map (remote_to_local_version aa) (map h f)) = Some f"
    using h by (simp add: those_map)
  moreover have "collect_results (map (try_remote_to_local_version aa) (map h f)) = Inr f"
    using collect_results_map[of "map h f" "try_remote_to_local_version aa"] h
    unfolding map_map by (subst collect_results_map[where g = id]) (auto simp: comp_def)
  moreover have "frontier_from_unsorted f = f"
    using f(1) by (simp add: frontier_from_unsorted_def sort_frontier_def frontier_is_sorted_iff)
  ultimately show ?thesis by (simp add: remote_to_local_frontier_def try_remote_to_local_frontier_def)
qed

end
