(* ===== verification/Summary.thy ===== *)
theory Summary
  imports CausalRead
begin

text \<open>
  \<open>causalgraph/summary.rs\<close>: version summaries, which name the known sequence numbers of every agent,
  and their intersection with what a causal graph knows.  The visitor that the intersections call is
  modelled by the list of its calls: a name, a range of sequence numbers and the local version the
  range starts at, if it is known.  The serde forms are left out.
\<close>

section \<open>Summaries\<close>

record vs_entry =
  vse_name :: agent_name
  vse_ranges :: "dtrange list"

type_synonym version_summary = "vs_entry list"
type_synonym version_summary_flat = "(agent_name \<times> nat) list"
type_synonym visit = "agent_name \<times> dtrange \<times> lv option"

definition summarize_versions :: "agent_assignment \<Rightarrow> version_summary" where
  "summarize_versions aa =
     List.map_filter (\<lambda>c. if cd_lv c = [] then None
       else Some \<lparr>vse_name = cd_name c,
         vse_ranges = merge_spans dtrange_can_append dtrange_append dtrange_prepend
           (map (kv_range dtrange_len) (cd_lv c))\<rparr>) (aa_clients aa)"

definition summarize_versions_flat :: "agent_assignment \<Rightarrow> version_summary_flat" where
  "summarize_versions_flat aa =
     List.map_filter (\<lambda>c. if cd_lv c = [] then None else Some (cd_name c, cd_get_next_seq c)) (aa_clients aa)"

text \<open>
  The entries of one agent against a flat summary: the calls and the next sequence number, or \<open>None\<close>
  when the assertion that the entries are packed fails.
\<close>

fun flat_entries :: "agent_name \<Rightarrow> nat \<Rightarrow> dtrange kvpair list \<Rightarrow> nat \<Rightarrow> (visit list \<times> nat) option" where
  "flat_entries name known_next_seq [] next_seq = Some ([], next_seq)"
| "flat_entries name known_next_seq (e # es) next_seq =
     (let entry_start = kv_key e
      in if entry_start \<noteq> next_seq then None
         else
           (let entry_end_seq = span_end kv_key (kv_len dtrange_len) e; next_seq = entry_end_seq
            in if entry_start \<ge> known_next_seq then Some ([], next_seq)
               else
                 (let seq_range = kv_range dtrange_len e;
                      seq_range = (if entry_end_seq > known_next_seq
                        then fst (dtrange_truncate seq_range (known_next_seq - entry_start)) else seq_range)
                  in case flat_entries name known_next_seq es next_seq of
                       None \<Rightarrow> None
                     | Some (vs, n) \<Rightarrow> Some ((name, seq_range, Some (dt_start (kv_val e))) # vs, n))))"

definition flat_agent :: "agent_assignment \<Rightarrow> agent_name \<Rightarrow> nat \<Rightarrow> visit list option" where
  "flat_agent aa name known_next_seq =
     (case (case get_agent_id aa name of
              None \<Rightarrow> Some ([], 0)
            | Some agent_id \<Rightarrow> flat_entries name known_next_seq (cd_lv (aa_clients aa ! agent_id)) 0) of
        None \<Rightarrow> None
      | Some (vs, next_seq) \<Rightarrow>
          Some (vs @ (if next_seq < known_next_seq
                      then [(name, \<lparr>dt_start = next_seq, dt_end = known_next_seq\<rparr>, None)] else [])))"

definition intersect_with_flat_summary_full :: "agent_assignment \<Rightarrow> version_summary_flat \<Rightarrow> visit list option" where
  "intersect_with_flat_summary_full aa summary =
     map_option concat (those (map (\<lambda>(name, known_next_seq). flat_agent aa name known_next_seq) summary))"

fun range_visits :: "agent_name \<Rightarrow> nat \<Rightarrow> nat \<Rightarrow> dtrange kvpair list \<Rightarrow> visit list" where
  "range_visits name end' expect_next_seq [] =
     (if expect_next_seq < end' then [(name, \<lparr>dt_start = expect_next_seq, dt_end = end'\<rparr>, None)] else [])"
| "range_visits name end' expect_next_seq (entry # es) =
     (let seq_range = kv_range dtrange_len entry
      in (if dt_start seq_range > expect_next_seq
          then [(name, \<lparr>dt_start = expect_next_seq, dt_end = dt_start seq_range\<rparr>, None)] else []) @
         (name, seq_range, Some (dt_start (kv_val entry))) #
         range_visits name end' (dt_end seq_range) es)"

definition entry_visits :: "agent_assignment \<Rightarrow> vs_entry \<Rightarrow> visit list" where
  "entry_visits aa e =
     (case get_agent_id aa (vse_name e) of
        Some agent_id \<Rightarrow>
          concat (map (\<lambda>seq_range. range_visits (vse_name e) (dt_end seq_range) (dt_start seq_range)
              (iter_range kv_key (kv_len dtrange_len) (kv_truncate dtrange_truncate)
                 (kv_truncate_keeping_right dtrange_truncate_keeping_right)
                 (cd_lv (aa_clients aa ! agent_id)) seq_range)) (vse_ranges e))
      | None \<Rightarrow> map (\<lambda>seq_range. (vse_name e, seq_range, None)) (vse_ranges e))"

definition intersect_with_summary_full :: "agent_assignment \<Rightarrow> version_summary \<Rightarrow> visit list" where
  "intersect_with_summary_full aa summary = concat (map (entry_visits aa) summary)"

section \<open>Intersections\<close>

text \<open>The closures of the two intersections, as functions from their captured state.\<close>

fun flat_visit :: "lv list \<times> version_summary_flat option \<Rightarrow> visit \<Rightarrow> lv list \<times> version_summary_flat option" where
  "flat_visit (versions, remainder) (name, seq, Some v) = (versions @ [v + dtrange_len seq - 1], remainder)"
| "flat_visit (versions, remainder) (name, seq, None) =
     (versions, Some ((case remainder of None \<Rightarrow> [] | Some r \<Rightarrow> r) @ [(name, dt_end seq)]))"

definition intersect_with_flat_summary :: "causal_graph \<Rightarrow> version_summary_flat \<Rightarrow> lv list
    \<Rightarrow> (frontier \<times> version_summary_flat option) option" where
  "intersect_with_flat_summary cg summary f =
     (case intersect_with_flat_summary_full (cg_aa cg) summary of
        None \<Rightarrow> None
      | Some visits \<Rightarrow>
          (let (versions, remainder) = foldl flat_visit (f, None) visits
           in case find_dominators (cg_graph cg) versions of
                None \<Rightarrow> None | Some d \<Rightarrow> Some (d, remainder)))"

definition push_remainder :: "version_summary \<Rightarrow> agent_name \<Rightarrow> dtrange \<Rightarrow> version_summary" where
  "push_remainder remainder name seq_range =
     (if remainder \<noteq> [] \<and> vse_name (last remainder) = name
      then butlast remainder @ [(last remainder)\<lparr>vse_ranges := vse_ranges (last remainder) @ [seq_range]\<rparr>]
      else remainder @ [\<lparr>vse_name = name, vse_ranges = [seq_range]\<rparr>])"

fun summary_visit :: "lv list \<times> version_summary option \<Rightarrow> visit \<Rightarrow> lv list \<times> version_summary option" where
  "summary_visit (versions, remainder) (name, seq_range, Some v) =
     (versions @ [v + dtrange_len seq_range - 1], remainder)"
| "summary_visit (versions, remainder) (name, seq_range, None) =
     (versions, Some (push_remainder (case remainder of None \<Rightarrow> [] | Some r \<Rightarrow> r) name seq_range))"

definition intersect_with_summary :: "causal_graph \<Rightarrow> version_summary \<Rightarrow> lv list
    \<Rightarrow> (frontier \<times> version_summary option) option" where
  "intersect_with_summary cg summary f =
     (let (versions, remainder) = foldl summary_visit (f, None) (intersect_with_summary_full (cg_aa cg) summary)
      in case find_dominators (cg_graph cg) versions of
           None \<Rightarrow> None | Some d \<Rightarrow> Some (d, remainder))"

end
