(* ===== verification/SummaryFacts.thy ===== *)
theory SummaryFacts
  imports Summary
begin

text \<open>
  What the intersections with summaries promise: the visits split the numbers a summary names into
  those the causal graph knows, with their local versions, and those it does not; the frontier that
  is returned covers the known ones when the runs of every agent are chains, and the remainder names
  exactly the unknown ones.
\<close>

section \<open>What a list of visits says\<close>

definition visits_known :: "visit list \<Rightarrow> (agent_name \<times> nat \<times> lv) set" where
  "visits_known vs = {(n, q, v). \<exists>r v0. (n, r, Some v0) \<in> set vs \<and> dt_start r \<le> q \<and> q < dt_end r \<and>
     v = v0 + (q - dt_start r)}"

definition visits_missing :: "visit list \<Rightarrow> (agent_name \<times> nat) set" where
  "visits_missing vs = {(n, q). \<exists>r. (n, r, None) \<in> set vs \<and> dt_start r \<le> q \<and> q < dt_end r}"

definition visits_ok :: "visit list \<Rightarrow> bool" where
  "visits_ok vs \<longleftrightarrow> (\<forall>(n, r, v) \<in> set vs. dt_start r < dt_end r)"

lemma visits_simps [simp]:
  "visits_known [] = {}" "visits_missing [] = {}" "visits_ok []"
  "visits_known (vs @ ws) = visits_known vs \<union> visits_known ws"
  "visits_missing (vs @ ws) = visits_missing vs \<union> visits_missing ws"
  "visits_ok (vs @ ws) \<longleftrightarrow> visits_ok vs \<and> visits_ok ws"
  by (auto simp: visits_known_def visits_missing_def visits_ok_def ball_Un)

lemma visits_Cons:
  "visits_known ((n, r, Some v0) # vs) =
     {(n, q, v0 + (q - dt_start r)) | q. dt_start r \<le> q \<and> q < dt_end r} \<union> visits_known vs"
  "visits_known ((n, r, None) # vs) = visits_known vs"
  "visits_missing ((n, r, Some v0) # vs) = visits_missing vs"
  "visits_missing ((n, r, None) # vs) = {(n, q) | q. dt_start r \<le> q \<and> q < dt_end r} \<union> visits_missing vs"
  "visits_ok ((n, r, x) # vs) \<longleftrightarrow> dt_start r < dt_end r \<and> visits_ok vs"
  by (auto simp: visits_known_def visits_missing_def visits_ok_def)

lemma visits_concat:
  "visits_known (concat vss) = (\<Union>vs \<in> set vss. visits_known vs)"
  "visits_missing (concat vss) = (\<Union>vs \<in> set vss. visits_missing vs)"
  "visits_ok (concat vss) \<longleftrightarrow> (\<forall>vs \<in> set vss. visits_ok vs)"
  by (induction vss) auto

lemma visits_missing_empty: "visits_ok vs \<Longrightarrow> visits_missing vs = {} \<longleftrightarrow> (\<forall>(n, r, v) \<in> set vs. v \<noteq> None)"
proof (induction vs)
  case (Cons x vs)
  obtain n r v where x: "x = (n, r, v)" by (cases x)
  show ?case
  proof (cases v)
    case None
    have "(n, dt_start r) \<in> visits_missing (x # vs)" using Cons.prems None x by (simp add: visits_Cons)
    then show ?thesis using None x by auto
  next
    case (Some w)
    then show ?thesis using Cons x by (simp add: visits_Cons)
  qed
qed simp

definition summary_set :: "version_summary \<Rightarrow> (agent_name \<times> nat) set" where
  "summary_set s = {(n, q). \<exists>e \<in> set s. vse_name e = n \<and> (\<exists>r \<in> set (vse_ranges e). dt_start r \<le> q \<and> q < dt_end r)}"

definition summary_ok :: "version_summary \<Rightarrow> bool" where
  "summary_ok s \<longleftrightarrow> (\<forall>e \<in> set s. \<forall>r \<in> set (vse_ranges e). dt_start r < dt_end r)"

lemma remote_known:
  assumes "aa_ok aa"
  shows "try_remote_to_local_version aa (n, q) = Inr v \<longleftrightarrow>
    (\<exists>a. get_agent_id aa n = Some a \<and> a < length (aa_clients aa) \<and> (q, v) \<in> seq_map (cd_lv (aa_clients aa ! a)))"
proof (cases "get_agent_id aa n")
  case (Some a)
  then have "a < length (aa_clients aa)"
    by (simp add: get_agent_id_def client_position_iff aa_okD(5)[OF assms])
  then show ?thesis using Some try_seq_to_lv_iff[OF aa_okD(3)[OF assms], of a q v]
    by (auto simp: try_remote_to_local_version_def split: option.splits)
qed (simp add: try_remote_to_local_version_def)

lemma agent_id_less: "aa_ok aa \<Longrightarrow> get_agent_id aa n = Some a \<Longrightarrow> a < length (aa_clients aa)"
  by (simp add: get_agent_id_def client_position_iff aa_okD(5))

section \<open>The full summary\<close>

lemma seq_map_Cons:
  "(q, v) \<in> seq_map (x # xs) \<longleftrightarrow> (kv_key x \<le> q \<and> q < kv_key x + kv_len dtrange_len x \<and>
     v = dt_start (kv_val x) + (q - kv_key x)) \<or> (q, v) \<in> seq_map xs"
  unfolding seq_map_entry by simp

lemma range_visits_spec:
  "seq_ok ys \<Longrightarrow> \<forall>y \<in> set ys. s \<le> kv_key y \<and> kv_key y + kv_len dtrange_len y \<le> e \<Longrightarrow> s \<le> e \<Longrightarrow>
   visits_known (range_visits n e s ys) = {(n, q, v) | q v. (q, v) \<in> seq_map ys} \<and>
   visits_missing (range_visits n e s ys) = {(n, q) | q. s \<le> q \<and> q < e \<and> (\<nexists>v. (q, v) \<in> seq_map ys)} \<and>
   visits_ok (range_visits n e s ys)"
proof (induction ys arbitrary: s)
  case Nil
  then show ?case by (auto simp: visits_Cons)
next
  case (Cons y ys)
  let ?k = "kv_key y" and ?e = "kv_key y + kv_len dtrange_len y"
  have y: "s \<le> ?k" "?k < ?e" "?e \<le> e" using Cons.prems by simp_all
  have above: "?e \<le> q" if "(q, v) \<in> seq_map ys" for q v
    using that Cons.prems(1) by (fastforce simp: seq_map_entry)
  have ih: "visits_known (range_visits n e ?e ys) = {(n, q, v) | q v. (q, v) \<in> seq_map ys}"
    "visits_missing (range_visits n e ?e ys) = {(n, q) | q. ?e \<le> q \<and> q < e \<and> (\<nexists>v. (q, v) \<in> seq_map ys)}"
    "visits_ok (range_visits n e ?e ys)"
    using Cons.IH[of ?e] Cons.prems y by simp_all
  have gap: "visits_known (if s < ?k then [(n, dtr s ?k, None)] else []) = {}"
    "visits_missing (if s < ?k then [(n, dtr s ?k, None)] else []) = {(n, q) | q. s \<le> q \<and> q < ?k}"
    "visits_ok (if s < ?k then [(n, dtr s ?k, None)] else [])"
    by (auto simp: visits_Cons)
  have un: "(\<exists>v. (q, v) \<in> seq_map (y # ys)) \<longleftrightarrow> (?k \<le> q \<and> q < ?e) \<or> (\<exists>v. (q, v) \<in> seq_map ys)" for q
    unfolding seq_map_Cons by auto
  have r: "kv_range dtrange_len y = dtr ?k ?e" by (simp add: kv_range_def)
  show ?case
  proof (intro conjI)
    show "visits_known (range_visits n e s (y # ys)) = {(n, q, v) | q v. (q, v) \<in> seq_map (y # ys)}"
      by (auto simp: Let_def r gap ih visits_Cons seq_map_Cons simp del: content_simps)
    show "visits_missing (range_visits n e s (y # ys)) =
        {(n, q) | q. s \<le> q \<and> q < e \<and> (\<nexists>v. (q, v) \<in> seq_map (y # ys))}"
    proof -
      have iff: "s \<le> q \<and> q < ?k \<or> ?e \<le> q \<and> q < e \<and> (\<nexists>v. (q, v) \<in> seq_map ys) \<longleftrightarrow>
          s \<le> q \<and> q < e \<and> (\<nexists>v. (q, v) \<in> seq_map (y # ys))" for q
      proof (cases "\<exists>v. (q, v) \<in> seq_map ys")
        case True
        then have "?e \<le> q" using above by blast
        then show ?thesis using True y unfolding un by (simp only: True) (use y in linarith)
      next
        case False
        then show ?thesis using y unfolding un by (simp only: False) (use y in linarith)
      qed
      have "visits_missing (range_visits n e s (y # ys)) = {(n, q) | q. s \<le> q \<and> q < ?k} \<union>
          {(n, q) | q. ?e \<le> q \<and> q < e \<and> (\<nexists>v. (q, v) \<in> seq_map ys)}"
        unfolding range_visits.simps Let_def r dtrange.simps visits_simps visits_Cons ih gap by (rule refl)
      also have "\<dots> = {(n, q) | q. s \<le> q \<and> q < ?k \<or> ?e \<le> q \<and> q < e \<and> (\<nexists>v. (q, v) \<in> seq_map ys)}"
        by blast
      finally show ?thesis unfolding iff .
    qed
    show "visits_ok (range_visits n e s (y # ys))" using y gap(3) ih(3) by (simp add: Let_def r visits_Cons)
  qed
qed

lemma iter_range_within:
  assumes "seq_ok xs" "s < e"
  defines "ys \<equiv> iter_range kv_key (kv_len dtrange_len) (kv_truncate dtrange_truncate)
    (kv_truncate_keeping_right dtrange_truncate_keeping_right) xs (dtr s e)"
  shows "seq_ok ys" "\<forall>y \<in> set ys. s \<le> kv_key y \<and> kv_key y + kv_len dtrange_len y \<le> e"
    "(q, v) \<in> seq_map ys \<longleftrightarrow> s \<le> q \<and> q < e \<and> (q, v) \<in> seq_map xs"
proof -
  note it = kv_dtrange.iter_range_content[OF assms(1), of "dtr s e", folded ys_def]
  show ok: "seq_ok ys" using it(1) assms(2) by simp
  show c: "(q, v) \<in> seq_map ys \<longleftrightarrow> s \<le> q \<and> q < e \<and> (q, v) \<in> seq_map xs" for q v
    using it(2) assms(2) by (auto simp: keys_within_def)
  show "\<forall>y \<in> set ys. s \<le> kv_key y \<and> kv_key y + kv_len dtrange_len y \<le> e"
  proof
    fix y assume y: "y \<in> set ys"
    then have pos: "0 < kv_len dtrange_len y" using ok by (simp add: vec_ok_def)
    have "(kv_key y, dt_start (kv_val y)) \<in> seq_map ys"
      unfolding seq_map_entry using y pos by (intro bexI[of _ y]) auto
    moreover have "(kv_key y + kv_len dtrange_len y - 1, dtrange_last (kv_val y)) \<in> seq_map ys"
      by (rule entry_last_lv[OF y ok])
    ultimately have "s \<le> kv_key y" "kv_key y + kv_len dtrange_len y - 1 < e" using c by blast+
    then show "s \<le> kv_key y \<and> kv_key y + kv_len dtrange_len y \<le> e" using pos by linarith
  qed
qed

lemma entry_visits_spec:
  assumes ok: "aa_ok aa" and r: "\<forall>r \<in> set (vse_ranges e). dt_start r < dt_end r"
  shows "visits_known (entry_visits aa e) =
      {(n, q, v). (n, q) \<in> summary_set [e] \<and> try_remote_to_local_version aa (n, q) = Inr v}"
    "visits_missing (entry_visits aa e) =
      {(n, q). (n, q) \<in> summary_set [e] \<and> (\<forall>v. try_remote_to_local_version aa (n, q) \<noteq> Inr v)}"
    "visits_ok (entry_visits aa e)"
proof -
  let ?n = "vse_name e"
  have "visits_known (entry_visits aa e) =
      {(n, q, v). (n, q) \<in> summary_set [e] \<and> try_remote_to_local_version aa (n, q) = Inr v} \<and>
    visits_missing (entry_visits aa e) =
      {(n, q). (n, q) \<in> summary_set [e] \<and> (\<forall>v. try_remote_to_local_version aa (n, q) \<noteq> Inr v)} \<and>
    visits_ok (entry_visits aa e)"
  proof (cases "get_agent_id aa ?n")
    case None
    have no: "try_remote_to_local_version aa (?n, q) \<noteq> Inr v" for q v using None by (simp add: remote_known[OF ok])
    have "visits_known (map (\<lambda>r. (?n, r, None)) rs) = {}" for rs by (auto simp: visits_known_def)
    then show ?thesis
      using None no r by (auto simp: entry_visits_def visits_missing_def visits_ok_def summary_set_def)
  next
    case (Some a)
    let ?xs = "cd_lv (aa_clients aa ! a)"
    define ys where "ys r = iter_range kv_key (kv_len dtrange_len) (kv_truncate dtrange_truncate)
      (kv_truncate_keeping_right dtrange_truncate_keeping_right) ?xs r" for r
    have a: "a < length (aa_clients aa)" by (rule agent_id_less[OF ok Some])
    have kn: "try_remote_to_local_version aa (?n, q) = Inr v \<longleftrightarrow> (q, v) \<in> seq_map ?xs" for q v
      using Some a by (simp add: remote_known[OF ok])
    let ?rv = "\<lambda>r. range_visits ?n (dt_end r) (dt_start r) (ys r)"
    have "visits_known (?rv r) = {(?n, q, v) | q v. dt_start r \<le> q \<and> q < dt_end r \<and> (q, v) \<in> seq_map ?xs} \<and>
      visits_missing (?rv r) = {(?n, q) | q. dt_start r \<le> q \<and> q < dt_end r \<and> (\<nexists>v. (q, v) \<in> seq_map ?xs)} \<and>
      visits_ok (?rv r)" if "r \<in> set (vse_ranges e)" for r
    proof -
      have lt: "dt_start r < dt_end r" and dr: "dtr (dt_start r) (dt_end r) = r" using assms(2) that by simp_all
      note it = iter_range_within[OF aa_okD(3)[OF ok a] lt, unfolded dr, folded ys_def]
      show ?thesis using range_visits_spec[OF it(1,2), of ?n] lt by (auto simp: it(3))
    qed
    then have all: "visits_known (concat (map ?rv (vse_ranges e))) =
        (\<Union>r \<in> set (vse_ranges e). {(?n, q, v) | q v. dt_start r \<le> q \<and> q < dt_end r \<and> (q, v) \<in> seq_map ?xs})"
      "visits_missing (concat (map ?rv (vse_ranges e))) =
        (\<Union>r \<in> set (vse_ranges e). {(?n, q) | q. dt_start r \<le> q \<and> q < dt_end r \<and> (\<nexists>v. (q, v) \<in> seq_map ?xs)})"
      "visits_ok (concat (map ?rv (vse_ranges e)))"
      by (simp_all add: visits_concat)
    have ev: "entry_visits aa e = concat (map ?rv (vse_ranges e))" by (simp add: entry_visits_def Some ys_def)
    show ?thesis unfolding ev all(1,2) using all(3) by (auto simp: summary_set_def kn)
  qed
  then show "visits_known (entry_visits aa e) =
      {(n, q, v). (n, q) \<in> summary_set [e] \<and> try_remote_to_local_version aa (n, q) = Inr v}"
    "visits_missing (entry_visits aa e) =
      {(n, q). (n, q) \<in> summary_set [e] \<and> (\<forall>v. try_remote_to_local_version aa (n, q) \<noteq> Inr v)}"
    "visits_ok (entry_visits aa e)" by blast+
qed

lemma intersect_full_spec:
  assumes ok: "aa_ok aa" and s: "summary_ok s"
  shows "visits_known (intersect_with_summary_full aa s) =
      {(n, q, v). (n, q) \<in> summary_set s \<and> try_remote_to_local_version aa (n, q) = Inr v}"
    "visits_missing (intersect_with_summary_full aa s) =
      {(n, q). (n, q) \<in> summary_set s \<and> (\<forall>v. try_remote_to_local_version aa (n, q) \<noteq> Inr v)}"
    "visits_ok (intersect_with_summary_full aa s)"
proof -
  have e: "\<forall>r \<in> set (vse_ranges e). dt_start r < dt_end r" if "e \<in> set s" for e
    using s that by (simp add: summary_ok_def)
  have "summary_set s = (\<Union>e \<in> set s. summary_set [e])" by (auto simp: summary_set_def)
  then show "visits_known (intersect_with_summary_full aa s) =
      {(n, q, v). (n, q) \<in> summary_set s \<and> try_remote_to_local_version aa (n, q) = Inr v}"
    "visits_missing (intersect_with_summary_full aa s) =
      {(n, q). (n, q) \<in> summary_set s \<and> (\<forall>v. try_remote_to_local_version aa (n, q) \<noteq> Inr v)}"
    "visits_ok (intersect_with_summary_full aa s)"
    using entry_visits_spec[OF ok e] unfolding intersect_with_summary_full_def visits_concat by auto
qed

section \<open>The frontier and the remainder\<close>

definition visit_lasts :: "visit list \<Rightarrow> lv set" where
  "visit_lasts vs = {v + dtrange_len r - 1 | n r v. (n, r, Some v) \<in> set vs}"

lemma visit_lasts_simps [simp]:
  "visit_lasts [] = {}" "visit_lasts ((n, r, None) # vs) = visit_lasts vs"
  "visit_lasts ((n, r, Some v) # vs) = insert (v + dtrange_len r - 1) (visit_lasts vs)"
  by (auto simp: visit_lasts_def)

definition remainder_set :: "version_summary option \<Rightarrow> (agent_name \<times> nat) set" where
  "remainder_set r = (case r of None \<Rightarrow> {} | Some s \<Rightarrow> summary_set s)"

lemma summary_set_simps [simp]:
  "summary_set [] = {}"
  "summary_set (a @ b) = summary_set a \<union> summary_set b"
  by (auto simp: summary_set_def)

lemma push_remainder_set:
  "summary_set (push_remainder s n r) = summary_set s \<union> {(n, q) | q. dt_start r \<le> q \<and> q < dt_end r}"
proof (cases s rule: rev_cases)
  case Nil
  then show ?thesis by (auto simp: push_remainder_def summary_set_def)
next
  case (snoc s' e)
  then show ?thesis by (auto simp: push_remainder_def summary_set_def)
qed

lemma summary_fold:
  "foldl summary_visit (f, rem) vs = (f', rem') \<Longrightarrow>
   set f' = set f \<union> visit_lasts vs \<and> remainder_set rem' = remainder_set rem \<union> visits_missing vs \<and>
   (rem' = None \<longleftrightarrow> rem = None \<and> (\<forall>(n, r, v) \<in> set vs. v \<noteq> None))"
proof (induction vs arbitrary: f rem)
  case Nil
  then show ?case by simp
next
  case (Cons x vs)
  obtain n r v where x: "x = (n, r, v)" by (cases x)
  show ?case
  proof (cases v)
    case None
    then show ?thesis
      using Cons.prems Cons.IH[of f "Some (push_remainder (case rem of None \<Rightarrow> [] | Some r \<Rightarrow> r) n r)"] x
      by (auto simp: visits_Cons remainder_set_def push_remainder_set split: option.splits)
  next
    case (Some w)
    then show ?thesis
      using Cons.prems Cons.IH[of "f @ [w + dtrange_len r - 1]" rem] x
      by (simp add: visits_Cons)
  qed
qed

text \<open>Every agent wrote its own versions one after the other where they are stored side by side.\<close>

definition agents_linear :: "causal_graph \<Rightarrow> bool" where
  "agents_linear cg \<longleftrightarrow> (\<forall>v a q. (v, (a, q)) \<in> assigned (cg_aa cg) \<longrightarrow> (Suc v, (a, Suc q)) \<in> assigned (cg_aa cg) \<longrightarrow>
     ganc (cg_graph cg) v (Suc v))"

lemma remote_assigned:
  assumes "aa_ok aa"
  shows "try_remote_to_local_version aa (n, q) = Inr v \<longleftrightarrow> (\<exists>a. get_agent_id aa n = Some a \<and> (v, (a, q)) \<in> assigned aa)"
  unfolding remote_known[OF assms] aa_okD(4)[OF assms] by blast

lemma visits_chain:
  assumes ok: "cg_ok cg" and lin: "agents_linear cg"
    and run: "\<And>i. i < k \<Longrightarrow> try_remote_to_local_version (cg_aa cg) (n, q + i) = Inr (v + i)"
    and i: "i < k"
  shows "ganc (cg_graph cg) (v + i) (v + k - 1)"
proof -
  have step: "ganc (cg_graph cg) (v + j) (v + Suc j)" if j: "Suc j < k" for j
  proof -
    obtain a where "get_agent_id (cg_aa cg) n = Some a" "(v + j, (a, q + j)) \<in> assigned (cg_aa cg)"
      using run[of j] j by (auto simp: remote_assigned[OF cg_okD(1)[OF ok]])
    moreover from this(1) have "(Suc (v + j), (a, Suc (q + j))) \<in> assigned (cg_aa cg)"
      using run[OF j] by (simp add: remote_assigned[OF cg_okD(1)[OF ok]])
    ultimately show ?thesis using lin by (simp add: agents_linear_def)
  qed
  have "i + d < k \<Longrightarrow> ganc (cg_graph cg) (v + i) (v + i + d)" for d
  proof (induction d)
    case (Suc d)
    then have "ganc (cg_graph cg) (v + i) (v + i + d)" by simp
    also have "ganc (cg_graph cg) (v + i + d) (v + i + Suc d)" using step[of "i + d"] Suc.prems by (simp add: add.assoc)
    finally show ?case .
  qed simp
  from this[of "k - 1 - i"] show ?thesis using i by simp
qed

lemma hist_mono: "A \<subseteq> B \<Longrightarrow> hist ps A \<subseteq> hist ps B"
  by (auto simp: hist_def)

text \<open>
  The known part of a set of names and numbers, and those versions of it that no consecutive version of
  the same agent in the set follows.
\<close>

definition known_named :: "causal_graph \<Rightarrow> (agent_name \<times> nat) set \<Rightarrow> lv set" where
  "known_named cg S = {v. \<exists>(n, q) \<in> S. try_remote_to_local_version (cg_aa cg) (n, q) = Inr v}"

definition run_ends :: "causal_graph \<Rightarrow> (agent_name \<times> nat) set \<Rightarrow> lv set" where
  "run_ends cg S = {v. \<exists>(n, q) \<in> S. try_remote_to_local_version (cg_aa cg) (n, q) = Inr v \<and>
     ((n, Suc q) \<notin> S \<or> try_remote_to_local_version (cg_aa cg) (n, Suc q) \<noteq> Inr (Suc v))}"

text \<open>
  Whatever the list of visits, if it knows exactly the known part of a set of names and numbers, the
  dominators of its last versions and the given frontier cover the ends of its runs and stay inside that
  part; where every agent wrote one version after the other, they cover all of it.
\<close>

lemma visits_dominators:
  assumes ok: "cg_ok cg" and small: "cg_len cg \<le> usize_max div 2"
    and vs: "visits_known vs = {(n, q, v). (n, q) \<in> S \<and> try_remote_to_local_version (cg_aa cg) (n, q) = Inr v}"
      "visits_ok vs"
    and f: "\<forall>v \<in> set f. v < cg_len cg" "set f' = set f \<union> visit_lasts vs"
  shows "\<exists>d. find_dominators (cg_graph cg) f' = Some d \<and> frontier_ok (cg_graph cg) d \<and>
    ghist (cg_graph cg) f \<union> hist (vparents (cg_graph cg)) (run_ends cg S) \<subseteq> ghist (cg_graph cg) d \<and>
    ghist (cg_graph cg) d \<subseteq> ghist (cg_graph cg) f \<union> hist (vparents (cg_graph cg)) (known_named cg S) \<and>
    (agents_linear cg \<longrightarrow>
      ghist (cg_graph cg) d = ghist (cg_graph cg) f \<union> hist (vparents (cg_graph cg)) (known_named cg S))"
proof -
  let ?g = "cg_graph cg"
  let ?known = "{v. \<exists>(n, q) \<in> S. try_remote_to_local_version (cg_aa cg) (n, q) = Inr v}"
  note kn = known_named_def[of cg S]
  have run: "dt_start r < dt_end r \<and> (\<forall>i < dtrange_len r. (n, dt_start r + i) \<in> S \<and>
      try_remote_to_local_version (cg_aa cg) (n, dt_start r + i) = Inr (v + i))" if "(n, r, Some v) \<in> set vs" for n r v
  proof -
    have "(n, dt_start r + i, v + i) \<in> visits_known vs" if "i < dtrange_len r" for i
      using \<open>(n, r, Some v) \<in> set vs\<close> that by (force simp: visits_known_def dtrange_len_def)
    moreover have "dt_start r < dt_end r" using vs(2) that by (auto simp: visits_ok_def)
    ultimately show ?thesis unfolding vs(1) by simp
  qed
  have lasts: "visit_lasts vs \<subseteq> ?known"
  proof
    fix w assume "w \<in> visit_lasts vs"
    then obtain n r v where v: "(n, r, Some v) \<in> set vs" "w = v + dtrange_len r - 1" by (auto simp: visit_lasts_def)
    have "dtrange_len r - 1 < dtrange_len r" using run[OF v(1), THEN conjunct1] by (simp add: dtrange_len_def)
    moreover have "w = v + (dtrange_len r - 1)" using v(2) run[OF v(1), THEN conjunct1] by (simp add: dtrange_len_def)
    ultimately show "w \<in> ?known" using run[OF v(1)] by blast
  qed
  have known_len: "v < cg_len cg" if "v \<in> ?known" for v
    using that aa_okD(2)[OF cg_okD(1)[OF ok]]
    by (force simp: remote_assigned[OF cg_okD(1)[OF ok]] cg_len_def len_assignment_def)
  have all: "\<forall>v \<in> set f'. in_graph ?g v \<and> v < usize_max div 2"
    using f lasts known_len small cg_okD(5)[OF ok] by (auto dest!: subsetD) (meson less_le_trans)+
  have d: "find_dominators ?g f' = Some (sorted_list_of_set (dominators (vparents ?g) (set f')))"
    by (rule find_dominators_spec[OF cg_okD(2)[OF ok] all])
  have fd_ok: "frontier_ok ?g (sorted_list_of_set (dominators (vparents ?g) (set f')))"
    "ghist ?g (sorted_list_of_set (dominators (vparents ?g) (set f'))) = ghist ?g f'"
    using frontier_ok_dominators[OF cg_okD(2)[OF ok], of "set f'"] all by auto
  have ends: "run_ends cg S \<subseteq> visit_lasts vs"
  proof
    fix v assume "v \<in> run_ends cg S"
    then obtain n q where q: "(n, q) \<in> S" "try_remote_to_local_version (cg_aa cg) (n, q) = Inr v"
      "(n, Suc q) \<notin> S \<or> try_remote_to_local_version (cg_aa cg) (n, Suc q) \<noteq> Inr (Suc v)" by (auto simp: run_ends_def)
    then have "(n, q, v) \<in> visits_known vs" unfolding vs(1) by simp
    then obtain r v0 where r: "(n, r, Some v0) \<in> set vs" "dt_start r \<le> q" "q < dt_end r" "v = v0 + (q - dt_start r)"
      by (auto simp: visits_known_def)
    have "\<not> Suc (q - dt_start r) < dtrange_len r"
      using run[OF r(1), THEN conjunct2, rule_format, of "Suc (q - dt_start r)"] q(3) r(2,4) by auto
    then have "v = v0 + dtrange_len r - 1" using r(2-4) by (simp add: dtrange_len_def)
    then show "v \<in> visit_lasts vs" using r(1) by (auto simp: visit_lasts_def)
  qed
  have full: "?known \<subseteq> hist (vparents ?g) (visit_lasts vs)" if lin: "agents_linear cg"
  proof
    fix v assume "v \<in> ?known"
    then obtain n q where "(n, q, v) \<in> visits_known vs" unfolding vs(1) by auto
    then obtain r v0 where r: "(n, r, Some v0) \<in> set vs" "dt_start r \<le> q" "q < dt_end r" "v = v0 + (q - dt_start r)"
      by (auto simp: visits_known_def)
    have "ganc ?g (v0 + (q - dt_start r)) (v0 + dtrange_len r - 1)"
      using run[OF r(1)] r(2,3) by (intro visits_chain[OF ok lin, of "dtrange_len r" n "dt_start r"])
        (auto simp: dtrange_len_def)
    then show "v \<in> hist (vparents ?g) (visit_lasts vs)"
      using r(1,4) by (auto simp: hist_def visit_lasts_def)
  qed
  have g: "ghist ?g f' = ghist ?g f \<union> hist (vparents ?g) (visit_lasts vs)" using f(2) by simp
  have upper: "hist (vparents ?g) (visit_lasts vs) \<subseteq> hist (vparents ?g) ?known" by (rule hist_mono[OF lasts])
  have lower: "hist (vparents ?g) (run_ends cg S) \<subseteq> hist (vparents ?g) (visit_lasts vs)" by (rule hist_mono[OF ends])
  have "hist (vparents ?g) ?known \<subseteq> hist (vparents ?g) (visit_lasts vs)" if "agents_linear cg"
    using full[OF that] unfolding hist_subset .
  then have "agents_linear cg \<longrightarrow> ghist ?g f' = ghist ?g f \<union> hist (vparents ?g) ?known" using g upper by auto
  then show ?thesis using d fd_ok g upper lower unfolding kn by auto
qed

theorem intersect_with_summary_spec:
  assumes ok: "cg_ok cg" and small: "cg_len cg \<le> usize_max div 2"
    and s: "summary_ok s" and f: "\<forall>v \<in> set f. v < cg_len cg"
  shows "\<exists>d rem. intersect_with_summary cg s f = Some (d, rem) \<and> frontier_ok (cg_graph cg) d \<and>
    ghist (cg_graph cg) f \<union> hist (vparents (cg_graph cg)) (run_ends cg (summary_set s)) \<subseteq> ghist (cg_graph cg) d \<and>
    ghist (cg_graph cg) d \<subseteq> ghist (cg_graph cg) f \<union> hist (vparents (cg_graph cg)) (known_named cg (summary_set s)) \<and>
    (agents_linear cg \<longrightarrow>
      ghist (cg_graph cg) d = ghist (cg_graph cg) f \<union> hist (vparents (cg_graph cg)) (known_named cg (summary_set s))) \<and>
    remainder_set rem = {(n, q) \<in> summary_set s. \<forall>v. try_remote_to_local_version (cg_aa cg) (n, q) \<noteq> Inr v} \<and>
    (rem = None \<longleftrightarrow> remainder_set rem = {})"
proof -
  let ?vs = "intersect_with_summary_full (cg_aa cg) s"
  note vs = intersect_full_spec[OF cg_okD(1)[OF ok] s]
  obtain f' rem where fold: "foldl summary_visit (f, None) ?vs = (f', rem)" by (cases "foldl summary_visit (f, None) ?vs")
  note fd = summary_fold[OF fold]
  have rem: "remainder_set rem = {(n, q) \<in> summary_set s. \<forall>v. try_remote_to_local_version (cg_aa cg) (n, q) \<noteq> Inr v}"
    using fd unfolding vs(2) by (auto simp: remainder_set_def)
  have none: "rem = None \<longleftrightarrow> remainder_set rem = {}"
    using fd visits_missing_empty[OF vs(3)] by (simp add: remainder_set_def)
  obtain d where d: "find_dominators (cg_graph cg) f' = Some d" "frontier_ok (cg_graph cg) d"
    "ghist (cg_graph cg) f \<union> hist (vparents (cg_graph cg)) (run_ends cg (summary_set s)) \<subseteq> ghist (cg_graph cg) d"
    "ghist (cg_graph cg) d \<subseteq> ghist (cg_graph cg) f \<union> hist (vparents (cg_graph cg)) (known_named cg (summary_set s))"
    "(agents_linear cg \<longrightarrow>
      ghist (cg_graph cg) d = ghist (cg_graph cg) f \<union> hist (vparents (cg_graph cg)) (known_named cg (summary_set s)))"
    using visits_dominators[OF ok small vs(1,3) f conjunct1[OF fd]] by (elim exE conjE) (rule that)
  have "intersect_with_summary cg s f = Some (d, rem)" using fold d(1) by (simp add: intersect_with_summary_def)
  then show ?thesis using d(2-5) rem none by (intro exI conjI)
qed

section \<open>Flat summaries\<close>

definition flat_set :: "version_summary_flat \<Rightarrow> (agent_name \<times> nat) set" where
  "flat_set s = {(n, q). \<exists>k. (n, k) \<in> set s \<and> q < k}"

lemma flat_entries_spec:
  "seq_ok es \<Longrightarrow> packed_from kv_key (kv_len dtrange_len) next es \<Longrightarrow>
   \<exists>vs m. flat_entries n k es next = Some (vs, m) \<and> next \<le> m \<and> visits_missing vs = {} \<and> visits_ok vs \<and>
     visits_known vs = {(n, q, v) | q v. (q, v) \<in> seq_map es \<and> q < k} \<and>
     (\<forall>q. next \<le> q \<longrightarrow> q < k \<longrightarrow> (\<exists>v. (q, v) \<in> seq_map es) = (q < m))"
proof (induction es arbitrary: "next")
  case Nil
  then show ?case by simp
next
  case (Cons e es)
  let ?e = "kv_key e + kv_len dtrange_len e"
  have e: "kv_key e = next" "0 < kv_len dtrange_len e" "seq_ok es" "packed_from kv_key (kv_len dtrange_len) ?e es"
    using Cons.prems by (auto simp: span_end_def)
  have above: "?e \<le> q" if "(q, v) \<in> seq_map es" for q v
    using that Cons.prems(1) by (fastforce simp: seq_map_entry)
  show ?case
  proof (cases "k \<le> next")
    case True
    then have "\<not> q < k" if "(q, v) \<in> seq_map (e # es)" for q v
      using that above[of q v] e unfolding seq_map_Cons by fastforce
    then have "{(n, q, v) | q v. (q, v) \<in> seq_map (e # es) \<and> q < k} = {}" by blast
    then show ?thesis using True e(1) by (simp add: Let_def span_end_def)
  next
    case False
    from Cons.IH[OF e(3,4)] obtain vs m where ih: "flat_entries n k es ?e = Some (vs, m)" "?e \<le> m"
      "visits_missing vs = {}" "visits_ok vs" "visits_known vs = {(n, q, v) | q v. (q, v) \<in> seq_map es \<and> q < k}"
      "\<forall>q. ?e \<le> q \<longrightarrow> q < k \<longrightarrow> (\<exists>v. (q, v) \<in> seq_map es) = (q < m)" by (elim exE conjE) (rule that)
    define r0 where "r0 = (if k < ?e then fst (dtrange_truncate (kv_range dtrange_len e) (k - next)) else kv_range dtrange_len e)"
    have r: "dt_start r0 = next" "dt_end r0 = min ?e k" "dt_start r0 < dt_end r0"
      using False e(1,2) by (auto simp: r0_def kv_range_def dtrange_truncate_def Let_def)
    have fe: "flat_entries n k (e # es) next = Some ((n, r0, Some (dt_start (kv_val e))) # vs, m)"
      using False e(1) ih(1) by (simp add: Let_def span_end_def r0_def)
    have "visits_known ((n, r0, Some (dt_start (kv_val e))) # vs) =
        {(n, q, v) | q v. (q, v) \<in> seq_map (e # es) \<and> q < k}"
      unfolding visits_Cons r(1,2) ih(5) seq_map_Cons e(1) by auto
    moreover have "(\<exists>v. (q, v) \<in> seq_map (e # es)) = (q < m)" if "next \<le> q" "q < k" for q
      using that ih(2,6) e(1) above unfolding seq_map_Cons by (metis le_less_trans not_le less_le_trans)
    ultimately show ?thesis using fe ih(2,3,4) r e by (intro exI[of _ "(n, r0, Some (dt_start (kv_val e))) # vs"] exI[of _ m])
        (simp add: visits_Cons)
  qed
qed

text \<open>A flat summary is meant for agents whose sequence numbers are all known without gaps.\<close>

definition agents_packed :: "agent_assignment \<Rightarrow> bool" where
  "agents_packed aa \<longleftrightarrow> (\<forall>c \<in> set (aa_clients aa). check_packed_from_0 kv_key (kv_len dtrange_len) (cd_lv c))"

lemma flat_agent_spec:
  assumes ok: "aa_ok aa" and p: "agents_packed aa"
  shows "\<exists>vs. flat_agent aa n k = Some vs \<and> visits_ok vs \<and>
    visits_known vs = {(n, q, v) | q v. q < k \<and> try_remote_to_local_version aa (n, q) = Inr v} \<and>
    visits_missing vs = {(n, q) | q. q < k \<and> (\<forall>v. try_remote_to_local_version aa (n, q) \<noteq> Inr v)} \<and>
    (\<forall>(m, r, v) \<in> set vs. v = None \<longrightarrow> m = n \<and> dt_end r = k)"
proof -
  obtain vs m where vs: "(case get_agent_id aa n of None \<Rightarrow> Some ([], 0)
      | Some a \<Rightarrow> flat_entries n k (cd_lv (aa_clients aa ! a)) 0) = Some (vs, m)"
    "visits_missing vs = {}" "visits_ok vs"
    "visits_known vs = {(n, q, v) | q v. q < k \<and> try_remote_to_local_version aa (n, q) = Inr v}"
    "\<forall>q. q < k \<longrightarrow> (\<exists>v. try_remote_to_local_version aa (n, q) = Inr v) = (q < m)"
  proof (cases "get_agent_id aa n")
    case None
    then show ?thesis using that[of "[]" 0] by (simp add: remote_known[OF ok])
  next
    case (Some a)
    have a: "a < length (aa_clients aa)" by (rule agent_id_less[OF ok Some])
    have kn: "try_remote_to_local_version aa (n, q) = Inr v \<longleftrightarrow> (q, v) \<in> seq_map (cd_lv (aa_clients aa ! a))" for q v
      using Some a by (simp add: remote_known[OF ok])
    have pk: "packed_from kv_key (kv_len dtrange_len) 0 (cd_lv (aa_clients aa ! a))"
      using p a by (simp add: agents_packed_def check_packed_from_0_def)
    from flat_entries_spec[OF aa_okD(3)[OF ok a] pk, of n k] show ?thesis
      using Some that unfolding kn by (simp add: conj_commute) blast
  qed
  have nn: "(m', r, None) \<notin> set vs" for m' r
    using visits_missing_empty[OF vs(3)] vs(2) by auto
  have ms: "(\<forall>v. try_remote_to_local_version aa (n, q) \<noteq> Inr v) \<longleftrightarrow> \<not> q < m" if "q < k" for q
    using vs(5) that by blast
  have "visits_missing (vs @ (if m < k then [(n, dtr m k, None)] else [])) =
      {(n, q) | q. q < k \<and> (\<forall>v. try_remote_to_local_version aa (n, q) \<noteq> Inr v)}"
    using vs(2) ms by (auto simp: visits_Cons)
  moreover have "flat_agent aa n k = Some (vs @ (if m < k then [(n, dtr m k, None)] else []))"
    using vs(1) by (simp add: flat_agent_def)
  ultimately show ?thesis using vs(3,4) nn
    by (intro exI[of _ "vs @ (if m < k then [(n, dtr m k, None)] else [])"]) (auto simp: visits_Cons)
qed

lemma flat_full_spec:
  assumes ok: "aa_ok aa" and p: "agents_packed aa"
  shows "\<exists>vs. intersect_with_flat_summary_full aa s = Some vs \<and> visits_ok vs \<and>
    visits_known vs = {(n, q, v). (n, q) \<in> flat_set s \<and> try_remote_to_local_version aa (n, q) = Inr v} \<and>
    visits_missing vs = {(n, q). (n, q) \<in> flat_set s \<and> (\<forall>v. try_remote_to_local_version aa (n, q) \<noteq> Inr v)} \<and>
    (\<forall>(n, r, v) \<in> set vs. v = None \<longrightarrow> (n, dt_end r) \<in> set s)"
proof (induction s)
  case Nil
  then show ?case by (simp add: intersect_with_flat_summary_full_def flat_set_def)
next
  case (Cons x s)
  obtain n k where x: "x = (n, k)" by (cases x)
  obtain vs where vs: "intersect_with_flat_summary_full aa s = Some vs" "visits_ok vs"
    "visits_known vs = {(n, q, v). (n, q) \<in> flat_set s \<and> try_remote_to_local_version aa (n, q) = Inr v}"
    "visits_missing vs = {(n, q). (n, q) \<in> flat_set s \<and> (\<forall>v. try_remote_to_local_version aa (n, q) \<noteq> Inr v)}"
    "\<forall>(n, r, v) \<in> set vs. v = None \<longrightarrow> (n, dt_end r) \<in> set s" using Cons.IH by blast
  from flat_agent_spec[OF ok p, of n k] obtain ws where ws: "flat_agent aa n k = Some ws" "visits_ok ws"
    "visits_known ws = {(n, q, v) | q v. q < k \<and> try_remote_to_local_version aa (n, q) = Inr v}"
    "visits_missing ws = {(n, q) | q. q < k \<and> (\<forall>v. try_remote_to_local_version aa (n, q) \<noteq> Inr v)}"
    "\<forall>(m, r, v) \<in> set ws. v = None \<longrightarrow> m = n \<and> dt_end r = k" by (elim exE conjE) (rule that)
  have "intersect_with_flat_summary_full aa (x # s) = Some (ws @ vs)"
    using vs(1) ws(1) by (auto simp: intersect_with_flat_summary_full_def x)
  moreover have "flat_set (x # s) = {(n, q) | q. q < k} \<union> flat_set s" by (auto simp: flat_set_def x)
  moreover have "\<forall>(n, r, v) \<in> set (ws @ vs). v = None \<longrightarrow> (n, dt_end r) \<in> set (x # s)"
    using vs(5) ws(5) by (fastforce simp: x)
  ultimately show ?case using vs(2,3,4) ws(2,3,4)
    by (intro exI[of _ "ws @ vs"]) auto
qed

lemma flat_fold:
  "foldl flat_visit (f, rem) vs = (f', rem') \<Longrightarrow>
   set f' = set f \<union> visit_lasts vs \<and>
   set (case rem' of None \<Rightarrow> [] | Some r \<Rightarrow> r) = set (case rem of None \<Rightarrow> [] | Some r \<Rightarrow> r) \<union>
     {(n, dt_end r) | n r. (n, r, None) \<in> set vs} \<and>
   (rem' = None \<longleftrightarrow> rem = None \<and> (\<forall>(n, r, v) \<in> set vs. v \<noteq> None))"
proof (induction vs arbitrary: f rem)
  case Nil
  then show ?case by simp
next
  case (Cons x vs)
  obtain n r v where x: "x = (n, r, v)" by (cases x)
  show ?case
  proof (cases v)
    case None
    then show ?thesis
      using Cons.prems Cons.IH[of f "Some ((case rem of None \<Rightarrow> [] | Some r \<Rightarrow> r) @ [(n, dt_end r)])"] x by auto
  next
    case (Some w)
    then show ?thesis
      using Cons.prems Cons.IH[of "f @ [w + dtrange_len r - 1]" rem] x by simp
  qed
qed

theorem intersect_with_flat_summary_spec:
  assumes ok: "cg_ok cg" and lin: "agents_linear cg" and small: "cg_len cg \<le> usize_max div 2"
    and p: "agents_packed (cg_aa cg)" and f: "\<forall>v \<in> set f. v < cg_len cg"
  shows "\<exists>d rem. intersect_with_flat_summary cg s f = Some (d, rem) \<and> frontier_ok (cg_graph cg) d \<and>
    ghist (cg_graph cg) d = ghist (cg_graph cg) f \<union>
      hist (vparents (cg_graph cg)) {v. \<exists>(n, q) \<in> flat_set s. try_remote_to_local_version (cg_aa cg) (n, q) = Inr v} \<and>
    (rem = None \<longleftrightarrow> (\<forall>x \<in> flat_set s. \<exists>v. try_remote_to_local_version (cg_aa cg) x = Inr v)) \<and>
    set (case rem of None \<Rightarrow> [] | Some r \<Rightarrow> r) \<subseteq> set s"
proof -
  obtain vs where vs: "intersect_with_flat_summary_full (cg_aa cg) s = Some vs" "visits_ok vs"
    "visits_known vs = {(n, q, v). (n, q) \<in> flat_set s \<and> try_remote_to_local_version (cg_aa cg) (n, q) = Inr v}"
    "visits_missing vs = {(n, q). (n, q) \<in> flat_set s \<and> (\<forall>v. try_remote_to_local_version (cg_aa cg) (n, q) \<noteq> Inr v)}"
    "\<forall>(n, r, v) \<in> set vs. v = None \<longrightarrow> (n, dt_end r) \<in> set s"
    using flat_full_spec[OF cg_okD(1)[OF ok] p, of s] by blast
  obtain f' rem where fold: "foldl flat_visit (f, None) vs = (f', rem)" by (cases "foldl flat_visit (f, None) vs")
  note fd = flat_fold[OF fold]
  from visits_dominators[OF ok small vs(3,2) f conjunct1[OF fd]]
  obtain d where d: "find_dominators (cg_graph cg) f' = Some d" "frontier_ok (cg_graph cg) d"
    "ghist (cg_graph cg) d = ghist (cg_graph cg) f \<union>
      hist (vparents (cg_graph cg)) {v. \<exists>(n, q) \<in> flat_set s. try_remote_to_local_version (cg_aa cg) (n, q) = Inr v}"
    using lin by (elim exE conjE) (rule that, auto simp: known_named_def)
  have "rem = None \<longleftrightarrow> visits_missing vs = {}" using fd visits_missing_empty[OF vs(2)] by simp
  then have "rem = None \<longleftrightarrow> (\<forall>x \<in> flat_set s. \<exists>v. try_remote_to_local_version (cg_aa cg) x = Inr v)"
    unfolding vs(4) by auto
  moreover have "set (case rem of None \<Rightarrow> [] | Some r \<Rightarrow> r) \<subseteq> set s" using fd vs(5) by auto
  moreover have "intersect_with_flat_summary cg s f = Some (d, rem)"
    using fold d(1) vs(1) by (simp add: intersect_with_flat_summary_def)
  ultimately show ?thesis using d(2,3) by (intro exI conjI)
qed

section \<open>A causal graph's own summary\<close>

lemma merged_ranges:
  assumes "seq_ok xs"
  defines "rs \<equiv> merge_spans dtrange_can_append dtrange_append dtrange_prepend (map (kv_range dtrange_len) xs)"
  shows "\<forall>r \<in> set rs. dt_start r < dt_end r"
    "(\<exists>r \<in> set rs. dt_start r \<le> q \<and> q < dt_end r) \<longleftrightarrow> (\<exists>v. (q, v) \<in> seq_map xs)"
proof -
  let ?ys = "map (kv_range dtrange_len) xs"
  have pos: "dt_start y < dt_end y" if "y \<in> set ?ys" for y
    using that assms(1) by (auto simp: kv_range_def vec_ok_def)
  have merge: "\<forall>y \<in> set (coalesce dtrange_can_append dtrange_append z zs). dt_start y < dt_end y"
    if "dt_start z < dt_end z" "\<forall>y \<in> set zs. dt_start y < dt_end y" for z zs
    using that
  proof (induction zs arbitrary: z)
    case (Cons w ws)
    show ?case
    proof (cases "dtrange_can_append z w")
      case True
      then have "dt_start (dtrange_append z w) < dt_end (dtrange_append z w)"
        using Cons.prems by (auto simp: dtrange_can_append_def dtrange_append_def)
      then show ?thesis using True Cons.IH Cons.prems(2) by simp
    next
      case False
      then show ?thesis using Cons.prems Cons.IH[of w] by simp
    qed
  qed simp
  show "\<forall>r \<in> set rs. dt_start r < dt_end r"
  proof (cases ?ys)
    case (Cons z zs)
    then show ?thesis using merge[of z zs] pos[unfolded Cons] unfolding rs_def Cons merge_spans_simps by simp
  qed (simp add: rs_def merge_spans_simps)
  have "\<forall>y \<in> set ?ys. dtrange_is_valid y" using pos by (auto simp: dtrange_is_valid_def intro: less_imp_le)
  from dtrange.merge_spans_items[OF this]
  have "set (concat (map dtrange_iter rs)) = set (concat (map dtrange_iter ?ys))" unfolding rs_def by simp
  then have "(\<exists>r \<in> set rs. q \<in> set (dtrange_iter r)) \<longleftrightarrow> (\<exists>y \<in> set ?ys. q \<in> set (dtrange_iter y))"
    by (simp add: set_eq_iff)
  then show "(\<exists>r \<in> set rs. dt_start r \<le> q \<and> q < dt_end r) \<longleftrightarrow> (\<exists>v. (q, v) \<in> seq_map xs)"
    by (auto simp: dtrange_iter_def kv_range_def seq_map_entry)
qed

theorem summarize_versions_spec:
  assumes ok: "aa_ok aa"
  shows "summary_ok (summarize_versions aa)"
    "(n, q) \<in> summary_set (summarize_versions aa) \<longleftrightarrow> (\<exists>v. try_remote_to_local_version aa (n, q) = Inr v)"
proof -
  let ?rs = "\<lambda>c. merge_spans dtrange_can_append dtrange_append dtrange_prepend (map (kv_range dtrange_len) (cd_lv c))"
  have mem: "set (summarize_versions aa) =
      (\<lambda>c. \<lparr>vse_name = cd_name c, vse_ranges = ?rs c\<rparr>) ` {c \<in> set (aa_clients aa). cd_lv c \<noteq> []}"
    by (auto simp: summarize_versions_def List.map_filter_def)
  have okc: "seq_ok (cd_lv c)" if "c \<in> set (aa_clients aa)" for c using ok that by (simp add: aa_ok_def)
  show "summary_ok (summarize_versions aa)"
    unfolding summary_ok_def mem using merged_ranges(1)[OF okc] by auto
  have "(n, q) \<in> summary_set (summarize_versions aa) \<longleftrightarrow>
      (\<exists>c \<in> set (aa_clients aa). cd_lv c \<noteq> [] \<and> cd_name c = n \<and> (\<exists>v. (q, v) \<in> seq_map (cd_lv c)))"
  proof -
    have "(n, q) \<in> summary_set (summarize_versions aa) \<longleftrightarrow> (\<exists>c \<in> set (aa_clients aa). cd_lv c \<noteq> [] \<and> cd_name c = n \<and>
        (\<exists>r \<in> set (?rs c). dt_start r \<le> q \<and> q < dt_end r))"
      unfolding summary_set_def mem by auto
    then show ?thesis using merged_ranges(2)[OF okc] by blast
  qed
  also have "\<dots> \<longleftrightarrow> (\<exists>c \<in> set (aa_clients aa). cd_name c = n \<and> (\<exists>v. (q, v) \<in> seq_map (cd_lv c)))" by force
  also have "\<dots> \<longleftrightarrow> (\<exists>a v. get_agent_id aa n = Some a \<and> (q, v) \<in> seq_map (cd_lv (aa_clients aa ! a)))"
    unfolding get_agent_id_def client_position_iff[OF aa_okD(5)[OF ok]] by (metis in_set_conv_nth)
  finally show "(n, q) \<in> summary_set (summarize_versions aa) \<longleftrightarrow> (\<exists>v. try_remote_to_local_version aa (n, q) = Inr v)"
    unfolding remote_known[OF ok] using agent_id_less[OF ok] by blast
qed

theorem own_summary:
  assumes ok: "cg_ok cg" and lin: "agents_linear cg" and small: "cg_len cg \<le> usize_max div 2"
  shows "intersect_with_summary cg (summarize_versions (cg_aa cg)) [] = Some (cg_version cg, None)"
proof -
  let ?s = "summarize_versions (cg_aa cg)" and ?aa = "cg_aa cg"
  note aa = cg_okD(1)[OF ok]
  have "\<forall>v \<in> set []. v < cg_len cg" by simp
  from intersect_with_summary_spec[OF ok small summarize_versions_spec(1)[OF aa] this]
  obtain d rem where d: "intersect_with_summary cg ?s [] = Some (d, rem)" "frontier_ok (cg_graph cg) d"
    "ghist (cg_graph cg) d = ghist (cg_graph cg) [] \<union> hist (vparents (cg_graph cg))
       {v. \<exists>(n, q) \<in> summary_set ?s. try_remote_to_local_version ?aa (n, q) = Inr v}"
    "remainder_set rem = {(n, q) \<in> summary_set ?s. \<forall>v. try_remote_to_local_version ?aa (n, q) \<noteq> Inr v}"
    "rem = None \<longleftrightarrow> remainder_set rem = {}"
    using lin unfolding known_named_def by (elim exE conjE) (rule that, assumption, assumption, erule mp, assumption+)
  have "{v. \<exists>(n, q) \<in> summary_set ?s. try_remote_to_local_version ?aa (n, q) = Inr v} = {..< cg_len cg}"
  proof -
    have "(\<exists>n q. try_remote_to_local_version ?aa (n, q) = Inr v) \<longleftrightarrow> v < cg_len cg" for v
    proof
      assume "v < cg_len cg"
      then show "\<exists>n q. try_remote_to_local_version ?aa (n, q) = Inr v"
        using remote_round_trip[OF aa, of v] by (auto simp: cg_len_def len_assignment_def)
    next
      assume "\<exists>n q. try_remote_to_local_version ?aa (n, q) = Inr v"
      then have "v \<in> fst ` assigned ?aa" by (force simp: remote_assigned[OF aa])
      then show "v < cg_len cg" by (simp add: aa_okD(2)[OF aa] cg_len_def len_assignment_def)
    qed
    moreover have "(\<exists>x \<in> summary_set ?s. try_remote_to_local_version ?aa x = Inr v) \<longleftrightarrow>
        (\<exists>n q. try_remote_to_local_version ?aa (n, q) = Inr v)" for v
      using summarize_versions_spec(2)[OF aa] by (metis surj_pair)
    ultimately show ?thesis by (auto simp: set_eq_iff)
  qed
  then have "ghist (cg_graph cg) d = ghist (cg_graph cg) (cg_version cg)"
    using d(3) cg_okD(7)[OF ok] hist_hist[of "vparents (cg_graph cg)" "set (cg_version cg)"] by simp
  then have "d = cg_version cg" by (rule frontier_ok_unique[OF cg_okD(2)[OF ok] d(2) cg_okD(6)[OF ok]])
  moreover have "rem = None" using d(4,5) summarize_versions_spec(2)[OF aa] by auto
  ultimately show ?thesis using d(1) by simp
qed

section \<open>An agent that writes on two branches\<close>

text \<open>
  One agent writes two versions that do not know of each other.  Their numbers and local versions are
  consecutive, so they are stored as one run, and the intersection keeps only the last of them.
\<close>

definition branching_cg :: causal_graph where
  "branching_cg = fst (the (merge_and_assign
     (fst (the (merge_and_assign sample_agents [] \<lparr>as_agent = 0, as_seq = dtr 0 1\<rparr>)))
     [] \<lparr>as_agent = 0, as_seq = dtr 1 2\<rparr>))"

lemma branching_values:
  "cg_version branching_cg = [0, 1]" "cg_len branching_cg = 2"
  "summarize_versions (cg_aa branching_cg) = [\<lparr>vse_name = [0x73, 0x65, 0x70, 0x68], vse_ranges = [dtr 0 2]\<rparr>]"
  by code_simp+

lemma branching_loses:
  "intersect_with_summary branching_cg [\<lparr>vse_name = [0x73, 0x65, 0x70, 0x68], vse_ranges = [dtr 0 2]\<rparr>] [] =
     Some ([1], None)"
  by code_simp

section \<open>The sample\<close>

lemma agents_linear_check:
  assumes ok: "cg_ok cg"
    and c: "list_all (\<lambda>v. vparents (cg_graph cg) (Suc v) = [v] \<or>
      fst (agent_of (cg_aa cg) (Suc v)) \<noteq> fst (agent_of (cg_aa cg) v)) [0 ..< cg_len cg - 1]"
  shows "agents_linear cg"
  unfolding agents_linear_def
proof (intro allI impI)
  fix v a q
  assume 1: "(v, (a, q)) \<in> assigned (cg_aa cg)" and 2: "(Suc v, (a, Suc q)) \<in> assigned (cg_aa cg)"
  have "Suc v \<in> fst ` assigned (cg_aa cg)" using 2 by force
  then have "Suc v < cg_len cg" by (simp add: aa_okD(2)[OF cg_okD(1)[OF ok]] cg_len_def len_assignment_def)
  moreover have "agent_of (cg_aa cg) v = (a, q)" "agent_of (cg_aa cg) (Suc v) = (a, Suc q)"
    using 1 2 unfolding local_to_agent_assigned[OF cg_okD(1)[OF ok], symmetric] by (simp_all add: agent_of_def)
  ultimately have "vparents (cg_graph cg) (Suc v) = [v]" using c by (auto simp: list_all_iff)
  then show "ganc (cg_graph cg) v (Suc v)" by (intro anc_parent) simp
qed

lemma sample_linear: "agents_linear sample_cg"
  by (rule agents_linear_check[OF sample_cg_ok(4)]) code_simp

lemma sample_packed: "agents_packed (cg_aa sample_cg)"
  by code_simp

end
