(* ===== verification/RangeRev.thy ===== *)
theory RangeRev
  imports RleIter
begin

text \<open>
  Reversible ranges (\<open>src/rev_range.rs\<close>) and how they stand for the positions of an insert or a delete
  (\<open>impl RangeRev\<close> in \<open>src/list/op_metrics.rs\<close>).

  As a plain range, \<open>RangeRev\<close> names its positions upwards or, if not \<open>fwd\<close>, downwards
  (\<open>rr_items\<close>).  As the location of an operation it names one position per single-character edit
  (\<open>op_positions\<close>): an insert writes at increasing positions; a forward delete removes
  the same position again and again; a backward delete moves down like a backspace.  Both readings are
  lawful spans, with different split and append functions.
\<close>

record range_rev =
  rr_span :: dtrange
  rr_fwd :: bool

abbreviation rrev :: "nat \<Rightarrow> nat \<Rightarrow> bool \<Rightarrow> range_rev" where
  "rrev s e f \<equiv> \<lparr>rr_span = dtr s e, rr_fwd = f\<rparr>"

definition rr_len :: "range_rev \<Rightarrow> nat" where
  "rr_len r = dtrange_len (rr_span r)"

definition lv_at_offset :: "range_rev \<Rightarrow> nat \<Rightarrow> nat" where
  "lv_at_offset self offset =
     (if rr_fwd self then dt_start (rr_span self) + offset else dt_end (rr_span self) - offset - 1)"

definition rr_range :: "range_rev \<Rightarrow> nat \<Rightarrow> nat \<Rightarrow> dtrange" where
  "rr_range self offset_start offset_end =
     (if rr_fwd self
      then \<lparr>dt_start = dt_start (rr_span self) + offset_start, dt_end = dt_start (rr_span self) + offset_end\<rparr>
      else \<lparr>dt_start = dt_end (rr_span self) - offset_end, dt_end = dt_end (rr_span self) - offset_start\<rparr>)"

definition rr_from :: "dtrange \<Rightarrow> range_rev" where
  "rr_from target = \<lparr>rr_span = target, rr_fwd = True\<rparr>"

definition rr_eq :: "range_rev \<Rightarrow> range_rev \<Rightarrow> bool" where
  "rr_eq self other \<longleftrightarrow>
     rr_span self = rr_span other \<and> (rr_fwd self = rr_fwd other \<or> dtrange_len (rr_span self) \<le> 1)"

definition rr_truncate :: "range_rev \<Rightarrow> nat \<Rightarrow> range_rev \<times> range_rev" where
  "rr_truncate self at =
     (let (left, rem) = (if rr_fwd self then dtrange_truncate (rr_span self) at
                         else dtrange_truncate_keeping_right (rr_span self) (rr_len self - at))
      in (self\<lparr>rr_span := left\<rparr>, \<lparr>rr_span = rem, rr_fwd = rr_fwd self\<rparr>))"

definition rr_can_append :: "range_rev \<Rightarrow> range_rev \<Rightarrow> bool" where
  "rr_can_append self other \<longleftrightarrow>
     (let self_len_1 = rr_len self = 1; other_len_1 = rr_len other = 1
      in (self_len_1 \<or> rr_fwd self) \<and> (other_len_1 \<or> rr_fwd other) \<and>
           dt_start (rr_span other) = dt_end (rr_span self) \<or>
         (self_len_1 \<or> \<not> rr_fwd self) \<and> (other_len_1 \<or> \<not> rr_fwd other) \<and>
           dt_end (rr_span other) = dt_start (rr_span self))"

definition rr_append :: "range_rev \<Rightarrow> range_rev \<Rightarrow> range_rev" where
  "rr_append self other =
     (let fwd = dt_start (rr_span other) \<ge> dt_start (rr_span self)
      in \<lparr>rr_span = (if fwd then (rr_span self)\<lparr>dt_end := dt_end (rr_span other)\<rparr>
                     else (rr_span self)\<lparr>dt_start := dt_start (rr_span other)\<rparr>), rr_fwd = fwd\<rparr>)"

definition rr_items :: "range_rev \<Rightarrow> nat list" where
  "rr_items r = map (lv_at_offset r) [0 ..< rr_len r]"

definition rr_valid :: "range_rev \<Rightarrow> bool" where
  "rr_valid r \<longleftrightarrow> dt_start (rr_span r) < dt_end (rr_span r)"

subsection \<open>As the location of an operation\<close>

datatype list_op_kind = Ins | Del

definition truncate_tagged_span :: "range_rev \<Rightarrow> list_op_kind \<Rightarrow> nat \<Rightarrow> range_rev \<times> range_rev" where
  "truncate_tagged_span self tag at =
     (let len = rr_len self;
          start2 = (if rr_fwd self \<and> tag = Ins then dt_start (rr_span self) + at else dt_start (rr_span self));
          start1 = (if \<not> rr_fwd self \<and> tag = Del then dt_end (rr_span self) - at else dt_start (rr_span self))
      in (self\<lparr>rr_span := \<lparr>dt_start = start1, dt_end = start1 + at\<rparr>\<rparr>,
          \<lparr>rr_span = \<lparr>dt_start = start2, dt_end = start2 + len - at\<rparr>, rr_fwd = rr_fwd self\<rparr>))"

definition split_op_span :: "range_rev \<Rightarrow> list_op_kind \<Rightarrow> nat \<Rightarrow> dtrange \<times> dtrange" where
  "split_op_span rng tag at =
     (let (start1, start2) =
            (case (rr_fwd rng, tag) of
               (True, Ins) \<Rightarrow> (dt_start (rr_span rng), dt_start (rr_span rng) + at)
             | (False, Del) \<Rightarrow> (dt_end (rr_span rng) - at, dt_start (rr_span rng))
             | _ \<Rightarrow> (dt_start (rr_span rng), dt_start (rr_span rng)))
      in (\<lparr>dt_start = start1, dt_end = start1 + at\<rparr>, \<lparr>dt_start = start2, dt_end = start2 + rr_len rng - at\<rparr>))"

definition can_append_ops :: "list_op_kind \<Rightarrow> range_rev \<Rightarrow> range_rev \<Rightarrow> bool" where
  "can_append_ops tag a b \<longleftrightarrow>
     (rr_len a = 1 \<or> rr_fwd a) \<and> (rr_len b = 1 \<or> rr_fwd b) \<and>
       (tag = Ins \<and> dt_start (rr_span b) = dt_end (rr_span a) \<or>
        tag = Del \<and> dt_start (rr_span b) = dt_start (rr_span a)) \<or>
     tag = Del \<and> (rr_len a = 1 \<or> \<not> rr_fwd a) \<and> (rr_len b = 1 \<or> \<not> rr_fwd b) \<and>
       (tag = Ins \<and> dt_start (rr_span b) = dt_start (rr_span a) \<or>
        tag = Del \<and> dt_end (rr_span b) = dt_start (rr_span a))"

definition append_ops :: "range_rev \<Rightarrow> list_op_kind \<Rightarrow> range_rev \<Rightarrow> range_rev" where
  "append_ops self tag other =
     (let fwd = (dt_start (rr_span other) \<ge> dt_start (rr_span self) \<and>
                 (dt_start (rr_span other) \<noteq> dt_start (rr_span self) \<or> tag = Del))
      in \<lparr>rr_span = (if tag = Del \<and> \<not> fwd then (rr_span self)\<lparr>dt_start := dt_start (rr_span other)\<rparr>
                     else (rr_span self)\<lparr>dt_end := dt_end (rr_span self) + dtrange_len (rr_span other)\<rparr>),
          rr_fwd = fwd\<rparr>)"

text \<open>The position of the single-character edit number \<open>i\<close> of an operation.\<close>

definition op_position :: "list_op_kind \<Rightarrow> range_rev \<Rightarrow> nat \<Rightarrow> nat" where
  "op_position tag r i =
     (case tag of
        Ins \<Rightarrow> (if rr_fwd r then dt_start (rr_span r) + i else dt_start (rr_span r))
      | Del \<Rightarrow> (if rr_fwd r then dt_start (rr_span r) else dt_end (rr_span r) - 1 - i))"

definition op_positions :: "list_op_kind \<Rightarrow> range_rev \<Rightarrow> nat list" where
  "op_positions tag r = map (op_position tag r) [0 ..< rr_len r]"

text \<open>The merge rules only ever build backward deletes; an insert is forward.\<close>

definition op_loc_valid :: "list_op_kind \<Rightarrow> range_rev \<Rightarrow> bool" where
  "op_loc_valid tag r \<longleftrightarrow> rr_valid r \<and> (tag = Ins \<longrightarrow> rr_fwd r)"

lemmas rr_defs = rr_len_def lv_at_offset_def rr_truncate_def rr_can_append_def rr_append_def rr_items_def rr_valid_def
  truncate_tagged_span_def can_append_ops_def append_ops_def op_position_def op_positions_def
  op_loc_valid_def

section \<open>The span laws\<close>

lemma take_map_upt: "at \<le> n \<Longrightarrow> take at (map f [0 ..< n]) = map f [0 ..< at]"
  by (simp add: take_map)

lemma drop_map_upt: "drop at (map f [0 ..< n]) = map (\<lambda>i. f (at + i)) [0 ..< n - at]"
  by (rule nth_equalityI) simp_all

lemma append_map_upt: "map f [0 ..< n] @ map g [0 ..< m] = map (\<lambda>i. if i < n then f i else g (i - n)) [0 ..< n + m]"
  by (rule nth_equalityI) (simp_all add: nth_append)

lemma map_upt_cong: "n = m \<Longrightarrow> (\<And>i. i < m \<Longrightarrow> f i = g i) \<Longrightarrow> map f [0 ..< n] = map g [0 ..< m]"
  by simp

lemmas map_upt = take_map_upt drop_map_upt append_map_upt

interpretation range_rev_span: split_join_span rr_len rr_items rr_valid rr_truncate rr_can_append rr_append
  "default_prepend rr_append" "default_truncate_keeping_right rr_truncate"
proof unfold_locales
  fix x at assume a: "rr_valid x" "0 < at" "at < rr_len x"
  show "rr_items (fst (rr_truncate x at)) = take at (rr_items x)"
    unfolding rr_items_def take_map_upt[OF less_imp_le[OF a(3)]]
    using a by (intro map_upt_cong) (auto simp: rr_defs span_defs Let_def)
  show "rr_items (snd (rr_truncate x at)) = drop at (rr_items x)"
    unfolding rr_items_def drop_map_upt
    using a by (intro map_upt_cong) (auto simp: rr_defs span_defs Let_def)
next
  fix a b assume "rr_valid a" "rr_valid b" "rr_can_append a b"
  then show "rr_items (rr_append a b) = rr_items a @ rr_items b"
    unfolding rr_items_def append_map_upt
    by (intro map_upt_cong) (auto simp: rr_defs span_defs Let_def split: if_splits)
qed (auto simp: rr_defs span_defs Let_def default_prepend_def default_truncate_keeping_right_def split: prod.splits)

lemma split_op_span_eq:
  "split_op_span r tag at = (rr_span (fst (truncate_tagged_span r tag at)), rr_span (snd (truncate_tagged_span r tag at)))"
  by (cases tag; cases "rr_fwd r") (simp_all add: split_op_span_def truncate_tagged_span_def Let_def)

text \<open>The same laws for operations, for each kind.\<close>

interpretation op_span: split_join_span rr_len "op_positions tag" "op_loc_valid tag"
  "\<lambda>r. truncate_tagged_span r tag" "can_append_ops tag" "\<lambda>a. append_ops a tag"
  "default_prepend (\<lambda>a. append_ops a tag)" "default_truncate_keeping_right (\<lambda>r. truncate_tagged_span r tag)"
  for tag
proof unfold_locales
  fix x at assume a: "op_loc_valid tag x" "0 < at" "at < rr_len x"
  show "op_positions tag (fst (truncate_tagged_span x tag at)) = take at (op_positions tag x)"
    unfolding op_positions_def take_map_upt[OF less_imp_le[OF a(3)]]
    using a by (cases tag; intro map_upt_cong) (auto simp: rr_defs span_defs Let_def)
  show "op_positions tag (snd (truncate_tagged_span x tag at)) = drop at (op_positions tag x)"
    unfolding op_positions_def drop_map_upt
    using a by (cases tag; intro map_upt_cong) (auto simp: rr_defs span_defs Let_def)
next
  fix a b assume "op_loc_valid tag a" "op_loc_valid tag b" "can_append_ops tag a b"
  then show "op_positions tag (append_ops a tag b) = op_positions tag a @ op_positions tag b"
    unfolding op_positions_def append_map_upt
    by (cases tag; intro map_upt_cong) (auto simp: rr_defs span_defs Let_def split: if_splits)
next
  fix x at assume a: "op_loc_valid tag x" "0 < at" "at < rr_len x"
  then show "can_append_ops tag (fst (truncate_tagged_span x tag at)) (snd (truncate_tagged_span x tag at)) \<and>
      append_ops (fst (truncate_tagged_span x tag at)) tag (snd (truncate_tagged_span x tag at)) = x"
    by (cases x; cases tag; cases "rr_fwd x") (auto simp: rr_defs span_defs Let_def)
next
  fix a b assume "op_loc_valid tag a" "op_loc_valid tag b" "can_append_ops tag a b"
  then show "op_loc_valid tag (append_ops a tag b)"
    by (cases tag) (auto simp: rr_defs span_defs Let_def split: if_splits)
qed (auto simp: rr_defs span_defs Let_def default_prepend_def default_truncate_keeping_right_def split: prod.splits if_splits)

end
