(* ===== verification/Unicount.thy ===== *)
theory Unicount
  imports BufParser Prelude
begin

text \<open>
  Character positions in UTF-8 strings (\<open>src/unicount.rs\<close>).  A string is its bytes; a character is the
  bytes it is encoded in, and \<open>str_chars\<close> cuts a string before every byte that is not a continuation
  byte, as \<open>str::chars\<close> does.

  The file only calls the crate \<open>str_indices\<close>, which is a parameter here: the record of the three
  functions the code uses.  \<open>str_indices_ok\<close> is what the crate documents of them.
\<close>

type_synonym str = "u8 list"
type_synonym uchar = "u8 list"

function str_chars :: "str \<Rightarrow> uchar list" where
  "str_chars [] = []"
| "str_chars (b # bs) = (b # takeWhile utf8_cont bs) # str_chars (dropWhile utf8_cont bs)"
  by pat_completeness auto
termination
  by (relation "measure length") (auto simp: less_Suc_eq_le length_dropWhile_le)

record str_indices =
  si_to_byte_idx :: "str \<Rightarrow> nat \<Rightarrow> nat"
  si_from_byte_idx :: "str \<Rightarrow> nat \<Rightarrow> nat"
  si_count :: "str \<Rightarrow> nat"

definition byte_offset :: "str \<Rightarrow> nat \<Rightarrow> nat" where
  "byte_offset s n = length (concat (take n (str_chars s)))"

definition str_indices_ok :: "str_indices \<Rightarrow> bool" where
  "str_indices_ok si \<longleftrightarrow> (\<forall>s. utf8_valid s \<longrightarrow>
     si_count si s = length (str_chars s) \<and>
     (\<forall>n. si_to_byte_idx si s n = byte_offset s n) \<and>
     (\<forall>n. si_from_byte_idx si s (byte_offset s n) = min n (length (str_chars s))))"

definition chars_to_bytes :: "str_indices \<Rightarrow> str \<Rightarrow> nat \<Rightarrow> nat" where
  "chars_to_bytes si s char_pos = si_to_byte_idx si s char_pos"

text \<open>
  \<open>split_at\<close> panics when the offset is behind the end or inside a character.
\<close>

definition is_char_boundary :: "str \<Rightarrow> nat \<Rightarrow> bool" where
  "is_char_boundary s i \<longleftrightarrow> i = 0 \<or> i = length s \<or> i < length s \<and> \<not> utf8_cont (s ! i)"

definition str_split_at :: "str \<Rightarrow> nat \<Rightarrow> (str \<times> str) option" where
  "str_split_at s i = (if is_char_boundary s i then Some (take i s, drop i s) else None)"

definition split_at_char :: "str_indices \<Rightarrow> str \<Rightarrow> nat \<Rightarrow> (str \<times> str) option" where
  "split_at_char si s char_pos = str_split_at s (chars_to_bytes si s char_pos)"

text \<open>The string consumed and the rest.\<close>

definition consume_chars :: "str_indices \<Rightarrow> str \<Rightarrow> nat \<Rightarrow> (str \<times> str) option" where
  "consume_chars si content len = split_at_char si content len"

definition bytes_to_chars :: "str_indices \<Rightarrow> str \<Rightarrow> nat \<Rightarrow> nat" where
  "bytes_to_chars si s byte_pos = si_from_byte_idx si s byte_pos"

definition count_chars :: "str_indices \<Rightarrow> str \<Rightarrow> nat" where
  "count_chars si s = si_count si s"

section \<open>Characters of a string\<close>

lemma concat_str_chars [simp]: "concat (str_chars s) = s"
  by (induction s rule: str_chars.induct) simp_all

lemma cont_while:
  "list_all utf8_cont bs \<Longrightarrow> takeWhile utf8_cont bs = bs"
  "list_all utf8_cont bs \<Longrightarrow> dropWhile utf8_cont bs = []"
  by (induction bs) simp_all

lemma str_chars_append:
  "t = [] \<or> \<not> utf8_cont (hd t) \<Longrightarrow> str_chars (s @ t) = str_chars s @ str_chars t"
proof (induction s rule: str_chars.induct)
  case (2 b bs)
  show ?case
  proof (cases "list_all utf8_cont bs")
    case True
    then have "takeWhile utf8_cont (bs @ t) = bs" "dropWhile utf8_cont (bs @ t) = t"
      using 2(2) by (cases t; simp add: list_all_iff)+
    then show ?thesis using True by (simp add: cont_while)
  next
    case False
    then obtain x where "x \<in> set bs" "\<not> utf8_cont x" by (auto simp: list_all_iff)
    then show ?thesis using 2 by simp
  qed
qed simp

text \<open>A byte string that is one character.\<close>

definition is_uchar :: "uchar \<Rightarrow> bool" where
  "is_uchar c \<longleftrightarrow> utf8_valid c \<and> c \<noteq> [] \<and> \<not> utf8_cont (hd c) \<and> list_all utf8_cont (tl c)"

lemma lead_not_cont: "a \<le> 0x7F \<or> 0xC2 \<le> a \<Longrightarrow> \<not> utf8_cont a"
  by (auto simp: utf8_cont_def word_le_nat_alt)

lemma utf8_valid_cases:
  assumes "utf8_valid s" "s \<noteq> []"
  obtains c t where "s = c @ t" "is_uchar c" "utf8_valid t"
proof -
  obtain a bs where s: "s = a # bs" using assms by (cases s) auto
  show ?thesis
  proof (cases "a \<le> 0x7F")
    case True
    then show ?thesis using assms s lead_not_cont[of a] that[of "[a]" bs] by (simp add: is_uchar_def)
  next
    case a: False
    then obtain b cs where b: "bs = b # cs" using assms s by (cases bs) auto
    show ?thesis
    proof (cases "0xC2 \<le> a \<and> a \<le> 0xDF")
      case True
      then show ?thesis using assms s a b lead_not_cont[of a] that[of "[a, b]" cs] by (simp add: is_uchar_def)
    next
      case a2: False
      then obtain c ds where c: "cs = c # ds" using assms s a b by (cases cs) (simp_all split: if_splits)
      have cont: "0xA0 \<le> b \<and> b \<le> 0xBF \<longrightarrow> utf8_cont b" "0x80 \<le> b \<and> b \<le> 0x9F \<longrightarrow> utf8_cont b"
        "0x90 \<le> b \<and> b \<le> 0xBF \<longrightarrow> utf8_cont b" "0x80 \<le> b \<and> b \<le> 0x8F \<longrightarrow> utf8_cont b"
        by (simp_all add: utf8_cont_def word_le_nat_alt)
      show ?thesis
      proof (cases "a = 0xE0 \<or> a = 0xED \<or> 0xE1 \<le> a \<and> a \<le> 0xEF")
        case True
        then have n: "\<not> utf8_cont a" by (intro lead_not_cont) (auto simp: word_le_nat_alt)
        have v: "utf8_valid [a, b, c]" "utf8_valid ds" "utf8_cont b" "utf8_cont c"
          using assms(1) True a a2 cont unfolding s b c by (simp_all split: if_splits)
        show ?thesis using that[of "[a, b, c]" ds] v n by (simp add: s b c is_uchar_def)
      next
        case a3: False
        then obtain d es where d: "ds = d # es" using assms s a a2 b c by (cases ds) (simp_all split: if_splits)
        have v: "utf8_valid [a, b, c, d]" "utf8_valid es" "utf8_cont b" "utf8_cont c" "utf8_cont d"
          using assms(1) a a2 a3 cont unfolding s b c d by (simp_all split: if_splits)
        have "a = 0xF0 \<or> a = 0xF4 \<or> 0xF1 \<le> a" using assms(1) a a2 a3 unfolding s b c d by (simp split: if_splits)
        then have "\<not> utf8_cont a" by (intro lead_not_cont) (auto simp: word_le_nat_alt)
        then show ?thesis using that[of "[a, b, c, d]" es] v by (simp add: s b c d is_uchar_def)
      qed
    qed
  qed
qed

declare utf8_valid.simps(2) [simp del]

lemma is_uchar_chars [simp]: "is_uchar c \<Longrightarrow> str_chars c = [c]"
  by (cases c) (simp_all add: is_uchar_def cont_while)

lemma utf8_valid_hd: "utf8_valid s \<Longrightarrow> s = [] \<or> \<not> utf8_cont (hd s)"
proof (cases "s = []")
  case False
  assume "utf8_valid s"
  then obtain c t where "s = c @ t" "is_uchar c" by (rule utf8_valid_cases[OF _ False])
  then show ?thesis by (simp add: is_uchar_def)
qed simp

lemma str_chars_app [simp]: "utf8_valid t \<Longrightarrow> str_chars (s @ t) = str_chars s @ str_chars t"
  by (rule str_chars_append[OF utf8_valid_hd])


lemma utf8_valid_induct [consumes 1, case_names Nil App]:
  assumes "utf8_valid s" "P []" "\<And>c t. is_uchar c \<Longrightarrow> utf8_valid t \<Longrightarrow> P t \<Longrightarrow> P (c @ t)"
  shows "P s"
  using assms(1)
proof (induction s rule: measure_induct_rule[of length])
  case (less s)
  show ?case
  proof (cases "s = []")
    case False
    obtain c t where "s = c @ t" "is_uchar c" "utf8_valid t" by (rule utf8_valid_cases[OF less.prems False])
    moreover from this have "length t < length s" by (auto simp: is_uchar_def)
    ultimately show ?thesis using less.IH assms(3) by simp
  qed (use assms(2) in simp)
qed

lemma utf8_valid_cont: "utf8_valid bs \<Longrightarrow> list_all utf8_cont bs \<Longrightarrow> bs = []"
  using utf8_valid_hd[of bs] by (cases bs) simp_all

lemma utf8_valid_uchar_app [simp]: assumes "is_uchar c" shows "utf8_valid (c @ t) \<longleftrightarrow> utf8_valid t"
proof -
  obtain a bs where c: "c = a # bs" and bs: "list_all utf8_cont bs" and v: "utf8_valid (a # bs)"
    using assms by (cases c) (auto simp: is_uchar_def)
  have no: "\<not> utf8_valid (x # xs)" if "utf8_cont x" for x xs
    using utf8_valid_hd[of "x # xs"] that by (metis list.distinct(1) list.sel(1))
  show ?thesis
  proof (cases "a \<le> 0x7F")
    case True
    then have "bs = []" using v bs utf8_valid_cont[of bs] by (simp add: utf8_valid.simps(2))
    then show ?thesis using True by (simp add: c utf8_valid.simps(2))
  next
    case a: False
    then obtain b cs where b: "bs = b # cs" using v by (cases bs) (simp_all add: utf8_valid.simps(2))
    show ?thesis
    proof (cases "0xC2 \<le> a \<and> a \<le> 0xDF")
      case True
      then have "cs = []" using v a bs utf8_valid_cont[of cs] by (simp add: b utf8_valid.simps(2))
      then show ?thesis using True a bs by (simp add: c b utf8_valid.simps(2))
    next
      case a2: False
      then obtain d ds where d: "cs = d # ds" using v a by (cases cs) (simp_all add: b utf8_valid.simps(2) split: if_splits)
      show ?thesis
      proof (cases ds)
        case Nil
        then show ?thesis using v bs a a2
          by (cases "0xC2 \<le> a") (simp_all add: c b d utf8_valid.simps(2)[of a] split: if_splits)
      next
        case (Cons e es)
        then have nds: "\<not> utf8_valid ds" and ce: "utf8_cont e" using bs no by (simp_all add: b d)
        then have "utf8_valid es" using v bs a a2 unfolding b d Cons utf8_valid.simps(2)[of a] by (simp split: if_splits)
        then have "es = []" using bs utf8_valid_cont[of es] by (simp add: b d Cons)
        then show ?thesis using v bs nds a a2 no[OF ce]
          by (cases "0xC2 \<le> a"; cases "0xE1 \<le> a")
            (simp_all add: c b d Cons utf8_valid.simps(2)[of a] split: if_splits)
      qed
    qed
  qed
qed

lemma str_chars_uchar: "utf8_valid s \<Longrightarrow> list_all is_uchar (str_chars s)"
  by (induction s rule: utf8_valid_induct) simp_all

lemma utf8_valid_uchars: "list_all is_uchar cs \<Longrightarrow> utf8_valid (concat cs) \<and> str_chars (concat cs) = cs"
  by (induction cs) simp_all

lemma utf8_valid_append: "utf8_valid s \<Longrightarrow> utf8_valid t \<Longrightarrow> utf8_valid (s @ t)"
  by (induction s rule: utf8_valid_induct) simp_all

section \<open>Cutting a string at a character\<close>

lemma utf8_cut:
  assumes "utf8_valid s"
  shows "take (byte_offset s n) s = concat (take n (str_chars s))"
    and "drop (byte_offset s n) s = concat (drop n (str_chars s))"
proof -
  have "s = concat (take n (str_chars s)) @ concat (drop n (str_chars s))"
    by (simp flip: concat_append)
  then show "take (byte_offset s n) s = concat (take n (str_chars s))"
    "drop (byte_offset s n) s = concat (drop n (str_chars s))"
    unfolding byte_offset_def by (metis append_eq_conv_conj)+
qed

lemma utf8_cut_valid:
  assumes "utf8_valid s"
  shows "utf8_valid (take (byte_offset s n) s)" "str_chars (take (byte_offset s n) s) = take n (str_chars s)"
    and "utf8_valid (drop (byte_offset s n) s)" "str_chars (drop (byte_offset s n) s) = drop n (str_chars s)"
proof -
  have a: "list_all is_uchar (take n (str_chars s) @ drop n (str_chars s))" using str_chars_uchar[OF assms] by simp
  then show "utf8_valid (take (byte_offset s n) s)" "str_chars (take (byte_offset s n) s) = take n (str_chars s)"
    "utf8_valid (drop (byte_offset s n) s)" "str_chars (drop (byte_offset s n) s) = drop n (str_chars s)"
    unfolding utf8_cut[OF assms] list_all_append using utf8_valid_uchars by blast+
qed

lemma byte_offset_le: "utf8_valid s \<Longrightarrow> byte_offset s n \<le> length s"
  by (metis byte_offset_def concat_append append_take_drop_id concat_str_chars le_add1 length_append)

lemma byte_offset_boundary: "utf8_valid s \<Longrightarrow> is_char_boundary s (byte_offset s n)"
  using utf8_valid_hd[OF utf8_cut_valid(3)[of s n]] byte_offset_le[of s n]
  by (auto simp: is_char_boundary_def hd_drop_conv_nth)

lemma chars_to_bytes_ok: "str_indices_ok si \<Longrightarrow> utf8_valid s \<Longrightarrow> chars_to_bytes si s n = byte_offset s n"
  by (simp add: str_indices_ok_def chars_to_bytes_def)

lemma count_chars_ok: "str_indices_ok si \<Longrightarrow> utf8_valid s \<Longrightarrow> count_chars si s = length (str_chars s)"
  by (simp add: str_indices_ok_def count_chars_def)

text \<open>\<open>split_at_char\<close> does not panic and cuts the list of characters.\<close>

lemma split_at_char_spec:
  assumes "str_indices_ok si" "utf8_valid s"
  shows "\<exists>l r. split_at_char si s n = Some (l, r) \<and> l @ r = s \<and> utf8_valid l \<and> utf8_valid r \<and>
    str_chars l = take n (str_chars s) \<and> str_chars r = drop n (str_chars s)"
  using assms utf8_cut_valid[OF assms(2)] byte_offset_boundary[OF assms(2)]
  by (simp add: split_at_char_def str_split_at_def chars_to_bytes_ok)

text \<open>When there are as many bytes as characters, every character is one byte.\<close>

lemma uchars_length: "list_all is_uchar cs \<Longrightarrow> length cs \<le> length (concat cs)"
proof (induction cs)
  case (Cons c cs)
  then have "1 \<le> length c" by (cases c) (simp_all add: is_uchar_def)
  then have "1 + length cs \<le> length c + length (concat cs)" using Cons by (intro add_mono) simp_all
  then show ?case by simp
qed simp

lemma ascii_offset:
  assumes "utf8_valid s" "length (str_chars s) = length s"
  shows "byte_offset s n = min n (length s)"
proof -
  let ?l = "take n (str_chars s)" and ?r = "drop n (str_chars s)"
  have u: "list_all is_uchar (?l @ ?r)" using str_chars_uchar[OF assms(1)] by simp
  then have "length ?l \<le> length (concat ?l)" "length ?r \<le> length (concat ?r)"
    unfolding list_all_append using uchars_length by blast+
  moreover have "length (concat ?l) + length (concat ?r) = length ?l + length ?r"
    using assms(2) by (metis append_take_drop_id concat_append concat_str_chars length_append)
  ultimately have "length (concat ?l) = length ?l" by linarith
  then show ?thesis using assms(2) by (simp add: byte_offset_def min.commute)
qed

lemma uchars_concat_mono:
  assumes "list_all is_uchar cs" "n < m" "n < length cs"
  shows "length (concat (take n cs)) < length (concat (take m cs))"
proof -
  obtain k where m: "m = n + Suc k" using assms(2) by (metis add_Suc_right less_natE)
  have "take m cs = take n cs @ cs ! n # take k (drop (Suc n) cs)"
    using assms(3) unfolding m take_add by (simp flip: Cons_nth_drop_Suc)
  moreover have "cs ! n \<noteq> []" using assms(1,3) by (auto simp: list_all_length is_uchar_def)
  ultimately show ?thesis by simp
qed

text \<open>The specification can hold: counting and summing the characters satisfies it.\<close>

definition si_scan :: str_indices where
  "si_scan = \<lparr>si_to_byte_idx = byte_offset,
     si_from_byte_idx = (\<lambda>s i. length (takeWhile (\<lambda>n. byte_offset s n < i) [0 ..< length (str_chars s)])),
     si_count = (\<lambda>s. length (str_chars s))\<rparr>"

lemma si_scan_ok: "str_indices_ok si_scan"
proof -
  have "length (takeWhile (\<lambda>m. byte_offset s m < byte_offset s n) [0 ..< length (str_chars s)]) =
      min n (length (str_chars s))" if "utf8_valid s" for s n
  proof -
    let ?k = "min n (length (str_chars s))"
    have lt: "byte_offset s m < byte_offset s n \<longleftrightarrow> m < n" if "m < length (str_chars s)" for m
    proof (cases m n rule: linorder_cases)
      case less
      then show ?thesis using uchars_concat_mono[OF str_chars_uchar[OF \<open>utf8_valid s\<close>] less that]
        by (simp add: byte_offset_def)
    next
      case greater
      then show ?thesis using uchars_concat_mono[OF str_chars_uchar[OF \<open>utf8_valid s\<close>] greater] that
        by (simp add: byte_offset_def)
    qed simp
    have "[0 ..< length (str_chars s)] = [0 ..< ?k] @ [?k ..< length (str_chars s)]"
      by (simp add: upt_split)
    moreover have "takeWhile (\<lambda>m. byte_offset s m < byte_offset s n) [?k ..< length (str_chars s)] = []"
      using lt by (cases "?k < length (str_chars s)") (simp_all add: upt_conv_Cons)
    moreover have "takeWhile (\<lambda>m. byte_offset s m < byte_offset s n) ([0 ..< ?k] @ ys) =
        [0 ..< ?k] @ takeWhile (\<lambda>m. byte_offset s m < byte_offset s n) ys" for ys
      using lt by (intro takeWhile_append2) simp
    ultimately have "takeWhile (\<lambda>m. byte_offset s m < byte_offset s n) [0 ..< length (str_chars s)] = [0 ..< ?k]"
      by (metis append_Nil2)
    then show ?thesis by simp
  qed
  then show ?thesis by (simp add: str_indices_ok_def si_scan_def)
qed

end
