(* ===== verification/TextOp.thy ===== *)
theory TextOp
  imports RangeRev Unicount RleVec
begin

text \<open>
  Editing operations on text: \<open>TextOperation\<close> (\<open>src/list/operation.rs\<close>), which carries its body, and
  \<open>ListOpMetrics\<close> (\<open>src/list/op_metrics.rs\<close>), which points into the byte buffers of a
  \<open>ListOperationCtx\<close>.  Both stand for a sequence of single-character edits (\<open>op_edits\<close>), and
  splitting and appending them splits and appends that sequence.

  \<open>chars_to_bytes\<close> returns a character boundary, so \<open>split_off\<close> does not panic and is \<open>take\<close> and
  \<open>drop\<close>.  Slicing a buffer out of its bounds panics: \<open>None\<close>.
\<close>

type_synonym edit = "list_op_kind \<times> nat \<times> uchar option"

record text_operation =
  to_loc :: range_rev
  to_kind :: list_op_kind
  to_content :: "str option"

definition to_len :: "text_operation \<Rightarrow> nat" where
  "to_len op = rr_len (to_loc op)"

definition new_insert :: "str_indices \<Rightarrow> nat \<Rightarrow> str \<Rightarrow> text_operation" where
  "new_insert si pos body =
     (let len = count_chars si body
      in \<lparr>to_loc = rr_from \<lparr>dt_start = pos, dt_end = pos + len\<rparr>, to_kind = Ins, to_content = Some body\<rparr>)"

definition new_delete_dt :: "range_rev \<Rightarrow> text_operation" where
  "new_delete_dt loc = \<lparr>to_loc = loc, to_kind = Del, to_content = None\<rparr>"

definition new_delete :: "dtrange \<Rightarrow> text_operation" where
  "new_delete loc = new_delete_dt (rr_from loc)"

definition new_delete_with_content_range :: "dtrange \<Rightarrow> str \<Rightarrow> text_operation" where
  "new_delete_with_content_range loc body =
     \<lparr>to_loc = rr_from loc, to_kind = Del, to_content = Some body\<rparr>"

definition new_delete_with_content :: "str_indices \<Rightarrow> nat \<Rightarrow> str \<Rightarrow> text_operation" where
  "new_delete_with_content si pos body =
     (let len = count_chars si body
      in new_delete_with_content_range \<lparr>dt_start = pos, dt_end = pos + len\<rparr> body)"

definition to_truncate :: "str_indices \<Rightarrow> text_operation \<Rightarrow> nat \<Rightarrow> text_operation \<times> text_operation" where
  "to_truncate si self at =
     (let (loc, span) = truncate_tagged_span (to_loc self) (to_kind self) at;
          (body, rem_content) =
            (case to_content self of
               None \<Rightarrow> (None, None)
             | Some c \<Rightarrow> (let byte_split = chars_to_bytes si c at
                         in (Some (take byte_split c), Some (drop byte_split c))))
      in (self\<lparr>to_loc := loc, to_content := body\<rparr>,
          \<lparr>to_loc = span, to_kind = to_kind self, to_content = rem_content\<rparr>))"

definition to_can_append :: "text_operation \<Rightarrow> text_operation \<Rightarrow> bool" where
  "to_can_append self other \<longleftrightarrow>
     \<not> (to_kind other \<noteq> to_kind self \<or> (to_content self \<noteq> None) \<noteq> (to_content other \<noteq> None)) \<and>
     can_append_ops (to_kind self) (to_loc self) (to_loc other)"

definition to_append :: "text_operation \<Rightarrow> text_operation \<Rightarrow> text_operation" where
  "to_append self other =
     self\<lparr>to_loc := append_ops (to_loc self) (to_kind self) (to_loc other),
          to_content := (case to_content self of None \<Rightarrow> None | Some c \<Rightarrow> Some (c @ the (to_content other)))\<rparr>"

subsection \<open>Metrics and their buffers\<close>

record list_op_metrics =
  om_loc :: range_rev
  om_kind :: list_op_kind
  om_content_pos :: "dtrange option"

record list_operation_ctx =
  ins_content :: "u8 list"
  del_content :: "u8 list"

definition om_len :: "list_op_metrics \<Rightarrow> nat" where
  "om_len m = rr_len (om_loc m)"

definition ctx_new :: list_operation_ctx where
  "ctx_new = \<lparr>ins_content = [], del_content = []\<rparr>"

definition list_switch :: "list_op_kind \<Rightarrow> 'a \<Rightarrow> 'a \<Rightarrow> 'a" where
  "list_switch tag ins del = (case tag of Ins \<Rightarrow> ins | Del \<Rightarrow> del)"

definition ctx_switch :: "list_operation_ctx \<Rightarrow> list_op_kind \<Rightarrow> u8 list" where
  "ctx_switch self kind = list_switch kind (ins_content self) (del_content self)"

definition get_str :: "list_operation_ctx \<Rightarrow> list_op_kind \<Rightarrow> dtrange \<Rightarrow> str option" where
  "get_str self kind rng =
     (let bytes = ctx_switch self kind
      in if dt_start rng \<le> dt_end rng \<and> dt_end rng \<le> length bytes
         then Some (take (dt_end rng - dt_start rng) (drop (dt_start rng) bytes)) else None)"

definition ctx_push_str :: "list_operation_ctx \<Rightarrow> list_op_kind \<Rightarrow> str \<Rightarrow> list_operation_ctx \<times> dtrange" where
  "ctx_push_str self kind s =
     (let storage = ctx_switch self kind;
          start = length storage;
          storage' = storage @ s
      in (list_switch kind (self\<lparr>ins_content := storage'\<rparr>) (self\<lparr>del_content := storage'\<rparr>),
          \<lparr>dt_start = start, dt_end = length storage'\<rparr>))"

text \<open>\<open>None\<close> is a panic, \<open>Some None\<close> an operation without body.\<close>

definition get_content :: "list_op_metrics \<Rightarrow> list_operation_ctx \<Rightarrow> str option option" where
  "get_content self ctx =
     (case om_content_pos self of
        None \<Rightarrow> Some None
      | Some span \<Rightarrow> map_option Some (get_str ctx (om_kind self) span))"

definition op_from :: "list_op_metrics \<Rightarrow> str option \<Rightarrow> text_operation" where
  "op_from op body = \<lparr>to_loc = om_loc op, to_kind = om_kind op, to_content = body\<rparr>"

definition to_operation :: "list_op_metrics \<Rightarrow> list_operation_ctx \<Rightarrow> text_operation option" where
  "to_operation self ctx = map_option (op_from self) (get_content self ctx)"

definition transpose_to :: "list_op_metrics \<Rightarrow> nat \<Rightarrow> list_op_metrics" where
  "transpose_to self xf_pos =
     (let len = rr_len (om_loc self)
      in self\<lparr>om_loc := (om_loc self)\<lparr>rr_span := \<lparr>dt_start = xf_pos, dt_end = xf_pos + len\<rparr>\<rparr>\<rparr>)"

definition om_truncate_ctx :: "str_indices \<Rightarrow> list_op_metrics \<Rightarrow> nat \<Rightarrow> list_operation_ctx
    \<Rightarrow> (list_op_metrics \<times> list_op_metrics) option" where
  "om_truncate_ctx si self at ctx =
     Option.bind
       (case om_content_pos self of
          None \<Rightarrow> Some (None, None)
        | Some p \<Rightarrow>
            map_option (\<lambda>byte_offset. let (p', rem) = dtrange_truncate p byte_offset in (Some p', Some rem))
              (if dtrange_len p = rr_len (om_loc self) then Some at
               else map_option (\<lambda>body. chars_to_bytes si body at) (get_str ctx (om_kind self) p)))
       (\<lambda>(pos, content_pos).
          let (loc', loc) = truncate_tagged_span (om_loc self) (om_kind self) at
          in Some (self\<lparr>om_loc := loc', om_content_pos := pos\<rparr>,
                   \<lparr>om_loc = loc, om_kind = om_kind self, om_content_pos = content_pos\<rparr>))"

definition om_truncate_keeping_right_ctx :: "str_indices \<Rightarrow> list_op_metrics \<Rightarrow> nat \<Rightarrow> list_operation_ctx
    \<Rightarrow> (list_op_metrics \<times> list_op_metrics) option" where
  "om_truncate_keeping_right_ctx si self at ctx =
     map_option (\<lambda>(other, self). (self, other)) (om_truncate_ctx si self at ctx)"

definition om_can_append :: "list_op_metrics \<Rightarrow> list_op_metrics \<Rightarrow> bool" where
  "om_can_append self other \<longleftrightarrow>
     (let can_append_content =
            (case (om_content_pos self, om_content_pos other) of
               (Some a, Some b) \<Rightarrow> dtrange_can_append a b
             | (None, None) \<Rightarrow> True
             | _ \<Rightarrow> False)
      in om_kind self = om_kind other \<and> can_append_content \<and>
         can_append_ops (om_kind self) (om_loc self) (om_loc other))"

definition om_append :: "list_op_metrics \<Rightarrow> list_op_metrics \<Rightarrow> list_op_metrics" where
  "om_append self other =
     self\<lparr>om_loc := append_ops (om_loc self) (om_kind self) (om_loc other),
          om_content_pos :=
            (case (om_content_pos self, om_content_pos other) of
               (Some a, Some b) \<Rightarrow> Some (dtrange_append a b)
             | _ \<Rightarrow> om_content_pos self)\<rparr>"

section \<open>Operations as sequences of edits\<close>

definition content_chars :: "nat \<Rightarrow> str option \<Rightarrow> uchar option list" where
  "content_chars n body = (case body of None \<Rightarrow> replicate n None | Some s \<Rightarrow> map Some (str_chars s))"

definition op_edits :: "list_op_kind \<Rightarrow> range_rev \<Rightarrow> str option \<Rightarrow> edit list" where
  "op_edits kind loc body = map (Pair kind) (zip (op_positions kind loc) (content_chars (rr_len loc) body))"

definition op_ok :: "list_op_kind \<Rightarrow> range_rev \<Rightarrow> str option \<Rightarrow> bool" where
  "op_ok kind loc body \<longleftrightarrow> op_loc_valid kind loc \<and>
     (case body of None \<Rightarrow> True | Some s \<Rightarrow> utf8_valid s \<and> length (str_chars s) = rr_len loc)"

definition to_edits :: "text_operation \<Rightarrow> edit list" where
  "to_edits op = op_edits (to_kind op) (to_loc op) (to_content op)"

definition to_ok :: "text_operation \<Rightarrow> bool" where
  "to_ok op \<longleftrightarrow> op_ok (to_kind op) (to_loc op) (to_content op)"

text \<open>For metrics, the content is read from the buffers.\<close>

definition om_ok :: "list_operation_ctx \<Rightarrow> list_op_metrics \<Rightarrow> bool" where
  "om_ok ctx m \<longleftrightarrow> (case to_operation m ctx of None \<Rightarrow> False | Some op \<Rightarrow> to_ok op)"

definition om_edits :: "list_operation_ctx \<Rightarrow> list_op_metrics \<Rightarrow> edit list" where
  "om_edits ctx m = to_edits (the (to_operation m ctx))"

lemma op_edits_split:
  assumes "op_ok kind loc body" "0 < at" "at < rr_len loc"
  defines "l \<equiv> fst (truncate_tagged_span loc kind at)" and "r \<equiv> snd (truncate_tagged_span loc kind at)"
  shows "rr_len l = at" "rr_len r = rr_len loc - at"
    and "body = None \<Longrightarrow> op_ok kind l None \<and> op_ok kind r None \<and>
      op_edits kind l None = take at (op_edits kind loc None) \<and>
      op_edits kind r None = drop at (op_edits kind loc None)"
    and "body = Some s \<Longrightarrow> op_ok kind l (Some (take (byte_offset s at) s)) \<and>
      op_ok kind r (Some (drop (byte_offset s at) s)) \<and>
      op_edits kind l (Some (take (byte_offset s at) s)) = take at (op_edits kind loc (Some s)) \<and>
      op_edits kind r (Some (drop (byte_offset s at) s)) = drop at (op_edits kind loc (Some s))"
proof -
  have v: "op_loc_valid kind loc" using assms(1) by (simp add: op_ok_def)
  note laws = op_span.truncate_len[OF v assms(2,3)] op_span.truncate_valid[OF v assms(2,3)]
    op_span.truncate_left[OF v assms(2,3)] op_span.truncate_right[OF v assms(2,3)]
  show len: "rr_len l = at" "rr_len r = rr_len loc - at" using laws(1,2) by (simp_all add: l_def r_def)
  show "body = None \<Longrightarrow> op_ok kind l None \<and> op_ok kind r None \<and>
      op_edits kind l None = take at (op_edits kind loc None) \<and>
      op_edits kind r None = drop at (op_edits kind loc None)"
    using laws(3-5) len assms(3)
    by (simp add: op_ok_def op_edits_def content_chars_def take_map drop_map take_zip drop_zip l_def r_def min.absorb1)
  show "body = Some s \<Longrightarrow> op_ok kind l (Some (take (byte_offset s at) s)) \<and>
      op_ok kind r (Some (drop (byte_offset s at) s)) \<and>
      op_edits kind l (Some (take (byte_offset s at) s)) = take at (op_edits kind loc (Some s)) \<and>
      op_edits kind r (Some (drop (byte_offset s at) s)) = drop at (op_edits kind loc (Some s))"
    using laws(3-5) len assms(1,3) utf8_cut_valid[of s at]
    by (simp add: op_ok_def op_edits_def content_chars_def take_map drop_map take_zip drop_zip l_def r_def min.absorb1)
qed

lemma op_edits_length: "op_ok kind loc body \<Longrightarrow> length (op_edits kind loc body) = rr_len loc"
  by (auto simp: op_edits_def op_ok_def content_chars_def op_positions_def split: option.splits)

end
