(* ===== verification/OpLog.thy ===== *)
theory OpLog
  imports TextOp CausalState RleZip GraphExport
begin

text \<open>
  The oplog of a text document (\<open>src/list/mod.rs\<close>, \<open>src/list/oplog.rs\<close>): the causal graph, the byte buffers
  and the operations, a run-length vector of metrics keyed by local version.  Operations are added in
  three ways: locally at the current version, at given parents, and from a remote peer, where a prefix
  may be known already.  \<open>push_op_internal\<close> is the one place that writes operations.

  The last version added is \<open>next_time - 1\<close>, which overflows when there is none: \<open>None\<close>.
\<close>

record list_oplog =
  ol_doc_id :: "str option"
  ol_cg :: causal_graph
  ol_ctx :: list_operation_ctx
  ol_operations :: "list_op_metrics kvpair list"

definition oplog_new :: list_oplog where
  "oplog_new = \<lparr>ol_doc_id = None, ol_cg = cg_new, ol_ctx = ctx_new, ol_operations = []\<rparr>"

definition ol_get_or_create_agent_id :: "list_oplog \<Rightarrow> agent_name \<Rightarrow> (list_oplog \<times> agent_id) option" where
  "ol_get_or_create_agent_id self name =
     (case get_or_create_agent_id (cg_aa (ol_cg self)) name of
        None \<Rightarrow> None
      | Some (aa, agent) \<Rightarrow> Some (self\<lparr>ol_cg := (ol_cg self)\<lparr>cg_aa := aa\<rparr>\<rparr>, agent))"

definition ol_get_agent_id :: "list_oplog \<Rightarrow> agent_name \<Rightarrow> agent_id option" where
  "ol_get_agent_id self name = get_agent_id (cg_aa (ol_cg self)) name"

definition ol_get_agent_name :: "list_oplog \<Rightarrow> agent_id \<Rightarrow> agent_name option" where
  "ol_get_agent_name self agent = get_agent_name (cg_aa (ol_cg self)) agent"

definition ol_num_agents :: "list_oplog \<Rightarrow> nat" where
  "ol_num_agents self = num_agents (ol_cg self)"

definition ol_lv_to_agent_version :: "list_oplog \<Rightarrow> lv \<Rightarrow> agent_version option" where
  "ol_lv_to_agent_version self v = local_to_agent_version (cg_aa (ol_cg self)) v"

definition ol_try_crdt_id_to_time :: "list_oplog \<Rightarrow> agent_version \<Rightarrow> lv option" where
  "ol_try_crdt_id_to_time self av = try_agent_version_to_lv (cg_aa (ol_cg self)) av"

definition ol_lv_span_to_agent_span :: "list_oplog \<Rightarrow> dtrange \<Rightarrow> agent_span option" where
  "ol_lv_span_to_agent_span self version = local_span_to_agent_span (cg_aa (ol_cg self)) version"

definition ol_len :: "list_oplog \<Rightarrow> nat" where
  "ol_len self = cg_len (ol_cg self)"

definition ol_is_empty :: "list_oplog \<Rightarrow> bool" where
  "ol_is_empty self \<longleftrightarrow> aa_with_lv (cg_aa (ol_cg self)) = []"

definition assign_time_to_crdt_span :: "list_oplog \<Rightarrow> lv \<Rightarrow> agent_span \<Rightarrow> list_oplog option" where
  "assign_time_to_crdt_span self start span =
     (let aa = cg_aa (ol_cg self); agent = as_agent span; seq_range = as_seq span
      in if \<not> agent < length (aa_clients aa) then None
         else
           (let timespan = \<lparr>dt_start = start, dt_end = start + as_len span\<rparr>
            in case rle_insert kv_key (kv_len dtrange_len) (kv_can_append dtrange_len dtrange_can_append)
                      (kv_append dtrange_append) (kv_prepend dtrange_prepend)
                      (cd_lv (aa_clients aa ! agent)) (KVPair (dt_start seq_range) timespan) of
                 None \<Rightarrow> None
               | Some xs \<Rightarrow> Some (self\<lparr>ol_cg := (ol_cg self)\<lparr>cg_aa := aa_record aa agent xs start span\<rparr>\<rparr>)))"

definition assign_next_time_to_client_known :: "list_oplog \<Rightarrow> agent_id \<Rightarrow> dtrange \<Rightarrow> list_oplog option" where
  "assign_next_time_to_client_known self agent span =
     (let aa = cg_aa (ol_cg self)
      in if \<not> agent < length (aa_clients aa) then None
         else
           (let c = aa_clients aa ! agent;
                next_seq = cd_get_next_seq c;
                xs = fst (rv_push (kv_can_append dtrange_len dtrange_can_append) (kv_append dtrange_append)
                       (cd_lv c) (KVPair next_seq span));
                aa' = aa_record aa agent xs (dt_start span)
                  \<lparr>as_agent = agent, as_seq = \<lparr>dt_start = next_seq, dt_end = next_seq + dtrange_len span\<rparr>\<rparr>
            in Some (self\<lparr>ol_cg := (ol_cg self)\<lparr>cg_aa := aa'\<rparr>\<rparr>)))"

section \<open>Adding operations\<close>

definition ops_push :: "list_op_metrics kvpair list \<Rightarrow> list_op_metrics kvpair \<Rightarrow> list_op_metrics kvpair list" where
  "ops_push xs x = fst (rv_push (kv_can_append om_len om_can_append) (kv_append om_append) xs x)"

definition push_op_internal :: "list_oplog \<Rightarrow> lv \<Rightarrow> range_rev \<Rightarrow> list_op_kind \<Rightarrow> str option \<Rightarrow> list_oplog" where
  "push_op_internal self next_time loc kind body =
     (let (ctx, content_pos) =
            (case body of
               None \<Rightarrow> (ol_ctx self, None)
             | Some c \<Rightarrow> (let (ctx, pos) = ctx_push_str (ol_ctx self) kind c in (ctx, Some pos)))
      in self\<lparr>ol_ctx := ctx,
              ol_operations := ops_push (ol_operations self)
                (KVPair next_time \<lparr>om_loc = loc, om_kind = kind, om_content_pos = content_pos\<rparr>)\<rparr>)"

text \<open>The loop that pushes every operation, with the version it ends at.\<close>

fun push_ops :: "list_oplog \<Rightarrow> lv \<Rightarrow> text_operation list \<Rightarrow> list_oplog \<times> lv" where
  "push_ops self next_time [] = (self, next_time)"
| "push_ops self next_time (op # ops) =
     push_ops (push_op_internal self next_time (to_loc op) (to_kind op) (to_content op)) (next_time + to_len op) ops"

definition last_lv :: "lv \<Rightarrow> lv option" where
  "last_lv next_time = (if next_time = 0 then None else Some (next_time - 1))"

definition add_operations_local :: "list_oplog \<Rightarrow> agent_id \<Rightarrow> text_operation list \<Rightarrow> (list_oplog \<times> lv) option" where
  "add_operations_local self agent ops =
     (let first_time = ol_len self;
          (self, next_time) = push_ops self first_time ops
      in case assign_local_op (ol_cg self) agent (next_time - first_time) of
           None \<Rightarrow> None
         | Some (cg, _) \<Rightarrow> map_option (\<lambda>v. (self\<lparr>ol_cg := cg\<rparr>, v)) (last_lv next_time))"

text \<open>
  The loop of \<open>add_operations_remote\<close>: \<open>skip\<close> counts the edits that are known and still to be left out.
  Slicing the content at a character boundary is \<open>drop\<close>.
\<close>

fun push_ops_remote :: "str_indices \<Rightarrow> list_oplog \<Rightarrow> lv \<Rightarrow> nat \<Rightarrow> text_operation list \<Rightarrow> list_oplog" where
  "push_ops_remote si self next_time skip [] = self"
| "push_ops_remote si self next_time skip (op # ops) =
     (let len = to_len op
      in if skip \<ge> len then push_ops_remote si self next_time (skip - len) ops
         else if skip > 0 then
           (let loc = fst (default_truncate_keeping_right rr_truncate (to_loc op) skip);
                body = map_option (\<lambda>s. drop (chars_to_bytes si s skip) s) (to_content op);
                self = push_op_internal self next_time loc (to_kind op) body
            in push_ops_remote si self (next_time + (len - skip)) 0 ops)
         else
           (let self = push_op_internal self next_time (to_loc op) (to_kind op) (to_content op)
            in push_ops_remote si self (next_time + len) skip ops))"

definition add_operations_remote :: "str_indices \<Rightarrow> list_oplog \<Rightarrow> agent_id \<Rightarrow> lv list \<Rightarrow> nat \<Rightarrow> text_operation list
    \<Rightarrow> (list_oplog \<times> dtrange) option" where
  "add_operations_remote si self agent parents start_seq ops =
     (let len = sum_list (map to_len ops)
      in case merge_and_assign (ol_cg self) parents
                \<lparr>as_agent = agent, as_seq = \<lparr>dt_start = start_seq, dt_end = start_seq + len\<rparr>\<rparr> of
           None \<Rightarrow> None
         | Some (cg, new_lv_range) \<Rightarrow>
             (let self = self\<lparr>ol_cg := cg\<rparr>
              in if dtrange_is_empty new_lv_range then Some (self, new_lv_range)
                 else
                   (let skip = len - dtrange_len new_lv_range
                    in Some (push_ops_remote si self (dt_start new_lv_range) skip ops, new_lv_range))))"

definition add_operations_at :: "list_oplog \<Rightarrow> agent_id \<Rightarrow> lv list \<Rightarrow> text_operation list \<Rightarrow> (list_oplog \<times> lv) option" where
  "add_operations_at self agent parents ops =
     (let first_time = ol_len self;
          (self, next_time) = push_ops self first_time ops
      in case assign_span (ol_cg self) agent parents \<lparr>dt_start = first_time, dt_end = next_time\<rparr> of
           None \<Rightarrow> None
         | Some cg \<Rightarrow> map_option (\<lambda>v. (self\<lparr>ol_cg := cg\<rparr>, v)) (last_lv next_time))"

definition add_insert_at :: "str_indices \<Rightarrow> list_oplog \<Rightarrow> agent_id \<Rightarrow> lv list \<Rightarrow> nat \<Rightarrow> str \<Rightarrow> (list_oplog \<times> lv) option" where
  "add_insert_at si self agent parents pos ins =
     (let len = count_chars si ins; start = ol_len self; end' = start + len;
          self = push_op_internal self start (rr_from \<lparr>dt_start = pos, dt_end = pos + len\<rparr>) Ins (Some ins)
      in case assign_span (ol_cg self) agent parents \<lparr>dt_start = start, dt_end = end'\<rparr> of
           None \<Rightarrow> None
         | Some cg \<Rightarrow> map_option (\<lambda>v. (self\<lparr>ol_cg := cg\<rparr>, v)) (last_lv end'))"

definition add_delete_at :: "list_oplog \<Rightarrow> agent_id \<Rightarrow> lv list \<Rightarrow> dtrange \<Rightarrow> (list_oplog \<times> lv) option" where
  "add_delete_at self agent parents loc =
     (let start_time = ol_len self; end_time = start_time + dtrange_len loc;
          self = push_op_internal self start_time (rr_from loc) Del None
      in case assign_span (ol_cg self) agent parents \<lparr>dt_start = start_time, dt_end = end_time\<rparr> of
           None \<Rightarrow> None
         | Some cg \<Rightarrow> map_option (\<lambda>v. (self\<lparr>ol_cg := cg\<rparr>, v)) (last_lv end_time))"

definition add_operations :: "list_oplog \<Rightarrow> agent_id \<Rightarrow> text_operation list \<Rightarrow> (list_oplog \<times> lv) option" where
  "add_operations self agent ops = add_operations_local self agent ops"

definition add_insert :: "str_indices \<Rightarrow> list_oplog \<Rightarrow> agent_id \<Rightarrow> nat \<Rightarrow> str \<Rightarrow> (list_oplog \<times> lv) option" where
  "add_insert si self agent pos ins = add_operations self agent [new_insert si pos ins]"

definition add_delete_with_unchecked_content :: "str_indices \<Rightarrow> list_oplog \<Rightarrow> agent_id \<Rightarrow> nat \<Rightarrow> str
    \<Rightarrow> (list_oplog \<times> lv) option" where
  "add_delete_with_unchecked_content si self agent pos del =
     add_operations self agent [new_delete_with_content si pos del]"

definition add_delete_without_content :: "list_oplog \<Rightarrow> agent_id \<Rightarrow> dtrange \<Rightarrow> (list_oplog \<times> lv) option" where
  "add_delete_without_content self agent loc = add_operations self agent [new_delete loc]"

section \<open>Reading\<close>

definition iter_history :: "list_oplog \<Rightarrow> graph_entry_simple list" where
  "iter_history self = graph_iter (cg_graph (ol_cg self))"

definition iter_history_range :: "list_oplog \<Rightarrow> dtrange \<Rightarrow> graph_entry_simple list" where
  "iter_history_range self rng = graph_iter_range (cg_graph (ol_cg self)) rng"

definition ol_local_frontier :: "list_oplog \<Rightarrow> frontier" where
  "ol_local_frontier self = cg_version (ol_cg self)"

definition ol_remote_frontier :: "list_oplog \<Rightarrow> remote_version list option" where
  "ol_remote_frontier self = local_to_remote_frontier (cg_aa (ol_cg self)) (cg_version (ol_cg self))"

definition iter_agent_mappings :: "list_oplog \<Rightarrow> agent_span list" where
  "iter_agent_mappings self = map kv_val (aa_with_lv (cg_aa (ol_cg self)))"

definition iter_agent_mappings_range :: "list_oplog \<Rightarrow> dtrange \<Rightarrow> agent_span list" where
  "iter_agent_mappings_range self rng =
     map kv_val (iter_range kv_key (kv_len as_len) (kv_truncate as_truncate)
       (kv_truncate_keeping_right as_truncate_keeping_right) (aa_with_lv (cg_aa (ol_cg self))) rng)"

definition ol_iter_remote_mappings :: "list_oplog \<Rightarrow> remote_version_span list option" where
  "ol_iter_remote_mappings self = iter_remote_mappings (cg_aa (ol_cg self))"

definition ol_iter_remote_mappings_range :: "list_oplog \<Rightarrow> dtrange \<Rightarrow> remote_version_span list option" where
  "ol_iter_remote_mappings_range self rng = iter_remote_mappings_range (cg_aa (ol_cg self)) rng"

definition version_contains_lv :: "list_oplog \<Rightarrow> lv list \<Rightarrow> lv \<Rightarrow> bool option" where
  "version_contains_lv self local_version target =
     (if local_version = [] then Some True
      else frontier_contains_version (cg_graph (ol_cg self)) local_version target)"

definition version_union :: "list_oplog \<Rightarrow> lv list \<Rightarrow> lv list \<Rightarrow> frontier option" where
  "version_union self a b = find_dominators_2 (cg_graph (ol_cg self)) a b"

definition ol_parents_at_version :: "list_oplog \<Rightarrow> lv \<Rightarrow> frontier option" where
  "ol_parents_at_version self v = parents_at_version (cg_graph (ol_cg self)) v"

definition estimate_cost :: "list_oplog \<Rightarrow> dtrange \<Rightarrow> nat option" where
  "estimate_cost self op_range =
     (if dtrange_is_empty op_range then Some 0
      else case (find_index kv_key (kv_len om_len) (ol_operations self) (dt_start op_range),
                 find_index kv_key (kv_len om_len) (ol_operations self) (dtrange_last op_range)) of
             (Inr start_idx, Inr end_idx) \<Rightarrow> Some (end_idx - start_idx + 1)
           | _ \<Rightarrow> None)"

end
