(* ===== verification/OpIter.thy ===== *)
theory OpIter
  imports OpLog
begin

text \<open>
  Reading operations back (\<open>src/list/op_iter.rs\<close>): the iterator over the metrics of a range, which trims
  the first and the last of them, the same with the content, the iterator over several ranges, and the
  full entries that join operations with parents and agents.  Iterators are records with a \<open>next\<close>
  function; \<open>None\<close> is a panic, \<open>Some (it, None)\<close> the end.
\<close>

record op_metrics_iter =
  it_list :: "list_op_metrics kvpair list"
  it_ctx :: list_operation_ctx
  it_range :: dtrange
  it_idx :: nat

type_synonym op_with_content = "list_op_metrics kvpair \<times> str option"

definition metrics_next :: "str_indices \<Rightarrow> op_metrics_iter \<Rightarrow> (op_metrics_iter \<times> list_op_metrics kvpair option) option" where
  "metrics_next si self =
     (if it_idx self \<ge> length (it_list self) then Some (self, None)
      else
        (let x = it_list self ! it_idx self; start = kv_key x; c = kv_val x
         in if start \<ge> dt_end (it_range self) then Some (self, None)
            else
              Option.bind
                (if start + om_len c > dt_end (it_range self)
                 then map_option fst (om_truncate_ctx si c (dt_end (it_range self) - start) (it_ctx self))
                 else Some c)
                (\<lambda>c. Option.bind
                  (if start < dt_start (it_range self)
                   then map_option (\<lambda>(c, _). (dt_start (it_range self), c))
                     (om_truncate_keeping_right_ctx si c (dt_start (it_range self) - start) (it_ctx self))
                   else Some (start, c))
                  (\<lambda>(start, c). Some (self\<lparr>it_idx := it_idx self + 1\<rparr>, Some (KVPair start c))))))"

definition iter_get_content :: "op_metrics_iter \<Rightarrow> list_op_metrics kvpair \<Rightarrow> str option option" where
  "iter_get_content self metrics = get_content (kv_val metrics) (it_ctx self)"

definition with_content_next :: "str_indices \<Rightarrow> op_metrics_iter \<Rightarrow> (op_metrics_iter \<times> op_with_content option) option" where
  "with_content_next si self =
     (case metrics_next si self of
        None \<Rightarrow> None
      | Some (self, None) \<Rightarrow> Some (self, None)
      | Some (self, Some metrics) \<Rightarrow>
          map_option (\<lambda>body. (self, Some (metrics, body))) (iter_get_content self metrics))"

definition metrics_prime :: "op_metrics_iter \<Rightarrow> dtrange \<Rightarrow> op_metrics_iter" where
  "metrics_prime self rng =
     self\<lparr>it_range := rng,
          it_idx := (if dtrange_is_empty rng then 0
                     else find_next_index kv_key (kv_len om_len) (it_list self) (dt_start rng))\<rparr>"

definition metrics_iter_new :: "list_op_metrics kvpair list \<Rightarrow> list_operation_ctx \<Rightarrow> dtrange \<Rightarrow> op_metrics_iter" where
  "metrics_iter_new ops ctx rng =
     metrics_prime \<lparr>it_list = ops, it_ctx = ctx, it_range = rng, it_idx = 0\<rparr> rng"

definition metrics_is_empty :: "op_metrics_iter \<Rightarrow> bool" where
  "metrics_is_empty self \<longleftrightarrow> it_idx self \<ge> length (it_list self) \<or> dtrange_is_empty (it_range self)"

lemma metrics_next_shorter:
  "metrics_next si self = Some (self', Some x) \<Longrightarrow>
     length (it_list self') - it_idx self' < length (it_list self) - it_idx self"
  by (auto simp: metrics_next_def Let_def bind_eq_Some_conv split: if_splits)

lemma with_content_next_shorter:
  "with_content_next si self = Some (self', Some x) \<Longrightarrow>
     length (it_list self') - it_idx self' < length (it_list self) - it_idx self"
  by (auto simp: with_content_next_def dest: metrics_next_shorter split: option.splits prod.splits)

text \<open>What an iterator yields until its end.\<close>

function metrics_collect :: "str_indices \<Rightarrow> op_metrics_iter \<Rightarrow> list_op_metrics kvpair list option" where
  "metrics_collect si self =
     (case metrics_next si self of
        None \<Rightarrow> None
      | Some (self', None) \<Rightarrow> Some []
      | Some (self', Some x) \<Rightarrow> map_option ((#) x) (metrics_collect si self'))"
  by pat_completeness auto
termination
  by (relation "measure (\<lambda>(si, self). length (it_list self) - it_idx self)") (auto dest: metrics_next_shorter)

function with_content_collect :: "str_indices \<Rightarrow> op_metrics_iter \<Rightarrow> op_with_content list option" where
  "with_content_collect si self =
     (case with_content_next si self of
        None \<Rightarrow> None
      | Some (self', None) \<Rightarrow> Some []
      | Some (self', Some x) \<Rightarrow> map_option ((#) x) (with_content_collect si self'))"
  by pat_completeness auto
termination
  by (relation "measure (\<lambda>(si, self). length (it_list self) - it_idx self)") (auto dest: with_content_next_shorter)

declare metrics_collect.simps [simp del] with_content_collect.simps [simp del]

definition with_content_new :: "list_oplog \<Rightarrow> dtrange \<Rightarrow> op_metrics_iter" where
  "with_content_new oplog rng = metrics_iter_new (ol_operations oplog) (ol_ctx oplog) rng"

subsection \<open>Several ranges\<close>

text \<open>The ranges are in descending order; \<open>pop\<close> takes the last.\<close>

record op_iter_ranges =
  ir_ranges_rev :: "dtrange list"
  ir_current :: op_metrics_iter

definition iter_ranges_new :: "list_oplog \<Rightarrow> dtrange list \<Rightarrow> op_iter_ranges" where
  "iter_ranges_new oplog ranges_rev =
     (if ranges_rev = [] then \<lparr>ir_ranges_rev = [], ir_current = with_content_new oplog \<lparr>dt_start = 0, dt_end = 0\<rparr>\<rparr>
      else \<lparr>ir_ranges_rev = butlast ranges_rev, ir_current = with_content_new oplog (last ranges_rev)\<rparr>)"

definition iter_ranges_next :: "str_indices \<Rightarrow> op_iter_ranges \<Rightarrow> (op_iter_ranges \<times> op_with_content option) option" where
  "iter_ranges_next si self =
     (case with_content_next si (ir_current self) of
        None \<Rightarrow> None
      | Some (cur, Some x) \<Rightarrow> Some (self\<lparr>ir_current := cur\<rparr>, Some x)
      | Some (cur, None) \<Rightarrow>
          (if ir_ranges_rev self = [] then Some (self\<lparr>ir_current := cur\<rparr>, None)
           else
             (let rng = last (ir_ranges_rev self)
              in map_option (\<lambda>(cur, x). (\<lparr>ir_ranges_rev = butlast (ir_ranges_rev self), ir_current = cur\<rparr>, x))
                   (with_content_next si (metrics_prime cur rng)))))"

lemma with_content_next_list: "with_content_next si self = Some (self', x) \<Longrightarrow> it_list self' = it_list self"
  by (auto simp: with_content_next_def metrics_next_def Let_def bind_eq_Some_conv
      split: option.splits prod.splits if_splits)

lemma metrics_prime_list [simp]: "it_list (metrics_prime it rng) = it_list it"
  by (simp add: metrics_prime_def)

lemma iter_ranges_next_shorter:
  assumes "iter_ranges_next si self = Some (self', Some x)"
  shows "length (ir_ranges_rev self') < length (ir_ranges_rev self) \<or>
     length (ir_ranges_rev self') = length (ir_ranges_rev self) \<and>
     length (it_list (ir_current self')) - it_idx (ir_current self') <
       length (it_list (ir_current self)) - it_idx (ir_current self)"
  using assms
  by (auto simp: iter_ranges_next_def Let_def dest: with_content_next_shorter split: option.splits prod.splits if_splits)

function iter_ranges_collect :: "str_indices \<Rightarrow> op_iter_ranges \<Rightarrow> op_with_content list option" where
  "iter_ranges_collect si self =
     (case iter_ranges_next si self of
        None \<Rightarrow> None
      | Some (self', None) \<Rightarrow> Some []
      | Some (self', Some x) \<Rightarrow> map_option ((#) x) (iter_ranges_collect si self'))"
  by pat_completeness auto
termination
  by (relation "measures [\<lambda>(si, self). length (ir_ranges_rev self),
        \<lambda>(si, self). length (it_list (ir_current self)) - it_idx (ir_current self)]")
    (auto dest: iter_ranges_next_shorter)

declare iter_ranges_collect.simps [simp del]

subsection \<open>The oplog's iterators\<close>

definition op_of :: "op_with_content \<Rightarrow> text_operation" where
  "op_of pair = op_from (kv_val (fst pair)) (snd pair)"

definition iter_metrics_range :: "str_indices \<Rightarrow> list_oplog \<Rightarrow> dtrange \<Rightarrow> list_op_metrics kvpair list option" where
  "iter_metrics_range si self rng = metrics_collect si (metrics_iter_new (ol_operations self) (ol_ctx self) rng)"

definition iter_metrics :: "str_indices \<Rightarrow> list_oplog \<Rightarrow> list_op_metrics kvpair list option" where
  "iter_metrics si self = iter_metrics_range si self \<lparr>dt_start = 0, dt_end = ol_len self\<rparr>"

definition iter_range_simple :: "str_indices \<Rightarrow> list_oplog \<Rightarrow> dtrange \<Rightarrow> op_with_content list option" where
  "iter_range_simple si self rng = with_content_collect si (with_content_new self rng)"

definition iter_range_since :: "str_indices \<Rightarrow> list_oplog \<Rightarrow> lv list \<Rightarrow> text_operation list option" where
  "iter_range_since si self local_version =
     (case diff_since_rev (ol_cg self) local_version of
        None \<Rightarrow> None
      | Some only_b \<Rightarrow> map_option (map op_of) (iter_ranges_collect si (iter_ranges_new self only_b)))"

definition iter_fast :: "str_indices \<Rightarrow> list_oplog \<Rightarrow> op_with_content list option" where
  "iter_fast si self = with_content_collect si (with_content_new self \<lparr>dt_start = 0, dt_end = ol_len self\<rparr>)"

definition iter_ops :: "str_indices \<Rightarrow> list_oplog \<Rightarrow> text_operation list option" where
  "iter_ops si self = map_option (map op_of) (iter_fast si self)"

definition iter_ops_range :: "str_indices \<Rightarrow> list_oplog \<Rightarrow> dtrange \<Rightarrow> text_operation list option" where
  "iter_ops_range si self rng = map_option (map op_of) (iter_range_simple si self rng)"

definition zip_full :: "str_indices \<Rightarrow> text_operation list \<Rightarrow> graph_entry_simple list \<Rightarrow> remote_version_span list
    \<Rightarrow> (text_operation \<times> graph_entry_simple \<times> remote_version_span) list" where
  "zip_full si ops entries mappings =
     rle_zip3 to_len gs_len rvs_len (to_truncate si) gs_truncate rvs_truncate ops entries mappings"

definition iter_full :: "str_indices \<Rightarrow> list_oplog \<Rightarrow> (text_operation \<times> graph_entry_simple \<times> remote_version_span) list option" where
  "iter_full si self =
     Option.bind (iter_ops si self) (\<lambda>ops.
       map_option (zip_full si ops (iter_history self)) (ol_iter_remote_mappings self))"

definition iter_full_range :: "str_indices \<Rightarrow> list_oplog \<Rightarrow> dtrange
    \<Rightarrow> (text_operation \<times> graph_entry_simple \<times> remote_version_span) list option" where
  "iter_full_range si self rng =
     Option.bind (iter_ops_range si self rng) (\<lambda>ops.
       map_option (zip_full si ops (iter_history_range self rng)) (ol_iter_remote_mappings_range self rng))"

section \<open>Full entries\<close>

record full_entry =
  fe_span :: dtrange
  fe_parents :: frontier
  fe_agent_span :: agent_span
  fe_ops :: "text_operation list"

text \<open>The operations that stay and those that go, cut after \<open>rem\<close> edits; too few edits panic.\<close>

fun cut_ops :: "str_indices \<Rightarrow> nat \<Rightarrow> text_operation list \<Rightarrow> (text_operation list \<times> text_operation list) option" where
  "cut_ops si rem [] = None"
| "cut_ops si rem (op # ops) =
     (if to_len op > rem
      then (if rem > 0 then (let (l, r) = to_truncate si op rem in Some ([l], r # ops))
            else Some ([], op # ops))
      else map_option (\<lambda>(l, r). (op # l, r)) (cut_ops si (rem - to_len op) ops))"

definition fe_truncate :: "str_indices \<Rightarrow> full_entry \<Rightarrow> nat \<Rightarrow> (full_entry \<times> full_entry) option" where
  "fe_truncate si self at =
     (let (span, span') = dtrange_truncate (fe_span self) at;
          (agent_span, agent_span') = as_truncate (fe_agent_span self) at
      in map_option
           (\<lambda>(ops, ops').
              (self\<lparr>fe_span := span, fe_agent_span := agent_span, fe_ops := ops\<rparr>,
               \<lparr>fe_span = span', fe_parents = [dt_start span + at - 1], fe_agent_span = agent_span', fe_ops = ops'\<rparr>))
           (cut_ops si at (fe_ops self)))"

definition fe_can_append :: "full_entry \<Rightarrow> full_entry \<Rightarrow> bool" where
  "fe_can_append self other \<longleftrightarrow>
     dtrange_can_append (fe_span self) (fe_span other) \<and>
     fe_parents other = [dtrange_last (fe_span self)] \<and>
     as_can_append (fe_agent_span self) (fe_agent_span other)"

definition fe_append :: "full_entry \<Rightarrow> full_entry \<Rightarrow> full_entry" where
  "fe_append self other =
     self\<lparr>fe_span := dtrange_append (fe_span self) (fe_span other),
          fe_agent_span := as_append (fe_agent_span self) (fe_agent_span other),
          fe_ops := extend_rle to_can_append to_append (fe_ops self) (fe_ops other)\<rparr>"

definition cg_make_simple_graph :: "causal_graph \<Rightarrow> graph_entry_simple list option" where
  "cg_make_simple_graph self = make_simple_graph (cg_graph self) (cg_version self)"

text \<open>The inner loop cuts one entry of the graph at the ends of the agent runs.\<close>

fun chunk_agents :: "str_indices \<Rightarrow> list_oplog \<Rightarrow> graph_entry_simple \<Rightarrow> agent_span kvpair list \<Rightarrow> full_entry list option" where
  "chunk_agents si self entry [] = Some []"
| "chunk_agents si self entry (agent_kv # rest) =
     (let agent_range = kv_range as_len agent_kv
      in case truncate_keeping_right_from (\<lambda>e. dt_start (gs_span e))
                (default_truncate_keeping_right gs_truncate) entry (dt_end agent_range) of
           None \<Rightarrow> None
         | Some (entry, entry_here) \<Rightarrow>
             if agent_range \<noteq> gs_span entry_here then None
             else
               Option.bind (iter_range_simple si self (gs_span entry_here)) (\<lambda>ops.
                 map_option ((#) \<lparr>fe_span = gs_span entry_here, fe_parents = gs_parents entry_here,
                     fe_agent_span = kv_val agent_kv, fe_ops = map op_of ops\<rparr>)
                   (chunk_agents si self entry rest)))"

fun chunk_entries :: "str_indices \<Rightarrow> list_oplog \<Rightarrow> graph_entry_simple list \<Rightarrow> full_entry list option" where
  "chunk_entries si self [] = Some []"
| "chunk_entries si self (entry # rest) =
     Option.bind
       (chunk_agents si self entry
         (iter_range kv_key (kv_len as_len) (kv_truncate as_truncate)
           (kv_truncate_keeping_right as_truncate_keeping_right) (aa_with_lv (cg_aa (ol_cg self))) (gs_span entry)))
       (\<lambda>chunks. map_option ((@) chunks) (chunk_entries si self rest))"

definition as_chunked_operation_vec :: "str_indices \<Rightarrow> list_oplog \<Rightarrow> full_entry list option" where
  "as_chunked_operation_vec si self =
     Option.bind (cg_make_simple_graph (ol_cg self)) (chunk_entries si self)"

end
