(* ===== verification/ListEdit.thy ===== *)
theory ListEdit
  imports OpIter
begin

text \<open>
  Branches and local edits (\<open>src/list/branch.rs\<close>, \<open>src/list/list.rs\<close>).  A branch is a version and the
  document at that version; a local edit changes the document and appends the operation to the oplog at
  the same time.

  The document is a \<open>JumpRopeBuf\<close> of the crate \<open>jumprope\<close>, a parameter here: the record of its methods
  that the code calls, on a type of ropes \<open>'r\<close>.  \<open>None\<close> is a panic.
\<close>

record 'r rope_ops =
  rp_new :: 'r
  rp_insert :: "'r \<Rightarrow> nat \<Rightarrow> str \<Rightarrow> 'r option"
  rp_remove :: "'r \<Rightarrow> dtrange \<Rightarrow> 'r option"
  rp_len_chars :: "'r \<Rightarrow> nat"
  rp_is_empty :: "'r \<Rightarrow> bool"
  rp_slice_chars :: "'r \<Rightarrow> dtrange \<Rightarrow> str option"

record 'r list_branch =
  br_version :: frontier
  br_content :: 'r

definition branch_new :: "'r rope_ops \<Rightarrow> 'r list_branch" where
  "branch_new rp = \<lparr>br_version = frontier_root, br_content = rp_new rp\<rparr>"

definition br_remote_frontier :: "'r list_branch \<Rightarrow> list_oplog \<Rightarrow> remote_version list option" where
  "br_remote_frontier self oplog = local_to_remote_frontier (cg_aa (ol_cg oplog)) (br_version self)"

definition br_len :: "'r rope_ops \<Rightarrow> 'r list_branch \<Rightarrow> nat" where
  "br_len rp self = rp_len_chars rp (br_content self)"

definition br_is_empty :: "'r rope_ops \<Rightarrow> 'r list_branch \<Rightarrow> bool" where
  "br_is_empty rp self = rp_is_empty rp (br_content self)"

text \<open>An insert without content panics.\<close>

definition apply_internal :: "'r rope_ops \<Rightarrow> 'r list_branch \<Rightarrow> list_op_kind \<Rightarrow> dtrange \<Rightarrow> str option \<Rightarrow> 'r list_branch option" where
  "apply_internal rp self kind pos body =
     map_option (\<lambda>r. self\<lparr>br_content := r\<rparr>)
       (case kind of
          Ins \<Rightarrow> Option.bind body (\<lambda>c. rp_insert rp (br_content self) (dt_start pos) c)
        | Del \<Rightarrow> rp_remove rp (br_content self) pos)"

fun branch_apply :: "'r rope_ops \<Rightarrow> 'r list_branch \<Rightarrow> text_operation list \<Rightarrow> 'r list_branch option" where
  "branch_apply rp self [] = Some self"
| "branch_apply rp self (op # ops) =
     Option.bind (apply_internal rp self (to_kind op) (rr_span (to_loc op)) (to_content op))
       (\<lambda>self. branch_apply rp self ops)"

fun apply_pairs :: "'r rope_ops \<Rightarrow> 'r list_branch \<Rightarrow> op_with_content list \<Rightarrow> 'r list_branch option" where
  "apply_pairs rp self [] = Some self"
| "apply_pairs rp self ((op, body) # rest) =
     Option.bind (apply_internal rp self (om_kind (kv_val op)) (rr_span (om_loc (kv_val op))) body)
       (\<lambda>self. apply_pairs rp self rest)"

definition apply_range_from :: "str_indices \<Rightarrow> 'r rope_ops \<Rightarrow> 'r list_branch \<Rightarrow> list_oplog \<Rightarrow> dtrange \<Rightarrow> 'r list_branch option" where
  "apply_range_from si rp self ops rng = Option.bind (iter_range_simple si ops rng) (apply_pairs rp self)"

definition make_delete_op :: "'r rope_ops \<Rightarrow> 'r list_branch \<Rightarrow> dtrange \<Rightarrow> text_operation option" where
  "make_delete_op rp self loc =
     (if dt_end loc \<le> rp_len_chars rp (br_content self)
      then map_option (new_delete_with_content_range loc) (rp_slice_chars rp (br_content self) loc) else None)"

section \<open>Local operations\<close>

definition wrapping_pred :: "nat \<Rightarrow> nat" where
  "wrapping_pred v = (if v = 0 then usize_max else v - 1)"

definition insert_history_local :: "list_oplog \<Rightarrow> frontier \<Rightarrow> dtrange \<Rightarrow> (list_oplog \<times> frontier) option" where
  "insert_history_local oplog f rng =
     (let g = cg_graph (ol_cg oplog)
      in if try_get_single_entry f = Some (wrapping_pred (dt_start rng)) \<and> g_entries g \<noteq> []
         then
           (let last_e = last (g_entries g);
                last_e = last_e\<lparr>ge_span := (ge_span last_e)\<lparr>dt_end := dt_end rng\<rparr>\<rparr>;
                g = g\<lparr>g_entries := butlast (g_entries g) @ [last_e]\<rparr>
            in Some (oplog\<lparr>ol_cg := (ol_cg oplog)\<lparr>cg_graph := g\<rparr>\<rparr>, [dtrange_last rng]))
         else
           (case graph_push g f rng of
              None \<Rightarrow> None
            | Some g \<Rightarrow> Some (oplog\<lparr>ol_cg := (ol_cg oplog)\<lparr>cg_graph := g\<rparr>\<rparr>, replace_with_1 f (dtrange_last rng))))"

text \<open>The loop: every operation changes the document and is pushed to the oplog.\<close>

fun apply_local_loop :: "'r rope_ops \<Rightarrow> list_oplog \<Rightarrow> 'r list_branch \<Rightarrow> lv \<Rightarrow> text_operation list
    \<Rightarrow> (list_oplog \<times> 'r list_branch \<times> lv) option" where
  "apply_local_loop rp oplog branch next_time [] = Some (oplog, branch, next_time)"
| "apply_local_loop rp oplog branch next_time (c # ops) =
     (let pos = dt_start (rr_span (to_loc c)); len = to_len c
      in Option.bind
           (case to_kind c of
              Ins \<Rightarrow> Option.bind (to_content c) (\<lambda>s. rp_insert rp (br_content branch) pos s)
            | Del \<Rightarrow> rp_remove rp (br_content branch) \<lparr>dt_start = pos, dt_end = pos + len\<rparr>)
           (\<lambda>r. apply_local_loop rp (push_op_internal oplog next_time (to_loc c) (to_kind c) (to_content c))
              (branch\<lparr>br_content := r\<rparr>) (next_time + len) ops))"

definition apply_local_operations :: "'r rope_ops \<Rightarrow> list_oplog \<Rightarrow> 'r list_branch \<Rightarrow> agent_id \<Rightarrow> text_operation list
    \<Rightarrow> (list_oplog \<times> 'r list_branch \<times> lv) option" where
  "apply_local_operations rp oplog branch agent local_ops =
     (let first_time = ol_len oplog
      in Option.bind (apply_local_loop rp oplog branch first_time local_ops) (\<lambda>(oplog, branch, next_time).
         let span = \<lparr>dt_start = first_time, dt_end = next_time\<rparr>
         in Option.bind (assign_next_time_to_client_known oplog agent span) (\<lambda>oplog.
            Option.bind (advance_by_known_run (cg_version (ol_cg oplog)) (br_version branch) span) (\<lambda>version.
              let oplog = oplog\<lparr>ol_cg := (ol_cg oplog)\<lparr>cg_version := version\<rparr>\<rparr>
              in Option.bind (insert_history_local oplog (br_version branch) span) (\<lambda>(oplog, v).
                 map_option (\<lambda>t. (oplog, branch\<lparr>br_version := v\<rparr>, t)) (last_lv next_time))))))"

definition internal_do_insert :: "str_indices \<Rightarrow> 'r rope_ops \<Rightarrow> list_oplog \<Rightarrow> 'r list_branch \<Rightarrow> agent_id \<Rightarrow> nat \<Rightarrow> str
    \<Rightarrow> (list_oplog \<times> 'r list_branch \<times> lv) option" where
  "internal_do_insert si rp oplog branch agent pos body =
     (let start = ol_len oplog; len = count_chars si body
      in Option.bind (rp_insert rp (br_content branch) pos body) (\<lambda>r.
         let branch = branch\<lparr>br_content := r\<rparr>;
             oplog = push_op_internal oplog start (rr_from \<lparr>dt_start = pos, dt_end = pos + len\<rparr>) Ins (Some body);
             end' = start + len;
             time_span = \<lparr>dt_start = start, dt_end = end'\<rparr>
         in Option.bind (assign_next_time_to_client_known oplog agent time_span) (\<lambda>oplog.
            Option.bind (last_lv end') (\<lambda>t.
              let oplog = oplog\<lparr>ol_cg := (ol_cg oplog)\<lparr>cg_version := replace_with_1 (cg_version (ol_cg oplog)) t\<rparr>\<rparr>
              in map_option (\<lambda>(oplog, v). (oplog, branch\<lparr>br_version := v\<rparr>, t))
                   (insert_history_local oplog (br_version branch) time_span)))))"

definition internal_do_delete :: "'r rope_ops \<Rightarrow> list_oplog \<Rightarrow> 'r list_branch \<Rightarrow> agent_id \<Rightarrow> dtrange
    \<Rightarrow> (list_oplog \<times> 'r list_branch \<times> lv) option" where
  "internal_do_delete rp oplog branch agent pos =
     (let start = ol_len oplog
      in Option.bind (rp_remove rp (br_content branch) pos) (\<lambda>r.
         let branch = branch\<lparr>br_content := r\<rparr>;
             oplog = push_op_internal oplog start (rr_from pos) Del None;
             end' = start + dtrange_len pos;
             time_span = \<lparr>dt_start = start, dt_end = end'\<rparr>
         in Option.bind (assign_next_time_to_client_known oplog agent time_span) (\<lambda>oplog.
            Option.bind (last_lv end') (\<lambda>t.
              let oplog = oplog\<lparr>ol_cg := (ol_cg oplog)\<lparr>cg_version := replace_with_1 (cg_version (ol_cg oplog)) t\<rparr>\<rparr>
              in map_option (\<lambda>(oplog, v). (oplog, branch\<lparr>br_version := v\<rparr>, t))
                   (insert_history_local oplog (br_version branch) time_span)))))"

definition branch_insert :: "str_indices \<Rightarrow> 'r rope_ops \<Rightarrow> 'r list_branch \<Rightarrow> list_oplog \<Rightarrow> agent_id \<Rightarrow> nat \<Rightarrow> str
    \<Rightarrow> (list_oplog \<times> 'r list_branch \<times> lv) option" where
  "branch_insert si rp self oplog agent pos ins = apply_local_operations rp oplog self agent [new_insert si pos ins]"

definition branch_delete_without_content :: "'r rope_ops \<Rightarrow> 'r list_branch \<Rightarrow> list_oplog \<Rightarrow> agent_id \<Rightarrow> dtrange
    \<Rightarrow> (list_oplog \<times> 'r list_branch \<times> lv) option" where
  "branch_delete_without_content rp self oplog agent loc = apply_local_operations rp oplog self agent [new_delete loc]"

definition branch_delete :: "'r rope_ops \<Rightarrow> 'r list_branch \<Rightarrow> list_oplog \<Rightarrow> agent_id \<Rightarrow> dtrange
    \<Rightarrow> (list_oplog \<times> 'r list_branch \<times> lv) option" where
  "branch_delete rp self oplog agent del_span =
     Option.bind (make_delete_op rp self del_span) (\<lambda>op. apply_local_operations rp oplog self agent [op])"

subsection \<open>ListCRDT: one oplog and one branch\<close>

record 'r list_crdt =
  cr_branch :: "'r list_branch"
  cr_oplog :: list_oplog

definition crdt_new :: "'r rope_ops \<Rightarrow> 'r list_crdt" where
  "crdt_new rp = \<lparr>cr_branch = branch_new rp, cr_oplog = oplog_new\<rparr>"

definition crdt_pack :: "(list_oplog \<times> 'r list_branch \<times> lv) \<Rightarrow> 'r list_crdt \<times> lv" where
  "crdt_pack r = (case r of (oplog, branch, t) \<Rightarrow> (\<lparr>cr_branch = branch, cr_oplog = oplog\<rparr>, t))"

definition crdt_len :: "'r rope_ops \<Rightarrow> 'r list_crdt \<Rightarrow> nat" where
  "crdt_len rp self = br_len rp (cr_branch self)"

definition crdt_is_empty :: "'r rope_ops \<Rightarrow> 'r list_crdt \<Rightarrow> bool" where
  "crdt_is_empty rp self = br_is_empty rp (cr_branch self)"

definition crdt_apply_local :: "'r rope_ops \<Rightarrow> 'r list_crdt \<Rightarrow> agent_id \<Rightarrow> text_operation list \<Rightarrow> ('r list_crdt \<times> lv) option" where
  "crdt_apply_local rp self agent ops =
     map_option crdt_pack (apply_local_operations rp (cr_oplog self) (cr_branch self) agent ops)"

definition crdt_insert :: "str_indices \<Rightarrow> 'r rope_ops \<Rightarrow> 'r list_crdt \<Rightarrow> agent_id \<Rightarrow> nat \<Rightarrow> str \<Rightarrow> ('r list_crdt \<times> lv) option" where
  "crdt_insert si rp self agent pos ins =
     map_option crdt_pack (internal_do_insert si rp (cr_oplog self) (cr_branch self) agent pos ins)"

definition crdt_delete_without_content :: "'r rope_ops \<Rightarrow> 'r list_crdt \<Rightarrow> agent_id \<Rightarrow> dtrange \<Rightarrow> ('r list_crdt \<times> lv) option" where
  "crdt_delete_without_content rp self agent loc =
     map_option crdt_pack (internal_do_delete rp (cr_oplog self) (cr_branch self) agent loc)"

definition crdt_delete :: "'r rope_ops \<Rightarrow> 'r list_crdt \<Rightarrow> agent_id \<Rightarrow> dtrange \<Rightarrow> ('r list_crdt \<times> lv) option" where
  "crdt_delete rp self agent rng =
     map_option crdt_pack (branch_delete rp (cr_branch self) (cr_oplog self) agent rng)"

definition crdt_get_or_create_agent_id :: "'r list_crdt \<Rightarrow> agent_name \<Rightarrow> ('r list_crdt \<times> agent_id) option" where
  "crdt_get_or_create_agent_id self name =
     map_option (\<lambda>(oplog, agent). (self\<lparr>cr_oplog := oplog\<rparr>, agent)) (ol_get_or_create_agent_id (cr_oplog self) name)"

end
