(* ===== verification/TextOpFacts.thy ===== *)
theory TextOpFacts
  imports TextOp RleVecFacts
begin

text \<open>
  The span laws of \<open>TextOperation\<close> and the refinement of it by \<open>ListOpMetrics\<close>: reading the body
  out of the buffers commutes with splitting and appending.  The laws rest on the documented behaviour
  of the crate that counts characters (\<open>str_indices_ok\<close>).
\<close>

section \<open>Operations with their body\<close>

lemma to_truncate_spec:
  assumes si: "str_indices_ok si" and ok: "to_ok op" and at: "0 < at" "at < to_len op"
  shows "to_ok (fst (to_truncate si op at))" "to_ok (snd (to_truncate si op at))"
    and "to_edits (fst (to_truncate si op at)) = take at (to_edits op)"
    and "to_edits (snd (to_truncate si op at)) = drop at (to_edits op)"
proof -
  have o: "op_ok (to_kind op) (to_loc op) (to_content op)" using ok by (simp add: to_ok_def)
  have a: "at < rr_len (to_loc op)" using at(2) by (simp add: to_len_def)
  have s: "utf8_valid s" if "to_content op = Some s" for s using o that by (simp add: op_ok_def)
  note laws = op_edits_split(3,4)[OF o at(1) a]
  have "to_ok (fst (to_truncate si op at)) \<and> to_ok (snd (to_truncate si op at)) \<and>
      to_edits (fst (to_truncate si op at)) = take at (to_edits op) \<and>
      to_edits (snd (to_truncate si op at)) = drop at (to_edits op)"
  proof (cases "to_content op")
    case None
    then show ?thesis using laws(1)[OF None] by (simp add: to_truncate_def to_ok_def to_edits_def split_beta)
  next
    case (Some b)
    then show ?thesis using laws(2)[OF Some] chars_to_bytes_ok[OF si s[OF Some]]
      by (simp add: to_truncate_def to_ok_def to_edits_def split_beta Let_def)
  qed
  then show "to_ok (fst (to_truncate si op at))" "to_ok (snd (to_truncate si op at))"
    "to_edits (fst (to_truncate si op at)) = take at (to_edits op)"
    "to_edits (snd (to_truncate si op at)) = drop at (to_edits op)" by simp_all
qed

lemma to_append_spec:
  assumes "to_ok a" "to_ok b" "to_can_append a b"
  shows "to_ok (to_append a b)" "to_edits (to_append a b) = to_edits a @ to_edits b"
proof -
  have k: "to_kind b = to_kind a" "can_append_ops (to_kind a) (to_loc a) (to_loc b)"
    "(to_content a = None) = (to_content b = None)"
    using assms(3) by (auto simp: to_can_append_def)
  have v: "op_loc_valid (to_kind a) (to_loc a)" "op_loc_valid (to_kind a) (to_loc b)"
    using assms(1,2) k(1) by (simp_all add: to_ok_def op_ok_def)
  note laws = op_span.append_valid[OF v k(2)] op_span.append_items[OF v k(2)] op_span.append_len[OF v k(2)]
  have len: "length (op_positions (to_kind a) (to_loc a)) = rr_len (to_loc a)" by (simp add: op_positions_def)
  have "to_ok (to_append a b) \<and> to_edits (to_append a b) = to_edits a @ to_edits b"
  proof (cases "to_content a")
    case None
    then have "to_content b = None" using k(3) by simp
    then show ?thesis using None laws k(1) len
      by (simp add: to_ok_def op_ok_def to_edits_def to_append_def op_edits_def content_chars_def replicate_add zip_append)
  next
    case (Some s)
    then obtain t where t: "to_content b = Some t" using k(3) by auto
    have s: "utf8_valid s" "length (str_chars s) = rr_len (to_loc a)" "utf8_valid t"
        "length (str_chars t) = rr_len (to_loc b)"
      using assms(1,2) Some t by (simp_all add: to_ok_def op_ok_def)
    show ?thesis using Some t laws k(1) len s utf8_valid_append[OF s(1,3)]
      by (simp add: to_ok_def op_ok_def to_edits_def to_append_def op_edits_def content_chars_def zip_append)
  qed
  then show "to_ok (to_append a b)" "to_edits (to_append a b) = to_edits a @ to_edits b" by simp_all
qed

lemma to_edits_length: "to_ok op \<Longrightarrow> length (to_edits op) = to_len op"
  by (simp add: to_ok_def to_edits_def to_len_def op_edits_length)

theorem text_operation_span:
  assumes si: "str_indices_ok si"
  shows "split_join_span to_len to_edits to_ok (to_truncate si) to_can_append to_append
    (default_prepend to_append) (default_truncate_keeping_right (to_truncate si))"
proof unfold_locales
  fix x at assume x: "to_ok x" and at: "0 < at" "at < to_len x"
  have v: "op_loc_valid (to_kind x) (to_loc x)" using x by (simp add: to_ok_def op_ok_def)
  show "to_can_append (fst (to_truncate si x at)) (snd (to_truncate si x at)) \<and>
      to_append (fst (to_truncate si x at)) (snd (to_truncate si x at)) = x"
    using op_span.rejoin[OF v at(1) at(2)[unfolded to_len_def]]
    by (cases x; cases "to_content x")
      (simp_all add: to_truncate_def to_can_append_def to_append_def split_beta Let_def)
qed (simp_all add: to_truncate_spec[OF si] to_append_spec default_prepend_def
    default_truncate_keeping_right_def split_beta to_edits_length)

section \<open>Metrics\<close>

lemma get_str_split:
  assumes "get_str ctx kind p = Some s" "n \<le> length s"
  shows "get_str ctx kind (fst (dtrange_truncate p n)) = Some (take n s)"
    and "get_str ctx kind (snd (dtrange_truncate p n)) = Some (drop n s)"
    and "dtrange_len p = length s"
  using assms by (auto simp: get_str_def dtrange_truncate_def dtrange_len_def Let_def min_def drop_take add.commute split: if_splits)

lemma get_str_append:
  assumes "get_str ctx kind p = Some s" "get_str ctx kind q = Some t" "dtrange_can_append p q"
  shows "get_str ctx kind (dtrange_append p q) = Some (s @ t)"
proof -
  let ?b = "ctx_switch ctx kind"
  have "take (dt_end q - dt_start p) (drop (dt_start p) ?b) =
      take (dt_end p - dt_start p) (drop (dt_start p) ?b) @ take (dt_end q - dt_end p) (drop (dt_end p) ?b)"
    if "dt_start p \<le> dt_end p" "dt_end p \<le> dt_end q"
    using that take_add[of "dt_end p - dt_start p" "dt_end q - dt_end p" "drop (dt_start p) ?b"] by simp
  then show ?thesis
    using assms by (auto simp: get_str_def dtrange_can_append_def dtrange_append_def Let_def split: if_splits)
qed

lemma to_operation_simps:
  "om_content_pos m = None \<Longrightarrow> to_operation m ctx = Some \<lparr>to_loc = om_loc m, to_kind = om_kind m, to_content = None\<rparr>"
  "om_content_pos m = Some p \<Longrightarrow> to_operation m ctx =
     map_option (\<lambda>s. \<lparr>to_loc = om_loc m, to_kind = om_kind m, to_content = Some s\<rparr>) (get_str ctx (om_kind m) p)"
  by (simp_all add: to_operation_def get_content_def op_from_def option.map_comp comp_def)

lemma om_okE:
  assumes "om_ok ctx m"
  obtains op where "to_operation m ctx = Some op" "to_ok op" "to_loc op = om_loc m" "to_kind op = om_kind m"
    "om_edits ctx m = to_edits op"
  using assms by (auto simp: om_ok_def om_edits_def to_operation_def op_from_def split: option.splits)

text \<open>Splitting the metrics splits the operation they stand for.\<close>

lemma om_truncate_refines:
  assumes si: "str_indices_ok si" and op: "to_operation m ctx = Some op" "to_ok op"
    and at: "0 < at" "at < om_len m"
  shows "\<exists>l r. om_truncate_ctx si m at ctx = Some (l, r) \<and>
    to_operation l ctx = Some (fst (to_truncate si op at)) \<and> to_operation r ctx = Some (snd (to_truncate si op at))"
proof (cases "om_content_pos m")
  case None
  then have "op = \<lparr>to_loc = om_loc m, to_kind = om_kind m, to_content = None\<rparr>"
    using op(1) by (simp add: to_operation_simps)
  then show ?thesis using None by (simp add: om_truncate_ctx_def to_truncate_def to_operation_simps split_beta Let_def)
next
  case (Some p)
  then obtain s where s: "get_str ctx (om_kind m) p = Some s"
    and o: "op = \<lparr>to_loc = om_loc m, to_kind = om_kind m, to_content = Some s\<rparr>"
    using op(1) by (auto simp: to_operation_simps)
  have v: "utf8_valid s" "length (str_chars s) = rr_len (om_loc m)" using op(2) o by (simp_all add: to_ok_def op_ok_def)
  have off: "(if dtrange_len p = rr_len (om_loc m) then Some at
      else map_option (\<lambda>s. chars_to_bytes si s at) (get_str ctx (om_kind m) p)) = Some (byte_offset s at)"
    using get_str_split(3)[OF s, of 0] ascii_offset[OF v(1), of at] v(2) at(2) s chars_to_bytes_ok[OF si v(1)]
    by (simp add: om_len_def)
  have "om_truncate_ctx si m at ctx =
      (let (p', rem) = dtrange_truncate p (byte_offset s at); (l, r) = truncate_tagged_span (om_loc m) (om_kind m) at
       in Some (m\<lparr>om_loc := l, om_content_pos := Some p'\<rparr>, \<lparr>om_loc = r, om_kind = om_kind m, om_content_pos = Some rem\<rparr>))"
    unfolding om_truncate_ctx_def Some option.case off by (simp add: split_beta Let_def)
  then show ?thesis using o get_str_split(1,2)[OF s byte_offset_le[OF v(1), of at]] chars_to_bytes_ok[OF si v(1), of at]
    by (simp add: to_truncate_def to_operation_simps split_beta Let_def)
qed

text \<open>Appending metrics whose bytes are next to each other appends the operations.\<close>

lemma om_append_refines:
  assumes "to_operation a ctx = Some opa" "to_operation b ctx = Some opb" "om_can_append a b"
  shows "to_can_append opa opb" "to_operation (om_append a b) ctx = Some (to_append opa opb)"
proof -
  have k: "om_kind a = om_kind b" "can_append_ops (om_kind b) (om_loc a) (om_loc b)"
    using assms(3) by (auto simp: om_can_append_def Let_def)
  have "to_can_append opa opb \<and> to_operation (om_append a b) ctx = Some (to_append opa opb)"
  proof (cases "om_content_pos a")
    case None
    then have "om_content_pos b = None" using assms(3) by (auto simp: om_can_append_def Let_def split: option.splits)
    then show ?thesis using None assms(1,2) k
      by (auto simp: to_operation_simps to_can_append_def om_append_def to_append_def)
  next
    case (Some p)
    then obtain q where q: "om_content_pos b = Some q" "dtrange_can_append p q"
      using assms(3) by (auto simp: om_can_append_def Let_def split: option.splits)
    obtain s t where st: "get_str ctx (om_kind a) p = Some s" "get_str ctx (om_kind a) q = Some t"
      using assms(1,2) Some q(1) k(1) by (auto simp: to_operation_simps)
    show ?thesis using Some q assms(1,2) k st get_str_append[OF st q(2)]
      by (auto simp: to_operation_simps to_can_append_def om_append_def to_append_def)
  qed
  then show "to_can_append opa opb" "to_operation (om_append a b) ctx = Some (to_append opa opb)" by simp_all
qed

text \<open>A buffer only grows at its end, which keeps every range in it.\<close>

definition ctx_extends :: "list_operation_ctx \<Rightarrow> list_operation_ctx \<Rightarrow> bool" where
  "ctx_extends ctx ctx' \<longleftrightarrow> (\<forall>kind. \<exists>s. ctx_switch ctx' kind = ctx_switch ctx kind @ s)"

lemma ctx_extends_refl: "ctx_extends ctx ctx"
  by (simp add: ctx_extends_def)

lemma ctx_extends_trans: "ctx_extends a b \<Longrightarrow> ctx_extends b c \<Longrightarrow> ctx_extends a c"
  unfolding ctx_extends_def by (metis append.assoc)

lemma ctx_push_str_spec:
  assumes "ctx_push_str ctx kind s = (ctx', p)"
  shows "ctx_extends ctx ctx'" "get_str ctx' kind p = Some s"
    "p = \<lparr>dt_start = length (ctx_switch ctx kind), dt_end = length (ctx_switch ctx kind) + length s\<rparr>"
proof -
  have c: "ctx_switch ctx' k = (if k = kind then ctx_switch ctx kind @ s else ctx_switch ctx k)" for k
    using assms by (cases kind; cases k) (auto simp: ctx_push_str_def ctx_switch_def list_switch_def Let_def)
  then show "ctx_extends ctx ctx'" by (simp add: ctx_extends_def)
  show p: "p = \<lparr>dt_start = length (ctx_switch ctx kind), dt_end = length (ctx_switch ctx kind) + length s\<rparr>"
    using assms by (auto simp: ctx_push_str_def Let_def)
  show "get_str ctx' kind p = Some s" by (simp add: get_str_def c p)
qed

lemma get_str_extends: "ctx_extends ctx ctx' \<Longrightarrow> get_str ctx kind p = Some s \<Longrightarrow> get_str ctx' kind p = Some s"
proof -
  assume "ctx_extends ctx ctx'"
  then obtain t where "ctx_switch ctx' kind = ctx_switch ctx kind @ t" by (auto simp: ctx_extends_def)
  then show "get_str ctx kind p = Some s \<Longrightarrow> get_str ctx' kind p = Some s"
    by (auto simp: get_str_def Let_def split: if_splits)
qed

lemma to_operation_extends:
  "ctx_extends ctx ctx' \<Longrightarrow> to_operation m ctx = Some op \<Longrightarrow> to_operation m ctx' = Some op"
  by (cases "om_content_pos m") (auto simp: to_operation_simps get_str_extends)

lemma om_extends:
  "ctx_extends ctx ctx' \<Longrightarrow> om_ok ctx m \<Longrightarrow> om_ok ctx' m \<and> om_edits ctx' m = om_edits ctx m"
  by (auto simp: om_ok_def om_edits_def to_operation_extends split: option.splits)

end
