(* ===== verification/OpLogFacts.thy ===== *)
theory OpLogFacts
  imports OpIter TextOpFacts CausalRead
begin

text \<open>
  An oplog stands for one single-character edit per local version (\<open>ol_edits\<close>).  Its invariant
  (\<open>oplog_ok\<close>) is that of the causal graph together with: the runs of operations follow each other from
  version 0 to the end and every run is readable from the buffers.  Every way of adding operations keeps
  the invariant and appends their edits; the iterators return the edits of a range.
\<close>

fun ops_chain :: "list_operation_ctx \<Rightarrow> lv \<Rightarrow> list_op_metrics kvpair list \<Rightarrow> lv \<Rightarrow> bool" where
  "ops_chain ctx s [] e \<longleftrightarrow> s = e"
| "ops_chain ctx s (x # xs) e \<longleftrightarrow>
     kv_key x = s \<and> om_ok ctx (kv_val x) \<and> ops_chain ctx (s + om_len (kv_val x)) xs e"

definition ops_edits :: "list_operation_ctx \<Rightarrow> list_op_metrics kvpair list \<Rightarrow> edit list" where
  "ops_edits ctx ops = concat (map (\<lambda>x. om_edits ctx (kv_val x)) ops)"

definition oplog_ok :: "list_oplog \<Rightarrow> bool" where
  "oplog_ok ol \<longleftrightarrow> cg_ok (ol_cg ol) \<and> ops_chain (ol_ctx ol) 0 (ol_operations ol) (ol_len ol)"

definition ol_edits :: "list_oplog \<Rightarrow> edit list" where
  "ol_edits ol = ops_edits (ol_ctx ol) (ol_operations ol)"

lemma ops_edits_simps [simp]:
  "ops_edits ctx [] = []" "ops_edits ctx (x # xs) = om_edits ctx (kv_val x) @ ops_edits ctx xs"
  "ops_edits ctx (xs @ ys) = ops_edits ctx xs @ ops_edits ctx ys"
  by (simp_all add: ops_edits_def)

lemma om_len_pos: "om_ok ctx m \<Longrightarrow> 0 < om_len m \<and> length (om_edits ctx m) = om_len m"
  by (auto elim!: om_okE simp: to_edits_length to_len_def om_len_def to_ok_def op_ok_def op_loc_valid_def
      rr_valid_def rr_len_def dtrange_len_def)

lemma ops_chain_append: "ops_chain ctx s (xs @ ys) e \<longleftrightarrow> (\<exists>m. ops_chain ctx s xs m \<and> ops_chain ctx m ys e)"
  by (induction xs arbitrary: s) auto

lemma ops_chain_length: "ops_chain ctx s ops e \<Longrightarrow> e = s + length (ops_edits ctx ops)"
proof (induction ops arbitrary: s)
  case (Cons x xs)
  then have "ops_chain ctx (s + om_len (kv_val x)) xs e" "om_ok ctx (kv_val x)" by simp_all
  from Cons.IH[OF this(1)] om_len_pos[OF this(2)] show ?case by simp
qed simp

lemma ops_chain_extends:
  "ctx_extends ctx ctx' \<Longrightarrow> ops_chain ctx s ops e \<Longrightarrow> ops_chain ctx' s ops e \<and> ops_edits ctx' ops = ops_edits ctx ops"
  by (induction ops arbitrary: s) (auto simp: om_extends)

lemma ol_edits_length: "oplog_ok ol \<Longrightarrow> length (ol_edits ol) = ol_len ol"
  using ops_chain_length by (fastforce simp: oplog_ok_def ol_edits_def)

section \<open>Appending\<close>

lemma om_append_ok:
  assumes "om_ok ctx a" "om_ok ctx b" "om_can_append a b"
  shows "om_ok ctx (om_append a b)" "om_edits ctx (om_append a b) = om_edits ctx a @ om_edits ctx b"
    "om_len (om_append a b) = om_len a + om_len b"
proof -
  obtain x where x: "to_operation a ctx = Some x" "to_ok x" "om_edits ctx a = to_edits x" using om_okE[OF assms(1)] by metis
  obtain y where y: "to_operation b ctx = Some y" "to_ok y" "om_edits ctx b = to_edits y" using om_okE[OF assms(2)] by metis
  note r = om_append_refines[OF x(1) y(1) assms(3)]
  note l = to_append_spec[OF x(2) y(2) r(1)]
  show ok: "om_ok ctx (om_append a b)" using r(2) l(1) by (simp add: om_ok_def)
  show e: "om_edits ctx (om_append a b) = om_edits ctx a @ om_edits ctx b" using r(2) l(2) x(3) y(3) by (simp add: om_edits_def)
  show "om_len (om_append a b) = om_len a + om_len b"
    using om_len_pos[OF ok] om_len_pos[OF assms(1)] om_len_pos[OF assms(2)] e by simp
qed

lemma ops_push_chain:
  assumes "ops_chain ctx s ops n" "om_ok ctx m"
  shows "ops_chain ctx s (ops_push ops (KVPair n m)) (n + om_len m)"
    "ops_edits ctx (ops_push ops (KVPair n m)) = ops_edits ctx ops @ om_edits ctx m"
proof -
  have "ops_chain ctx s (ops_push ops (KVPair n m)) (n + om_len m) \<and>
    ops_edits ctx (ops_push ops (KVPair n m)) = ops_edits ctx ops @ om_edits ctx m"
  proof (cases "ops \<noteq> [] \<and> kv_can_append om_len om_can_append (last ops) (KVPair n m)")
    case True
    then obtain xs l where ops: "ops = xs @ [l]" by (metis rev_exhaust)
    have c: "om_can_append (kv_val l) m" using True ops by (simp add: kv_can_append_def)
    have l: "ops_chain ctx s xs (kv_key l)" "om_ok ctx (kv_val l)" "n = kv_key l + om_len (kv_val l)"
      using assms(1) by (auto simp: ops ops_chain_append)
    have "ops_push ops (KVPair n m) = xs @ [KVPair (kv_key l) (om_append (kv_val l) m)]"
      using True by (simp add: ops_push_def rv_push_def push_rle_def ops kv_append_def)
    then show ?thesis using l om_append_ok[OF l(2) assms(2) c] by (simp add: ops ops_chain_append)
  next
    case False
    then have "ops_push ops (KVPair n m) = ops @ [KVPair n m]"
      by (auto simp: ops_push_def rv_push_def push_rle_def)
    then show ?thesis using assms by (simp add: ops_chain_append)
  qed
  then show "ops_chain ctx s (ops_push ops (KVPair n m)) (n + om_len m)"
    "ops_edits ctx (ops_push ops (KVPair n m)) = ops_edits ctx ops @ om_edits ctx m" by simp_all
qed

definition chain_to :: "list_oplog \<Rightarrow> lv \<Rightarrow> bool" where
  "chain_to ol n \<longleftrightarrow> ops_chain (ol_ctx ol) 0 (ol_operations ol) n"

lemma oplog_ok_iff: "oplog_ok ol \<longleftrightarrow> cg_ok (ol_cg ol) \<and> chain_to ol (ol_len ol)"
  by (simp add: oplog_ok_def chain_to_def)

text \<open>One operation: the buffers grow, the edits are appended, nothing else changes.\<close>

lemma push_op_spec:
  assumes "chain_to ol n" "op_ok kind loc body"
  defines "ol' \<equiv> push_op_internal ol n loc kind body"
  shows "chain_to ol' (n + rr_len loc)" "ol_edits ol' = ol_edits ol @ op_edits kind loc body"
    "ol_cg ol' = ol_cg ol" "ol_doc_id ol' = ol_doc_id ol"
proof -
  obtain ctx p where cp: "(case body of None \<Rightarrow> (ol_ctx ol, None)
      | Some c \<Rightarrow> (let (ctx, pos) = ctx_push_str (ol_ctx ol) kind c in (ctx, Some pos))) = (ctx, p)"
    by (cases "(case body of None \<Rightarrow> (ol_ctx ol, None)
      | Some c \<Rightarrow> (let (ctx, pos) = ctx_push_str (ol_ctx ol) kind c in (ctx, Some pos)))") auto
  let ?m = "\<lparr>om_loc = loc, om_kind = kind, om_content_pos = p\<rparr>"
  have new: "ol' = ol\<lparr>ol_ctx := ctx, ol_operations := ops_push (ol_operations ol) (KVPair n ?m)\<rparr>"
    using cp by (simp add: ol'_def push_op_internal_def)
  have ext: "ctx_extends (ol_ctx ol) ctx \<and>
      to_operation ?m ctx = Some \<lparr>to_loc = loc, to_kind = kind, to_content = body\<rparr>"
  proof (cases body)
    case None
    then show ?thesis using cp by (simp add: ctx_extends_refl to_operation_simps)
  next
    case (Some c)
    obtain ctx' q where q: "ctx_push_str (ol_ctx ol) kind c = (ctx', q)" by (cases "ctx_push_str (ol_ctx ol) kind c")
    then have "ctx = ctx'" "p = Some q" using cp Some by simp_all
    then show ?thesis using ctx_push_str_spec(1,2)[OF q] Some by (simp add: to_operation_simps)
  qed
  then have m: "om_ok ctx ?m" "om_edits ctx ?m = op_edits kind loc body"
    using assms(2) by (simp_all add: om_ok_def om_edits_def to_ok_def to_edits_def)
  have old: "ops_chain ctx 0 (ol_operations ol) n" "ops_edits ctx (ol_operations ol) = ol_edits ol"
    using ops_chain_extends ext assms(1) unfolding chain_to_def ol_edits_def by blast+
  show "chain_to ol' (n + rr_len loc)" "ol_edits ol' = ol_edits ol @ op_edits kind loc body"
    using ops_push_chain[OF old(1) m(1)] m(2) old(2) by (simp_all add: new chain_to_def ol_edits_def om_len_def)
  show "ol_cg ol' = ol_cg ol" "ol_doc_id ol' = ol_doc_id ol" by (simp_all add: new)
qed

definition all_edits :: "text_operation list \<Rightarrow> edit list" where
  "all_edits ops = concat (map to_edits ops)"

lemma all_edits_simps [simp]: "all_edits [] = []" "all_edits (op # ops) = to_edits op @ all_edits ops"
  by (simp_all add: all_edits_def)

lemma all_edits_length: "list_all to_ok ops \<Longrightarrow> length (all_edits ops) = sum_list (map to_len ops)"
  by (induction ops) (simp_all add: to_edits_length)

lemma to_len_pos: "to_ok op \<Longrightarrow> 0 < to_len op"
  by (simp add: to_ok_def op_ok_def op_loc_valid_def to_len_def rr_len_def rr_valid_def dtrange_len_def)

lemma all_edits_pos: "ops \<noteq> [] \<Longrightarrow> list_all to_ok ops \<Longrightarrow> 0 < length (all_edits ops)"
  using to_edits_length to_len_pos by (cases ops) fastforce+

lemma push_ops_spec:
  assumes "chain_to ol n" "list_all to_ok ops"
  shows "\<exists>ol'. push_ops ol n ops = (ol', n + length (all_edits ops)) \<and> chain_to ol' (n + length (all_edits ops)) \<and>
    ol_edits ol' = ol_edits ol @ all_edits ops \<and> ol_cg ol' = ol_cg ol \<and> ol_doc_id ol' = ol_doc_id ol"
  using assms
proof (induction ops arbitrary: ol n)
  case (Cons op ops)
  let ?ol = "push_op_internal ol n (to_loc op) (to_kind op) (to_content op)"
  have ok: "op_ok (to_kind op) (to_loc op) (to_content op)" and l: "length (to_edits op) = to_len op"
    using Cons.prems(2) by (simp_all add: to_ok_def[symmetric] to_edits_length)
  note p = push_op_spec[OF Cons.prems(1) ok, folded to_len_def to_edits_def]
  obtain ol' where "push_ops ?ol (n + to_len op) ops = (ol', n + to_len op + length (all_edits ops))"
    "chain_to ol' (n + to_len op + length (all_edits ops))" "ol_edits ol' = ol_edits ?ol @ all_edits ops"
    "ol_cg ol' = ol_cg ?ol" "ol_doc_id ol' = ol_doc_id ?ol"
    using Cons.IH[OF p(1)] Cons.prems(2) by auto
  then show ?case using p(2-4) l by (intro exI[of _ ol']) (simp add: add.assoc)
qed simp


section \<open>Adding operations\<close>

lemma chain_cg [simp]: "chain_to (ol\<lparr>ol_cg := cg\<rparr>) n = chain_to ol n" "ol_edits (ol\<lparr>ol_cg := cg\<rparr>) = ol_edits ol"
  by (simp_all add: chain_to_def ol_edits_def)

text \<open>What adding operations does, given the new causal graph.\<close>

definition oplog_extends :: "list_oplog \<Rightarrow> list_oplog \<Rightarrow> edit list \<Rightarrow> bool" where
  "oplog_extends ol ol' es \<longleftrightarrow> oplog_ok ol' \<and> ol_edits ol' = ol_edits ol @ es \<and>
     ol_len ol' = ol_len ol + length es \<and> ol_doc_id ol' = ol_doc_id ol"

definition agent_known :: "list_oplog \<Rightarrow> agent_id \<Rightarrow> bool" where
  "agent_known ol a \<longleftrightarrow> a < length (aa_clients (cg_aa (ol_cg ol)))"

definition next_seq_of :: "list_oplog \<Rightarrow> agent_id \<Rightarrow> nat" where
  "next_seq_of ol a = cd_get_next_seq (aa_clients (cg_aa (ol_cg ol)) ! a)"

lemma add_operations_at_spec:
  assumes ok: "oplog_ok ol" and a: "agent_known ol a" and ops: "ops \<noteq> []" "list_all to_ok ops"
    and ps: "sorted_wrt (<) ps" "\<forall>p \<in> set ps. p < ol_len ol"
  shows "\<exists>ol' v. add_operations_at ol a ps ops = Some (ol', v) \<and> oplog_extends ol ol' (all_edits ops) \<and>
    v = ol_len ol' - 1 \<and>
    cg_extends (ol_cg ol) (ol_cg ol') a (next_seq_of ol a) (next_seq_of ol a + length (all_edits ops)) ps"
proof -
  note okd = ok[unfolded oplog_ok_iff]
  let ?n = "length (all_edits ops)"
  have n: "0 < ?n" by (rule all_edits_pos[OF ops])
  obtain ol' where p: "push_ops ol (ol_len ol) ops = (ol', ol_len ol + ?n)" "chain_to ol' (ol_len ol + ?n)"
    "ol_edits ol' = ol_edits ol @ all_edits ops" "ol_cg ol' = ol_cg ol" "ol_doc_id ol' = ol_doc_id ol"
    using push_ops_spec[OF conjunct2[OF okd] ops(2)] by blast
  obtain cg' where cg': "assign_local_op_with_parents (ol_cg ol) ps a ?n =
      Some (cg', \<lparr>dt_start = cg_len (ol_cg ol), dt_end = cg_len (ol_cg ol) + ?n\<rparr>)" "cg_ok cg'"
    "cg_extends (ol_cg ol) cg' a (next_seq_of ol a) (next_seq_of ol a + ?n) ps"
    using assign_local_op_with_parents_spec[OF conjunct1[OF okd] a[unfolded agent_known_def] n ps[unfolded ol_len_def]]
    unfolding next_seq_of_def by blast
  have len: "cg_len cg' = ol_len ol + ?n" using cg'(3) by (simp add: cg_extends_def ol_len_def)
  have "add_operations_at ol a ps ops = Some (ol'\<lparr>ol_cg := cg'\<rparr>, ol_len ol + ?n - 1)"
    using p(1,4) cg'(1) n by (simp add: add_operations_at_def assign_span_def dtrange_len_def last_lv_def ol_len_def)
  moreover have "oplog_extends ol (ol'\<lparr>ol_cg := cg'\<rparr>) (all_edits ops)"
    using p cg'(2) len by (simp add: oplog_extends_def oplog_ok_iff ol_len_def)
  ultimately show ?thesis using cg'(3) len by (intro exI[of _ "ol'\<lparr>ol_cg := cg'\<rparr>"]) (simp add: ol_len_def)
qed

text \<open>A local change is a change at the current version.\<close>

lemma add_operations_local_eq:
  assumes "add_operations_at ol a (cg_version (ol_cg ol)) ops = Some r" "list_all to_ok ops" "chain_to ol (ol_len ol)"
  shows "add_operations_local ol a ops = Some r"
proof -
  obtain ol' where p: "push_ops ol (ol_len ol) ops = (ol', ol_len ol + length (all_edits ops))" "ol_cg ol' = ol_cg ol"
    using push_ops_spec[OF assms(3,2)] by blast
  then show ?thesis using assms(1)
    by (auto simp: add_operations_at_def add_operations_local_def assign_span_def assign_local_op_eq dtrange_len_def
        split: option.splits prod.splits)
qed

lemma add_operations_local_spec:
  assumes ok: "oplog_ok ol" and a: "agent_known ol a" and ops: "ops \<noteq> []" "list_all to_ok ops"
  shows "\<exists>ol' v. add_operations_local ol a ops = Some (ol', v) \<and> oplog_extends ol ol' (all_edits ops) \<and>
    v = ol_len ol' - 1 \<and> cg_version (ol_cg ol') = [v] \<and>
    cg_extends (ol_cg ol) (ol_cg ol') a (next_seq_of ol a) (next_seq_of ol a + length (all_edits ops)) (cg_version (ol_cg ol))"
proof -
  have "cg_ok (ol_cg ol)" "chain_to ol (ol_len ol)" using ok by (simp_all add: oplog_ok_iff)
  have vs: "sorted_wrt (<) (cg_version (ol_cg ol))" "\<forall>v \<in> set (cg_version (ol_cg ol)). v < ol_len ol"
    using version_members[OF \<open>cg_ok (ol_cg ol)\<close>] by (simp_all add: ol_len_def)
  obtain ol' v where r: "add_operations_at ol a (cg_version (ol_cg ol)) ops = Some (ol', v)"
    "oplog_extends ol ol' (all_edits ops)" "v = ol_len ol' - 1"
    "cg_extends (ol_cg ol) (ol_cg ol') a (next_seq_of ol a) (next_seq_of ol a + length (all_edits ops)) (cg_version (ol_cg ol))"
    using add_operations_at_spec[OF ok a ops vs] by blast
  note eq = add_operations_local_eq[OF r(1) ops(2) \<open>chain_to ol (ol_len ol)\<close>]
  obtain ol1 m where p: "push_ops ol (ol_len ol) ops = (ol1, m)" "m = ol_len ol + length (all_edits ops)" "ol_cg ol1 = ol_cg ol"
    using push_ops_spec[OF \<open>chain_to ol (ol_len ol)\<close> ops(2)] by blast
  have "0 < length (all_edits ops)" by (rule all_edits_pos[OF ops])
  then have "cg_version (ol_cg ol') = [v]"
    using eq p r(2,3)
    by (auto simp: add_operations_local_def assign_local_op_def last_lv_def oplog_extends_def replace_with_1_def dtrange_last_def ol_len_def Let_def
        split: option.splits prod.splits if_splits)
  then show ?thesis using eq r by blast
qed

text \<open>The single insert and the single delete are the general case with one operation.\<close>

lemma add_insert_at_eq: "add_insert_at si ol a ps pos ins = add_operations_at ol a ps [new_insert si pos ins]"
  by (simp add: add_insert_at_def add_operations_at_def new_insert_def rr_from_def to_len_def rr_len_def
      dtrange_len_def Let_def split: option.splits)

lemma add_delete_at_eq: "add_delete_at ol a ps loc = add_operations_at ol a ps [new_delete loc]"
  by (simp add: add_delete_at_def add_operations_at_def new_delete_def new_delete_dt_def rr_from_def to_len_def rr_len_def
      Let_def split: option.splits)


section \<open>Operations of a remote peer\<close>

text \<open>
  \<open>push_ops_remote\<close> cuts the location of a partly known operation as a plain range.  That is the cut of
  the operation for inserts and backward deletes.  The rest of a forward delete should keep its start; what
  is stored starts as many characters further as are skipped (see \<open>remote_forward_delete\<close> below).
  \<open>stored_edits\<close> says what is stored of the operations when the first \<open>skip\<close> edits are left out.
\<close>

definition forward_delete :: "text_operation \<Rightarrow> bool" where
  "forward_delete op \<longleftrightarrow> to_kind op = Del \<and> rr_fwd (to_loc op)"

definition shift_edits :: "nat \<Rightarrow> edit list \<Rightarrow> edit list" where
  "shift_edits k = map (\<lambda>(kind, pos, c). (kind, pos + k, c))"

fun stored_edits :: "nat \<Rightarrow> text_operation list \<Rightarrow> edit list" where
  "stored_edits skip [] = []"
| "stored_edits skip (op # ops) =
     (if skip \<ge> to_len op then stored_edits (skip - to_len op) ops
      else (if 0 < skip \<and> forward_delete op then shift_edits skip (drop skip (to_edits op))
            else drop skip (to_edits op)) @ all_edits ops)"

text \<open>No forward delete is known in part.\<close>

fun skip_safe :: "nat \<Rightarrow> text_operation list \<Rightarrow> bool" where
  "skip_safe skip [] = True"
| "skip_safe skip (op # ops) =
     (if skip \<ge> to_len op then skip_safe (skip - to_len op) ops else skip = 0 \<or> \<not> forward_delete op)"

lemma stored_edits_0: "list_all to_ok ops \<Longrightarrow> stored_edits 0 ops = all_edits ops"
proof (induction ops)
  case (Cons op ops)
  then show ?case using to_len_pos[of op] by simp
qed simp

lemma stored_edits_length:
  "list_all to_ok ops \<Longrightarrow> length (stored_edits skip ops) = length (all_edits ops) - skip"
proof (induction ops arbitrary: skip)
  case (Cons op ops)
  have l: "length (to_edits op) = to_len op" using Cons.prems by (simp add: to_edits_length)
  show ?case using Cons l by (auto simp: shift_edits_def)
qed simp

lemma shift_edits_noop: "0 < k \<Longrightarrow> shift_edits k es = es \<longleftrightarrow> es = []"
  by (cases es) (auto simp: shift_edits_def)

lemma stored_edits_plain:
  "list_all to_ok ops \<Longrightarrow> stored_edits skip ops = drop skip (all_edits ops) \<longleftrightarrow> skip_safe skip ops"
proof (induction ops arbitrary: skip)
  case (Cons op ops)
  have l: "length (to_edits op) = to_len op" using Cons.prems by (simp add: to_edits_length)
  show ?case using Cons l by (auto simp: shift_edits_noop)
qed simp

lemma plain_cut:
  assumes "op_loc_valid kind loc" "0 < skip" "skip < rr_len loc" "kind = Ins \<or> \<not> rr_fwd loc"
  shows "fst (default_truncate_keeping_right rr_truncate loc skip) = snd (truncate_tagged_span loc kind skip)"
  using assms by (cases loc; cases kind) (auto simp: rr_defs span_defs default_truncate_keeping_right_def Let_def)

text \<open>For a forward delete, the plain cut is the cut of the operation, moved by \<open>skip\<close>.\<close>

lemma forward_cut:
  assumes "op_loc_valid Del loc" "0 < skip" "skip < rr_len loc" "rr_fwd loc" "op_ok Del (snd (truncate_tagged_span loc Del skip)) body"
  defines "r \<equiv> fst (default_truncate_keeping_right rr_truncate loc skip)"
  shows "rr_len r = rr_len (snd (truncate_tagged_span loc Del skip))" "op_ok Del r body"
    "op_edits Del r body = shift_edits skip (op_edits Del (snd (truncate_tagged_span loc Del skip)) body)"
proof -
  let ?t = "snd (truncate_tagged_span loc Del skip)"
  have c: "rr_fwd r" "rr_fwd ?t" "dt_start (rr_span r) = dt_start (rr_span ?t) + skip" "rr_len r = rr_len ?t" "op_loc_valid Del r"
    using assms(1-4) unfolding r_def
    by (cases loc; simp add: rr_defs span_defs default_truncate_keeping_right_def Let_def)+
  show "rr_len r = rr_len ?t" by (rule c(4))
  show "op_ok Del r body" using assms(5) c(4,5) by (simp add: op_ok_def split: option.splits)
  have "op_positions Del r = map (\<lambda>p. p + skip) (op_positions Del ?t)"
    using c(1-4) by (simp add: op_positions_def op_position_def)
  then show "op_edits Del r body = shift_edits skip (op_edits Del ?t body)"
    by (simp add: op_edits_def shift_edits_def c(4) zip_map1 split_beta comp_def)
qed

text \<open>The location and content pushed for the rest of a partly known operation.\<close>

lemma remote_cut:
  assumes "str_indices_ok si" "to_ok op" "0 < skip" "skip < to_len op"
  defines "loc \<equiv> fst (default_truncate_keeping_right rr_truncate (to_loc op) skip)"
    and "body \<equiv> map_option (\<lambda>s. drop (chars_to_bytes si s skip) s) (to_content op)"
  shows "op_ok (to_kind op) loc body" "rr_len loc = to_len op - skip"
    "op_edits (to_kind op) loc body =
      (if forward_delete op then shift_edits skip (drop skip (to_edits op)) else drop skip (to_edits op))"
proof -
  let ?r = "snd (to_truncate si op skip)"
  let ?loc = "snd (truncate_tagged_span (to_loc op) (to_kind op) skip)"
  have v: "op_loc_valid (to_kind op) (to_loc op)" using assms(2) by (simp add: to_ok_def op_ok_def)
  have r: "to_loc ?r = ?loc" "to_kind ?r = to_kind op" "to_content ?r = body"
    by (simp_all add: to_truncate_def split_beta Let_def body_def split: option.splits)
  note t = to_truncate_spec[OF assms(1-4)]
  have okr: "op_ok (to_kind op) ?loc body" using t(2) r by (simp add: to_ok_def)
  have e: "op_edits (to_kind op) ?loc body = drop skip (to_edits op)" "rr_len ?loc = to_len op - skip"
    using t(4) r to_edits_length[OF t(2)] to_edits_length[OF assms(2)] by (simp_all add: to_edits_def to_len_def)
  show "op_ok (to_kind op) loc body" "rr_len loc = to_len op - skip"
    "op_edits (to_kind op) loc body =
      (if forward_delete op then shift_edits skip (drop skip (to_edits op)) else drop skip (to_edits op))"
  proof (atomize (full), cases "forward_delete op")
    case True
    then have "to_kind op = Del" "rr_fwd (to_loc op)" by (simp_all add: forward_delete_def)
    then show "op_ok (to_kind op) loc body \<and> rr_len loc = to_len op - skip \<and> op_edits (to_kind op) loc body =
      (if forward_delete op then shift_edits skip (drop skip (to_edits op)) else drop skip (to_edits op))"
      using forward_cut[of "to_loc op" skip body] v okr e assms(3,4) True by (simp add: loc_def to_len_def)
  next
    case False
    then have "to_kind op = Ins \<or> \<not> rr_fwd (to_loc op)" by (cases "to_kind op") (auto simp: forward_delete_def)
    then have "loc = ?loc" using plain_cut[OF v assms(3) assms(4)[unfolded to_len_def]] by (simp add: loc_def)
    then show "op_ok (to_kind op) loc body \<and> rr_len loc = to_len op - skip \<and> op_edits (to_kind op) loc body =
      (if forward_delete op then shift_edits skip (drop skip (to_edits op)) else drop skip (to_edits op))"
      using okr e False by simp
  qed
qed

lemma push_ops_remote_spec:
  assumes "str_indices_ok si" "chain_to ol n" "list_all to_ok ops" "skip \<le> length (all_edits ops)"
  shows "chain_to (push_ops_remote si ol n skip ops) (n + (length (all_edits ops) - skip)) \<and>
    ol_edits (push_ops_remote si ol n skip ops) = ol_edits ol @ stored_edits skip ops \<and>
    ol_cg (push_ops_remote si ol n skip ops) = ol_cg ol \<and> ol_doc_id (push_ops_remote si ol n skip ops) = ol_doc_id ol"
  using assms(2-)
proof (induction ops arbitrary: ol n skip)
  case (Cons op ops)
  have ok: "op_ok (to_kind op) (to_loc op) (to_content op)" and tok: "to_ok op" and l: "length (to_edits op) = to_len op"
    using Cons.prems(2) by (simp_all add: to_ok_def[symmetric] to_edits_length)
  have s0: "stored_edits 0 ops = all_edits ops" using Cons.prems(2) by (simp add: stored_edits_0)
  consider (all) "skip \<ge> to_len op" | (none) "skip = 0" "0 < to_len op" | (cut) "0 < skip" "skip < to_len op"
    using to_len_pos[OF tok] by linarith
  then show ?case
  proof cases
    case all
    then show ?thesis using Cons.IH[OF Cons.prems(1), of "skip - to_len op"] Cons.prems l by (simp add: add.commute)
  next
    case none
    note p = push_op_spec[OF Cons.prems(1) ok, folded to_len_def to_edits_def]
    then show ?thesis using Cons.IH[OF p(1), of 0] s0 Cons.prems(2) none p(2-4) l by (simp add: add.assoc)
  next
    case cut
    note rc = remote_cut[OF assms(1) tok cut]
    note p = push_op_spec[OF Cons.prems(1) rc(1), unfolded rc(2,3)]
    then show ?thesis using Cons.IH[OF p(1), of 0] s0 Cons.prems(2) cut p(2-4) l by (simp add: Let_def ac_simps)
  qed
qed simp

theorem add_operations_remote_spec:
  assumes si: "str_indices_ok si" and ok: "oplog_ok ol" and a: "agent_known ol a"
    and ops: "ops \<noteq> []" "list_all to_ok ops"
    and ps: "sorted_wrt (<) ps" "\<forall>p \<in> set ps. p < ol_len ol"
    and k: "s \<le> k" "k \<le> s + length (all_edits ops)"
      "\<forall>q. s \<le> q \<longrightarrow> q < s + length (all_edits ops) \<longrightarrow> known (ol_cg ol) a q = (q < k)"
  shows "\<exists>ol'. add_operations_remote si ol a ps s ops =
      Some (ol', dtr (ol_len ol) (ol_len ol + (s + length (all_edits ops) - k))) \<and>
    oplog_extends ol ol' (stored_edits (k - s) ops) \<and>
    (stored_edits (k - s) ops = drop (k - s) (all_edits ops) \<longleftrightarrow> skip_safe (k - s) ops) \<and>
    (if k = s + length (all_edits ops) then ol' = ol
     else \<exists>ps'. cg_extends (ol_cg ol) (ol_cg ol') a k (s + length (all_edits ops)) ps' \<and>
       (if k = s then ps' = ps else \<exists>v. ps' = [v] \<and> (v, (a, k - 1)) \<in> assigned (cg_aa (ol_cg ol))))"
proof -
  let ?n = "length (all_edits ops)"
  have okd: "cg_ok (ol_cg ol)" "chain_to ol (ol_len ol)" using ok by (simp_all add: oplog_ok_iff)
  have len: "length (stored_edits (k - s) ops) = s + length (all_edits ops) - k"
    using stored_edits_length[OF ops(2)] k(1) by simp
  note plain = stored_edits_plain[OF ops(2), of "k - s"]
  have n: "0 < ?n" by (rule all_edits_pos[OF ops])
  have pre: "\<forall>q r. s \<le> q \<longrightarrow> q \<le> r \<longrightarrow> r < s + ?n \<longrightarrow> known (ol_cg ol) a r \<longrightarrow> known (ol_cg ol) a q"
    using k(3) by (meson le_trans le_less_trans)
  obtain k' cg' where m: "s \<le> k'" "k' \<le> s + ?n" "\<forall>q. s \<le> q \<longrightarrow> q < s + ?n \<longrightarrow> known (ol_cg ol) a q = (q < k')"
    "merge_and_assign (ol_cg ol) ps \<lparr>as_agent = a, as_seq = dtr s (s + ?n)\<rparr> =
      Some (cg', dtr (cg_len (ol_cg ol)) (cg_len (ol_cg ol) + (s + ?n - k')))" "cg_ok cg'"
    "if k' = s + ?n then cg' = ol_cg ol
     else \<exists>ps'. cg_extends (ol_cg ol) cg' a k' (s + ?n) ps' \<and>
       (if k' = s then ps' = ps else \<exists>v. ps' = [v] \<and> (v, (a, k' - 1)) \<in> assigned (cg_aa (ol_cg ol)))"
    using merge_and_assign_spec[OF okd(1) a[unfolded agent_known_def] _ ps[unfolded ol_len_def] pre] n by auto
  have "k' = k"
  proof (rule ccontr)
    assume "k' \<noteq> k"
    then consider "k' < k" | "k < k'" by linarith
    then show False using m(1-3) k by cases (auto dest: spec[of _ k'] spec[of _ k])
  qed
  note m = m[unfolded \<open>k' = k\<close>]
  have sum: "sum_list (map to_len ops) = ?n" using all_edits_length[OF ops(2)] by simp
  show ?thesis
  proof (cases "k = s + ?n")
    case True
    have "add_operations_remote si ol a ps s ops = Some (ol, dtr (ol_len ol) (ol_len ol + (s + ?n - k)))"
      using m(4,6) True sum by (simp add: add_operations_remote_def dtrange_is_empty_def ol_len_def)
    then show ?thesis using True ok plain len by (simp add: oplog_extends_def)
  next
    case False
    let ?ol = "ol\<lparr>ol_cg := cg'\<rparr>"
    let ?r = "push_ops_remote si ?ol (ol_len ol) (k - s) ops"
    define j where "j = s + ?n - k"
    have j: "j \<noteq> 0" "?n - j = k - s" using k(1,2) False by (auto simp: j_def)
    have "add_operations_remote si ol a ps s ops = Some (?r, dtr (ol_len ol) (ol_len ol + (s + ?n - k)))"
      unfolding j_def[symmetric] using m(4)[folded j_def] j sum
      by (simp add: add_operations_remote_def dtrange_is_empty_def dtrange_len_def ol_len_def)
    moreover have "k - s \<le> ?n" using k(2) by simp
    moreover note push_ops_remote_spec[OF si _ ops(2) this, of ?ol "ol_len ol"]
    moreover have "cg_len cg' = ol_len ol + (s + ?n - k)" using m(6) False by (auto simp: cg_extends_def ol_len_def)
    ultimately show ?thesis using plain len m(5,6) False okd(2) k(1,2)
      by (intro exI[of _ ?r]) (simp add: oplog_extends_def oplog_ok_iff ol_len_def add.commute)
  qed
qed

end
