(* ===== verification/OpIterFacts.thy ===== *)
theory OpIterFacts
  imports OpLogFacts
begin

text \<open>
  What the iterators over an oplog return: for a nonempty range, the edits of exactly its versions, in
  order and without a panic; over all ranges, what was added; since a version, the edits of the versions
  it does not contain.
\<close>

definition pair_ok :: "op_with_content \<Rightarrow> bool" where
  "pair_ok x \<longleftrightarrow> to_ok (op_of x)"

definition pairs_edits :: "op_with_content list \<Rightarrow> edit list" where
  "pairs_edits xs = all_edits (map op_of xs)"

lemma pairs_edits_simps [simp]:
  "pairs_edits [] = []" "pairs_edits (x # xs) = to_edits (op_of x) @ pairs_edits xs"
  "pairs_edits (xs @ ys) = pairs_edits xs @ pairs_edits ys"
  by (simp_all add: pairs_edits_def all_edits_def)

text \<open>One step: the entry trimmed to the range.\<close>

lemma with_content_next_trim:
  assumes si: "str_indices_ok si" and i: "it_idx it < length (it_list it)"
    and x: "it_list it ! it_idx it = x" "om_ok (it_ctx it) (kv_val x)"
    and r: "kv_key x < dt_end (it_range it)" "dt_start (it_range it) < kv_key x + om_len (kv_val x)"
      "dt_start (it_range it) < dt_end (it_range it)"
  shows "\<exists>y. with_content_next si it = Some (it\<lparr>it_idx := Suc (it_idx it)\<rparr>, Some y) \<and> pair_ok y \<and>
    to_edits (op_of y) = drop (dt_start (it_range it) - kv_key x)
      (take (dt_end (it_range it) - kv_key x) (om_edits (it_ctx it) (kv_val x)))"
proof -
  let ?ctx = "it_ctx it" and ?a = "dt_start (it_range it)" and ?b = "dt_end (it_range it)" and ?s = "kv_key x"
  obtain op where op: "to_operation (kv_val x) ?ctx = Some op" "to_ok op" "om_edits ?ctx (kv_val x) = to_edits op"
    "to_loc op = om_loc (kv_val x)"
    using om_okE[OF x(2)] by metis
  have len: "om_len (kv_val x) = to_len op" using op(4) by (simp add: to_len_def om_len_def)
  obtain c opc where c: "(if ?s + om_len (kv_val x) > ?b then map_option fst (om_truncate_ctx si (kv_val x) (?b - ?s) ?ctx)
      else Some (kv_val x)) = Some c" "to_operation c ?ctx = Some opc" "to_ok opc"
      "to_edits opc = take (?b - ?s) (to_edits op)"
  proof (cases "?s + om_len (kv_val x) > ?b")
    case True
    then have at: "0 < ?b - ?s" "?b - ?s < om_len (kv_val x)" using r(1) by auto
    obtain l rr where "om_truncate_ctx si (kv_val x) (?b - ?s) ?ctx = Some (l, rr)"
      "to_operation l ?ctx = Some (fst (to_truncate si op (?b - ?s)))"
      using om_truncate_refines[OF si op(1,2) at] by blast
    then show ?thesis using True to_truncate_spec[OF si op(2) at(1) at(2)[unfolded len]] that by simp
  next
    case False
    then have "take (?b - ?s) (to_edits op) = to_edits op" using to_edits_length[OF op(2)] len by simp
    then show ?thesis using False op(1,2) that by simp
  qed
  have lenc: "om_len c = to_len opc" using c(2)
    by (auto simp: to_operation_def op_from_def om_len_def to_len_def)
  have "length (to_edits opc) = to_len opc" by (rule to_edits_length[OF c(3)])
  then have lc: "to_len opc = min (to_len op) (?b - ?s)" using c(4) to_edits_length[OF op(2)] by simp
  obtain st d opd where d: "(if ?s < ?a then map_option (\<lambda>(c, _). (?a, c)) (om_truncate_keeping_right_ctx si c (?a - ?s) ?ctx)
      else Some (?s, c)) = Some (st, d)" "to_operation d ?ctx = Some opd" "to_ok opd"
      "to_edits opd = drop (?a - ?s) (to_edits opc)"
  proof (cases "?s < ?a")
    case True
    then have at: "0 < ?a - ?s" "?a - ?s < om_len c" using r(2,3) lc lenc len by auto
    obtain l rr where "om_truncate_ctx si c (?a - ?s) ?ctx = Some (l, rr)"
      "to_operation rr ?ctx = Some (snd (to_truncate si opc (?a - ?s)))"
      using om_truncate_refines[OF si c(2,3) at] by blast
    then show ?thesis using True to_truncate_spec[OF si c(3) at(1) at(2)[unfolded lenc]] that
      by (simp add: om_truncate_keeping_right_ctx_def)
  next
    case False
    then show ?thesis using c(2,3) that by simp
  qed
  have m: "metrics_next si it = Some (it\<lparr>it_idx := Suc (it_idx it)\<rparr>, Some (KVPair st d))"
    using i x(1) r(1) c(1) d(1) by (simp add: metrics_next_def Let_def)
  obtain body where "get_content d ?ctx = Some body" "op_from d body = opd"
    using d(2) by (auto simp: to_operation_def)
  then show ?thesis using m d(3,4) c(4) op(3)
    by (simp add: with_content_next_def iter_get_content_def pair_ok_def op_of_def)
qed

lemma with_content_next_end:
  assumes "it_idx it \<ge> length (it_list it) \<or> kv_key (it_list it ! it_idx it) \<ge> dt_end (it_range it)"
  shows "with_content_next si it = Some (it, None)"
  using assms by (auto simp: with_content_next_def metrics_next_def Let_def)

text \<open>From an entry that reaches into the range on, the iterator yields the rest of the range.\<close>

lemma with_content_collect_from:
  assumes si: "str_indices_ok si" and ne: "dt_start (it_range it) < dt_end (it_range it)"
    and "ops_chain (it_ctx it) s (drop (it_idx it) (it_list it)) e"
    and "drop (it_idx it) (it_list it) \<noteq> [] \<longrightarrow>
      dt_start (it_range it) < s + om_len (kv_val (it_list it ! it_idx it))"
  shows "\<exists>xs. with_content_collect si it = Some xs \<and> list_all pair_ok xs \<and>
    pairs_edits xs = drop (dt_start (it_range it) - s)
      (take (dt_end (it_range it) - s) (ops_edits (it_ctx it) (drop (it_idx it) (it_list it))))"
  using assms(2-)
proof (induction "drop (it_idx it) (it_list it)" arbitrary: it s)
  case Nil
  then have "with_content_next si it = Some (it, None)" by (intro with_content_next_end) simp
  then show ?case using Nil(1) by (subst with_content_collect.simps) (simp flip: Nil(1))
next
  case (Cons x rest)
  let ?a = "dt_start (it_range it)" and ?b = "dt_end (it_range it)" and ?ctx = "it_ctx it"
  have i: "it_idx it < length (it_list it)" "it_list it ! it_idx it = x" "rest = drop (Suc (it_idx it)) (it_list it)"
    using Cons.hyps(2) by (metis drop_eq_Nil list.distinct(1) not_less,
      metis drop_eq_Nil list.distinct(1) not_less nth_via_drop, metis drop_Suc list.sel(3) tl_drop)
  have ch: "kv_key x = s" "om_ok ?ctx (kv_val x)" "ops_chain ?ctx (s + om_len (kv_val x)) rest e"
    using Cons.prems(2) by (simp_all flip: Cons.hyps(2))
  have a: "?a < s + om_len (kv_val x)" using Cons.prems(3) i by (simp flip: Cons.hyps(2))
  note pos = om_len_pos[OF ch(2)]
  show ?case
  proof (cases "s < ?b")
    case False
    then have "with_content_next si it = Some (it, None)" using i(2) ch(1) by (intro with_content_next_end) simp
    then show ?thesis using False by (subst with_content_collect.simps) simp
  next
    case True
    let ?it = "it\<lparr>it_idx := Suc (it_idx it)\<rparr>"
    obtain y where y: "with_content_next si it = Some (?it, Some y)" "pair_ok y"
      "to_edits (op_of y) = drop (?a - s) (take (?b - s) (om_edits ?ctx (kv_val x)))"
      using with_content_next_trim[OF si i(1,2) ch(2)] True a Cons.prems(1) ch(1) by auto
    have nx: "rest \<noteq> [] \<longrightarrow> ?a < s + om_len (kv_val x) + om_len (kv_val (it_list it ! Suc (it_idx it)))"
      using a by simp
    obtain xs where xs: "with_content_collect si ?it = Some xs" "list_all pair_ok xs"
      "pairs_edits xs = drop (?a - (s + om_len (kv_val x))) (take (?b - (s + om_len (kv_val x))) (ops_edits ?ctx rest))"
      using Cons.hyps(1)[of ?it "s + om_len (kv_val x)"] Cons.prems(1) ch(3) nx i(3) by auto
    have "drop (?a - s) (take (?b - s) (om_edits ?ctx (kv_val x) @ ops_edits ?ctx rest)) =
        drop (?a - s) (take (?b - s) (om_edits ?ctx (kv_val x))) @ take (?b - s - om_len (kv_val x)) (ops_edits ?ctx rest)"
      using a pos True Cons.prems(1) by (simp add: drop_append)
    then show ?thesis using y xs a by (subst with_content_collect.simps) (simp flip: Cons.hyps(2))
  qed
qed

text \<open>The start of a range: the entry that contains its first version.\<close>

lemma chain_vec_ok:
  assumes "ops_chain ctx s ops e"
  shows "vec_ok kv_key (kv_len om_len) (\<lambda>x. om_ok ctx (kv_val x)) ops \<and> (\<forall>x \<in> set ops. s \<le> kv_key x \<and> kv_key x + om_len (kv_val x) \<le> e)"
  using assms
proof (induction ops arbitrary: s)
  case (Cons x xs)
  then have x: "om_ok ctx (kv_val x)" "kv_key x = s" and c: "ops_chain ctx (s + om_len (kv_val x)) xs e" by simp_all
  have "s + om_len (kv_val x) \<le> e" using ops_chain_length[OF c] by simp
  then show ?case using Cons.IH[OF c] om_len_pos[OF x(1)] x by (auto simp: kv_len_def)
qed simp


lemma chain_find:
  assumes c: "ops_chain ctx 0 ops e" and n: "n < e"
  obtains i where "find_next_index kv_key (kv_len om_len) ops n = i" "i < length ops"
    "kv_key (ops ! i) \<le> n" "n < kv_key (ops ! i) + om_len (kv_val (ops ! i))"
    "ops_chain ctx (kv_key (ops ! i)) (drop i ops) e"
    "ops_edits ctx (drop i ops) = drop (kv_key (ops ! i)) (ops_edits ctx ops)"
proof -
  have split: "\<exists>m. ops_chain ctx 0 (take i ops) m \<and> ops_chain ctx m (drop i ops) e" for i
    using c ops_chain_append[of ctx 0 "take i ops" "drop i ops" e] by simp
  have ok: "vec_ok kv_key (kv_len om_len) (\<lambda>x. om_ok ctx (kv_val x)) ops" using chain_vec_ok[OF c] by simp
  then show ?thesis
  proof (cases rule: find_index_cases[where n = n])
    case (Ok i)
    obtain m where m: "ops_chain ctx 0 (take i ops) m" "ops_chain ctx m (drop i ops) e" using split by blast
    have d: "drop i ops = ops ! i # drop (Suc i) ops" using Ok(2) by (simp add: Cons_nth_drop_Suc)
    then have k: "m = kv_key (ops ! i)" using m(2) by simp
    have "length (ops_edits ctx (take i ops)) = m" using ops_chain_length[OF m(1)] by simp
    then have "ops_edits ctx (drop i ops) = drop m (ops_edits ctx ops)"
      using ops_edits_simps(3)[of ctx "take i ops" "drop i ops"] by simp
    then show ?thesis using that[of i] Ok m(2) k by (simp add: find_next_index_def kv_len_def)
  next
    case (Err i)
    obtain m where m: "ops_chain ctx 0 (take i ops) m" "ops_chain ctx m (drop i ops) e" using split by blast
    have "m \<le> n"
    proof (cases "take i ops" rule: rev_cases)
      case Nil
      show ?thesis using m(1) unfolding Nil by simp
    next
      case (snoc xs x)
      then have "m = kv_key x + om_len (kv_val x)" using m(1) by (auto simp: ops_chain_append)
      then show ?thesis using Err(3)[of x] snoc by (simp add: kv_len_def)
    qed
    then have False using m(2) n Err(4)[of "hd (drop i ops)"] by (cases "drop i ops") auto
    then show ?thesis ..
  qed
qed

lemma primed_collect:
  assumes si: "str_indices_ok si" and c: "ops_chain (it_ctx it) 0 (it_list it) e"
    and r: "dt_start rng < dt_end rng" "dt_start rng < e"
  shows "\<exists>xs. with_content_collect si (metrics_prime it rng) = Some xs \<and> list_all pair_ok xs \<and>
    pairs_edits xs = drop (dt_start rng) (take (dt_end rng) (ops_edits (it_ctx it) (it_list it)))"
proof -
  obtain i where i: "find_next_index kv_key (kv_len om_len) (it_list it) (dt_start rng) = i" "i < length (it_list it)"
    "kv_key (it_list it ! i) \<le> dt_start rng" "dt_start rng < kv_key (it_list it ! i) + om_len (kv_val (it_list it ! i))"
    "ops_chain (it_ctx it) (kv_key (it_list it ! i)) (drop i (it_list it)) e"
    "ops_edits (it_ctx it) (drop i (it_list it)) = drop (kv_key (it_list it ! i)) (ops_edits (it_ctx it) (it_list it))"
    using chain_find[OF c r(2)] by blast
  have p: "metrics_prime it rng = it\<lparr>it_range := rng, it_idx := i\<rparr>"
    using i(1) r(1) by (simp add: metrics_prime_def dtrange_is_empty_def)
  have "drop (dt_start rng - k) (take (dt_end rng - k) (drop k E)) = drop (dt_start rng) (take (dt_end rng) E)"
    if "k \<le> dt_start rng" for k and E :: "edit list"
    using that r(1) by (simp add: drop_take)
  then show ?thesis using with_content_collect_from[OF si, of "metrics_prime it rng" "kv_key (it_list it ! i)" e] r(1) i(3-6)
    by (simp add: p)
qed

lemma primed_next:
  assumes si: "str_indices_ok si" and c: "ops_chain (it_ctx it) 0 (it_list it) e"
    and r: "dt_start rng < dt_end rng" "dt_start rng < e"
  shows "\<exists>b x. with_content_next si (metrics_prime it rng) = Some (b, Some x)"
proof -
  obtain xs where xs: "with_content_collect si (metrics_prime it rng) = Some xs"
    "pairs_edits xs = drop (dt_start rng) (take (dt_end rng) (ops_edits (it_ctx it) (it_list it)))"
    using primed_collect[OF assms] by blast
  have "length (ops_edits (it_ctx it) (it_list it)) = e" using ops_chain_length[OF c] by simp
  then have "pairs_edits xs \<noteq> []" using r by (simp add: xs(2))
  then have "xs \<noteq> []" by auto
  then show ?thesis using xs(1)
    by (cases "with_content_next si (metrics_prime it rng)")
      (auto simp: with_content_collect.simps[of si "metrics_prime it rng"] split: option.splits)
qed

section \<open>Ranges of an oplog\<close>

theorem iter_range_simple_spec:
  assumes "str_indices_ok si" "oplog_ok ol" "a < b" "a < ol_len ol"
  shows "\<exists>xs. iter_range_simple si ol (dtr a b) = Some xs \<and> list_all pair_ok xs \<and>
    pairs_edits xs = drop a (take b (ol_edits ol))"
  using primed_collect[OF assms(1), of "\<lparr>it_list = ol_operations ol, it_ctx = ol_ctx ol, it_range = dtr a b, it_idx = 0\<rparr>"
      "ol_len ol" "dtr a b"] assms(2-)
  by (simp add: iter_range_simple_def with_content_new_def metrics_iter_new_def oplog_ok_def ol_edits_def)

theorem iter_ops_range_spec:
  assumes "str_indices_ok si" "oplog_ok ol" "a < b" "a < ol_len ol"
  shows "\<exists>ops. iter_ops_range si ol (dtr a b) = Some ops \<and> list_all to_ok ops \<and>
    all_edits ops = drop a (take b (ol_edits ol))"
  using iter_range_simple_spec[OF assms] by (auto simp: iter_ops_range_def pairs_edits_def pair_ok_def list_all_iff)

theorem iter_ops_spec:
  assumes "str_indices_ok si" "oplog_ok ol"
  shows "\<exists>ops. iter_ops si ol = Some ops \<and> list_all to_ok ops \<and> all_edits ops = ol_edits ol"
proof (cases "ol_len ol = 0")
  case True
  then have "ops_chain (ol_ctx ol) 0 (ol_operations ol) 0" using assms(2) by (simp add: oplog_ok_def)
  then have len: "length (ops_edits (ol_ctx ol) (ol_operations ol)) = 0" using ops_chain_length by fastforce
  have "ol_operations ol = []"
  proof (cases "ol_operations ol")
    case (Cons x xs)
    then have "om_ok (ol_ctx ol) (kv_val x)" using \<open>ops_chain (ol_ctx ol) 0 (ol_operations ol) 0\<close> by simp
    from om_len_pos[OF this] show ?thesis using len Cons by simp
  qed
  let ?it = "with_content_new ol (dtr 0 0)"
  have "with_content_next si ?it = Some (?it, None)"
    using \<open>ol_operations ol = []\<close>
    by (intro with_content_next_end) (simp add: with_content_new_def metrics_iter_new_def metrics_prime_def)
  then have "with_content_collect si ?it = Some []" by (subst with_content_collect.simps) simp
  then show ?thesis using True len by (simp add: iter_ops_def iter_fast_def ol_edits_def)
next
  case False
  then show ?thesis using iter_ops_range_spec[OF assms, of 0 "ol_len ol"] ol_edits_length[OF assms(2)]
    by (simp add: iter_ops_def iter_fast_def iter_ops_range_def iter_range_simple_def)
qed


section \<open>What is new since a version\<close>

definition slices :: "edit list \<Rightarrow> dtrange list \<Rightarrow> edit list" where
  "slices E rs = concat (map (\<lambda>r. drop (dt_start r) (take (dt_end r) E)) rs)"

text \<open>While the current iterator has entries, the iterator over the ranges yields them; then it goes on.\<close>

lemma iter_ranges_collect_current:
  assumes "with_content_collect si it = Some xs"
  shows "\<exists>it'. with_content_next si it' = Some (it', None) \<and> it_list it' = it_list it \<and> it_ctx it' = it_ctx it \<and>
    iter_ranges_collect si \<lparr>ir_ranges_rev = rr, ir_current = it\<rparr> =
    map_option ((@) xs) (iter_ranges_collect si \<lparr>ir_ranges_rev = rr, ir_current = it'\<rparr>)"
  using assms
proof (induction si it arbitrary: xs rule: with_content_collect.induct)
  case (1 si it)
  have keep: "it_list a = it_list it \<and> it_ctx a = it_ctx it" if "with_content_next si it = Some (a, b)" for a b
    using that by (auto simp: with_content_next_def metrics_next_def Let_def bind_eq_Some_conv
        split: option.splits prod.splits if_splits)
  obtain a b where n: "with_content_next si it = Some (a, b)"
    using "1.prems" by (cases "with_content_next si it") (auto simp: with_content_collect.simps[of si it])
  show ?case
  proof (cases b)
    case None
    have "a = it" using n None
      by (auto simp: with_content_next_def metrics_next_def Let_def bind_eq_Some_conv split: option.splits prod.splits if_splits)
    have "xs = []" using "1.prems" n None by (subst (asm) with_content_collect.simps) simp
    then show ?thesis using n None \<open>a = it\<close> by (intro exI[of _ it]) (simp add: option.map_ident)
  next
    case (Some x)
    obtain ys where ys: "with_content_collect si a = Some ys" "xs = x # ys"
      using "1.prems" n Some by (auto simp: with_content_collect.simps[of si it])
    obtain it' where it': "with_content_next si it' = Some (it', None)" "it_list it' = it_list a" "it_ctx it' = it_ctx a"
      "iter_ranges_collect si \<lparr>ir_ranges_rev = rr, ir_current = a\<rparr> =
        map_option ((@) ys) (iter_ranges_collect si \<lparr>ir_ranges_rev = rr, ir_current = it'\<rparr>)"
      using "1.IH"[OF n refl Some ys(1)] by blast
    have "iter_ranges_next si \<lparr>ir_ranges_rev = rr, ir_current = it\<rparr> = Some (\<lparr>ir_ranges_rev = rr, ir_current = a\<rparr>, Some x)"
      using n Some by (simp add: iter_ranges_next_def)
    then have "iter_ranges_collect si \<lparr>ir_ranges_rev = rr, ir_current = it\<rparr> =
        map_option ((#) x) (iter_ranges_collect si \<lparr>ir_ranges_rev = rr, ir_current = a\<rparr>)"
      by (subst iter_ranges_collect.simps) simp
    then show ?thesis using it' ys(2) keep[OF n] by (intro exI[of _ it']) (simp add: option.map_comp comp_def)
  qed
qed

lemma iter_ranges_collect_spec:
  assumes si: "str_indices_ok si" and c: "ops_chain (it_ctx it) 0 (it_list it) e"
    and it: "with_content_next si it = Some (it, None)"
    and rs: "\<forall>r \<in> set rr. dt_start r < dt_end r \<and> dt_start r < e"
  shows "\<exists>xs. iter_ranges_collect si \<lparr>ir_ranges_rev = rr, ir_current = it\<rparr> = Some xs \<and> list_all pair_ok xs \<and>
    pairs_edits xs = slices (ops_edits (it_ctx it) (it_list it)) (rev rr)"
  using c it rs
proof (induction rr arbitrary: it rule: rev_induct)
  case Nil
  then show ?case by (subst iter_ranges_collect.simps) (simp add: iter_ranges_next_def slices_def)
next
  case (snoc r rr)
  have r: "dt_start r < dt_end r" "dt_start r < e" using snoc.prems(3) by simp_all
  obtain xs where xs: "with_content_collect si (metrics_prime it r) = Some xs" "list_all pair_ok xs"
    "pairs_edits xs = drop (dt_start r) (take (dt_end r) (ops_edits (it_ctx it) (it_list it)))"
    using primed_collect[OF si snoc.prems(1) r] by blast
  have p: "it_list (metrics_prime it r) = it_list it" "it_ctx (metrics_prime it r) = it_ctx it"
    by (simp_all add: metrics_prime_def)
  obtain it' where it': "with_content_next si it' = Some (it', None)" "it_list it' = it_list it" "it_ctx it' = it_ctx it"
    "iter_ranges_collect si \<lparr>ir_ranges_rev = rr, ir_current = metrics_prime it r\<rparr> =
      map_option ((@) xs) (iter_ranges_collect si \<lparr>ir_ranges_rev = rr, ir_current = it'\<rparr>)"
    using iter_ranges_collect_current[OF xs(1), of rr] p by metis
  obtain ys where ys: "iter_ranges_collect si \<lparr>ir_ranges_rev = rr, ir_current = it'\<rparr> = Some ys" "list_all pair_ok ys"
    "pairs_edits ys = slices (ops_edits (it_ctx it) (it_list it)) (rev rr)"
    using snoc.IH[of it'] it' snoc.prems by auto
  obtain b x where x: "with_content_next si (metrics_prime it r) = Some (b, Some x)"
    using primed_next[OF si snoc.prems(1) r] by blast
  have "iter_ranges_collect si \<lparr>ir_ranges_rev = rr @ [r], ir_current = it\<rparr> =
      iter_ranges_collect si \<lparr>ir_ranges_rev = rr, ir_current = metrics_prime it r\<rparr>"
    using snoc.prems(2) x
    by (subst (1 2) iter_ranges_collect.simps) (simp add: iter_ranges_next_def)
  then show ?case using it'(4) ys xs by (simp add: slices_def)
qed

lemma run_form_concat:
  "run_form rs \<Longrightarrow> concat (map (\<lambda>r. [dt_start r ..< dt_end r]) rs) = sorted_list_of_set (dt_set rs)"
proof -
  assume r: "run_form rs"
  have "sorted_wrt (<) (concat (map (\<lambda>r. [dt_start r ..< dt_end r]) rs)) \<and>
      set (concat (map (\<lambda>r. [dt_start r ..< dt_end r]) rs)) = dt_set rs"
    using r
  proof (induction rs)
    case (Cons r rs)
    have "v < w" if "v < dt_end r" "w \<in> dt_set rs" for v w
    proof -
      obtain x where x: "x \<in> set rs" "dt_start x \<le> w" using \<open>w \<in> dt_set rs\<close> by (auto simp: dt_set_def)
      have "dt_end r < dt_start x" using Cons.prems x(1) by simp
      then show ?thesis using that(1) x(2) by simp
    qed
    then show ?case using Cons by (simp add: sorted_wrt_append)
  qed simp
  then show ?thesis
    by (metis List.finite_set sorted_list_of_set.idem_if_sorted_distinct strict_sorted_iff)
qed

lemma slices_nth:
  "\<forall>r \<in> set rs. dt_end r \<le> length E \<Longrightarrow> slices E rs = map ((!) E) (concat (map (\<lambda>r. [dt_start r ..< dt_end r]) rs))"
proof (induction rs)
  case (Cons r rs)
  have "drop (dt_start r) (take (dt_end r) E) = map ((!) E) [dt_start r ..< dt_end r]"
    using Cons.prems by (intro nth_equalityI) (simp_all add: min.absorb2)
  then show ?case using Cons by (simp add: slices_def)
qed (simp add: slices_def)

theorem iter_range_since_spec:
  assumes si: "str_indices_ok si" and ok: "oplog_ok ol" and f: "\<forall>v \<in> set f. v < ol_len ol"
  shows "\<exists>ops. iter_range_since si ol f = Some ops \<and> list_all to_ok ops \<and>
    all_edits ops = map ((!) (ol_edits ol)) (sorted_list_of_set ({..< ol_len ol} - ghist (cg_graph (ol_cg ol)) f))"
proof -
  have cg: "cg_ok (ol_cg ol)" and c: "ops_chain (ol_ctx ol) 0 (ol_operations ol) (ol_len ol)"
    using ok by (simp_all add: oplog_ok_def)
  obtain rs where rs: "diff_since (ol_cg ol) f = Some rs" "run_form rs"
    "dt_set rs = {..< ol_len ol} - ghist (cg_graph (ol_cg ol)) f"
    using diff_since_spec[OF cg f[unfolded ol_len_def]] unfolding ol_len_def by blast
  then obtain rr where rr: "diff_since_rev (ol_cg ol) f = Some rr" "rs = rev rr" by (auto simp: diff_since_def)
  have b: "dt_start r < dt_end r \<and> dt_start r < ol_len ol \<and> dt_end r \<le> ol_len ol" if "r \<in> set rr" for r
  proof -
    have r: "dt_start r < dt_end r" using rs(2) that rr(2) by (simp add: run_form_def)
    have "dt_end r - 1 \<in> dt_set rs" using that rr(2) r by (auto simp: dt_set_def intro!: bexI[of _ r])
    then have "dt_end r - 1 < ol_len ol" unfolding rs(3) by blast
    then show ?thesis using r by linarith
  qed
  let ?cur = "with_content_new ol (dtr 0 0)"
  have cur: "it_list ?cur = ol_operations ol" "it_ctx ?cur = ol_ctx ol"
    by (simp_all add: with_content_new_def metrics_iter_new_def metrics_prime_def)
  have end': "with_content_next si ?cur = Some (?cur, None)"
    by (rule with_content_next_end) (simp add: with_content_new_def metrics_iter_new_def metrics_prime_def)
  have b': "\<forall>r \<in> set rr. dt_start r < dt_end r \<and> dt_start r < ol_len ol" using b by blast
  obtain xs where xs: "iter_ranges_collect si \<lparr>ir_ranges_rev = rr, ir_current = ?cur\<rparr> = Some xs" "list_all pair_ok xs"
    "pairs_edits xs = slices (ol_edits ol) rs"
    using iter_ranges_collect_spec[OF si _ end' b'] c rr(2) unfolding cur ol_edits_def by blast
  have "iter_ranges_collect si (iter_ranges_new ol rr) = Some xs"
  proof (cases rr rule: rev_cases)
    case Nil
    then show ?thesis using xs(1) by (simp add: iter_ranges_new_def)
  next
    case (snoc ys y)
    have "metrics_prime ?cur y = with_content_new ol y"
      by (simp add: with_content_new_def metrics_iter_new_def metrics_prime_def)
    moreover have "dt_start y < dt_end y" "dt_start y < ol_len ol" using b' snoc by simp_all
    then obtain it x where "with_content_next si (metrics_prime ?cur y) = Some (it, Some x)"
      using primed_next[OF si, of ?cur "ol_len ol" y] c unfolding cur by blast
    moreover have "iter_ranges_collect si \<lparr>ir_ranges_rev = rr, ir_current = ?cur\<rparr> =
        iter_ranges_collect si \<lparr>ir_ranges_rev = ys, ir_current = metrics_prime ?cur y\<rparr>"
      using end' calculation(2)
      by (subst (1 2) iter_ranges_collect.simps) (simp add: iter_ranges_next_def snoc)
    ultimately show ?thesis using xs(1) by (simp add: iter_ranges_new_def snoc)
  qed
  moreover have "slices (ol_edits ol) rs = map ((!) (ol_edits ol)) (sorted_list_of_set (dt_set rs))"
    using slices_nth[of rs "ol_edits ol"] b rr(2) ol_edits_length[OF ok] run_form_concat[OF rs(2)] by (metis set_rev)
  ultimately show ?thesis using xs(2,3) rs(3) rr(1)
    by (simp add: iter_range_since_def pairs_edits_def pair_ok_def list_all_iff)
qed

end
