(* ===== verification/ListEditFacts.thy ===== *)
theory ListEditFacts
  imports ListEdit OpIterFacts
begin

text \<open>
  The specification of editing is the list of characters of the document, changed one character at a
  time (\<open>apply_edits\<close>).  Every operation on a branch refines it: applying a run-length operation to
  the rope is applying its edits to the list.  A local edit moreover leaves the oplog in the state in
  which \<open>add_operations_at\<close> leaves it, so that replaying the oplog of a document that was edited
  locally returns the document.
\<close>

section \<open>Editing one character at a time\<close>

fun apply_edit :: "edit \<Rightarrow> uchar list \<Rightarrow> uchar list option" where
  "apply_edit (Ins, p, Some c) d = (if p \<le> length d then Some (take p d @ c # drop p d) else None)"
| "apply_edit (Ins, p, None) d = None"
| "apply_edit (Del, p, c) d = (if p < length d then Some (take p d @ drop (Suc p) d) else None)"

fun apply_edits :: "edit list \<Rightarrow> uchar list \<Rightarrow> uchar list option" where
  "apply_edits [] d = Some d"
| "apply_edits (e # es) d = Option.bind (apply_edit e d) (apply_edits es)"

lemma apply_edits_append: "apply_edits (es @ es') d = Option.bind (apply_edits es d) (apply_edits es')"
proof (induction es arbitrary: d)
  case (Cons e es)
  then show ?case by (cases "apply_edit e d") simp_all
qed simp

lemma apply_ins_run:
  "st \<le> length d \<Longrightarrow> apply_edits (map (Pair Ins) (zip [st ..< st + length cs] (map Some cs))) d = Some (take st d @ cs @ drop st d)"
proof (induction cs arbitrary: st d)
  case (Cons c cs)
  have "[st ..< st + length (c # cs)] = st # [Suc st ..< Suc st + length cs]" by (simp add: upt_rec)
  then show ?case using Cons.IH[of "Suc st" "take st d @ c # drop st d"] Cons.prems by simp
qed simp

lemma apply_del_fwd:
  "length cs = n \<Longrightarrow> apply_edits (map (Pair Del) (zip (replicate n st) cs)) d =
     (if n = 0 \<or> st + n \<le> length d then Some (take st d @ drop (st + n) d) else None)"
proof (induction n arbitrary: cs d)
  case (Suc n)
  obtain c cs' where cs: "cs = c # cs'" "length cs' = n" using Suc.prems by (cases cs) auto
  show ?case
  proof (cases "st < length d")
    case True
    then have "min (length d) st = st" "length d - Suc st + st = length d - 1" by simp_all
    then show ?thesis using Suc.IH[OF cs(2), of "take st d @ drop (Suc st) d"] True cs(1)
      by (auto simp: drop_append add.commute)
  qed (use cs in simp)
qed simp

lemma apply_del_rev:
  "length cs = n \<Longrightarrow> apply_edits (map (Pair Del) (zip (rev [st ..< st + n]) cs)) d =
     (if n = 0 \<or> st + n \<le> length d then Some (take st d @ drop (st + n) d) else None)"
proof (induction n arbitrary: cs d)
  case (Suc n)
  obtain c cs' where cs: "cs = c # cs'" "length cs' = n" using Suc.prems by (cases cs) auto
  show ?case
  proof (cases "st + n < length d")
    case True
    then show ?thesis using Suc.IH[OF cs(2), of "take (st + n) d @ drop (Suc (st + n)) d"] cs(1)
      by (auto simp: drop_append min_def)
  qed (use cs in simp)
qed simp

text \<open>An operation as one change of the list.\<close>

definition change_doc :: "list_op_kind \<Rightarrow> dtrange \<Rightarrow> str option \<Rightarrow> uchar list \<Rightarrow> uchar list option" where
  "change_doc kind r body d =
     (case kind of
        Ins \<Rightarrow> (case body of
                 None \<Rightarrow> None
               | Some s \<Rightarrow> if dt_start r \<le> length d
                          then Some (take (dt_start r) d @ str_chars s @ drop (dt_start r) d) else None)
      | Del \<Rightarrow> if dt_end r \<le> length d then Some (take (dt_start r) d @ drop (dt_end r) d) else None)"

lemma op_positions_runs:
  "rr_fwd r \<Longrightarrow> op_positions Ins r = [dt_start (rr_span r) ..< dt_start (rr_span r) + rr_len r]"
  "rr_fwd r \<Longrightarrow> op_positions Del r = replicate (rr_len r) (dt_start (rr_span r))"
  "\<not> rr_fwd r \<Longrightarrow> rr_valid r \<Longrightarrow>
     op_positions Del r = rev [dt_start (rr_span r) ..< dt_start (rr_span r) + rr_len r]"
proof -
  show "rr_fwd r \<Longrightarrow> op_positions Ins r = [dt_start (rr_span r) ..< dt_start (rr_span r) + rr_len r]"
    by (rule nth_equalityI) (simp_all add: op_positions_def op_position_def)
  show "rr_fwd r \<Longrightarrow> op_positions Del r = replicate (rr_len r) (dt_start (rr_span r))"
    by (rule nth_equalityI) (simp_all add: op_positions_def op_position_def)
  show "\<not> rr_fwd r \<Longrightarrow> rr_valid r \<Longrightarrow>
     op_positions Del r = rev [dt_start (rr_span r) ..< dt_start (rr_span r) + rr_len r]"
    by (rule nth_equalityI)
      (auto simp: op_positions_def op_position_def rr_len_def dtrange_len_def rr_valid_def rev_nth)
qed

lemma op_edits_change:
  assumes "op_ok kind loc body"
  shows "apply_edits (op_edits kind loc body) d = change_doc kind (rr_span loc) body d"
proof -
  have v: "rr_valid loc" "kind = Ins \<Longrightarrow> rr_fwd loc" "0 < rr_len loc"
    "dt_end (rr_span loc) = dt_start (rr_span loc) + rr_len loc"
    using assms by (auto simp: op_ok_def op_loc_valid_def rr_valid_def rr_len_def dtrange_len_def)
  have len: "length (content_chars (rr_len loc) body) = rr_len loc"
    using assms by (auto simp: content_chars_def op_ok_def split: option.splits)
  show ?thesis
  proof (cases kind)
    case Del
    then show ?thesis
      using op_positions_runs(2,3)[of loc] v apply_del_fwd[OF len] apply_del_rev[OF len]
      by (cases "rr_fwd loc") (auto simp: op_edits_def change_doc_def)
  next
    case Ins
    let ?st = "dt_start (rr_span loc)"
    have p: "op_positions Ins loc = ?st # [Suc ?st ..< ?st + rr_len loc]"
      using op_positions_runs(1) v Ins by (simp add: upt_rec)
    show ?thesis
    proof (cases body)
      case None
      then have "op_edits kind loc body \<noteq> [] \<and> hd (op_edits kind loc body) = (Ins, ?st, None)"
        using p v(3) Ins by (cases "rr_len loc") (simp_all add: op_edits_def content_chars_def)
      then show ?thesis using None Ins by (cases "op_edits kind loc body") (auto simp: change_doc_def)
    next
      case (Some s)
      have l: "length (str_chars s) = rr_len loc" using assms Some by (simp add: op_ok_def)
      show ?thesis
      proof (cases "?st \<le> length d")
        case True
        then show ?thesis using apply_ins_run[OF True, of "str_chars s"] op_positions_runs(1)[of loc] v(2) l Ins Some
          by (simp add: op_edits_def content_chars_def change_doc_def)
      next
        case False
        obtain c cs where "str_chars s = c # cs" using l v(3) by (cases "str_chars s") auto
        then have "op_edits kind loc body \<noteq> [] \<and> hd (op_edits kind loc body) = (Ins, ?st, Some c)"
          using p Ins Some by (simp add: op_edits_def content_chars_def)
        then show ?thesis using False Some Ins by (cases "op_edits kind loc body") (auto simp: change_doc_def)
      qed
    qed
  qed
qed

section \<open>Ropes and branches\<close>

text \<open>What \<open>jumprope\<close> documents of the methods used, for positions inside the document.\<close>

definition rope_ok :: "'r rope_ops \<Rightarrow> ('r \<Rightarrow> uchar list) \<Rightarrow> bool" where
  "rope_ok rp doc \<longleftrightarrow> doc (rp_new rp) = [] \<and>
     (\<forall>r. rp_len_chars rp r = length (doc r) \<and> (rp_is_empty rp r \<longleftrightarrow> doc r = []) \<and> list_all is_uchar (doc r)) \<and>
     (\<forall>r p s. p \<le> length (doc r) \<longrightarrow> utf8_valid s \<longrightarrow>
        (\<exists>r'. rp_insert rp r p s = Some r' \<and> doc r' = take p (doc r) @ str_chars s @ drop p (doc r))) \<and>
     (\<forall>r a b. a \<le> b \<longrightarrow> b \<le> length (doc r) \<longrightarrow>
        (\<exists>r'. rp_remove rp r (dtr a b) = Some r' \<and> doc r' = take a (doc r) @ drop b (doc r)) \<and>
        rp_slice_chars rp r (dtr a b) = Some (concat (take (b - a) (drop a (doc r)))))"

lemma rope_okD:
  assumes "rope_ok rp doc"
  shows "doc (rp_new rp) = []" "rp_len_chars rp r = length (doc r)" "list_all is_uchar (doc r)"
    "p \<le> length (doc r) \<Longrightarrow> utf8_valid s \<Longrightarrow>
       \<exists>r'. rp_insert rp r p s = Some r' \<and> doc r' = take p (doc r) @ str_chars s @ drop p (doc r)"
    "a \<le> b \<Longrightarrow> b \<le> length (doc r) \<Longrightarrow> \<exists>r'. rp_remove rp r (dtr a b) = Some r' \<and> doc r' = take a (doc r) @ drop b (doc r)"
    "a \<le> b \<Longrightarrow> b \<le> length (doc r) \<Longrightarrow> rp_slice_chars rp r (dtr a b) = Some (concat (take (b - a) (drop a (doc r))))"
  using assms by (simp_all add: rope_ok_def)

text \<open>The specification can hold: a list of characters satisfies it.\<close>

typedef char_list = "{cs. list_all is_uchar cs}"
  by (rule exI[of _ "[]"]) simp

definition list_rope :: "char_list rope_ops" where
  "list_rope = \<lparr>rp_new = Abs_char_list [],
     rp_insert = (\<lambda>r p s. if p \<le> length (Rep_char_list r) \<and> utf8_valid s
       then Some (Abs_char_list (take p (Rep_char_list r) @ str_chars s @ drop p (Rep_char_list r))) else None),
     rp_remove = (\<lambda>r x. Some (Abs_char_list (take (dt_start x) (Rep_char_list r) @ drop (dt_end x) (Rep_char_list r)))),
     rp_len_chars = (\<lambda>r. length (Rep_char_list r)), rp_is_empty = (\<lambda>r. Rep_char_list r = []),
     rp_slice_chars = (\<lambda>r x. Some (concat (take (dt_end x - dt_start x) (drop (dt_start x) (Rep_char_list r)))))\<rparr>"

lemma Rep_char_list_uchar [simp]: "list_all is_uchar (Rep_char_list r)"
  using Rep_char_list by simp

lemma list_all_sub: "list_all P xs \<Longrightarrow> list_all P (take n xs) \<and> list_all P (drop n xs)"
  by (metis append_take_drop_id list_all_append)

lemma list_rope_ok: "rope_ok list_rope Rep_char_list"
proof -
  have "Rep_char_list (Abs_char_list cs) = cs" if "list_all is_uchar cs" for cs
    using Abs_char_list_inverse that by simp
  then show ?thesis using list_all_sub[OF Rep_char_list_uchar] str_chars_uchar
    by (simp add: rope_ok_def list_rope_def)
qed

lemma apply_internal_refines:
  assumes rp: "rope_ok rp doc" and ok: "op_ok kind loc body"
    and d: "apply_edits (op_edits kind loc body) (doc (br_content br)) = Some d"
  shows "\<exists>br'. apply_internal rp br kind (rr_span loc) body = Some br' \<and> doc (br_content br') = d \<and>
    br_version br' = br_version br"
proof -
  have c: "change_doc kind (rr_span loc) body (doc (br_content br)) = Some d"
    using d by (simp add: op_edits_change[OF ok])
  have le: "dt_start (rr_span loc) \<le> dt_end (rr_span loc)"
    using ok by (simp add: op_ok_def op_loc_valid_def rr_valid_def)
  show ?thesis
  proof (cases kind)
    case Ins
    then obtain s where s: "body = Some s" "dt_start (rr_span loc) \<le> length (doc (br_content br))"
      "d = take (dt_start (rr_span loc)) (doc (br_content br)) @ str_chars s @ drop (dt_start (rr_span loc)) (doc (br_content br))"
      using c by (auto simp: change_doc_def split: option.splits if_splits)
    have "utf8_valid s" using ok s(1) by (simp add: op_ok_def)
    from rope_okD(4)[OF rp s(2) this] show ?thesis using Ins s by (auto simp: apply_internal_def)
  next
    case Del
    then have r: "dt_end (rr_span loc) \<le> length (doc (br_content br))"
      "d = take (dt_start (rr_span loc)) (doc (br_content br)) @ drop (dt_end (rr_span loc)) (doc (br_content br))"
      using c by (auto simp: change_doc_def split: if_splits)
    show ?thesis using rope_okD(5)[OF rp le r(1)] Del r(2) by (cases "rr_span loc") (auto simp: apply_internal_def)
  qed
qed

lemma branch_apply_refines:
  assumes "rope_ok rp doc" "list_all to_ok ops" "apply_edits (all_edits ops) (doc (br_content br)) = Some d"
  shows "\<exists>br'. branch_apply rp br ops = Some br' \<and> doc (br_content br') = d \<and> br_version br' = br_version br"
  using assms(2,3)
proof (induction ops arbitrary: br)
  case (Cons op ops)
  obtain d1 where d1: "apply_edits (to_edits op) (doc (br_content br)) = Some d1" "apply_edits (all_edits ops) d1 = Some d"
    using Cons.prems(2) by (auto simp: apply_edits_append bind_eq_Some_conv)
  obtain br1 where "apply_internal rp br (to_kind op) (rr_span (to_loc op)) (to_content op) = Some br1"
    "doc (br_content br1) = d1" "br_version br1 = br_version br"
    using apply_internal_refines[OF assms(1) _ d1(1)[unfolded to_edits_def]] Cons.prems(1) by (auto simp: to_ok_def)
  then show ?case using Cons.IH[of br1] Cons.prems(1) d1(2) by auto
qed simp

lemma apply_pairs_eq: "apply_pairs rp br xs = branch_apply rp br (map op_of xs)"
  by (induction xs arbitrary: br) (auto simp: op_of_def op_from_def split: bind_splits)

text \<open>Applying a range of the oplog to a branch applies its edits to the document.\<close>

theorem apply_range_from_spec:
  assumes "str_indices_ok si" "rope_ok rp doc" "oplog_ok ol" "a < b" "a < ol_len ol"
    and "apply_edits (drop a (take b (ol_edits ol))) (doc (br_content br)) = Some d"
  shows "\<exists>br'. apply_range_from si rp br ol (dtr a b) = Some br' \<and> doc (br_content br') = d \<and> br_version br' = br_version br"
proof -
  obtain xs where xs: "iter_range_simple si ol (dtr a b) = Some xs" "list_all pair_ok xs"
    "pairs_edits xs = drop a (take b (ol_edits ol))"
    using iter_range_simple_spec[OF assms(1,3-5)] by blast
  have "list_all to_ok (map op_of xs)" using xs(2) by (simp add: list_all_iff pair_ok_def)
  from branch_apply_refines[OF assms(2) this] show ?thesis
    using xs assms(6) by (simp add: apply_range_from_def apply_pairs_eq pairs_edits_def)
qed


section \<open>Local edits\<close>

text \<open>The fast path that extends the last entry of the graph in place is the same as pushing.\<close>

lemma insert_history_local_eq:
  assumes g: "graph_checked (cg_graph (ol_cg ol))" "graph_next_time (cg_graph (ol_cg ol)) = dt_start rng"
    and r: "dt_start rng < dt_end rng" and f: "\<forall>v \<in> set f. v < dt_start rng"
  shows "insert_history_local ol f rng =
    (case graph_push (cg_graph (ol_cg ol)) f rng of
       None \<Rightarrow> None
     | Some g \<Rightarrow> Some (ol\<lparr>ol_cg := (ol_cg ol)\<lparr>cg_graph := g\<rparr>\<rparr>, [dtrange_last rng]))"
proof (cases "try_get_single_entry f = Some (wrapping_pred (dt_start rng)) \<and> g_entries (cg_graph (ol_cg ol)) \<noteq> []")
  case True
  let ?g = "cg_graph (ol_cg ol)"
  let ?l = "last (g_entries ?g)"
  have f1: "f = [wrapping_pred (dt_start rng)]"
    using True by (cases f) (auto simp: try_get_single_entry_def split: if_splits)
  then have pos: "0 < dt_start rng" "f = [dt_start rng - 1]"
    using f by (auto simp: wrapping_pred_def split: if_splits)
  have "0 < ge_len ?l"
    using g(1) True by (simp add: graph_checked_def graph_wf_def vec_ok_def)
  then have e: "dt_end (ge_span ?l) = dt_start rng"
    using g(2) True by (simp add: graph_next_time_def rv_end_def rv_last_entry_def span_end_def ge_key_def ge_len_def
        dtrange_len_def)
  show ?thesis using True pos e
    by (simp add: insert_history_local_def graph_push_def Let_def ge_last_time_def dtrange_last_def
        dtrange_can_append_def dtrange_append_def)
next
  case False
  then show ?thesis by (auto simp: insert_history_local_def Let_def replace_with_1_def split: option.splits)
qed

lemma apply_local_loop_eq:
  assumes "list_all to_ok ops"
  shows "apply_local_loop rp ol br n ops =
    map_option (\<lambda>br. (fst (push_ops ol n ops), br, snd (push_ops ol n ops))) (branch_apply rp br ops)"
  using assms
proof (induction ops arbitrary: ol br n)
  case (Cons op ops)
  have "rr_span (to_loc op) = dtr (dt_start (rr_span (to_loc op))) (dt_start (rr_span (to_loc op)) + to_len op)"
    using Cons.prems
    by (cases "rr_span (to_loc op)") (simp add: to_ok_def op_ok_def op_loc_valid_def rr_valid_def to_len_def rr_len_def dtrange_len_def)
  then show ?case using Cons
    by (cases "to_kind op"; cases "to_content op")
      (auto simp: apply_internal_def Let_def map_option_bind option.map_comp comp_def split: bind_splits)
qed simp


text \<open>
  Local edits through a branch: the document changes as the edits say, and oplog and version are those
  of \<open>add_operations_at\<close> with the branch's version as the parents.
\<close>

theorem apply_local_operations_spec:
  assumes rp: "rope_ok rp doc" and ok: "oplog_ok ol" and a: "agent_known ol a"
    and ops: "ops \<noteq> []" "list_all to_ok ops"
    and v: "sorted_wrt (<) (br_version br)" "\<forall>p \<in> set (br_version br). p < ol_len ol"
    and d: "apply_edits (all_edits ops) (doc (br_content br)) = Some d"
  shows "\<exists>ol' br' t. apply_local_operations rp ol br a ops = Some (ol', br', t) \<and>
    add_operations_at ol a (br_version br) ops = Some (ol', t) \<and> doc (br_content br') = d \<and> br_version br' = [t]"
proof -
  have cg: "cg_ok (ol_cg ol)" and ch: "chain_to ol (ol_len ol)" using ok by (simp_all add: oplog_ok_iff)
  let ?n = "length (all_edits ops)"
  let ?span = "dtr (ol_len ol) (ol_len ol + ?n)"
  have n: "0 < ?n" by (rule all_edits_pos[OF ops])
  obtain br1 where br1: "branch_apply rp br ops = Some br1" "doc (br_content br1) = d" "br_version br1 = br_version br"
    using branch_apply_refines[OF rp ops(2) d] by blast
  obtain ol1 where p: "push_ops ol (ol_len ol) ops = (ol1, ol_len ol + ?n)" "ol_cg ol1 = ol_cg ol"
    using push_ops_spec[OF ch ops(2)] by blast
  obtain ol' t where at: "add_operations_at ol a (br_version br) ops = Some (ol', t)"
    using add_operations_at_spec[OF ok a ops v] by blast
  let ?c = "aa_clients (cg_aa (ol_cg ol)) ! a"
  let ?q = "cd_get_next_seq ?c"
  let ?xs = "fst (rv_push (kv_can_append dtrange_len dtrange_can_append) (kv_append dtrange_append) (cd_lv ?c) (KVPair ?q ?span))"
  let ?aa = "aa_record (cg_aa (ol_cg ol)) a ?xs (ol_len ol) \<lparr>as_agent = a, as_seq = dtr ?q (?q + ?n)\<rparr>"
  have next': "assign_next_time_to_client_known ol1 a ?span = Some (ol1\<lparr>ol_cg := (ol_cg ol)\<lparr>cg_aa := ?aa\<rparr>\<rparr>)"
    using a p(2) by (simp add: assign_next_time_to_client_known_def agent_known_def Let_def dtrange_len_def)
  have aa: "assign_lv_to_client_next_seq (cg_aa (ol_cg ol)) a ?span = Some ?aa"
    using a by (simp add: assign_lv_to_client_next_seq_def aa_record_def agent_known_def Let_def dtrange_len_def)
  obtain g ver where gv: "graph_push (cg_graph (ol_cg ol)) (br_version br) ?span = Some g"
      "advance_by_known_run (cg_version (ol_cg ol)) (br_version br) ?span = Some ver"
      "ol' = ol1\<lparr>ol_cg := \<lparr>cg_aa = ?aa, cg_graph = g, cg_version = ver\<rparr>\<rparr>" "t = ol_len ol + ?n - 1"
    using at aa p n
    by (auto simp: add_operations_at_def assign_span_def assign_local_op_with_parents_def Let_def dtrange_len_def
        ol_len_def last_lv_def split: option.splits)
  let ?ol2 = "ol1\<lparr>ol_cg := (ol_cg ol)\<lparr>cg_aa := ?aa, cg_version := ver\<rparr>\<rparr>"
  have full: "(ol_cg ol)\<lparr>cg_aa := x, cg_version := z, cg_graph := y\<rparr> = \<lparr>cg_aa = x, cg_graph = y, cg_version = z\<rparr>" for x y z
    by (cases "ol_cg ol") simp
  have "graph_checked (cg_graph (ol_cg ?ol2))" "graph_next_time (cg_graph (ol_cg ?ol2)) = dt_start ?span"
    using cg_okD(3,4)[OF cg] by (simp_all add: ol_len_def)
  from insert_history_local_eq[OF this] have h: "insert_history_local ?ol2 (br_version br) ?span =
      Some (ol', [ol_len ol + ?n - 1])"
    using n v(2) gv(1,3) by (simp add: dtrange_last_def full)
  have "apply_local_loop rp ol br (ol_len ol) ops = Some (ol1, br1, ol_len ol + ?n)"
    by (simp add: apply_local_loop_eq[OF ops(2)] br1(1) p(1))
  then have "apply_local_operations rp ol br a ops = Some (ol', br1\<lparr>br_version := [t]\<rparr>, t)"
    using next' gv(2,4) h n br1(3) by (simp add: apply_local_operations_def Let_def last_lv_def)
  then show ?thesis using at br1(2) by simp
qed


text \<open>
  The two shortcuts of \<open>ListCRDT\<close> set the oplog's version instead of advancing it, which is the same
  when the branch is at the oplog's version.
\<close>

lemma advance_own_version: "advance_by_known_run f f span = Some (replace_with_1 f (dtrange_last span))"
  by (simp add: advance_by_known_run_def replace_with_1_def)

lemma assign_next_version: "assign_next_time_to_client_known ol a span = Some ol' \<Longrightarrow>
    cg_version (ol_cg ol') = cg_version (ol_cg ol)"
  by (auto simp: assign_next_time_to_client_known_def Let_def split: if_splits)

lemma push_op_cg [simp]: "ol_cg (push_op_internal ol n loc kind body) = ol_cg ol"
  by (auto simp: push_op_internal_def Let_def split: option.splits prod.splits)

lemma last_lv_range: "last_lv e = Some t \<Longrightarrow> dtrange_last (dtr s e) = t"
  by (auto simp: last_lv_def dtrange_last_def split: if_splits)

text \<open>What follows the change of the document and the push of one operation, in both forms.\<close>

lemma shortcut_tail:
  assumes "cg_version (ol_cg ol) = v"
  shows "Option.bind (assign_next_time_to_client_known ol a (dtr s e)) (\<lambda>ol. Option.bind (last_lv e) (\<lambda>t.
      map_option (\<lambda>(ol, v'). (ol, br\<lparr>br_version := v'\<rparr>, t))
        (insert_history_local (ol\<lparr>ol_cg := (ol_cg ol)\<lparr>cg_version := replace_with_1 (cg_version (ol_cg ol)) t\<rparr>\<rparr>) v (dtr s e)))) =
    Option.bind (assign_next_time_to_client_known ol a (dtr s e)) (\<lambda>ol.
      Option.bind (advance_by_known_run (cg_version (ol_cg ol)) v (dtr s e)) (\<lambda>ver.
      Option.bind (insert_history_local (ol\<lparr>ol_cg := (ol_cg ol)\<lparr>cg_version := ver\<rparr>\<rparr>) v (dtr s e)) (\<lambda>(ol, v').
        map_option (\<lambda>t. (ol, br\<lparr>br_version := v'\<rparr>, t)) (last_lv e))))"
proof (cases "assign_next_time_to_client_known ol a (dtr s e)")
  case (Some ol')
  then have "cg_version (ol_cg ol') = v" using assign_next_version assms by metis
  then have adv: "advance_by_known_run (cg_version (ol_cg ol')) v (dtr s e) = Some [dtrange_last (dtr s e)]"
    by (simp add: advance_own_version replace_with_1_def)
  show ?thesis
  proof (cases "last_lv e")
    case None
    then show ?thesis by (simp add: Some adv split: bind_splits)
  next
    case t: (Some t)
    have rep: "replace_with_1 f t = [t]" for f by (simp add: replace_with_1_def)
    show ?thesis
      by (cases "insert_history_local (ol'\<lparr>ol_cg := (ol_cg ol')\<lparr>cg_version := [t]\<rparr>\<rparr>) v (dtr s e)")
        (simp_all add: Some t adv last_lv_range rep split_beta)
  qed
qed simp

lemma internal_do_insert_eq:
  assumes "cg_version (ol_cg ol) = br_version br"
  shows "internal_do_insert si rp ol br a pos s = apply_local_operations rp ol br a [new_insert si pos s]"
proof -
  let ?op = "new_insert si pos s"
  have op: "to_len ?op = count_chars si s" "to_kind ?op = Ins" "to_content ?op = Some s"
    "to_loc ?op = rr_from (dtr pos (pos + count_chars si s))" "rr_span (rr_from x) = x" for x
    by (simp_all add: new_insert_def to_len_def rr_len_def rr_from_def dtrange_len_def Let_def)
  show ?thesis
  proof (cases "rp_insert rp (br_content br) pos s")
    case (Some r)
    show ?thesis
      using shortcut_tail[of "push_op_internal ol (ol_len ol) (rr_from (dtr pos (pos + count_chars si s))) Ins (Some s)"
          "br_version br" a "ol_len ol" "ol_len ol + count_chars si s" "br\<lparr>br_content := r\<rparr>"] assms
      by (simp add: internal_do_insert_def apply_local_operations_def Let_def op Some)
  qed (simp add: internal_do_insert_def apply_local_operations_def op)
qed

lemma internal_do_delete_eq:
  assumes "cg_version (ol_cg ol) = br_version br" "dt_start loc \<le> dt_end loc"
  shows "internal_do_delete rp ol br a loc = apply_local_operations rp ol br a [new_delete loc]"
proof -
  let ?op = "new_delete loc"
  have op: "to_len ?op = dtrange_len loc" "to_kind ?op = Del" "to_content ?op = None" "to_loc ?op = rr_from loc"
    "rr_span (rr_from loc) = loc" "dtr (dt_start loc) (dt_start loc + dtrange_len loc) = loc"
    using assms(2) by (simp_all add: new_delete_def new_delete_dt_def to_len_def rr_len_def rr_from_def dtrange_len_def)
  show ?thesis
  proof (cases "rp_remove rp (br_content br) loc")
    case (Some r)
    show ?thesis
      using shortcut_tail[of "push_op_internal ol (ol_len ol) (rr_from loc) Del None"
          "br_version br" a "ol_len ol" "ol_len ol + dtrange_len loc" "br\<lparr>br_content := r\<rparr>"] assms(1)
      by (simp add: internal_do_delete_def apply_local_operations_def Let_def op Some)
  qed (simp add: internal_do_delete_def apply_local_operations_def Let_def op)
qed


section \<open>A document with its history\<close>

text \<open>
  The state of a \<open>ListCRDT\<close> that is only edited locally: the branch is at the oplog's version, and
  replaying all edits of the oplog from the empty document returns the branch's document.
\<close>

definition crdt_ok :: "('r \<Rightarrow> uchar list) \<Rightarrow> 'r list_crdt \<Rightarrow> bool" where
  "crdt_ok doc c \<longleftrightarrow> oplog_ok (cr_oplog c) \<and> br_version (cr_branch c) = cg_version (ol_cg (cr_oplog c)) \<and>
     apply_edits (ol_edits (cr_oplog c)) [] = Some (doc (br_content (cr_branch c)))"

definition crdt_doc :: "('r \<Rightarrow> uchar list) \<Rightarrow> 'r list_crdt \<Rightarrow> uchar list" where
  "crdt_doc doc c = doc (br_content (cr_branch c))"

lemma oplog_new_ok: "oplog_ok oplog_new" "ol_edits oplog_new = []" "ol_len oplog_new = 0"
  using cg_new_ok by (simp_all add: oplog_ok_def oplog_new_def ol_edits_def ol_len_def)

lemma crdt_new_ok: "rope_ok rp doc \<Longrightarrow> crdt_ok doc (crdt_new rp) \<and> crdt_doc doc (crdt_new rp) = []"
  using oplog_new_ok by (simp add: crdt_ok_def crdt_new_def crdt_doc_def branch_new_def rope_okD(1) oplog_new_def cg_new_def)

lemma crdt_apply_local_ok:
  assumes rp: "rope_ok rp doc" and c: "crdt_ok doc c" and a: "agent_known (cr_oplog c) a"
    and ops: "ops \<noteq> []" "list_all to_ok ops" and d: "apply_edits (all_edits ops) (crdt_doc doc c) = Some d"
  shows "\<exists>c' t. crdt_apply_local rp c a ops = Some (c', t) \<and> crdt_ok doc c' \<and> crdt_doc doc c' = d \<and>
    oplog_extends (cr_oplog c) (cr_oplog c') (all_edits ops)"
proof -
  let ?ol = "cr_oplog c" and ?br = "cr_branch c"
  have ok: "oplog_ok ?ol" and v: "br_version ?br = cg_version (ol_cg ?ol)"
    and re: "apply_edits (ol_edits ?ol) [] = Some (doc (br_content ?br))"
    using c by (simp_all add: crdt_ok_def)
  have vs: "sorted_wrt (<) (br_version ?br)" "\<forall>p \<in> set (br_version ?br). p < ol_len ?ol"
    using version_members[of "ol_cg ?ol"] ok by (simp_all add: v oplog_ok_iff ol_len_def)
  obtain ol' br' t where r: "apply_local_operations rp ?ol ?br a ops = Some (ol', br', t)"
    "add_operations_at ?ol a (cg_version (ol_cg ?ol)) ops = Some (ol', t)" "doc (br_content br') = d" "br_version br' = [t]"
    using apply_local_operations_spec[OF rp ok a ops vs d[unfolded crdt_doc_def]] unfolding v by blast
  have ch: "chain_to ?ol (ol_len ?ol)" using ok by (simp add: oplog_ok_iff)
  have e: "oplog_extends ?ol ol' (all_edits ops)" "cg_version (ol_cg ol') = [t]"
    using add_operations_local_spec[OF ok a ops] add_operations_local_eq[OF r(2) ops(2) ch] by auto
  then have "crdt_ok doc \<lparr>cr_branch = br', cr_oplog = ol'\<rparr>"
    using r(3,4) d re by (simp add: crdt_ok_def oplog_extends_def apply_edits_append crdt_doc_def)
  then show ?thesis using r(1,3) e(1) by (simp add: crdt_apply_local_def crdt_pack_def crdt_doc_def)
qed

lemma new_insert_ok:
  assumes "str_indices_ok si" "utf8_valid s" "s \<noteq> []"
  shows "to_ok (new_insert si pos s)"
proof -
  have "str_chars s \<noteq> []" using assms(3) by (cases s) simp_all
  then show ?thesis using assms count_chars_ok[OF assms(1,2)]
    by (simp add: to_ok_def op_ok_def op_loc_valid_def new_insert_def rr_from_def rr_valid_def rr_len_def dtrange_len_def Let_def)
qed

lemma new_insert_edits:
  assumes "str_indices_ok si" "utf8_valid s" "s \<noteq> []"
  shows "apply_edits (all_edits [new_insert si pos s]) d =
    (if pos \<le> length d then Some (take pos d @ str_chars s @ drop pos d) else None)"
  using op_edits_change[OF new_insert_ok[OF assms, unfolded to_ok_def], of pos d]
  by (simp add: to_edits_def new_insert_def change_doc_def rr_from_def Let_def)

lemma new_delete_edits:
  assumes "a < b"
  shows "to_ok (new_delete (dtr a b))"
    "apply_edits (all_edits [new_delete (dtr a b)]) d = (if b \<le> length d then Some (take a d @ drop b d) else None)"
proof -
  show ok: "to_ok (new_delete (dtr a b))"
    using assms by (simp add: to_ok_def op_ok_def op_loc_valid_def new_delete_def new_delete_dt_def rr_from_def rr_valid_def)
  show "apply_edits (all_edits [new_delete (dtr a b)]) d = (if b \<le> length d then Some (take a d @ drop b d) else None)"
    using op_edits_change[OF ok[unfolded to_ok_def], of d]
    by (simp add: to_edits_def new_delete_def new_delete_dt_def change_doc_def rr_from_def)
qed

lemma crdt_insert_ok:
  assumes si: "str_indices_ok si" and rp: "rope_ok rp doc" and c: "crdt_ok doc c" and a: "agent_known (cr_oplog c) a"
    and s: "utf8_valid s" "s \<noteq> []" and pos: "pos \<le> length (crdt_doc doc c)"
  shows "\<exists>c' t. crdt_insert si rp c a pos s = Some (c', t) \<and> crdt_ok doc c' \<and>
    crdt_doc doc c' = take pos (crdt_doc doc c) @ str_chars s @ drop pos (crdt_doc doc c)"
proof -
  have "crdt_insert si rp c a pos s = crdt_apply_local rp c a [new_insert si pos s]"
    using c by (simp add: crdt_insert_def crdt_apply_local_def internal_do_insert_eq crdt_ok_def)
  then show ?thesis
    using crdt_apply_local_ok[OF rp c a, of "[new_insert si pos s]"] new_insert_ok[OF si s] new_insert_edits[OF si s] pos
    by auto
qed

lemma crdt_delete_without_content_ok:
  assumes rp: "rope_ok rp doc" and c: "crdt_ok doc c" and a: "agent_known (cr_oplog c) a"
    and r: "b < e" "e \<le> length (crdt_doc doc c)"
  shows "\<exists>c' t. crdt_delete_without_content rp c a (dtr b e) = Some (c', t) \<and> crdt_ok doc c' \<and>
    crdt_doc doc c' = take b (crdt_doc doc c) @ drop e (crdt_doc doc c)"
proof -
  have "crdt_delete_without_content rp c a (dtr b e) = crdt_apply_local rp c a [new_delete (dtr b e)]"
    using c r(1) by (simp add: crdt_delete_without_content_def crdt_apply_local_def internal_do_delete_eq crdt_ok_def)
  then show ?thesis
    using crdt_apply_local_ok[OF rp c a, of "[new_delete (dtr b e)]"] new_delete_edits[OF r(1)] r(2) by auto
qed

lemma crdt_delete_ok:
  assumes rp: "rope_ok rp doc" and c: "crdt_ok doc c" and a: "agent_known (cr_oplog c) a"
    and r: "b < e" "e \<le> length (crdt_doc doc c)"
  shows "\<exists>c' t. crdt_delete rp c a (dtr b e) = Some (c', t) \<and> crdt_ok doc c' \<and>
    crdt_doc doc c' = take b (crdt_doc doc c) @ drop e (crdt_doc doc c)"
proof -
  let ?d = "crdt_doc doc c"
  let ?op = "new_delete_with_content_range (dtr b e) (concat (take (e - b) (drop b ?d)))"
  have u: "list_all is_uchar (take (e - b) (drop b ?d))"
    using list_all_sub rope_okD(3)[OF rp] by (metis crdt_doc_def)
  have ok: "to_ok ?op" using utf8_valid_uchars[OF u] r
    by (simp add: to_ok_def op_ok_def op_loc_valid_def new_delete_with_content_range_def rr_from_def rr_valid_def rr_len_def dtrange_len_def)
  have e: "apply_edits (all_edits [?op]) ?d = Some (take b ?d @ drop e ?d)"
    using op_edits_change[OF ok[unfolded to_ok_def], of ?d] r(2)
    by (simp add: to_edits_def new_delete_with_content_range_def change_doc_def rr_from_def)
  have "make_delete_op rp (cr_branch c) (dtr b e) = Some ?op"
    using rope_okD(2)[OF rp] rope_okD(6)[OF rp, of b e "br_content (cr_branch c)"] r by (simp add: make_delete_op_def crdt_doc_def)
  then have "crdt_delete rp c a (dtr b e) = crdt_apply_local rp c a [?op]"
    by (simp add: crdt_delete_def branch_delete_def crdt_apply_local_def)
  then show ?thesis using crdt_apply_local_ok[OF rp c a, of "[?op]"] ok e by auto
qed

lemma crdt_agent_ok:
  assumes c: "crdt_ok doc c" and n: "name \<noteq> ROOT_name" "length name < MAX_AGENT_NAME_LENGTH"
  shows "\<exists>c' ag. crdt_get_or_create_agent_id c name = Some (c', ag) \<and> crdt_ok doc c' \<and>
    crdt_doc doc c' = crdt_doc doc c \<and> ol_get_agent_id (cr_oplog c') name = Some ag"
proof -
  let ?ol = "cr_oplog c"
  have ok: "cg_ok (ol_cg ?ol)" "chain_to ?ol (ol_len ?ol)" using c by (simp_all add: crdt_ok_def oplog_ok_iff)
  obtain cg ag where cg: "cg_get_or_create_agent_id (ol_cg ?ol) name = Some (cg, ag)" "cg_ok cg"
    "cg_len cg = cg_len (ol_cg ?ol)" "get_agent_id (cg_aa cg) name = Some ag"
    using cg_get_or_create_spec[OF ok(1) n] by blast
  then obtain aa where aa: "get_or_create_agent_id (cg_aa (ol_cg ?ol)) name = Some (aa, ag)" "cg = (ol_cg ?ol)\<lparr>cg_aa := aa\<rparr>"
    by (auto simp: cg_get_or_create_agent_id_def split: option.splits)
  then have "crdt_get_or_create_agent_id c name = Some (c\<lparr>cr_oplog := ?ol\<lparr>ol_cg := cg\<rparr>\<rparr>, ag)"
    by (simp add: crdt_get_or_create_agent_id_def ol_get_or_create_agent_id_def)
  moreover have "crdt_ok doc (c\<lparr>cr_oplog := ?ol\<lparr>ol_cg := cg\<rparr>\<rparr>)"
    using c ok cg(2,3) aa(2) by (simp add: crdt_ok_def oplog_ok_iff ol_len_def)
  ultimately show ?thesis using cg(4) by (simp add: crdt_doc_def ol_get_agent_id_def)
qed

text \<open>The states a \<open>ListCRDT\<close> reaches by calls of its editing methods with valid arguments.\<close>

inductive crdt_reach :: "str_indices \<Rightarrow> 'r rope_ops \<Rightarrow> 'r list_crdt \<Rightarrow> bool" for si :: str_indices and rp :: "'r rope_ops" where
  reach_new: "crdt_reach si rp (crdt_new rp)"
| reach_agent: "crdt_reach si rp c \<Longrightarrow> name \<noteq> ROOT_name \<Longrightarrow> length name < MAX_AGENT_NAME_LENGTH \<Longrightarrow>
    crdt_get_or_create_agent_id c name = Some (c', ag) \<Longrightarrow> crdt_reach si rp c'"
| reach_insert: "crdt_reach si rp c \<Longrightarrow> agent_known (cr_oplog c) a \<Longrightarrow> utf8_valid s \<Longrightarrow> s \<noteq> [] \<Longrightarrow>
    pos \<le> crdt_len rp c \<Longrightarrow> crdt_insert si rp c a pos s = Some (c', t) \<Longrightarrow> crdt_reach si rp c'"
| reach_delete: "crdt_reach si rp c \<Longrightarrow> agent_known (cr_oplog c) a \<Longrightarrow> b < e \<Longrightarrow> e \<le> crdt_len rp c \<Longrightarrow>
    crdt_delete rp c a (dtr b e) = Some (c', t) \<Longrightarrow> crdt_reach si rp c'"
| reach_delete_without: "crdt_reach si rp c \<Longrightarrow> agent_known (cr_oplog c) a \<Longrightarrow> b < e \<Longrightarrow> e \<le> crdt_len rp c \<Longrightarrow>
    crdt_delete_without_content rp c a (dtr b e) = Some (c', t) \<Longrightarrow> crdt_reach si rp c'"

inductive_cases crdt_reachE: "crdt_reach si rp c"

theorem crdt_reach_ok:
  assumes "str_indices_ok si" "rope_ok rp doc" "crdt_reach si rp c"
  shows "crdt_ok doc c"
  using assms(3)
proof (induction rule: crdt_reach.induct)
  case reach_new
  then show ?case using crdt_new_ok[OF assms(2)] by simp
next
  case (reach_agent c name c' ag)
  then show ?case using crdt_agent_ok[of doc c name] by auto
next
  case (reach_insert c a s pos c' t)
  then have "pos \<le> length (crdt_doc doc c)" by (simp add: crdt_len_def br_len_def rope_okD(2)[OF assms(2)] crdt_doc_def)
  from crdt_insert_ok[OF assms(1,2) reach_insert(7,2-4) this] show ?case using reach_insert(6) by auto
next
  case (reach_delete c a b e c' t)
  then have "e \<le> length (crdt_doc doc c)" by (simp add: crdt_len_def br_len_def rope_okD(2)[OF assms(2)] crdt_doc_def)
  from crdt_delete_ok[OF assms(2) reach_delete(6,2,3) this] show ?case using reach_delete(5) by auto
next
  case (reach_delete_without c a b e c' t)
  then have "e \<le> length (crdt_doc doc c)" by (simp add: crdt_len_def br_len_def rope_okD(2)[OF assms(2)] crdt_doc_def)
  from crdt_delete_without_content_ok[OF assms(2) reach_delete_without(6,2,3) this] show ?case
    using reach_delete_without(5) by auto
qed

end
