(* ===== verification/ListSample.thy ===== *)
theory ListSample
  imports ListEditFacts
begin

text \<open>
  A small oplog: one agent types "hello", backspaces over "lo" and deletes "he" from the front; with it,
  the examples behind two findings.
\<close>

definition sample_ops :: "text_operation list" where
  "sample_ops =
     [\<lparr>to_loc = rrev 0 5 True, to_kind = Ins, to_content = Some [0x68, 0x65, 0x6C, 0x6C, 0x6F]\<rparr>,
      \<lparr>to_loc = rrev 3 5 False, to_kind = Del, to_content = None\<rparr>,
      \<lparr>to_loc = rrev 0 2 True, to_kind = Del, to_content = Some [0x68, 0x65]\<rparr>]"

definition sample_start :: list_oplog where
  "sample_start = fst (the (ol_get_or_create_agent_id oplog_new [0x61]))"

definition sample_oplog :: list_oplog where
  "sample_oplog = fst (the (add_operations_local sample_start 0 sample_ops))"

lemma sample_ops_ok: "list_all to_ok sample_ops" "sample_ops \<noteq> []" "length (all_edits sample_ops) = 9"
  by code_simp+

lemma sample_start_ok: "oplog_ok sample_start" "agent_known sample_start 0" "ol_len sample_start = 0"
  "ol_edits sample_start = []"
proof -
  have "\<exists>c' ag. crdt_get_or_create_agent_id (crdt_new list_rope) [0x61] = Some (c', ag) \<and> crdt_ok Rep_char_list c' \<and>
      ol_get_agent_id (cr_oplog c') [0x61] = Some ag"
    using crdt_agent_ok[of Rep_char_list "crdt_new list_rope" "[0x61]"] crdt_new_ok[OF list_rope_ok]
    by (auto simp: ROOT_name_def MAX_AGENT_NAME_LENGTH_def)
  then show "oplog_ok sample_start"
    by (auto simp: sample_start_def crdt_get_or_create_agent_id_def crdt_ok_def crdt_new_def)
  show "agent_known sample_start 0" "ol_len sample_start = 0" "ol_edits sample_start = []" by code_simp+
qed

lemma sample_oplog_ok: "oplog_ok sample_oplog" "ol_len sample_oplog = 9" "agent_known sample_oplog 0"
proof -
  obtain ol t where "add_operations_local sample_start 0 sample_ops = Some (ol, t)"
    "oplog_extends sample_start ol (all_edits sample_ops)"
    using add_operations_local_spec[OF sample_start_ok(1,2) sample_ops_ok(2,1)] by blast
  then show "oplog_ok sample_oplog" "ol_len sample_oplog = 9"
    using sample_ops_ok(3) sample_start_ok(3) by (simp_all add: sample_oplog_def oplog_extends_def)
  show "agent_known sample_oplog 0" by code_simp
qed

lemma sample_oplog_edits: "ol_edits sample_oplog = all_edits sample_ops"
  by code_simp

lemma sample_oplog_known: "known (ol_cg sample_oplog) 0 q \<longleftrightarrow> q < 9"
proof -
  have "cd_lv (aa_clients (cg_aa (ol_cg sample_oplog)) ! 0) = [KVPair 0 (dtr 0 9)]"
    "length (aa_clients (cg_aa (ol_cg sample_oplog))) = 1"
    by code_simp+
  moreover have "cg_ok (ol_cg sample_oplog)" using sample_oplog_ok(1) by (simp add: oplog_ok_iff)
  ultimately show ?thesis by (subst known_entry) (auto simp: kv_len_def dtrange_len_def)
qed

section \<open>A small document\<close>

lemma add_operations_at_agents:
  assumes "oplog_ok ol" "list_all to_ok ops" "add_operations_at ol a ps ops = Some (ol', v)"
  shows "agent_known ol' b \<longleftrightarrow> agent_known ol b"
proof -
  have "chain_to ol (ol_len ol)" using assms(1) by (simp add: oplog_ok_iff)
  then obtain ol1 n where "push_ops ol (ol_len ol) ops = (ol1, n)" "ol_cg ol1 = ol_cg ol"
    using push_ops_spec[OF _ assms(2)] by blast
  then show ?thesis using assms(3)
    by (auto simp: add_operations_at_def assign_span_def assign_local_op_with_parents_def Let_def agent_known_def
        assign_lv_to_client_next_seq_def split: option.splits if_splits)
qed

lemma crdt_apply_local_agents:
  assumes "rope_ok rp doc" "crdt_ok doc c" "agent_known (cr_oplog c) a" "ops \<noteq> []" "list_all to_ok ops"
    and "apply_edits (all_edits ops) (crdt_doc doc c) = Some d" "crdt_apply_local rp c a ops = Some (c', t)"
  shows "agent_known (cr_oplog c') b \<longleftrightarrow> agent_known (cr_oplog c) b"
proof -
  have ok: "oplog_ok (cr_oplog c)" and v: "br_version (cr_branch c) = cg_version (ol_cg (cr_oplog c))"
    using assms(2) by (simp_all add: crdt_ok_def)
  have vs: "sorted_wrt (<) (br_version (cr_branch c))" "\<forall>p \<in> set (br_version (cr_branch c)). p < ol_len (cr_oplog c)"
    using version_members[of "ol_cg (cr_oplog c)"] ok by (simp_all add: v oplog_ok_iff ol_len_def)
  obtain ol' br' t' where "apply_local_operations rp (cr_oplog c) (cr_branch c) a ops = Some (ol', br', t')"
    "add_operations_at (cr_oplog c) a (br_version (cr_branch c)) ops = Some (ol', t')"
    using apply_local_operations_spec[OF assms(1) ok assms(3-5) vs assms(6)[unfolded crdt_doc_def]] by blast
  then show ?thesis using assms(7) add_operations_at_agents[OF ok assms(5)]
    by (auto simp: crdt_apply_local_def crdt_pack_def)
qed

lemma sample_crdt:
  "\<exists>c. crdt_reach si_scan list_rope c \<and> crdt_doc Rep_char_list c = [[0x68], [0x69]] \<and> agent_known (cr_oplog c) 0"
proof -
  let ?n = "crdt_new list_rope" and ?op = "new_insert si_scan 0 [0x68, 0x69]"
  obtain c1 ag where c1: "crdt_get_or_create_agent_id ?n [0x61] = Some (c1, ag)" "crdt_ok Rep_char_list c1"
      "crdt_doc Rep_char_list c1 = []"
    using crdt_agent_ok[of Rep_char_list ?n "[0x61]"] crdt_new_ok[OF list_rope_ok]
    by (auto simp: ROOT_name_def MAX_AGENT_NAME_LENGTH_def)
  have r1: "crdt_reach si_scan list_rope c1"
    by (rule reach_agent[OF reach_new _ _ c1(1)]) (simp_all add: ROOT_name_def MAX_AGENT_NAME_LENGTH_def)
  have k: "agent_known (cr_oplog c1) 0"
    using c1(1) sample_start_ok(2)
    by (auto simp: crdt_get_or_create_agent_id_def crdt_new_def sample_start_def split: option.splits)
  have s: "utf8_valid [0x68, 0x69]" "str_chars [0x68, 0x69] = [[0x68], [0x69]]" by code_simp+
  note op = new_insert_ok[OF si_scan_ok s(1), of 0] new_insert_edits[OF si_scan_ok s(1), of 0]
  obtain c2 t where c2: "crdt_insert si_scan list_rope c1 0 0 [0x68, 0x69] = Some (c2, t)"
      "crdt_doc Rep_char_list c2 = [[0x68], [0x69]]"
    using crdt_insert_ok[OF si_scan_ok list_rope_ok c1(2) k s(1)] c1(3) s(2) by auto
  have "crdt_reach si_scan list_rope c2"
    by (rule reach_insert[OF r1 k s(1) _ _ c2(1)]) simp_all
  moreover have "crdt_apply_local list_rope c1 0 [?op] = Some (c2, t)"
    using c2(1) c1(2) by (simp add: crdt_insert_def crdt_apply_local_def internal_do_insert_eq crdt_ok_def)
  then have "agent_known (cr_oplog c2) 0"
    using crdt_apply_local_agents[OF list_rope_ok c1(2) k, of "[?op]"] op k by simp
  ultimately show ?thesis using c2(2) by blast
qed

section \<open>Findings\<close>

text \<open>
  A forward delete of five characters at 10 of which a peer knows the first two: the rest deletes three
  characters at 10, but what is stored deletes them at 12.
\<close>

lemma remote_forward_delete:
  "let op = new_delete (dtr 10 15)
   in rr_span (fst (default_truncate_keeping_right rr_truncate (to_loc op) 2)) = dtr 12 15 \<and>
      rr_span (to_loc (snd (to_truncate si_scan op 2))) = dtr 10 13"
  by code_simp

text \<open>An empty range that does not start at 0 yields an operation: an insert of nothing.\<close>

lemma sample_oplog_values:
  "ol_operations sample_oplog =
     [KVPair 0 \<lparr>om_loc = rrev 0 5 True, om_kind = Ins, om_content_pos = Some (dtr 0 5)\<rparr>,
      KVPair 5 \<lparr>om_loc = rrev 3 5 False, om_kind = Del, om_content_pos = None\<rparr>,
      KVPair 7 \<lparr>om_loc = rrev 0 2 True, om_kind = Del, om_content_pos = Some (dtr 0 2)\<rparr>]"
  "ol_ctx sample_oplog = \<lparr>ins_content = [0x68, 0x65, 0x6C, 0x6C, 0x6F], del_content = [0x68, 0x65]\<rparr>"
  by code_simp+

lemma iter_empty_range:
  "\<exists>it x. with_content_next si (with_content_new sample_oplog (dtr 3 3)) = Some (it, Some x) \<and>
     om_loc (kv_val (fst x)) = rrev 3 3 True"
  by (simp add: with_content_new_def metrics_iter_new_def metrics_prime_def with_content_next_def metrics_next_def
      iter_get_content_def get_content_def get_str_def ctx_switch_def list_switch_def sample_oplog_values
      om_truncate_ctx_def om_truncate_keeping_right_ctx_def om_len_def rr_defs span_defs Let_def)

text \<open>
  The empty version contains nothing, but \<open>version_contains_lv\<close> says it contains every version, which
  \<open>frontier_contains_version\<close> denies.
\<close>

lemma empty_version_contains:
  "version_contains_lv sample_oplog [] 3 = Some True"
  "frontier_contains_version (cg_graph (ol_cg sample_oplog)) [] 3 = Some False"
  by code_simp+

end
