(* ===== verification/OstBase.thy ===== *)
theory OstBase
  imports RangeRev "HOL-Library.Monad_Syntax"
begin

text \<open>
  \<open>src/ost/mod.rs\<close>: what the two order statistic trees share.  Leaves and nodes of a tree live in two
  vectors and refer to each other by index; the index \<open>usize::MAX\<close> stands for none (a missing child, the
  parent of the root, the end of the chain of leaves).  The arrays of a node have a fixed size.

  A lookup out of range is a panic, \<open>None\<close>.
\<close>

definition NODE_CHILDREN :: nat where "NODE_CHILDREN = 16"
definition LEAF_CHILDREN :: nat where "LEAF_CHILDREN = 32"
definition NODE_SPLIT_POINT :: nat where "NODE_SPLIT_POINT = NODE_CHILDREN div 2"
definition LEAF_SPLIT_POINT :: nat where "LEAF_SPLIT_POINT = LEAF_CHILDREN div 2"

definition idx_exists :: "nat \<Rightarrow> bool" where
  "idx_exists i \<longleftrightarrow> i \<noteq> usize_max"

definition is_root :: "nat \<Rightarrow> bool" where
  "is_root i \<longleftrightarrow> i = usize_max"

text \<open>A subtraction of lengths that underflows panics.\<close>

definition checked_sub :: "nat \<Rightarrow> nat \<Rightarrow> nat option" where
  "checked_sub a b = (if b \<le> a then Some (a - b) else None)"

section \<open>Arrays\<close>

definition get_at :: "'a list \<Rightarrow> nat \<Rightarrow> 'a option" where
  "get_at xs i = (if i < length xs then Some (xs ! i) else None)"

definition set_at :: "'a list \<Rightarrow> nat \<Rightarrow> 'a \<Rightarrow> 'a list option" where
  "set_at xs i v = (if i < length xs then Some (xs[i := v]) else None)"

text \<open>\<open>slice::copy_within\<close>: copies \<open>xs[a..b]\<close> over what starts at \<open>d\<close>.\<close>

definition copy_within :: "'a list \<Rightarrow> nat \<Rightarrow> nat \<Rightarrow> nat \<Rightarrow> 'a list option" where
  "copy_within xs a b d =
     (if a \<le> b \<and> b \<le> length xs \<and> d + (b - a) \<le> length xs
      then Some (take d xs @ take (b - a) (drop a xs) @ drop (d + (b - a)) xs) else None)"

fun position :: "('a \<Rightarrow> bool) \<Rightarrow> 'a list \<Rightarrow> nat option" where
  "position P [] = None"
| "position P (x # xs) = (if P x then Some 0 else map_option Suc (position P xs))"

definition remove_from_array :: "'a list \<Rightarrow> dtrange \<Rightarrow> 'a list option" where
  "remove_from_array a del_range = copy_within a (dt_end del_range) (length a) (dt_start del_range)"

definition remove_from_array_fill :: "'a list \<Rightarrow> dtrange \<Rightarrow> 'a \<Rightarrow> 'a list option" where
  "remove_from_array_fill a del_range fill =
     do {
       a \<leftarrow> copy_within a (dt_end del_range) (length a) (dt_start del_range);
       let n = dtrange_len del_range;
       if n \<le> length a then Some (take (length a - n) a @ replicate n fill) else None
     }"

section \<open>Lengths\<close>

text \<open>
  Every item has two lengths, now and at the end; a \<open>LenUpdate\<close> is a pending change of both.  The unsigned
  sums wrap around.
\<close>

record len_pair =
  lp_cur :: nat
  lp_end :: nat

record len_update =
  lu_cur :: int
  lu_end :: int

definition lp_zero :: len_pair where
  "lp_zero = \<lparr>lp_cur = 0, lp_end = 0\<rparr>"

definition lu_zero :: len_update where
  "lu_zero = \<lparr>lu_cur = 0, lu_end = 0\<rparr>"

definition lp_new :: "nat \<Rightarrow> nat \<Rightarrow> len_pair" where
  "lp_new cur end' = \<lparr>lp_cur = cur, lp_end = end'\<rparr>"

definition wrapping_add_signed :: "nat \<Rightarrow> int \<Rightarrow> nat" where
  "wrapping_add_signed n i = nat ((int n + i) mod (int usize_max + 1))"

definition lp_update_by :: "len_pair \<Rightarrow> len_update \<Rightarrow> len_pair" where
  "lp_update_by self upd =
     \<lparr>lp_cur = wrapping_add_signed (lp_cur self) (lu_cur upd),
      lp_end = wrapping_add_signed (lp_end self) (lu_end upd)\<rparr>"

definition lp_add :: "len_pair \<Rightarrow> len_pair \<Rightarrow> len_pair" where
  "lp_add a b = \<lparr>lp_cur = lp_cur a + lp_cur b, lp_end = lp_end a + lp_end b\<rparr>"

definition lp_sub :: "len_pair \<Rightarrow> len_pair \<Rightarrow> len_pair option" where
  "lp_sub a b =
     (if lp_cur b \<le> lp_cur a \<and> lp_end b \<le> lp_end a
      then Some \<lparr>lp_cur = lp_cur a - lp_cur b, lp_end = lp_end a - lp_end b\<rparr> else None)"

definition lp_sum :: "len_pair list \<Rightarrow> len_pair" where
  "lp_sum xs = fold (\<lambda>i aggregate. lp_add aggregate i) xs lp_zero"

definition lu_is_empty :: "len_update \<Rightarrow> bool" where
  "lu_is_empty self \<longleftrightarrow> lu_cur self = 0 \<and> lu_end self = 0"

section \<open>Facts\<close>

lemmas lp_simps = lp_zero_def lu_zero_def lp_new_def lp_add_def lp_sub_def

lemma lp_eqI: "lp_cur a = lp_cur b \<Longrightarrow> lp_end a = lp_end b \<Longrightarrow> a = (b :: len_pair)"
  by simp

lemma lp_add_simps [simp]:
  "lp_cur (lp_add a b) = lp_cur a + lp_cur b" "lp_end (lp_add a b) = lp_end a + lp_end b"
  "lp_cur lp_zero = 0" "lp_end lp_zero = 0"
  "lu_cur lu_zero = 0" "lu_end lu_zero = 0"
  by (simp_all add: lp_simps)

lemma lp_add_assoc: "lp_add (lp_add a b) c = lp_add a (lp_add b c)"
  by (simp add: lp_add_def)

lemma lp_add_zero [simp]: "lp_add lp_zero a = a" "lp_add a lp_zero = a"
  by (simp_all add: lp_add_def lp_zero_def)

lemma lp_sum_simps [simp]:
  "lp_sum [] = lp_zero" "lp_sum (x # xs) = lp_add x (lp_sum xs)"
proof -
  have "fold (\<lambda>i aggregate. lp_add aggregate i) xs a = lp_add a (fold (\<lambda>i aggregate. lp_add aggregate i) xs lp_zero)"
    for a and xs :: "len_pair list"
  proof (induction xs arbitrary: a)
    case (Cons x xs)
    show ?case using Cons[of "lp_add a x"] Cons[of "lp_add lp_zero x"] by (simp add: lp_add_assoc)
  qed simp
  from this[of xs "lp_add lp_zero x"] show "lp_sum (x # xs) = lp_add x (lp_sum xs)" by (simp add: lp_sum_def)
qed (simp add: lp_sum_def)

lemma lp_sum_append [simp]: "lp_sum (xs @ ys) = lp_add (lp_sum xs) (lp_sum ys)"
  by (induction xs) (simp_all add: lp_add_assoc)

lemma lp_sum_fields: "lp_cur (lp_sum xs) = sum_list (map lp_cur xs)" "lp_end (lp_sum xs) = sum_list (map lp_end xs)"
  by (induction xs) simp_all

lemma wrapping_add_signed_exact:
  "0 \<le> int n + i \<Longrightarrow> int n + i \<le> int usize_max \<Longrightarrow> wrapping_add_signed n i = nat (int n + i)"
  by (simp add: wrapping_add_signed_def)

lemma position_append: "\<forall>y \<in> set ys. \<not> P y \<Longrightarrow> P x \<Longrightarrow> position P (ys @ x # zs) = Some (length ys)"
  by (induction ys) simp_all

lemma position_nth:
  assumes "i < length xs" "P (xs ! i)" "\<forall>j < i. \<not> P (xs ! j)"
  shows "position P xs = Some i"
proof -
  have "\<forall>y \<in> set (take i xs). \<not> P y" using assms(3) by (auto simp: in_set_conv_nth)
  from position_append[OF this assms(2), of "drop (Suc i) xs"] show ?thesis
    using assms(1) by (simp add: id_take_nth_drop[symmetric])
qed

lemma position_distinct: "distinct xs \<Longrightarrow> i < length xs \<Longrightarrow> position (\<lambda>x. x = xs ! i) xs = Some i"
  by (rule position_nth) (auto simp: nth_eq_iff_index_eq)

lemma copy_within_simp:
  "a \<le> b \<Longrightarrow> b \<le> length xs \<Longrightarrow> d + (b - a) \<le> length xs \<Longrightarrow>
    copy_within xs a b d = Some (take d xs @ take (b - a) (drop a xs) @ drop (d + (b - a)) xs)"
  by (simp add: copy_within_def)

text \<open>Making room for one or two elements in front of index \<open>a\<close>.\<close>

lemma shift_one:
  assumes "a < n" "n \<le> length xs"
  shows "\<exists>ys. copy_within xs a (n - 1) (a + 1) = Some ys \<and> length ys = length xs \<and>
    ys[a := v] = take a xs @ v # take (n - 1 - a) (drop a xs) @ drop n xs"
proof -
  have "copy_within xs a (n - 1) (a + 1) = Some (take (Suc a) xs @ take (n - 1 - a) (drop a xs) @ drop n xs)"
    using assms by (cases n) (simp_all add: copy_within_def)
  then show ?thesis using assms by (simp add: take_Suc_conv_app_nth list_update_append)
qed

lemma shift_two:
  assumes "Suc a < n" "n \<le> length xs"
  shows "\<exists>ys. copy_within xs a (n - 2) (a + 2) = Some ys \<and> length ys = length xs \<and>
    ys[a := v, Suc a := w] = take a xs @ v # w # take (n - 2 - a) (drop a xs) @ drop n xs"
proof -
  obtain m where "n = Suc (Suc m)" using assms(1) by (cases n; cases "n - 1") auto
  then have "copy_within xs a (n - 2) (a + 2) = Some (take (Suc (Suc a)) xs @ take (n - 2 - a) (drop a xs) @ drop n xs)"
    using assms by (simp add: copy_within_def)
  then show ?thesis using assms by (simp add: take_Suc_conv_app_nth list_update_append)
qed

text \<open>Lists of nodes.\<close>

lemma concat_map_at:
  assumes "concat (map f L) = A @ x # B" "p \<in> set L" "x \<in> set (f p)" "distinct (A @ x # B)"
  obtains L1 L2 a b where "L = L1 @ p # L2" "f p = a @ x # b" "A = concat (map f L1) @ a" "B = b @ concat (map f L2)"
proof -
  obtain L1 L2 where L: "L = L1 @ p # L2" using assms(2) by (meson split_list)
  obtain a b where f: "f p = a @ x # b" using assms(3) by (meson split_list)
  have e: "(concat (map f L1) @ a) @ x # (b @ concat (map f L2)) = A @ x # B" using assms(1) by (simp add: L f)
  have d: "distinct ((concat (map f L1) @ a) @ x # (b @ concat (map f L2)))" using assms(4) by (simp only: e)
  have "x \<notin> set (concat (map f L1) @ a)" "x \<notin> set (b @ concat (map f L2))" using d by simp_all
  from append_Cons_eq_iff[THEN iffD1, OF this e] have "concat (map f L1) @ a = A" "b @ concat (map f L2) = B"
    by blast+
  then show thesis using that[OF L f] by simp
qed

lemma distinct_concat_mapD:
  assumes "distinct (concat (map f L))" "p \<in> set L"
  shows "distinct (f p)" "n \<in> set L \<Longrightarrow> n \<noteq> p \<Longrightarrow> c \<in> set (f n) \<Longrightarrow> c \<notin> set (f p)"
  using assms by (induction L) auto

lemma NODE_SPLIT: "NODE_CHILDREN - NODE_SPLIT_POINT = NODE_SPLIT_POINT" "0 < NODE_SPLIT_POINT" "NODE_SPLIT_POINT < NODE_CHILDREN"
  "NODE_CHILDREN = NODE_SPLIT_POINT + NODE_SPLIT_POINT"
  by (simp_all add: NODE_CHILDREN_def NODE_SPLIT_POINT_def)

lemma distinct_insert_mid: "distinct (A @ p # n # B) \<longleftrightarrow> n \<notin> set (A @ p # B) \<and> distinct (A @ p # B)"
  by auto

lemma mid_unique:
  assumes "distinct (a @ x # b)" "a @ x # b = a' @ x # b'"
  shows "a' = a"
proof -
  have "x \<notin> set a" "x \<notin> set b" using assms(1) by simp_all
  then show ?thesis using append_Cons_eq_iff[of x a b a' b'] assms(2) by blast
qed

lemma half_pos:
  assumes "ks = a @ x # b" "distinct ks"
  shows "length a < H \<Longrightarrow> x \<in> set (take H ks) \<and> (\<forall>a' b'. take H ks = a' @ x # b' \<longrightarrow> a' = a)"
    and "H \<le> length a \<Longrightarrow> x \<in> set (drop H ks) \<and> (\<forall>a' b'. drop H ks = a' @ x # b' \<longrightarrow> length a' = length a - H)"
proof -
  have d: "distinct (take H ks)" "distinct (drop H ks)" using assms(2) by simp_all
  {
    assume H: "length a < H"
    have q: "take H ks = a @ x # take (H - Suc (length a)) b" using H assms(1) by (simp add: take_Cons')
    then show "x \<in> set (take H ks) \<and> (\<forall>a' b'. take H ks = a' @ x # b' \<longrightarrow> a' = a)"
      using mid_unique d(1) by (metis in_set_conv_decomp)
  next
    assume H: "H \<le> length a"
    have q: "drop H ks = drop H a @ x # b" using H assms(1) by simp
    then show "x \<in> set (drop H ks) \<and> (\<forall>a' b'. drop H ks = a' @ x # b' \<longrightarrow> length a' = length a - H)"
      using mid_unique d(2) by (metis in_set_conv_decomp length_drop)
  }
qed

end
