(* ===== verification/ContentTree.thy ===== *)
theory ContentTree
  imports OstBase
begin

text \<open>
  \<open>src/ost/content_tree.rs\<close>: a B-tree that holds a sequence of run-length items and finds them by position.
  The leaves hold the items and are chained; every inner node stores the summed lengths of each child,
  and every node its parent, so that changes are propagated upwards.  A cursor carries the pending change of
  the lengths of its leaf (\<open>delta\<close>), which is flushed when the cursor leaves it.

  The trait \<open>Content\<close> is the record \<open>content_ops\<close> of its methods and those of the span traits it
  extends.  A callback \<open>notify\<close> is the list of its calls.  A panic is \<open>None\<close>; so is a loop up the
  parents that does not end.
\<close>

record 'v content_ops =
  c_len :: "'v \<Rightarrow> nat"
  c_exists :: "'v \<Rightarrow> bool"
  c_takes_cur :: "'v \<Rightarrow> bool"
  c_takes_end :: "'v \<Rightarrow> bool"
  c_none :: 'v
  c_truncate :: "'v \<Rightarrow> nat \<Rightarrow> 'v \<times> 'v"
  c_truncate_keeping_right :: "'v \<Rightarrow> nat \<Rightarrow> 'v \<times> 'v"
  c_can_append :: "'v \<Rightarrow> 'v \<Rightarrow> bool"
  c_append :: "'v \<Rightarrow> 'v \<Rightarrow> 'v"
  c_prepend :: "'v \<Rightarrow> 'v \<Rightarrow> 'v"
  c_get_offset :: "'v \<Rightarrow> lv \<Rightarrow> nat option"

definition content_len_cur :: "'v content_ops \<Rightarrow> 'v \<Rightarrow> nat" where
  "content_len_cur C x = (if c_takes_cur C x then c_len C x else 0)"

definition content_len_end :: "'v content_ops \<Rightarrow> 'v \<Rightarrow> nat" where
  "content_len_end C x = (if c_takes_end C x then c_len C x else 0)"

definition content_len_pair :: "'v content_ops \<Rightarrow> 'v \<Rightarrow> len_pair" where
  "content_len_pair C x = \<lparr>lp_cur = content_len_cur C x, lp_end = content_len_end C x\<rparr>"

section \<open>The tree\<close>

record content_cursor =
  cc_leaf :: nat
  cc_elem :: nat
  cc_offset :: nat

type_synonym delta_cursor = "content_cursor \<times> len_update"

record 'v content_leaf =
  cl_children :: "'v list"
  cl_next :: nat
  cl_parent :: nat

record content_node =
  cn_indexes :: "nat list"
  cn_width :: "len_pair list"
  cn_parent :: nat

record 'v content_tree =
  ct_leaves :: "'v content_leaf list"
  ct_nodes :: "content_node list"
  ct_height :: nat
  ct_root :: nat
  ct_total :: len_pair
  ct_cursor :: "(len_pair option \<times> delta_cursor) option"

definition cursor_default :: content_cursor where
  "cursor_default = \<lparr>cc_leaf = 0, cc_elem = 0, cc_offset = 0\<rparr>"

definition initial_root_leaf :: "'v content_ops \<Rightarrow> 'v content_leaf" where
  "initial_root_leaf C =
     \<lparr>cl_children = replicate LEAF_CHILDREN (c_none C), cl_next = usize_max, cl_parent = usize_max\<rparr>"

definition cl_has_space :: "'v content_ops \<Rightarrow> 'v content_leaf \<Rightarrow> nat \<Rightarrow> bool" where
  "cl_has_space C self space_wanted \<longleftrightarrow>
     space_wanted = 0 \<or> \<not> c_exists C (cl_children self ! (LEAF_CHILDREN - space_wanted))"

definition cl_is_last :: "'v content_leaf \<Rightarrow> bool" where
  "cl_is_last self \<longleftrightarrow> \<not> idx_exists (cl_next self)"

definition cn_is_full :: "content_node \<Rightarrow> bool" where
  "cn_is_full self \<longleftrightarrow> last (cn_indexes self) \<noteq> usize_max"

definition idx_of_child :: "content_node \<Rightarrow> nat \<Rightarrow> nat option" where
  "idx_of_child self child = position (\<lambda>i. i = child) (cn_indexes self)"

definition ct_leaf :: "'v content_tree \<Rightarrow> nat \<Rightarrow> 'v content_leaf option" where
  "ct_leaf t i = get_at (ct_leaves t) i"

definition ct_node :: "'v content_tree \<Rightarrow> nat \<Rightarrow> content_node option" where
  "ct_node t i = get_at (ct_nodes t) i"

definition ct_set_leaf :: "'v content_tree \<Rightarrow> nat \<Rightarrow> 'v content_leaf \<Rightarrow> 'v content_tree" where
  "ct_set_leaf t i l = t\<lparr>ct_leaves := (ct_leaves t)[i := l]\<rparr>"

definition ct_set_node :: "'v content_tree \<Rightarrow> nat \<Rightarrow> content_node \<Rightarrow> 'v content_tree" where
  "ct_set_node t i n = t\<lparr>ct_nodes := (ct_nodes t)[i := n]\<rparr>"

definition inc_delta_update :: "'v content_ops \<Rightarrow> len_update \<Rightarrow> 'v \<Rightarrow> len_update" where
  "inc_delta_update C delta e =
     \<lparr>lu_cur = lu_cur delta + int (content_len_cur C e), lu_end = lu_end delta + int (content_len_end C e)\<rparr>"

definition dec_delta_update :: "'v content_ops \<Rightarrow> len_update \<Rightarrow> 'v \<Rightarrow> len_update" where
  "dec_delta_update C delta e =
     \<lparr>lu_cur = lu_cur delta - int (content_len_cur C e), lu_end = lu_end delta - int (content_len_end C e)\<rparr>"

definition ct_new :: "'v content_ops \<Rightarrow> 'v content_tree" where
  "ct_new C = \<lparr>ct_leaves = [initial_root_leaf C], ct_nodes = [], ct_height = 0, ct_root = 0,
     ct_total = lp_zero, ct_cursor = None\<rparr>"

definition ct_clear :: "'v content_ops \<Rightarrow> 'v content_tree \<Rightarrow> 'v content_tree" where
  "ct_clear C self = \<lparr>ct_leaves = [] @ [initial_root_leaf C], ct_nodes = [], ct_height = 0, ct_root = 0,
     ct_total = lp_zero, ct_cursor = None\<rparr>"

definition set_single_item_notify :: "'v content_ops \<Rightarrow> 'v content_tree \<Rightarrow> 'v
    \<Rightarrow> ('v content_tree \<times> ('v \<times> nat) list) option" where
  "set_single_item_notify C self item =
     do {
       leaf \<leftarrow> ct_leaf self 0;
       children \<leftarrow> set_at (cl_children leaf) 0 item;
       Some (ct_set_leaf (self\<lparr>ct_total := content_len_pair C item\<rparr>) 0 (leaf\<lparr>cl_children := children\<rparr>),
             [(item, 0)])
     }"

definition total_len :: "'v content_tree \<Rightarrow> len_pair" where
  "total_len self =
     (case ct_cursor self of None \<Rightarrow> ct_total self | Some (_, (_, flush)) \<Rightarrow> lp_update_by (ct_total self) flush)"

section \<open>Flushing\<close>

partial_function (option) flush_up :: "content_node list \<Rightarrow> nat \<Rightarrow> nat \<Rightarrow> len_update \<Rightarrow> content_node list option" where
  "flush_up nodes idx child delta =
     (if is_root idx then Some nodes
      else do {
        n \<leftarrow> get_at nodes idx;
        pos \<leftarrow> idx_of_child n child;
        let pos = pos mod length (cn_width n);
        w \<leftarrow> get_at (cn_width n) pos;
        flush_up (nodes[idx := n\<lparr>cn_width := (cn_width n)[pos := lp_update_by w delta]\<rparr>]) (cn_parent n) idx delta
      })"

definition flush_delta_len :: "'v content_tree \<Rightarrow> nat \<Rightarrow> len_update \<Rightarrow> 'v content_tree option" where
  "flush_delta_len self leaf_idx delta =
     (if lu_is_empty delta then Some self
      else do {
        leaf \<leftarrow> ct_leaf self leaf_idx;
        nodes \<leftarrow> flush_up (ct_nodes self) (cl_parent leaf) leaf_idx delta;
        Some (self\<lparr>ct_nodes := nodes, ct_total := lp_update_by (ct_total self) delta\<rparr>)
      })"

definition flush_delta_and_clear :: "'v content_tree \<Rightarrow> nat \<Rightarrow> len_update \<Rightarrow> ('v content_tree \<times> len_update) option" where
  "flush_delta_and_clear self leaf_idx delta = map_option (\<lambda>t. (t, lu_zero)) (flush_delta_len self leaf_idx delta)"

section \<open>Cursors\<close>

definition cc_next_entry :: "'v content_ops \<Rightarrow> content_cursor \<Rightarrow> 'v content_tree
    \<Rightarrow> (content_cursor \<times> bool \<times> nat option) option" where
  "cc_next_entry C self tree =
     do {
       leaf \<leftarrow> ct_leaf tree (cc_leaf self);
       let elem = cc_elem self + 1;
       if elem \<ge> length (cl_children leaf) \<or> \<not> c_exists C (cl_children leaf ! elem)
       then Some (\<lparr>cc_leaf = cl_next leaf, cc_elem = 0, cc_offset = 0\<rparr>, idx_exists (cl_next leaf), Some (cc_leaf self))
       else Some (self\<lparr>cc_elem := elem, cc_offset := 0\<rparr>, True, None)
     }"

definition cc_roll_next_item :: "'v content_ops \<Rightarrow> content_cursor \<Rightarrow> 'v content_tree
    \<Rightarrow> (content_cursor \<times> bool \<times> nat option) option" where
  "cc_roll_next_item C self tree =
     do {
       leaf \<leftarrow> ct_leaf tree (cc_leaf self);
       e \<leftarrow> get_at (cl_children leaf) (cc_elem self);
       if cc_offset self < c_len C e then Some (self, True, None) else cc_next_entry C self tree
     }"

definition inc_offset :: "content_cursor \<Rightarrow> content_cursor" where
  "inc_offset self = self\<lparr>cc_offset := cc_offset self + 1\<rparr>"

definition get_item :: "content_cursor \<Rightarrow> 'v content_tree \<Rightarrow> ('v \<times> nat) option" where
  "get_item self tree =
     do {
       leaf \<leftarrow> ct_leaf tree (cc_leaf self);
       e \<leftarrow> get_at (cl_children leaf) (cc_elem self);
       Some (e, cc_offset self)
     }"

text \<open>The position of a cursor, which debug builds compute to check the cached one.\<close>

partial_function (option) get_pos_up :: "content_node list \<Rightarrow> nat \<Rightarrow> nat \<Rightarrow> len_pair \<Rightarrow> len_pair option" where
  "get_pos_up nodes p last_child result =
     (if is_root p then Some result
      else do {
        node \<leftarrow> get_at nodes p;
        let before = length (takeWhile (\<lambda>i. i \<noteq> last_child) (cn_indexes node));
        get_pos_up nodes (cn_parent node) p (lp_add result (lp_sum (take before (cn_width node))))
      })"

definition get_pos :: "'v content_ops \<Rightarrow> content_cursor \<Rightarrow> 'v content_tree \<Rightarrow> len_pair option" where
  "get_pos C self tree =
     do {
       leaf \<leftarrow> ct_leaf tree (cc_leaf self);
       e \<leftarrow> get_at (cl_children leaf) (cc_elem self);
       let result = \<lparr>lp_cur = (if c_takes_cur C e then cc_offset self else 0),
                     lp_end = (if c_takes_end C e then cc_offset self else 0)\<rparr>;
       let result = lp_add result (lp_sum (map (content_len_pair C) (take (cc_elem self) (cl_children leaf))));
       get_pos_up (ct_nodes tree) (cl_parent leaf) (cc_leaf self) result
     }"

partial_function (option) cmp_up :: "content_node list \<Rightarrow> nat \<Rightarrow> nat \<Rightarrow> nat \<Rightarrow> nat \<Rightarrow> ordering option" where
  "cmp_up nodes c1 n1 c2 n2 =
     (if n1 \<noteq> n2
      then do {
        a \<leftarrow> get_at nodes n1;
        b \<leftarrow> get_at nodes n2;
        cmp_up nodes n1 (cn_parent a) n2 (cn_parent b)
      }
      else do {
        node \<leftarrow> get_at nodes n1;
        i \<leftarrow> idx_of_child node c1;
        j \<leftarrow> idx_of_child node c2;
        Some (cmp i j)
      })"

definition cc_cmp :: "content_cursor \<Rightarrow> content_cursor \<Rightarrow> 'v content_tree \<Rightarrow> ordering option" where
  "cc_cmp self other tree =
     (if cc_leaf self = cc_leaf other
      then Some (ord_then (cmp (cc_elem self) (cc_elem other)) (cmp (cc_offset self) (cc_offset other)))
      else do {
        a \<leftarrow> ct_leaf tree (cc_leaf self);
        b \<leftarrow> ct_leaf tree (cc_leaf other);
        cmp_up (ct_nodes tree) (cc_leaf self) (cl_parent a) (cc_leaf other) (cl_parent b)
      })"

definition dc_roll_next_item :: "'v content_ops \<Rightarrow> delta_cursor \<Rightarrow> 'v content_tree
    \<Rightarrow> ('v content_tree \<times> delta_cursor \<times> bool) option" where
  "dc_roll_next_item C self tree =
     do {
       (c, has_next, flush_leaf) \<leftarrow> cc_roll_next_item C (fst self) tree;
       (case flush_leaf of
          None \<Rightarrow> Some (tree, (c, snd self), has_next)
        | Some leaf \<Rightarrow> do { (tree, delta) \<leftarrow> flush_delta_and_clear tree leaf (snd self); Some (tree, (c, delta), has_next) })
     }"

definition dc_flush :: "delta_cursor \<Rightarrow> 'v content_tree \<Rightarrow> 'v content_tree option" where
  "dc_flush self tree = flush_delta_len tree (cc_leaf (fst self)) (snd self)"

definition dc_flush_delta_and_clear :: "delta_cursor \<Rightarrow> 'v content_tree \<Rightarrow> ('v content_tree \<times> delta_cursor) option" where
  "dc_flush_delta_and_clear self tree =
     do { (tree, delta) \<leftarrow> flush_delta_and_clear tree (cc_leaf (fst self)) (snd self); Some (tree, (fst self, delta)) }"

section \<open>Splitting nodes\<close>

definition create_new_root_node :: "'v content_tree \<Rightarrow> nat \<Rightarrow> nat \<Rightarrow> len_pair \<Rightarrow> ('v content_tree \<times> nat) option" where
  "create_new_root_node self child_a child_b b_size =
     do {
       a_size \<leftarrow> lp_sub (ct_total self) b_size;
       let new_root = \<lparr>cn_indexes = [child_a, child_b] @ replicate (NODE_CHILDREN - 2) usize_max,
                       cn_width = [a_size, b_size] @ replicate (NODE_CHILDREN - 2) lp_zero,
                       cn_parent = usize_max\<rparr>;
       let new_idx = length (ct_nodes self);
       Some (self\<lparr>ct_height := ct_height self + 1, ct_root := new_idx, ct_nodes := ct_nodes self @ [new_root]\<rparr>, new_idx)
     }"

definition set_leaf_parent :: "nat \<Rightarrow> 'v content_tree \<Rightarrow> nat \<Rightarrow> 'v content_tree option" where
  "set_leaf_parent p t i = do { l \<leftarrow> ct_leaf t i; Some (ct_set_leaf t i (l\<lparr>cl_parent := p\<rparr>)) }"

definition set_node_parent :: "nat \<Rightarrow> 'v content_tree \<Rightarrow> nat \<Rightarrow> 'v content_tree option" where
  "set_node_parent p t i = do { n \<leftarrow> ct_node t i; Some (ct_set_node t i (n\<lparr>cn_parent := p\<rparr>)) }"

fun set_parents :: "('v content_tree \<Rightarrow> nat \<Rightarrow> 'v content_tree option) \<Rightarrow> 'v content_tree \<Rightarrow> nat list
    \<Rightarrow> 'v content_tree option" where
  "set_parents f t [] = Some t"
| "set_parents f t (i # is) = Option.bind (f t i) (\<lambda>t. set_parents f t is)"

text \<open>
  \<open>split_node\<close> and \<open>split_child_of_node\<close> call each other up the tree; the former takes the latter as an
  argument here.
\<close>

definition split_node_with ::
  "('v content_tree \<Rightarrow> nat \<Rightarrow> nat \<Rightarrow> nat \<Rightarrow> len_pair \<Rightarrow> bool \<Rightarrow> ('v content_tree \<times> nat) option)
    \<Rightarrow> 'v content_tree \<Rightarrow> nat \<Rightarrow> bool \<Rightarrow> ('v content_tree \<times> nat) option" where
  "split_node_with split_child self old_idx children_are_leaves =
     do {
       let new_node_idx = length (ct_nodes self);
       old_node \<leftarrow> ct_node self old_idx;
       let split_size = lp_sum (drop NODE_SPLIT_POINT (cn_width old_node));
       let new_node = \<lparr>cn_indexes = drop NODE_SPLIT_POINT (cn_indexes old_node) @ replicate (NODE_CHILDREN - NODE_SPLIT_POINT) usize_max,
                       cn_width = drop NODE_SPLIT_POINT (cn_width old_node) @ replicate (NODE_CHILDREN - NODE_SPLIT_POINT) lp_zero,
                       cn_parent = usize_max\<rparr>;
       let self = ct_set_node self old_idx
             (old_node\<lparr>cn_indexes := take NODE_SPLIT_POINT (cn_indexes old_node) @ replicate (NODE_CHILDREN - NODE_SPLIT_POINT) usize_max\<rparr>);
       let moved = take NODE_SPLIT_POINT (cn_indexes new_node);
       self \<leftarrow> set_parents ((if children_are_leaves then set_leaf_parent else set_node_parent) new_node_idx) self moved;
       let self = self\<lparr>ct_nodes := ct_nodes self @ [new_node]\<rparr>;
       old_node \<leftarrow> ct_node self old_idx;
       if old_idx = ct_root self
       then do {
         (self, parent) \<leftarrow> create_new_root_node self old_idx new_node_idx split_size;
         self \<leftarrow> set_node_parent parent self old_idx;
         self \<leftarrow> set_node_parent parent self new_node_idx;
         Some (self, new_node_idx)
       }
       else do {
         (self, parent) \<leftarrow> split_child self (cn_parent old_node) old_idx new_node_idx split_size False;
         self \<leftarrow> set_node_parent parent self new_node_idx;
         Some (self, new_node_idx)
       }
     }"

lemma split_node_with_mono [partial_function_mono]:
  assumes "\<And>t p c n s b. mono_option (\<lambda>f. F f t p c n s b)"
  shows "mono_option (\<lambda>f. split_node_with (F f) t i b)"
  unfolding split_node_with_def Let_def case_prod_beta
  by (intro bind_mono option.const_mono if_mono assms)


text \<open>
  The second half of \<open>split_child_of_node\<close>: the new child takes its length from its left neighbour and is put
  right of it.
\<close>

definition insert_child :: "'v content_tree \<Rightarrow> nat \<Rightarrow> nat \<Rightarrow> nat \<Rightarrow> len_pair \<Rightarrow> 'v content_tree option" where
  "insert_child self node_idx child_pos new_child_idx stolen_len =
     do {
       node \<leftarrow> ct_node self node_idx;
       w \<leftarrow> get_at (cn_width node) child_pos;
       w \<leftarrow> lp_sub w stolen_len;
       let widths = (cn_width node)[child_pos := w];
       let insert_pos = (child_pos + 1) mod length (cn_width node);
       indexes \<leftarrow> copy_within (cn_indexes node) insert_pos (NODE_CHILDREN - 1) (insert_pos + 1);
       indexes \<leftarrow> set_at indexes insert_pos new_child_idx;
       widths \<leftarrow> copy_within widths insert_pos (NODE_CHILDREN - 1) (insert_pos + 1);
       widths \<leftarrow> set_at widths insert_pos stolen_len;
       Some (ct_set_node self node_idx (node\<lparr>cn_indexes := indexes, cn_width := widths\<rparr>))
     }"

partial_function (option) split_child_of_node ::
  "'v content_tree \<Rightarrow> nat \<Rightarrow> nat \<Rightarrow> nat \<Rightarrow> len_pair \<Rightarrow> bool \<Rightarrow> ('v content_tree \<times> nat) option" where
  "split_child_of_node self node_idx child_idx new_child_idx stolen_len children_are_leaves =
     do {
       node \<leftarrow> ct_node self node_idx;
       child_pos \<leftarrow> idx_of_child node child_idx;
       let child_pos = child_pos mod length (cn_width node);
       (self, node_idx, child_pos) \<leftarrow>
         (if cn_is_full node
          then do {
            (self, new_node) \<leftarrow> split_node_with split_child_of_node self node_idx children_are_leaves;
            Some (if child_pos \<ge> NODE_SPLIT_POINT then (self, new_node, child_pos - NODE_SPLIT_POINT)
                  else (self, node_idx, child_pos))
          }
          else Some (self, node_idx, child_pos));
       self \<leftarrow> insert_child self node_idx child_pos new_child_idx stolen_len;
       Some (self, node_idx)
     }"

definition split_node :: "'v content_tree \<Rightarrow> nat \<Rightarrow> bool \<Rightarrow> ('v content_tree \<times> nat) option" where
  "split_node = split_node_with split_child_of_node"

text \<open>The new leaf is pushed last; until then its index is the length of the vector.\<close>

definition split_leaf :: "'v content_ops \<Rightarrow> 'v content_tree \<Rightarrow> nat \<Rightarrow> ('v content_tree \<times> nat \<times> ('v \<times> nat) list) option" where
  "split_leaf C self old_idx =
     do {
       let old_height = ct_height self;
       let new_leaf_idx = length (ct_leaves self);
       old_leaf \<leftarrow> ct_leaf self old_idx;
       let moved = takeWhile (c_exists C) (drop LEAF_SPLIT_POINT (cl_children old_leaf));
       let new_size = lp_sum (map (content_len_pair C) moved);
       (self, parent) \<leftarrow>
         (if old_height = 0
          then do {
            (self, parent) \<leftarrow> create_new_root_node self old_idx new_leaf_idx new_size;
            self \<leftarrow> set_leaf_parent 0 self old_idx;
            Some (self, 0)
          }
          else do {
            (self, parent) \<leftarrow> split_child_of_node self (cl_parent old_leaf) old_idx new_leaf_idx new_size True;
            self \<leftarrow> set_leaf_parent parent self old_idx;
            Some (self, parent)
          });
       old_leaf \<leftarrow> ct_leaf self old_idx;
       let new_leaf = \<lparr>cl_children = drop LEAF_SPLIT_POINT (cl_children old_leaf) @
                         replicate (LEAF_CHILDREN - LEAF_SPLIT_POINT) (c_none C),
                       cl_next = cl_next old_leaf, cl_parent = parent\<rparr>;
       let old_leaf = old_leaf\<lparr>cl_children := take LEAF_SPLIT_POINT (cl_children old_leaf) @
                         replicate (LEAF_CHILDREN - LEAF_SPLIT_POINT) (c_none C), cl_next := new_leaf_idx\<rparr>;
       let self = ct_set_leaf self old_idx old_leaf;
       Some (self\<lparr>ct_leaves := ct_leaves self @ [new_leaf]\<rparr>, new_leaf_idx, map (\<lambda>v. (v, new_leaf_idx)) moved)
     }"

section \<open>Inserting\<close>

definition make_space_in_leaf_for :: "'v content_ops \<Rightarrow> 'v content_tree \<Rightarrow> nat \<Rightarrow> nat \<Rightarrow> nat \<Rightarrow> len_update
    \<Rightarrow> ('v content_tree \<times> nat \<times> nat \<times> len_update \<times> ('v \<times> nat) list) option" where
  "make_space_in_leaf_for C self space_wanted leaf_idx elem_idx delta =
     (if \<not> (space_wanted = 1 \<or> space_wanted = 2) then None
      else do {
        leaf \<leftarrow> ct_leaf self leaf_idx;
        (if cl_has_space C leaf space_wanted
         then do {
           children \<leftarrow> copy_within (cl_children leaf) elem_idx (LEAF_CHILDREN - space_wanted) (elem_idx + space_wanted);
           Some (ct_set_leaf self leaf_idx (leaf\<lparr>cl_children := children\<rparr>), leaf_idx, elem_idx, delta, [])
         }
         else do {
           (self, delta) \<leftarrow> flush_delta_and_clear self leaf_idx delta;
           (self, new_node, ns) \<leftarrow> split_leaf C self leaf_idx;
           let (leaf_idx, elem_idx) =
             (if elem_idx \<ge> LEAF_SPLIT_POINT then (new_node, elem_idx - LEAF_SPLIT_POINT) else (leaf_idx, elem_idx));
           leaf \<leftarrow> ct_leaf self leaf_idx;
           children \<leftarrow> copy_within (cl_children leaf) elem_idx LEAF_SPLIT_POINT (elem_idx + space_wanted);
           Some (ct_set_leaf self leaf_idx (leaf\<lparr>cl_children := children\<rparr>), leaf_idx, elem_idx, delta, ns)
         })
      })"

definition splice_in_internal :: "'v content_ops \<Rightarrow> 'v content_tree \<Rightarrow> 'v \<Rightarrow> 'v option \<Rightarrow> nat \<Rightarrow> nat \<Rightarrow> len_update \<Rightarrow> bool
    \<Rightarrow> ('v content_tree \<times> nat \<times> nat \<times> len_update \<times> ('v \<times> nat) list) option" where
  "splice_in_internal C self item remainder leaf_idx elem_idx delta notify_here =
     do {
       let space_needed = 1 + (if remainder \<noteq> None then 1 else 0);
       (self, new_leaf_idx, new_elem_idx, delta, ns) \<leftarrow>
         make_space_in_leaf_for C self space_needed leaf_idx elem_idx delta;
       let moved = (new_leaf_idx \<noteq> leaf_idx);
       let ns = (if notify_here \<or> moved then ns @ [(item, new_leaf_idx)] else ns);
       leaf \<leftarrow> ct_leaf self new_leaf_idx;
       let delta = inc_delta_update C delta item;
       children \<leftarrow> set_at (cl_children leaf) new_elem_idx item;
       (children, delta, ns) \<leftarrow>
         (case remainder of
            None \<Rightarrow> Some (children, delta, ns)
          | Some remainder \<Rightarrow>
              do {
                children \<leftarrow> set_at children (new_elem_idx + 1) remainder;
                Some (children, inc_delta_update C delta remainder,
                      if moved then ns @ [(remainder, new_leaf_idx)] else ns)
              });
       Some (ct_set_leaf self new_leaf_idx (leaf\<lparr>cl_children := children\<rparr>), new_leaf_idx, new_elem_idx, delta, ns)
     }"

text \<open>
  \<open>insert\<close>: the first part finds the element to append to and cuts the element under the cursor; the item is
  then appended to the element before it, prepended to the one after it, or spliced in.
\<close>

definition ct_insert_cut :: "'v content_ops \<Rightarrow> 'v list \<Rightarrow> nat \<Rightarrow> nat \<Rightarrow> len_update
    \<Rightarrow> ('v list \<times> nat \<times> nat \<times> 'v option \<times> len_update) option" where
  "ct_insert_cut C children elem_idx offset delta =
     (if offset = 0 \<and> elem_idx > 0
      then do {
        e \<leftarrow> get_at children (elem_idx - 1);
        Some (children, elem_idx - 1, c_len C e, None, delta)
      }
      else do {
        e \<leftarrow> get_at children elem_idx;
        (if offset = c_len C e \<or> offset = 0 then Some (children, elem_idx, offset, None, delta)
         else (let (e, remainder) = c_truncate C e offset
               in Some (children[elem_idx := e], elem_idx, offset, Some remainder, dec_delta_update C delta remainder)))
      })"

definition ct_insert :: "'v content_ops \<Rightarrow> 'v content_tree \<Rightarrow> 'v \<Rightarrow> delta_cursor \<Rightarrow> bool
    \<Rightarrow> ('v content_tree \<times> delta_cursor \<times> ('v \<times> nat) list) option" where
  "ct_insert C self item dc notify_here =
     do {
       let (cursor, delta) = dc;
       let leaf_idx = cc_leaf cursor;
       node \<leftarrow> ct_leaf self leaf_idx;
       (children, elem_idx, offset, remainder, delta) \<leftarrow>
         ct_insert_cut C (cl_children node) (cc_elem cursor) (cc_offset cursor) delta;
       let self = ct_set_leaf self leaf_idx (node\<lparr>cl_children := children\<rparr>);
       let here = (if notify_here then [(item, leaf_idx)] else []);
       let splice = (\<lambda>elem_idx. do {
             (self, leaf_idx, elem_idx, delta, ns) \<leftarrow>
               splice_in_internal C self item remainder leaf_idx elem_idx delta notify_here;
             Some (self, (\<lparr>cc_leaf = leaf_idx, cc_elem = elem_idx, cc_offset = c_len C item\<rparr>, delta), ns)
           });
       (if offset \<noteq> 0
        then do {
          cur_entry \<leftarrow> get_at children elem_idx;
          (if c_can_append C cur_entry item
           then do {
             let delta = inc_delta_update C delta item;
             let cur_entry = c_append C cur_entry item;
             let self = ct_set_leaf self leaf_idx (node\<lparr>cl_children := children[elem_idx := cur_entry]\<rparr>);
             let cursor = cursor\<lparr>cc_elem := elem_idx, cc_offset := c_len C cur_entry\<rparr>;
             (case remainder of
                None \<Rightarrow> Some (self, (cursor, delta), here)
              | Some remainder \<Rightarrow>
                  do {
                    (self, leaf_idx_2, elem_idx_2, delta, ns) \<leftarrow>
                      splice_in_internal C self remainder None leaf_idx (elem_idx + 1) delta notify_here;
                    (if leaf_idx_2 \<noteq> leaf_idx
                     then if elem_idx_2 > 0
                          then Some (self, (cursor\<lparr>cc_leaf := leaf_idx_2, cc_elem := elem_idx_2 - 1\<rparr>, delta), here @ ns)
                          else do {
                            (self, delta) \<leftarrow> flush_delta_and_clear self leaf_idx_2 delta;
                            Some (self, (cursor, delta), here @ ns)
                          }
                     else Some (self, (cursor, delta), here @ ns))
                  })
           }
           else do {
             let elem_idx = elem_idx + 1;
             (if remainder = None \<and> elem_idx < length children \<and> c_exists C (children ! elem_idx) \<and>
                 c_can_append C item (children ! elem_idx)
              then Some (ct_set_leaf self leaf_idx
                           (node\<lparr>cl_children := children[elem_idx := c_prepend C (children ! elem_idx) item]\<rparr>),
                         (cursor\<lparr>cc_elem := elem_idx, cc_offset := c_len C item\<rparr>, inc_delta_update C delta item), here)
              else splice elem_idx)
           })
        }
        else splice elem_idx)
     }"

text \<open>
  The end of \<open>mutate_entry\<close> for a whole element: the elements after it are appended to it as long as that is
  possible.
\<close>

fun merge_following :: "'v content_ops \<Rightarrow> 'v \<Rightarrow> 'v list \<Rightarrow> 'v \<times> nat" where
  "merge_following C entry [] = (entry, 0)"
| "merge_following C entry (e # es) =
     (if \<not> c_exists C e \<or> \<not> c_can_append C entry e then (entry, 0)
      else (let (r, n) = merge_following C (c_append C entry e) es in (r, Suc n)))"

definition mutate_entry :: "'v content_ops \<Rightarrow> 'v content_tree \<Rightarrow> delta_cursor \<Rightarrow> nat \<Rightarrow> ('v \<Rightarrow> ('v \<times> 'r) option)
    \<Rightarrow> ('v content_tree \<times> delta_cursor \<times> ('v \<times> nat) list \<times> nat \<times> 'r) option" where
  "mutate_entry C self dc replace_max map_fn =
     do {
       (self, dc, has_next) \<leftarrow> dc_roll_next_item C dc self;
       (if \<not> has_next then None else do {
          let (cursor, delta) = dc;
          let set_entry = (\<lambda>self leaf e. ct_set_leaf self (cc_leaf cursor)
                 (leaf\<lparr>cl_children := (cl_children leaf)[cc_elem cursor := e]\<rparr>));
          leaf \<leftarrow> ct_leaf self (cc_leaf cursor);
          entry \<leftarrow> get_at (cl_children leaf) (cc_elem cursor);
          let entry_len = c_len C entry;
          (if cc_offset cursor = 0 \<and> entry_len \<le> replace_max
           then do {
             (entry', r) \<leftarrow> map_fn entry;
             let delta = inc_delta_update C (dec_delta_update C delta entry) entry';
             let scan_start = cc_elem cursor + 1;
             let (entry', n) = merge_following C entry' (drop scan_start (cl_children leaf));
             let children = (cl_children leaf)[cc_elem cursor := entry'];
             children \<leftarrow> (if n > 0 then remove_from_array_fill children \<lparr>dt_start = scan_start, dt_end = scan_start + n\<rparr> (c_none C)
                          else Some children);
             Some (ct_set_leaf self (cc_leaf cursor) (leaf\<lparr>cl_children := children\<rparr>),
                   (cursor\<lparr>cc_offset := entry_len\<rparr>, delta), [], entry_len, r)
           }
           else if cc_offset cursor > 0
           then do {
             let (entry, rest) = c_truncate C entry (cc_offset cursor);
             let self = set_entry self leaf entry;
             let delta = dec_delta_update C delta rest;
             let len = c_len C rest;
             (if len \<le> replace_max
              then do {
                (rest, r) \<leftarrow> map_fn rest;
                (self, dc, ns) \<leftarrow> ct_insert C self rest (cursor, delta) False;
                Some (self, dc, ns, len, r)
              }
              else do {
                let (rest, remainder) = c_truncate C rest replace_max;
                (rest, r) \<leftarrow> map_fn rest;
                (self, leaf_idx, elem_idx, delta, ns) \<leftarrow>
                  splice_in_internal C self rest (Some remainder) (cc_leaf cursor) (cc_elem cursor + 1) delta False;
                Some (self, (\<lparr>cc_leaf = leaf_idx, cc_elem = elem_idx, cc_offset = replace_max\<rparr>, delta), ns, replace_max, r)
              })
           }
           else do {
             let (entry, e) = c_truncate_keeping_right C entry replace_max;
             let self = set_entry self leaf entry;
             let delta = dec_delta_update C delta e;
             (e, r) \<leftarrow> map_fn e;
             (self, dc, ns) \<leftarrow> ct_insert C self e (cursor, delta) False;
             Some (self, dc, ns, replace_max, r)
           })
       })
     }"

end
