(* ===== verification/ContentShape.thy ===== *)
theory ContentShape
  imports ContentTree
begin

text \<open>
  The shape of the content tree, level by level.  \<open>up_ok t k X base W S\<close> describes the part of the tree above
  level \<open>k\<close>: the elements of level \<open>k\<close> are \<open>base\<close>, from left to right, with lengths \<open>W\<close>, and \<open>S\<close> are the levels
  of nodes above, up to the root.  The children of the nodes of a level are the level below it; stored
  lengths and parents fit (the parents of the elements in \<open>X\<close> excepted).  A split changes the part above the
  level where it starts only, so that induction on \<open>S\<close> carries the proofs.
\<close>

definition kids :: "'v content_tree \<Rightarrow> nat \<Rightarrow> nat list" where
  "kids t n = takeWhile (\<lambda>i. i \<noteq> usize_max) (cn_indexes (ct_nodes t ! n))"

definition widths :: "'v content_tree \<Rightarrow> nat \<Rightarrow> len_pair list" where
  "widths t n = take (length (kids t n)) (cn_width (ct_nodes t ! n))"

definition node_width :: "'v content_tree \<Rightarrow> nat \<Rightarrow> len_pair" where
  "node_width t n = lp_sum (widths t n)"

definition node_ok :: "'v content_tree \<Rightarrow> nat \<Rightarrow> bool" where
  "node_ok t n \<longleftrightarrow>
     n < length (ct_nodes t) \<and> length (cn_width (ct_nodes t ! n)) = NODE_CHILDREN \<and> kids t n \<noteq> [] \<and>
     length (kids t n) \<le> NODE_CHILDREN \<and>
     cn_indexes (ct_nodes t ! n) = kids t n @ replicate (NODE_CHILDREN - length (kids t n)) usize_max"

definition parent_of :: "'v content_tree \<Rightarrow> nat \<Rightarrow> nat \<Rightarrow> nat" where
  "parent_of t k c = (if k = 0 then cl_parent (ct_leaves t ! c) else cn_parent (ct_nodes t ! c))"

fun up_ok :: "'v content_tree \<Rightarrow> nat \<Rightarrow> nat set \<Rightarrow> nat list \<Rightarrow> (nat \<Rightarrow> len_pair) \<Rightarrow> nat list list \<Rightarrow> bool" where
  "up_ok t k X base W [] \<longleftrightarrow>
     k = ct_height t \<and> base = [ct_root t] \<and> (ct_root t \<notin> X \<longrightarrow> parent_of t k (ct_root t) = usize_max) \<and>
     ct_total t = W (ct_root t)"
| "up_ok t k X base W (L # S) \<longleftrightarrow>
     concat (map (kids t) L) = base \<and>
     (\<forall>n \<in> set L. node_ok t n \<and> widths t n = map W (kids t n) \<and>
        (\<forall>c \<in> set (kids t n). c \<notin> X \<longrightarrow> parent_of t k c = n)) \<and>
     up_ok t (Suc k) {} L (node_width t) S"

text \<open>The indices of the levels: no element occurs twice, and every one is in bounds.\<close>

definition levels_ok :: "'v content_tree \<Rightarrow> nat \<Rightarrow> nat list \<Rightarrow> nat list list \<Rightarrow> bool" where
  "levels_ok t k base S \<longleftrightarrow>
     distinct (concat S) \<and> (\<forall>n \<in> set (concat S). n < length (ct_nodes t)) \<and>
     length (ct_nodes t) \<le> usize_max \<and> distinct base \<and> (\<forall>c \<in> set base. c < usize_max) \<and>
     (if k = 0 then \<forall>c \<in> set base. c < length (ct_leaves t)
      else set base \<inter> set (concat S) = {} \<and> (\<forall>c \<in> set base. c < length (ct_nodes t)))"

lemma levels_ok_up: "levels_ok t k base (L # S) \<Longrightarrow> levels_ok t (Suc k) L S"
  by (auto simp: levels_ok_def split: if_splits dest: order.strict_trans2)

lemma levels_okD:
  assumes "levels_ok t k base S"
  shows "distinct (concat S)" "distinct base" "n \<in> set (concat S) \<Longrightarrow> n < length (ct_nodes t)"
    "c \<in> set base \<Longrightarrow> c < usize_max" "length (ct_nodes t) \<le> usize_max"
  using assms by (auto simp: levels_ok_def)

lemma levels_ok_base:
  assumes "levels_ok t k base S" "c \<in> set base"
  shows "if k = 0 then c < length (ct_leaves t) else c < length (ct_nodes t) \<and> c \<notin> set (concat S)"
proof (cases "k = 0")
  case False
  then have "set base \<inter> set (concat S) = {}" "\<forall>c \<in> set base. c < length (ct_nodes t)"
    using assms(1) unfolding levels_ok_def by presburger+
  then show ?thesis using assms(2) False by (metis disjoint_iff)
qed (use assms in \<open>simp add: levels_ok_def\<close>)

text \<open>What a node contributes depends on its record only.\<close>

lemma node_facts_cong:
  assumes "cn_indexes (ct_nodes t' ! n) = cn_indexes (ct_nodes t ! n)" "cn_width (ct_nodes t' ! n) = cn_width (ct_nodes t ! n)"
  shows "kids t' n = kids t n" "widths t' n = widths t n" "node_width t' n = node_width t n"
    "n < length (ct_nodes t') \<Longrightarrow> node_ok t n \<Longrightarrow> node_ok t' n"
  using assms by (simp_all add: kids_def widths_def node_width_def node_ok_def)

lemma up_ok_cong:
  assumes "up_ok t k X base W S"
    and "\<And>n. n \<in> set (concat S) \<Longrightarrow> n < length (ct_nodes t') \<and> ct_nodes t' ! n = ct_nodes t ! n"
    and "\<And>c. c \<in> set base \<Longrightarrow> c \<notin> X' \<Longrightarrow> parent_of t' k c = parent_of t k c \<and> c \<notin> X"
    and "\<And>c. c \<in> set base \<Longrightarrow> W' c = W c"
    and "ct_height t' = ct_height t" "ct_root t' = ct_root t" "ct_total t' = ct_total t"
  shows "up_ok t' k X' base W' S"
  using assms
proof (induction S arbitrary: k X base W X' W')
  case (Cons L S)
  have same: "kids t' n = kids t n" "widths t' n = widths t n" "node_width t' n = node_width t n" "node_ok t' n = node_ok t n"
    if "n \<in> set L" for n
    using Cons.prems(2)[of n] that node_facts_cong[of t' n t] node_facts_cong[of t n t'] Cons.prems(1)
    by (auto simp: node_ok_def)
  have "up_ok t' (Suc k) {} L (node_width t') S"
    using Cons.prems by (intro Cons.IH[where X = "{}" and W = "node_width t"]) (auto simp: parent_of_def same)
  moreover have "concat (map (kids t') L) = concat (map (kids t) L)" using same by (simp cong: map_cong)
  moreover have "c \<in> set base" if "n \<in> set L" "c \<in> set (kids t n)" for n c using Cons.prems(1) that by auto
  ultimately show ?case using Cons.prems(1,3,4) same by auto
qed auto

lemma kids_level: "up_ok t k X base W (L # S) \<Longrightarrow> n \<in> set L \<Longrightarrow> c \<in> set (kids t n) \<Longrightarrow> c \<in> set base"
  by auto

lemma level_parent:
  assumes "up_ok t k X base W (L # S)" "c \<in> set base" "c \<notin> X"
  shows "parent_of t k c \<in> set L" "c \<in> set (kids t (parent_of t k c))"
  using assms by auto


section \<open>Inserting a child\<close>

lemma node_ok_kids:
  assumes "length xs \<le> NODE_CHILDREN" "xs \<noteq> []" "\<forall>c \<in> set xs. c < usize_max" "n < length (ct_nodes t)"
    and "cn_indexes (ct_nodes t ! n) = xs @ replicate (NODE_CHILDREN - length xs) usize_max"
    and "length (cn_width (ct_nodes t ! n)) = NODE_CHILDREN"
  shows "kids t n = xs" "node_ok t n"
proof -
  have "\<forall>c \<in> set xs. c \<noteq> usize_max" using assms(3) by auto
  then show k: "kids t n = xs"
    by (simp add: kids_def assms(5) takeWhile_append2 takeWhile_append)
  then show "node_ok t n" using assms by (simp add: node_ok_def)
qed

lemma ct_node_ok: "node_ok t n \<Longrightarrow> ct_node t n = Some (ct_nodes t ! n)"
  by (simp add: ct_node_def get_at_def node_ok_def)

lemma ct_set_node_nth [simp]:
  "n < length (ct_nodes t) \<Longrightarrow> ct_nodes (ct_set_node t n x) ! m = (if m = n then x else ct_nodes t ! m)"
  "length (ct_nodes (ct_set_node t n x)) = length (ct_nodes t)"
  "ct_leaves (ct_set_node t n x) = ct_leaves t" "ct_height (ct_set_node t n x) = ct_height t"
  "ct_root (ct_set_node t n x) = ct_root t" "ct_total (ct_set_node t n x) = ct_total t"
  "ct_cursor (ct_set_node t n x) = ct_cursor t"
  by (auto simp: ct_set_node_def)

lemma is_full_iff:
  assumes "node_ok t n" "\<forall>c \<in> set (kids t n). c < usize_max"
  shows "cn_is_full (ct_nodes t ! n) \<longleftrightarrow> length (kids t n) = NODE_CHILDREN"
proof -
  have "last (kids t n) < usize_max" using assms last_in_set[of "kids t n"] by (simp add: node_ok_def)
  then show ?thesis using assms(1)
    by (cases "length (kids t n) = NODE_CHILDREN") (auto simp: node_ok_def cn_is_full_def last_append)
qed

lemma insert_child_run:
  assumes ok: "node_ok t p" and ks: "kids t p = a @ x # b" "length (kids t p) < NODE_CHILDREN"
    and w: "widths t p = wa @ lp_add wx wy # wb" "length wa = length a"
    and y: "y < usize_max" "\<forall>c \<in> set (kids t p). c < usize_max"
  shows "\<exists>m. insert_child t p (length a) y wy = Some (ct_set_node t p m) \<and> cn_parent m = cn_parent (ct_nodes t ! p) \<and>
    node_ok (ct_set_node t p m) p \<and> kids (ct_set_node t p m) p = a @ x # y # b \<and>
    widths (ct_set_node t p m) p = wa @ wx # wy # wb"
proof -
  let ?n = "ct_nodes t ! p" and ?i = "Suc (length a)" and ?N = "NODE_CHILDREN"
  have N: "length (cn_width ?n) = ?N" "p < length (ct_nodes t)"
    "cn_indexes ?n = (a @ x # b) @ replicate (?N - length (a @ x # b)) usize_max"
    using ok ks(1) by (auto simp: node_ok_def)
  have len: "length a + length b + 1 < ?N" using ks by simp
  obtain r where r: "cn_width ?n = wa @ lp_add wx wy # wb @ r"
    using w(1) unfolding widths_def by (metis append.assoc append_Cons append_take_drop_id)
  have lw: "length wb = length b" using arg_cong[OF w(1), of length] ks N(1) w(2) len
    by (simp add: widths_def)
  then have lr: "length r = ?N - Suc (length a + length b)" using N(1) r w(2) by simp
  have i: "(length a + 1) mod length (cn_width ?n) = ?i" using N(1) len by simp
  have sub: "lp_sub (lp_add wx wy) wy = Some wx" by (simp add: lp_sub_def)
  have "length (cn_indexes ?n) = ?N" using N(3) len by simp
  then obtain ixs where idx_eq: "copy_within (cn_indexes ?n) ?i (?N - 1) (?i + 1) = Some ixs" "length ixs = ?N"
    "ixs[?i := y] = take ?i (cn_indexes ?n) @ y # take (?N - 1 - ?i) (drop ?i (cn_indexes ?n)) @ drop ?N (cn_indexes ?n)"
    using shift_one[of ?i ?N "cn_indexes ?n" y] len by auto
  let ?w = "(cn_width ?n)[length a := wx]"
  have "length ?w = ?N" using N(1) by simp
  then obtain ws where ws: "copy_within ?w ?i (?N - 1) (?i + 1) = Some ws" "length ws = ?N"
    "ws[?i := wy] = take ?i ?w @ wy # take (?N - 1 - ?i) (drop ?i ?w) @ drop ?N ?w"
    using shift_one[of ?i ?N ?w wy] len by auto
  have at: "get_at (cn_width ?n) (length a) = Some (lp_add wx wy)"
    using w(2) by (simp add: get_at_def r nth_append)
  let ?m = "?n\<lparr>cn_indexes := ixs[?i := y], cn_width := ws[?i := wy]\<rparr>"
  have run: "insert_child t p (length a) y wy = Some (ct_set_node t p ?m)"
    using idx_eq(1,2) ws(1,2) len at unfolding insert_child_def ct_node_ok[OF ok] Option.bind.simps i
    by (simp add: set_at_def sub)
  have ind: "ixs[?i := y] = (a @ x # y # b) @ replicate (?N - length (a @ x # y # b)) usize_max"
    unfolding idx_eq(3) using len by (simp add: N(3))
  have wid: "ws[?i := wy] = (wa @ wx # wy # wb) @ take (?N - 2 - length a - length b) r"
    unfolding ws(3) using len w(2) lw lr N(1) by (simp add: r list_update_append)
  have k: "kids (ct_set_node t p ?m) p = a @ x # y # b" "node_ok (ct_set_node t p ?m) p"
    using node_ok_kids[of "a @ x # y # b" p "ct_set_node t p ?m"] len y N(2) ws(2) ind ks(1) by simp_all
  have "widths (ct_set_node t p ?m) p = wa @ wx # wy # wb"
    using N(2) wid w(2) lw unfolding widths_def k(1) by simp
  then show ?thesis using run k by (intro exI[of _ ?m]) simp
qed


lemma insert_child_up:
  assumes up: "up_ok t k X (A @ x # B) W0 (L # S)" and lv: "levels_ok t k (A @ x # B) (L # S)"
    and p: "p \<in> set L" "x \<in> set (kids t p)" and room: "length (kids t p) < NODE_CHILDREN"
    and y: "y < usize_max" "y \<notin> set (A @ x # B)"
    and W: "W0 x = lp_add (W x) (W y)" "\<And>c. c \<in> set (A @ B) \<Longrightarrow> W0 c = W c"
  shows "\<exists>m a b. kids t p = a @ x # b \<and> idx_of_child (ct_nodes t ! p) x = Some (length a) \<and>
    insert_child t p (length a) y (W y) = Some (ct_set_node t p m) \<and> cn_parent m = cn_parent (ct_nodes t ! p) \<and>
    x \<in> set (kids (ct_set_node t p m) p) \<and> y \<in> set (kids (ct_set_node t p m) p) \<and>
    up_ok (ct_set_node t p m) k (insert y X) (A @ x # y # B) W (L # S)"
proof -
  have d: "distinct (A @ x # B)" "distinct (concat (L # S))" using levels_okD(1,2)[OF lv] by simp_all
  have cc: "concat (map (kids t) L) = A @ x # B" using up by simp
  obtain L1 L2 a b where L: "L = L1 @ p # L2" and ks: "kids t p = a @ x # b"
    and AB: "A = concat (map (kids t) L1) @ a" "B = b @ concat (map (kids t) L2)"
    using concat_map_at[OF cc p d(1)] by metis
  have ok: "node_ok t p" "widths t p = map W0 (kids t p)" using up p(1) by simp_all
  have Wab: "map W0 a = map W a" "map W0 b = map W b" using W(2) by (simp_all add: AB)
  have w: "widths t p = map W a @ lp_add (W x) (W y) # map W b" unfolding ok(2) ks using W(1) Wab by simp
  have "\<forall>c \<in> set (kids t p). c < usize_max"
    using kids_level[OF up p(1)] levels_okD(4)[OF lv] by blast
  then obtain m where m: "insert_child t p (length a) y (W y) = Some (ct_set_node t p m)"
      "cn_parent m = cn_parent (ct_nodes t ! p)" "node_ok (ct_set_node t p m) p"
      "kids (ct_set_node t p m) p = a @ x # y # b" "widths (ct_set_node t p m) p = map W a @ W x # W y # map W b"
    using insert_child_run[OF ok(1) ks room w _ y(1)] by auto
  let ?t = "ct_set_node t p m"
  have plen: "p < length (ct_nodes t)" using ok(1) by (simp add: node_ok_def)
  have other: "ct_nodes ?t ! n = ct_nodes t ! n" if "n \<noteq> p" for n using plen that by simp
  have same: "kids ?t n = kids t n" "widths ?t n = widths t n" "node_width ?t n = node_width t n" "node_ok ?t n = node_ok t n"
    if "n \<noteq> p" for n
    using other[OF that] node_facts_cong[of ?t n t] by (simp_all add: node_ok_def)
  have par: "parent_of ?t j c = parent_of t j c" for j c using plen m(2) by (simp add: parent_of_def)
  have notp: "n \<noteq> p" if "n \<in> set L1 \<union> set L2 \<union> set (concat S)" for n using d(2) that by (auto simp: L)
  have xL: "x \<notin> set (kids t n)" "y \<notin> set (kids t n)" if "n \<in> set L1 \<union> set L2" for n
    using d(1) y(2) that by (auto simp: AB)
  have wid: "widths ?t n = map W (kids ?t n)" if "n \<in> set L" for n
  proof (cases "n = p")
    case False
    then have n: "n \<in> set L1 \<union> set L2" using that by (auto simp: L)
    then have "\<forall>c \<in> set (kids t n). W0 c = W c" using W(2) xL[OF n] by (auto simp: AB)
    then show ?thesis using same[OF False] up that by simp
  qed (simp add: m)
  have ks2: "map (kids ?t) L1 = map (kids t) L1" "map (kids ?t) L2 = map (kids t) L2"
    using same(1) notp by (auto intro!: map_cong)
  have "up_ok ?t (Suc k) {} L (node_width ?t) S"
  proof (rule up_ok_cong[where X = "{}" and W = "node_width t"])
    show "up_ok t (Suc k) {} L (node_width t) S" using up by simp
    show "n < length (ct_nodes ?t) \<and> ct_nodes ?t ! n = ct_nodes t ! n" if "n \<in> set (concat S)" for n
      using levels_okD(3)[OF lv, of n] that other[OF notp] by simp
    show "node_width ?t c = node_width t c" for c
      by (cases "c = p") (simp_all add: same node_width_def m(5) w lp_add_assoc)
  qed (simp_all add: par)
  moreover have "node_ok ?t n" if "n \<in> set L" for n using m(3) same(4)[of n] up that by (cases "n = p") simp_all
  moreover have "parent_of ?t k c = n" if "n \<in> set L" "c \<in> set (kids ?t n)" "c \<notin> insert y X" for n c
    using that up same(1)[of n] m(4) ks unfolding par by (cases "n = p") auto
  moreover have "concat (map (kids ?t) L) = A @ x # y # B" by (simp add: L ks2 m(4) AB)
  ultimately have "up_ok ?t k (insert y X) (A @ x # y # B) W (L # S)" using wid by simp
  moreover have "idx_of_child (ct_nodes t ! p) x = Some (length a)"
    using ok(1) d(1) by (simp add: idx_of_child_def node_ok_def ks, intro position_append) (auto simp: AB)
  ultimately show ?thesis using m(1,2,4) ks by (intro exI[of _ m] exI[of _ a] exI[of _ b]) simp
qed


section \<open>Changing parents\<close>

text \<open>Two trees that differ in the parents of level \<open>k\<close> only: those of \<open>cs\<close> are now \<open>q\<close>.\<close>

definition reparented :: "'v content_tree \<Rightarrow> 'v content_tree \<Rightarrow> nat \<Rightarrow> nat set \<Rightarrow> nat \<Rightarrow> bool" where
  "reparented t t' k cs q \<longleftrightarrow>
     length (ct_leaves t') = length (ct_leaves t) \<and> length (ct_nodes t') = length (ct_nodes t) \<and>
     ct_height t' = ct_height t \<and> ct_root t' = ct_root t \<and> ct_total t' = ct_total t \<and> ct_cursor t' = ct_cursor t \<and>
     (\<forall>l. cl_children (ct_leaves t' ! l) = cl_children (ct_leaves t ! l) \<and> cl_next (ct_leaves t' ! l) = cl_next (ct_leaves t ! l)) \<and>
     (\<forall>n. cn_indexes (ct_nodes t' ! n) = cn_indexes (ct_nodes t ! n) \<and> cn_width (ct_nodes t' ! n) = cn_width (ct_nodes t ! n)) \<and>
     (\<forall>j c. parent_of t' j c = (if c \<in> cs \<and> (j = 0) = (k = 0) then q else parent_of t j c))"

lemma reparented_parent:
  "reparented t t' k cs q \<Longrightarrow> parent_of t' j c = (if c \<in> cs \<and> (j = 0) = (k = 0) then q else parent_of t j c)"
  by (simp only: reparented_def)

definition set_parent_at :: "nat \<Rightarrow> nat \<Rightarrow> 'v content_tree \<Rightarrow> nat \<Rightarrow> 'v content_tree option" where
  "set_parent_at k q = (if k = 0 then set_leaf_parent q else set_node_parent q)"

lemma set_parent_at_spec:
  assumes "if k = 0 then c < length (ct_leaves t) else c < length (ct_nodes t)"
  shows "\<exists>t'. set_parent_at k q t c = Some t' \<and> reparented t t' k {c} q"
  using assms
  by (auto simp: set_parent_at_def set_leaf_parent_def set_node_parent_def ct_leaf_def ct_node_def get_at_def
      reparented_def ct_set_leaf_def ct_set_node_def parent_of_def nth_list_update)

lemma set_parents_spec:
  assumes "\<forall>c \<in> set cs. if k = 0 then c < length (ct_leaves t) else c < length (ct_nodes t)"
  shows "\<exists>t'. set_parents (set_parent_at k q) t cs = Some t' \<and> reparented t t' k (set cs) q"
  using assms
proof (induction cs arbitrary: t)
  case (Cons c cs)
  obtain t1 where t1: "set_parent_at k q t c = Some t1" "reparented t t1 k {c} q"
    using set_parent_at_spec[of k c t q] Cons.prems by auto
  have "\<forall>c \<in> set cs. if k = 0 then c < length (ct_leaves t1) else c < length (ct_nodes t1)"
    using Cons.prems t1(2) by (simp add: reparented_def split: if_splits)
  then obtain t2 where "set_parents (set_parent_at k q) t1 cs = Some t2" "reparented t1 t2 k (set cs) q"
    using Cons.IH by blast
  then show ?case using t1 by (auto simp: reparented_def)
qed (simp add: reparented_def)

lemma set_parents_if: "(if k = 0 then set_leaf_parent else set_node_parent) q = set_parent_at k q"
  by (simp add: set_parent_at_def)

text \<open>What a split above level \<open>k\<close> leaves alone.\<close>

definition frame :: "'v content_tree \<Rightarrow> 'v content_tree \<Rightarrow> nat \<Rightarrow> nat list \<Rightarrow> nat list list \<Rightarrow> bool" where
  "frame t t' k base S \<longleftrightarrow>
     ct_cursor t' = ct_cursor t \<and> ct_total t' = ct_total t \<and> length (ct_leaves t') = length (ct_leaves t) \<and>
     length (ct_nodes t) \<le> length (ct_nodes t') \<and>
     (\<forall>l. cl_children (ct_leaves t' ! l) = cl_children (ct_leaves t ! l) \<and> cl_next (ct_leaves t' ! l) = cl_next (ct_leaves t ! l)) \<and>
     (\<forall>n < length (ct_nodes t). n \<notin> set (concat S) \<longrightarrow>
        cn_indexes (ct_nodes t' ! n) = cn_indexes (ct_nodes t ! n) \<and> cn_width (ct_nodes t' ! n) = cn_width (ct_nodes t ! n)) \<and>
     (\<forall>l. 0 < k \<or> l \<notin> set base \<longrightarrow> parent_of t' 0 l = parent_of t 0 l) \<and>
     (\<forall>n < length (ct_nodes t). n \<notin> set (concat S) \<longrightarrow> k = 0 \<or> n \<notin> set base \<longrightarrow> parent_of t' 1 n = parent_of t 1 n)"

lemma root_level: "up_ok t k X base W S \<Longrightarrow> ct_root t \<in> set (if S = [] then base else last S)"
  by (induction S arbitrary: k X base W) (auto split: if_splits)

lemma parent_of_pos: "0 < k \<Longrightarrow> parent_of t k c = parent_of t 1 c"
  by (simp add: parent_of_def)

section \<open>Splitting a node\<close>

text \<open>
  The first half of \<open>split_node\<close>: the upper half of the children of \<open>p\<close> moves to a new node \<open>n2\<close>, which its
  parent does not know yet, so that the level above still counts both as \<open>p\<close>.
\<close>

definition half_node :: "'v content_tree \<Rightarrow> nat \<Rightarrow> content_node" where
  "half_node t p =
     \<lparr>cn_indexes = drop NODE_SPLIT_POINT (cn_indexes (ct_nodes t ! p)) @ replicate (NODE_CHILDREN - NODE_SPLIT_POINT) usize_max,
      cn_width = drop NODE_SPLIT_POINT (cn_width (ct_nodes t ! p)) @ replicate (NODE_CHILDREN - NODE_SPLIT_POINT) lp_zero,
      cn_parent = usize_max\<rparr>"

definition cut_node :: "'v content_tree \<Rightarrow> nat \<Rightarrow> 'v content_tree" where
  "cut_node t p = ct_set_node t p ((ct_nodes t ! p)
     \<lparr>cn_indexes := take NODE_SPLIT_POINT (cn_indexes (ct_nodes t ! p)) @ replicate (NODE_CHILDREN - NODE_SPLIT_POINT) usize_max\<rparr>)"


definition level_ok :: "'v content_tree \<Rightarrow> nat \<Rightarrow> nat set \<Rightarrow> nat list \<Rightarrow> (nat \<Rightarrow> len_pair) \<Rightarrow> nat list \<Rightarrow> bool" where
  "level_ok t k X base W L \<longleftrightarrow>
     concat (map (kids t) L) = base \<and>
     (\<forall>n \<in> set L. node_ok t n \<and> widths t n = map W (kids t n) \<and>
        (\<forall>c \<in> set (kids t n). c \<notin> X \<longrightarrow> parent_of t k c = n))"

lemma up_ok_Cons: "up_ok t k X base W (L # S) \<longleftrightarrow> level_ok t k X base W L \<and> up_ok t (Suc k) {} L (node_width t) S"
  by (simp add: level_ok_def)

lemma level_ok_cong:
  assumes "level_ok t k X base W L"
    and "\<And>n. n \<in> set L \<Longrightarrow> n < length (ct_nodes t') \<and>
      cn_indexes (ct_nodes t' ! n) = cn_indexes (ct_nodes t ! n) \<and> cn_width (ct_nodes t' ! n) = cn_width (ct_nodes t ! n)"
    and "\<And>c. c \<in> set base \<Longrightarrow> parent_of t' k c = parent_of t k c"
  shows "level_ok t' k X base W L"
proof -
  have same: "kids t' n = kids t n" "widths t' n = widths t n" "node_ok t n \<Longrightarrow> node_ok t' n" if "n \<in> set L" for n
    using assms(2)[OF that] node_facts_cong[of t' n t] by auto
  moreover have "concat (map (kids t') L) = concat (map (kids t) L)" using same by (simp cong: map_cong)
  moreover have "c \<in> set base" if "n \<in> set L" "c \<in> set (kids t n)" for n c
    using assms(1) that by (auto simp: level_ok_def)
  ultimately show ?thesis using assms(1,3) unfolding level_ok_def by auto
qed

lemma split_half:
  assumes up: "up_ok t k {} base W0 (L # S)" and lv: "levels_ok t k base (L # S)" and p: "p \<in> set L"
    and full: "length (kids t p) = NODE_CHILDREN" and room: "Suc (length (ct_nodes t)) \<le> usize_max"
  shows "\<exists>t1 L1 L2. set_parents (set_parent_at k (length (ct_nodes t))) (cut_node t p)
        (take NODE_SPLIT_POINT (cn_indexes (half_node t p))) = Some t1 \<and> L = L1 @ p # L2 \<and>
    (let n2 = length (ct_nodes t); t2 = t1\<lparr>ct_nodes := ct_nodes t1 @ [half_node t p]\<rparr>; L' = L1 @ p # n2 # L2 in
       length (ct_nodes t2) = Suc n2 \<and> level_ok t2 k {} base W0 L' \<and> up_ok t2 (Suc k) {} L (node_width t) S \<and>
       levels_ok t2 k base (L' # S) \<and>
       node_width t p = lp_add (node_width t2 p) (node_width t2 n2) \<and> (\<forall>n \<in> set L. n \<noteq> p \<longrightarrow> node_width t2 n = node_width t n) \<and>
       kids t2 p = take NODE_SPLIT_POINT (kids t p) \<and> kids t2 n2 = drop NODE_SPLIT_POINT (kids t p) \<and>
       node_width t2 n2 = lp_sum (drop NODE_SPLIT_POINT (cn_width (ct_nodes t ! p))) \<and>
       (\<forall>n \<in> set L. parent_of t2 1 n = parent_of t 1 n) \<and> frame t t2 k base (L # S) \<and>
       ct_height t2 = ct_height t \<and> ct_root t2 = ct_root t)"
proof -
  let ?n2 = "length (ct_nodes t)" and ?H = NODE_SPLIT_POINT
  let ?m = "take ?H (cn_indexes (half_node t p))"
  have lo: "level_ok t k {} base W0 L" and upr: "up_ok t (Suc k) {} L (node_width t) S" using up by (simp_all only: up_ok_Cons)
  have ok: "node_ok t p" "widths t p = map W0 (kids t p)" using lo p by (simp_all add: level_ok_def)
  have pl: "p < ?n2" using ok(1) by (simp add: node_ok_def)
  have ix: "cn_indexes (ct_nodes t ! p) = kids t p" "widths t p = cn_width (ct_nodes t ! p)" "length (cn_width (ct_nodes t ! p)) = NODE_CHILDREN"
    using ok(1) full by (simp_all add: node_ok_def widths_def)
  have m: "?m = drop ?H (kids t p)" using full NODE_SPLIT by (simp add: half_node_def ix)
  have kb: "c \<in> set base" if "c \<in> set (kids t n)" "n \<in> set L" for c n using lo that by (auto simp: level_ok_def)
  have mb: "c \<in> set base" if "c \<in> set ?m" for c using kb[of c p] that p unfolding m by (auto dest: in_set_dropD)
  have small: "\<forall>c \<in> set (kids t p). c < usize_max" using kb p levels_okD(4)[OF lv] by blast
  have cut: "length (ct_nodes (cut_node t p)) = ?n2" "ct_leaves (cut_node t p) = ct_leaves t" by (simp_all add: cut_node_def)
  have "\<forall>c \<in> set ?m. if k = 0 then c < length (ct_leaves (cut_node t p)) else c < length (ct_nodes (cut_node t p))"
    using levels_ok_base[OF lv] mb unfolding cut by (meson)
  then obtain t1 where t1: "set_parents (set_parent_at k ?n2) (cut_node t p) ?m = Some t1"
      "reparented (cut_node t p) t1 k (set ?m) ?n2"
    using set_parents_spec by blast
  obtain L1 L2 where L: "L = L1 @ p # L2" using p by (meson split_list)
  define t2 where "t2 = t1\<lparr>ct_nodes := ct_nodes t1 @ [half_node t p]\<rparr>"
  let ?L = "L1 @ p # ?n2 # L2"
  have len1: "length (ct_nodes t1) = ?n2" using t1(2) by (simp add: reparented_def cut)
  have len: "length (ct_nodes t2) = Suc ?n2" by (simp add: t2_def len1)
  have rec: "cn_indexes (ct_nodes t2 ! n) = (if n = p then take ?H (kids t p) @ replicate (NODE_CHILDREN - ?H) usize_max else cn_indexes (ct_nodes t ! n))"
    "cn_width (ct_nodes t2 ! n) = cn_width (ct_nodes t ! n)" if "n < ?n2" for n
    using t1(2) that pl by (simp_all add: t2_def nth_append len1 reparented_def cut_node_def ix)
  have new: "ct_nodes t2 ! ?n2 = half_node t p" by (simp add: t2_def nth_append len1[symmetric])
  have sub: "\<forall>c \<in> set (take ?H (kids t p)). c < usize_max" "\<forall>c \<in> set (drop ?H (kids t p)). c < usize_max"
    "kids t p \<noteq> []"
    using small ok(1) by (auto simp: node_ok_def dest: in_set_takeD in_set_dropD)
  have kp: "kids t2 p = take ?H (kids t p)" "node_ok t2 p"
    using node_ok_kids[of "take ?H (kids t p)" p t2] rec[OF pl] pl len sub full ix(3) NODE_SPLIT by simp_all
  have kn: "kids t2 ?n2 = drop ?H (kids t p)" "node_ok t2 ?n2"
    using node_ok_kids[of "drop ?H (kids t p)" ?n2 t2] new len sub full ix NODE_SPLIT
    by (simp_all add: half_node_def)
  have wp: "widths t2 p = take ?H (widths t p)" using rec(2)[OF pl] full ix NODE_SPLIT by (simp add: widths_def kp)
  have wn: "widths t2 ?n2 = drop ?H (widths t p)"
    using new full ix NODE_SPLIT by (simp add: widths_def kn half_node_def)
  have same: "kids t2 n = kids t n" "widths t2 n = widths t n" "node_width t2 n = node_width t n" "node_ok t n \<Longrightarrow> node_ok t2 n"
    if "n < ?n2" "n \<noteq> p" for n
    using rec[OF that(1)] that node_facts_cong[of t2 n t] len by auto
  have Llt: "n < ?n2" if "n \<in> set L" for n using levels_okD(3)[OF lv] that by simp
  have d: "distinct L" "distinct (concat (L # S))" "distinct base" using levels_okD[OF lv] by simp_all
  have par: "parent_of t2 j c = (if c \<in> set ?m \<and> (j = 0) = (k = 0) then ?n2 else parent_of t j c)" if "j = 0 \<or> c < ?n2" for j c
  proof -
    have "parent_of t2 j c = parent_of t1 j c" using that by (auto simp: parent_of_def t2_def nth_append len1)
    moreover have "parent_of (cut_node t p) j c = parent_of t j c" using pl by (simp add: parent_of_def cut_node_def)
    ultimately show ?thesis by (simp only: reparented_parent[OF t1(2)])
  qed
  have clt: "k = 0 \<or> c < ?n2" if "c \<in> set base" for c using levels_ok_base[OF lv that] by (cases "k = 0") simp_all
  have base': "concat (map (kids t2) ?L) = base"
  proof -
    have "map (kids t2) L1 = map (kids t) L1" "map (kids t2) L2 = map (kids t) L2"
      using same(1) Llt d(1) by (auto simp: L intro!: map_cong)
    note c = this[THEN arg_cong[where f = concat]]
    have td: "take ?H (kids t p) @ drop ?H (kids t p) @ xs = kids t p @ xs" for xs
      by (metis append.assoc append_take_drop_id)
    show ?thesis using lo by (simp add: L kp kn c td level_ok_def)
  qed
  have lvl: "level_ok t2 k {} base W0 ?L"
    unfolding level_ok_def
  proof (intro conjI ballI impI base')
    fix n assume n: "n \<in> set ?L"
    consider "n = p" | "n = ?n2" | "n \<in> set L" "n \<noteq> p" "n < ?n2" using n Llt by (auto simp: L)
    note cs = this
    show "node_ok t2 n" using cs
    proof cases
      case 3 then show ?thesis using same(4) lo by (simp add: level_ok_def)
    qed (simp_all add: kp kn)
    show "widths t2 n = map W0 (kids t2 n)" using cs
    proof cases
      case 3 then show ?thesis using same lo by (simp add: level_ok_def)
    qed (simp_all add: kp kn wp wn ok(2) take_map drop_map)
    fix c assume c: "c \<in> set (kids t2 n)"
    have cb: "c \<in> set base" using c n unfolding base'[symmetric] by auto
    have cm: "c \<in> set ?m \<longleftrightarrow> n = ?n2"
    proof -
      have dc: "distinct (concat (map (kids t) L))" using lo d(3) by (simp add: level_ok_def)
      have dk: "set (take ?H (kids t p)) \<inter> set (drop ?H (kids t p)) = {}"
        using distinct_concat_mapD(1)[OF dc p] by (metis append_take_drop_id distinct_append)
      from cs show ?thesis
      proof cases
        case 1
        then have "c \<in> set (take ?H (kids t p))" using c kp(1) by simp
        then have "c \<notin> set (drop ?H (kids t p))" using dk by (meson disjoint_iff)
        then show ?thesis using 1 pl unfolding m by simp
      next
        case 2
        then show ?thesis using c unfolding m by (simp add: kn)
      next
        case 3
        then have "c \<notin> set (kids t p)" using distinct_concat_mapD(2)[OF dc p, of n c] c same(1) by simp
        then show ?thesis using 3 unfolding m by (auto dest: in_set_dropD)
      qed
    qed
    show "parent_of t2 k c = n"
    proof (cases "n = ?n2")
      case False
      have "n \<in> set L \<and> c \<in> set (kids t n)" using cs
      proof cases
        case 1
        then show ?thesis using c p kp(1) in_set_takeD[of c ?H "kids t p"] by simp
      qed (use False c same(1) in simp_all)
      then have "parent_of t k c = n" using lo by (simp add: level_ok_def)
      then show ?thesis unfolding par[OF clt[OF cb]] using cm False by simp
    qed (unfold par[OF clt[OF cb]], use cm in simp)
  qed
  have parL: "parent_of t2 1 n = parent_of t 1 n" if "n \<in> set L" for n
  proof -
    have "n \<notin> set ?m \<or> k = 0" using levels_ok_base[OF lv, of n] mb[of n] that by (auto split: if_splits)
    then show ?thesis using par[of 1 n] Llt[OF that] by auto
  qed
  have t2: "ct_height t2 = ct_height t" "ct_root t2 = ct_root t" "ct_total t2 = ct_total t" "ct_cursor t2 = ct_cursor t"
    "length (ct_leaves t2) = length (ct_leaves t)"
    "\<And>l. cl_children (ct_leaves t2 ! l) = cl_children (ct_leaves t ! l)" "\<And>l. cl_next (ct_leaves t2 ! l) = cl_next (ct_leaves t ! l)"
    using t1(2) by (simp_all add: t2_def reparented_def cut_node_def)
  have mS: "n \<notin> set ?m \<or> k = 0" if "n \<in> set (concat (L # S))" for n
    using levels_ok_base[OF lv, of n] mb[of n] that by (auto split: if_splits)
  have upr2: "up_ok t2 (Suc k) {} L (node_width t) S"
  proof (rule up_ok_cong[OF upr])
    show "n < length (ct_nodes t2) \<and> ct_nodes t2 ! n = ct_nodes t ! n" if n: "n \<in> set (concat S)" for n
    proof -
      have lt: "n < ?n2" using levels_okD(3)[OF lv, of n] n by simp
      have np: "n \<noteq> p" using d(2) p n by auto
      have "parent_of t2 1 n = parent_of t 1 n" using par[of 1 n] lt mS[of n] n by auto
      then have "ct_nodes t2 ! n = ct_nodes t ! n"
        using rec[OF lt] np by (intro content_node.equality) (simp_all add: parent_of_def)
      then show ?thesis using lt len by simp
    qed
    show "parent_of t2 (Suc k) c = parent_of t (Suc k) c \<and> c \<notin> {}" if "c \<in> set L" for c
      using parL[OF that] by (simp add: parent_of_def)
  qed (simp_all add: t2)
  have n2: "?n2 \<notin> set (concat (L # S))" using levels_okD(3)[OF lv] by blast
  have lv2: "levels_ok t2 k base (?L # S)"
  proof -
    have "distinct (concat (?L # S))"
      using distinct_insert_mid[of L1 p ?n2 "L2 @ concat S"] d(2) n2 by (simp add: L)
    moreover have "n < length (ct_nodes t2)" if "n \<in> set (concat (?L # S))" for n
    proof -
      have "n = ?n2 \<or> n \<in> set (concat (L # S))" using that by (auto simp: L)
      then show ?thesis using levels_okD(3)[OF lv, of n] len by linarith
    qed
    moreover have "set base \<inter> set (concat (?L # S)) = {}" if "k \<noteq> 0"
    proof -
      have "c \<notin> set (concat (L # S)) \<and> c \<noteq> ?n2" if "c \<in> set base" for c
        using levels_ok_base[OF lv that] \<open>k \<noteq> 0\<close> by auto
      then show ?thesis by (auto simp: L)
    qed
    moreover have "c < length (ct_nodes t2)" if "k \<noteq> 0" "c \<in> set base" for c
      using levels_ok_base[OF lv that(2)] that(1) by (simp add: len)
    moreover have "c < length (ct_leaves t2)" if "k = 0" "c \<in> set base" for c
      using levels_ok_base[OF lv that(2)] that(1) by (simp add: t2)
    moreover have "length (ct_nodes t2) \<le> usize_max" using room by (simp only: len)
    moreover have "\<forall>c \<in> set base. c < usize_max" using levels_okD(4)[OF lv] by blast
    ultimately show ?thesis using d(3) unfolding levels_ok_def by (simp only: if_splits) blast
  qed
  have fr: "frame t t2 k base (L # S)"
    unfolding frame_def
  proof (intro conjI allI impI)
    fix n assume n: "n < ?n2" "n \<notin> set (concat (L # S))"
    then have "n \<noteq> p" using p by auto
    then show "cn_indexes (ct_nodes t2 ! n) = cn_indexes (ct_nodes t ! n)" "cn_width (ct_nodes t2 ! n) = cn_width (ct_nodes t ! n)"
      using rec[OF n(1)] by simp_all
    assume "k = 0 \<or> n \<notin> set base"
    then show "parent_of t2 1 n = parent_of t 1 n" using par[of 1 n] n(1) mb[of n] by auto
  next
    fix l assume "0 < k \<or> l \<notin> set base"
    then show "parent_of t2 0 l = parent_of t 0 l" using par[of 0 l] mb[of l] by auto
  qed (simp_all add: t2 len)
  have width: "node_width t p = lp_add (node_width t2 p) (node_width t2 ?n2)"
    unfolding node_width_def wp wn lp_sum_append[symmetric] by simp
  have wn2: "node_width t2 ?n2 = lp_sum (drop ?H (cn_width (ct_nodes t ! p)))"
    by (simp add: node_width_def wn ix)
  have oth: "\<forall>n \<in> set L. n \<noteq> p \<longrightarrow> node_width t2 n = node_width t n" using same(3) Llt by blast
  show ?thesis
    using t1(1) L len lvl upr2 lv2 width oth kp(1) kn(1) wn2 parL fr t2(1,2)
    by (intro exI[of _ t1] exI[of _ L1] exI[of _ L2]) (simp add: Let_def t2_def)
qed

end
