(* ===== verification/ContentSplit.thy ===== *)
theory ContentSplit
  imports ContentShape
begin

text \<open>
  \<open>split_node\<close> and \<open>split_child_of_node\<close> keep the shape of the tree: a new element is entered right of the one
  it was split from, at every level up to the first node with room, or a new root.
\<close>

section \<open>Linking the new node\<close>

lemma node_eqI:
  "cn_indexes (ct_nodes t' ! n) = cn_indexes (ct_nodes t ! n) \<Longrightarrow> cn_width (ct_nodes t' ! n) = cn_width (ct_nodes t ! n) \<Longrightarrow>
   parent_of t' 1 n = parent_of t 1 n \<Longrightarrow> ct_nodes t' ! n = ct_nodes t ! n"
  by (intro content_node.equality) (simp_all add: parent_of_def)

lemma up_ok_reparent:
  assumes up: "up_ok t k (insert y X) base W (L # S)" and lv: "levels_ok t k base' (L # S)" and d: "distinct base"
    and rp: "reparented t t' k {y} q" and q: "q \<in> set L" "y \<in> set (kids t q)"
    and y: "0 < k \<Longrightarrow> y \<notin> set (concat (L # S))"
  shows "up_ok t' k X base W (L # S)"
proof -
  have eq: "cn_indexes (ct_nodes t' ! n) = cn_indexes (ct_nodes t ! n)" "cn_width (ct_nodes t' ! n) = cn_width (ct_nodes t ! n)" for n
    using rp by (simp_all add: reparented_def)
  have par: "parent_of t' j c = (if c = y \<and> (j = 0) = (k = 0) then q else parent_of t j c)" for j c
    using reparented_parent[OF rp] by simp
  have len: "length (ct_nodes t') = length (ct_nodes t)" using rp by (simp add: reparented_def)
  have kk: "kids t' n = kids t n" "widths t' n = widths t n" "node_width t' n = node_width t n" for n
    using node_facts_cong[OF eq] by simp_all
  have upS: "up_ok t (Suc k) {} L (node_width t) S" and cc: "concat (map (kids t) L) = base" using up by simp_all
  have par1: "parent_of t' 1 n = parent_of t 1 n" if "n \<in> set (concat (L # S))" for n
    using par[of 1 n] y that by (cases "k = 0") auto
  have "up_ok t' (Suc k) {} L (node_width t') S"
  proof (rule up_ok_cong[OF upS])
    show "n < length (ct_nodes t') \<and> ct_nodes t' ! n = ct_nodes t ! n" if "n \<in> set (concat S)" for n
      using levels_okD(3)[OF lv, of n] that node_eqI[OF eq par1[of n]] len by simp
    show "parent_of t' (Suc k) c = parent_of t (Suc k) c \<and> c \<notin> {}" if "c \<in> set L" for c
      using par1[of c] that by (simp add: parent_of_def)
    show "node_width t' c = node_width t c" for c by (rule kk)
  qed (use rp in \<open>simp_all add: reparented_def\<close>)
  moreover have "level_ok t' k X base W L"
    unfolding level_ok_def
  proof (intro conjI ballI impI)
    have "kids t' = kids t" by (rule ext) (rule kk)
    then show "concat (map (kids t') L) = base" by (simp add: cc)
    fix n assume n: "n \<in> set L"
    then have old: "node_ok t n" "widths t n = map W (kids t n)"
        "\<And>c. c \<in> set (kids t n) \<Longrightarrow> c \<notin> insert y X \<Longrightarrow> parent_of t k c = n"
      using up by auto
    show "node_ok t' n" using node_facts_cong(4)[OF eq _ old(1)] old(1) len by (simp add: node_ok_def)
    show "widths t' n = map W (kids t' n)" by (simp add: kk old)
    fix c assume c: "c \<in> set (kids t' n)" "c \<notin> X"
    show "parent_of t' k c = n"
    proof (cases "c = y")
      case True
      have "distinct (concat (map (kids t) L))" using cc d by simp
      then have "n = q" using distinct_concat_mapD(2)[of "kids t" L q n c] q c n True by (auto simp: kk)
      then show ?thesis using True by (simp add: par)
    next
      case False
      then show ?thesis using old(3)[of c] c by (simp add: par kk)
    qed
  qed
  ultimately show ?thesis by (simp only: up_ok_Cons)
qed

lemma new_root_up:
  assumes up: "up_ok t k X [x] W0 []" and xy: "x < usize_max" "y < usize_max"
    and W: "W0 x = lp_add (W x) (W y)"
  shows "\<exists>t'. create_new_root_node t x y (W y) = Some (t', length (ct_nodes t)) \<and>
    up_ok t' k {x, y} [x, y] W [[length (ct_nodes t)]] \<and> frame t t' k base [] \<and>
    length (ct_nodes t') = Suc (length (ct_nodes t)) \<and> x \<in> set (kids t' (length (ct_nodes t))) \<and> y \<in> set (kids t' (length (ct_nodes t)))"
proof -
  let ?r = "length (ct_nodes t)"
  let ?n = "\<lparr>cn_indexes = [x, y] @ replicate (NODE_CHILDREN - 2) usize_max,
      cn_width = [W x, W y] @ replicate (NODE_CHILDREN - 2) lp_zero, cn_parent = usize_max\<rparr>"
  let ?t = "t\<lparr>ct_height := ct_height t + 1, ct_root := ?r, ct_nodes := ct_nodes t @ [?n]\<rparr>"
  have tot: "ct_total t = lp_add (W x) (W y)" "k = ct_height t" "x = ct_root t" using up W by simp_all
  have "lp_sub (lp_add (W x) (W y)) (W y) = Some (W x)" by (simp add: lp_sub_def)
  then have run: "create_new_root_node t x y (W y) = Some (?t, ?r)"
    by (simp add: create_new_root_node_def tot(1) Let_def)
  have k: "kids ?t ?r = [x, y]" "node_ok ?t ?r"
    using node_ok_kids[of "[x, y]" ?r ?t] xy by (simp_all add: NODE_CHILDREN_def numeral_eq_Suc)
  have w: "widths ?t ?r = [W x, W y]" unfolding widths_def k(1) by simp
  have "up_ok ?t k {x, y} [x, y] W [[?r]]"
    using k w tot by (simp add: parent_of_def node_width_def)
  then show ?thesis using run k(1) by (intro exI[of _ ?t]) (simp add: frame_def nth_append parent_of_def)
qed


definition child_split where
  "child_split t t' k A x y B W S S' r \<longleftrightarrow>
     up_ok t' k {y} (A @ x # y # B) W S' \<and> levels_ok t' k (A @ x # B) S' \<and>
     set (concat S') \<subseteq> set (concat S) \<union> {length (ct_nodes t)..} \<and> frame t t' k (A @ x # B) S \<and>
     length (ct_nodes t') \<le> Suc (length (ct_nodes t) + length S) \<and> S' \<noteq> [] \<and> length S' \<le> Suc (length S) \<and>
     r \<in> set (hd S') \<and> x \<in> set (kids t' r) \<and> y \<in> set (kids t' r)"

definition linked where
  "linked t t' k A x y B W S S' \<longleftrightarrow>
     up_ok t' k {} (A @ x # y # B) W S' \<and> levels_ok t' k (A @ x # y # B) S' \<and>
     set (concat S') \<subseteq> set (concat S) \<union> {length (ct_nodes t)..} \<and> frame t t' k (y # A @ x # B) S \<and>
     length (ct_nodes t') \<le> Suc (length (ct_nodes t) + length S) \<and> S' \<noteq> [] \<and> length S' \<le> Suc (length S)"

definition link_node where
  "link_node split_child t p n stolen_len =
     do {
       old_node \<leftarrow> ct_node t p;
       if p = ct_root t
       then do {
         (t, parent) \<leftarrow> create_new_root_node t p n stolen_len;
         t \<leftarrow> set_node_parent parent t p;
         t \<leftarrow> set_node_parent parent t n;
         Some (t, n)
       }
       else do {
         (t, parent) \<leftarrow> split_child t (cn_parent old_node) p n stolen_len False;
         t \<leftarrow> set_node_parent parent t n;
         Some (t, n)
       }
     }"

lemma levels_ok_len:
  "length (ct_nodes t') = length (ct_nodes t) \<Longrightarrow> length (ct_leaves t') = length (ct_leaves t) \<Longrightarrow>
   levels_ok t' k base S = levels_ok t k base S"
  by (simp add: levels_ok_def)

lemma frame_reparent:
  assumes "frame t t' k base S" "reparented t' t'' k {y} q"
  shows "frame t t'' k (y # base) S"
proof -
  have par: "parent_of t'' j c = (if c = y \<and> (j = 0) = (k = 0) then q else parent_of t' j c)" for j c
    using reparented_parent[OF assms(2)] by simp
  show ?thesis using assms unfolding frame_def par by (simp add: reparented_def)
qed

lemma frame_mono: "frame t t' k base S \<Longrightarrow> set base \<subseteq> set base' \<Longrightarrow> frame t t' k base' S"
  unfolding frame_def by blast

lemma set_node_parent_at: "set_node_parent q = set_parent_at (Suc k) q"
  by (simp add: set_parent_at_def)

lemma levels_ok_add:
  assumes "levels_ok t (Suc k) (A @ x # B) S" "y \<notin> set (A @ x # B)" "y < length (ct_nodes t)" "y < usize_max" "y \<notin> set (concat S)"
  shows "levels_ok t (Suc k) (A @ x # y # B) S"
  using assms by (auto simp: levels_ok_def)

lemma link_root:
  assumes up: "up_ok t (Suc k) {} [x] W0 []" and lv: "levels_ok t (Suc k) [x, y] []"
    and W: "W0 x = lp_add (W x) (W y)" and room: "length (ct_nodes t) < usize_max"
  shows "\<exists>t' S'. link_node sc t x y (W y) = Some (t', y) \<and> linked t t' (Suc k) [] x y [] W [] S'"
proof -
  let ?r = "length (ct_nodes t)"
  have xy: "x < usize_max" "y < usize_max" "x < ?r" "y < ?r" "x \<noteq> y"
    using levels_okD(2,4)[OF lv] levels_ok_base[OF lv] by auto
  have root: "x = ct_root t" using up by simp
  obtain t1 where t1: "create_new_root_node t x y (W y) = Some (t1, ?r)"
      "up_ok t1 (Suc k) {x, y} [x, y] W [[?r]]" "frame t t1 (Suc k) [x] []" "length (ct_nodes t1) = Suc ?r"
      "x \<in> set (kids t1 ?r)" "y \<in> set (kids t1 ?r)"
    using new_root_up[OF up xy(1,2) W] by blast
  have lv1: "levels_ok t1 (Suc k) [x, y] [[?r]]" using t1(4) xy room by (simp add: levels_ok_def)
  obtain t2 where t2: "set_node_parent ?r t1 x = Some t2" "reparented t1 t2 (Suc k) {x} ?r"
    using set_parent_at_spec[of "Suc k" x t1 ?r] t1(4) xy(3) unfolding set_node_parent_at[of ?r k] by auto
  obtain t3 where t3: "set_node_parent ?r t2 y = Some t3" "reparented t2 t3 (Suc k) {y} ?r"
    using set_parent_at_spec[of "Suc k" y t2 ?r] t1(4) t2(2) xy(4) unfolding set_node_parent_at[of ?r k]
    by (auto simp: reparented_def)
  have len: "length (ct_nodes t2) = length (ct_nodes t1)" "length (ct_leaves t2) = length (ct_leaves t1)"
    "length (ct_nodes t3) = length (ct_nodes t1)" "length (ct_leaves t3) = length (ct_leaves t1)"
    using t2(2) t3(2) by (simp_all add: reparented_def)
  have kk: "kids t2 n = kids t1 n" for n using t2(2) node_facts_cong(1)[of t2 n t1] by (simp add: reparented_def)
  have "up_ok t2 (Suc k) {y} [x, y] W [[?r]]"
    using up_ok_reparent[OF t1(2) lv1 _ t2(2)] xy t1(5) by auto
  moreover have "levels_ok t2 (Suc k) [x, y] [[?r]]" using lv1 levels_ok_len[OF len(1,2)] by blast
  ultimately have "up_ok t3 (Suc k) {} [x, y] W [[?r]]"
    using up_ok_reparent[of t2 "Suc k" y "{}" "[x, y]" W "[?r]" "[]" "[x, y]" t3 ?r] xy t1(6) t3(2) by (auto simp: kk)
  moreover have "levels_ok t3 (Suc k) [x, y] [[?r]]" using lv1 levels_ok_len[OF len(3,4)] by blast
  moreover have "frame t t3 (Suc k) [y, x] []"
    using frame_mono[OF frame_reparent[OF frame_reparent[OF t1(3) t2(2)] t3(2)]] by simp
  ultimately have "linked t t3 (Suc k) [] x y [] W [] [[?r]]" using len t1(4) by (simp add: linked_def del: up_ok.simps)
  moreover have "link_node sc t x y (W y) = Some (t3, y)"
    using t1(1) t2(1) t3(1) xy(3) root by (simp add: link_node_def ct_node_def get_at_def)
  ultimately show ?thesis by blast
qed

lemma link_up:
  assumes sc: "sc t (parent_of t (Suc k) x) x y (W y) False = Some (t1, r)"
    and sp: "child_split t t1 (Suc k) A x y B W S S' r"
    and x: "x \<noteq> ct_root t" "x < length (ct_nodes t)"
    and y: "y \<notin> set (A @ x # B)" "y < length (ct_nodes t)" "y < usize_max" "y \<notin> set (concat S)"
  shows "\<exists>t'. link_node sc t x y (W y) = Some (t', y) \<and> linked t t' (Suc k) A x y B W S S'"
proof -
  note sp = sp[unfolded child_split_def]
  obtain M T where S': "S' = M # T" using sp by (cases S') auto
  have up: "up_ok t1 (Suc k) {y} (A @ x # y # B) W (M # T)" and lv: "levels_ok t1 (Suc k) (A @ x # B) (M # T)"
    and fr: "frame t t1 (Suc k) (A @ x # B) S" and r: "r \<in> set M" "y \<in> set (kids t1 r)"
    using sp by (simp_all add: S')
  have yS: "y \<notin> set (concat S')" using sp y by fastforce
  have "length (ct_nodes t) \<le> length (ct_nodes t1)" using fr by (simp add: frame_def)
  then have y1: "y < length (ct_nodes t1)" using y by simp
  then obtain t2 where t2: "set_node_parent r t1 y = Some t2" "reparented t1 t2 (Suc k) {y} r"
    using set_parent_at_spec[of "Suc k" y t1 r] unfolding set_node_parent_at[of r k] by auto
  have len: "length (ct_nodes t2) = length (ct_nodes t1)" "length (ct_leaves t2) = length (ct_leaves t1)"
    using t2(2) by (simp_all add: reparented_def)
  have "distinct (A @ x # y # B)" using levels_okD(2)[OF lv] y(1) by auto
  then have "up_ok t2 (Suc k) {} (A @ x # y # B) W (M # T)"
    using up_ok_reparent[OF up lv _ t2(2) r] yS by (simp add: S')
  moreover have "levels_ok t2 (Suc k) (A @ x # y # B) S'"
    using levels_ok_add[OF lv y(1) y1 y(3)] yS levels_ok_len[OF len] by (simp add: S')
  ultimately have "linked t t2 (Suc k) A x y B W S S'"
    using sp frame_reparent[OF fr t2(2)] len unfolding linked_def by (simp add: S')
  moreover have "link_node sc t x y (W y) = Some (t2, y)"
    using sc t2(1) x by (simp add: link_node_def ct_node_def get_at_def parent_of_def)
  ultimately show ?thesis by blast
qed


lemma frame_set:
  assumes "frame t t' k base S" "cn_parent m = cn_parent (ct_nodes t' ! q)" "q < length (ct_nodes t')"
    and "q \<in> set (concat S) \<or> length (ct_nodes t) \<le> q"
  shows "frame t (ct_set_node t' q m) k base S"
proof -
  have "parent_of (ct_set_node t' q m) j c = parent_of t' j c" for j c using assms(2,3) by (simp add: parent_of_def)
  then show ?thesis using assms unfolding frame_def by auto
qed

lemma frame_comp:
  assumes "frame t t2 k base (L # S)" "frame t2 t' (Suc k) (n # L) S" "length (ct_nodes t) \<le> n"
  shows "frame t t' k base (L # S)"
  using assms unfolding frame_def by auto

lemma link_level:
  assumes lo: "level_ok t2 k {} base W0 L'" and lv: "levels_ok t2 k base (L' # S)"
    and fr: "frame t2 t' (Suc k) bs S" and sub: "set bs \<subseteq> set L'"
  shows "level_ok t' k {} base W0 L'"
    and "n \<in> set L' \<Longrightarrow> kids t' n = kids t2 n \<and> node_width t' n = node_width t2 n"
proof -
  have eq: "n < length (ct_nodes t') \<and> cn_indexes (ct_nodes t' ! n) = cn_indexes (ct_nodes t2 ! n) \<and>
      cn_width (ct_nodes t' ! n) = cn_width (ct_nodes t2 ! n)" if "n \<in> set L'" for n
  proof -
    have "n < length (ct_nodes t2)" "n \<notin> set (concat S)"
      using levels_okD(1)[OF lv] levels_okD(3)[OF lv, of n] that by auto
    then show ?thesis using fr by (simp add: frame_def)
  qed
  show "n \<in> set L' \<Longrightarrow> kids t' n = kids t2 n \<and> node_width t' n = node_width t2 n"
    using eq[of n] node_facts_cong[of t' n t2] by blast
  show "level_ok t' k {} base W0 L'"
  proof (rule level_ok_cong[OF lo eq])
    fix c assume c: "c \<in> set base"
    show "parent_of t' k c = parent_of t2 k c"
    proof (cases "k = 0")
      case True
      then show ?thesis using fr by (simp add: frame_def)
    next
      case False
      then have "c < length (ct_nodes t2)" "c \<notin> set L'" "c \<notin> set (concat S)"
        using levels_ok_base[OF lv c] by auto
      then have "c \<notin> set bs" using sub by blast
      then have "parent_of t' 1 c = parent_of t2 1 c"
        using fr \<open>c < _\<close> \<open>c \<notin> set (concat S)\<close> unfolding frame_def by blast
      then show ?thesis using parent_of_pos[of k t' c] parent_of_pos[of k t2 c] False by simp
    qed
  qed
qed

lemma link_levels:
  assumes lv: "levels_ok t2 k base (L' # S)" and lv': "levels_ok t' (Suc k) L' S'"
    and new: "set (concat S') \<subseteq> set (concat S) \<union> {length (ct_nodes t2)..}" and fr: "frame t2 t' (Suc k) bs S"
  shows "levels_ok t' k base (L' # S')"
proof -
  have len: "length (ct_leaves t') = length (ct_leaves t2)" "length (ct_nodes t2) \<le> length (ct_nodes t')"
    using fr by (simp_all add: frame_def)
  have up: "distinct L'" "distinct (concat S')" "set L' \<inter> set (concat S') = {}" "length (ct_nodes t') \<le> usize_max"
    "\<forall>n \<in> set L' \<union> set (concat S'). n < length (ct_nodes t')"
    using lv' by (auto simp: levels_ok_def)
  have base: "distinct base" "\<forall>c \<in> set base. c < usize_max" using levels_okD[OF lv] by auto
  have b: "if k = 0 then c < length (ct_leaves t') else c < length (ct_nodes t') \<and> c \<notin> set L' \<union> set (concat S')"
    if "c \<in> set base" for c
    using levels_ok_base[OF lv that] len new by (fastforce split: if_splits)
  have "distinct (concat (L' # S'))" using up(1-3) by simp
  moreover have "\<forall>n \<in> set (concat (L' # S')). n < length (ct_nodes t')" using up(5) by simp
  moreover have "set base \<inter> set (concat (L' # S')) = {}" if "k \<noteq> 0" using b that by auto
  moreover have "\<forall>c \<in> set base. c < length (ct_nodes t')" if "k \<noteq> 0" using b that by simp
  moreover have "\<forall>c \<in> set base. c < length (ct_leaves t')" if "k = 0" using b that by simp
  ultimately show ?thesis using up(4) base unfolding levels_ok_def by (simp only: if_splits) blast
qed

lemma child_split_here:
  assumes up: "up_ok t' k {} (A @ x # B) W0 (L' # S')" and lv: "levels_ok t' k (A @ x # B) (L' # S')"
    and fr: "frame t t' k (A @ x # B) S"
    and p: "p \<in> set L'" "x \<in> set (kids t' p)" and room: "length (kids t' p) < NODE_CHILDREN"
    and y: "y < usize_max" "y \<notin> set (A @ x # B)"
    and W: "W0 x = lp_add (W x) (W y)" "\<And>c. c \<in> set (A @ B) \<Longrightarrow> W0 c = W c"
    and new: "set (concat (L' # S')) \<subseteq> set (concat S) \<union> {length (ct_nodes t)..}"
    and len: "length (ct_nodes t') \<le> Suc (length (ct_nodes t) + length S)" "length S' \<le> length S"
  shows "\<exists>a b t''. kids t' p = a @ x # b \<and> idx_of_child (ct_nodes t' ! p) x = Some (length a) \<and>
    insert_child t' p (length a) y (W y) = Some t'' \<and> child_split t t'' k A x y B W S (L' # S') p"
proof -
  obtain m a b where m: "kids t' p = a @ x # b" "idx_of_child (ct_nodes t' ! p) x = Some (length a)"
      "insert_child t' p (length a) y (W y) = Some (ct_set_node t' p m)" "cn_parent m = cn_parent (ct_nodes t' ! p)"
      "x \<in> set (kids (ct_set_node t' p m) p)" "y \<in> set (kids (ct_set_node t' p m) p)"
      "up_ok (ct_set_node t' p m) k {y} (A @ x # y # B) W (L' # S')"
    using insert_child_up[OF up lv p room y W] by blast
  have pl: "p < length (ct_nodes t')" using levels_okD(3)[OF lv, of p] p by simp
  have "frame t (ct_set_node t' p m) k (A @ x # B) S"
  proof (rule frame_set[OF fr m(4) pl])
    have "p \<in> set (concat (L' # S'))" using p(1) by simp
    then show "p \<in> set (concat S) \<or> length (ct_nodes t) \<le> p" using new by blast
  qed
  moreover have "levels_ok (ct_set_node t' p m) k (A @ x # B) (L' # S')"
    using lv levels_ok_len[of "ct_set_node t' p m" t'] pl by simp
  ultimately have "child_split t (ct_set_node t' p m) k A x y B W S (L' # S') p"
    using m(5-7) new len p(1) pl unfolding child_split_def by simp
  then show ?thesis using m by blast
qed


lemma split_node_with_link:
  assumes "set_parents (set_parent_at k (length (ct_nodes t))) (cut_node t p)
      (take NODE_SPLIT_POINT (cn_indexes (half_node t p))) = Some t1"
    and "p < length (ct_nodes t)"
  shows "split_node_with sc t p (k = 0) = link_node sc (t1\<lparr>ct_nodes := ct_nodes t1 @ [half_node t p]\<rparr>) p
      (length (ct_nodes t)) (lp_sum (drop NODE_SPLIT_POINT (cn_width (ct_nodes t ! p))))"
proof -
  have "ct_node t p = Some (ct_nodes t ! p)" using assms(2) by (simp add: ct_node_def get_at_def)
  then show ?thesis using assms(1)
    by (simp add: split_node_with_def Let_def set_parents_if link_node_def half_node_def cut_node_def)
qed

lemma levels_ok_subset:
  assumes "levels_ok t k base S" "distinct base'" "set base' \<subseteq> set base"
  shows "levels_ok t k base' S"
proof (cases "k = 0")
  case True
  then show ?thesis using assms unfolding levels_ok_def by (simp add: subset_iff)
next
  case False
  then have "set base \<inter> set (concat S) = {}" using assms(1) unfolding levels_ok_def by presburger
  then have "set base' \<inter> set (concat S) = {}" using assms(3) by blast
  then show ?thesis using False assms unfolding levels_ok_def by (simp add: subset_iff)
qed

lemma levels_ok_sub: "levels_ok t k (A @ x # y # B) S \<Longrightarrow> levels_ok t k (A @ x # B) S"
  using levels_okD(2)[of t k "A @ x # y # B" S] by (auto intro: levels_ok_subset)

lemma split_child_full:
  fixes t :: "'v content_tree"
  assumes up: "up_ok t k {} (A @ x # B) W0 (L # S)" and lv: "levels_ok t k (A @ x # B) (L # S)"
    and p: "p \<in> set L" "x \<in> set (kids t p)" and full: "length (kids t p) = NODE_CHILDREN"
    and y: "y < usize_max" "y \<notin> set (A @ x # B)"
    and W: "W0 x = lp_add (W x) (W y)" "\<And>c. c \<in> set (A @ B) \<Longrightarrow> W0 c = W c"
    and room: "length (ct_nodes t) + length (L # S) < usize_max"
    and link: "\<And>(t2 :: 'v content_tree) L1 L2 n2. \<lbrakk>up_ok t2 (Suc k) {} (L1 @ p # L2) (node_width t) S; levels_ok t2 (Suc k) (L1 @ p # n2 # L2) S;
        n2 = length (ct_nodes t); length (ct_nodes t2) = Suc n2; node_width t p = lp_add (node_width t2 p) (node_width t2 n2);
        \<And>n. n \<in> set (L1 @ L2) \<Longrightarrow> node_width t n = node_width t2 n; L = L1 @ p # L2\<rbrakk> \<Longrightarrow>
        \<exists>t' S'. link_node split_child_of_node t2 p n2 (node_width t2 n2) = Some (t', n2) \<and>
          linked t2 t' (Suc k) L1 p n2 L2 (node_width t2) S S'"
  shows "\<exists>t' S' r. split_child_of_node t p x y (W y) (k = 0) = Some (t', r) \<and> child_split t t' k A x y B W (L # S) S' r"
proof -
  let ?n2 = "length (ct_nodes t)" and ?H = NODE_SPLIT_POINT
  have d: "distinct (A @ x # B)" using levels_okD[OF lv] by simp
  have ok: "node_ok t p" using up p by simp
  have dk: "distinct (kids t p)"
    using distinct_concat_mapD(1)[of "kids t" L p] up d p(1) by simp
  obtain t1 L1 L2 t2 where h: "set_parents (set_parent_at k ?n2) (cut_node t p) (take ?H (cn_indexes (half_node t p))) = Some t1"
      "L = L1 @ p # L2" "t2 = t1\<lparr>ct_nodes := ct_nodes t1 @ [half_node t p]\<rparr>"
      "length (ct_nodes t2) = Suc ?n2" "level_ok t2 k {} (A @ x # B) W0 (L1 @ p # ?n2 # L2)"
      "up_ok t2 (Suc k) {} L (node_width t) S" "levels_ok t2 k (A @ x # B) ((L1 @ p # ?n2 # L2) # S)"
      "node_width t p = lp_add (node_width t2 p) (node_width t2 ?n2)"
      "\<forall>n \<in> set L. n \<noteq> p \<longrightarrow> node_width t2 n = node_width t n"
      "kids t2 p = take ?H (kids t p)" "kids t2 ?n2 = drop ?H (kids t p)"
      "node_width t2 ?n2 = lp_sum (drop ?H (cn_width (ct_nodes t ! p)))" "frame t t2 k (A @ x # B) (L # S)"
    using split_half[OF up lv p(1) full] room by (auto simp: Let_def)
  let ?L = "L1 @ p # ?n2 # L2"
  have dL: "distinct ?L" using levels_okD(1)[OF h(7)] unfolding concat.simps distinct_append by blast
  have notp: "node_width t n = node_width t2 n" if "n \<in> set (L1 @ L2)" for n using h(2,9) dL that by auto
  obtain t4 S' where l: "link_node split_child_of_node t2 p ?n2 (node_width t2 ?n2) = Some (t4, ?n2)"
      "linked t2 t4 (Suc k) L1 p ?n2 L2 (node_width t2) S S'"
    using link[OF h(6)[unfolded h(2)] levels_ok_up[OF h(7)] refl h(4) h(8) notp h(2)] by blast
  note l2 = l(2)[unfolded linked_def]
  have fr: "frame t2 t4 (Suc k) (?n2 # L) S" using l2 unfolding h(2) by blast
  have sub: "set (?n2 # L) \<subseteq> set ?L" unfolding h(2) by auto
  note lvl = link_level[OF h(5) h(7) fr sub]
  have nw: "up_ok t4 (Suc k) {} ?L (node_width t4) S'"
    by (rule up_ok_cong[where X = "{}" and W = "node_width t2"]) (use l2 lvl(2) in \<open>auto simp: levels_ok_def\<close>)
  have up4: "up_ok t4 k {} (A @ x # B) W0 (?L # S')" using lvl(1) nw by (simp only: up_ok_Cons)
  have lv4: "levels_ok t4 k (A @ x # B) (?L # S')"
    using link_levels[OF h(7) _ _ fr, of S'] l2 h(4) by auto
  have fr4: "frame t t4 k (A @ x # B) (L # S)" using frame_comp[OF h(13) fr] by simp
  have new: "set (concat (?L # S')) \<subseteq> set (concat (L # S)) \<union> {?n2..}" using l2 h(4) by (fastforce simp: h(2))
  have len: "length (ct_nodes t4) \<le> Suc (?n2 + length (L # S))" "length S' \<le> length (L # S)" using l2 h(4) by auto
  obtain a b where ab: "kids t p = a @ x # b" using p(2) by (meson split_list)
  have pos: "idx_of_child (ct_nodes t ! p) x = Some (length a)"
    using ok dk by (simp add: idx_of_child_def node_ok_def ab, intro position_append) auto
  have la: "length a < NODE_CHILDREN" using ab full by simp
  have small: "\<forall>c \<in> set (kids t p). c < usize_max" using kids_level[OF up p(1)] levels_okD(4)[OF lv] by blast
  have isf: "cn_is_full (ct_nodes t ! p)" using is_full_iff[OF ok small] full by simp
  have pl: "p < ?n2" and mod: "length a mod length (cn_width (ct_nodes t ! p)) = length a"
    using ok la by (simp_all add: node_ok_def)
  have run: "split_child_of_node t p x y (W y) (k = 0) =
      do { (t', r, c) \<leftarrow> Some (if ?H \<le> length a then (t4, ?n2, length a - ?H) else (t4, p, length a));
           t'' \<leftarrow> insert_child t' r c y (W y); Some (t'', r) }"
    by (subst split_child_of_node.simps)
      (simp only: ct_node_ok[OF ok] Let_def isf if_True pos mod split_node_with_link[OF h(1) pl] h(3)[symmetric]
        h(12)[symmetric] l(1) Option.bind.simps prod.case)
  note half = half_pos[OF ab dk, of ?H]
  show ?thesis
  proof (cases "?H \<le> length a")
    case True
    have x: "x \<in> set (kids t4 ?n2)" "length (kids t4 ?n2) < NODE_CHILDREN"
      using half(2)[OF True, THEN conjunct1] lvl(2)[of ?n2] full NODE_SPLIT by (simp_all add: h(11))
    obtain a' b' t5 where c: "kids t4 ?n2 = a' @ x # b'" "insert_child t4 ?n2 (length a') y (W y) = Some t5"
        "child_split t t5 k A x y B W (L # S) (?L # S') ?n2"
      using child_split_here[OF up4 lv4 fr4 _ x y W new len] by auto
    have "drop ?H (kids t p) = a' @ x # b'" using c(1) lvl(2)[of ?n2] by (simp add: h(11))
    then have "length a' = length a - ?H" using half(2)[OF True] by blast
    then show ?thesis using c(2,3) True run by auto
  next
    case False
    have x: "x \<in> set (kids t4 p)" "length (kids t4 p) < NODE_CHILDREN"
      using half(1)[THEN conjunct1] False lvl(2)[of p] full NODE_SPLIT by (simp_all add: h(10))
    obtain a' b' t5 where c: "kids t4 p = a' @ x # b'" "insert_child t4 p (length a') y (W y) = Some t5"
        "child_split t t5 k A x y B W (L # S) (?L # S') p"
      using child_split_here[OF up4 lv4 fr4 _ x y W new len] by auto
    have "take ?H (kids t p) = a' @ x # b'" using c(1) lvl(2)[of p] by (simp add: h(10))
    then have "a' = a" using half(1) False by (metis not_le_imp_less)
    then show ?thesis using c(2,3) False run by auto
  qed
qed


lemma split_child_room:
  assumes up: "up_ok t k {} (A @ x # B) W0 (L # S)" and lv: "levels_ok t k (A @ x # B) (L # S)"
    and p: "p \<in> set L" "x \<in> set (kids t p)" and room: "length (kids t p) \<noteq> NODE_CHILDREN"
    and y: "y < usize_max" "y \<notin> set (A @ x # B)"
    and W: "W0 x = lp_add (W x) (W y)" "\<And>c. c \<in> set (A @ B) \<Longrightarrow> W0 c = W c"
  shows "\<exists>t' S' r. split_child_of_node t p x y (W y) (k = 0) = Some (t', r) \<and> child_split t t' k A x y B W (L # S) S' r"
proof -
  have ok: "node_ok t p" using up p by simp
  then have less: "length (kids t p) < NODE_CHILDREN" using room by (simp add: node_ok_def)
  have fr: "frame t t k (A @ x # B) (L # S)" by (simp add: frame_def)
  obtain a b t' where c: "kids t p = a @ x # b" "idx_of_child (ct_nodes t ! p) x = Some (length a)"
      "insert_child t p (length a) y (W y) = Some t'" "child_split t t' k A x y B W (L # S) (L # S) p"
    using child_split_here[OF up lv fr p less y W] by auto
  have small: "\<forall>c \<in> set (kids t p). c < usize_max" using kids_level[OF up p(1)] levels_okD(4)[OF lv] by blast
  have "split_child_of_node t p x y (W y) (k = 0) = Some (t', p)"
    using is_full_iff[OF ok small] less c ok
    by (subst split_child_of_node.simps) (simp add: ct_node_ok Let_def node_ok_def)
  then show ?thesis using c(4) by blast
qed

theorem split_child_up:
  assumes "up_ok t k {} (A @ x # B) W0 (L # S)" "levels_ok t k (A @ x # B) (L # S)"
    and "p \<in> set L" "x \<in> set (kids t p)" "y < usize_max" "y \<notin> set (A @ x # B)"
    and "W0 x = lp_add (W x) (W y)" "\<And>c. c \<in> set (A @ B) \<Longrightarrow> W0 c = W c"
    and "length (ct_nodes t) + length (L # S) < usize_max"
  shows "\<exists>t' S' r. split_child_of_node t p x y (W y) (k = 0) = Some (t', r) \<and> child_split t t' k A x y B W (L # S) S' r"
  using assms
proof (induction S arbitrary: t k A x y B W0 W L p)
  case Nil
  note up = Nil.prems(1) and lv = Nil.prems(2)
  show ?case
  proof (cases "length (kids t p) = NODE_CHILDREN")
    case True
    show ?thesis
    proof (rule split_child_full[OF Nil.prems(1-4) True Nil.prems(5-9)])
      fix t2 L1 L2 n2
      assume a: "up_ok t2 (Suc k) {} (L1 @ p # L2) (node_width t) []" "levels_ok t2 (Suc k) (L1 @ p # n2 # L2) []"
        "n2 = length (ct_nodes t)" "length (ct_nodes t2) = Suc n2" "node_width t p = lp_add (node_width t2 p) (node_width t2 n2)"
      then have e: "L1 = []" "L2 = []" by (auto simp: append_eq_Cons_conv Cons_eq_append_conv)
      have "length (ct_nodes t2) < usize_max" using Nil.prems(9) a(3,4) by simp
      then show "\<exists>t' S'. link_node split_child_of_node t2 p n2 (node_width t2 n2) = Some (t', n2) \<and>
          linked t2 t' (Suc k) L1 p n2 L2 (node_width t2) [] S'"
        using link_root[OF a(1,2)[unfolded e append.simps] a(5)] unfolding e by blast
    qed auto
  next
    case False
    then show ?thesis by (rule split_child_room[OF Nil.prems(1-4) _ Nil.prems(5-8)])
  qed
next
  case (Cons M S)
  show ?case
  proof (cases "length (kids t p) = NODE_CHILDREN")
    case True
    show ?thesis
    proof (rule split_child_full[OF Cons.prems(1-4) True Cons.prems(5-9)])
      fix t2 :: "'a content_tree" and L1 L2 n2
      assume a: "up_ok t2 (Suc k) {} (L1 @ p # L2) (node_width t) (M # S)" "levels_ok t2 (Suc k) (L1 @ p # n2 # L2) (M # S)"
        "n2 = length (ct_nodes t)" "length (ct_nodes t2) = Suc n2" "node_width t p = lp_add (node_width t2 p) (node_width t2 n2)"
        "\<And>n. n \<in> set (L1 @ L2) \<Longrightarrow> node_width t n = node_width t2 n"
      let ?q = "parent_of t2 (Suc k) p"
      have lv: "levels_ok t2 (Suc k) (L1 @ p # L2) (M # S)" by (rule levels_ok_sub[OF a(2)])
      have q: "?q \<in> set M" "p \<in> set (kids t2 ?q)" using level_parent[OF a(1), of p] by simp_all
      have d: "distinct (L1 @ p # n2 # L2)" by (rule levels_okD(2)[OF a(2)])
      have n: "n2 < usize_max" "n2 \<notin> set (L1 @ p # L2)" "p < length (ct_nodes t2)" "n2 < length (ct_nodes t2)" "n2 \<notin> set (concat (M # S))"
        using levels_okD(4)[OF a(2), of n2] d levels_ok_base[OF a(2), of p] levels_ok_base[OF a(2), of n2] by auto
      have room: "length (ct_nodes t2) + length (M # S) < usize_max" using Cons.prems(9) a(3,4) by simp
      obtain t1 S' r where sp: "split_child_of_node t2 ?q p n2 (node_width t2 n2) False = Some (t1, r)"
          "child_split t2 t1 (Suc k) L1 p n2 L2 (node_width t2) (M # S) S' r"
        using Cons.IH[OF a(1) lv q n(1,2) a(5,6) room] by auto
      have "ct_root t2 \<in> set (concat (M # S))"
      proof -
        have "ct_root t2 \<in> set (last (M # S))" using root_level[OF a(1)] by simp
        then show ?thesis using last_in_set[of "M # S"] by auto
      qed
      moreover have "p \<notin> set (concat (M # S))" using levels_ok_base[OF a(2), of p] by simp
      ultimately have "p \<noteq> ct_root t2" by blast
      then show "\<exists>t' S'. link_node split_child_of_node t2 p n2 (node_width t2 n2) = Some (t', n2) \<and>
          linked t2 t' (Suc k) L1 p n2 L2 (node_width t2) (M # S) S'"
        using link_up[where sc = split_child_of_node and W = "node_width t2", OF sp] n by blast
    qed
  next
    case False
    then show ?thesis by (rule split_child_room[OF Cons.prems(1-4) _ Cons.prems(5-8)])
  qed
qed

end
