(* ===== verification/ContentFlush.thy ===== *)
theory ContentFlush
  imports ContentSplit
begin

text \<open>
  Flushing the pending change of a leaf: the stored length of the leaf is corrected in every node above it, and
  the total.  The lengths are natural numbers here as long as the corrected total fits; the wrapping additions
  of the code are exact then.
\<close>

definition shifted :: "len_pair \<Rightarrow> len_update \<Rightarrow> len_pair \<Rightarrow> bool" where
  "shifted w d w' \<longleftrightarrow> int (lp_cur w') = int (lp_cur w) + lu_cur d \<and> int (lp_end w') = int (lp_end w) + lu_end d"

definition lp_fits :: "len_pair \<Rightarrow> bool" where
  "lp_fits w \<longleftrightarrow> lp_cur w \<le> usize_max \<and> lp_end w \<le> usize_max"

lemma shifted_update: "shifted w d w' \<Longrightarrow> lp_fits w' \<Longrightarrow> lp_update_by w d = w'"
  unfolding shifted_def lp_fits_def lp_update_by_def
  by (intro lp_eqI) (simp_all add: wrapping_add_signed_exact nat_eq_iff)

lemma shifted_add: "shifted w d w' \<Longrightarrow> shifted (lp_add a (lp_add w b)) d (lp_add a (lp_add w' b))"
  by (simp add: shifted_def)

lemma lp_fits_add: "lp_fits (lp_add a b) \<Longrightarrow> lp_fits a \<and> lp_fits b"
  by (simp add: lp_fits_def)

lemma lp_fits_sum: "lp_fits (lp_sum ws) \<Longrightarrow> w \<in> set ws \<Longrightarrow> lp_fits w"
  by (induction ws) (auto dest: lp_fits_add)

lemma lp_sum_concat: "lp_sum (map (\<lambda>xs. lp_sum (map f xs)) xss) = lp_sum (map f (concat xss))"
  by (induction xss) simp_all

text \<open>The sum of a level is the same for all levels.\<close>

lemma level_sum:
  assumes "level_ok t k X base W L"
  shows "lp_sum (map (node_width t) L) = lp_sum (map W base)"
proof -
  have "map (node_width t) L = map (\<lambda>n. lp_sum (map W (kids t n))) L"
    using assms by (auto simp: level_ok_def node_width_def)
  then have "lp_sum (map (node_width t) L) = lp_sum (map (\<lambda>n. lp_sum (map W (kids t n))) L)" by (rule arg_cong)
  then show ?thesis using assms lp_sum_concat[of W "map (kids t) L"] by (simp add: level_ok_def comp_def)
qed

lemma up_ok_total: "up_ok t k X base W S \<Longrightarrow> ct_total t = lp_sum (map W base)"
proof (induction S arbitrary: k X base W)
  case (Cons L S)
  then show ?case using level_sum[of t k X base W L] unfolding up_ok_Cons by auto
qed simp

lemma flush_node:
  assumes up: "up_ok t k {} (A @ x # B) W (L # S)" and lv: "levels_ok t k (A @ x # B) (L # S)"
    and p: "p = parent_of t k x" and w: "shifted (W x) d w'" and fits: "lp_fits (lp_sum (map (W(x := w')) (A @ x # B)))"
  shows "\<exists>t'. t' = ct_set_node t p ((ct_nodes t ! p)\<lparr>cn_width := cn_width (ct_nodes t' ! p)\<rparr>) \<and>
      p \<in> set L \<and> up_ok t' (Suc k) {} L (node_width t) S \<and> shifted (node_width t p) d (node_width t' p) \<and>
      (\<forall>n. n \<noteq> p \<longrightarrow> node_width t' n = node_width t n) \<and> level_ok t' k {} (A @ x # B) (W(x := w')) L \<and>
      flush_up (ct_nodes t) p x d = flush_up (ct_nodes t') (cn_parent (ct_nodes t ! p)) p d"
proof -
  have dd: "distinct (A @ x # B)" "distinct (concat (L # S))" using levels_okD(1,2)[OF lv] by simp_all
  have cc: "concat (map (kids t) L) = A @ x # B" using up by simp
  have pL: "p \<in> set L" "x \<in> set (kids t p)" using level_parent[OF up, of x] p by simp_all
  obtain L1 L2 a b where L: "L = L1 @ p # L2" and ks: "kids t p = a @ x # b"
    and AB: "A = concat (map (kids t) L1) @ a" "B = b @ concat (map (kids t) L2)"
    using concat_map_at[OF cc pL(1) _ dd(1)] pL(2) by metis
  have ok: "node_ok t p" "widths t p = map W (kids t p)" using up pL(1) by simp_all
  let ?n = "ct_nodes t ! p"
  have N: "length (cn_width ?n) = NODE_CHILDREN" "p < length (ct_nodes t)" "length (kids t p) \<le> NODE_CHILDREN"
    "cn_indexes ?n = (a @ x # b) @ replicate (NODE_CHILDREN - length (a @ x # b)) usize_max"
    using ok(1) ks by (auto simp: node_ok_def)
  have la: "length a < NODE_CHILDREN" using N(3) ks by simp
  have disj: "x \<notin> set a" "x \<notin> set b" using dd(1) AB by auto
  have pos: "idx_of_child ?n x = Some (length a)"
    unfolding idx_of_child_def N(4) using disj(1) by (simp, intro position_append) auto
  have wid: "take (length a + length b + 1) (cn_width ?n) = map W a @ W x # map W b"
    using ok(2) ks by (simp add: widths_def)
  have wa: "cn_width ?n ! length a = W x" using arg_cong[OF wid, of "\<lambda>xs. xs ! length a"] by (simp add: nth_append)
  have "x \<in> set (A @ x # B)" by simp
  then have fw: "lp_fits w'" using lp_fits_sum[OF fits, of w'] by auto
  define t' where "t' = ct_set_node t p (?n\<lparr>cn_width := (cn_width ?n)[length a := w']\<rparr>)"
  have nth: "ct_nodes t' ! n = (if n = p then ?n\<lparr>cn_width := (cn_width ?n)[length a := w']\<rparr> else ct_nodes t ! n)" for n
    using N(2) by (simp add: t'_def)
  have par: "parent_of t' j c = parent_of t j c" for j c using N(2) by (simp add: parent_of_def t'_def)
  have kk: "kids t' n = kids t n" for n by (simp add: kids_def nth)
  have ww: "widths t' p = map (W(x := w')) (kids t p)"
  proof -
    have "widths t' p = (take (length a + length b + 1) (cn_width ?n))[length a := w']"
      by (simp add: widths_def kk nth ks take_update_swap)
    also have "\<dots> = map W a @ w' # map W b" unfolding wid by (simp add: list_update_append)
    finally show ?thesis using disj by (simp add: ks)
  qed
  have oth: "widths t' n = widths t n" "node_width t' n = node_width t n" "node_ok t' n = node_ok t n" if "n \<noteq> p" for n
    using that by (simp_all add: widths_def node_width_def node_ok_def kk nth t'_def[THEN arg_cong, of "\<lambda>t. length (ct_nodes t)"])
  have okp: "node_ok t' p" using ok(1) by (simp add: node_ok_def kk nth t'_def[THEN arg_cong, of "\<lambda>t. length (ct_nodes t)"])
  have Wxa: "map (W(x := w')) a = map W a" "map (W(x := w')) b = map W b" using disj by auto
  have sh: "shifted (node_width t p) d (node_width t' p)"
    unfolding node_width_def ww ok(2) ks using shifted_add[OF w] by (simp add: Wxa)
  have upS: "up_ok t' (Suc k) {} L (node_width t) S"
  proof (rule up_ok_cong)
    show "up_ok t (Suc k) {} L (node_width t) S" using up by simp
    show "n < length (ct_nodes t') \<and> ct_nodes t' ! n = ct_nodes t ! n" if "n \<in> set (concat S)" for n
    proof -
      have "n \<noteq> p" using dd(2) that by (auto simp: L)
      then show ?thesis using levels_okD(3)[OF lv, of n] that nth[of n] by (simp add: t'_def)
    qed
  qed (simp_all add: par, simp_all add: t'_def)
  have lo: "level_ok t' k {} (A @ x # B) (W(x := w')) L"
    unfolding level_ok_def
  proof (intro conjI ballI impI)
    have "kids t' = kids t" by (rule ext) (rule kk)
    then show "concat (map (kids t') L) = A @ x # B" by (simp add: cc)
    fix n assume n: "n \<in> set L"
    show "node_ok t' n" using okp oth(3)[of n] up n by (cases "n = p") simp_all
    show "widths t' n = map (W(x := w')) (kids t' n)"
    proof (cases "n = p")
      case False
      have "x \<notin> set (kids t n)"
        using distinct_concat_mapD(2)[of "kids t" L p n x] cc dd(1) pL n False by auto
      then show ?thesis using oth(1)[OF False] up n by (simp add: kk)
    qed (simp add: ww kk)
    fix c assume "c \<in> set (kids t' n)"
    then show "parent_of t' k c = n" using up n by (simp add: par kk)
  qed
  have "p \<noteq> usize_max" using N(2) levels_okD(5)[OF lv] by simp
  then have "flush_up (ct_nodes t) p x d = flush_up (ct_nodes t') (cn_parent ?n) p d"
    using shifted_update[OF w fw] la N(1,2) pos wa
    by (subst flush_up.simps) (simp add: is_root_def get_at_def Let_def t'_def ct_set_node_def)
  then show ?thesis using pL(1) upS sh oth(2) lo
    by (intro exI[of _ t'] conjI) (simp_all add: nth, simp_all add: t'_def)
qed


definition flushed :: "'v content_tree \<Rightarrow> 'v content_tree \<Rightarrow> len_update \<Rightarrow> nat list list \<Rightarrow> bool" where
  "flushed t t' d S \<longleftrightarrow>
     t' = t\<lparr>ct_nodes := ct_nodes t', ct_total := lp_update_by (ct_total t) d\<rparr> \<and>
     length (ct_nodes t') = length (ct_nodes t) \<and>
     (\<forall>n. cn_indexes (ct_nodes t' ! n) = cn_indexes (ct_nodes t ! n) \<and> cn_parent (ct_nodes t' ! n) = cn_parent (ct_nodes t ! n)) \<and>
     (\<forall>n. n \<notin> set (concat S) \<longrightarrow> ct_nodes t' ! n = ct_nodes t ! n)"

lemma flushed_frame:
  assumes "flushed t t' d S"
  shows "ct_leaves t' = ct_leaves t" "ct_height t' = ct_height t" "ct_root t' = ct_root t" "ct_cursor t' = ct_cursor t"
    "ct_total t' = lp_update_by (ct_total t) d" "length (ct_nodes t') = length (ct_nodes t)" "parent_of t' k c = parent_of t k c"
    "n \<notin> set (concat S) \<Longrightarrow> ct_nodes t' ! n = ct_nodes t ! n"
proof -
  have e: "t' = t\<lparr>ct_nodes := ct_nodes t', ct_total := lp_update_by (ct_total t) d\<rparr>" using assms by (simp add: flushed_def)
  show l: "ct_leaves t' = ct_leaves t" by (subst e) simp
  show "ct_height t' = ct_height t" by (subst e) simp
  show "ct_root t' = ct_root t" by (subst e) simp
  show "ct_cursor t' = ct_cursor t" by (subst e) simp
  show "ct_total t' = lp_update_by (ct_total t) d" by (subst e) simp
  show "length (ct_nodes t') = length (ct_nodes t)" using assms by (simp add: flushed_def)
  show "parent_of t' k c = parent_of t k c" using assms l by (simp add: flushed_def parent_of_def)
  show "n \<notin> set (concat S) \<Longrightarrow> ct_nodes t' ! n = ct_nodes t ! n" using assms by (simp add: flushed_def)
qed

lemma flush_up_ok:
  assumes "up_ok t k {} (A @ x # B) W S" "levels_ok t k (A @ x # B) S"
    and "shifted (W x) d w'" "lp_fits (lp_sum (map (W(x := w')) (A @ x # B)))"
  shows "\<exists>t'. flush_up (ct_nodes t) (parent_of t k x) x d = Some (ct_nodes t') \<and> flushed t t' d S \<and>
    up_ok t' k {} (A @ x # B) (W(x := w')) S"
  using assms
proof (induction S arbitrary: t k A x B W w')
  case Nil
  then have r: "A = []" "B = []" "parent_of t k x = usize_max" "ct_total t = W x" by (auto simp: append_eq_Cons_conv)
  have "lp_fits w'" using Nil.prems(4) by (simp add: r)
  then have "lp_update_by (ct_total t) d = w'" using shifted_update Nil.prems(3) r(4) by simp
  moreover have "flush_up (ct_nodes t) (parent_of t k x) x d = Some (ct_nodes t)"
    by (subst flush_up.simps) (simp add: r(3) is_root_def)
  ultimately show ?case using Nil.prems(1) r
    by (intro exI[of _ "t\<lparr>ct_total := lp_update_by (ct_total t) d\<rparr>"]) (auto simp: flushed_def parent_of_def)
next
  case (Cons L S)
  let ?p = "parent_of t k x" and ?base = "A @ x # B"
  obtain t1 where t1: "t1 = ct_set_node t ?p ((ct_nodes t ! ?p)\<lparr>cn_width := cn_width (ct_nodes t1 ! ?p)\<rparr>)"
      "?p \<in> set L" "up_ok t1 (Suc k) {} L (node_width t) S" "shifted (node_width t ?p) d (node_width t1 ?p)"
      "\<forall>n. n \<noteq> ?p \<longrightarrow> node_width t1 n = node_width t n" "level_ok t1 k {} ?base (W(x := w')) L"
      "flush_up (ct_nodes t) ?p x d = flush_up (ct_nodes t1) (cn_parent (ct_nodes t ! ?p)) ?p d"
    using flush_node[OF Cons.prems(1,2) refl Cons.prems(3,4)] by blast
  have pl: "?p < length (ct_nodes t)" using levels_okD(3)[OF Cons.prems(2)] t1(2) by simp
  have upd: "node_width t1 = (node_width t)(?p := node_width t1 ?p)" using t1(5) by auto
  obtain L1 L2 where L: "L = L1 @ ?p # L2" using t1(2) by (meson split_list)
  have len: "length (ct_nodes t1) = length (ct_nodes t)" "length (ct_leaves t1) = length (ct_leaves t)"
    by (subst t1(1), simp)+
  have nth: "cn_indexes (ct_nodes t1 ! n) = cn_indexes (ct_nodes t ! n)" "cn_parent (ct_nodes t1 ! n) = cn_parent (ct_nodes t ! n)"
    "n \<noteq> ?p \<Longrightarrow> ct_nodes t1 ! n = ct_nodes t ! n" for n
    by (subst t1(1), simp add: pl)+
  have lv1: "levels_ok t1 (Suc k) L S"
    using levels_ok_up[OF Cons.prems(2)] levels_ok_len[OF len] by blast
  have fits: "lp_fits (lp_sum (map ((node_width t)(?p := node_width t1 ?p)) L))"
    unfolding upd[symmetric] level_sum[OF t1(6)] by (rule Cons.prems(4))
  have par: "cn_parent (ct_nodes t ! ?p) = parent_of t1 (Suc k) ?p" by (simp add: parent_of_def nth)
  obtain t2 where t2: "flush_up (ct_nodes t1) (parent_of t1 (Suc k) ?p) ?p d = Some (ct_nodes t2)" "flushed t1 t2 d S"
      "up_ok t2 (Suc k) {} L ((node_width t)(?p := node_width t1 ?p)) S"
    using Cons.IH[of t1 "Suc k" L1 ?p L2 "node_width t" "node_width t1 ?p"] t1(3,4) lv1 fits unfolding L[symmetric] by blast
  note fl = flushed_frame[OF t2(2)]
  have notS: "n \<notin> set (concat S)" if "n \<in> set L" for n using levels_okD(1)[OF Cons.prems(2)] that by auto
  have Leq: "ct_nodes t2 ! n = ct_nodes t1 ! n" if "n \<in> set L" for n using fl(8)[OF notS[OF that]] .
  have Ln: "n < length (ct_nodes t)" if "n \<in> set L" for n using levels_okD(3)[OF Cons.prems(2), of n] that by simp
  have "level_ok t2 k {} ?base (W(x := w')) L"
    by (rule level_ok_cong[OF t1(6)]) (use Leq Ln len fl(6,7) in simp_all)
  moreover have "up_ok t2 (Suc k) {} L (node_width t2) S"
  proof (rule up_ok_cong[OF t2(3)])
    fix c assume "c \<in> set L"
    then have "node_width t2 c = node_width t1 c" using Leq node_facts_cong(3)[of t2 c t1] by simp
    then show "node_width t2 c = ((node_width t)(?p := node_width t1 ?p)) c" by (simp only: upd[symmetric])
  qed (use fl(6) levels_okD(3)[OF Cons.prems(2)] len in simp_all)
  moreover have "flushed t t2 d (L # S)"
    unfolding flushed_def
  proof (intro conjI allI impI)
    obtain N where N: "t1 = t\<lparr>ct_nodes := N\<rparr>" using t1(1) unfolding ct_set_node_def by blast
    have "t1\<lparr>ct_nodes := ct_nodes t2, ct_total := lp_update_by (ct_total t1) d\<rparr> =
        t\<lparr>ct_nodes := ct_nodes t2, ct_total := lp_update_by (ct_total t) d\<rparr>" by (simp add: N)
    moreover have "t2 = t1\<lparr>ct_nodes := ct_nodes t2, ct_total := lp_update_by (ct_total t1) d\<rparr>"
      using t2(2) unfolding flushed_def by (elim conjE)
    ultimately show "t2 = t\<lparr>ct_nodes := ct_nodes t2, ct_total := lp_update_by (ct_total t) d\<rparr>" by (rule trans[rotated])
    fix n
    show "cn_indexes (ct_nodes t2 ! n) = cn_indexes (ct_nodes t ! n)" "cn_parent (ct_nodes t2 ! n) = cn_parent (ct_nodes t ! n)"
      using t2(2) by (simp_all add: flushed_def nth)
    show "ct_nodes t2 ! n = ct_nodes t ! n" if "n \<notin> set (concat (L # S))"
      using that fl(8)[of n] nth(3)[of n] t1(2) by auto
  qed (simp add: fl len)
  ultimately show ?case using t1(7) t2(1) unfolding up_ok_Cons par by auto
qed

end
