(* ===== verification/ContentLeaf.thy ===== *)
theory ContentLeaf
  imports ContentFlush
begin

text \<open>
  The whole invariant of the content tree, and the splitting of a leaf.  \<open>tree_ok C t Ls S W\<close>: the leaves are
  \<open>Ls\<close>, from left to right and chained that way; the levels above are \<open>S\<close>; the nodes store the lengths \<open>W\<close> of the
  leaves.  The items of a leaf fill its array from the left.
\<close>

section \<open>The leaves\<close>

definition leaf_items :: "'v content_ops \<Rightarrow> 'v content_tree \<Rightarrow> nat \<Rightarrow> 'v list" where
  "leaf_items C t l = takeWhile (c_exists C) (cl_children (ct_leaves t ! l))"

definition items_width :: "'v content_ops \<Rightarrow> 'v list \<Rightarrow> len_pair" where
  "items_width C xs = lp_sum (map (content_len_pair C) xs)"

definition leaf_width :: "'v content_ops \<Rightarrow> 'v content_tree \<Rightarrow> nat \<Rightarrow> len_pair" where
  "leaf_width C t l = items_width C (leaf_items C t l)"

definition leaf_ok :: "'v content_ops \<Rightarrow> 'v content_tree \<Rightarrow> nat \<Rightarrow> bool" where
  "leaf_ok C t l \<longleftrightarrow>
     l < length (ct_leaves t) \<and> length (cl_children (ct_leaves t ! l)) = LEAF_CHILDREN \<and>
     (\<forall>e \<in> set (dropWhile (c_exists C) (cl_children (ct_leaves t ! l))). \<not> c_exists C e)"

fun chain :: "'v content_tree \<Rightarrow> nat list \<Rightarrow> bool" where
  "chain t [] \<longleftrightarrow> True"
| "chain t [l] \<longleftrightarrow> cl_next (ct_leaves t ! l) = usize_max"
| "chain t (l # m # ls) \<longleftrightarrow> cl_next (ct_leaves t ! l) = m \<and> chain t (m # ls)"

definition tree_ok :: "'v content_ops \<Rightarrow> 'v content_tree \<Rightarrow> nat list \<Rightarrow> nat list list \<Rightarrow> (nat \<Rightarrow> len_pair) \<Rightarrow> bool" where
  "tree_ok C t Ls S W \<longleftrightarrow>
     up_ok t 0 {} Ls W S \<and> levels_ok t 0 Ls S \<and> Ls \<noteq> [] \<and> hd Ls = 0 \<and> (\<forall>l \<in> set Ls. leaf_ok C t l) \<and> chain t Ls \<and>
     (S = [] \<longrightarrow> ct_nodes t = []) \<and> (\<forall>l \<in> set Ls. leaf_items C t l \<noteq> [] \<or> Ls = [l])"

definition ct_items :: "'v content_ops \<Rightarrow> 'v content_tree \<Rightarrow> nat list \<Rightarrow> 'v list" where
  "ct_items C t Ls = concat (map (leaf_items C t) Ls)"

lemma items_width_simps [simp]:
  "items_width C [] = lp_zero" "items_width C (x # xs) = lp_add (content_len_pair C x) (items_width C xs)"
  "items_width C (xs @ ys) = lp_add (items_width C xs) (items_width C ys)"
  by (simp_all add: items_width_def)

lemma fillI:
  assumes "zs = xs @ ys" "\<forall>x \<in> set xs. P x" "\<forall>y \<in> set ys. \<not> P y"
  shows "takeWhile P zs = xs" "\<forall>y \<in> set (dropWhile P zs). \<not> P y"
proof -
  have "ys = [] \<or> \<not> P (hd ys)" using assms(3) hd_in_set by blast
  then have "takeWhile P ys = [] \<and> dropWhile P ys = ys" unfolding takeWhile_eq_Nil_iff dropWhile_eq_self_iff by blast
  then show "takeWhile P zs = xs" "\<forall>y \<in> set (dropWhile P zs). \<not> P y"
    using assms(2,3) unfolding assms(1) by (simp_all add: takeWhile_append2 dropWhile_append2)
qed

lemma leafI:
  assumes "l < length (ct_leaves t)" "cl_children (ct_leaves t ! l) = xs @ rest" "\<forall>x \<in> set xs. c_exists C x"
    "\<forall>x \<in> set rest. \<not> c_exists C x" "length (xs @ rest) = LEAF_CHILDREN"
  shows "leaf_ok C t l" "leaf_items C t l = xs"
  unfolding leaf_ok_def leaf_items_def
  by (intro conjI assms(1) fillI[OF assms(2-4)]) (simp_all add: assms(2) assms(5)[unfolded length_append] fillI(1)[OF refl assms(3,4)])

lemma leafE:
  assumes "leaf_ok C t l"
  obtains rest where "cl_children (ct_leaves t ! l) = leaf_items C t l @ rest" "\<forall>x \<in> set (leaf_items C t l). c_exists C x"
    "\<forall>x \<in> set rest. \<not> c_exists C x" "length (leaf_items C t l) + length rest = LEAF_CHILDREN"
proof
  let ?c = "cl_children (ct_leaves t ! l)"
  show c: "?c = leaf_items C t l @ dropWhile (c_exists C) ?c" by (simp add: leaf_items_def)
  show "\<forall>x \<in> set (leaf_items C t l). c_exists C x" by (auto simp: leaf_items_def dest: set_takeWhileD)
  show "\<forall>x \<in> set (dropWhile (c_exists C) ?c). \<not> c_exists C x" using assms by (simp add: leaf_ok_def)
  show "length (leaf_items C t l) + length (dropWhile (c_exists C) ?c) = LEAF_CHILDREN"
    using assms arg_cong[OF c, of length] by (simp add: leaf_ok_def)
qed

lemma leaf_cong:
  assumes "cl_children (ct_leaves t' ! l) = cl_children (ct_leaves t ! l)"
  shows "leaf_items C t' l = leaf_items C t l" "leaf_width C t' l = leaf_width C t l"
    "l < length (ct_leaves t') \<Longrightarrow> leaf_ok C t l \<Longrightarrow> leaf_ok C t' l"
  using assms by (simp_all add: leaf_items_def leaf_width_def leaf_ok_def)

lemma chain_cong: "\<forall>l \<in> set Ls. cl_next (ct_leaves t' ! l) = cl_next (ct_leaves t ! l) \<Longrightarrow> chain t' Ls = chain t Ls"
  by (induction t Ls rule: chain.induct) simp_all

lemma chain_insert:
  assumes "chain t (A @ x # B)" "distinct (A @ x # B)"
    and "\<And>l. l \<in> set (A @ B) \<Longrightarrow> cl_next (ct_leaves t' ! l) = cl_next (ct_leaves t ! l)"
    and "cl_next (ct_leaves t' ! x) = y" "cl_next (ct_leaves t' ! y) = cl_next (ct_leaves t ! x)"
  shows "chain t' (A @ x # y # B)"
  using assms
proof (induction A)
  case Nil
  then show ?case
  proof (cases B)
    case (Cons b B')
    have "chain t B" using Nil.prems(1) Cons by simp
    then have "chain t' B" using Nil.prems(3) chain_cong[of B t' t] by simp
    then show ?thesis using Nil.prems Cons by simp
  qed simp
next
  case (Cons a A)
  have "chain t (A @ x # B)" using Cons.prems(1) by (cases A) auto
  then have "chain t' (A @ x # y # B)" using Cons by simp
  then show ?case using Cons.prems by (cases A) auto
qed

lemma up_ok_height: "up_ok t k X base W S \<Longrightarrow> ct_height t = k + length S"
  by (induction S arbitrary: k X base W) auto

text \<open>Changing the leaves below a tree whose nodes stay.\<close>

lemma up_ok_leaves:
  assumes up: "up_ok t 0 (Y \<union> X) base W (L # S)" and d: "distinct base"
    and same: "ct_nodes t' = ct_nodes t" "ct_height t' = ct_height t" "ct_root t' = ct_root t" "ct_total t' = ct_total t"
    and b: "\<And>n. n \<in> set (concat (L # S)) \<Longrightarrow> n < length (ct_nodes t)"
    and q: "q \<in> set L" "Y \<subseteq> set (kids t q)"
    and par: "\<And>c. c \<in> set base \<Longrightarrow> parent_of t' 0 c = (if c \<in> Y then q else parent_of t 0 c)"
  shows "up_ok t' 0 X base W (L # S)"
proof -
  have kk: "kids t' n = kids t n" "widths t' n = widths t n" "node_width t' n = node_width t n" "node_ok t' n = node_ok t n" for n
    by (simp_all add: kids_def widths_def node_width_def node_ok_def same)
  have cc: "concat (map (kids t) L) = base" using up by simp
  have "up_ok t' (Suc 0) {} L (node_width t') S"
  proof (rule up_ok_cong)
    show "up_ok t (Suc 0) {} L (node_width t) S" using up by simp
    show "n < length (ct_nodes t') \<and> ct_nodes t' ! n = ct_nodes t ! n" if "n \<in> set (concat S)" for n
      using b[of n] that same by simp
  qed (simp_all add: same kk parent_of_def)
  moreover have "level_ok t' 0 X base W L"
    unfolding level_ok_def
  proof (intro conjI ballI impI)
    have "kids t' = kids t" by (rule ext) (rule kk)
    then show "concat (map (kids t') L) = base" by (simp add: cc)
    fix n assume n: "n \<in> set L"
    then show "node_ok t' n" "widths t' n = map W (kids t' n)" using up by (simp_all add: kk)
    fix c assume c: "c \<in> set (kids t' n)" "c \<notin> X"
    then have ck: "c \<in> set (kids t n)" by (simp add: kk)
    have cb: "c \<in> set base" by (rule kids_level[OF up n ck])
    show "parent_of t' 0 c = n"
    proof (cases "c \<in> Y")
      case True
      then have "n = q" using distinct_concat_mapD(2)[of "kids t" L q n c] cc d q n ck by auto
      then show ?thesis using True par[OF cb] by simp
    next
      case False
      then show ?thesis using par[OF cb] up n ck c(2) by simp
    qed
  qed
  ultimately show ?thesis by (simp only: up_ok_Cons)
qed

lemma up_ok_weaken: "up_ok t k X base W S \<Longrightarrow> X \<subseteq> X' \<Longrightarrow> up_ok t k X' base W S"
  by (cases S) auto



section \<open>Splitting a leaf\<close>

lemma LEAF_SPLIT: "LEAF_CHILDREN - LEAF_SPLIT_POINT = LEAF_SPLIT_POINT" "LEAF_SPLIT_POINT < LEAF_CHILDREN"
  "LEAF_CHILDREN = LEAF_SPLIT_POINT + LEAF_SPLIT_POINT" "LEAF_SPLIT_POINT = 16" "LEAF_CHILDREN = 32"
  by (simp_all add: LEAF_CHILDREN_def LEAF_SPLIT_POINT_def)

text \<open>Entering the new leaf into the tree: a new root, or the split of the nodes above.\<close>

definition link_leaf :: "'v content_tree \<Rightarrow> nat \<Rightarrow> nat \<Rightarrow> nat \<Rightarrow> len_pair \<Rightarrow> ('v content_tree \<times> nat) option" where
  "link_leaf t q x y w =
     (if ct_height t = 0
      then do { (t, parent) \<leftarrow> create_new_root_node t x y w; t \<leftarrow> set_leaf_parent 0 t x; Some (t, 0) }
      else do { (t, parent) \<leftarrow> split_child_of_node t q x y w True; t \<leftarrow> set_leaf_parent parent t x; Some (t, parent) })"

lemma link_leaf_ok:
  assumes up: "up_ok t 0 {} (A @ x # B) W0 S" and lv: "levels_ok t 0 (A @ x # B) S" and S0: "S = [] \<longrightarrow> ct_nodes t = []"
    and y: "y = length (ct_leaves t)" "y < usize_max"
    and W: "W0 x = lp_add (W x) (W y)" "\<And>c. c \<in> set (A @ B) \<Longrightarrow> W0 c = W c"
    and room: "length (ct_nodes t) + length S < usize_max"
  shows "\<exists>t' r S'. link_leaf t (parent_of t 0 x) x y (W y) = Some (t', r) \<and> up_ok t' 0 {y} (A @ x # y # B) W S' \<and>
    levels_ok t' 0 (A @ x # B) S' \<and> S' \<noteq> [] \<and> r \<in> set (hd S') \<and> y \<in> set (kids t' r) \<and>
    ct_cursor t' = ct_cursor t \<and> ct_total t' = ct_total t \<and> length (ct_leaves t') = length (ct_leaves t) \<and>
    (\<forall>l. cl_children (ct_leaves t' ! l) = cl_children (ct_leaves t ! l) \<and> cl_next (ct_leaves t' ! l) = cl_next (ct_leaves t ! l))"
proof -
  have d: "distinct (A @ x # B)" using levels_okD[OF lv] by simp
  have in_t: "c < length (ct_leaves t)" if "c \<in> set (A @ x # B)" for c using levels_ok_base[OF lv that] by simp
  have y': "y \<notin> set (A @ x # B)" using in_t y(1) by blast
  have d': "distinct (A @ x # y # B)" using d y' by auto
  obtain t1 r S' where t1: "(if ct_height t = 0 then create_new_root_node t x y (W y)
        else split_child_of_node t (parent_of t 0 x) x y (W y) True) = Some (t1, r)" "ct_height t = 0 \<longrightarrow> r = 0"
      "up_ok t1 0 {x, y} (A @ x # y # B) W S'" "levels_ok t1 0 (A @ x # B) S'" "frame t t1 0 (A @ x # B) S" "S' \<noteq> []"
      "r \<in> set (hd S')" "x \<in> set (kids t1 r)" "y \<in> set (kids t1 r)"
  proof (cases S)
    case Nil
    then have e: "A = []" "B = []" "ct_height t = 0" "ct_nodes t = []"
      using up up_ok_height[OF up] S0 by (auto simp: append_eq_Cons_conv)
    have x: "x < usize_max" using levels_okD(4)[OF lv, of x] by simp
    obtain t' where t': "create_new_root_node t x y (W y) = Some (t', 0)" "up_ok t' 0 {x, y} [x, y] W [[0]]"
        "frame t t' 0 [x] []" "length (ct_nodes t') = 1" "x \<in> set (kids t' 0)" "y \<in> set (kids t' 0)"
      using new_root_up[OF up[unfolded Nil e(1,2) append.simps] x y(2) W(1), of "[x]"] e(4) by auto
    have "levels_ok t' 0 [x] [[0]]"
      using t'(3,4) levels_okD(4)[OF lv, of x] in_t[of x] usize_max_def by (simp add: levels_ok_def frame_def)
    then show thesis using that[of t' 0 "[[0]]"] t' e Nil by (simp del: up_ok.simps)
  next
    case (Cons L T)
    let ?p = "parent_of t 0 x"
    have h: "ct_height t \<noteq> 0" using up_ok_height[OF up] Cons by simp
    have p: "?p \<in> set L" "x \<in> set (kids t ?p)" using level_parent[OF up[unfolded Cons], of x] by simp_all
    obtain t' S' r where sp: "split_child_of_node t ?p x y (W y) True = Some (t', r)" "child_split t t' 0 A x y B W (L # T) S' r"
      using split_child_up[OF up[unfolded Cons] lv[unfolded Cons] p y(2) y' W] room Cons by auto
    then show thesis using that[of t' r S'] h up_ok_weaken[of t' 0 "{y}" _ W S' "{x, y}"] Cons
      unfolding child_split_def by auto
  qed
  obtain L T where S': "S' = L # T" using t1(6) by (cases S') auto
  have len: "length (ct_leaves t1) = length (ct_leaves t)" using t1(5) by (simp add: frame_def)
  have "x < length (ct_leaves t1)" using in_t[of x] len by simp
  then obtain t2 where t2: "set_leaf_parent r t1 x = Some t2" "reparented t1 t2 0 {x} r"
    using set_parent_at_spec[of 0 x t1 r] by (auto simp: set_parent_at_def)
  have len2: "length (ct_nodes t2) = length (ct_nodes t1)" "length (ct_leaves t2) = length (ct_leaves t1)"
    using t2(2) by (simp_all add: reparented_def)
  have "kids t2 r = kids t1 r" using t2(2) node_facts_cong(1)[of t2 r t1] by (simp add: reparented_def)
  moreover have "up_ok t2 0 {y} (A @ x # y # B) W (L # T)"
    using up_ok_reparent[OF t1(3)[unfolded S'] t1(4)[unfolded S'] d' t2(2)] t1(7,8) S' by simp
  moreover have "link_leaf t (parent_of t 0 x) x y (W y) = Some (t2, r)"
    using t1(1,2) t2(1) by (auto simp: link_leaf_def split: if_splits)
  ultimately show ?thesis using t1(4,5,7,9) t2(2) levels_ok_len[OF len2] S' len
    by (intro exI[of _ t2] exI[of _ r] exI[of _ S']) (simp add: reparented_def frame_def del: up_ok.simps)
qed

lemma split_leaf_link:
  assumes "old_idx < length (ct_leaves t)"
  shows "split_leaf C t old_idx =
     do {
       let new_leaf_idx = length (ct_leaves t);
       let moved = takeWhile (c_exists C) (drop LEAF_SPLIT_POINT (cl_children (ct_leaves t ! old_idx)));
       (self, parent) \<leftarrow> link_leaf t (parent_of t 0 old_idx) old_idx new_leaf_idx (items_width C moved);
       old_leaf \<leftarrow> ct_leaf self old_idx;
       let new_leaf = \<lparr>cl_children = drop LEAF_SPLIT_POINT (cl_children old_leaf) @
                         replicate (LEAF_CHILDREN - LEAF_SPLIT_POINT) (c_none C),
                       cl_next = cl_next old_leaf, cl_parent = parent\<rparr>;
       let old_leaf = old_leaf\<lparr>cl_children := take LEAF_SPLIT_POINT (cl_children old_leaf) @
                         replicate (LEAF_CHILDREN - LEAF_SPLIT_POINT) (c_none C), cl_next := new_leaf_idx\<rparr>;
       let self = ct_set_leaf self old_idx old_leaf;
       Some (self\<lparr>ct_leaves := ct_leaves self @ [new_leaf]\<rparr>, new_leaf_idx, map (\<lambda>v. (v, new_leaf_idx)) moved)
     }"
  using assms by (simp add: split_leaf_def link_leaf_def Let_def ct_leaf_def get_at_def parent_of_def items_width_def)


lemma split_items:
  assumes "children = items @ rest" "\<forall>x \<in> set items. P x" "\<forall>x \<in> set rest. \<not> P x" "h \<le> length items"
    and "\<not> P none"
  shows "takeWhile P (drop h children) = drop h items"
    "take h children @ replicate n none = take h items @ replicate n none"
    "drop h children @ replicate n none = drop h items @ (rest @ replicate n none)"
    "\<forall>x \<in> set (drop h items). P x" "\<forall>x \<in> set (take h items). P x" "\<forall>x \<in> set (rest @ replicate n none). \<not> P x"
proof -
  have "drop h children = drop h items @ rest" using assms(1,4) by simp
  then show "takeWhile P (drop h children) = drop h items"
    using assms(2,3) by (intro fillI) (auto dest: in_set_dropD)
qed (use assms in \<open>auto dest: in_set_dropD in_set_takeD\<close>)

lemma split_leaf_ok:
  assumes ok: "tree_ok C t (A @ x # B) S (leaf_width C t)" and full: "LEAF_SPLIT_POINT < length (leaf_items C t x)"
    and none: "\<not> c_exists C (c_none C)"
    and room: "length (ct_leaves t) < usize_max" "length (ct_nodes t) + length S < usize_max"
  shows "\<exists>t' S'. split_leaf C t x = Some (t', length (ct_leaves t), map (\<lambda>v. (v, length (ct_leaves t))) (drop LEAF_SPLIT_POINT (leaf_items C t x))) \<and>
    tree_ok C t' (A @ x # length (ct_leaves t) # B) S' (leaf_width C t') \<and>
    leaf_items C t' x = take LEAF_SPLIT_POINT (leaf_items C t x) \<and>
    leaf_items C t' (length (ct_leaves t)) = drop LEAF_SPLIT_POINT (leaf_items C t x) \<and>
    (\<forall>l \<in> set (A @ B). leaf_items C t' l = leaf_items C t l) \<and>
    ct_cursor t' = ct_cursor t \<and> ct_total t' = ct_total t \<and> length (ct_leaves t') = Suc (length (ct_leaves t))"
proof -
  let ?y = "length (ct_leaves t)" and ?H = LEAF_SPLIT_POINT and ?X = "leaf_items C t x"
  have up: "up_ok t 0 {} (A @ x # B) (leaf_width C t) S" and lv: "levels_ok t 0 (A @ x # B) S"
    and lf: "\<And>l. l \<in> set (A @ x # B) \<Longrightarrow> leaf_ok C t l" and ch: "chain t (A @ x # B)" and S0: "S = [] \<longrightarrow> ct_nodes t = []"
    and hd0: "hd (A @ x # B) = 0" and ne: "\<forall>l \<in> set (A @ x # B). leaf_items C t l \<noteq> [] \<or> A @ x # B = [l]"
    using ok unfolding tree_ok_def by blast+
  have d: "distinct (A @ x # B)" using levels_okD[OF lv] by simp
  have in_t: "c < ?y" if "c \<in> set (A @ x # B)" for c using levels_ok_base[OF lv that] by simp
  obtain rest where r: "cl_children (ct_leaves t ! x) = ?X @ rest" "\<forall>e \<in> set ?X. c_exists C e"
      "\<forall>e \<in> set rest. \<not> c_exists C e" "length ?X + length rest = LEAF_CHILDREN"
    using leafE[OF lf[of x]] by auto
  note sp = split_items[OF r(1-3) less_imp_le[OF full] none]
  let ?W = "(leaf_width C t)(x := items_width C (take ?H ?X), ?y := items_width C (drop ?H ?X))"
  have xy: "x \<noteq> ?y" using in_t[of x] by simp
  have Wx: "leaf_width C t x = lp_add (?W x) (?W ?y)"
    using xy by (simp add: leaf_width_def items_width_simps(3)[symmetric] del: items_width_simps)
  have Wo: "leaf_width C t c = ?W c" if "c \<in> set (A @ B)" for c using in_t[of c] d that by auto
  obtain t1 q S' where t1: "link_leaf t (parent_of t 0 x) x ?y (?W ?y) = Some (t1, q)" "up_ok t1 0 {?y} (A @ x # ?y # B) ?W S'"
      "levels_ok t1 0 (A @ x # B) S'" "S' \<noteq> []" "q \<in> set (hd S')" "?y \<in> set (kids t1 q)"
      "ct_cursor t1 = ct_cursor t" "ct_total t1 = ct_total t" "length (ct_leaves t1) = ?y"
      "\<forall>l. cl_children (ct_leaves t1 ! l) = cl_children (ct_leaves t ! l) \<and> cl_next (ct_leaves t1 ! l) = cl_next (ct_leaves t ! l)"
    using link_leaf_ok[OF up lv S0 refl room(1) Wx Wo room(2)] by blast
  obtain L T where S': "S' = L # T" using t1(4) by (cases S') auto
  let ?new = "\<lparr>cl_children = drop ?H (cl_children (ct_leaves t1 ! x)) @ replicate ?H (c_none C),
      cl_next = cl_next (ct_leaves t1 ! x), cl_parent = q\<rparr>"
  let ?old = "(ct_leaves t1 ! x)\<lparr>cl_children := take ?H (cl_children (ct_leaves t1 ! x)) @ replicate ?H (c_none C), cl_next := ?y\<rparr>"
  define t2 where "t2 = t1\<lparr>ct_leaves := (ct_leaves t1)[x := ?old] @ [?new]\<rparr>"
  have run: "split_leaf C t x = Some (t2, ?y, map (\<lambda>v. (v, ?y)) (drop ?H ?X))"
    using t1(1) in_t[of x] t1(9)
    by (simp add: split_leaf_link Let_def sp(1) ct_leaf_def get_at_def t2_def ct_set_leaf_def LEAF_SPLIT(1))
  have nth: "ct_leaves t2 ! l = (if l = ?y then ?new else if l = x then ?old else ct_leaves t1 ! l)" if "l \<le> ?y" for l
    using that t1(9) in_t[of x] by (auto simp: t2_def nth_append nth_list_update)
  have len: "length (ct_leaves t2) = Suc ?y" using t1(9) by (simp add: t2_def)
  have x: "leaf_ok C t2 x" "leaf_items C t2 x = take ?H ?X"
    using leafI[of x t2 "take ?H ?X" "replicate ?H (c_none C)" C] nth[of x] in_t[of x] len t1(10) sp(2)[of ?H] sp(5) none full LEAF_SPLIT
    by (simp_all)
  have y: "leaf_ok C t2 ?y" "leaf_items C t2 ?y = drop ?H ?X"
    using leafI[of ?y t2 "drop ?H ?X" "rest @ replicate ?H (c_none C)" C] nth[of ?y] len t1(10) sp(3)[of ?H] sp(4) sp(6)[of ?H] r(4) full LEAF_SPLIT
    by (simp_all)
  have o: "leaf_items C t2 l = leaf_items C t l" "leaf_ok C t2 l" "cl_next (ct_leaves t2 ! l) = cl_next (ct_leaves t ! l)"
    if "l \<in> set (A @ B)" for l
  proof -
    have l: "l \<noteq> x" "l < ?y" using d in_t[of l] that by auto
    then have "ct_leaves t2 ! l = ct_leaves t1 ! l" using nth[of l] by simp
    then have e: "cl_children (ct_leaves t2 ! l) = cl_children (ct_leaves t ! l)" "cl_next (ct_leaves t2 ! l) = cl_next (ct_leaves t ! l)"
      using t1(10) by simp_all
    show "leaf_items C t2 l = leaf_items C t l" by (rule leaf_cong(1)[OF e(1)])
    show "leaf_ok C t2 l" using leaf_cong(3)[OF e(1)] lf[of l] l len that by simp
    show "cl_next (ct_leaves t2 ! l) = cl_next (ct_leaves t ! l)" by (rule e(2))
  qed
  have up2: "up_ok t2 0 {} (A @ x # ?y # B) ?W (L # T)"
  proof (rule up_ok_leaves[where t = t1 and Y = "{?y}" and q = q])
    show "up_ok t1 0 ({?y} \<union> {}) (A @ x # ?y # B) ?W (L # T)" using t1(2) S' by simp
    show "distinct (A @ x # ?y # B)" using d in_t[of ?y] by auto
    show "parent_of t2 0 c = (if c \<in> {?y} then q else parent_of t1 0 c)" if "c \<in> set (A @ x # ?y # B)" for c
      using nth[of c] in_t[of c] that by (auto simp: parent_of_def)
    show "n < length (ct_nodes t1)" if "n \<in> set (concat (L # T))" for n using levels_okD(3)[OF t1(3)] that S' by simp
  qed (use t1(5,6) S' in \<open>simp_all add: t2_def\<close>)
  have "levels_ok t2 0 (A @ x # ?y # B) S'"
    unfolding levels_ok_def
  proof (intro conjI)
    show "distinct (A @ x # ?y # B)" using d in_t[of ?y] by auto
    show "\<forall>c \<in> set (A @ x # ?y # B). c < usize_max" using in_t room(1) by fastforce
    show "if 0 = 0 then \<forall>c \<in> set (A @ x # ?y # B). c < length (ct_leaves t2)
        else set (A @ x # ?y # B) \<inter> set (concat S') = {} \<and> (\<forall>c \<in> set (A @ x # ?y # B). c < length (ct_nodes t2))"
      using in_t len by (auto simp: less_Suc_eq)
  qed (use levels_okD[OF t1(3)] in \<open>simp_all add: t2_def\<close>)
  moreover have "up_ok t2 0 {} (A @ x # ?y # B) (leaf_width C t2) S'"
    unfolding S'
  proof (rule up_ok_cong[OF up2])
    show "n < length (ct_nodes t2) \<and> ct_nodes t2 ! n = ct_nodes t2 ! n" if "n \<in> set (concat (L # T))" for n
      using levels_okD(3)[OF t1(3)] that S' by (simp add: t2_def)
    show "leaf_width C t2 c = ?W c" if "c \<in> set (A @ x # ?y # B)" for c
      using that x(2) y(2) o(1) in_t[of c] d xy by (auto simp: leaf_width_def)
  qed simp_all
  moreover have "chain t2 (A @ x # ?y # B)"
    using chain_insert[OF ch d o(3)] nth[of x] nth[of ?y] in_t[of x] t1(10) by simp
  moreover have "hd (A @ x # ?y # B) = 0" using hd0 by (cases A) simp_all
  moreover have "\<forall>l \<in> set (A @ x # ?y # B). leaf_ok C t2 l" using x(1) y(1) o(2) by auto
  moreover have "leaf_items C t2 l \<noteq> []" if l: "l \<in> set (A @ x # ?y # B)" for l
  proof -
    consider "l = x" | "l = ?y" | "l \<in> set (A @ B)" using l by auto
    then show ?thesis
    proof cases
      case 3
      then have "leaf_items C t l \<noteq> []" using bspec[OF ne, of l] d by (cases A) auto
      then show ?thesis using o(1)[OF 3] by simp
    qed (use x(2) y(2) full LEAF_SPLIT(4) in auto)
  qed
  ultimately have "tree_ok C t2 (A @ x # ?y # B) S' (leaf_width C t2)" using t1(4) by (simp add: tree_ok_def)
  then show ?thesis using run x(2) y(2) o(1) t1(7,8) len by (intro exI[of _ t2] exI[of _ S']) (simp add: t2_def)
qed

end
