(* ===== verification/ContentSplice.thy ===== *)
theory ContentSplice
  imports ContentLeaf
begin

text \<open>
  Editing one leaf under a pending change: the array is replaced and the change adjusted; the change is flushed
  when the leaf is left; room is made for one or two items, in the leaf or, when it is split, in one of its halves.
\<close>

section \<open>Pending changes\<close>

definition pend :: "'v content_ops \<Rightarrow> 'v content_tree \<Rightarrow> nat list \<Rightarrow> (nat \<Rightarrow> len_pair) \<Rightarrow> nat \<Rightarrow> len_update \<Rightarrow> bool" where
  "pend C t Ls W x d \<longleftrightarrow>
     x \<in> set Ls \<and> (\<forall>l \<in> set Ls. shifted (W l) (if l = x then d else lu_zero) (leaf_width C t l))"

lemma shifted_zero [simp]: "shifted w lu_zero w' \<longleftrightarrow> w' = w"
  by (auto simp: shifted_def intro: lp_eqI)

lemma shifted_inc: "shifted w d w' \<Longrightarrow> shifted w (inc_delta_update C d e) (lp_add w' (content_len_pair C e))"
  by (simp add: shifted_def inc_delta_update_def content_len_pair_def)

lemma shifted_dec: "shifted w d (lp_add w' (content_len_pair C e)) \<Longrightarrow> shifted w (dec_delta_update C d e) w'"
  by (simp add: shifted_def dec_delta_update_def content_len_pair_def)

lemma tree_ok_cong:
  assumes ok: "tree_ok C t Ls S W" and W: "\<And>l. l \<in> set Ls \<Longrightarrow> W' l = W l"
    and same: "ct_nodes t' = ct_nodes t" "ct_height t' = ct_height t" "ct_root t' = ct_root t" "ct_total t' = ct_total t"
    and lf: "length (ct_leaves t') = length (ct_leaves t)"
      "\<And>l. l \<in> set Ls \<Longrightarrow> leaf_ok C t' l \<and> cl_next (ct_leaves t' ! l) = cl_next (ct_leaves t ! l) \<and>
        cl_parent (ct_leaves t' ! l) = cl_parent (ct_leaves t ! l)"
    and ne: "\<And>l. l \<in> set Ls \<Longrightarrow> leaf_items C t l \<noteq> [] \<Longrightarrow> leaf_items C t' l \<noteq> []"
  shows "tree_ok C t' Ls S W'"
proof -
  have up: "up_ok t 0 {} Ls W S" and lv: "levels_ok t 0 Ls S" and ch: "chain t Ls"
    using ok by (simp_all add: tree_ok_def)
  have "up_ok t' 0 {} Ls W' S"
    by (rule up_ok_cong[OF up]) (use W lf levels_okD(3)[OF lv] same in \<open>simp_all add: parent_of_def\<close>)
  moreover have "levels_ok t' 0 Ls S" using levels_ok_len[of t' t] same lf lv by simp
  moreover have "chain t' Ls" using chain_cong[of Ls t' t] lf(2) ch by simp
  moreover have "leaf_items C t' l \<noteq> [] \<or> Ls = [l]" if "l \<in> set Ls" for l using ok ne[OF that] that by (auto simp: tree_ok_def)
  ultimately show ?thesis using ok lf(2) same by (simp add: tree_ok_def)
qed

lemma edit_leaf:
  assumes ok: "tree_ok C t Ls S W" and pd: "pend C t Ls W x d"
    and ch: "children = ys @ rest" "\<forall>v \<in> set ys. c_exists C v" "\<forall>v \<in> set rest. \<not> c_exists C v" "length children = LEAF_CHILDREN"
    and ne: "leaf_items C t x \<noteq> [] \<Longrightarrow> ys \<noteq> []"
    and d': "shifted (W x) d' (items_width C ys)"
    and t': "t' = ct_set_leaf t x ((ct_leaves t ! x)\<lparr>cl_children := children\<rparr>)"
  shows "tree_ok C t' Ls S W" "pend C t' Ls W x d'" "leaf_items C t' x = ys"
    "\<And>l. l \<noteq> x \<Longrightarrow> leaf_items C t' l = leaf_items C t l"
    "ct_cursor t' = ct_cursor t" "length (ct_leaves t') = length (ct_leaves t)" "ct_nodes t' = ct_nodes t"
proof -
  have x: "x \<in> set Ls" using pd by (simp add: pend_def)
  have xl: "x < length (ct_leaves t)" using ok x by (simp add: tree_ok_def leaf_ok_def)
  have nth: "ct_leaves t' ! l = (if l = x then (ct_leaves t ! x)\<lparr>cl_children := children\<rparr> else ct_leaves t ! l)" for l
    using xl by (simp add: t' ct_set_leaf_def nth_list_update)
  show len: "length (ct_leaves t') = length (ct_leaves t)" by (simp add: t' ct_set_leaf_def)
  have X: "leaf_ok C t' x" "leaf_items C t' x = ys"
    using leafI[of x t' ys rest C] xl len ch nth[of x] by simp_all
  then show "leaf_items C t' x = ys" by simp
  show o: "leaf_items C t' l = leaf_items C t l" if "l \<noteq> x" for l
    using nth[of l] that by (simp add: leaf_items_def)
  have ol: "leaf_ok C t' l" if "l \<in> set Ls" "l \<noteq> x" for l
    using ok that nth[of l] len by (simp add: tree_ok_def leaf_ok_def)
  show "tree_ok C t' Ls S W"
  proof (rule tree_ok_cong[OF ok refl])
    fix l assume "l \<in> set Ls"
    then show "leaf_ok C t' l \<and> cl_next (ct_leaves t' ! l) = cl_next (ct_leaves t ! l) \<and>
        cl_parent (ct_leaves t' ! l) = cl_parent (ct_leaves t ! l)"
      using X(1) ol nth[of l] by (cases "l = x") simp_all
  next
    fix l assume "leaf_items C t l \<noteq> []"
    then show "leaf_items C t' l \<noteq> []" using ne X(2) o[of l] by (cases "l = x") simp_all
  qed (simp_all add: t' ct_set_leaf_def)
  have "shifted (W l) (if l = x then d' else lu_zero) (leaf_width C t' l)" if "l \<in> set Ls" for l
  proof (cases "l = x")
    case False
    have "leaf_width C t' l = leaf_width C t l" using o[OF False] by (simp add: leaf_width_def)
    moreover have "shifted (W l) (if l = x then d else lu_zero) (leaf_width C t l)" using pd that unfolding pend_def by blast
    ultimately show ?thesis using False by simp
  qed (use d' X in \<open>simp add: leaf_width_def\<close>)
  then show "pend C t' Ls W x d'" using x by (simp add: pend_def)
qed (simp_all add: t' ct_set_leaf_def)

lemma flush_ok:
  assumes ok: "tree_ok C t Ls S W" and pd: "pend C t Ls W x d" and fits: "lp_fits (items_width C (ct_items C t Ls))"
  shows "\<exists>t'. flush_delta_and_clear t x d = Some (t', lu_zero) \<and> tree_ok C t' Ls S (leaf_width C t') \<and>
    ct_leaves t' = ct_leaves t \<and> ct_cursor t' = ct_cursor t \<and> length (ct_nodes t') = length (ct_nodes t)"
proof -
  have x: "x \<in> set Ls" and sh: "\<And>l. l \<in> set Ls \<Longrightarrow> shifted (W l) (if l = x then d else lu_zero) (leaf_width C t l)"
    using pd by (simp_all add: pend_def)
  have total: "lp_sum (map (leaf_width C t) Ls) = items_width C (ct_items C t Ls)" for Ls
    by (induction Ls) (simp_all add: ct_items_def leaf_width_def)
  show ?thesis
  proof (cases "lu_is_empty d")
    case True
    then have "d = lu_zero" by (simp add: lu_is_empty_def lu_zero_def)
    then have "leaf_width C t l = W l" if "l \<in> set Ls" for l using sh[OF that] by (simp split: if_splits)
    then have "tree_ok C t Ls S (leaf_width C t)"
      using ok by (intro tree_ok_cong[OF ok]) (auto simp: tree_ok_def)
    then show ?thesis using True by (simp add: flush_delta_and_clear_def flush_delta_len_def)
  next
    case False
    obtain A B where Ls: "Ls = A @ x # B" using x by (meson split_list)
    have up: "up_ok t 0 {} Ls W S" and lv: "levels_ok t 0 Ls S" using ok by (simp_all add: tree_ok_def)
    have W': "(W(x := leaf_width C t x)) l = leaf_width C t l" if "l \<in> set Ls" for l
      using sh[OF that] by (simp split: if_splits)
    have "map (W(x := leaf_width C t x)) Ls = map (leaf_width C t) Ls" using W' by (intro map_cong refl) blast
    then have fits': "lp_fits (lp_sum (map (W(x := leaf_width C t x)) Ls))" using fits by (simp only: total)
    obtain t' where t': "flush_up (ct_nodes t) (parent_of t 0 x) x d = Some (ct_nodes t')" "flushed t t' d S"
        "up_ok t' 0 {} Ls (W(x := leaf_width C t x)) S"
      using flush_up_ok[of t 0 A x B W S d "leaf_width C t x"] up lv sh[OF x] fits' unfolding Ls by auto
    note fl = flushed_frame[OF t'(2)]
    have eq: "t' = t\<lparr>ct_nodes := ct_nodes t', ct_total := lp_update_by (ct_total t) d\<rparr>" using t'(2) by (simp add: flushed_def)
    have "x < length (ct_leaves t)" using ok x by (simp add: tree_ok_def leaf_ok_def)
    then have "flush_delta_and_clear t x d = Some (t', lu_zero)"
      using False t'(1) by (subst eq) (simp add: flush_delta_and_clear_def flush_delta_len_def ct_leaf_def get_at_def parent_of_def)
    moreover have "up_ok t' 0 {} Ls (leaf_width C t') S"
    proof (rule up_ok_cong[OF t'(3)])
      show "leaf_width C t' l = (W(x := leaf_width C t x)) l" if "l \<in> set Ls" for l
        unfolding W'[OF that] by (simp add: leaf_width_def leaf_items_def fl)
    qed (use fl(6) levels_okD(3)[OF lv] in simp_all)
    moreover have "levels_ok t' 0 Ls S" using levels_ok_len[of t' t] lv fl by simp
    moreover have "leaf_ok C t' l = leaf_ok C t l" for l by (simp add: leaf_ok_def fl)
    moreover have "chain t' Ls = chain t Ls" by (rule chain_cong) (simp add: fl)
    moreover have "leaf_items C t' l = leaf_items C t l" for l by (simp add: leaf_items_def fl)
    ultimately show ?thesis using ok fl(1,4,6) by (intro exI[of _ t']) (auto simp: tree_ok_def)
  qed
qed

lemma ct_items_except:
  assumes "\<And>l. l \<noteq> x \<Longrightarrow> leaf_items C t' l = leaf_items C t l" "x \<notin> set A"
  shows "ct_items C t' A = ct_items C t A"
  using assms(2)
proof (induction A)
  case (Cons l A)
  then show ?case using assms(1)[of l] by (simp add: ct_items_def)
qed (simp add: ct_items_def)

section \<open>Making room\<close>

lemma gap:
  assumes ch: "ch = ys @ rest" "\<forall>v \<in> set rest. \<not> P v" and e: "e \<le> length ys" "length ys \<le> b" "b + n \<le> length ch"
  shows "\<exists>cs rest'. copy_within ch e b (e + n) = Some cs \<and> length cs = length ch \<and> take e cs = take e ys \<and>
    drop (e + n) cs = drop e ys @ rest' \<and> (\<forall>v \<in> set rest'. \<not> P v)"
proof -
  let ?cs = "take (e + n) ch @ take (b - e) (drop e ch) @ drop (b + n) ch"
  have len: "length (take (e + n) ch) = e + n" using e by simp
  have "copy_within ch e b (e + n) = Some ?cs" using e by (simp add: copy_within_def add.commute)
  moreover have "length ?cs = length ch" using e by simp
  moreover have "take e ?cs = take e ys" using e len by (simp add: ch(1))
  moreover have "drop (e + n) ?cs = take (b - e) (drop e ch) @ drop (b + n) ch" using len by simp
  moreover have "take (b - e) (drop e ch) = drop e ys @ take (b - length ys) rest" using e by (simp add: ch(1))
  moreover have "drop (b + n) ch = drop (b + n - length ys) rest" using e by (simp add: ch(1))
  moreover have "\<not> P v" if "v \<in> set (take (b - length ys) rest @ drop (b + n - length ys) rest)" for v
    using that ch(2) in_set_takeD[of v _ rest] in_set_dropD[of v _ rest] unfolding set_append by blast
  ultimately show ?thesis by (simp only: append.assoc) blast
qed


definition gap_at :: "'v content_ops \<Rightarrow> 'v list \<Rightarrow> nat \<Rightarrow> nat \<Rightarrow> 'v list \<Rightarrow> bool" where
  "gap_at C ys e n cs \<longleftrightarrow> e \<le> length ys \<and> length cs = LEAF_CHILDREN \<and> e + n \<le> LEAF_CHILDREN \<and> take e cs = take e ys \<and>
     (\<exists>rest. drop (e + n) cs = drop e ys @ rest \<and> (\<forall>v \<in> set rest. \<not> c_exists C v))"

lemma gap_at_I:
  assumes "leaf_ok C t x" "ys = leaf_items C t x" "e \<le> length ys" "length ys \<le> b" "b + n \<le> LEAF_CHILDREN"
  shows "\<exists>cs. copy_within (cl_children (ct_leaves t ! x)) e b (e + n) = Some cs \<and> gap_at C ys e n cs"
proof -
  obtain rest where r: "cl_children (ct_leaves t ! x) = ys @ rest" "\<forall>v \<in> set rest. \<not> c_exists C v" "length ys + length rest = LEAF_CHILDREN"
    using leafE[OF assms(1)] unfolding assms(2) by metis
  have "b + n \<le> length (cl_children (ct_leaves t ! x))" using r assms(5) by simp
  then obtain cs rest' where "copy_within (cl_children (ct_leaves t ! x)) e b (e + n) = Some cs"
      "length cs = length (cl_children (ct_leaves t ! x))" "take e cs = take e ys"
      "drop (e + n) cs = drop e ys @ rest'" "\<forall>v \<in> set rest'. \<not> c_exists C v"
    using gap[OF r(1,2) assms(3,4)] by blast
  then show ?thesis using r assms(3-5) unfolding gap_at_def by auto
qed

lemma has_space_iff:
  assumes "leaf_ok C t x" "0 < n" "n \<le> LEAF_CHILDREN"
  shows "cl_has_space C (ct_leaves t ! x) n \<longleftrightarrow> length (leaf_items C t x) + n \<le> LEAF_CHILDREN"
proof -
  obtain rest where r: "cl_children (ct_leaves t ! x) = leaf_items C t x @ rest" "\<forall>v \<in> set (leaf_items C t x). c_exists C v"
      "\<forall>v \<in> set rest. \<not> c_exists C v" "length (leaf_items C t x) + length rest = LEAF_CHILDREN"
    using leafE[OF assms(1)] by metis
  let ?i = "LEAF_CHILDREN - n"
  have i: "?i < LEAF_CHILDREN" using assms by simp
  show ?thesis
  proof (cases "?i < length (leaf_items C t x)")
    case True
    then have "c_exists C (leaf_items C t x ! ?i)" using r(2) nth_mem by blast
    then show ?thesis using True assms(2) unfolding cl_has_space_def r(1) by (simp add: nth_append)
  next
    case False
    then have "?i - length (leaf_items C t x) < length rest" using i r(4) by simp
    then have "\<not> c_exists C (rest ! (?i - length (leaf_items C t x)))" using r(3) nth_mem by blast
    then show ?thesis using False assms(2,3) unfolding cl_has_space_def r(1) by (simp add: nth_append)
  qed
qed

lemma make_space_ok:
  assumes ok: "tree_ok C t (A @ x # B) S W" and pd: "pend C t (A @ x # B) W x d"
    and fits: "lp_fits (items_width C (ct_items C t (A @ x # B)))" and none: "\<not> c_exists C (c_none C)"
    and e: "e \<le> length (leaf_items C t x)" and n: "n = 1 \<or> n = 2"
    and room: "length (ct_leaves t) < usize_max" "length (ct_nodes t) + length S < usize_max"
  shows "\<exists>t' A' x' B' S' W' d' e' ns cs. make_space_in_leaf_for C t n x e d =
      Some (ct_set_leaf t' x' ((ct_leaves t' ! x')\<lparr>cl_children := cs\<rparr>), x', e', d', ns) \<and>
    tree_ok C t' (A' @ x' # B') S' W' \<and> pend C t' (A' @ x' # B') W' x' d' \<and> gap_at C (leaf_items C t' x') e' n cs \<and>
    ct_items C t' A' @ take e' (leaf_items C t' x') = ct_items C t A @ take e (leaf_items C t x) \<and>
    drop e' (leaf_items C t' x') @ ct_items C t' B' = drop e (leaf_items C t x) @ ct_items C t B \<and>
    ct_cursor t' = ct_cursor t \<and> ct_items C t' A = ct_items C t A \<and> (x' = x \<and> A' = A \<or> x' \<noteq> x \<and> A' = A @ [x])"
proof -
  have x: "x \<in> set (A @ x # B)" by simp
  have lf: "leaf_ok C t x" using ok x by (simp add: tree_ok_def)
  have xl: "x < length (ct_leaves t)" using lf by (simp add: leaf_ok_def)
  have n32: "0 < n" "n \<le> LEAF_CHILDREN" using n LEAF_SPLIT by auto
  note sp = has_space_iff[OF lf n32]
  show ?thesis
  proof (cases "length (leaf_items C t x) + n \<le> LEAF_CHILDREN")
    case True
    obtain cs where cs: "copy_within (cl_children (ct_leaves t ! x)) e (LEAF_CHILDREN - n) (e + n) = Some cs"
        "gap_at C (leaf_items C t x) e n cs"
      using gap_at_I[OF lf refl e, of "LEAF_CHILDREN - n" n] le_diff_conv2[OF n32(2)] True n32 by auto
    have "make_space_in_leaf_for C t n x e d = Some (ct_set_leaf t x ((ct_leaves t ! x)\<lparr>cl_children := cs\<rparr>), x, e, d, [])"
      using n True sp cs(1) xl by (simp add: make_space_in_leaf_for_def ct_leaf_def get_at_def)
    then show ?thesis using ok pd cs(2) by blast
  next
    case False
    let ?xs = "leaf_items C t x" and ?H = LEAF_SPLIT_POINT
    have full: "?H < length ?xs" using False n LEAF_SPLIT by auto
    have le: "length ?xs \<le> LEAF_CHILDREN" using leafE[OF lf] by (metis le_add1)
    obtain t1 where t1: "flush_delta_and_clear t x d = Some (t1, lu_zero)" "tree_ok C t1 (A @ x # B) S (leaf_width C t1)"
        "ct_leaves t1 = ct_leaves t" "ct_cursor t1 = ct_cursor t" "length (ct_nodes t1) = length (ct_nodes t)"
      using flush_ok[OF ok pd fits] by blast
    have it: "leaf_items C t1 l = leaf_items C t l" for l by (simp add: leaf_items_def t1(3))
    let ?y = "length (ct_leaves t)"
    obtain t2 S' ns where t2: "split_leaf C t1 x = Some (t2, ?y, ns)" "tree_ok C t2 (A @ x # ?y # B) S' (leaf_width C t2)"
        "leaf_items C t2 x = take ?H ?xs" "leaf_items C t2 ?y = drop ?H ?xs"
        "\<forall>l \<in> set (A @ B). leaf_items C t2 l = leaf_items C t l" "ct_cursor t2 = ct_cursor t" "length (ct_leaves t2) = Suc ?y"
      using split_leaf_ok[OF t1(2) _ none] full room t1(3,4,5) unfolding it by auto
    have AB: "ct_items C t2 A = ct_items C t A" "ct_items C t2 B = ct_items C t B"
      using t2(5) by (auto simp: ct_items_def intro!: arg_cong[where f = concat] map_cong)
    have lf2: "leaf_ok C t2 x" "leaf_ok C t2 ?y" using t2(2) by (simp_all add: tree_ok_def)
    have pd2: "pend C t2 (A @ x # ?y # B) (leaf_width C t2) l lu_zero" if "l = x \<or> l = ?y" for l
      using that by (auto simp: pend_def)
    have run: "make_space_in_leaf_for C t n x e d = do {
        let (l, i) = (if e \<ge> ?H then (?y, e - ?H) else (x, e));
        cs \<leftarrow> copy_within (cl_children (ct_leaves t2 ! l)) i ?H (i + n);
        Some (ct_set_leaf t2 l ((ct_leaves t2 ! l)\<lparr>cl_children := cs\<rparr>), l, i, lu_zero, ns) }"
      using n False sp t1(1) t2(1,7) xl
      by (simp add: make_space_in_leaf_for_def ct_leaf_def get_at_def)
    have h: "?H + n \<le> LEAF_CHILDREN" "length ?xs - ?H \<le> ?H" "e - ?H \<le> length ?xs - ?H" using e le n LEAF_SPLIT by auto
    show ?thesis
    proof (cases "e \<ge> ?H")
      case True
      obtain cs where cs: "copy_within (cl_children (ct_leaves t2 ! ?y)) (e - ?H) ?H (e - ?H + n) = Some cs"
          "gap_at C (leaf_items C t2 ?y) (e - ?H) n cs"
        using gap_at_I[OF lf2(2) refl, of "e - ?H" ?H n] h unfolding t2(4) length_drop by blast
      have "ct_items C t2 (A @ [x]) @ take (e - ?H) (leaf_items C t2 ?y) = ct_items C t A @ take e ?xs"
        using AB t2(3,4) True e by (simp add: ct_items_def take_add[symmetric])
      moreover have "drop (e - ?H) (leaf_items C t2 ?y) @ ct_items C t2 B = drop e ?xs @ ct_items C t B"
        using AB t2(4) True by simp
      moreover have "make_space_in_leaf_for C t n x e d =
          Some (ct_set_leaf t2 ?y ((ct_leaves t2 ! ?y)\<lparr>cl_children := cs\<rparr>), ?y, e - ?H, lu_zero, ns)"
        using run cs(1) True by simp
      moreover have "(A @ [x]) @ ?y # B = A @ x # ?y # B" by simp
      ultimately show ?thesis using t2(2,6) pd2[of ?y] cs(2) AB(1) xl by (metis less_irrefl)
    next
      case False
      obtain cs where cs: "copy_within (cl_children (ct_leaves t2 ! x)) e ?H (e + n) = Some cs"
          "gap_at C (leaf_items C t2 x) e n cs"
        using gap_at_I[OF lf2(1) refl, of e ?H n] h full False unfolding t2(3) length_take by fastforce
      have "ct_items C t2 A @ take e (leaf_items C t2 x) = ct_items C t A @ take e ?xs"
        using AB t2(3) False by simp
      moreover have "drop e (leaf_items C t2 x) @ ct_items C t2 (?y # B) = drop e ?xs @ ct_items C t B"
      proof -
        have "drop e (take ?H ?xs) @ drop ?H ?xs = drop e ?xs"
          using drop_append[of e "take ?H ?xs" "drop ?H ?xs"] full False by simp
        then have "drop e (take ?H ?xs) @ drop ?H ?xs @ ct_items C t B = drop e ?xs @ ct_items C t B"
          by (metis append.assoc)
        then show ?thesis using AB(2) unfolding t2(3) by (simp add: ct_items_def t2(4))
      qed
      moreover have "make_space_in_leaf_for C t n x e d =
          Some (ct_set_leaf t2 x ((ct_leaves t2 ! x)\<lparr>cl_children := cs\<rparr>), x, e, lu_zero, ns)"
        using run cs(1) False by simp
      ultimately show ?thesis using t2(2,6) pd2[of x] cs(2) AB(1) by metis
    qed
  qed
qed


section \<open>Splicing in\<close>

lemma gap_fill_one:
  assumes "gap_at C ys e 1 cs"
  shows "e < length cs" "length (cs[e := a]) = LEAF_CHILDREN"
    "\<exists>rest. cs[e := a] = (take e ys @ a # drop e ys) @ rest \<and> (\<forall>v \<in> set rest. \<not> c_exists C v)"
proof -
  obtain rest where r: "drop (e + 1) cs = drop e ys @ rest" "\<forall>v \<in> set rest. \<not> c_exists C v"
    and l: "length cs = LEAF_CHILDREN" "e + 1 \<le> LEAF_CHILDREN" "take e cs = take e ys"
    using assms unfolding gap_at_def by blast
  show e: "e < length cs" using l by simp
  show "length (cs[e := a]) = LEAF_CHILDREN" using l by simp
  have "cs[e := a] = take e cs @ a # drop (Suc e) cs" by (rule upd_conv_take_nth_drop[OF e])
  then show "\<exists>rest. cs[e := a] = (take e ys @ a # drop e ys) @ rest \<and> (\<forall>v \<in> set rest. \<not> c_exists C v)"
    using r l by auto
qed

lemma gap_fill_two:
  assumes "gap_at C ys e 2 cs"
  shows "Suc e < length cs" "length (cs[e := a, Suc e := b]) = LEAF_CHILDREN"
    "\<exists>rest. cs[e := a, Suc e := b] = (take e ys @ a # b # drop e ys) @ rest \<and> (\<forall>v \<in> set rest. \<not> c_exists C v)"
proof -
  obtain rest where r: "drop (e + 2) cs = drop e ys @ rest" "\<forall>v \<in> set rest. \<not> c_exists C v"
    and l: "length cs = LEAF_CHILDREN" "e + 2 \<le> LEAF_CHILDREN" "take e cs = take e ys" "e \<le> length ys"
    using assms unfolding gap_at_def by blast
  show e: "Suc e < length cs" using l by simp
  show "length (cs[e := a, Suc e := b]) = LEAF_CHILDREN" using l by simp
  have c: "cs[e := a] = take e cs @ a # drop (Suc e) cs" using e by (intro upd_conv_take_nth_drop) simp
  have le: "length (take e ys) = e" using l by simp
  have "cs[e := a, Suc e := b] = take (Suc e) (cs[e := a]) @ b # drop (Suc (Suc e)) (cs[e := a])"
    using e by (intro upd_conv_take_nth_drop) simp
  also have "take (Suc e) (cs[e := a]) = take e ys @ [a]" unfolding c l(3) using le by simp
  also have "drop (Suc (Suc e)) (cs[e := a]) = drop (e + 2) cs" using e by (simp add: drop_update_cancel)
  finally show "\<exists>rest. cs[e := a, Suc e := b] = (take e ys @ a # b # drop e ys) @ rest \<and> (\<forall>v \<in> set rest. \<not> c_exists C v)"
    using r by auto
qed

lemma shifted_at: "pend C t Ls W x d \<Longrightarrow> shifted (W x) d (items_width C (leaf_items C t x))"
  by (auto simp: pend_def leaf_width_def)

lemma splice_ok:
  assumes ok: "tree_ok C t (A @ x # B) S W" and pd: "pend C t (A @ x # B) W x d"
    and fits: "lp_fits (items_width C (ct_items C t (A @ x # B)))" and none: "\<not> c_exists C (c_none C)"
    and e: "e \<le> length (leaf_items C t x)"
    and ex: "c_exists C item" "\<And>r. rem = Some r \<Longrightarrow> c_exists C r"
    and room: "length (ct_leaves t) < usize_max" "length (ct_nodes t) + length S < usize_max"
  shows "\<exists>t' A' x' B' S' W' d' e' ns. splice_in_internal C t item rem x e d here = Some (t', x', e', d', ns) \<and>
    tree_ok C t' (A' @ x' # B') S' W' \<and> pend C t' (A' @ x' # B') W' x' d' \<and>
    ct_items C t' A' @ take e' (leaf_items C t' x') = ct_items C t A @ take e (leaf_items C t x) \<and>
    drop e' (leaf_items C t' x') @ ct_items C t' B' =
      (case rem of None \<Rightarrow> [item] | Some r \<Rightarrow> [item, r]) @ drop e (leaf_items C t x) @ ct_items C t B \<and>
    take (case rem of None \<Rightarrow> 1 | Some r \<Rightarrow> 2) (drop e' (leaf_items C t' x')) = (case rem of None \<Rightarrow> [item] | Some r \<Rightarrow> [item, r]) \<and>
    e' \<le> length (leaf_items C t' x') \<and>
    ct_cursor t' = ct_cursor t \<and> ct_items C t' A = ct_items C t A \<and> (x' = x \<and> A' = A \<or> x' \<noteq> x \<and> A' = A @ [x])"
proof -
  define n :: nat where "n = (case rem of None \<Rightarrow> 1 | Some r \<Rightarrow> 2)"
  define new where "new = (case rem of None \<Rightarrow> [item] | Some r \<Rightarrow> [item, r])"
  have n: "n = 1 \<or> n = 2" "length new = n" "1 + (if rem \<noteq> None then 1 else 0) = n"
    by (auto simp: n_def new_def split: option.splits)
  obtain t1 A' x' B' S' W' d1 e' ns cs where m: "make_space_in_leaf_for C t n x e d =
        Some (ct_set_leaf t1 x' ((ct_leaves t1 ! x')\<lparr>cl_children := cs\<rparr>), x', e', d1, ns)"
      "tree_ok C t1 (A' @ x' # B') S' W'" "pend C t1 (A' @ x' # B') W' x' d1" "gap_at C (leaf_items C t1 x') e' n cs"
      "ct_items C t1 A' @ take e' (leaf_items C t1 x') = ct_items C t A @ take e (leaf_items C t x)"
      "drop e' (leaf_items C t1 x') @ ct_items C t1 B' = drop e (leaf_items C t x) @ ct_items C t B" "ct_cursor t1 = ct_cursor t"
      "ct_items C t1 A = ct_items C t A" "x' = x \<and> A' = A \<or> x' \<noteq> x \<and> A' = A @ [x]"
    using make_space_ok[OF ok pd fits none e n(1) room] by metis
  let ?ys = "leaf_items C t1 x'" and ?l = "ct_leaves t1 ! x'"
  define ch where "ch = (case rem of None \<Rightarrow> cs[e' := item] | Some r \<Rightarrow> cs[e' := item, Suc e' := r])"
  define d2 where "d2 = (case rem of None \<Rightarrow> inc_delta_update C d1 item | Some r \<Rightarrow> inc_delta_update C (inc_delta_update C d1 item) r)"
  define t2 where "t2 = ct_set_leaf t1 x' (?l\<lparr>cl_children := ch\<rparr>)"
  let ?zs = "take e' ?ys @ new @ drop e' ?ys"
  have e': "e' \<le> length ?ys" using m(4) by (simp add: gap_at_def)
  have lf: "leaf_ok C t1 x'" using m(2) by (simp add: tree_ok_def)
  then have xl: "x' < length (ct_leaves t1)" by (simp add: leaf_ok_def)
  have "e' < length cs \<and> (rem \<noteq> None \<longrightarrow> Suc e' < length cs) \<and> length ch = LEAF_CHILDREN \<and>
      (\<exists>rest. ch = ?zs @ rest \<and> (\<forall>v \<in> set rest. \<not> c_exists C v))"
  proof (cases rem)
    case None
    then show ?thesis using gap_fill_one[OF m(4)[unfolded n_def None option.case]] by (simp add: ch_def new_def)
  next
    case (Some r)
    then show ?thesis using gap_fill_two[OF m(4)[unfolded n_def Some option.case]] by (simp add: ch_def new_def)
  qed
  then obtain rest where c: "e' < length cs" "rem \<noteq> None \<Longrightarrow> Suc e' < length cs" "length ch = LEAF_CHILDREN"
      "ch = ?zs @ rest" "\<forall>v \<in> set rest. \<not> c_exists C v" by blast
  have leaf: "ct_leaf (ct_set_leaf t1 x' (?l\<lparr>cl_children := cs\<rparr>)) x' = Some (?l\<lparr>cl_children := cs\<rparr>)"
    using xl by (simp add: ct_leaf_def get_at_def ct_set_leaf_def)
  have twice: "ct_set_leaf (ct_set_leaf t1 x' a) x' b = ct_set_leaf t1 x' b" for a b by (simp add: ct_set_leaf_def)
  obtain ns' where run: "splice_in_internal C t item rem x e d here = Some (t2, x', e', d2, ns')"
  proof (cases rem)
    case None
    then have "\<exists>ns'. splice_in_internal C t item rem x e d here = Some (t2, x', e', d2, ns')"
      unfolding splice_in_internal_def n(3)
      using c(1) by (simp add: Let_def m(1) leaf set_at_def twice t2_def ch_def d2_def)
    then show thesis using that by blast
  next
    case (Some r)
    then have "\<exists>ns'. splice_in_internal C t item rem x e d here = Some (t2, x', e', d2, ns')"
      unfolding splice_in_internal_def n(3)
      using c(1,2) by (simp add: Let_def m(1) leaf set_at_def twice t2_def ch_def d2_def)
    then show thesis using that by blast
  qed
  have exz: "\<forall>v \<in> set ?zs. c_exists C v"
  proof -
    have "\<forall>v \<in> set ?ys. c_exists C v" using leafE[OF lf] by metis
    moreover have "\<forall>v \<in> set new. c_exists C v" using ex by (auto simp: new_def split: option.splits)
    ultimately show ?thesis by (auto dest: in_set_takeD in_set_dropD)
  qed
  have "items_width C ?zs = lp_add (items_width C ?ys) (items_width C new)"
  proof -
    have "items_width C ?ys = lp_add (items_width C (take e' ?ys)) (items_width C (drop e' ?ys))"
      by (simp add: items_width_simps(3)[symmetric] del: items_width_simps)
    then show ?thesis by (simp add: lp_add_def)
  qed
  moreover have "shifted (W' x') d2 (lp_add (items_width C ?ys) (items_width C new))"
    using shifted_at[OF m(3)] shifted_inc[where C = C]
    by (auto simp: d2_def new_def lp_add_assoc[symmetric] split: option.splits)
  ultimately have sh: "shifted (W' x') d2 (items_width C ?zs)" by simp
  have "?zs \<noteq> []" by (simp add: new_def split: option.splits)
  note ed = edit_leaf[OF m(2,3) c(4) exz c(5,3) this sh t2_def]
  have dd: "distinct (A' @ x' # B')" using m(2) by (simp add: tree_ok_def levels_ok_def)
  have AB: "ct_items C t2 A' = ct_items C t1 A'" "ct_items C t2 B' = ct_items C t1 B'"
    using ct_items_except[OF ed(4)] dd by simp_all
  have z: "take e' (leaf_items C t2 x') = take e' ?ys" "drop e' (leaf_items C t2 x') = new @ drop e' ?ys"
    unfolding ed(3) using e' by simp_all
  have 1: "ct_items C t2 A' @ take e' (leaf_items C t2 x') = ct_items C t A @ take e (leaf_items C t x)"
    unfolding z AB by (rule m(5))
  have 2: "drop e' (leaf_items C t2 x') @ ct_items C t2 B' = new @ drop e (leaf_items C t x) @ ct_items C t B"
    unfolding z AB append.assoc m(6) by (rule refl)
  have 3: "take n (drop e' (leaf_items C t2 x')) = new" unfolding z using n(2) by simp
  have 4: "ct_cursor t2 = ct_cursor t" using ed(5) m(7) by simp
  have 5: "e' \<le> length (leaf_items C t2 x')" unfolding ed(3) using e' by simp
  have "x' \<notin> set A" using dd m(9) by auto
  then have 6: "ct_items C t2 A = ct_items C t A" using ct_items_except[OF ed(4)] m(8) by simp
  show ?thesis unfolding new_def[symmetric] n_def[symmetric] using run ed(1,2) 1 2 3 4 5 6 m(9) by blast
qed

end
