(* ===== verification/YjsSpan.thy ===== *)
theory YjsSpan
  imports ListEdit ContentTree
begin

text \<open>
  \<open>src/listmerge/yjsspan.rs\<close>: a run of inserted characters as the merge sees them, with the
  neighbours each had when it was typed and its state at the current moment of the traversal; the
  items of the content tree.
\<close>

type_synonym span_state = "32 word"

definition NOT_INSERTED_YET :: span_state where "NOT_INSERTED_YET = 0"
definition INSERTED :: span_state where "INSERTED = 1"
definition DELETED_ONCE :: span_state where "DELETED_ONCE = 2"

definition deleted_n_state :: "32 word \<Rightarrow> span_state" where
  "deleted_n_state n = 1 + n"

text \<open>Deleting what is not inserted, or overflowing the counter, panics.\<close>

definition state_delete :: "span_state \<Rightarrow> span_state option" where
  "state_delete self =
     (if self = NOT_INSERTED_YET then None else if self = - 1 then None else Some (self + 1))"

record crdt_span =
  cs_id :: dtrange
  cs_left :: lv
  cs_right :: lv
  cs_state :: span_state
  cs_deleted :: bool

definition origin_left_at_offset :: "crdt_span \<Rightarrow> nat \<Rightarrow> lv" where
  "origin_left_at_offset self offset = (if offset = 0 then cs_left self else dt_start (cs_id self) + offset - 1)"

definition UNDERWATER_START :: nat where
  "UNDERWATER_START = usize_max div 4"

definition new_underwater :: crdt_span where
  "new_underwater =
     \<lparr>cs_id = \<lparr>dt_start = UNDERWATER_START, dt_end = UNDERWATER_START * 2 - 1\<rparr>,
      cs_left = usize_max, cs_right = usize_max, cs_state = INSERTED, cs_deleted = False\<rparr>"

definition is_underwater :: "crdt_span \<Rightarrow> bool" where
  "is_underwater self \<longleftrightarrow> dt_start (cs_id self) \<ge> UNDERWATER_START"

definition cs_delete :: "crdt_span \<Rightarrow> crdt_span option" where
  "cs_delete self = map_option (\<lambda>s. self\<lparr>cs_state := s, cs_deleted := True\<rparr>) (state_delete (cs_state self))"

definition end_state_len :: "crdt_span \<Rightarrow> nat" where
  "end_state_len self = (if cs_deleted self then 0 else dtrange_len (cs_id self))"

definition end_state_len_at :: "crdt_span \<Rightarrow> nat \<Rightarrow> nat" where
  "end_state_len_at self offset = (if cs_deleted self then 0 else offset)"

definition cs_len :: "crdt_span \<Rightarrow> nat" where
  "cs_len self = dtrange_len (cs_id self)"

definition cs_content_len :: "crdt_span \<Rightarrow> nat" where
  "cs_content_len self = (if cs_state self = INSERTED then cs_len self else 0)"

definition cs_truncate :: "crdt_span \<Rightarrow> nat \<Rightarrow> crdt_span \<times> crdt_span" where
  "cs_truncate self offset =
     (let (l, r) = dtrange_truncate (cs_id self) offset
      in (self\<lparr>cs_id := l\<rparr>,
          \<lparr>cs_id = r, cs_left = dt_start (cs_id self) + offset - 1, cs_right = cs_right self,
           cs_state = cs_state self, cs_deleted = cs_deleted self\<rparr>))"

definition cs_can_append :: "crdt_span \<Rightarrow> crdt_span \<Rightarrow> bool" where
  "cs_can_append self other \<longleftrightarrow>
     dtrange_can_append (cs_id self) (cs_id other) \<and>
     cs_left other = wrapping_pred (dt_start (cs_id other)) \<and>
     cs_right other = cs_right self \<and>
     cs_state other = cs_state self \<and>
     cs_deleted other = cs_deleted self"

definition cs_append :: "crdt_span \<Rightarrow> crdt_span \<Rightarrow> crdt_span" where
  "cs_append self other = self\<lparr>cs_id := dtrange_append (cs_id self) (cs_id other)\<rparr>"

definition cs_prepend :: "crdt_span \<Rightarrow> crdt_span \<Rightarrow> crdt_span" where
  "cs_prepend self other =
     self\<lparr>cs_id := dtrange_prepend (cs_id self) (cs_id other), cs_left := cs_left other, cs_right := cs_right other\<rparr>"

definition cs_get_offset :: "crdt_span \<Rightarrow> lv \<Rightarrow> nat option" where
  "cs_get_offset self loc = dtrange_get_offset (cs_id self) loc"

definition cs_at_offset :: "crdt_span \<Rightarrow> nat \<Rightarrow> lv" where
  "cs_at_offset self offset = dt_start (cs_id self) + offset"

definition cs_exists :: "crdt_span \<Rightarrow> bool" where
  "cs_exists self \<longleftrightarrow> dt_end (cs_id self) > 0"

definition cs_takes_cur :: "crdt_span \<Rightarrow> bool" where
  "cs_takes_cur self \<longleftrightarrow> cs_state self = INSERTED"

definition cs_takes_end :: "crdt_span \<Rightarrow> bool" where
  "cs_takes_end self \<longleftrightarrow> cs_deleted self = False"

definition cs_none :: crdt_span where
  "cs_none = \<lparr>cs_id = \<lparr>dt_start = 0, dt_end = 0\<rparr>, cs_left = 0, cs_right = 0, cs_state = 0, cs_deleted = False\<rparr>"

definition crdt_content :: "crdt_span content_ops" where
  "crdt_content =
     \<lparr>c_len = cs_len, c_exists = cs_exists, c_takes_cur = cs_takes_cur, c_takes_end = cs_takes_end, c_none = cs_none,
      c_truncate = cs_truncate, c_truncate_keeping_right = default_truncate_keeping_right cs_truncate,
      c_can_append = cs_can_append, c_append = cs_append, c_prepend = cs_prepend, c_get_offset = cs_get_offset\<rparr>"

section \<open>The laws of runs\<close>

text \<open>One character: its version, its left and right neighbour, its state, and whether it was ever deleted.\<close>

type_synonym crdt_item = "lv \<times> lv \<times> lv \<times> span_state \<times> bool"

definition cs_items :: "crdt_span \<Rightarrow> crdt_item list" where
  "cs_items x = map (\<lambda>i. (dt_start (cs_id x) + i, origin_left_at_offset x i, cs_right x, cs_state x, cs_deleted x)) [0..<cs_len x]"

definition cs_valid :: "crdt_span \<Rightarrow> bool" where
  "cs_valid x \<longleftrightarrow> dt_start (cs_id x) < dt_end (cs_id x)"

lemmas cs_defs = cs_valid_def cs_len_def cs_truncate_def cs_can_append_def cs_append_def cs_prepend_def

interpretation crdt_span: split_join_span cs_len cs_items cs_valid cs_truncate cs_can_append cs_append cs_prepend
  "default_truncate_keeping_right cs_truncate"
proof unfold_locales
  fix x at assume a: "cs_valid x" "0 < at" "at < cs_len x"
  show "cs_items (fst (cs_truncate x at)) = take at (cs_items x)"
    unfolding cs_items_def take_map_upt[OF less_imp_le[OF a(3)]]
    using a by (intro map_upt_cong) (auto simp: cs_defs span_defs Let_def origin_left_at_offset_def)
  show "cs_items (snd (cs_truncate x at)) = drop at (cs_items x)"
    unfolding cs_items_def drop_map_upt
    using a by (intro map_upt_cong) (auto simp: cs_defs span_defs Let_def origin_left_at_offset_def)
next
  fix a b assume "cs_valid a" "cs_valid b" "cs_can_append a b"
  then show "cs_items (cs_append a b) = cs_items a @ cs_items b"
    unfolding cs_items_def append_map_upt
    by (intro map_upt_cong) (auto simp: cs_defs span_defs Let_def origin_left_at_offset_def wrapping_pred_def split: if_splits)
qed (auto simp: cs_defs cs_items_def span_defs Let_def default_truncate_keeping_right_def wrapping_pred_def split: prod.splits)

end
