(* ===== verification/ContentInsert.thy ===== *)
theory ContentInsert
  imports ContentSplice YjsSpan
begin

text \<open>
  Inserting at a cursor refines inserting into the flattened sequence.  \<open>cursor_ok C items valid t dc bef aft\<close> says
  that the tree is in shape, up to the pending change of the cursor, and that the cursor \<open>dc\<close> stands between the
  items \<open>bef\<close> and \<open>aft\<close>; \<open>items\<close> flattens a run.  The laws of the runs are a locale, interpreted on the spans of the
  merge.
\<close>

definition cursor_in :: "'v content_ops \<Rightarrow> 'v list \<Rightarrow> nat \<Rightarrow> nat \<Rightarrow> bool" where
  "cursor_in C xs e off \<longleftrightarrow> (if e < length xs then off \<le> c_len C (xs ! e) else xs = [] \<and> e = 0 \<and> off = 0)"

definition flat_runs :: "('v \<Rightarrow> 'i list) \<Rightarrow> 'v list \<Rightarrow> 'i list" where
  "flat_runs items xs = concat (map items xs)"

definition cut_before :: "('v \<Rightarrow> 'i list) \<Rightarrow> 'v list \<Rightarrow> nat \<Rightarrow> nat \<Rightarrow> 'i list" where
  "cut_before items xs e off = flat_runs items (take e xs) @ (if e < length xs then take off (items (xs ! e)) else [])"

definition cut_after :: "('v \<Rightarrow> 'i list) \<Rightarrow> 'v list \<Rightarrow> nat \<Rightarrow> nat \<Rightarrow> 'i list" where
  "cut_after items xs e off = (if e < length xs then drop off (items (xs ! e)) else []) @ flat_runs items (drop (Suc e) xs)"

definition seq_len :: "('i \<Rightarrow> len_pair) \<Rightarrow> 'i list \<Rightarrow> len_pair" where
  "seq_len f xs = lp_sum (map f xs)"

definition runs_ok :: "'v content_ops \<Rightarrow> ('v \<Rightarrow> bool) \<Rightarrow> 'v content_tree \<Rightarrow> nat list \<Rightarrow> nat list list \<Rightarrow> (nat \<Rightarrow> len_pair)
    \<Rightarrow> nat \<Rightarrow> len_update \<Rightarrow> bool" where
  "runs_ok C valid t Ls S W x d \<longleftrightarrow> tree_ok C t Ls S W \<and> pend C t Ls W x d \<and> (\<forall>v \<in> set (ct_items C t Ls). valid v)"

definition cursor_ok :: "'v content_ops \<Rightarrow> ('v \<Rightarrow> 'i list) \<Rightarrow> ('v \<Rightarrow> bool) \<Rightarrow> 'v content_tree \<Rightarrow> delta_cursor
    \<Rightarrow> 'i list \<Rightarrow> 'i list \<Rightarrow> bool" where
  "cursor_ok C items valid t dc bef aft \<longleftrightarrow>
     (\<exists>A B S W. let x = cc_leaf (fst dc); e = cc_elem (fst dc); off = cc_offset (fst dc); xs = leaf_items C t x in
       runs_ok C valid t (A @ x # B) S W x (snd dc) \<and> cursor_in C xs e off \<and>
       bef = flat_runs items (ct_items C t A) @ cut_before items xs e off \<and>
       aft = cut_after items xs e off @ flat_runs items (ct_items C t B))"

definition tree_room :: "'v content_tree \<Rightarrow> bool" where
  "tree_room t \<longleftrightarrow> length (ct_leaves t) < usize_max \<and> 2 * length (ct_nodes t) < usize_max"

lemma flat_items_simps [simp]:
  "flat_runs items [] = []" "flat_runs items (x # xs) = items x @ flat_runs items xs" "flat_runs items (xs @ ys) = flat_runs items xs @ flat_runs items ys"
  by (simp_all add: flat_runs_def)

lemma seq_len_simps [simp]:
  "seq_len f [] = lp_zero" "seq_len f (i # xs) = lp_add (f i) (seq_len f xs)" "seq_len f (xs @ ys) = lp_add (seq_len f xs) (seq_len f ys)"
  by (simp_all add: seq_len_def)

lemma ct_items_simps [simp]:
  "ct_items C t [] = []" "ct_items C t (l # ls) = leaf_items C t l @ ct_items C t ls"
  "ct_items C t (ls @ ms) = ct_items C t ls @ ct_items C t ms"
  by (simp_all add: ct_items_def)

lemma cursor_okI:
  assumes "runs_ok C valid t (A @ x # B) S W x d" "cursor_in C (leaf_items C t x) e off"
    and "bef = flat_runs items (ct_items C t A) @ cut_before items (leaf_items C t x) e off"
    and "aft = cut_after items (leaf_items C t x) e off @ flat_runs items (ct_items C t B)"
  shows "cursor_ok C items valid t (\<lparr>cc_leaf = x, cc_elem = e, cc_offset = off\<rparr>, d) bef aft"
  using assms unfolding cursor_ok_def Let_def by auto

text \<open>There are at least as many nodes as levels.\<close>

lemma levels_count:
  assumes "up_ok t k X base W S" "levels_ok t k base S" "base \<noteq> []"
  shows "length S \<le> length (ct_nodes t)"
proof -
  have "\<forall>L \<in> set S. L \<noteq> []" using assms(1,3)
  proof (induction S arbitrary: k X base W)
    case (Cons L S)
    then have "L \<noteq> []" by auto
    then show ?case using Cons.IH[of "Suc k" "{}" L "node_width t"] Cons.prems(1) by simp
  qed simp
  then have "length S \<le> length (concat S)"
  proof (induction S)
    case (Cons L S)
    then show ?case by (cases L) simp_all
  qed simp
  also have "\<dots> = card (set (concat S))" using levels_okD(1)[OF assms(2)] by (simp only: distinct_card)
  also have "\<dots> \<le> card {..<length (ct_nodes t)}"
    using levels_okD(3)[OF assms(2)] by (intro card_mono) auto
  finally show ?thesis by simp
qed

lemma seq_room:
  assumes "runs_ok C valid t (A @ x # B) S W x d" "tree_room t"
  shows "length (ct_leaves t) < usize_max" "length (ct_nodes t) + length S < usize_max"
  using assms levels_count[of t 0 "{}" "A @ x # B" W S] by (auto simp: runs_ok_def tree_ok_def tree_room_def)

section \<open>The laws\<close>

locale content_laws = split_join_span "c_len C" items valid "c_truncate C" "c_can_append C" "c_append C" "c_prepend C"
    "c_truncate_keeping_right C"
  for C :: "'v content_ops" and items :: "'v \<Rightarrow> 'i list" and valid :: "'v \<Rightarrow> bool" +
  fixes item_len :: "'i \<Rightarrow> len_pair"
  assumes none: "\<not> c_exists C (c_none C)"
    and valid_exists: "valid v \<Longrightarrow> c_exists C v"
    and valid_len: "valid v \<Longrightarrow> 0 < c_len C v"
    and item_law: "valid v \<Longrightarrow> i \<in> set (items v) \<Longrightarrow>
      item_len i = \<lparr>lp_cur = (if c_takes_cur C v then 1 else 0), lp_end = (if c_takes_end C v then 1 else 0)\<rparr>"
begin

lemma part_len:
  assumes "valid v" "set is \<subseteq> set (items v)"
  shows "seq_len item_len is =
    \<lparr>lp_cur = (if c_takes_cur C v then length is else 0), lp_end = (if c_takes_end C v then length is else 0)\<rparr>"
  using assms(2) by (induction "is") (simp_all add: item_law[OF assms(1)] lp_zero_def lp_add_def)

lemma width: "valid v \<Longrightarrow> content_len_pair C v = lp_sum (map item_len (items v))"
  using part_len[of v "items v"] length_items[of v]
  by (simp add: seq_len_def content_len_pair_def content_len_cur_def content_len_end_def)

lemma items_width_seq: "\<forall>v \<in> set xs. valid v \<Longrightarrow> items_width C xs = seq_len item_len (flat_runs items xs)"
  by (induction xs) (simp_all add: width seq_len_def)

lemma cut_widths: "\<forall>v \<in> set xs. valid v \<Longrightarrow> e \<le> length xs \<Longrightarrow>
    items_width C xs = lp_add (items_width C (take e xs)) (items_width C (drop e xs))"
  by (metis append_take_drop_id items_width_simps(3))

text \<open>Replacing one run, or all, of the leaf of the cursor.\<close>

lemma edit_run:
  assumes ok: "runs_ok C valid t (A @ x # B) S W x d" and e: "e < length (leaf_items C t x)" "valid v"
    and d': "shifted (W x) d' (items_width C ((leaf_items C t x)[e := v]))"
    and t': "t' = ct_set_leaf t x ((ct_leaves t ! x)\<lparr>cl_children := (cl_children (ct_leaves t ! x))[e := v]\<rparr>)"
  shows "runs_ok C valid t' (A @ x # B) S W x d'" "leaf_items C t' x = (leaf_items C t x)[e := v]"
    "ct_items C t' A = ct_items C t A" "ct_items C t' B = ct_items C t B" "ct_cursor t' = ct_cursor t"
    "length (ct_leaves t') = length (ct_leaves t)" "ct_nodes t' = ct_nodes t"
proof -
  have tk: "tree_ok C t (A @ x # B) S W" and pd: "pend C t (A @ x # B) W x d"
    and val: "\<forall>v \<in> set (ct_items C t (A @ x # B)). valid v"
    using ok by (simp_all add: runs_ok_def)
  have lf: "leaf_ok C t x" using tk by (simp add: tree_ok_def)
  obtain rest where r: "cl_children (ct_leaves t ! x) = leaf_items C t x @ rest" "\<forall>v \<in> set rest. \<not> c_exists C v"
      "length (leaf_items C t x) + length rest = LEAF_CHILDREN"
    using leafE[OF lf] by metis
  let ?ys = "(leaf_items C t x)[e := v]"
  have ch: "(cl_children (ct_leaves t ! x))[e := v] = ?ys @ rest" using e(1) by (simp add: r(1) list_update_append)
  have vys: "\<forall>w \<in> set ?ys. valid w" using val e(2) set_update_subset_insert[of "leaf_items C t x" e v] by auto
  then have ex: "\<forall>w \<in> set ?ys. c_exists C w" using valid_exists by blast
  have len: "length ((cl_children (ct_leaves t ! x))[e := v]) = LEAF_CHILDREN" using r(1,3) by simp
  have "?ys \<noteq> []" using e(1) by auto
  note ed = edit_leaf[OF tk pd ch ex r(2) len this d' t']
  have dd: "distinct (A @ x # B)" using tk by (simp add: tree_ok_def levels_ok_def)
  show AB: "ct_items C t' A = ct_items C t A" "ct_items C t' B = ct_items C t B"
    using ct_items_except[OF ed(4)] dd by simp_all
  show "leaf_items C t' x = ?ys" by (rule ed(3))
  show "runs_ok C valid t' (A @ x # B) S W x d'"
    using ed(1,2) val vys by (simp add: runs_ok_def AB ed(3) ball_Un)
qed (use t' in \<open>simp_all add: ct_set_leaf_def\<close>)

text \<open>A cut at the border of two runs, and inside one.\<close>

lemma cut_zero: "e \<le> length xs \<Longrightarrow> cut_before items xs e 0 = flat_runs items (take e xs) \<and> cut_after items xs e 0 = flat_runs items (drop e xs)"
  by (cases "e < length xs") (simp_all add: cut_before_def cut_after_def Cons_nth_drop_Suc[symmetric])

lemma cut_full:
  assumes "e < length xs" "valid (xs ! e)"
  shows "cut_before items xs e (c_len C (xs ! e)) = flat_runs items (take (Suc e) xs)"
    "cut_after items xs e (c_len C (xs ! e)) = flat_runs items (drop (Suc e) xs)"
  using assms length_items[of "xs ! e"] by (simp_all add: cut_before_def cut_after_def take_Suc_conv_app_nth)

lemma cut_inside:
  assumes "e < length xs" "valid (xs ! e)" "0 < off" "off < c_len C (xs ! e)" "c_truncate C (xs ! e) off = (l, r)"
  shows "cut_before items xs e off = flat_runs items (take (Suc e) (xs[e := l]))"
    "cut_after items xs e off = items r @ flat_runs items (drop (Suc e) (xs[e := l]))" "valid l" "valid r" "c_len C l = off"
    "items (xs ! e) = items l @ items r"
  using assms truncate_left[OF assms(2-4)] truncate_right[OF assms(2-4)] truncate_valid[OF assms(2-4)] truncate_len[OF assms(2-4)]
  by (simp_all add: cut_before_def cut_after_def take_Suc_conv_app_nth)

lemma flat_update: "e < length xs \<Longrightarrow> flat_runs items (xs[e := v]) = flat_runs items (take e xs) @ items v @ flat_runs items (drop (Suc e) xs)"
  by (simp add: upd_conv_take_nth_drop)

lemma flat_nth: "e < length xs \<Longrightarrow> flat_runs items xs = flat_runs items (take e xs) @ items (xs ! e) @ flat_runs items (drop (Suc e) xs)"
  using flat_update[of e xs "xs ! e"] by simp

lemma insert_cut_ok:
  assumes ok: "runs_ok C valid t (A @ x # B) S W x d" and cur: "cursor_in C (leaf_items C t x) e off"
  obtains ch e1 off1 rem d1 t1 p where "ct_insert_cut C (cl_children (ct_leaves t ! x)) e off d = Some (ch, e1, off1, rem, d1)"
    "t1 = ct_set_leaf t x ((ct_leaves t ! x)\<lparr>cl_children := ch\<rparr>)" "runs_ok C valid t1 (A @ x # B) S W x d1"
    "ct_items C t1 A = ct_items C t A" "ct_items C t1 B = ct_items C t B" "ct_cursor t1 = ct_cursor t"
    "length (ct_leaves t1) = length (ct_leaves t)" "ct_nodes t1 = ct_nodes t"
    "off1 = 0 \<longrightarrow> p = 0 \<and> e1 = 0" "off1 \<noteq> 0 \<longrightarrow> p = Suc e1" "p \<le> length (leaf_items C t1 x)"
    "\<forall>r. rem = Some r \<longrightarrow> valid r" "cut_before items (leaf_items C t x) e off = flat_runs items (take p (leaf_items C t1 x))"
    "cut_after items (leaf_items C t x) e off = (case rem of None \<Rightarrow> [] | Some r \<Rightarrow> items r) @ flat_runs items (drop p (leaf_items C t1 x))"
proof -
  let ?xs = "leaf_items C t x" and ?ch = "cl_children (ct_leaves t ! x)"
  have val: "\<forall>v \<in> set ?xs. valid v" using ok by (simp add: runs_ok_def)
  have lf: "leaf_ok C t x" and xl: "x < length (ct_leaves t)" using ok by (simp_all add: runs_ok_def tree_ok_def leaf_ok_def)
  obtain rest where r: "?ch = ?xs @ rest" "length ?xs + length rest = LEAF_CHILDREN" using leafE[OF lf] by metis
  have at: "get_at ?ch i = Some (?xs ! i)" if "i < length ?xs" for i using that r(2) by (simp add: get_at_def r(1) nth_append)
  have same: "ct_set_leaf t x ((ct_leaves t ! x)\<lparr>cl_children := ?ch\<rparr>) = t" by (simp add: ct_set_leaf_def)
  have v: "valid (?xs ! i)" if "i < length ?xs" for i using val that by simp
  consider "off = 0" "0 < e" "e \<le> length ?xs" | "off = 0" "e = 0" | "0 < off" "e < length ?xs" "off = c_len C (?xs ! e)"
    | "0 < off" "e < length ?xs" "off < c_len C (?xs ! e)"
    using cur by (fastforce simp: cursor_in_def split: if_splits)
  then show thesis
  proof cases
    case 1
    have i: "e - 1 < length ?xs" using 1 by simp
    have run: "ct_insert_cut C ?ch e off d = Some (?ch, e - 1, c_len C (?xs ! (e - 1)), None, d)"
      using 1 at[OF i] by (simp add: ct_insert_cut_def)
    have "c_len C (?xs ! (e - 1)) \<noteq> 0" using valid_len[OF v[OF i]] by simp
    then show thesis using that[OF run same[symmetric] ok, of e] 1 cut_zero[of e ?xs] by simp
  next
    case 2
    have "0 < length ?ch" using r LEAF_SPLIT by simp
    then have run: "ct_insert_cut C ?ch e off d = Some (?ch, 0, 0, None, d)"
      using 2 by (simp add: ct_insert_cut_def get_at_def)
    show thesis using that[OF run same[symmetric] ok, of 0] 2 cut_zero[of 0 ?xs] by simp
  next
    case 3
    have run: "ct_insert_cut C ?ch e off d = Some (?ch, e, off, None, d)" using 3 at by (simp add: ct_insert_cut_def)
    show thesis using that[OF run same[symmetric] ok, of "Suc e"] 3 cut_full[OF 3(2) v[OF 3(2)]] by simp
  next
    case 4
    obtain l q where tr: "c_truncate C (?xs ! e) off = (l, q)" by (metis surj_pair)
    note ci = cut_inside[OF 4(2) v[OF 4(2)] 4(1,3) tr]
    have run: "ct_insert_cut C ?ch e off d = Some (?ch[e := l], e, off, Some q, dec_delta_update C d q)"
      using 4 at tr by (simp add: ct_insert_cut_def)
    have pd: "pend C t (A @ x # B) W x d" using ok by (simp add: runs_ok_def)
    have val': "\<forall>v \<in> set (?xs[e := l]). valid v" using val ci(3) set_update_subset_insert[of ?xs e l] by auto
    have "items_width C ?xs = lp_add (items_width C (?xs[e := l])) (content_len_pair C q)"
      unfolding items_width_seq[OF val] items_width_seq[OF val'] flat_update[OF 4(2)] flat_nth[OF 4(2)] ci(6) width[OF ci(4)] seq_len_def[symmetric]
      by (intro lp_eqI) simp_all
    then have sh: "shifted (W x) (dec_delta_update C d q) (items_width C (?xs[e := l]))"
      using shifted_dec shifted_at[OF pd] by metis
    note ed = edit_run[OF ok 4(2) ci(3) sh refl]
    show thesis using that[OF run refl ed(1,3-7), of "Suc e"] ed(2) ci(1,2,4) 4 by simp
  qed
qed

lemma seq_fits:
  "runs_ok C valid t Ls S W x d \<Longrightarrow> lp_fits (items_width C (ct_items C t Ls)) = lp_fits (seq_len item_len (flat_runs items (ct_items C t Ls)))"
  by (simp add: runs_ok_def items_width_seq)

lemma lp_fits_le: "lp_fits (lp_add a b) \<Longrightarrow> lp_fits a"
  by (simp add: lp_fits_def)

lemma splice_seq:
  assumes ok: "runs_ok C valid t (A @ x # B) S W x d" and p: "p \<le> length (leaf_items C t x)"
    and v: "valid item" "\<And>r. rem = Some r \<Longrightarrow> valid r"
    and fit: "lp_fits (seq_len item_len (flat_runs items (ct_items C t (A @ x # B))))" and room: "tree_room t"
  shows "\<exists>t' A' x' B' S' W' d' e' ns. splice_in_internal C t item rem x p d here = Some (t', x', e', d', ns) \<and>
    runs_ok C valid t' (A' @ x' # B') S' W' x' d' \<and> e' < length (leaf_items C t' x') \<and> leaf_items C t' x' ! e' = item \<and>
    ct_items C t' A' @ take e' (leaf_items C t' x') = ct_items C t A @ take p (leaf_items C t x) \<and>
    drop (Suc e') (leaf_items C t' x') @ ct_items C t' B' =
      (case rem of None \<Rightarrow> [] | Some r \<Rightarrow> [r]) @ drop p (leaf_items C t x) @ ct_items C t B \<and>
    ct_cursor t' = ct_cursor t \<and> ct_items C t' A = ct_items C t A \<and> (x' = x \<and> A' = A \<or> x' \<noteq> x \<and> A' = A @ [x])"
proof -
  have tk: "tree_ok C t (A @ x # B) S W" and pd: "pend C t (A @ x # B) W x d"
    and val: "\<forall>v \<in> set (ct_items C t (A @ x # B)). valid v"
    using ok by (simp_all add: runs_ok_def)
  have f: "lp_fits (items_width C (ct_items C t (A @ x # B)))" using fit seq_fits[OF ok] by blast
  have ex: "c_exists C item" "\<And>r. rem = Some r \<Longrightarrow> c_exists C r" using v valid_exists by blast+
  let ?new = "case rem of None \<Rightarrow> [item] | Some r \<Rightarrow> [item, r]"
  obtain t' A' x' B' S' W' d' e' ns where s: "splice_in_internal C t item rem x p d here = Some (t', x', e', d', ns)"
      "tree_ok C t' (A' @ x' # B') S' W'" "pend C t' (A' @ x' # B') W' x' d'"
      "ct_items C t' A' @ take e' (leaf_items C t' x') = ct_items C t A @ take p (leaf_items C t x)"
      "drop e' (leaf_items C t' x') @ ct_items C t' B' = ?new @ drop p (leaf_items C t x) @ ct_items C t B"
      "take (case rem of None \<Rightarrow> 1 | Some r \<Rightarrow> 2) (drop e' (leaf_items C t' x')) = ?new" "e' \<le> length (leaf_items C t' x')"
      "ct_cursor t' = ct_cursor t" "ct_items C t' A = ct_items C t A" "x' = x \<and> A' = A \<or> x' \<noteq> x \<and> A' = A @ [x]"
    using splice_ok[OF tk pd f none p ex seq_room[OF ok room]] by blast
  have e': "e' < length (leaf_items C t' x')"
  proof (rule ccontr)
    assume "\<not> e' < length (leaf_items C t' x')"
    then show False using s(6) by (simp split: option.splits)
  qed
  let ?zs = "leaf_items C t' x'"
  have d': "drop e' ?zs = ?zs ! e' # drop (Suc e') ?zs" by (rule Cons_nth_drop_Suc[symmetric, OF e'])
  have it: "?zs ! e' = item" using s(6) unfolding d' by (simp split: option.splits)
  have tl: "drop (Suc e') ?zs @ ct_items C t' B' = (case rem of None \<Rightarrow> [] | Some r \<Rightarrow> [r]) @ drop p (leaf_items C t x) @ ct_items C t B"
    using s(5) unfolding d' by (simp split: option.splits)
  have all: "ct_items C t' (A' @ x' # B') = (ct_items C t A @ take p (leaf_items C t x)) @ ?new @ drop p (leaf_items C t x) @ ct_items C t B"
    unfolding s(4,5)[symmetric] by simp
  have "\<forall>w \<in> set (take p (leaf_items C t x)) \<union> set (drop p (leaf_items C t x)). valid w"
    using val by (auto dest: in_set_takeD in_set_dropD)
  then have "\<forall>w \<in> set (ct_items C t' (A' @ x' # B')). valid w"
    unfolding all using val v by (auto simp: ball_Un split: option.splits)
  then have "runs_ok C valid t' (A' @ x' # B') S' W' x' d'" using s(2,3) by (simp add: runs_ok_def)
  then show ?thesis using s(1,4,8,9,10) e' it tl by blast
qed

text \<open>The cursor right after a whole run.\<close>

lemma cursor_after_run:
  assumes ok: "runs_ok C valid t (A @ x # B) S W x d" and e: "e < length (leaf_items C t x)" "leaf_items C t x ! e = v"
    and off: "off = c_len C v"
    and bef: "bef = flat_runs items (ct_items C t A @ take e (leaf_items C t x)) @ items v"
    and aft: "aft = flat_runs items (drop (Suc e) (leaf_items C t x) @ ct_items C t B)"
  shows "cursor_ok C items valid t (\<lparr>cc_leaf = x, cc_elem = e, cc_offset = off\<rparr>, d) bef aft"
proof (rule cursor_okI[OF ok])
  have v: "valid v" using ok e nth_mem[OF e(1)] by (simp add: runs_ok_def ball_Un)
  show "cursor_in C (leaf_items C t x) e off" using e off by (simp add: cursor_in_def)
  note c = cut_full[OF e(1)] v e(2) off
  show "bef = flat_runs items (ct_items C t A) @ cut_before items (leaf_items C t x) e off"
    using c by (simp add: bef take_Suc_conv_app_nth e(1))
  show "aft = cut_after items (leaf_items C t x) e off @ flat_runs items (ct_items C t B)"
    using c by (simp add: aft)
qed

lemma splice_cursor:
  assumes ok: "runs_ok C valid t (A @ x # B) S W x d" and p: "p \<le> length (leaf_items C t x)"
    and v: "valid item" "\<And>r. rem = Some r \<Longrightarrow> valid r"
    and fit: "lp_fits (seq_len item_len (flat_runs items (ct_items C t (A @ x # B))))" and room: "tree_room t"
  shows "\<exists>t' x' d' e' ns. splice_in_internal C t item rem x p d here = Some (t', x', e', d', ns) \<and> ct_cursor t' = ct_cursor t \<and>
    cursor_ok C items valid t' (\<lparr>cc_leaf = x', cc_elem = e', cc_offset = c_len C item\<rparr>, d')
      (flat_runs items (ct_items C t A @ take p (leaf_items C t x)) @ items item)
      ((case rem of None \<Rightarrow> [] | Some r \<Rightarrow> items r) @ flat_runs items (drop p (leaf_items C t x) @ ct_items C t B))"
proof -
  obtain t' A' x' B' S' W' d' e' ns where s: "splice_in_internal C t item rem x p d here = Some (t', x', e', d', ns)"
      "runs_ok C valid t' (A' @ x' # B') S' W' x' d'" "e' < length (leaf_items C t' x')" "leaf_items C t' x' ! e' = item"
      "ct_items C t' A' @ take e' (leaf_items C t' x') = ct_items C t A @ take p (leaf_items C t x)"
      "drop (Suc e') (leaf_items C t' x') @ ct_items C t' B' =
        (case rem of None \<Rightarrow> [] | Some r \<Rightarrow> [r]) @ drop p (leaf_items C t x) @ ct_items C t B" "ct_cursor t' = ct_cursor t"
    using splice_seq[OF ok p v fit room] by blast
  have "cursor_ok C items valid t' (\<lparr>cc_leaf = x', cc_elem = e', cc_offset = c_len C item\<rparr>, d')
      (flat_runs items (ct_items C t A @ take p (leaf_items C t x)) @ items item)
      ((case rem of None \<Rightarrow> [] | Some r \<Rightarrow> items r) @ flat_runs items (drop p (leaf_items C t x) @ ct_items C t B))"
    by (rule cursor_after_run[OF s(2-4) refl]) (simp_all only: s(5,6), simp split: option.splits)
  then show ?thesis using s(1,7) by blast
qed

text \<open>One run takes the item in.\<close>

lemma grow_run:
  assumes ok: "runs_ok C valid t (A @ x # B) S W x d" and e: "e < length (leaf_items C t x)"
    and w: "valid w" "valid item" "seq_len item_len (items w) = lp_add (seq_len item_len (items (leaf_items C t x ! e))) (seq_len item_len (items item))"
    and t': "t' = ct_set_leaf t x ((ct_leaves t ! x)\<lparr>cl_children := (cl_children (ct_leaves t ! x))[e := w]\<rparr>)"
  shows "runs_ok C valid t' (A @ x # B) S W x (inc_delta_update C d item)" "leaf_items C t' x = (leaf_items C t x)[e := w]"
    "ct_items C t' A = ct_items C t A" "ct_items C t' B = ct_items C t B" "ct_cursor t' = ct_cursor t"
    "length (ct_leaves t') = length (ct_leaves t)" "ct_nodes t' = ct_nodes t"
proof -
  let ?xs = "leaf_items C t x"
  have pd: "pend C t (A @ x # B) W x d" and val: "\<forall>v \<in> set ?xs. valid v" using ok by (simp_all add: runs_ok_def)
  have val': "\<forall>v \<in> set (?xs[e := w]). valid v" using val w(1) set_update_subset_insert[of ?xs e w] by auto
  have "items_width C (?xs[e := w]) = lp_add (items_width C ?xs) (content_len_pair C item)"
    unfolding items_width_seq[OF val] items_width_seq[OF val'] flat_update[OF e] flat_nth[OF e] width[OF w(2)] seq_len_def[symmetric]
    by (intro lp_eqI) (simp_all add: w(3))
  then have "shifted (W x) (inc_delta_update C d item) (items_width C (?xs[e := w]))"
    using shifted_inc[OF shifted_at[OF pd]] by simp
  note ed = edit_run[OF ok e w(1) this t']
  show "runs_ok C valid t' (A @ x # B) S W x (inc_delta_update C d item)" "leaf_items C t' x = ?xs[e := w]"
    "ct_items C t' A = ct_items C t A" "ct_items C t' B = ct_items C t B" "ct_cursor t' = ct_cursor t"
    "length (ct_leaves t') = length (ct_leaves t)" "ct_nodes t' = ct_nodes t"
    by (rule ed)+
qed

text \<open>The rest of a run that was cut goes behind the run the item was appended to; the cursor stays with that run.\<close>

lemma append_rest:
  assumes ok: "runs_ok C valid t (A @ x # B) S W x d" and e: "e < length (leaf_items C t x)" and v: "v = leaf_items C t x ! e" "valid r"
    and fit: "lp_fits (seq_len item_len (flat_runs items (ct_items C t (A @ x # B)) @ items r))" and room: "tree_room t"
  shows "\<exists>t' dc' ns. do {
        (self, leaf_idx_2, elem_idx_2, delta, ns) \<leftarrow> splice_in_internal C t r None x (e + 1) d here;
        (if leaf_idx_2 \<noteq> x
         then if elem_idx_2 > 0
              then Some (self, (\<lparr>cc_leaf = leaf_idx_2, cc_elem = elem_idx_2 - 1, cc_offset = c_len C v\<rparr>, delta), ms @ ns)
              else do {
                (self, delta) \<leftarrow> flush_delta_and_clear self leaf_idx_2 delta;
                Some (self, (\<lparr>cc_leaf = x, cc_elem = e, cc_offset = c_len C v\<rparr>, delta), ms @ ns)
              }
         else Some (self, (\<lparr>cc_leaf = x, cc_elem = e, cc_offset = c_len C v\<rparr>, delta), ms @ ns))
      } = Some (t', dc', ns) \<and> ct_cursor t' = ct_cursor t \<and>
    cursor_ok C items valid t' dc' (flat_runs items (ct_items C t A @ take (Suc e) (leaf_items C t x)))
      (items r @ flat_runs items (drop (Suc e) (leaf_items C t x) @ ct_items C t B))"
    (is "\<exists>t' dc' ns. ?run = Some (t', dc', ns) \<and> _ t' \<and> cursor_ok C items valid t' dc' ?bef ?aft")
proof -
  let ?xs = "leaf_items C t x"
  have p: "e + 1 \<le> length ?xs" using e by simp
  have fit': "lp_fits (seq_len item_len (flat_runs items (ct_items C t (A @ x # B))))" using fit by (simp add: lp_fits_def)
  obtain t' A' x' B' S' W' d' e' ns where s: "splice_in_internal C t r None x (e + 1) d here = Some (t', x', e', d', ns)"
      "runs_ok C valid t' (A' @ x' # B') S' W' x' d'" "e' < length (leaf_items C t' x')" "leaf_items C t' x' ! e' = r"
      "ct_items C t' A' @ take e' (leaf_items C t' x') = ct_items C t A @ take (e + 1) ?xs"
      "drop (Suc e') (leaf_items C t' x') @ ct_items C t' B' = drop (e + 1) ?xs @ ct_items C t B"
      "ct_cursor t' = ct_cursor t" "ct_items C t' A = ct_items C t A" "x' = x \<and> A' = A \<or> x' \<noteq> x \<and> A' = A @ [x]"
    using splice_seq[OF ok p v(2) _ fit' room, of None here] by auto
  let ?zs = "leaf_items C t' x'"
  have tail: "drop e' ?zs = r # drop (Suc e') ?zs" using Cons_nth_drop_Suc[OF s(3)] s(4) by simp
  have aft: "flat_runs items (drop e' ?zs @ ct_items C t' B') = ?aft" unfolding tail append_Cons s(6) by simp
  have run: "take (e + 1) ?xs = take e ?xs @ [v]" using e v(1) by (simp add: take_Suc_conv_app_nth)
  consider "x' \<noteq> x" "0 < e'" | "x' \<noteq> x" "e' = 0" "A' = A @ [x]" | "x' = x" "A' = A" using s(9) by auto
  then show ?thesis
  proof cases
    case 1
    obtain k where k: "e' = Suc k" using 1(2) by (cases e') auto
    have kz: "k < length ?zs" using s(3) k by simp
    have "ct_items C t' A' @ take k ?zs @ [?zs ! k] = ct_items C t A @ take e ?xs @ [v]"
      using s(5) run kz by (simp add: k take_Suc_conv_app_nth)
    then have kv: "?zs ! k = v" "ct_items C t' A' @ take k ?zs = ct_items C t A @ take e ?xs"
      by (metis append.assoc append1_eq_conv)+
    have "cursor_ok C items valid t' (\<lparr>cc_leaf = x', cc_elem = k, cc_offset = c_len C v\<rparr>, d') ?bef ?aft"
    proof (rule cursor_after_run[OF s(2) kz kv(1) refl])
      show "?bef = flat_runs items (ct_items C t' A' @ take k ?zs) @ items v" unfolding kv(2) using run by simp
      show "?aft = flat_runs items (drop (Suc k) ?zs @ ct_items C t' B')" using aft by (simp add: k)
    qed
    then show ?thesis using s(1,7) 1(1) k by (intro exI conjI) simp_all
  next
    case 2
    have xz: "leaf_items C t' x = take (Suc e) ?xs" using s(5,8) 2 by simp
    have ok': "tree_ok C t' (A @ x # x' # B') S' W'" "pend C t' (A @ x # x' # B') W' x' d'"
      "\<forall>v \<in> set (ct_items C t' (A @ x # x' # B')). valid v"
      using s(2) 2(3) by (simp_all add: runs_ok_def)
    have items': "flat_runs items (ct_items C t' (A @ x # x' # B')) = ?bef @ ?aft"
      using s(8) xz aft 2(2) by simp
    have "lp_fits (items_width C (ct_items C t' (A @ x # x' # B')))"
    proof -
      have "flat_runs items ?xs = flat_runs items (take (Suc e) ?xs) @ flat_runs items (drop (Suc e) ?xs)"
        by (metis append_take_drop_id flat_items_simps(3))
      then have "seq_len item_len (flat_runs items (ct_items C t (A @ x # B)) @ items r) = seq_len item_len (?bef @ ?aft)"
        by (intro lp_eqI) simp_all
      then show ?thesis using fit unfolding items_width_seq[OF ok'(3)] items' by simp
    qed
    then obtain t2 where t2: "flush_delta_and_clear t' x' d' = Some (t2, lu_zero)" "tree_ok C t2 (A @ x # x' # B') S' (leaf_width C t2)"
        "ct_leaves t2 = ct_leaves t'" "ct_cursor t2 = ct_cursor t'"
      using flush_ok[OF ok'(1,2)] by blast
    have it1: "leaf_items C t2 l = leaf_items C t' l" for l by (simp add: leaf_items_def t2(3))
    have "ct_items C t2 ls = ct_items C t' ls" for ls by (induction ls) (simp_all add: it1)
    note it = it1 this
    have "runs_ok C valid t2 (A @ x # x' # B') S' (leaf_width C t2) x lu_zero"
      using t2(2) ok'(3) unfolding runs_ok_def it by (simp add: pend_def)
    moreover have "e < length (leaf_items C t2 x)" "leaf_items C t2 x ! e = v" using e v(1) by (simp_all add: it xz)
    ultimately have "cursor_ok C items valid t2 (\<lparr>cc_leaf = x, cc_elem = e, cc_offset = c_len C v\<rparr>, lu_zero) ?bef ?aft"
    proof (rule cursor_after_run[OF _ _ _ refl])
      show "?bef = flat_runs items (ct_items C t2 A @ take e (leaf_items C t2 x)) @ items v"
        using run e unfolding it xz s(8) by simp
      show "?aft = flat_runs items (drop (Suc e) (leaf_items C t2 x) @ ct_items C t2 (x' # B'))"
        using aft 2(2) unfolding it xz by simp
    qed
    then show ?thesis using s(1,7) 2(1,2) t2(1,4) by (intro exI conjI) simp_all
  next
    case 3
    have tz: "take e' ?zs = take (Suc e) ?xs" using s(5,8) 3 by simp
    have "e' = Suc e" using arg_cong[OF tz, of length] s(3) e by (simp add: min_def split: if_splits)
    note e' = this tz[unfolded this]
    have ez: "e < length ?zs" using s(3) e'(1) by simp
    have zv: "?zs ! e = v" using e'(2) v(1) by (metis lessI nth_take)
    have "take e ?zs = take e ?xs" using e'(2) by (metis take_Suc_conv_app_nth append1_eq_conv e ez)
    then have "cursor_ok C items valid t' (\<lparr>cc_leaf = x', cc_elem = e, cc_offset = c_len C v\<rparr>, d') ?bef ?aft"
      using cursor_after_run[OF s(2) ez zv refl] run aft 3(2) s(8) e'(1) by simp
    then show ?thesis using s(1,7) 3(1) by (intro exI conjI) simp_all
  qed
qed

lemma ct_insert_at:
  assumes ok: "runs_ok C valid t (A @ x # B) S W x d" and cur: "cursor_in C (leaf_items C t x) e off" and item: "valid item"
    and bef: "bef = flat_runs items (ct_items C t A) @ cut_before items (leaf_items C t x) e off"
    and aft: "aft = cut_after items (leaf_items C t x) e off @ flat_runs items (ct_items C t B)"
    and fit: "lp_fits (seq_len item_len (bef @ items item @ aft))" and room: "tree_room t"
  shows "\<exists>t' dc' ns. ct_insert C t item (\<lparr>cc_leaf = x, cc_elem = e, cc_offset = off\<rparr>, d) here = Some (t', dc', ns) \<and>
    ct_cursor t' = ct_cursor t \<and> cursor_ok C items valid t' dc' (bef @ items item) aft"
proof -
  have xl: "x < length (ct_leaves t)" using ok by (simp add: runs_ok_def tree_ok_def leaf_ok_def)
  obtain ch e1 off1 rem d1 t1 p where cut: "ct_insert_cut C (cl_children (ct_leaves t ! x)) e off d = Some (ch, e1, off1, rem, d1)"
    and t1: "t1 = ct_set_leaf t x ((ct_leaves t ! x)\<lparr>cl_children := ch\<rparr>)" "runs_ok C valid t1 (A @ x # B) S W x d1"
      "ct_items C t1 A = ct_items C t A" "ct_items C t1 B = ct_items C t B" "ct_cursor t1 = ct_cursor t"
      "length (ct_leaves t1) = length (ct_leaves t)" "ct_nodes t1 = ct_nodes t"
    and p: "off1 = 0 \<longrightarrow> p = 0 \<and> e1 = 0" "off1 \<noteq> 0 \<longrightarrow> p = Suc e1" "p \<le> length (leaf_items C t1 x)"
    and r: "\<forall>r. rem = Some r \<longrightarrow> valid r"
    and ba: "cut_before items (leaf_items C t x) e off = flat_runs items (take p (leaf_items C t1 x))"
      "cut_after items (leaf_items C t x) e off = (case rem of None \<Rightarrow> [] | Some r \<Rightarrow> items r) @ flat_runs items (drop p (leaf_items C t1 x))"
    using insert_cut_ok[OF ok cur] by metis
  let ?zs = "leaf_items C t1 x" and ?o = "case rem of None \<Rightarrow> [] | Some r \<Rightarrow> items r"
  have bef': "bef = flat_runs items (ct_items C t1 A @ take p ?zs)" unfolding bef ba t1(3) by simp
  have aft': "aft = ?o @ flat_runs items (drop p ?zs @ ct_items C t1 B)" unfolding aft ba t1(4) by simp
  have room1: "tree_room t1" using room t1(6,7) by (simp add: tree_room_def)
  have zs: "seq_len item_len (flat_runs items ?zs) = lp_add (seq_len item_len (flat_runs items (take p ?zs))) (seq_len item_len (flat_runs items (drop p ?zs)))"
    by (metis append_take_drop_id flat_items_simps(3) seq_len_simps(3))
  have fit1: "lp_fits (seq_len item_len (flat_runs items (ct_items C t1 (A @ x # B))))"
    using fit zs unfolding bef' aft' by (simp add: lp_fits_def)
  have node: "ct_leaf t x = Some (ct_leaves t ! x)" "ct_leaves t1 ! x = (ct_leaves t ! x)\<lparr>cl_children := ch\<rparr>"
    using xl by (simp_all add: ct_leaf_def get_at_def t1(1) ct_set_leaf_def)
  have twice: "ct_set_leaf t1 x l = ct_set_leaf t x l" for l by (simp add: t1(1) ct_set_leaf_def)
  note again = twice[unfolded t1(1)]
  let ?run = "ct_insert C t item (\<lparr>cc_leaf = x, cc_elem = e, cc_offset = off\<rparr>, d) here"
    and ?here = "if here then [(item, x)] else []"
  have lf1: "leaf_ok C t1 x" using t1(2) by (simp add: runs_ok_def tree_ok_def)
  obtain rest where ch: "ch = ?zs @ rest" "\<forall>v \<in> set rest. \<not> c_exists C v" using leafE[OF lf1] node(2) by (metis content_leaf.select_convs(1) content_leaf.update_convs(1) content_leaf.surjective)
  obtain t3 x3 d3 e3 ns3 where sp: "splice_in_internal C t1 item rem x p d1 here = Some (t3, x3, e3, d3, ns3)" "ct_cursor t3 = ct_cursor t1"
      "cursor_ok C items valid t3 (\<lparr>cc_leaf = x3, cc_elem = e3, cc_offset = c_len C item\<rparr>, d3) (bef @ items item) aft"
    using splice_cursor[OF t1(2) p(3) item _ fit1 room1, of rem here] r unfolding bef' aft' by auto
  show ?thesis
  proof (cases "off1 = 0")
    case True
    then show ?thesis using sp p(1) t1(5) cut node(1)
      by (intro exI conjI) (simp_all add: ct_insert_def t1(1)[symmetric])
  next
    case False
    then have pe: "p = Suc e1" "e1 < length ?zs" using p by simp_all
    have at: "get_at ch e1 = Some (?zs ! e1)" using pe(2) by (simp add: get_at_def ch nth_append)
    have vz: "valid (?zs ! i)" if "i < length ?zs" for i using t1(2) that nth_mem[OF that] by (simp add: runs_ok_def ball_Un)
    show ?thesis
    proof (cases "c_can_append C (?zs ! e1) item")
      case app: True
      let ?w = "c_append C (?zs ! e1) item"
      have w: "valid ?w" "items ?w = items (?zs ! e1) @ items item"
        using append_valid[OF vz[OF pe(2)] item app] append_items[OF vz[OF pe(2)] item app] by simp_all
      define t2 where "t2 = ct_set_leaf t x ((ct_leaves t ! x)\<lparr>cl_children := ch[e1 := ?w]\<rparr>)"
      have t2': "t2 = ct_set_leaf t1 x ((ct_leaves t1 ! x)\<lparr>cl_children := (cl_children (ct_leaves t1 ! x))[e1 := ?w]\<rparr>)"
        by (simp add: t2_def twice node(2))
      note g = grow_run[OF t1(2) pe(2) w(1) item _ t2', unfolded w(2) seq_len_simps(3), OF refl]
      have tk: "take (Suc e1) (leaf_items C t2 x) = take e1 ?zs @ [?w]" "drop (Suc e1) (leaf_items C t2 x) = drop (Suc e1) ?zs"
        using pe(2) by (simp_all add: g(2) take_Suc_conv_app_nth)
      have ez: "e1 < length (leaf_items C t2 x)" "leaf_items C t2 x ! e1 = ?w" using pe(2) by (simp_all add: g(2))
      have bef2: "bef @ items item = flat_runs items (ct_items C t2 A @ take (Suc e1) (leaf_items C t2 x))"
        unfolding bef' tk g(3) by (simp add: pe take_Suc_conv_app_nth w(2))
      have aft2: "aft = ?o @ flat_runs items (drop (Suc e1) (leaf_items C t2 x) @ ct_items C t2 B)"
        unfolding aft' tk g(4) by (simp add: pe)
      show ?thesis
      proof (cases rem)
        case None
        have "cursor_ok C items valid t2 (\<lparr>cc_leaf = x, cc_elem = e1, cc_offset = c_len C ?w\<rparr>, inc_delta_update C d1 item) (bef @ items item) aft"
          by (rule cursor_after_run[OF g(1) ez refl]) (simp_all add: bef2 aft2 None ez take_Suc_conv_app_nth)
        moreover have "?run = Some (t2, (\<lparr>cc_leaf = x, cc_elem = e1, cc_offset = c_len C ?w\<rparr>, inc_delta_update C d1 item), ?here)"
          using app False None cut node(1) at by (simp add: ct_insert_def Let_def again t2_def)
        ultimately show ?thesis using g(5) t1(5) by (metis (lifting))
      next
        case (Some q)
        have "tree_room t2" using room1 g(6,7) by (simp add: tree_room_def)
        moreover have "lp_fits (seq_len item_len (flat_runs items (ct_items C t2 (A @ x # B)) @ items q))"
        proof -
          have "flat_runs items (leaf_items C t2 x) = flat_runs items (take (Suc e1) (leaf_items C t2 x)) @ flat_runs items (drop (Suc e1) (leaf_items C t2 x))"
            by (metis append_take_drop_id flat_items_simps(3))
          then have "seq_len item_len (flat_runs items (ct_items C t2 (A @ x # B)) @ items q) = seq_len item_len ((bef @ items item) @ aft)"
            unfolding bef2 aft2 by (intro lp_eqI) (simp_all add: Some)
          then show ?thesis using fit by simp
        qed
        ultimately show ?thesis
          using append_rest[OF g(1) ez(1) ez(2)[symmetric] _ _, of q here "if here then [(item, x)] else []"] r Some app False cut node(1) at g(5) t1(5)
          unfolding bef2[symmetric] by (simp add: ct_insert_def Let_def again t2_def[symmetric] aft2 split del: if_split cong: if_cong)
      qed
    next
      case app: False
      show ?thesis
      proof (cases "rem = None \<and> p < length ch \<and> c_exists C (ch ! p) \<and> c_can_append C item (ch ! p)")
        case True
        have pz: "p < length ?zs"
        proof (rule ccontr)
          assume "\<not> p < length ?zs"
          moreover from this have "ch ! p = rest ! (p - length ?zs)" by (simp add: ch(1) nth_append)
          moreover have "p < length ?zs + length rest" using True by (simp add: ch(1))
          ultimately have "p - length ?zs < length rest" "ch ! p = rest ! (p - length ?zs)" by linarith+
          then have "ch ! p \<in> set rest" by simp
          then show False using ch(2) True by blast
        qed
        then have cp: "ch ! p = ?zs ! p" by (simp add: ch(1) nth_append)
        let ?w = "c_prepend C (?zs ! p) item"
        have ca: "c_can_append C item (?zs ! p)" using True cp by simp
        have w: "valid ?w" "items ?w = items item @ items (?zs ! p)" "c_len C ?w = c_len C item + c_len C (?zs ! p)"
          using append_valid[OF item vz[OF pz] ca] append_items[OF item vz[OF pz] ca] append_len[OF item vz[OF pz] ca]
          by (simp_all add: prepend_append[OF item vz[OF pz] ca])
        define t2 where "t2 = ct_set_leaf t x ((ct_leaves t ! x)\<lparr>cl_children := ch[p := ?w]\<rparr>)"
        have t2': "t2 = ct_set_leaf t1 x ((ct_leaves t1 ! x)\<lparr>cl_children := (cl_children (ct_leaves t1 ! x))[p := ?w]\<rparr>)"
          by (simp add: t2_def twice node(2))
        have sl: "seq_len item_len (items ?w) = lp_add (seq_len item_len (items (?zs ! p))) (seq_len item_len (items item))"
          unfolding w(2) by (intro lp_eqI) simp_all
        note g = grow_run[OF t1(2) pz w(1) item sl t2']
        have "cursor_ok C items valid t2 (\<lparr>cc_leaf = x, cc_elem = p, cc_offset = c_len C item\<rparr>, inc_delta_update C d1 item) (bef @ items item) aft"
        proof (rule cursor_okI[OF g(1)])
          have li: "length (items item) = c_len C item" by (rule length_items[OF item])
          show "cursor_in C (leaf_items C t2 x) p (c_len C item)" using pz w(3) by (simp add: cursor_in_def g(2))
          show "bef @ items item = flat_runs items (ct_items C t2 A) @ cut_before items (leaf_items C t2 x) p (c_len C item)"
            using pz li by (simp add: bef' cut_before_def g(2,3) w(2))
          show "aft = cut_after items (leaf_items C t2 x) p (c_len C item) @ flat_runs items (ct_items C t2 B)"
            using pz li True by (simp add: aft' cut_after_def g(2,4) w(2) Cons_nth_drop_Suc[OF pz, symmetric])
        qed
        moreover have "?run = Some (t2, (\<lparr>cc_leaf = x, cc_elem = p, cc_offset = c_len C item\<rparr>, inc_delta_update C d1 item), ?here)"
          using app False True cut node(1) at pe(1) cp by (simp add: ct_insert_def Let_def again t2_def)
        ultimately show ?thesis using g(5) t1(5) by (metis (lifting))
      next
        case np: False
        have "?run = Some (t3, (\<lparr>cc_leaf = x3, cc_elem = e3, cc_offset = c_len C item\<rparr>, d3), ns3)"
          using sp(1) app False cut node(1) at np pe(1)
          by (simp add: ct_insert_def Let_def t1(1)[symmetric] if_not_P[OF np[unfolded pe(1)]])
        then show ?thesis using sp(2,3) t1(5) by (metis (lifting))
      qed
    qed
  qed
qed

text \<open>Inserting at a cursor is inserting into the flattened sequence.\<close>

theorem ct_insert_ok:
  assumes "cursor_ok C items valid t dc bef aft" "valid item" "lp_fits (seq_len item_len (bef @ items item @ aft))" "tree_room t"
  shows "\<exists>t' dc' ns. ct_insert C t item dc here = Some (t', dc', ns) \<and>
    ct_cursor t' = ct_cursor t \<and> cursor_ok C items valid t' dc' (bef @ items item) aft"
proof -
  obtain c d where dc: "dc = (c, d)" by (metis surj_pair)
  have c: "c = \<lparr>cc_leaf = cc_leaf c, cc_elem = cc_elem c, cc_offset = cc_offset c\<rparr>" by simp
  obtain A B S W where "runs_ok C valid t (A @ cc_leaf c # B) S W (cc_leaf c) d"
      "cursor_in C (leaf_items C t (cc_leaf c)) (cc_elem c) (cc_offset c)"
      "bef = flat_runs items (ct_items C t A) @ cut_before items (leaf_items C t (cc_leaf c)) (cc_elem c) (cc_offset c)"
      "aft = cut_after items (leaf_items C t (cc_leaf c)) (cc_elem c) (cc_offset c) @ flat_runs items (ct_items C t B)"
    using assms(1) unfolding cursor_ok_def Let_def dc fst_conv snd_conv by blast
  then show ?thesis using ct_insert_at[OF _ _ assms(2) _ _ assms(3,4)] unfolding dc by (metis c)
qed

end

section \<open>The spans of the merge\<close>

definition crdt_item_len :: "crdt_item \<Rightarrow> len_pair" where
  "crdt_item_len i = (case i of (_, _, _, state, deleted) \<Rightarrow>
     \<lparr>lp_cur = (if state = INSERTED then 1 else 0), lp_end = (if deleted then 0 else 1)\<rparr>)"

lemma crdt_content_simps [simp]:
  "c_len crdt_content = cs_len" "c_truncate crdt_content = cs_truncate" "c_can_append crdt_content = cs_can_append"
  "c_append crdt_content = cs_append" "c_prepend crdt_content = cs_prepend" "c_exists crdt_content = cs_exists"
  "c_truncate_keeping_right crdt_content = default_truncate_keeping_right cs_truncate" "c_none crdt_content = cs_none"
  by (simp_all add: crdt_content_def)

interpretation crdt: content_laws crdt_content cs_items cs_valid crdt_item_len
proof (unfold_locales, unfold crdt_content_simps)
  show "\<not> cs_exists cs_none" by (simp add: cs_exists_def cs_none_def)
  show "cs_valid v \<Longrightarrow> cs_exists v" "cs_valid v \<Longrightarrow> 0 < cs_len v" for v
    by (simp_all add: cs_valid_def cs_exists_def cs_len_def span_defs)
  show "cs_valid v \<Longrightarrow> i \<in> set (cs_items v) \<Longrightarrow> crdt_item_len i =
      \<lparr>lp_cur = (if c_takes_cur crdt_content v then 1 else 0), lp_end = (if c_takes_end crdt_content v then 1 else 0)\<rparr>" for v i
    by (auto simp: crdt_item_len_def cs_items_def crdt_content_def cs_takes_cur_def cs_takes_end_def)
qed (fact crdt_span.length_items crdt_span.truncate_valid crdt_span.truncate_left crdt_span.truncate_right
  crdt_span.append_valid crdt_span.append_items crdt_span.prepend_append crdt_span.truncate_keeping_right crdt_span.rejoin)+

end
