(* ===== verification/ContentFind.thy ===== *)
theory ContentFind
  imports ContentTree RleIter
begin

text \<open>
  Finding things in the content tree: by current position, by the version of an item, and the walks over all
  leaves.  The tree caches the last cursor with its position; a new search starts from it where it can, and
  flushes its pending change otherwise.
\<close>

fun find_pos_widths :: "(nat \<times> len_pair) list \<Rightarrow> nat \<Rightarrow> nat \<Rightarrow> (nat \<times> nat \<times> nat) option" where
  "find_pos_widths [] at_cur_pos end_pos_offset = None"
| "find_pos_widths ((child, width) # cs) at_cur_pos end_pos_offset =
     (if at_cur_pos < lp_cur width then Some (child, end_pos_offset, at_cur_pos)
      else find_pos_widths cs (at_cur_pos - lp_cur width) (end_pos_offset + lp_end width))"

definition find_cur_pos_in_node :: "content_node \<Rightarrow> nat \<Rightarrow> (nat \<times> nat \<times> nat) option" where
  "find_cur_pos_in_node node at_cur_pos = find_pos_widths (zip (cn_indexes node) (cn_width node)) at_cur_pos 0"

fun find_pos_items :: "'v content_ops \<Rightarrow> 'v list \<Rightarrow> nat \<Rightarrow> nat \<Rightarrow> nat \<Rightarrow> (nat \<times> nat \<times> nat) option" where
  "find_pos_items C [] i at_cur_pos end_pos = None"
| "find_pos_items C (e # es) i at_cur_pos end_pos =
     (let width = content_len_pair C e
      in if at_cur_pos < lp_cur width then Some (i, end_pos + (if c_takes_end C e then at_cur_pos else 0), at_cur_pos)
         else find_pos_items C es (i + 1) (at_cur_pos - lp_cur width) (end_pos + lp_end width))"

definition find_cur_pos_in_leaf :: "'v content_ops \<Rightarrow> 'v content_leaf \<Rightarrow> nat \<Rightarrow> (nat \<times> nat \<times> nat) option" where
  "find_cur_pos_in_leaf C leaf at_cur_pos = find_pos_items C (cl_children leaf) 0 at_cur_pos 0"

text \<open>The walk to the next element with a current length; flushing the leaves it leaves behind.\<close>

partial_function (option) slide_loop :: "'v content_ops \<Rightarrow> 'v content_tree \<Rightarrow> content_cursor \<Rightarrow> len_update \<Rightarrow> nat
    \<Rightarrow> ('v content_tree \<times> content_cursor \<times> len_update \<times> nat) option" where
  "slide_loop C self cursor delta end_slide_len =
     do {
       leaf \<leftarrow> ct_leaf self (cc_leaf cursor);
       (self, cursor, delta, leaf) \<leftarrow>
         (if cc_elem cursor \<ge> length (cl_children leaf) \<or> \<not> c_exists C (cl_children leaf ! cc_elem cursor)
          then if idx_exists (cl_next leaf)
               then do {
                 (self, delta) \<leftarrow> flush_delta_and_clear self (cc_leaf cursor) delta;
                 leaf' \<leftarrow> ct_leaf self (cl_next leaf);
                 Some (self, cursor\<lparr>cc_leaf := cl_next leaf, cc_elem := 0\<rparr>, delta, leaf')
               }
               else None
          else Some (self, cursor, delta, leaf));
       e \<leftarrow> get_at (cl_children leaf) (cc_elem cursor);
       (if c_takes_cur C e then Some (self, cursor, delta, end_slide_len)
        else slide_loop C self (cursor\<lparr>cc_elem := cc_elem cursor + 1\<rparr>) delta (end_slide_len + content_len_end C e))
     }"

definition slide_cursor_to_next_content :: "'v content_ops \<Rightarrow> 'v content_tree \<Rightarrow> content_cursor \<Rightarrow> len_update
    \<Rightarrow> ('v content_tree \<times> content_cursor \<times> len_update \<times> nat) option" where
  "slide_cursor_to_next_content C self cursor flush =
     do {
       leaf \<leftarrow> ct_leaf self (cc_leaf cursor);
       e \<leftarrow> get_at (cl_children leaf) (cc_elem cursor);
       (if \<not> c_exists C e \<or> (c_takes_cur C e \<and> cc_offset cursor < c_len C e) then Some (self, cursor, flush, 0)
        else slide_loop C self (cursor\<lparr>cc_elem := cc_elem cursor + 1, cc_offset := 0\<rparr>) flush
               (if c_takes_end C e then c_len C e - cc_offset cursor else 0))
     }"

definition cursor_at_start :: "'v content_tree \<Rightarrow> ('v content_tree \<times> content_cursor) option" where
  "cursor_at_start self =
     do {
       self \<leftarrow> (case ct_cursor self of
                 None \<Rightarrow> Some self
               | Some (_, (cursor, delta)) \<Rightarrow> flush_delta_len (self\<lparr>ct_cursor := None\<rparr>) (cc_leaf cursor) delta);
       Some (self, cursor_default)
     }"

definition cursor_at_start_nothing_emplaced :: "'v content_tree \<Rightarrow> content_cursor" where
  "cursor_at_start_nothing_emplaced self = cursor_default"

definition mut_cursor_at_start :: "'v content_tree \<Rightarrow> ('v content_tree \<times> delta_cursor) option" where
  "mut_cursor_at_start self = do { (self, c) \<leftarrow> cursor_at_start self; Some (self, (c, lu_zero)) }"

fun descend :: "content_node list \<Rightarrow> nat \<Rightarrow> nat \<Rightarrow> nat \<Rightarrow> nat \<Rightarrow> (nat \<times> nat \<times> nat) option" where
  "descend nodes 0 idx end_pos content_pos_remaining = Some (idx, end_pos, content_pos_remaining)"
| "descend nodes (Suc h) idx end_pos content_pos_remaining =
     do {
       n \<leftarrow> get_at nodes idx;
       (child_idx, rel_end_pos, cpr) \<leftarrow> find_cur_pos_in_node n content_pos_remaining;
       descend nodes h child_idx (end_pos + rel_end_pos) cpr
     }"

definition find_from_root :: "'v content_ops \<Rightarrow> 'v content_tree \<Rightarrow> nat \<Rightarrow> ('v content_tree \<times> nat \<times> delta_cursor) option" where
  "find_from_root C self content_pos =
     do {
       (idx, end_pos, remaining) \<leftarrow> descend (ct_nodes self) (ct_height self) (ct_root self) 0 content_pos;
       leaf \<leftarrow> ct_leaf self idx;
       (elem_idx, rel_end_pos, offset) \<leftarrow> find_cur_pos_in_leaf C leaf remaining;
       Some (self, end_pos + rel_end_pos, (\<lparr>cc_leaf = idx, cc_elem = elem_idx, cc_offset = offset\<rparr>, lu_zero))
     }"

definition mut_cursor_before_cur_pos :: "'v content_ops \<Rightarrow> 'v content_tree \<Rightarrow> nat
    \<Rightarrow> ('v content_tree \<times> nat \<times> delta_cursor) option" where
  "mut_cursor_before_cur_pos C self content_pos =
     (case ct_cursor self of
        None \<Rightarrow> find_from_root C self content_pos
      | Some (pos, cursor) \<Rightarrow>
          (let self = self\<lparr>ct_cursor := None\<rparr>
           in case pos of
                Some p \<Rightarrow>
                  if lp_cur p = content_pos
                  then do {
                    (self, c, delta, len) \<leftarrow> slide_cursor_to_next_content C self (fst cursor) (snd cursor);
                    Some (self, lp_end p + len, (c, delta))
                  }
                  else do { self \<leftarrow> dc_flush cursor self; find_from_root C self content_pos }
              | None \<Rightarrow> do { self \<leftarrow> dc_flush cursor self; find_from_root C self content_pos }))"

definition emplace_cursor :: "'v content_tree \<Rightarrow> len_pair \<Rightarrow> delta_cursor \<Rightarrow> 'v content_tree option" where
  "emplace_cursor self pos cursor =
     (if ct_cursor self = None then Some (self\<lparr>ct_cursor := Some (Some pos, cursor)\<rparr>) else None)"

definition emplace_cursor_unknown :: "'v content_tree \<Rightarrow> delta_cursor \<Rightarrow> 'v content_tree option" where
  "emplace_cursor_unknown self cursor =
     (if ct_cursor self = None then Some (self\<lparr>ct_cursor := Some (None, cursor)\<rparr>) else None)"

fun find_item :: "'v content_ops \<Rightarrow> lv \<Rightarrow> 'v list \<Rightarrow> nat \<Rightarrow> (nat \<times> nat) option" where
  "find_item C key [] i = None"
| "find_item C key (e # es) i =
     (case c_get_offset C e key of Some off \<Rightarrow> Some (i, off) | None \<Rightarrow> find_item C key es (i + 1))"

definition cursor_before_item :: "'v content_ops \<Rightarrow> 'v content_tree \<Rightarrow> lv \<Rightarrow> nat \<Rightarrow> content_cursor option" where
  "cursor_before_item C self key leaf_idx =
     do {
       leaf \<leftarrow> ct_leaf self leaf_idx;
       (elem_idx, offset) \<leftarrow> find_item C key (cl_children leaf) 0;
       Some \<lparr>cc_leaf = leaf_idx, cc_elem = elem_idx, cc_offset = offset\<rparr>
     }"

definition try_find_item :: "'v content_ops \<Rightarrow> 'v content_tree \<Rightarrow> lv \<Rightarrow> ('v content_tree \<times> delta_cursor option) option" where
  "try_find_item C self key =
     (case ct_cursor self of
        None \<Rightarrow> Some (self, None)
      | Some (_, cursor) \<Rightarrow>
          do {
            let self = self\<lparr>ct_cursor := None\<rparr>;
            leaf \<leftarrow> ct_leaf self (cc_leaf (fst cursor));
            (case find_item C key (cl_children leaf) 0 of
               Some (elem_idx, offset) \<Rightarrow>
                 Some (self, Some (\<lparr>cc_leaf = cc_leaf (fst cursor), cc_elem = elem_idx, cc_offset = offset\<rparr>, snd cursor))
             | None \<Rightarrow> do { self \<leftarrow> dc_flush cursor self; Some (self, None) })
          })"

text \<open>The positions are kept up to date; a subtraction that underflows panics (\<open>checked_sub\<close>).\<close>

definition pos_before :: "'v content_ops \<Rightarrow> 'v \<Rightarrow> nat \<Rightarrow> len_pair \<Rightarrow> len_pair option" where
  "pos_before C item n pos =
     do {
       e \<leftarrow> (if c_takes_end C item then checked_sub (lp_end pos) n else Some (lp_end pos));
       c \<leftarrow> (if c_takes_cur C item then checked_sub (lp_cur pos) n else Some (lp_cur pos));
       Some \<lparr>lp_cur = c, lp_end = e\<rparr>
     }"

definition pos_within :: "'v content_ops \<Rightarrow> 'v \<Rightarrow> nat \<Rightarrow> nat \<Rightarrow> len_pair \<Rightarrow> len_pair option" where
  "pos_within C item cur_offset actual_offset pos =
     do {
       p \<leftarrow> pos_before C item cur_offset pos;
       Some \<lparr>lp_cur = (if c_takes_cur C item then lp_cur p + actual_offset else lp_cur p),
             lp_end = (if c_takes_end C item then lp_end p + actual_offset else lp_end p)\<rparr>
     }"

definition map_pos :: "(len_pair \<Rightarrow> len_pair option) \<Rightarrow> len_pair option \<Rightarrow> len_pair option option" where
  "map_pos f pos = (case pos of None \<Rightarrow> Some None | Some p \<Rightarrow> map_option Some (f p))"

definition mut_cursor_before_item :: "'v content_ops \<Rightarrow> 'v content_tree \<Rightarrow> lv \<Rightarrow> nat
    \<Rightarrow> ('v content_tree \<times> delta_cursor \<times> len_pair option) option" where
  "mut_cursor_before_item C self key leaf_idx =
     (let fresh = (\<lambda>self. do { c \<leftarrow> cursor_before_item C self key leaf_idx; Some (self, (c, lu_zero), None) })
      in case ct_cursor self of
           None \<Rightarrow> fresh self
         | Some (pos, (cursor, delta)) \<Rightarrow>
             do {
               let self = self\<lparr>ct_cursor := None\<rparr>;
               (item, cur_offset) \<leftarrow> get_item cursor self;
               (case c_get_offset C item key of
                  Some actual_offset \<Rightarrow>
                    do {
                      pos \<leftarrow> map_pos (pos_within C item cur_offset actual_offset) pos;
                      Some (self, (cursor\<lparr>cc_offset := actual_offset\<rparr>, delta), pos)
                    }
                | None \<Rightarrow>
                    if cc_elem cursor > 0
                    then do {
                      leaf \<leftarrow> ct_leaf self (cc_leaf cursor);
                      prev_elem \<leftarrow> get_at (cl_children leaf) (cc_elem cursor - 1);
                      (case c_get_offset C prev_elem key of
                         Some actual_offset \<Rightarrow>
                           do {
                             pos \<leftarrow> map_pos (pos_before C item cur_offset) pos;
                             n \<leftarrow> checked_sub (c_len C prev_elem) actual_offset;
                             pos \<leftarrow> map_pos (pos_before C prev_elem n) pos;
                             Some (self, (cursor\<lparr>cc_elem := cc_elem cursor - 1, cc_offset := actual_offset\<rparr>, delta), pos)
                           }
                       | None \<Rightarrow> do { self \<leftarrow> dc_flush (cursor, delta) self; fresh self })
                    }
                    else do { self \<leftarrow> dc_flush (cursor, delta) self; fresh self })
             })"

section \<open>Walking over the tree\<close>

definition ct_first_leaf :: "'v content_tree \<Rightarrow> nat" where
  "ct_first_leaf self = 0"

definition ct_is_empty :: "'v content_ops \<Rightarrow> 'v content_tree \<Rightarrow> bool option" where
  "ct_is_empty C self =
     do {
       leaf \<leftarrow> ct_leaf self (ct_first_leaf self);
       e \<leftarrow> get_at (cl_children leaf) 0;
       Some (\<not> c_exists C e)
     }"

text \<open>The iterator over the items holds a leaf and an index in it.\<close>

definition ct_iter_next :: "'v content_ops \<Rightarrow> 'v content_tree \<Rightarrow> nat \<times> nat \<Rightarrow> ((nat \<times> nat) \<times> 'v option) option" where
  "ct_iter_next C tree it =
     (let (leaf_idx, elem_idx) = it
      in if leaf_idx \<ge> length (ct_leaves tree) \<or> elem_idx \<ge> LEAF_CHILDREN then Some (it, None)
         else do {
           leaf \<leftarrow> ct_leaf tree leaf_idx;
           data \<leftarrow> get_at (cl_children leaf) elem_idx;
           let elem_idx = elem_idx + 1;
           Some (if elem_idx \<ge> LEAF_CHILDREN \<or> \<not> c_exists C (cl_children leaf ! elem_idx)
                 then (cl_next leaf, 0) else (leaf_idx, elem_idx), Some data)
         })"

definition ct_iter :: "'v content_ops \<Rightarrow> 'v content_tree \<Rightarrow> (nat \<times> nat) option" where
  "ct_iter C self = do { e \<leftarrow> ct_is_empty C self; Some (if e then usize_max else ct_first_leaf self, 0) }"

text \<open>All that an iterator still yields.\<close>

partial_function (option) ct_iter_collect :: "'v content_ops \<Rightarrow> 'v content_tree \<Rightarrow> nat \<times> nat \<Rightarrow> 'v list option" where
  "ct_iter_collect C tree it =
     do {
       (it, x) \<leftarrow> ct_iter_next C tree it;
       (case x of None \<Rightarrow> Some [] | Some v \<Rightarrow> do { vs \<leftarrow> ct_iter_collect C tree it; Some (v # vs) })
     }"

definition ct_iter_rle :: "'v content_ops \<Rightarrow> 'v content_tree \<Rightarrow> 'v list option" where
  "ct_iter_rle C self =
     do {
       it \<leftarrow> ct_iter C self;
       vs \<leftarrow> ct_iter_collect C self it;
       Some (merge_spans (c_can_append C) (c_append C) (c_prepend C) vs)
     }"

definition ct_leaf_iter_next :: "'v content_tree \<Rightarrow> nat \<Rightarrow> (nat \<times> (nat \<times> 'v list) option) option" where
  "ct_leaf_iter_next tree leaf_idx =
     (if \<not> idx_exists leaf_idx then Some (leaf_idx, None)
      else do { leaf \<leftarrow> ct_leaf tree leaf_idx; Some (cl_next leaf, Some (leaf_idx, cl_children leaf)) })"

partial_function (option) ct_iter_leaves :: "'v content_tree \<Rightarrow> nat \<Rightarrow> (nat \<times> 'v list) list option" where
  "ct_iter_leaves tree leaf_idx =
     do {
       (leaf_idx, x) \<leftarrow> ct_leaf_iter_next tree leaf_idx;
       (case x of None \<Rightarrow> Some [] | Some v \<Rightarrow> do { vs \<leftarrow> ct_iter_leaves tree leaf_idx; Some (v # vs) })
     }"

definition ct_count_entries :: "'v content_ops \<Rightarrow> 'v content_tree \<Rightarrow> nat option" where
  "ct_count_entries C self =
     do {
       ls \<leftarrow> ct_iter_leaves self (ct_first_leaf self);
       Some (sum_list (map (\<lambda>(_, children). length (takeWhile (c_exists C) children)) ls))
     }"

end
