(* ===== verification/ContentSearch.thy ===== *)
theory ContentSearch
  imports ContentInsert ContentFind
begin

text \<open>
  Searching by current position: the descent from the root and the walk from the cached cursor both end at the
  cut of the sequence the position names, in front of an item that is there now.  With the cache, the tree
  implements a plain sequence: \<open>content_state\<close> relates the two.
\<close>

section \<open>The descent\<close>

definition located :: "(nat \<Rightarrow> len_pair) \<Rightarrow> nat list \<Rightarrow> nat \<Rightarrow> nat \<Rightarrow> nat \<Rightarrow> nat \<Rightarrow> bool" where
  "located W xs pos x E r \<longleftrightarrow> (\<exists>A B. xs = A @ x # B \<and> pos = lp_cur (lp_sum (map W A)) + r \<and> r < lp_cur (W x) \<and>
     E = lp_end (lp_sum (map W A)))"

lemma find_widths:
  assumes "pos < lp_cur (lp_sum (map W xs))"
  shows "\<exists>x E r. find_pos_widths (zip xs (map W xs) @ zs) pos e = Some (x, e + E, r) \<and> located W xs pos x E r"
  using assms
proof (induction xs arbitrary: pos e)
  case (Cons y ys)
  show ?case
  proof (cases "pos < lp_cur (W y)")
    case True
    then have "located W (y # ys) pos y 0 pos" unfolding located_def by (rule_tac exI[of _ "[]"], rule_tac exI[of _ ys]) simp
    then show ?thesis using True by (intro exI[of _ y] exI[of _ 0] exI[of _ pos]) simp
  next
    case False
    have "pos - lp_cur (W y) < lp_cur (lp_sum (map W ys))" using Cons.prems False by (simp add: less_diff_conv2 not_less)
    then obtain x E r where ih: "find_pos_widths (zip ys (map W ys) @ zs) (pos - lp_cur (W y)) (e + lp_end (W y)) = Some (x, e + lp_end (W y) + E, r)"
        "located W ys (pos - lp_cur (W y)) x E r"
      using Cons.IH[of "pos - lp_cur (W y)" "e + lp_end (W y)"] by blast
    obtain A B where AB: "ys = A @ x # B" "pos - lp_cur (W y) = lp_cur (lp_sum (map W A)) + r" "r < lp_cur (W x)"
        "E = lp_end (lp_sum (map W A))"
      using ih(2) unfolding located_def by blast
    have "located W (y # ys) pos x (lp_end (W y) + E) r"
      unfolding located_def by (rule exI[of _ "y # A"], rule exI[of _ B]) (use AB False in simp)
    then show ?thesis using ih(1) False by (intro exI[of _ x] exI[of _ "lp_end (W y) + E"] exI[of _ r]) (simp add: add.assoc)
  qed
qed simp

lemma find_in_node:
  assumes ok: "node_ok t n" and w: "widths t n = map W (kids t n)" and pos: "pos < lp_cur (node_width t n)"
  shows "\<exists>x E r. find_cur_pos_in_node (ct_nodes t ! n) pos = Some (x, E, r) \<and> located W (kids t n) pos x E r"
proof -
  let ?n = "ct_nodes t ! n"
  have ix: "cn_indexes ?n = kids t n @ drop (length (kids t n)) (cn_indexes ?n)"
    using takeWhile_eq_take[of "\<lambda>i. i \<noteq> usize_max" "cn_indexes ?n"] unfolding kids_def by (metis append_take_drop_id)
  have wd: "cn_width ?n = map W (kids t n) @ drop (length (kids t n)) (cn_width ?n)"
    using w unfolding widths_def by (metis append_take_drop_id)
  have "zip (cn_indexes ?n) (cn_width ?n) = zip (kids t n) (map W (kids t n)) @
      zip (drop (length (kids t n)) (cn_indexes ?n)) (drop (length (kids t n)) (cn_width ?n))"
    by (subst ix, subst wd) simp
  moreover have "pos < lp_cur (lp_sum (map W (kids t n)))" using pos w by (simp add: node_width_def)
  ultimately show ?thesis using find_widths[of pos W "kids t n"] by (fastforce simp: find_cur_pos_in_node_def)
qed

lemma descend_last:
  "descend nodes (Suc h) idx e r = do {
     (idx, e, r) \<leftarrow> descend nodes h idx e r;
     n \<leftarrow> get_at nodes idx;
     (child_idx, rel, cpr) \<leftarrow> find_cur_pos_in_node n r;
     Some (child_idx, e + rel, cpr) }"
proof (induction h arbitrary: idx e r)
  case (Suc h)
  note step = descend.simps(2)[of nodes "Suc h" idx e r] descend.simps(2)[of nodes h idx e r]
  show ?case
  proof (cases "get_at nodes idx")
    case (Some n)
    then show ?thesis
    proof (cases "find_cur_pos_in_node n r")
      case (Some q)
      then show ?thesis using \<open>get_at nodes idx = Some n\<close> Suc.IH[of "fst q" "e + fst (snd q)" "snd (snd q)"]
        by (simp del: descend.simps add: step case_prod_beta)
    qed (simp del: descend.simps add: step)
  qed (simp del: descend.simps add: step)
next
  case 0
  show ?case
  proof (cases "get_at nodes idx")
    case (Some n)
    then show ?thesis by (cases "find_cur_pos_in_node n r") auto
  qed simp
qed

lemma located_concat:
  assumes L: "located (node_width t) L pos n E1 r1" and n: "located W (kids t n) r1 x E2 r2"
    and w: "\<forall>m \<in> set L. widths t m = map W (kids t m)" and b: "concat (map (kids t) L) = base"
  shows "located W base pos x (E1 + E2) r2"
proof -
  obtain L1 L2 where l: "L = L1 @ n # L2" "pos = lp_cur (lp_sum (map (node_width t) L1)) + r1" "E1 = lp_end (lp_sum (map (node_width t) L1))"
    using L unfolding located_def by blast
  obtain A B where a: "kids t n = A @ x # B" "r1 = lp_cur (lp_sum (map W A)) + r2" "r2 < lp_cur (W x)" "E2 = lp_end (lp_sum (map W A))"
    using n unfolding located_def by blast
  have "map (node_width t) L1 = map (\<lambda>n. lp_sum (map W (kids t n))) L1" using w by (auto simp: node_width_def l(1))
  then have "lp_sum (map (node_width t) L1) = lp_sum (map (\<lambda>n. lp_sum (map W (kids t n))) L1)" by (rule arg_cong)
  then have s: "lp_sum (map (node_width t) L1) = lp_sum (map W (concat (map (kids t) L1)))"
    using lp_sum_concat[of W "map (kids t) L1"] by (simp add: comp_def)
  show ?thesis unfolding located_def
    by (rule exI[of _ "concat (map (kids t) L1) @ A"], rule exI[of _ "B @ concat (map (kids t) L2)"])
      (use l a s b in simp)
qed

lemma descend_ok:
  assumes "up_ok t k X base W S" "pos < lp_cur (lp_sum (map W base))"
  shows "\<exists>x E r. descend (ct_nodes t) (length S) (ct_root t) 0 pos = Some (x, E, r) \<and> located W base pos x E r"
  using assms
proof (induction S arbitrary: k X base W)
  case Nil
  then have "located W base pos (ct_root t) 0 pos" unfolding located_def by (intro exI[of _ "[]"]) simp
  then show ?case by simp
next
  case (Cons L S)
  have lo: "level_ok t k X base W L" and up: "up_ok t (Suc k) {} L (node_width t) S" using Cons.prems(1) by (simp_all only: up_ok_Cons)
  have "pos < lp_cur (lp_sum (map (node_width t) L))" using Cons.prems(2) level_sum[OF lo] by simp
  then obtain n E r where n: "descend (ct_nodes t) (length S) (ct_root t) 0 pos = Some (n, E, r)" "located (node_width t) L pos n E r"
    using Cons.IH[OF up] by blast
  have nL: "n \<in> set L" "r < lp_cur (node_width t n)" using n(2) by (auto simp: located_def)
  have ok: "node_ok t n" "widths t n = map W (kids t n)" using lo nL(1) by (simp_all add: level_ok_def)
  obtain x E' r' where f: "find_cur_pos_in_node (ct_nodes t ! n) r = Some (x, E', r')" "located W (kids t n) r x E' r'"
    using find_in_node[OF ok nL(2)] by blast
  have "get_at (ct_nodes t) n = Some (ct_nodes t ! n)" using ok(1) by (simp add: get_at_def node_ok_def)
  then have "descend (ct_nodes t) (length (L # S)) (ct_root t) 0 pos = Some (x, E + E', r')"
    unfolding length_Cons descend_last n(1) by (simp add: f(1))
  then show ?case using located_concat[OF n(2) f(2)] lo by (auto simp: level_ok_def)
qed


section \<open>Searching\<close>

definition settled :: "'v content_ops \<Rightarrow> ('v \<Rightarrow> 'i list) \<Rightarrow> ('v \<Rightarrow> bool) \<Rightarrow> 'v content_tree \<Rightarrow> 'i list \<Rightarrow> bool" where
  "settled C items valid t is \<longleftrightarrow>
     (\<exists>Ls S. tree_ok C t Ls S (leaf_width C t) \<and> (\<forall>v \<in> set (ct_items C t Ls). valid v) \<and> is = flat_runs items (ct_items C t Ls))"

text \<open>The cursor stands in front of an item that is there now.\<close>

definition before_current :: "'v content_ops \<Rightarrow> 'v content_tree \<Rightarrow> content_cursor \<Rightarrow> bool" where
  "before_current C t c \<longleftrightarrow> cc_elem c < length (leaf_items C t (cc_leaf c)) \<and>
     cc_offset c < c_len C (leaf_items C t (cc_leaf c) ! cc_elem c) \<and> c_takes_cur C (leaf_items C t (cc_leaf c) ! cc_elem c)"

lemma cut_append:
  "j < length xs \<Longrightarrow> cut_before items xs j off @ cut_after items xs j off = flat_runs items xs"
  using id_take_nth_drop[of j xs] by (simp add: cut_before_def cut_after_def) (metis append.assoc append_take_drop_id flat_items_simps(2,3))

lemma cut_all: "cursor_in C xs e off \<Longrightarrow> cut_before items xs e off @ cut_after items xs e off = flat_runs items xs"
  using cut_append[of e xs items off] by (cases "e < length xs") (auto simp: cursor_in_def cut_before_def cut_after_def)

context content_laws
begin

lemma find_items:
  assumes "\<forall>v \<in> set xs. valid v" "pos < lp_cur (items_width C xs)"
  shows "\<exists>j off E. find_pos_items C (xs @ rest) i pos e = Some (i + j, e + E, off) \<and> j < length xs \<and> off < c_len C (xs ! j) \<and>
    c_takes_cur C (xs ! j) \<and> seq_len item_len (cut_before items xs j off) = \<lparr>lp_cur = pos, lp_end = E\<rparr>"
  using assms
proof (induction xs arbitrary: i pos e)
  case (Cons v xs)
  have v: "valid v" using Cons.prems(1) by simp
  show ?case
  proof (cases "pos < lp_cur (content_len_pair C v)")
    case True
    then have t: "c_takes_cur C v" "pos < c_len C v"
      by (simp_all add: content_len_pair_def content_len_cur_def split: if_splits)
    have "seq_len item_len (take pos (items v)) = \<lparr>lp_cur = pos, lp_end = (if c_takes_end C v then pos else 0)\<rparr>"
      using part_len[OF v, of "take pos (items v)"] t length_items[OF v] set_take_subset[of pos "items v"] by simp
    then show ?thesis using True t
      by (intro exI[of _ 0] exI[of _ pos] exI[of _ "if c_takes_end C v then pos else 0"]) (simp add: cut_before_def)
  next
    case False
    have "pos - lp_cur (content_len_pair C v) < lp_cur (items_width C xs)"
      using Cons.prems(2) False by (simp add: less_diff_conv2 not_less)
    then obtain j off E where ih: "find_pos_items C (xs @ rest) (i + 1) (pos - lp_cur (content_len_pair C v)) (e + lp_end (content_len_pair C v))
          = Some (i + 1 + j, e + lp_end (content_len_pair C v) + E, off)" "j < length xs" "off < c_len C (xs ! j)" "c_takes_cur C (xs ! j)"
        "seq_len item_len (cut_before items xs j off) = \<lparr>lp_cur = pos - lp_cur (content_len_pair C v), lp_end = E\<rparr>"
      using Cons.IH[of "pos - lp_cur (content_len_pair C v)" "i + 1" "e + lp_end (content_len_pair C v)"] Cons.prems(1) by auto
    have "cut_before items (v # xs) (Suc j) off = items v @ cut_before items xs j off" by (simp add: cut_before_def)
    then have "seq_len item_len (cut_before items (v # xs) (Suc j) off) = \<lparr>lp_cur = pos, lp_end = lp_end (content_len_pair C v) + E\<rparr>"
      using ih(5) False width[OF v] by (intro lp_eqI) (simp_all add: seq_len_def)
    then show ?thesis using ih False
      by (intro exI[of _ "Suc j"] exI[of _ off] exI[of _ "lp_end (content_len_pair C v) + E"]) (simp add: Let_def add.assoc)
  qed
qed simp

lemma find_from_root_ok:
  assumes st: "settled C items valid t is" and pos: "pos < lp_cur (seq_len item_len is)"
  shows "\<exists>E c bef aft. find_from_root C t pos = Some (t, E, (c, lu_zero)) \<and> cursor_ok C items valid t (c, lu_zero) bef aft \<and>
    is = bef @ aft \<and> seq_len item_len bef = \<lparr>lp_cur = pos, lp_end = E\<rparr> \<and> before_current C t c"
proof -
  obtain Ls S where ok: "tree_ok C t Ls S (leaf_width C t)" and val: "\<forall>v \<in> set (ct_items C t Ls). valid v"
    and isF: "is = flat_runs items (ct_items C t Ls)" using st unfolding settled_def by blast
  have up: "up_ok t 0 {} Ls (leaf_width C t) S" using ok by (simp add: tree_ok_def)
  have sum: "lp_sum (map (leaf_width C t) xs) = seq_len item_len (flat_runs items (ct_items C t xs))" if "set xs \<subseteq> set Ls" for xs
    using that
  proof (induction xs)
    case (Cons x xs)
    have "\<forall>v \<in> set (leaf_items C t x). valid v" using Cons.prems val by (auto simp: ct_items_def)
    then show ?case using Cons items_width_seq[of "leaf_items C t x"] by (simp add: leaf_width_def)
  qed simp
  have "pos < lp_cur (lp_sum (map (leaf_width C t) Ls))" using pos sum[of Ls] isF by simp
  then obtain x E r where d: "descend (ct_nodes t) (length S) (ct_root t) 0 pos = Some (x, E, r)" "located (leaf_width C t) Ls pos x E r"
    using descend_ok[OF up] by blast
  obtain A B where AB: "Ls = A @ x # B" "pos = lp_cur (lp_sum (map (leaf_width C t) A)) + r" "r < lp_cur (leaf_width C t x)"
      "E = lp_end (lp_sum (map (leaf_width C t) A))"
    using d(2) unfolding located_def by blast
  have lf: "leaf_ok C t x" using ok AB(1) by (simp add: tree_ok_def)
  then obtain rest where r: "cl_children (ct_leaves t ! x) = leaf_items C t x @ rest" and xl: "x < length (ct_leaves t)"
    using leafE[OF lf] unfolding leaf_ok_def by metis
  have vx: "\<forall>v \<in> set (leaf_items C t x). valid v" using val AB(1) by simp
  obtain j off E' where f: "find_pos_items C (leaf_items C t x @ rest) 0 r 0 = Some (j, E', off)" "j < length (leaf_items C t x)"
      "off < c_len C (leaf_items C t x ! j)" "c_takes_cur C (leaf_items C t x ! j)"
      "seq_len item_len (cut_before items (leaf_items C t x) j off) = \<lparr>lp_cur = r, lp_end = E'\<rparr>"
    using find_items[OF vx AB(3)[unfolded leaf_width_def], of rest 0 0] by auto
  let ?c = "\<lparr>cc_leaf = x, cc_elem = j, cc_offset = off\<rparr>"
  let ?bef = "flat_runs items (ct_items C t A) @ cut_before items (leaf_items C t x) j off"
    and ?aft = "cut_after items (leaf_items C t x) j off @ flat_runs items (ct_items C t B)"
  have "find_from_root C t pos = Some (t, E + E', (?c, lu_zero))"
    using d(1) f(1) xl up_ok_height[OF up] by (simp add: find_from_root_def ct_leaf_def get_at_def find_cur_pos_in_leaf_def r)
  moreover have "cursor_ok C items valid t (?c, lu_zero) ?bef ?aft"
  proof (rule cursor_okI)
    show "runs_ok C valid t (A @ x # B) S (leaf_width C t) x lu_zero" using ok val AB(1) by (simp add: runs_ok_def pend_def)
  qed (use f(2,3) in \<open>simp_all add: cursor_in_def\<close>)
  moreover have "is = ?bef @ ?aft" using cut_append[OF f(2), of items off] by (simp add: isF AB(1))
  moreover have "seq_len item_len ?bef = \<lparr>lp_cur = pos, lp_end = E + E'\<rparr>"
  proof -
    have "lp_sum (map (leaf_width C t) A) = seq_len item_len (flat_runs items (ct_items C t A))" by (rule sum) (auto simp: AB(1))
    then show ?thesis using AB f(5) by (intro lp_eqI) simp_all
  qed
  moreover have "before_current C t ?c" using f(2-4) by (simp add: before_current_def)
  ultimately show ?thesis by blast
qed

text \<open>The walk to the next current item.\<close>

lemma next_leaf:
  assumes ok: "runs_ok C valid t (A @ x # y # B) S W x d" and fit: "lp_fits (seq_len item_len (flat_runs items (ct_items C t (A @ x # y # B))))"
  shows "\<exists>t'. flush_delta_and_clear t x d = Some (t', lu_zero) \<and> cl_next (ct_leaves t ! x) = y \<and> idx_exists y \<and>
    ct_leaves t' = ct_leaves t \<and> ct_cursor t' = ct_cursor t \<and> leaf_items C t y \<noteq> [] \<and>
    runs_ok C valid t' ((A @ [x]) @ y # B) S (leaf_width C t') y lu_zero \<and> (\<forall>ls. ct_items C t' ls = ct_items C t ls)"
proof -
  have tk: "tree_ok C t (A @ x # y # B) S W" and pd: "pend C t (A @ x # y # B) W x d"
    and val: "\<forall>v \<in> set (ct_items C t (A @ x # y # B)). valid v"
    using ok by (simp_all add: runs_ok_def)
  have "lp_fits (items_width C (ct_items C t (A @ x # y # B)))" using fit items_width_seq[OF val] by simp
  then obtain t' where t': "flush_delta_and_clear t x d = Some (t', lu_zero)" "tree_ok C t' (A @ x # y # B) S (leaf_width C t')"
      "ct_leaves t' = ct_leaves t" "ct_cursor t' = ct_cursor t"
    using flush_ok[OF tk pd] by blast
  have it: "ct_items C t' ls = ct_items C t ls" for ls
    by (induction ls) (simp_all add: leaf_items_def t'(3))
  have ch: "chain t (A @ x # y # B)" using tk by (simp add: tree_ok_def)
  have nx: "cl_next (ct_leaves t ! x) = y" using ch
  proof (induction A)
    case (Cons a A)
    then show ?case by (cases A) simp_all
  qed simp
  have "levels_ok t 0 (A @ x # y # B) S" using tk by (simp add: tree_ok_def)
  from levels_okD(4)[OF this, of y] have ye: "idx_exists y" by (simp add: idx_exists_def)
  have "leaf_items C t y \<noteq> [] \<or> A @ x # y # B = [y]" using tk by (simp add: tree_ok_def)
  then have ne: "leaf_items C t y \<noteq> []" by (cases A) simp_all
  have "\<forall>v \<in> set (ct_items C t' ((A @ [x]) @ y # B)). valid v" unfolding it using val by simp
  then have "runs_ok C valid t' ((A @ [x]) @ y # B) S (leaf_width C t') y lu_zero"
    using t'(2) unfolding runs_ok_def by (simp add: pend_def)
  then show ?thesis using t'(1,3,4) nx ye ne it by blast
qed

lemma slide_at:
  assumes ok: "runs_ok C valid t (A @ x # B) S W x d"
  shows "e < length (leaf_items C t x) \<Longrightarrow>
      slide_loop C t \<lparr>cc_leaf = x, cc_elem = e, cc_offset = 0\<rparr> d acc =
        (if c_takes_cur C (leaf_items C t x ! e) then Some (t, \<lparr>cc_leaf = x, cc_elem = e, cc_offset = 0\<rparr>, d, acc)
         else slide_loop C t \<lparr>cc_leaf = x, cc_elem = e + 1, cc_offset = 0\<rparr> d (acc + content_len_end C (leaf_items C t x ! e)))"
    and "e = length (leaf_items C t x) \<Longrightarrow> idx_exists y \<Longrightarrow> cl_next (ct_leaves t ! x) = y \<Longrightarrow> flush_delta_and_clear t x d = Some (t', lu_zero) \<Longrightarrow>
      ct_leaves t' = ct_leaves t \<Longrightarrow> leaf_items C t y \<noteq> [] \<Longrightarrow> y < length (ct_leaves t) \<Longrightarrow>
      slide_loop C t \<lparr>cc_leaf = x, cc_elem = e, cc_offset = 0\<rparr> d acc = slide_loop C t' \<lparr>cc_leaf = y, cc_elem = 0, cc_offset = 0\<rparr> lu_zero acc"
proof -
  have lf: "leaf_ok C t x" and xl: "x < length (ct_leaves t)" using ok by (simp_all add: runs_ok_def tree_ok_def leaf_ok_def)
  obtain rest where r: "cl_children (ct_leaves t ! x) = leaf_items C t x @ rest" "\<forall>v \<in> set (leaf_items C t x). c_exists C v"
      "\<forall>v \<in> set rest. \<not> c_exists C v" using leafE[OF lf] by metis
  {
    assume e: "e < length (leaf_items C t x)"
    then have "c_exists C (leaf_items C t x ! e)" using r(2) nth_mem by blast
    then show "slide_loop C t \<lparr>cc_leaf = x, cc_elem = e, cc_offset = 0\<rparr> d acc =
        (if c_takes_cur C (leaf_items C t x ! e) then Some (t, \<lparr>cc_leaf = x, cc_elem = e, cc_offset = 0\<rparr>, d, acc)
         else slide_loop C t \<lparr>cc_leaf = x, cc_elem = e + 1, cc_offset = 0\<rparr> d (acc + content_len_end C (leaf_items C t x ! e)))"
      using e xl by (subst slide_loop.simps) (simp add: ct_leaf_def get_at_def r(1) nth_append)
  next
    assume a: "e = length (leaf_items C t x)" "idx_exists y" "cl_next (ct_leaves t ! x) = y" "flush_delta_and_clear t x d = Some (t', lu_zero)"
      "ct_leaves t' = ct_leaves t" "leaf_items C t y \<noteq> []" "y < length (ct_leaves t)"
    have end': "e \<ge> length (cl_children (ct_leaves t ! x)) \<or> \<not> c_exists C (cl_children (ct_leaves t ! x) ! e)"
    proof (cases rest)
      case (Cons v vs)
      then show ?thesis using r(3) by (simp add: r(1) a(1))
    qed (simp add: r(1) a(1))
    have "cl_children (ct_leaves t ! y) \<noteq> [] \<and> c_exists C (cl_children (ct_leaves t ! y) ! 0)"
      using a(6) unfolding leaf_items_def by (cases "cl_children (ct_leaves t ! y)") (auto split: if_splits)
    then show "slide_loop C t \<lparr>cc_leaf = x, cc_elem = e, cc_offset = 0\<rparr> d acc = slide_loop C t' \<lparr>cc_leaf = y, cc_elem = 0, cc_offset = 0\<rparr> lu_zero acc"
      using end' xl a by (subst slide_loop.simps, subst (2) slide_loop.simps) (simp add: ct_leaf_def get_at_def)
  }
qed

lemma slide_loop_ok:
  assumes "runs_ok C valid t (A @ x # B) S W x d" "e \<le> length (leaf_items C t x)"
    and "aft = flat_runs items (drop e (leaf_items C t x) @ ct_items C t B)" "bef = flat_runs items (ct_items C t A @ take e (leaf_items C t x))"
    and "0 < lp_cur (seq_len item_len aft)" "lp_fits (seq_len item_len (flat_runs items (ct_items C t (A @ x # B))))"
  shows "\<exists>t' c d' len skip aft'. slide_loop C t \<lparr>cc_leaf = x, cc_elem = e, cc_offset = 0\<rparr> d acc = Some (t', c, d', acc + len) \<and>
    cursor_ok C items valid t' (c, d') (bef @ skip) aft' \<and> aft = skip @ aft' \<and> seq_len item_len skip = \<lparr>lp_cur = 0, lp_end = len\<rparr> \<and>
    before_current C t' c \<and> ct_cursor t' = ct_cursor t"
  using assms
proof (induction "length (drop e (leaf_items C t x) @ ct_items C t B) + length B" arbitrary: t A x B W d e acc bef aft rule: less_induct)
  case less
  note ok = less.prems(1)
  let ?xs = "leaf_items C t x"
  have val: "\<forall>v \<in> set (ct_items C t (A @ x # B)). valid v" using ok by (simp add: runs_ok_def)
  show ?case
  proof (cases "e < length ?xs")
    case True
    let ?v = "?xs ! e"
    have v: "valid ?v" using val nth_mem[OF True] by (simp add: ball_Un)
    have dr: "drop e ?xs = ?v # drop (Suc e) ?xs" by (rule Cons_nth_drop_Suc[symmetric, OF True])
    show ?thesis
    proof (cases "c_takes_cur C ?v")
      case cur: True
      have "cursor_ok C items valid t (\<lparr>cc_leaf = x, cc_elem = e, cc_offset = 0\<rparr>, d) bef aft"
        using cut_zero[of e ?xs] True less.prems(3,4) by (intro cursor_okI[OF ok]) (simp_all add: cursor_in_def)
      then show ?thesis using slide_at(1)[OF ok True] cur True valid_len[OF v]
        by (intro exI[of _ t] exI[of _ "\<lparr>cc_leaf = x, cc_elem = e, cc_offset = 0\<rparr>"] exI[of _ d] exI[of _ 0] exI[of _ "[]"] exI[of _ aft])
          (simp add: before_current_def lp_zero_def)
    next
      case cur: False
      have len: "seq_len item_len (items ?v) = \<lparr>lp_cur = 0, lp_end = content_len_end C ?v\<rparr>"
        using part_len[OF v, of "items ?v"] cur length_items[OF v] by (simp add: content_len_end_def)
      have aft: "aft = items ?v @ flat_runs items (drop (Suc e) ?xs @ ct_items C t B)" by (simp add: less.prems(3) dr)
      have "0 < lp_cur (seq_len item_len (flat_runs items (drop (Suc e) ?xs @ ct_items C t B)))"
        using less.prems(5) unfolding aft by (simp add: len)
      then obtain t' c d' len' skip aft' where ih: "slide_loop C t \<lparr>cc_leaf = x, cc_elem = Suc e, cc_offset = 0\<rparr> d (acc + content_len_end C ?v) =
            Some (t', c, d', acc + content_len_end C ?v + len')"
          "cursor_ok C items valid t' (c, d') (flat_runs items (ct_items C t A @ take (Suc e) ?xs) @ skip) aft'"
          "flat_runs items (drop (Suc e) ?xs @ ct_items C t B) = skip @ aft'" "seq_len item_len skip = \<lparr>lp_cur = 0, lp_end = len'\<rparr>"
          "before_current C t' c" "ct_cursor t' = ct_cursor t"
        using less.hyps[OF _ ok _ refl refl _ less.prems(6), of "Suc e" "acc + content_len_end C ?v"] True by (auto simp: dr)
      have b: "bef @ items ?v @ skip = flat_runs items (ct_items C t A @ take (Suc e) ?xs) @ skip"
        using True by (simp add: less.prems(4) take_Suc_conv_app_nth)
      have "slide_loop C t \<lparr>cc_leaf = x, cc_elem = e, cc_offset = 0\<rparr> d acc = Some (t', c, d', acc + (content_len_end C ?v + len'))"
        using slide_at(1)[OF ok True, of acc] cur ih(1) by (simp add: add.assoc)
      moreover have "cursor_ok C items valid t' (c, d') (bef @ items ?v @ skip) aft'" using ih(2) by (simp only: b)
      moreover have "aft = (items ?v @ skip) @ aft'" using aft ih(3) by simp
      moreover have "seq_len item_len (items ?v @ skip) = \<lparr>lp_cur = 0, lp_end = content_len_end C ?v + len'\<rparr>"
        using len ih(4) by (simp add: lp_add_def)
      ultimately show ?thesis using ih(5,6) by blast
    qed
  next
    case False
    then have e: "e = length ?xs" using less.prems(2) by simp
    obtain y B' where B: "B = y # B'" using less.prems(3,5) e by (cases B) simp_all
    obtain t1 where t1: "flush_delta_and_clear t x d = Some (t1, lu_zero)" "cl_next (ct_leaves t ! x) = y" "idx_exists y"
        "ct_leaves t1 = ct_leaves t" "ct_cursor t1 = ct_cursor t" "leaf_items C t y \<noteq> []"
        "runs_ok C valid t1 ((A @ [x]) @ y # B') S (leaf_width C t1) y lu_zero" "\<forall>ls. ct_items C t1 ls = ct_items C t ls"
      using next_leaf[OF ok[unfolded B] less.prems(6)[unfolded B]] by blast
    have yl: "y < length (ct_leaves t)" using t1(7) t1(4) by (simp add: runs_ok_def tree_ok_def leaf_ok_def)
    have it: "leaf_items C t1 y = leaf_items C t y" by (simp add: leaf_items_def t1(4))
    have run: "slide_loop C t \<lparr>cc_leaf = x, cc_elem = e, cc_offset = 0\<rparr> d acc = slide_loop C t1 \<lparr>cc_leaf = y, cc_elem = 0, cc_offset = 0\<rparr> lu_zero acc"
      by (rule slide_at(2)[OF ok e t1(3,2,1,4,6) yl])
    have "aft = flat_runs items (drop 0 (leaf_items C t1 y) @ ct_items C t1 B')" using less.prems(3) e t1(8) it by (simp add: B)
    moreover have "bef = flat_runs items (ct_items C t1 (A @ [x]) @ take 0 (leaf_items C t1 y))"
      using less.prems(4) e t1(8) by (simp add: leaf_items_def t1(4))
    moreover have "lp_fits (seq_len item_len (flat_runs items (ct_items C t1 ((A @ [x]) @ y # B'))))"
      using less.prems(6) t1(8)[rule_format, of "(A @ [x]) @ y # B'"] unfolding B append.assoc append_Cons append_Nil by simp
    moreover have "length (drop 0 (leaf_items C t1 y) @ ct_items C t1 B') + length B' < length (drop e ?xs @ ct_items C t B) + length B"
      using e t1(8) it by (simp add: B)
    ultimately show ?thesis using less.hyps[OF _ t1(7), of 0 aft bef acc] less.prems(5) run t1(5) by auto
  qed
qed

lemma slide_ok:
  assumes cur: "cursor_ok C items valid t (c, d) bef aft" and aft: "0 < lp_cur (seq_len item_len aft)"
    and fit: "lp_fits (seq_len item_len (bef @ aft))"
  shows "\<exists>t' c' d' len skip aft'. slide_cursor_to_next_content C t c d = Some (t', c', d', len) \<and>
    cursor_ok C items valid t' (c', d') (bef @ skip) aft' \<and> aft = skip @ aft' \<and> seq_len item_len skip = \<lparr>lp_cur = 0, lp_end = len\<rparr> \<and>
    before_current C t' c' \<and> ct_cursor t' = ct_cursor t"
proof -
  let ?x = "cc_leaf c" and ?e = "cc_elem c" and ?off = "cc_offset c"
  let ?xs = "leaf_items C t ?x"
  obtain A B S W where ok: "runs_ok C valid t (A @ ?x # B) S W ?x d" and ci: "cursor_in C ?xs ?e ?off"
    and b: "bef = flat_runs items (ct_items C t A) @ cut_before items ?xs ?e ?off"
    and a: "aft = cut_after items ?xs ?e ?off @ flat_runs items (ct_items C t B)"
    using cur unfolding cursor_ok_def Let_def fst_conv snd_conv by blast
  have tk: "tree_ok C t (A @ ?x # B) S W" and val: "\<forall>v \<in> set (ct_items C t (A @ ?x # B)). valid v" using ok by (simp_all add: runs_ok_def)
  have e: "?e < length ?xs"
  proof (rule ccontr)
    assume n: "\<not> ?e < length ?xs"
    then have "?xs = []" using ci by (simp add: cursor_in_def)
    moreover from this have "A @ ?x # B = [?x]" using tk by (auto simp: tree_ok_def)
    ultimately show False using a aft by (cases A) (simp_all add: cut_after_def)
  qed
  let ?v = "?xs ! ?e"
  have v: "valid ?v" using val nth_mem[OF e] by (simp add: ball_Un)
  have off: "?off \<le> c_len C ?v" using ci e by (simp add: cursor_in_def)
  have lf: "leaf_ok C t ?x" and xl: "?x < length (ct_leaves t)" using tk by (simp_all add: tree_ok_def leaf_ok_def)
  obtain rest where r: "cl_children (ct_leaves t ! ?x) = ?xs @ rest" using leafE[OF lf] by metis
  have at: "ct_leaf t ?x = Some (ct_leaves t ! ?x)" "get_at (cl_children (ct_leaves t ! ?x)) ?e = Some ?v"
    using xl e by (simp_all add: ct_leaf_def get_at_def r nth_append)
  show ?thesis
  proof (cases "c_takes_cur C ?v \<and> ?off < c_len C ?v")
    case True
    then have "slide_cursor_to_next_content C t c d = Some (t, c, d, 0)"
      by (simp add: slide_cursor_to_next_content_def at valid_exists[OF v])
    moreover have "before_current C t c" using True e by (simp add: before_current_def)
    ultimately show ?thesis using cur
      by (intro exI[of _ t] exI[of _ c] exI[of _ d] exI[of _ 0] exI[of _ "[]"] exI[of _ aft]) (simp add: lp_zero_def)
  next
    case False
    let ?skip = "drop ?off (items ?v)" and ?n = "if c_takes_end C ?v then c_len C ?v - ?off else 0"
    have len: "seq_len item_len ?skip = \<lparr>lp_cur = 0, lp_end = ?n\<rparr>"
      using part_len[OF v, of ?skip] False off length_items[OF v] set_drop_subset[of ?off "items ?v"] by auto
    have aft: "aft = ?skip @ flat_runs items (drop (Suc ?e) ?xs @ ct_items C t B)" using e by (simp add: a cut_after_def)
    have bef: "bef @ ?skip = flat_runs items (ct_items C t A @ take (Suc ?e) ?xs)"
      using e by (simp add: b cut_before_def take_Suc_conv_app_nth)
    have pos: "0 < lp_cur (seq_len item_len (flat_runs items (drop (Suc ?e) ?xs @ ct_items C t B)))"
      using assms(2) len unfolding aft by simp
    have "flat_runs items (ct_items C t (A @ ?x # B)) = bef @ aft" using cut_all[OF ci, of items] by (simp add: b a)
    then have fit': "lp_fits (seq_len item_len (flat_runs items (ct_items C t (A @ ?x # B))))" using fit by (simp only:)
    obtain t' c' d' len' skip aft' where l: "slide_loop C t \<lparr>cc_leaf = ?x, cc_elem = Suc ?e, cc_offset = 0\<rparr> d ?n = Some (t', c', d', ?n + len')"
        "cursor_ok C items valid t' (c', d') (flat_runs items (ct_items C t A @ take (Suc ?e) ?xs) @ skip) aft'"
        "flat_runs items (drop (Suc ?e) ?xs @ ct_items C t B) = skip @ aft'" "seq_len item_len skip = \<lparr>lp_cur = 0, lp_end = len'\<rparr>"
        "before_current C t' c'" "ct_cursor t' = ct_cursor t"
      using slide_loop_ok[OF ok _ refl refl pos fit', of ?n] e by auto
    have ceq: "c\<lparr>cc_elem := ?e + 1, cc_offset := 0\<rparr> = \<lparr>cc_leaf = ?x, cc_elem = Suc ?e, cc_offset = 0\<rparr>" by simp
    have "slide_cursor_to_next_content C t c d = slide_loop C t (c\<lparr>cc_elem := ?e + 1, cc_offset := 0\<rparr>) d ?n"
      unfolding slide_cursor_to_next_content_def at Option.bind.simps by (simp only: valid_exists[OF v] simp_thms if_not_P[OF False])
    then have "slide_cursor_to_next_content C t c d = Some (t', c', d', ?n + len')" using l(1) unfolding ceq by (rule trans)
    moreover have "cursor_ok C items valid t' (c', d') (bef @ ?skip @ skip) aft'"
      using l(2) unfolding bef[symmetric] by simp
    moreover have "aft = (?skip @ skip) @ aft'" unfolding aft l(3) by simp
    moreover have "seq_len item_len (?skip @ skip) = \<lparr>lp_cur = 0, lp_end = ?n + len'\<rparr>"
      using len l(4) by (simp add: lp_add_def)
    ultimately show ?thesis using l(5,6) by blast
  qed
qed

end

section \<open>With the cached cursor\<close>

definition content_state :: "'v content_ops \<Rightarrow> ('v \<Rightarrow> 'i list) \<Rightarrow> ('v \<Rightarrow> bool) \<Rightarrow> ('i \<Rightarrow> len_pair) \<Rightarrow> 'v content_tree \<Rightarrow> 'i list \<Rightarrow> bool" where
  "content_state C items valid f t is \<longleftrightarrow>
     (case ct_cursor t of
        None \<Rightarrow> settled C items valid t is
      | Some (p, dc) \<Rightarrow> \<exists>bef aft. cursor_ok C items valid t dc bef aft \<and> is = bef @ aft \<and> (p = None \<or> p = Some (seq_len f bef)))"

lemma tree_ok_cursor: "tree_ok C t Ls S W \<Longrightarrow> tree_ok C (t\<lparr>ct_cursor := z\<rparr>) Ls S W"
  by (rule tree_ok_cong) (auto simp: tree_ok_def leaf_ok_def leaf_items_def)

lemma cursor_fields [simp]:
  "leaf_items C (t\<lparr>ct_cursor := z\<rparr>) = leaf_items C t" "ct_items C (t\<lparr>ct_cursor := z\<rparr>) = ct_items C t"
  "leaf_width C (t\<lparr>ct_cursor := z\<rparr>) = leaf_width C t" "before_current C (t\<lparr>ct_cursor := z\<rparr>) = before_current C t"
  "tree_room (t\<lparr>ct_cursor := z\<rparr>) = tree_room t"
  by (auto simp: leaf_items_def leaf_width_def ct_items_def before_current_def tree_room_def fun_eq_iff cong: map_cong)

lemma cursor_ok_cursor: "cursor_ok C items valid t dc bef aft \<Longrightarrow> cursor_ok C items valid (t\<lparr>ct_cursor := z\<rparr>) dc bef aft"
  unfolding cursor_ok_def Let_def runs_ok_def pend_def cursor_fields using tree_ok_cursor by blast

lemma settled_cursor: "settled C items valid t is \<Longrightarrow> settled C items valid (t\<lparr>ct_cursor := z\<rparr>) is"
  unfolding settled_def cursor_fields using tree_ok_cursor by blast

context content_laws
begin

lemma dc_flush_ok:
  assumes "cursor_ok C items valid t dc bef aft" "lp_fits (seq_len item_len (bef @ aft))"
  shows "\<exists>t'. dc_flush dc t = Some t' \<and> settled C items valid t' (bef @ aft) \<and> ct_cursor t' = ct_cursor t"
proof -
  let ?x = "cc_leaf (fst dc)"
  obtain A B S W where ok: "runs_ok C valid t (A @ ?x # B) S W ?x (snd dc)"
    and ci: "cursor_in C (leaf_items C t ?x) (cc_elem (fst dc)) (cc_offset (fst dc))"
    and b: "bef = flat_runs items (ct_items C t A) @ cut_before items (leaf_items C t ?x) (cc_elem (fst dc)) (cc_offset (fst dc))"
    and a: "aft = cut_after items (leaf_items C t ?x) (cc_elem (fst dc)) (cc_offset (fst dc)) @ flat_runs items (ct_items C t B)"
    using assms(1) unfolding cursor_ok_def Let_def by blast
  have tk: "tree_ok C t (A @ ?x # B) S W" and pd: "pend C t (A @ ?x # B) W ?x (snd dc)"
    and val: "\<forall>v \<in> set (ct_items C t (A @ ?x # B)). valid v" using ok by (simp_all add: runs_ok_def)
  have all: "flat_runs items (ct_items C t (A @ ?x # B)) = bef @ aft"
    using cut_all[OF ci, of items] by (simp add: a b)
  have "lp_fits (items_width C (ct_items C t (A @ ?x # B)))" using assms(2) unfolding items_width_seq[OF val] all .
  then obtain t' where t': "flush_delta_and_clear t ?x (snd dc) = Some (t', lu_zero)" "tree_ok C t' (A @ ?x # B) S (leaf_width C t')"
      "ct_leaves t' = ct_leaves t" "ct_cursor t' = ct_cursor t"
    using flush_ok[OF tk pd] by blast
  have it: "ct_items C t' ls = ct_items C t ls" for ls by (induction ls) (simp_all add: leaf_items_def t'(3))
  have "dc_flush dc t = Some t'" using t'(1) by (auto simp: dc_flush_def flush_delta_and_clear_def)
  moreover have "settled C items valid t' (bef @ aft)"
    unfolding settled_def using t'(2) val all it by (intro exI[of _ "A @ ?x # B"] exI[of _ S]) (simp only: it)
  ultimately show ?thesis using t'(4) by blast
qed

text \<open>A search by current position, whatever is cached.\<close>

theorem mut_cursor_before_cur_pos_ok:
  assumes st: "content_state C items valid item_len t is" and pos: "pos < lp_cur (seq_len item_len is)"
    and fit: "lp_fits (seq_len item_len is)"
  shows "\<exists>t' E dc bef aft. mut_cursor_before_cur_pos C t pos = Some (t', E, dc) \<and> cursor_ok C items valid t' dc bef aft \<and>
    is = bef @ aft \<and> seq_len item_len bef = \<lparr>lp_cur = pos, lp_end = E\<rparr> \<and> before_current C t' (fst dc) \<and> ct_cursor t' = None"
proof -
  have root: "\<exists>t' E dc bef aft. find_from_root C t2 pos = Some (t', E, dc) \<and> cursor_ok C items valid t' dc bef aft \<and>
      is = bef @ aft \<and> seq_len item_len bef = \<lparr>lp_cur = pos, lp_end = E\<rparr> \<and> before_current C t' (fst dc) \<and> ct_cursor t' = None"
    if "settled C items valid t2 is" "ct_cursor t2 = None" for t2
    using find_from_root_ok[OF that(1) pos] that(2) by fastforce
  show ?thesis
  proof (cases "ct_cursor t")
    case None
    then show ?thesis using root[of t] st by (simp add: content_state_def mut_cursor_before_cur_pos_def)
  next
    case (Some q)
    obtain p dc where q: "q = (p, dc)" by (cases q)
    obtain bef aft where c: "cursor_ok C items valid t dc bef aft" "is = bef @ aft" "p = None \<or> p = Some (seq_len item_len bef)"
      using st Some q by (auto simp: content_state_def)
    let ?t = "t\<lparr>ct_cursor := None\<rparr>"
    have c': "cursor_ok C items valid ?t dc bef aft" by (rule cursor_ok_cursor[OF c(1)])
    show ?thesis
    proof (cases "p \<noteq> None \<and> lp_cur (the p) = pos")
      case True
      then have p: "p = Some (seq_len item_len bef)" "lp_cur (seq_len item_len bef) = pos" using c(3) by auto
      have "0 < lp_cur (seq_len item_len aft)" using pos p(2) c(2) by simp
      then obtain t' c2 d2 len skip aft' where s: "slide_cursor_to_next_content C ?t (fst dc) (snd dc) = Some (t', c2, d2, len)"
          "cursor_ok C items valid t' (c2, d2) (bef @ skip) aft'" "aft = skip @ aft'" "seq_len item_len skip = \<lparr>lp_cur = 0, lp_end = len\<rparr>"
          "before_current C t' c2" "ct_cursor t' = ct_cursor ?t"
        using slide_ok[of ?t "fst dc" "snd dc" bef aft] c' fit c(2) by auto
      have "mut_cursor_before_cur_pos C t pos = Some (t', lp_end (seq_len item_len bef) + len, (c2, d2))"
        using Some q p s(1) by (simp add: mut_cursor_before_cur_pos_def Let_def)
      moreover have "is = (bef @ skip) @ aft'" using c(2) s(3) by simp
      moreover have "seq_len item_len (bef @ skip) = \<lparr>lp_cur = pos, lp_end = lp_end (seq_len item_len bef) + len\<rparr>"
        using s(4) p(2) by (simp add: lp_add_def)
      moreover have "ct_cursor t' = None" using s(6) by simp
      ultimately show ?thesis using s(2,5) by (metis fst_conv)
    next
      case False
      obtain t2 where t2: "dc_flush dc ?t = Some t2" "settled C items valid t2 (bef @ aft)" "ct_cursor t2 = ct_cursor ?t"
        using dc_flush_ok[OF c'] fit c(2) by auto
      have "mut_cursor_before_cur_pos C t pos = find_from_root C t2 pos"
        using Some q False t2(1) by (cases p) (auto simp: mut_cursor_before_cur_pos_def Let_def)
      then show ?thesis using root[of t2] t2(2,3) c(2) by simp
    qed
  qed
qed

text \<open>A cursor put back into the cache, at its position or at an unknown one.\<close>

lemma emplace_ok:
  assumes "cursor_ok C items valid t dc bef aft" "ct_cursor t = None"
  shows "\<exists>t'. emplace_cursor t (seq_len item_len bef) dc = Some t' \<and> content_state C items valid item_len t' (bef @ aft)"
    and "\<exists>t'. emplace_cursor_unknown t dc = Some t' \<and> content_state C items valid item_len t' (bef @ aft)"
  using assms cursor_ok_cursor[OF assms(1)]
  by (auto simp: emplace_cursor_def emplace_cursor_unknown_def content_state_def)

text \<open>A new tree, and one that holds a single run.\<close>

lemma one_leaf_ok:
  assumes "t = \<lparr>ct_leaves = [\<lparr>cl_children = xs @ replicate (LEAF_CHILDREN - length xs) (c_none C), cl_next = usize_max, cl_parent = usize_max\<rparr>],
      ct_nodes = [], ct_height = 0, ct_root = 0, ct_total = items_width C xs, ct_cursor = z\<rparr>"
    and "\<forall>v \<in> set xs. valid v" "length xs \<le> LEAF_CHILDREN"
  shows "settled C items valid t (flat_runs items xs)"
proof -
  have "leaf_ok C t 0 \<and> leaf_items C t 0 = xs"
    using leafI[of 0 t xs "replicate (LEAF_CHILDREN - length xs) (c_none C)" C] assms none valid_exists by simp
  then show ?thesis unfolding settled_def
    by (intro exI[of _ "[0]"] exI[of _ "[]"])
      (use assms in \<open>simp add: tree_ok_def levels_ok_def parent_of_def leaf_width_def usize_max_def\<close>)
qed

lemma ct_new_ok: "settled C items valid (ct_new C) []"
  using one_leaf_ok[of "ct_new C" "[]" None] by (simp add: ct_new_def initial_root_leaf_def lp_zero_def)

lemma settled_start:
  assumes "settled C items valid t is"
  shows "cursor_ok C items valid t (cursor_default, lu_zero) [] is"
proof -
  obtain Ls S where ok: "tree_ok C t Ls S (leaf_width C t)" and val: "\<forall>v \<in> set (ct_items C t Ls). valid v"
    and isF: "is = flat_runs items (ct_items C t Ls)" using assms unfolding settled_def by blast
  obtain B where Ls: "Ls = 0 # B" using ok by (cases Ls) (auto simp: tree_ok_def)
  have "runs_ok C valid t ([] @ 0 # B) S (leaf_width C t) 0 lu_zero" using ok val by (simp add: runs_ok_def pend_def Ls)
  from cursor_okI[OF this, of 0 0 "[]" items "is"] show ?thesis
    using cut_zero[of 0 "leaf_items C t 0"] unfolding cursor_default_def by (simp add: cursor_in_def isF Ls)
qed

lemma set_single_item_ok:
  assumes "valid v"
  shows "\<exists>t'. set_single_item_notify C (ct_new C) v = Some (t', [(v, 0)]) \<and> settled C items valid t' (items v) \<and> ct_cursor t' = None"
proof -
  let ?t = "\<lparr>ct_leaves = [\<lparr>cl_children = [v] @ replicate (LEAF_CHILDREN - 1) (c_none C), cl_next = usize_max, cl_parent = usize_max\<rparr>],
      ct_nodes = [], ct_height = 0, ct_root = 0, ct_total = content_len_pair C v, ct_cursor = None\<rparr>"
  have "set_single_item_notify C (ct_new C) v = Some (?t, [(v, 0)])"
    by (simp add: set_single_item_notify_def ct_new_def initial_root_leaf_def ct_leaf_def get_at_def set_at_def ct_set_leaf_def
        LEAF_CHILDREN_def numeral_eq_Suc)
  then show ?thesis using one_leaf_ok[of ?t "[v]" None] assms LEAF_SPLIT(5) by simp
qed

text \<open>The cursor at the start flushes what is cached.\<close>

lemma mut_cursor_at_start_ok:
  assumes "content_state C items valid item_len t is" "lp_fits (seq_len item_len is)"
  shows "\<exists>t' dc. mut_cursor_at_start t = Some (t', dc) \<and> cursor_ok C items valid t' dc [] is \<and> ct_cursor t' = None"
proof (cases "ct_cursor t")
  case None
  then show ?thesis using assms(1) settled_start[of t "is"]
    by (simp add: content_state_def mut_cursor_at_start_def cursor_at_start_def)
next
  case (Some q)
  obtain p dc where q: "q = (p, dc)" by (cases q)
  obtain bef aft where c: "cursor_ok C items valid t dc bef aft" "is = bef @ aft"
    using assms(1) Some q by (auto simp: content_state_def)
  obtain t2 where t2: "dc_flush dc (t\<lparr>ct_cursor := None\<rparr>) = Some t2" "settled C items valid t2 is" "ct_cursor t2 = None"
    using dc_flush_ok[OF cursor_ok_cursor[OF c(1), of None]] assms(2) c(2) by auto
  have "mut_cursor_at_start t = Some (t2, (cursor_default, lu_zero))"
    using Some q t2(1) by (cases dc) (simp add: mut_cursor_at_start_def cursor_at_start_def dc_flush_def)
  then show ?thesis using settled_start[OF t2(2)] t2(3) by blast
qed

end

text \<open>A run and a tree of one leaf, to evaluate on.\<close>

definition sample_span :: "nat \<Rightarrow> nat \<Rightarrow> crdt_span" where
  "sample_span a b = \<lparr>cs_id = \<lparr>dt_start = a, dt_end = b\<rparr>, cs_left = usize_max, cs_right = usize_max, cs_state = INSERTED, cs_deleted = False\<rparr>"

definition sample_tree :: "crdt_span \<Rightarrow> crdt_span content_tree" where
  "sample_tree v = fst (the (set_single_item_notify crdt_content (ct_new crdt_content) v))"

lemma sample_span_facts:
  "a < b \<Longrightarrow> cs_valid (sample_span a b)" "cs_len (sample_span a b) = b - a"
  "a < b \<Longrightarrow> seq_len crdt_item_len (cs_items (sample_span a b)) = \<lparr>lp_cur = b - a, lp_end = b - a\<rparr>"
  "lp_fits \<lparr>lp_cur = 3, lp_end = 3\<rparr>"
proof -
  assume "a < b"
  then have v: "cs_valid (sample_span a b)" by (simp add: cs_valid_def sample_span_def)
  then show "seq_len crdt_item_len (cs_items (sample_span a b)) = \<lparr>lp_cur = b - a, lp_end = b - a\<rparr>"
    using crdt.part_len[OF v order.refl] crdt_span.length_items[OF v]
    by (simp add: crdt_content_def cs_takes_cur_def cs_takes_end_def sample_span_def cs_len_def span_defs)
qed (simp_all add: cs_valid_def sample_span_def cs_len_def span_defs lp_fits_def usize_max_def)

lemma sample_tree_ok:
  assumes "cs_valid v"
  shows "content_state crdt_content cs_items cs_valid crdt_item_len (sample_tree v) (cs_items v)"
  using crdt.set_single_item_ok[OF assms] by (auto simp: sample_tree_def content_state_def)

end
