(* ===== verification/Spec2Isabelle.thy ===== *)
theory Spec2Isabelle
  imports RleZip RleIntersect RleTake RleVecFacts GraphQuery GraphDiffFacts GraphDom Frontier GraphBuild
    FrontierMoves GraphCheckFacts GraphProjectFacts VarintNarrow LebFacts BufParser SummaryFacts ListSample ContentSearch
begin

text \<open>
  \<^bold>\<open>Diamond types\<close>: a CRDT for text and small data, in Rust.  Every change has a \<^emph>\<open>local version\<close>, a
  number in the order in which this peer learned of it.  The \<^emph>\<open>causal graph\<close> says which version came
  after which (the time DAG) and which agent made it (the agent assignment); a \<^emph>\<open>frontier\<close> names a
  set of versions by its newest members; an \<^emph>\<open>oplog\<close> adds what each version did to the text.
  Everything is kept run-length encoded, so that most of the code cuts, joins and looks up runs.

  \<^bold>\<open>Conventions.\<close>  A struct is a record with one field each and a prefix that names it, an enum a datatype,
  \<open>usize\<close> a natural number (a 64 bit word in the codecs, where the width matters), a list or
  \<open>SmallVec\<close> a list.  A method that mutates \<open>self\<close> returns the new value.  A panic (an out-of-range index,
  \<open>unwrap\<close>, \<open>assert!\<close>) is \<open>None\<close>; \<open>Err\<close> is \<open>Inl\<close> of the error and \<open>Ok\<close> is \<open>Inr\<close>; \<open>debug_assert!\<close>, which
  release builds drop, is left out, and what it demands is a hypothesis of the theorems.  Trait methods are
  function arguments, their documented laws the assumptions of locales, which are interpreted
  for every implementing type.  A priority queue is its descending list.

  \<^bold>\<open>Theories.\<close>
  \<^item> \<open>Prelude\<close>: the machine size, Rust's \<open>Ordering\<close>, \<open>binary_search\<close> and \<open>BinaryHeap\<close> of the standard library.
  \<^item> \<open>Spans\<close>, \<open>RleIter\<close>, \<open>RleZip\<close>, \<open>RleIntersect\<close>, \<open>RleTake\<close>: the crate \<open>crates/rle\<close> with \<open>dtrange.rs\<close>.  The
    locales \<open>splitable_span\<close>, \<open>mergable_span\<close> and \<open>split_join_span\<close> state the span traits; the adaptors
    (append, merge, zip, intersect, take) are proved over them to compute what they say on the items; for
    ranges the intersection is the nested loop over both lists (\<open>range_meet\<close>).
  \<^item> \<open>RleVec\<close>, \<open>RleVecFacts\<close>: \<open>rle/mod.rs\<close> and \<open>rle/rle_vec.rs\<close>; search, insertion, removal and iteration
    against the set of keyed items a vector holds.
  \<^item> \<open>VersionDag\<close>: the specification of histories: versions, parents, \<open>hist\<close> and \<open>dominators\<close>.
  \<^item> \<open>Graph\<close>, \<open>GraphFacts\<close>, \<open>GraphBuild\<close>: \<open>graph/mod.rs\<close>, the entries and \<open>push\<close>; \<open>graph_wf\<close> is the
    invariant and \<open>vparents\<close> the abstraction to \<open>VersionDag\<close>.
  \<^item> \<open>GraphQuery\<close>, \<open>GraphDiff\<close>, \<open>GraphDiffFacts\<close>, \<open>GraphDom\<close>, \<open>GraphConflict\<close>, \<open>GraphConflictFacts\<close>:
    \<open>graph/tools.rs\<close>, each traversal with its loop, its measure and its specification over histories.
  \<^item> \<open>GraphExport\<close>, \<open>GraphExportFacts\<close>, \<open>GraphCheckFacts\<close>, \<open>GraphProject\<close>, \<open>GraphProjectFacts\<close>:
    \<open>graph/simple.rs\<close>, \<open>check.rs\<close>, \<open>scope.rs\<close> and \<open>subgraph.rs\<close>.
  \<^item> \<open>Frontier\<close>, \<open>FrontierMoves\<close>: \<open>frontier.rs\<close>, moving a frontier forwards and backwards.
  \<^item> \<open>AgentAssign\<close>, \<open>AgentFacts\<close>: \<open>agent_span.rs\<close> and \<open>agent_assignment/\<close>; \<open>assigned\<close> is the relation the
    two run-length maps stand for.
  \<^item> \<open>CausalState\<close>, \<open>CausalFacts\<close>, \<open>CausalRead\<close>: \<open>causalgraph.rs\<close>, \<open>entry.rs\<close>, \<open>mod.rs\<close>; \<open>cg_ok\<close> is the
    invariant every operation keeps and \<open>cg_extends\<close> says what adding versions does.
  \<^item> \<open>Summary\<close>, \<open>SummaryFacts\<close>: \<open>summary.rs\<close>, what two peers know of each other; \<open>known_named\<close> and
    \<open>run_ends\<close> bound what an intersection covers when agents write on several branches.
  \<^item> \<open>RangeRev\<close>, \<open>Unicount\<close>, \<open>TextOp\<close>, \<open>TextOpFacts\<close>: \<open>rev_range.rs\<close>, \<open>unicount.rs\<close>, \<open>list/operation.rs\<close>,
    \<open>list/op_metrics.rs\<close>.  An operation stands for a list of single character edits (\<open>to_edits\<close>);
    cutting and joining runs cut and join that list, in both representations.
  \<^item> \<open>OpLog\<close>, \<open>OpLogFacts\<close>, \<open>OpIter\<close>, \<open>OpIterFacts\<close>: \<open>list/oplog.rs\<close> and \<open>list/op_iter.rs\<close>; \<open>ol_edits\<close> is
    the abstraction of an oplog to one edit per version and \<open>oplog_ok\<close> its invariant; \<open>stored_edits\<close> says what is
    kept of remote operations that are known in part.
  \<^item> \<open>ListEdit\<close>, \<open>ListEditFacts\<close>, \<open>ListSample\<close>: \<open>list/branch.rs\<close> and \<open>list/list.rs\<close>; \<open>apply_edits\<close> is the
    specification of editing, and \<open>crdt_reach\<close> the states a \<open>ListCRDT\<close> gets into.
  \<^item> \<open>Varint\<close>, \<open>VarintFacts\<close>, \<open>VarintNarrow\<close>, \<open>Leb\<close>, \<open>LebFacts\<close>, \<open>BufParser\<close>: \<open>encoding/varint.rs\<close>,
    \<open>list/encoding/leb.rs\<close>, \<open>encoding/tools.rs\<close>, \<open>bufparser.rs\<close> and \<open>chunk_reader.rs\<close>.  A read past the end is
    \<open>None\<close>; \<open>chunk_at\<close>, \<open>chunk_skips\<close> and \<open>chunk_fails\<close> say what a reader of chunks finds.

  \<^item> \<open>OstBase\<close>, \<open>ContentTree\<close>, \<open>ContentFind\<close>: \<open>ost/mod.rs\<close> and \<open>ost/content_tree.rs\<close>, the B+ tree of runs the merge works
    on, with its arrays of leaves and nodes, its links as indices and its cached cursor with the widths still to be
    written back.  The callback that hears of moved runs is the list of its calls.
  \<^item> \<open>ContentShape\<close>, \<open>ContentSplit\<close>, \<open>ContentFlush\<close>, \<open>ContentLeaf\<close>, \<open>ContentSplice\<close>: the invariant \<open>tree_ok\<close> level by level
    and that splitting, flushing and splicing keep it.  \<open>ContentInsert\<close>, \<open>ContentSearch\<close>: \<open>cursor_ok\<close> and \<open>content_state\<close>
    relate the tree to a plain sequence cut in two by the cursor, and \<open>content_laws\<close> says what the runs must satisfy.
    \<open>tree_room\<close> and \<open>lp_fits\<close> say that indices and lengths stay below \<open>usize_max\<close>.
  \<^item> \<open>YjsSpan\<close>: \<open>listmerge/yjsspan.rs\<close>, the runs of inserted characters, for which \<open>content_laws\<close> is interpreted.

  \<^bold>\<open>Termination.\<close>  Loops over a queue of versions are \<open>function\<close>s with a measure where a version only
  enters the queue below the one that left it, or \<open>partial_function\<close>s, where \<open>None\<close> is also not
  returning; the theorems then prove \<open>Some\<close>.  No fuel is used.

  \<^bold>\<open>Parameters.\<close>  Code outside the repository is an argument: \<open>str_indices\<close> (character and byte offsets, with
  \<open>si_scan\<close> as an instance) and \<open>rope_ops\<close> (the rope of \<open>jumprope\<close>, with \<open>list_rope\<close> as an instance).

  \<^bold>\<open>Not modelled.\<close>  The merge engine (\<open>listmerge/\<close>) beyond its runs, its map from versions to leaves
  (\<open>ost/index_tree.rs\<close>), and with them checkout at an arbitrary version; the experimental engine in \<open>listmerge2/\<close>; the file format of oplogs; the
  storage layer, which is file I/O; serde forms, printing, fuzzers, benchmarks, bindings
  and the command line.  Of modelled files, tests and unused or formatting code are left out; the note of each
  component in the manifest names them.
\<close>

section \<open>The time DAG\<close>

text \<open>
  C1: \<open>Graph::diff\<close> of two frontiers returns exactly the versions only the first one contains and
  exactly those only the second one contains, each as ascending, disjoint, maximal runs; every
  fast path and the slow traversal give the same answer, and the traversal ends.
\<close>

theorem diff_correct:
  assumes "graph_wf g" "\<forall>v \<in> set a \<union> set b. in_graph g v"
  shows "\<exists>ra rb. diff g a b = Some (ra, rb) \<and> run_form ra \<and> run_form rb \<and>
    dt_set ra = ghist g a - ghist g b \<and> dt_set rb = ghist g b - ghist g a"
  by (rule diff_spec[OF assms])

theorem diff_witness:
  "\<exists>ra rb. diff sample_graph [22] [28] = Some (ra, rb) \<and> run_form ra \<and> run_form rb \<and>
    dt_set ra = ghist sample_graph [22] - ghist sample_graph [28] \<and>
    dt_set rb = ghist sample_graph [28] - ghist sample_graph [22]"
  by (rule diff_correct) simp_all

text \<open>
  C2: \<open>Graph::find_dominators\<close> of any list of versions, in any order and with repetitions, is the
  sorted list of those that no other version of the list descends from.
\<close>

theorem find_dominators_correct:
  assumes "graph_wf g" "\<forall>v \<in> set versions. in_graph g v \<and> v < usize_max div 2"
  shows "find_dominators g versions = Some (sorted_list_of_set (dominators (vparents g) (set versions)))"
  by (rule find_dominators_spec[OF assms])

theorem find_dominators_witness:
  "find_dominators sample_graph [9, 22, 3, 28] =
     Some (sorted_list_of_set (dominators (vparents sample_graph) (set [9, 22, 3, 28])))"
  by (rule find_dominators_correct) (simp_all add: usize_max_def)

text \<open>
  C12: \<open>Graph::push\<close> returns, keeps the graph well formed (sorted disjoint entries, parents in the
  past, correct shadows), ends at the end of the pushed range, gives the pushed versions the parents
  passed in and their predecessors, changes no other version's parents, and keeps a graph packed
  and fully merged when the range is pushed at its end.
\<close>

theorem graph_push_correct:
  assumes "graph_wf g" "graph_next_time g \<le> dt_start rng" "dt_start rng < dt_end rng"
    and "sorted_wrt (<) ps" "\<forall>p \<in> set ps. in_graph g p"
  shows "\<exists>g'. graph_push g ps rng = Some g' \<and> graph_wf g' \<and> graph_next_time g' = dt_end rng \<and>
    (\<forall>v. vparents g' v = (if dtrange_contains rng v
        then if v > dt_start rng then [v - 1] else ps else vparents g v)) \<and>
    (graph_checked g \<longrightarrow> dt_start rng = graph_next_time g \<longrightarrow> graph_checked g')"
  by (rule graph_push_spec[OF assms])

theorem graph_push_witness:
  "\<exists>g'. graph_push sample_graph [24, 29] (dtr 30 35) = Some g' \<and> graph_wf g' \<and> graph_next_time g' = 35"
  using graph_push_correct[of sample_graph "dtr 30 35" "[24, 29]"] sample_checked by auto

text \<open>
  C14: \<open>Graph::frontier_contains_version\<close> decides whether a version is in the history of a
  frontier; its shadow fast path and its heap search agree with the transitive closure of parents.
\<close>

theorem frontier_contains_version_correct:
  assumes "graph_wf g" "in_graph g t" "sorted_wrt (<) f" "\<forall>v \<in> set f. in_graph g v"
  shows "frontier_contains_version g f t = Some (t \<in> ghist g f)"
  by (rule frontier_contains_version_spec[OF assms])

theorem frontier_contains_version_witness:
  "frontier_contains_version sample_graph [12, 28] 6 = Some (6 \<in> ghist sample_graph [12, 28])"
  by (rule frontier_contains_version_correct) simp_all

text \<open>
  C3: \<open>Graph::find_conflicting\<close> of two sorted frontiers always returns.  It reports a common ancestor
  frontier and visits, highest first and in disjoint runs, exactly the versions above it: those only
  the first frontier contains with \<open>OnlyA\<close>, those only the second contains with \<open>OnlyB\<close>, and the
  common versions above the ancestor with \<open>Shared\<close>; every visited version descends from the whole
  common ancestor.
\<close>

theorem find_conflicting_correct:
  assumes "graph_wf g" "graph_fits g" "sorted_wrt (<) a" "\<forall>v \<in> set a. in_graph g v"
    and "sorted_wrt (<) b" "\<forall>v \<in> set b. in_graph g v"
  shows "\<exists>C vs. find_conflicting g a b = Some (C, vs) \<and> vis_desc vs \<and>
    sorted_wrt (<) C \<and> ghist g C \<subseteq> ghist g a \<inter> ghist g b \<and>
    vis_of vs OnlyA = ghist g a - ghist g b \<and> vis_of vs OnlyB = ghist g b - ghist g a \<and>
    vis_of vs Shared = (ghist g a \<inter> ghist g b) - ghist g C \<and>
    (\<forall>flag. \<forall>v \<in> vis_of vs flag. ghist g C \<subseteq> ghist g [v])"
  using find_conflicting_spec[OF assms] unfolding conflict_zone_of_def by auto

theorem find_conflicting_witness:
  "\<exists>C vs. find_conflicting sample_graph [6, 12] [22] = Some (C, vs) \<and> vis_desc vs \<and>
    ghist sample_graph C \<subseteq> ghist sample_graph [6, 12] \<inter> ghist sample_graph [22] \<and>
    vis_of vs OnlyA = ghist sample_graph [6, 12] - ghist sample_graph [22] \<and>
    vis_of vs OnlyB = ghist sample_graph [22] - ghist sample_graph [6, 12]"
proof -
  have "graph_fits sample_graph" by (simp add: graph_fits_def sample_checked usize_max_def)
  from find_conflicting_correct[OF sample_wf this, of "[6, 12]" "[22]"] show ?thesis by auto
qed

text \<open>
  C13: every graph that pushing ranges at its end with minimal parents builds passes the checker
  \<open>dbg_check\<close>, shallow and deep: no gaps, no two entries that could be merged, child and root indexes
  that name exactly the entries with that parent, parents that do not dominate each other, and the
  shadow of each entry equal to the one the checker computes.
\<close>

theorem built_graph_checks:
  assumes "graph_built g" "graph_next_time g \<le> usize_max div 2"
  shows "graph_dbg_check g deep"
  by (rule built_checks[OF assms])

theorem built_graph_witness:
  "\<exists>g. graph_push graph_new [] (dtr 0 10) = Some g \<and> graph_dbg_check g True"
proof -
  obtain g where g: "graph_push graph_new [] (dtr 0 10) = Some g" "graph_next_time g = 10"
    using graph_push_spec[of graph_new "dtr 0 10" "[]"] graph_new_checked by (auto simp: graph_checked_def)
  have "graph_built g"
    by (rule built_push[OF built_new g(1)]) (simp_all add: graph_new_checked frontier_ok_def)
  then have "graph_dbg_check g True" by (rule built_graph_checks) (simp add: g usize_max_def)
  then show ?thesis using g by blast
qed

text \<open>
  C29: \<open>Graph::make_simple_graph\<close> returns the history of a frontier as ascending disjoint entries with
  the parents of the graph, cut so that no parent points inside an entry: it is before the entry, its
  last version, or after it.
\<close>

theorem make_simple_graph_correct:
  assumes "graph_wf g" "\<forall>v \<in> set f. in_graph g v"
  shows "\<exists>es. make_simple_graph g f = Some es \<and> simple_desc (rev es) \<and>
    simple_items g es \<and> span_members es = ghist g f \<and>
    (\<forall>e \<in> set es. \<forall>e' \<in> set es. \<forall>p \<in> set (gs_parents e').
       p < dt_start (gs_span e) \<or> dtrange_last (gs_span e) \<le> p)"
  by (rule make_simple_graph_spec[OF assms])

theorem make_simple_graph_witness:
  "\<exists>es. make_simple_graph sample_graph [22, 28] = Some es \<and> simple_desc (rev es) \<and>
    simple_items sample_graph es \<and> span_members es = ghist sample_graph [22, 28]"
  using make_simple_graph_correct[OF sample_wf, of "[22, 28]"] by auto

text \<open>
  C30: \<open>Graph::project_onto_subgraph\<close> returns, sorted, exactly the versions of the filter in the history of
  the frontier that no other such version descends from, for every sorted filter and every frontier in the lower
  half of the \<open>usize\<close> numbers, which the encoding of the queue needs.
\<close>

theorem project_onto_subgraph_correct:
  assumes "graph_wf g" "\<forall>v \<in> set f. in_graph g v \<and> v \<le> usize_max div 2" "runs_desc (rev flt)"
  shows "\<exists>out. project_onto_subgraph g flt f = Some out \<and> sorted_wrt (<) out \<and>
    set out = dominators (vparents g) (dt_set flt \<inter> ghist g f)"
  by (rule project_onto_subgraph_spec[OF assms])

theorem project_onto_subgraph_witness:
  "\<exists>out. project_onto_subgraph sample_graph [dtr 2 6, dtr 12 15] [22, 28] = Some out \<and> sorted_wrt (<) out \<and>
    set out = dominators (vparents sample_graph) (dt_set [dtr 2 6, dtr 12 15] \<inter> ghist sample_graph [22, 28])"
  by (rule project_onto_subgraph_correct) (simp_all add: runs_desc_def usize_max_def)

section \<open>Frontiers\<close>

text \<open>
  C15: \<open>Frontier::advance\<close> over a range whose parents are in the history or in the range returns a
  sorted antichain whose history is the old one and the range.
\<close>

theorem advance_correct:
  assumes "graph_wf g" "frontier_ok g f" "dt_start rng \<le> dt_end rng"
    and "\<forall>v. dtrange_contains rng v \<longrightarrow> in_graph g v \<and> v \<notin> ghist g f \<and>
      (\<forall>p \<in> set (vparents g v). p \<in> ghist g f \<or> dtrange_contains rng p)"
  shows "\<exists>f'. advance f g rng = Some f' \<and> frontier_ok g f' \<and>
    ghist g f' = ghist g f \<union> {v. dtrange_contains rng v}"
  by (rule advance_spec[OF assms])

theorem advance_witness:
  "\<exists>f'. advance [9, 19] sample_graph (dtr 20 30) = Some f' \<and> frontier_ok sample_graph f'"
  using advance_correct[OF sample_wf sample_frontier(1) _ sample_advance] by auto

text \<open>
  C16: \<open>Frontier::retreat\<close> takes a range off the history: when the range is in the history and nothing
  outside the range descends from it, the result is the sorted antichain whose history is the old one
  without the range.
\<close>

theorem retreat_correct:
  assumes "graph_wf g" "graph_deep g" "frontier_ok g f" "dt_start rng \<le> dt_end rng"
    and "\<forall>v. dtrange_contains rng v \<longrightarrow> v \<in> ghist g f"
    and "\<forall>v \<in> ghist g f. \<forall>p \<in> set (vparents g v). dtrange_contains rng p \<longrightarrow> dtrange_contains rng v"
  shows "\<exists>f'. retreat f g rng = Some f' \<and> frontier_ok g f' \<and>
    ghist g f' = ghist g f - {v. dtrange_contains rng v}"
  by (rule retreat_spec[OF assms])

theorem retreat_witness:
  "\<exists>f'. retreat [22] sample_graph (dtr 15 23) = Some f' \<and> frontier_ok sample_graph f'"
  using retreat_correct[OF sample_wf sample_deep sample_frontier(2) _ sample_retreat] by auto

text \<open>C17: retreating over the range a frontier was advanced by leads back to that frontier.\<close>

theorem advance_retreat_roundtrip:
  assumes "graph_wf g" "graph_deep g" "frontier_ok g f" "dt_start rng \<le> dt_end rng"
    and "\<forall>v. dtrange_contains rng v \<longrightarrow> in_graph g v \<and> v \<notin> ghist g f \<and>
      (\<forall>p \<in> set (vparents g v). p \<in> ghist g f \<or> dtrange_contains rng p)"
  shows "\<exists>f1. advance f g rng = Some f1 \<and> retreat f1 g rng = Some f"
  by (rule advance_retreat[OF assms])

theorem advance_retreat_witness:
  "\<exists>f1. advance [9, 19] sample_graph (dtr 20 30) = Some f1 \<and> retreat f1 sample_graph (dtr 20 30) = Some [9, 19]"
  using advance_retreat_roundtrip[OF sample_wf sample_deep sample_frontier(1) _ sample_advance] by simp

text \<open>
  \<open>Frontier::advance_sparse\<close> over any range of the graph, in the history or not, returns the
  frontier of the old history joined with everything the range descends from.
\<close>

theorem advance_sparse_correct:
  assumes "graph_wf g" "frontier_ok g f" "small_frontier f"
    and "dt_start rng < dt_end rng" "\<forall>v. dtrange_contains rng v \<longrightarrow> in_graph g v \<and> v < usize_max div 2"
  shows "\<exists>f'. advance_sparse f g rng = Some f' \<and> frontier_ok g f' \<and>
    ghist g f' = ghist g f \<union> hist (vparents g) {v. dtrange_contains rng v}"
  by (rule advance_sparse_spec[OF assms])

theorem advance_sparse_witness:
  "\<exists>f'. advance_sparse [6, 12] sample_graph (dtr 18 28) = Some f' \<and> frontier_ok sample_graph f'"
  using advance_sparse_correct[of sample_graph "[6, 12]" "dtr 18 28"]
  by (simp add: small_frontier_def usize_max_def dtrange_contains_def) blast

text \<open>
  C28: \<open>Graph::frontier_cmp\<close> on two sorted antichains is the comparison of their histories by
  inclusion: equal, less, greater, or none when they are concurrent.
\<close>

theorem frontier_cmp_correct:
  assumes "graph_wf g" "sorted_wrt (<) a" "dominators (vparents g) (set a) = set a"
    and "sorted_wrt (<) b" "dominators (vparents g) (set b) = set b" "\<forall>v \<in> set a \<union> set b. in_graph g v"
  shows "frontier_cmp g a b = Some
    (if ghist g a = ghist g b then Some Equal else if ghist g a \<subseteq> ghist g b then Some Less
     else if ghist g b \<subseteq> ghist g a then Some Greater else None)"
  by (rule frontier_cmp_spec[OF assms])

theorem frontier_cmp_witness:
  "frontier_cmp sample_graph [9] [6] = Some
    (if ghist sample_graph [9] = ghist sample_graph [6] then Some Equal
     else if ghist sample_graph [9] \<subseteq> ghist sample_graph [6] then Some Less
     else if ghist sample_graph [6] \<subseteq> ghist sample_graph [9] then Some Greater else None)"
  by (rule frontier_cmp_correct) simp_all

text \<open>
  \<open>Frontier::merge_union\<close> returns the frontier of the union of both histories, whichever of
  its shortcuts applies.
\<close>

theorem merge_union_correct:
  assumes "graph_wf g" "frontier_ok g f" "frontier_ok g other" "small_frontier f" "small_frontier other"
  shows "\<exists>f'. merge_union f other g = Some f' \<and> frontier_ok g f' \<and> ghist g f' = ghist g f \<union> ghist g other"
  by (rule merge_union_spec[OF assms])

theorem merge_union_witness:
  "\<exists>f'. merge_union [6, 12] [24, 28] sample_graph = Some f' \<and> frontier_ok sample_graph f'"
  using merge_union_correct[of sample_graph "[6, 12]" "[24, 28]"]
  by (simp add: small_frontier_def usize_max_def) blast

section \<open>Loading and exporting a graph\<close>

text \<open>
  \<open>Graph::from_simple_items\<close> of packed entries with sorted parents in the past returns a packed,
  fully merged, well-formed graph that ends where the entries end and gives every version the
  parents the entries give it.
\<close>

theorem from_simple_items_correct:
  assumes "items_ok 0 es"
  shows "\<exists>g. from_simple_items es = Some g \<and> graph_checked g \<and>
    graph_next_time g = (if es = [] then 0 else dt_end (gs_span (last es))) \<and>
    (\<forall>e \<in> set es. \<forall>(v, ps) \<in> set (gs_items e). vparents g v = ps)"
  by (rule from_simple_items_spec[OF assms])

theorem from_simple_items_witness:
  "\<exists>g. from_simple_items sample_items = Some g \<and> graph_checked g \<and> graph_next_time g = 30"
  using from_simple_items_correct[of sample_items] by (auto simp: sample_items_def)

section \<open>Run-length vectors\<close>

text \<open>
  C31: \<open>RleVec::insert\<close> of a run whose keys are free returns a well-formed vector with exactly the
  old content and the run's content, whether it lands at the end, joins the run before it, the run
  after it, or neither.
\<close>

theorem rle_insert_correct:
  assumes "vec_ok kv_key (kv_len dtrange_len) (\<lambda>x. dtrange_is_valid (kv_val x)) xs"
    and "dtrange_is_valid (kv_val val)" "0 < kv_len dtrange_len val"
    and "\<forall>x \<in> set xs. kv_key x + kv_len dtrange_len x \<le> kv_key val \<or>
      kv_key val + kv_len dtrange_len val \<le> kv_key x"
  shows "\<exists>ys. rle_insert kv_key (kv_len dtrange_len) (kv_can_append dtrange_len dtrange_can_append)
        (kv_append dtrange_append) (kv_prepend dtrange_prepend) xs val = Some ys \<and>
    vec_ok kv_key (kv_len dtrange_len) (\<lambda>x. dtrange_is_valid (kv_val x)) ys \<and>
    content kv_key (kv_items dtrange_iter) ys =
      content kv_key (kv_items dtrange_iter) xs \<union> content kv_key (kv_items dtrange_iter) [val]"
  using kv_dtrange.rle_insert_content[OF assms] by (simp add: content_def)

theorem rle_insert_witness:
  "\<exists>ys. rle_insert kv_key (kv_len dtrange_len) (kv_can_append dtrange_len dtrange_can_append)
        (kv_append dtrange_append) (kv_prepend dtrange_prepend)
        [KVPair 0 (dtr 100 105), KVPair 10 (dtr 110 115)] (KVPair 5 (dtr 105 108)) = Some ys \<and>
    vec_ok kv_key (kv_len dtrange_len) (\<lambda>x. dtrange_is_valid (kv_val x)) ys"
  using rle_insert_correct[of "[KVPair 0 (dtr 100 105), KVPair 10 (dtr 110 115)]" "KVPair 5 (dtr 105 108)"]
  by (auto simp: kv_len_def span_defs)

text \<open>
  \<open>RleVec::remove_ctx\<close> of a range that reaches the end of the vector keeps exactly the content
  below the range.
\<close>

theorem remove_tail_correct:
  assumes "vec_ok dtrange_rle_key dtrange_len dtrange_is_valid xs"
    and "rv_end dtrange_rle_key dtrange_len xs \<le> dt_end d"
  shows "\<exists>ys. remove_ctx dtrange_rle_key dtrange_len dtrange_truncate dtrange_truncate_keeping_right
        dtrange_can_append dtrange_append dtrange_prepend xs d = Some ys \<and>
    vec_ok dtrange_rle_key dtrange_len dtrange_is_valid ys \<and>
    content dtrange_rle_key dtrange_iter ys =
      keys_within (content dtrange_rle_key dtrange_iter xs) 0 (dt_start d)"
  by (rule dtrange_rle.remove_tail_content[OF assms])

theorem remove_tail_witness:
  "\<exists>ys. remove_ctx dtrange_rle_key dtrange_len dtrange_truncate dtrange_truncate_keeping_right
        dtrange_can_append dtrange_append dtrange_prepend [dtr 0 5, dtr 8 12, dtr 20 22] (dtr 10 30) = Some ys \<and>
    vec_ok dtrange_rle_key dtrange_len dtrange_is_valid ys"
  using remove_tail_correct[of "[dtr 0 5, dtr 8 12, dtr 20 22]" "dtr 10 30"]
  by (auto simp: span_defs rv_end_def rv_last_entry_def span_end_def)

text \<open>
  C32: removing the front part of an entry changes nothing: \<open>remove_ctx\<close> truncates the entry at the
  start of the deleted range instead of at its end, and the range stays in the vector.
\<close>

theorem remove_prefix_keeps:
  assumes "vec_ok dtrange_rle_key dtrange_len dtrange_is_valid xs" "i < length xs"
    and "dt_start (xs ! i) = dt_start d" "dt_start d < dt_end d" "dt_end d < dt_end (xs ! i)"
  shows "remove_ctx dtrange_rle_key dtrange_len dtrange_truncate dtrange_truncate_keeping_right
     dtrange_can_append dtrange_append dtrange_prepend xs d = Some xs"
  by (rule remove_prefix_noop[OF assms])

theorem remove_prefix_witness:
  "remove_ctx dtrange_rle_key dtrange_len dtrange_truncate dtrange_truncate_keeping_right
     dtrange_can_append dtrange_append dtrange_prepend [dtr 0 10] (dtr 0 5) = Some [dtr 0 10]"
  by (rule remove_prefix_keeps[where i = 0]) (simp_all add: span_defs)

text \<open>
  C33: \<open>rle_intersect\<close> of two sorted lists of ranges, which walks both lists once, is the quadratic
  reference: in order, for every range of the first list and every range of the second, what the two have in
  common, if anything; the two halves of each piece are equal.
\<close>

theorem rle_intersect_correct:
  assumes "vec_ok dtrange_rle_key dtrange_len dtrange_is_valid as"
    and "vec_ok dtrange_rle_key dtrange_len dtrange_is_valid bs"
  shows "rle_intersect dtrange_rle_key dtrange_len dtrange_truncate dtrange_truncate_keeping_right
      dtrange_rle_key dtrange_len dtrange_truncate dtrange_truncate_keeping_right as bs =
    map (\<lambda>r. (r, r)) (concat (map (\<lambda>a. concat (map (range_meet a) bs)) as))"
proof -
  have "isect_ranges.lists_ok as bs"
    using assms by (simp add: isect_ranges.lists_ok_def vec_ok_def)
  from rle_intersect_ranges[OF this] show ?thesis by (simp add: range_joins_def)
qed

theorem rle_intersect_witness:
  "rle_intersect dtrange_rle_key dtrange_len dtrange_truncate dtrange_truncate_keeping_right
      dtrange_rle_key dtrange_len dtrange_truncate dtrange_truncate_keeping_right [dtr 0 5, dtr 8 12] [dtr 3 10] =
    map (\<lambda>r. (r, r)) (concat (map (\<lambda>a. concat (map (range_meet a) [dtr 3 10])) [dtr 0 5, dtr 8 12])) \<and>
   concat (map (\<lambda>a. concat (map (range_meet a) [dtr 3 10])) [dtr 0 5, dtr 8 12]) = [dtr 3 5, dtr 8 10]"
  by (intro conjI rle_intersect_correct) (simp_all add: span_defs range_meet_def)

text \<open>
  The pieces hold exactly the pairs of items the two lists
  have at a common key.
\<close>

theorem rle_intersect_content:
  assumes "vec_ok dtrange_rle_key dtrange_len dtrange_is_valid as"
    and "vec_ok dtrange_rle_key dtrange_len dtrange_is_valid bs"
  shows "(\<Union>(a, b) \<in> set (rle_intersect dtrange_rle_key dtrange_len dtrange_truncate dtrange_truncate_keeping_right
        dtrange_rle_key dtrange_len dtrange_truncate dtrange_truncate_keeping_right as bs).
          key_join (content dtrange_rle_key dtrange_iter [a]) (content dtrange_rle_key dtrange_iter [b])) =
    key_join (content dtrange_rle_key dtrange_iter as) (content dtrange_rle_key dtrange_iter bs)"
proof -
  have "isect_ranges.lists_ok as bs"
    using assms by (simp add: isect_ranges.lists_ok_def vec_ok_def)
  from isect_ranges.rle_intersect_join(1)[OF this] show ?thesis by simp
qed

text \<open>
  \<open>rle_zip\<close> of two run-length lists, read item by item, is the zip of their items, and the two
  halves of every piece have the same positive length.
\<close>

theorem rle_zip_correct:
  assumes "\<forall>a \<in> set as. dtrange_is_valid a \<and> 0 < dtrange_len a" "\<forall>b \<in> set bs. 0 < run_len b"
  shows "concat (map (\<lambda>(a, b). zip (dtrange_iter a) (rle_run_items b))
      (rle_zip dtrange_len run_len dtrange_truncate rle_run_truncate as bs)) =
    zip (concat (map dtrange_iter as)) (concat (map rle_run_items bs))"
  using zip_range_run.rle_zip_items(1)[of as bs] assms by simp

theorem rle_zip_witness:
  "concat (map (\<lambda>(a, b). zip (dtrange_iter a) (rle_run_items b))
      (rle_zip dtrange_len run_len dtrange_truncate rle_run_truncate [dtr 0 5, dtr 8 12] [rle_run_new True 3])) =
    zip (concat (map dtrange_iter [dtr 0 5, dtr 8 12])) (concat (map rle_run_items [rle_run_new True 3]))"
  by (rule rle_zip_correct) (simp_all add: span_defs rle_run_new_def)

section \<open>The causal graph\<close>

text \<open>
  C25: local versions and (agent, sequence number) pairs are in one-to-one correspondence: the two
  lookups are inverse to each other, and exactly the versions so far have a pair.
\<close>

theorem agent_versions_correct:
  assumes "aa_ok aa"
  shows "(\<forall>v av. try_agent_version_to_lv aa av = Some v \<longleftrightarrow> local_to_agent_version aa v = Some av) \<and>
    (\<forall>v. local_to_agent_version aa v = None \<longleftrightarrow> aa_len aa \<le> v)"
  using agent_version_inverse[OF assms] local_to_agent_total[OF assms] by blast

theorem agent_versions_witness:
  "(\<forall>v av. try_agent_version_to_lv (cg_aa sample_cg) av = Some v \<longleftrightarrow>
      local_to_agent_version (cg_aa sample_cg) v = Some av) \<and>
    (\<forall>v. local_to_agent_version (cg_aa sample_cg) v = None \<longleftrightarrow> aa_len (cg_aa sample_cg) \<le> v)"
  by (rule agent_versions_correct[OF sample_aa(1)])

text \<open>
  A frontier translated to the names that peers exchange and back is the same frontier, with
  both the panicking and the checked translation.
\<close>

theorem remote_frontier_correct:
  assumes "aa_ok aa" "sorted_wrt (<) f" "\<forall>v \<in> set f. v < aa_len aa"
  shows "\<exists>rf. local_to_remote_frontier aa f = Some rf \<and> remote_to_local_frontier aa rf = Some f \<and>
    try_remote_to_local_frontier aa rf = Inr f"
  by (rule remote_frontier_round_trip[OF assms])

theorem remote_frontier_witness:
  "\<exists>rf. local_to_remote_frontier (cg_aa sample_cg) [2, 4] = Some rf \<and>
    remote_to_local_frontier (cg_aa sample_cg) rf = Some [2, 4] \<and>
    try_remote_to_local_frontier (cg_aa sample_cg) rf = Inr [2, 4]"
  by (rule remote_frontier_correct[OF sample_aa(1)]) (simp_all add: sample_aa(2))

text \<open>
  C26: breaking ties is a strict total order on the known versions: it never panics, is equal only for
  the same version, turns around with its arguments and is transitive.
\<close>

theorem tie_break_correct:
  assumes "aa_ok aa" "u < aa_len aa" "v < aa_len aa" "w < aa_len aa"
  shows "(\<exists>res. tie_break_versions aa v w = Some res \<and> tie_break_versions aa w v = Some (ord_reverse res) \<and>
      (res = Equal \<longleftrightarrow> v = w)) \<and>
    (tie_break_versions aa u v = Some Less \<longrightarrow> tie_break_versions aa v w = Some Less \<longrightarrow>
      tie_break_versions aa u w = Some Less)"
  using tie_break_order[OF assms(1,3,4)] tie_break_trans[OF assms] by blast

theorem tie_break_witness:
  "(\<exists>res. tie_break_versions (cg_aa sample_cg) 0 6 = Some res \<and>
      tie_break_versions (cg_aa sample_cg) 6 0 = Some (ord_reverse res) \<and> (res = Equal \<longleftrightarrow> (0::nat) = 6)) \<and>
    tie_break_versions (cg_aa sample_cg) 3 6 = Some Less"
proof -
  have "tie_break_versions (cg_aa sample_cg) 3 0 = Some Less" "tie_break_versions (cg_aa sample_cg) 0 6 = Some Less"
    by code_simp+
  then show ?thesis using tie_break_correct[OF sample_aa(1), of 3 0 6] by (simp add: sample_aa(2))
qed

text \<open>
  C19: \<open>assign_local_op\<close> appends the new versions after everything known, under the agent's next
  sequence numbers and with the current version as their parents, keeps the whole causal graph
  consistent, and makes the last new version the only member of the version.
\<close>

theorem assign_local_op_correct:
  assumes "cg_ok cg" "a < length (aa_clients (cg_aa cg))" "0 < num"
  shows "\<exists>cg'. assign_local_op cg a num = Some (cg', \<lparr>dt_start = cg_len cg, dt_end = cg_len cg + num\<rparr>) \<and> cg_ok cg' \<and>
    cg_extends cg cg' a (cd_get_next_seq (aa_clients (cg_aa cg) ! a))
      (cd_get_next_seq (aa_clients (cg_aa cg) ! a) + num) (cg_version cg) \<and>
    cg_version cg' = [cg_len cg + num - 1]"
  by (rule assign_local_op_spec[OF assms])

theorem assign_local_op_witness:
  "\<exists>cg'. assign_local_op sample_cg 1 4 =
      Some (cg', \<lparr>dt_start = cg_len sample_cg, dt_end = cg_len sample_cg + 4\<rparr>) \<and> cg_ok cg' \<and>
    cg_extends sample_cg cg' 1 (cd_get_next_seq (aa_clients (cg_aa sample_cg) ! 1))
      (cd_get_next_seq (aa_clients (cg_aa sample_cg) ! 1) + 4) (cg_version sample_cg) \<and>
    cg_version cg' = [cg_len sample_cg + 4 - 1]"
  by (rule assign_local_op_correct[OF sample_cg_ok(4)]) (simp_all add: sample_values(7))

text \<open>
  C18: \<open>merge_and_assign\<close> of a span whose known part is a prefix keeps the causal graph consistent and
  adds exactly the unknown rest: nothing when all of it is known, all of it with the given parents
  when none is, and otherwise the part after the last known number, with that number as its parent.
\<close>

theorem merge_and_assign_correct:
  assumes "cg_ok cg" "a < length (aa_clients (cg_aa cg))" "s < e"
    and "sorted_wrt (<) ps" "\<forall>p \<in> set ps. p < cg_len cg"
    and "\<forall>q r. s \<le> q \<longrightarrow> q \<le> r \<longrightarrow> r < e \<longrightarrow> known cg a r \<longrightarrow> known cg a q"
  shows "\<exists>k cg'. s \<le> k \<and> k \<le> e \<and> (\<forall>q. s \<le> q \<longrightarrow> q < e \<longrightarrow> known cg a q = (q < k)) \<and>
    merge_and_assign cg ps \<lparr>as_agent = a, as_seq = \<lparr>dt_start = s, dt_end = e\<rparr>\<rparr> =
      Some (cg', \<lparr>dt_start = cg_len cg, dt_end = cg_len cg + (e - k)\<rparr>) \<and> cg_ok cg' \<and>
    (if k = e then cg' = cg
     else \<exists>ps'. cg_extends cg cg' a k e ps' \<and>
       (if k = s then ps' = ps else \<exists>v. ps' = [v] \<and> (v, (a, k - 1)) \<in> assigned (cg_aa cg)))"
  by (rule merge_and_assign_spec[OF assms])

theorem merge_and_assign_witness:
  "\<exists>k cg' ps'. merge_and_assign sample_cg [2] \<lparr>as_agent = 0, as_seq = \<lparr>dt_start = 3, dt_end = 8\<rparr>\<rparr> =
      Some (cg', \<lparr>dt_start = 7, dt_end = 10\<rparr>) \<and> cg_ok cg' \<and> cg_extends sample_cg cg' 0 5 8 ps'"
proof -
  have "\<forall>q r. 3 \<le> q \<longrightarrow> q \<le> r \<longrightarrow> r < 8 \<longrightarrow> known sample_cg 0 r \<longrightarrow> known sample_cg 0 q"
    unfolding sample_known by simp
  then obtain k cg' where k: "3 \<le> k" "k \<le> 8" "\<forall>q. 3 \<le> q \<longrightarrow> q < 8 \<longrightarrow> known sample_cg 0 q = (q < k)"
    "merge_and_assign sample_cg [2] \<lparr>as_agent = 0, as_seq = \<lparr>dt_start = 3, dt_end = 8\<rparr>\<rparr> =
      Some (cg', \<lparr>dt_start = 7, dt_end = 7 + (8 - k)\<rparr>)" "cg_ok cg'"
    "if k = 8 then cg' = sample_cg
     else \<exists>ps'. cg_extends sample_cg cg' 0 k 8 ps' \<and>
       (if k = 3 then ps' = [2] else \<exists>v. ps' = [v] \<and> (v, (0, k - 1)) \<in> assigned (cg_aa sample_cg))"
    using merge_and_assign_correct[OF sample_cg_ok(4), of 0 3 8 "[2]"] sample_values(7,8) by auto
  have "k = 5"
  proof (rule linorder_cases[of k 5])
    assume "k < 5" then show ?thesis using k(1) k(3)[rule_format, of k] by (simp add: sample_known)
  next
    assume "5 < k" then show ?thesis using k(2) k(3)[rule_format, of 5] by (simp add: sample_known)
  qed
  then show ?thesis using k(4,5,6) by auto
qed

text \<open>
  \<open>merge_and_assign_nonoverlapping\<close> of a span none of which is known does not panic, keeps the
  causal graph consistent and adds the whole span with the given parents.
\<close>

theorem merge_nonoverlapping_correct:
  assumes "cg_ok cg" "a < length (aa_clients (cg_aa cg))" "s < e" "e < usize_max"
    and "sorted_wrt (<) ps" "\<forall>p \<in> set ps. p < cg_len cg" "\<forall>q. s \<le> q \<longrightarrow> q < e \<longrightarrow> \<not> known cg a q"
  shows "\<exists>cg'. merge_and_assign_nonoverlapping cg ps \<lparr>as_agent = a, as_seq = \<lparr>dt_start = s, dt_end = e\<rparr>\<rparr> =
      Some (cg', \<lparr>dt_start = cg_len cg, dt_end = cg_len cg + (e - s)\<rparr>) \<and> cg_ok cg' \<and> cg_extends cg cg' a s e ps"
  by (rule merge_nonoverlapping_spec[OF assms])

theorem merge_nonoverlapping_witness:
  "\<exists>cg'. merge_and_assign_nonoverlapping sample_cg [1] \<lparr>as_agent = 0, as_seq = \<lparr>dt_start = 9, dt_end = 12\<rparr>\<rparr> =
      Some (cg', \<lparr>dt_start = cg_len sample_cg, dt_end = cg_len sample_cg + (12 - 9)\<rparr>) \<and> cg_ok cg' \<and>
    cg_extends sample_cg cg' 0 9 12 [1]"
proof (rule merge_nonoverlapping_correct[OF sample_cg_ok(4)])
  show "\<forall>q. 9 \<le> q \<longrightarrow> q < 12 \<longrightarrow> \<not> known sample_cg 0 q" unfolding sample_known by simp
qed (simp_all add: sample_values(7,8) usize_max_def)

text \<open>
  \<open>diff_since\<close> of a known frontier returns, as ascending maximal runs, exactly the versions that
  are not in its history.
\<close>

theorem diff_since_correct:
  assumes "cg_ok cg" "\<forall>v \<in> set f. v < cg_len cg"
  shows "\<exists>r. diff_since cg f = Some r \<and> run_form r \<and> dt_set r = {..< cg_len cg} - ghist (cg_graph cg) f"
  by (rule diff_since_spec[OF assms])

theorem diff_since_witness:
  "\<exists>r. diff_since sample_cg [4] = Some r \<and> run_form r \<and>
    dt_set r = {..< cg_len sample_cg} - ghist (cg_graph sample_cg) [4]"
  by (rule diff_since_correct[OF sample_cg_ok(4)]) (simp add: sample_values(8))

section \<open>Text operations, the oplog and the document\<close>

text \<open>
  C6: a document that is only edited through \<open>ListCRDT\<close> (creating agents, inserting, deleting with or
  without recording the text) always shows what replaying its oplog from the start gives: the oplog
  is consistent, the branch is at its version and the characters are those of the replay.
\<close>

theorem crdt_reach_correct:
  assumes "str_indices_ok si" "rope_ok rp doc" "crdt_reach si rp c"
  shows "oplog_ok (cr_oplog c) \<and> br_version (cr_branch c) = cg_version (ol_cg (cr_oplog c)) \<and>
    apply_edits (ol_edits (cr_oplog c)) [] = Some (doc (br_content (cr_branch c)))"
  using crdt_reach_ok[OF assms] by (simp add: crdt_ok_def)

theorem crdt_reach_witness:
  "\<exists>c. crdt_reach si_scan list_rope c \<and> oplog_ok (cr_oplog c) \<and>
     apply_edits (ol_edits (cr_oplog c)) [] = Some [[0x68], [0x69]]"
proof -
  obtain c where c: "crdt_reach si_scan list_rope c" "crdt_doc Rep_char_list c = [[0x68], [0x69]]"
    using sample_crdt by blast
  then show ?thesis
    using crdt_reach_correct[OF si_scan_ok list_rope_ok c(1)] by (intro exI[of _ c]) (simp add: crdt_doc_def)
qed

text \<open>
  C20: inserting text into a reachable document, at any position up to its end, succeeds, puts the text
  there and gives a reachable document.
\<close>

theorem crdt_insert_correct:
  assumes "str_indices_ok si" "rope_ok rp doc" "crdt_reach si rp c" "agent_known (cr_oplog c) a"
    and "utf8_valid s" "s \<noteq> []" "pos \<le> length (crdt_doc doc c)"
  shows "\<exists>c' t. crdt_insert si rp c a pos s = Some (c', t) \<and> crdt_reach si rp c' \<and>
    crdt_doc doc c' = take pos (crdt_doc doc c) @ str_chars s @ drop pos (crdt_doc doc c)"
proof -
  have ok: "crdt_ok doc c" by (rule crdt_reach_ok[OF assms(1-3)])
  have "pos \<le> crdt_len rp c"
    using assms(7) rope_okD(2)[OF assms(2)] by (simp add: crdt_len_def br_len_def crdt_doc_def)
  then show ?thesis
    using crdt_insert_ok[OF assms(1,2) ok assms(4-7)] reach_insert[OF assms(3-6)] by blast
qed

theorem crdt_insert_witness:
  "\<exists>c c' t. crdt_insert si_scan list_rope c 0 1 [0x61, 0x62] = Some (c', t) \<and>
     crdt_doc Rep_char_list c' = [[0x68], [0x61], [0x62], [0x69]]"
proof -
  obtain c where c: "crdt_reach si_scan list_rope c" "crdt_doc Rep_char_list c = [[0x68], [0x69]]"
      "agent_known (cr_oplog c) 0"
    using sample_crdt by blast
  have s: "utf8_valid [0x61, 0x62]" "str_chars [0x61, 0x62] = [[0x61], [0x62]]" by code_simp+
  show ?thesis
    using crdt_insert_correct[OF si_scan_ok list_rope_ok c(1,3) s(1), of 1] c(2) s(2) by auto
qed

text \<open>
  C21: deleting a non-empty range of a reachable document, recording the deleted text, succeeds, removes
  exactly that range and gives a reachable document.
\<close>

theorem crdt_delete_correct:
  assumes "str_indices_ok si" "rope_ok rp doc" "crdt_reach si rp c" "agent_known (cr_oplog c) a"
    and "b < e" "e \<le> length (crdt_doc doc c)"
  shows "\<exists>c' t. crdt_delete rp c a (dtr b e) = Some (c', t) \<and> crdt_reach si rp c' \<and>
    crdt_doc doc c' = take b (crdt_doc doc c) @ drop e (crdt_doc doc c)"
proof -
  have ok: "crdt_ok doc c" by (rule crdt_reach_ok[OF assms(1-3)])
  have "e \<le> crdt_len rp c"
    using assms(6) rope_okD(2)[OF assms(2)] by (simp add: crdt_len_def br_len_def crdt_doc_def)
  then show ?thesis
    using crdt_delete_ok[OF assms(2) ok assms(4-6)] reach_delete[OF assms(3-5)] by blast
qed

theorem crdt_delete_witness:
  "\<exists>c c' t. crdt_delete list_rope c 0 (dtr 1 2) = Some (c', t) \<and> crdt_doc Rep_char_list c' = [[0x68]]"
proof -
  obtain c where c: "crdt_reach si_scan list_rope c" "crdt_doc Rep_char_list c = [[0x68], [0x69]]"
      "agent_known (cr_oplog c) 0"
    using sample_crdt by blast
  show ?thesis using crdt_delete_correct[OF si_scan_ok list_rope_ok c(1,3), of 1 2] c(2) by auto
qed

text \<open>
  C7: \<open>apply_local_operations\<close>, the one pass that changes the document and appends to the oplog with
  its own fast path for the history, does the same as adding the operations at the version of the
  branch and replaying their single character edits on its document.
\<close>

theorem apply_local_operations_correct:
  assumes "rope_ok rp doc" "oplog_ok ol" "agent_known ol a" "ops \<noteq> []" "list_all to_ok ops"
    and "sorted_wrt (<) (br_version br)" "\<forall>p \<in> set (br_version br). p < ol_len ol"
    and "apply_edits (all_edits ops) (doc (br_content br)) = Some d"
  shows "\<exists>ol' br' t. apply_local_operations rp ol br a ops = Some (ol', br', t) \<and>
    add_operations_at ol a (br_version br) ops = Some (ol', t) \<and> doc (br_content br') = d \<and> br_version br' = [t]"
  by (rule apply_local_operations_spec[OF assms])

theorem apply_local_operations_witness:
  "\<exists>ol' br' t. apply_local_operations list_rope sample_start (branch_new list_rope) 0 sample_ops = Some (ol', br', t) \<and>
    add_operations_at sample_start 0 (br_version (branch_new list_rope)) sample_ops = Some (ol', t) \<and>
    Rep_char_list (br_content br') = [[0x6C]] \<and> br_version br' = [t]"
proof (rule apply_local_operations_correct[OF list_rope_ok sample_start_ok(1,2) sample_ops_ok(2,1)])
  have "apply_edits (all_edits sample_ops) [] = Some [[0x6C]]" by code_simp
  then show "apply_edits (all_edits sample_ops) (Rep_char_list (br_content (branch_new list_rope))) = Some [[0x6C]]"
    using rope_okD(1)[OF list_rope_ok] by (simp add: branch_new_def)
qed (simp_all add: branch_new_def frontier_root_def)

text \<open>
  C22: applying a stored range of the oplog to a branch, reading the run-length entries and their text
  from the buffers, replays exactly the single character edits with those versions on the document.
\<close>

theorem apply_range_from_correct:
  assumes "str_indices_ok si" "rope_ok rp doc" "oplog_ok ol" "a < b" "a < ol_len ol"
    and "apply_edits (drop a (take b (ol_edits ol))) (doc (br_content br)) = Some d"
  shows "\<exists>br'. apply_range_from si rp br ol (dtr a b) = Some br' \<and> doc (br_content br') = d \<and> br_version br' = br_version br"
  by (rule apply_range_from_spec[OF assms])

theorem apply_range_from_witness:
  "\<exists>br'. apply_range_from si_scan list_rope (branch_new list_rope) sample_oplog (dtr 0 6) = Some br' \<and>
    Rep_char_list (br_content br') = [[0x68], [0x65], [0x6C], [0x6C]] \<and> br_version br' = br_version (branch_new list_rope)"
proof (rule apply_range_from_correct[OF si_scan_ok list_rope_ok sample_oplog_ok(1)])
  have "apply_edits (drop 0 (take 6 (all_edits sample_ops))) [] = Some [[0x68], [0x65], [0x6C], [0x6C]]" by code_simp
  then show "apply_edits (drop 0 (take 6 (ol_edits sample_oplog))) (Rep_char_list (br_content (branch_new list_rope))) =
      Some [[0x68], [0x65], [0x6C], [0x6C]]"
    using rope_okD(1)[OF list_rope_ok] by (simp add: branch_new_def sample_oplog_edits)
qed (simp_all add: sample_oplog_ok(2))

text \<open>
  C11: cutting a \<open>TextOperation\<close> anywhere inside gives two well formed operations that make its first
  and its remaining edits, forwards or backwards, and appending the second to the first is allowed and
  gives the operation back.
\<close>

theorem text_operation_correct:
  assumes "str_indices_ok si" "to_ok op" "0 < at" "at < to_len op"
  shows "\<exists>l r. to_truncate si op at = (l, r) \<and> to_ok l \<and> to_ok r \<and>
    to_edits l = take at (to_edits op) \<and> to_edits r = drop at (to_edits op) \<and>
    to_can_append l r \<and> to_append l r = op"
proof -
  have "split_join_span to_len to_edits to_ok (to_truncate si) to_can_append to_append
      (default_prepend to_append) (default_truncate_keeping_right (to_truncate si))"
    by (rule text_operation_span[OF assms(1)])
  from split_join_span.rejoin[OF this assms(2-4)] to_truncate_spec[OF assms] show ?thesis
    by (cases "to_truncate si op at") simp
qed

theorem text_operation_witness:
  "\<exists>l r. to_truncate si_scan (hd sample_ops) 2 = (l, r) \<and> to_ok l \<and> to_ok r \<and>
    to_edits l = take 2 (to_edits (hd sample_ops)) \<and> to_edits r = drop 2 (to_edits (hd sample_ops)) \<and>
    to_can_append l r \<and> to_append l r = hd sample_ops"
  by (rule text_operation_correct[OF si_scan_ok]) code_simp+

text \<open>
  C23: the metrics of an operation, which hold a range of the shared text buffer in place of the text,
  are cut like the operation they stand for: the cut of the text is found at the same character.
\<close>

theorem metrics_truncate_correct:
  assumes "str_indices_ok si" "to_operation m ctx = Some op" "to_ok op" "0 < at" "at < om_len m"
  shows "\<exists>l r. om_truncate_ctx si m at ctx = Some (l, r) \<and>
    to_operation l ctx = Some (fst (to_truncate si op at)) \<and> to_operation r ctx = Some (snd (to_truncate si op at))"
  by (rule om_truncate_refines[OF assms])

theorem metrics_truncate_witness:
  "\<exists>l r. om_truncate_ctx si_scan (kv_val (hd (ol_operations sample_oplog))) 2 (ol_ctx sample_oplog) = Some (l, r) \<and>
    to_operation l (ol_ctx sample_oplog) = Some (fst (to_truncate si_scan (hd sample_ops) 2)) \<and>
    to_operation r (ol_ctx sample_oplog) = Some (snd (to_truncate si_scan (hd sample_ops) 2))"
  by (rule metrics_truncate_correct[OF si_scan_ok]) code_simp+

text \<open>
  C24: \<open>add_operations_at\<close> appends exactly the edits of the operations to a consistent oplog, at the next
  sequence numbers of the agent, the first with the parents passed in and each other after its
  predecessor, keeps the oplog consistent and returns the last version.
\<close>

theorem add_operations_at_correct:
  assumes "oplog_ok ol" "agent_known ol a" "ops \<noteq> []" "list_all to_ok ops"
    and "sorted_wrt (<) ps" "\<forall>p \<in> set ps. p < ol_len ol"
  shows "\<exists>ol' v. add_operations_at ol a ps ops = Some (ol', v) \<and> oplog_extends ol ol' (all_edits ops) \<and>
    v = ol_len ol' - 1 \<and>
    cg_extends (ol_cg ol) (ol_cg ol') a (next_seq_of ol a) (next_seq_of ol a + length (all_edits ops)) ps"
  by (rule add_operations_at_spec[OF assms])

theorem add_operations_at_witness:
  "\<exists>ol' v. add_operations_at sample_oplog 0 [2, 4] sample_ops = Some (ol', v) \<and>
    oplog_extends sample_oplog ol' (all_edits sample_ops) \<and> v = ol_len ol' - 1 \<and>
    cg_extends (ol_cg sample_oplog) (ol_cg ol') 0 (next_seq_of sample_oplog 0)
      (next_seq_of sample_oplog 0 + length (all_edits sample_ops)) [2, 4]"
  by (rule add_operations_at_correct[OF sample_oplog_ok(1,3) sample_ops_ok(2,1)]) (simp_all add: sample_oplog_ok(2))

text \<open>
  C8: \<open>add_operations_remote\<close>, given operations whose known part is a prefix, assigns exactly the
  sequence numbers that are not known yet, with the parents passed in or, after a known part, with its last
  version as parent, returns the range of the new versions, and changes nothing when all are known.  It
  appends the edits that are not known yet exactly when the known part does not end inside a forward
  delete; the rest of such a delete is appended moved right by the number of its characters that are
  known (\<open>stored_edits\<close>).
\<close>

theorem add_operations_remote_correct:
  assumes "str_indices_ok si" "oplog_ok ol" "agent_known ol a" "ops \<noteq> []" "list_all to_ok ops"
    and "sorted_wrt (<) ps" "\<forall>p \<in> set ps. p < ol_len ol"
    and "s \<le> k" "k \<le> s + length (all_edits ops)"
      "\<forall>q. s \<le> q \<longrightarrow> q < s + length (all_edits ops) \<longrightarrow> known (ol_cg ol) a q = (q < k)"
  shows "\<exists>ol'. add_operations_remote si ol a ps s ops =
      Some (ol', dtr (ol_len ol) (ol_len ol + (s + length (all_edits ops) - k))) \<and>
    oplog_extends ol ol' (stored_edits (k - s) ops) \<and>
    (stored_edits (k - s) ops = drop (k - s) (all_edits ops) \<longleftrightarrow> skip_safe (k - s) ops) \<and>
    (if k = s + length (all_edits ops) then ol' = ol
     else \<exists>ps'. cg_extends (ol_cg ol) (ol_cg ol') a k (s + length (all_edits ops)) ps' \<and>
       (if k = s then ps' = ps else \<exists>v. ps' = [v] \<and> (v, (a, k - 1)) \<in> assigned (cg_aa (ol_cg ol))))"
  by (rule add_operations_remote_spec[OF assms])

theorem add_operations_remote_witness:
  "\<exists>ol'. add_operations_remote si_scan sample_oplog 0 [3] 7 sample_ops = Some (ol', dtr 9 16) \<and>
    oplog_extends sample_oplog ol' (drop 2 (all_edits sample_ops))"
proof -
  have "\<forall>q. 7 \<le> q \<longrightarrow> q < 7 + length (all_edits sample_ops) \<longrightarrow> known (ol_cg sample_oplog) 0 q = (q < 9)"
    by (simp add: sample_oplog_known)
  moreover have "skip_safe (9 - 7) sample_ops" by code_simp
  ultimately show ?thesis
    using add_operations_remote_correct[OF si_scan_ok sample_oplog_ok(1,3) sample_ops_ok(2,1), of "[3]" 7 9]
    by (auto simp: sample_oplog_ok(2) sample_ops_ok(3))
qed

text \<open>
  C10: iterating over a range of an oplog gives well formed operations that make exactly the edits with
  those versions, whatever run-length entries they are stored in.
\<close>

theorem iter_ops_range_correct:
  assumes "str_indices_ok si" "oplog_ok ol" "a < b" "a < ol_len ol"
  shows "\<exists>ops. iter_ops_range si ol (dtr a b) = Some ops \<and> list_all to_ok ops \<and>
    all_edits ops = drop a (take b (ol_edits ol))"
  by (rule iter_ops_range_spec[OF assms])

theorem iter_ops_range_witness:
  "\<exists>ops. iter_ops_range si_scan sample_oplog (dtr 3 8) = Some ops \<and> list_all to_ok ops \<and>
    all_edits ops = drop 3 (take 8 (ol_edits sample_oplog))"
  by (rule iter_ops_range_correct[OF si_scan_ok sample_oplog_ok(1)]) (simp_all add: sample_oplog_ok(2))

text \<open>
  C9: iterating over what an oplog holds since a frontier gives well formed operations that make, in
  order, exactly the edits whose versions are not in the history of the frontier.
\<close>

theorem iter_range_since_correct:
  assumes "str_indices_ok si" "oplog_ok ol" "\<forall>v \<in> set f. v < ol_len ol"
  shows "\<exists>ops. iter_range_since si ol f = Some ops \<and> list_all to_ok ops \<and>
    all_edits ops = map ((!) (ol_edits ol)) (sorted_list_of_set ({..< ol_len ol} - ghist (cg_graph (ol_cg ol)) f))"
  by (rule iter_range_since_spec[OF assms])

theorem iter_range_since_witness:
  "\<exists>ops. iter_range_since si_scan sample_oplog [4] = Some ops \<and> list_all to_ok ops \<and>
    all_edits ops = map ((!) (ol_edits sample_oplog))
      (sorted_list_of_set ({..< ol_len sample_oplog} - ghist (cg_graph (ol_cg sample_oplog)) [4]))"
  by (rule iter_range_since_correct[OF si_scan_ok sample_oplog_ok(1)]) (simp add: sample_oplog_ok(2))

section \<open>The content tree\<close>

text \<open>
  C4: \<open>ContentTree::insert\<close> at a cursor refines inserting into the plain sequence of characters.  In a tree
  with room for more nodes, whose cursor stands between \<open>bef\<close> and \<open>aft\<close>, it returns for every valid run: the new tree is
  in shape (leaf chain, parent links, widths up to the pending change of the cursor), holds \<open>bef\<close>, the characters of
  the run, and \<open>aft\<close>, and the cursor stands behind the run.  Appending to a run, filling a leaf, and splitting leaves,
  inner nodes and the root are the cases.
\<close>

theorem content_insert_correct:
  assumes "cursor_ok crdt_content cs_items cs_valid t dc bef aft" "cs_valid item"
    and "lp_fits (seq_len crdt_item_len (bef @ cs_items item @ aft))" "tree_room t"
  shows "\<exists>t' dc' ns. ct_insert crdt_content t item dc here = Some (t', dc', ns) \<and> ct_cursor t' = ct_cursor t \<and>
    cursor_ok crdt_content cs_items cs_valid t' dc' (bef @ cs_items item) aft"
  by (rule crdt.ct_insert_ok[OF assms])

theorem content_insert_witness:
  "\<exists>t' dc' ns. ct_insert crdt_content (ct_new crdt_content) (sample_span 0 3) (cursor_default, lu_zero) True = Some (t', dc', ns) \<and>
    ct_cursor t' = None \<and> cursor_ok crdt_content cs_items cs_valid t' dc' (cs_items (sample_span 0 3)) []"
  using content_insert_correct[OF crdt.settled_start[OF crdt.ct_new_ok], of "sample_span 0 3" True]
  by (simp add: sample_span_facts ct_new_def tree_room_def usize_max_def)

text \<open>
  C5: \<open>ContentTree::mut_cursor_before_cur_pos\<close>, from the root or from the cached cursor, whose pending change it
  writes back, returns for every position below the current length: the cursor stands behind characters of
  which exactly \<open>pos\<close> are visible now, the returned number of them is visible at the end, the next character is a
  visible one, the sequence is unchanged and nothing is cached any more.
\<close>

theorem content_search_correct:
  assumes "content_state crdt_content cs_items cs_valid crdt_item_len t seq" "pos < lp_cur (seq_len crdt_item_len seq)"
    and "lp_fits (seq_len crdt_item_len seq)"
  shows "\<exists>t' end_pos dc bef aft. mut_cursor_before_cur_pos crdt_content t pos = Some (t', end_pos, dc) \<and>
    cursor_ok crdt_content cs_items cs_valid t' dc bef aft \<and> seq = bef @ aft \<and>
    seq_len crdt_item_len bef = \<lparr>lp_cur = pos, lp_end = end_pos\<rparr> \<and> before_current crdt_content t' (fst dc) \<and> ct_cursor t' = None"
  by (rule crdt.mut_cursor_before_cur_pos_ok[OF assms])

theorem content_search_witness:
  "\<exists>t' end_pos dc bef aft. mut_cursor_before_cur_pos crdt_content (sample_tree (sample_span 0 3)) 1 = Some (t', end_pos, dc) \<and>
    cursor_ok crdt_content cs_items cs_valid t' dc bef aft \<and> cs_items (sample_span 0 3) = bef @ aft \<and>
    seq_len crdt_item_len bef = \<lparr>lp_cur = 1, lp_end = end_pos\<rparr> \<and> before_current crdt_content t' (fst dc) \<and> ct_cursor t' = None"
  by (rule content_search_correct)
    (simp_all add: sample_span_facts sample_tree_ok)

text \<open>
  C34: the pieces of a run: cutting a run of inserted characters gives two valid runs with its first and its last
  characters, each with the left neighbour it was typed at, and a run may only be appended when the joined run stands
  for the characters of both.
\<close>

theorem crdt_span_correct:
  assumes "cs_valid x" "0 < at" "at < cs_len x"
  shows "cs_valid (fst (cs_truncate x at)) \<and> cs_valid (snd (cs_truncate x at)) \<and>
    cs_items x = cs_items (fst (cs_truncate x at)) @ cs_items (snd (cs_truncate x at)) \<and> cs_len (fst (cs_truncate x at)) = at \<and>
    cs_can_append (fst (cs_truncate x at)) (snd (cs_truncate x at)) \<and> 
    (cs_valid y \<and> cs_can_append x y \<longrightarrow> cs_items (cs_append x y) = cs_items x @ cs_items y)"
  using crdt_span.truncate_valid[OF assms] crdt_span.truncate_left[OF assms] crdt_span.truncate_right[OF assms]
    crdt_span.append_items[OF assms(1)] crdt_span.rejoin[OF assms] by (simp add: cs_defs span_defs Let_def)

theorem crdt_span_witness:
  "cs_items (sample_span 0 3) = cs_items (fst (cs_truncate (sample_span 0 3) 1)) @ cs_items (snd (cs_truncate (sample_span 0 3) 1))"
  using crdt_span_correct[of "sample_span 0 3" 1] by (simp add: sample_span_facts)

section \<open>Version summaries\<close>

text \<open>
  C27: intersecting a peer's summary with any causal graph returns a frontier whose history holds that of
  the given versions, lies within that and the history of what the summary names and is known here, and
  covers every known named version that is not followed by the agent's next named one in the next local
  version.  Where the agents wrote their consecutive versions one after the other it covers everything
  known and named.  The remainder names exactly the numbers that are not known.
\<close>

theorem intersect_summary_correct:
  assumes "cg_ok cg" "cg_len cg \<le> usize_max div 2" "summary_ok s" "\<forall>v \<in> set f. v < cg_len cg"
  shows "\<exists>d rem. intersect_with_summary cg s f = Some (d, rem) \<and> frontier_ok (cg_graph cg) d \<and>
    ghist (cg_graph cg) f \<union> hist (vparents (cg_graph cg)) (run_ends cg (summary_set s)) \<subseteq> ghist (cg_graph cg) d \<and>
    ghist (cg_graph cg) d \<subseteq> ghist (cg_graph cg) f \<union> hist (vparents (cg_graph cg)) (known_named cg (summary_set s)) \<and>
    (agents_linear cg \<longrightarrow>
      ghist (cg_graph cg) d = ghist (cg_graph cg) f \<union> hist (vparents (cg_graph cg)) (known_named cg (summary_set s))) \<and>
    remainder_set rem = {(n, q) \<in> summary_set s. \<forall>v. try_remote_to_local_version (cg_aa cg) (n, q) \<noteq> Inr v} \<and>
    (rem = None \<longleftrightarrow> remainder_set rem = {})"
  by (rule intersect_with_summary_spec[OF assms])

theorem intersect_summary_witness:
  "\<exists>d rem. intersect_with_summary sample_cg [\<lparr>vse_name = [0x6D, 0x69, 0x6B, 0x65], vse_ranges = [dtr 0 9]\<rparr>] [0] = Some (d, rem) \<and>
    frontier_ok (cg_graph sample_cg) d \<and>
    ghist (cg_graph sample_cg) d = ghist (cg_graph sample_cg) [0] \<union> hist (vparents (cg_graph sample_cg))
      (known_named sample_cg (summary_set [\<lparr>vse_name = [0x6D, 0x69, 0x6B, 0x65], vse_ranges = [dtr 0 9]\<rparr>]))"
proof -
  let ?s = "[\<lparr>vse_name = [0x6D, 0x69, 0x6B, 0x65], vse_ranges = [dtr 0 9]\<rparr>]"
  have "cg_len sample_cg \<le> usize_max div 2" "summary_ok ?s" "\<forall>v \<in> set [0]. v < cg_len sample_cg"
    by (simp_all add: sample_values(8) usize_max_def summary_ok_def)
  from intersect_summary_correct[OF sample_cg_ok(4) this] show ?thesis
    using sample_linear by (elim exE conjE) (intro exI conjI, assumption, assumption, rule mp)
qed

text \<open>
  A causal graph whose agents wrote their versions one after the other, intersected with its own
  summary from the empty frontier, gives its own version and no remainder.
\<close>

theorem own_summary_correct:
  assumes "cg_ok cg" "agents_linear cg" "cg_len cg \<le> usize_max div 2"
  shows "intersect_with_summary cg (summarize_versions (cg_aa cg)) [] = Some (cg_version cg, None)"
  by (rule own_summary[OF assms])

theorem own_summary_witness:
  "intersect_with_summary sample_cg (summarize_versions (cg_aa sample_cg)) [] = Some (cg_version sample_cg, None)"
  by (rule own_summary_correct[OF sample_cg_ok(4) sample_linear]) (simp add: sample_values(8) usize_max_def)

text \<open>
  An example of the other case: one agent wrote two consecutive versions on different branches, and the
  intersection keeps only the last of them, so that the frontier misses a version both sides know.
\<close>

lemma summary_branch_example:
  "cg_version branching_cg = [0, 1] \<and>
   intersect_with_summary branching_cg (summarize_versions (cg_aa branching_cg)) [] = Some ([1], None)"
  by (simp only: branching_values branching_loses simp_thms)

text \<open>
  For agents without gaps the intersection with a flat summary does not panic, returns the
  frontier of the given versions and everything named that is known here, and leaves a remainder,
  taken from the summary, exactly when something named is not known.
\<close>

theorem flat_summary_correct:
  assumes "cg_ok cg" "agents_linear cg" "cg_len cg \<le> usize_max div 2" "agents_packed (cg_aa cg)" "\<forall>v \<in> set f. v < cg_len cg"
  shows "\<exists>d rem. intersect_with_flat_summary cg s f = Some (d, rem) \<and> frontier_ok (cg_graph cg) d \<and>
    ghist (cg_graph cg) d = ghist (cg_graph cg) f \<union>
      hist (vparents (cg_graph cg)) {v. \<exists>(n, q) \<in> flat_set s. try_remote_to_local_version (cg_aa cg) (n, q) = Inr v} \<and>
    (rem = None \<longleftrightarrow> (\<forall>x \<in> flat_set s. \<exists>v. try_remote_to_local_version (cg_aa cg) x = Inr v)) \<and>
    set (case rem of None \<Rightarrow> [] | Some r \<Rightarrow> r) \<subseteq> set s"
  by (rule intersect_with_flat_summary_spec[OF assms])

theorem flat_summary_witness:
  "\<exists>d rem. intersect_with_flat_summary sample_cg [([0x6D, 0x69, 0x6B, 0x65], 4)] [0] = Some (d, rem) \<and>
    frontier_ok (cg_graph sample_cg) d"
proof -
  have "cg_len sample_cg \<le> usize_max div 2" "\<forall>v \<in> set [0]. v < cg_len sample_cg"
    by (simp_all add: sample_values(8) usize_max_def)
  from flat_summary_correct[OF sample_cg_ok(4) sample_linear this(1) sample_packed this(2),
      of "[([0x6D, 0x69, 0x6B, 0x65], 4)]"]
  show ?thesis by (elim exE conjE) (intro exI conjI)
qed

section \<open>The binary format\<close>

text \<open>
  C35: decoding what \<open>encode_prefix_varint_u64\<close> wrote, with anything after it, returns the number and
  the length of its encoding.
\<close>

theorem varint_u64_correct:
  "decode_prefix_varint_u64 (take (snd (encode_prefix_varint_u64 v)) (fst (encode_prefix_varint_u64 v)) @ rest) =
     Inr (v, length (take (snd (encode_prefix_varint_u64 v)) (fst (encode_prefix_varint_u64 v))))"
  using varint_u64_roundtrip[of v rest] unfolding enc_bytes_u64_def by (simp add: case_prod_beta)

text \<open>
  The unrolled decoder, with its wide unaligned reads, agrees with the loop on every buffer,
  short and malformed ones included.
\<close>

theorem varint_unrolled_correct: "decode_prefix_varint_u64_unroll buf = decode_prefix_varint_u64 buf"
  by (rule decode_unroll_eq)

text \<open>
  A number of 32 bits has the same encoding as a \<open>u32\<close> and as a \<open>u64\<close>, and decoding it as a
  \<open>u32\<close> returns it.
\<close>

theorem varint_u32_correct:
  "take (snd (encode_prefix_varint_u32 v)) (fst (encode_prefix_varint_u32 v)) =
     take (snd (encode_prefix_varint_u64 (ucast v))) (fst (encode_prefix_varint_u64 (ucast v))) \<and>
   decode_prefix_varint_u32_loop (take (snd (encode_prefix_varint_u32 v)) (fst (encode_prefix_varint_u32 v)) @ rest) =
     Inr (v, length (take (snd (encode_prefix_varint_u32 v)) (fst (encode_prefix_varint_u32 v))))"
  using encode_u32_eq[of v] varint_u32_roundtrip[of v rest] unfolding enc_bytes_u64_def enc_bytes_u32_def
  by (simp add: case_prod_beta)

text \<open>The zigzag coding of 64 bit numbers is a bijection; the two functions are inverse to each other.\<close>

theorem zigzag_correct:
  "num_decode_zigzag_i64 (num_encode_zigzag_i64 v) = v \<and> num_encode_zigzag_i64 (num_decode_zigzag_i64 u) = u"
  using zigzag_roundtrip zigzag_onto by blast

text \<open>
  C36: encoding any \<open>u64\<close> with LEB128 into a buffer of at least ten bytes does not panic, and decoding
  the written bytes, whatever follows them, returns the number.
\<close>

theorem leb_correct:
  assumes "10 \<le> length buf"
  shows "\<exists>buf' n. encode_leb_u64 v buf = Some (buf', n) \<and> n \<le> 10 \<and>
    (\<forall>rest. decode_leb_u64 (take n buf' @ rest) = Inr (v, n))"
  by (rule encode_leb_spec[OF assms])

theorem leb_witness:
  "\<exists>buf' n. encode_leb_u64 300 (replicate 10 0) = Some (buf', n) \<and> n \<le> 10 \<and>
    (\<forall>rest. decode_leb_u64 (take n buf' @ rest) = Inr (300, n))"
  by (rule leb_correct) simp

text \<open>
  C37: the fast LEB128 decoder returns the same number, length and error as the slow one on every buffer
  that does not have exactly ten bytes.
\<close>

theorem decode_leb_correct:
  assumes "length buf \<noteq> 10"
  shows "decode_leb_u64 buf = decode_leb_u64_slow buf"
  by (rule decode_leb_eq_slow[OF assms])

theorem decode_leb_witness: "decode_leb_u64 [0xAC, 0x02, 7] = decode_leb_u64_slow [0xAC, 0x02, 7]"
  by (rule decode_leb_correct) simp

text \<open>
  C38: \<open>next_chunk\<close> reads back the kind and the bytes of a chunk \<open>push_chunk\<close> wrote, and leaves what
  follows it.
\<close>

theorem chunk_roundtrip_correct:
  assumes "length data < 2 ^ 64"
  shows "\<exists>bytes. push_chunk (try_of_extend vec_extend) v ct data = Some (v @ bytes) \<and>
    next_chunk False (bytes @ rest) = Some (Inr (ct, data), rest)"
  by (rule next_chunk_push[OF assms])

theorem chunk_roundtrip_witness:
  "\<exists>bytes. push_chunk (try_of_extend vec_extend) [9] Version [1, 2, 3] = Some ([9] @ bytes) \<and>
    next_chunk False (bytes @ [7]) = Some (Inr (Version, [1, 2, 3]), [7])"
  by (rule chunk_roundtrip_correct) simp

text \<open>
  C39: \<open>next_chunk\<close> returns on every input and never panics.  It returns a chunk exactly when, after
  some number of whole chunks of unknown kind, the kind, the length and the body of that chunk follow, and
  it leaves what is behind the body.  It returns an error exactly when, after some number of unknown
  chunks, the kind or the length is not a number, which is the error of the decoder, or the length is
  more than what is left, which is \<open>InvalidLength\<close>.
\<close>

theorem next_chunk_correct:
  "next_chunk w p \<noteq> None \<and>
   (next_chunk w p = Some (Inr (c, body), p') \<longleftrightarrow>
      (\<exists>q. chunk_skips w p q \<and> chunk_at w q (chunk_code c) body p')) \<and>
   (next_chunk w p = Some (Inl e, p') \<longleftrightarrow> (\<exists>q. chunk_skips w p q \<and> chunk_fails w q e p'))"
  using next_chunk_returns[of w p] by (simp add: next_chunk_found chunk_found_def)

text \<open>
  C40: a write to the stack buffer appends all of the bytes when they fit and is refused otherwise;
  the position stays inside the buffer.
\<close>

theorem stack_buf_correct:
  assumes "sw_pos b \<le> length (sw_arr b)"
  shows "(if sw_pos b + length bs \<le> length (sw_arr b)
     then \<exists>b'. sw_try_extend b bs = Some b' \<and> sw_data_slice b' = sw_data_slice b @ bs \<and>
       length (sw_arr b') = length (sw_arr b) \<and> sw_pos b' \<le> length (sw_arr b')
     else sw_try_extend b bs = None)"
  using assms by (rule sw_extend_spec)

theorem stack_buf_witness:
  "if sw_pos (sw_new 4) + length [1, 2, 3 :: u8] \<le> length (sw_arr (sw_new 4))
     then \<exists>b'. sw_try_extend (sw_new 4) [1, 2, 3] = Some b' \<and> sw_data_slice b' = sw_data_slice (sw_new 4) @ [1, 2, 3] \<and>
       length (sw_arr b') = length (sw_arr (sw_new 4)) \<and> sw_pos b' \<le> length (sw_arr b')
     else sw_try_extend (sw_new 4) [1, 2, 3] = None"
  by (rule stack_buf_correct) (simp add: sw_new_def)

end
